(* ===== verification/Shm_Prelude.thy ===== *)
theory Shm_Prelude
  imports Main "HOL-Library.Word"
begin

text \<open>
  Shared vocabulary of the development: the machine integers of the Rust sources, the
  result type, the atomic compare-exchange, two-halves-in-one-word packings (the interface
  \<open>packed_word\<close>, provided by every component that packs two 32-bit fields into one
  64-bit atomic), the \<open>align_up\<close> helper that several crates repeat, and generic
  lemmas on words, lists and finite sets that the component theories use.
\<close>

unbundle bit_operations_syntax

section \<open>Machine integers and results\<close>

type_synonym u8 = "8 word"
type_synonym u16 = "16 word"
type_synonym u32 = "32 word"
type_synonym u64 = "64 word"

named_theorems shm_defs \<open>definitions unfolded together by the component proofs\<close>
named_theorems shm_inv \<open>preservation lemmas of the component invariants\<close>

text \<open>
  \<^verbatim>\<open>AtomicUxx::compare_exchange(expected, new)\<close> as a pure function: whether the exchange
  happened, and the value the cell holds afterwards.
\<close>

definition compare_exchange :: "'a \<Rightarrow> 'a \<Rightarrow> 'a \<Rightarrow> bool \<times> 'a" where
  "compare_exchange cell expected new =
     (if cell = expected then (True, new) else (False, cell))"

lemma compare_exchange_fst [simp]: "fst (compare_exchange c e n) \<longleftrightarrow> c = e"
  by (simp add: compare_exchange_def)

lemma compare_exchange_snd: "snd (compare_exchange c e n) = (if c = e then n else c)"
  by (simp add: compare_exchange_def)

section \<open>Two 32-bit halves in one 64-bit word\<close>

definition pack_halves :: "u32 \<Rightarrow> u32 \<Rightarrow> u64" where
  "pack_halves h l = push_bit 32 (ucast h) OR ucast l"

definition high_half :: "u64 \<Rightarrow> u32" where
  "high_half w = ucast (drop_bit 32 w)"

definition low_half :: "u64 \<Rightarrow> u32" where
  "low_half w = ucast w"

lemma high_half_pack [simp]: "high_half (pack_halves h l) = h"
  by (rule bit_word_eqI)
     (auto simp: high_half_def pack_halves_def bit_simps dest: bit_imp_le_length)

lemma low_half_pack [simp]: "low_half (pack_halves h l) = l"
  by (rule bit_word_eqI)
     (auto simp: low_half_def pack_halves_def bit_simps)

lemma pack_high_low [simp]: "pack_halves (high_half w) (low_half w) = w"
  by (rule bit_word_eqI)
     (auto simp: high_half_def low_half_def pack_halves_def bit_simps)

text \<open>
  The interface of a packing: two projections that invert it and lose nothing. What the
  clients need of it is that a compare-exchange on the word compares both halves at once.
\<close>

locale packed_word =
  fixes pack :: "u32 \<Rightarrow> u32 \<Rightarrow> u64" and hi :: "u64 \<Rightarrow> u32" and lo :: "u64 \<Rightarrow> u32"
  assumes hi_pack [simp]: "hi (pack h l) = h"
    and lo_pack [simp]: "lo (pack h l) = l"
    and pack_hi_lo [simp]: "pack (hi w) (lo w) = w"
begin

lemma pack_inject [simp]: "pack a b = pack c d \<longleftrightarrow> a = c \<and> b = d"
proof
  assume eq: "pack a b = pack c d"
  have "hi (pack a b) = hi (pack c d)" "lo (pack a b) = lo (pack c d)"
    using eq by simp_all
  then show "a = c \<and> b = d" by simp
qed simp

lemma word_eq_iff_halves: "w = v \<longleftrightarrow> hi w = hi v \<and> lo w = lo v"
  by (metis pack_hi_lo)

lemma word_eq_pack_iff: "w = pack a b \<longleftrightarrow> hi w = a \<and> lo w = b"
  by (metis hi_pack lo_pack pack_hi_lo)

lemma cas_packed:
  "compare_exchange (pack a b) (pack c d) n =
     (if a = c \<and> b = d then (True, n) else (False, pack a b))"
  by (simp add: compare_exchange_def)

end

interpretation halves: packed_word pack_halves high_half low_half
  by unfold_locales simp_all

section \<open>Rounding up to a power of two\<close>

text \<open>
  \<^verbatim>\<open>const fn align_up(x: usize, a: usize) -> usize { (x + a - 1) & !(a - 1) }\<close>, repeated
  in \<^verbatim>\<open>pool.rs\<close>, \<^verbatim>\<open>journal.rs\<close>, \<^verbatim>\<open>ring.rs\<close>, \<^verbatim>\<open>queue.rs\<close>. A \<^verbatim>\<open>usize\<close>
  is read as a natural number; the bit operation itself runs on the 64-bit word.
\<close>

definition align_up :: "nat \<Rightarrow> nat \<Rightarrow> nat" where
  "align_up x a =
     unat ((of_nat x + of_nat a - 1 :: u64) AND NOT (of_nat a - 1 :: u64))"

lemma unat_u64_less: "unat (w :: u64) < 2 ^ 64"
  using unsigned_less [of w] by simp

lemma unat_u32_less: "unat (w :: u32) < 2 ^ 32"
  using unsigned_less [of w] by simp

lemma unat_1_iff: "unat (w :: 'a :: len word) = Suc 0 \<longleftrightarrow> w = 1"
  by (metis One_nat_def unat_1 word_unat_eq_iff)

lemma unat_le_1_iff: "unat (w :: 'a :: len word) \<le> Suc 0 \<longleftrightarrow> w = 0 \<or> w = 1"
  by (simp add: le_Suc_eq unat_1_iff unat_0_iff)

lemma succ_0_iff: "(n :: 'a :: len word) + 1 = 0 \<longleftrightarrow> n = -1"
  by (simp add: eq_neg_iff_add_eq_0)

lemma unat_Suc_word: "(n :: 'a :: len word) \<noteq> -1 \<Longrightarrow> unat (n + 1) = Suc (unat n)"
  by (metis add.commute succ_0_iff unatSuc)

lemma unat_pred_word: "(n :: 'a :: len word) \<noteq> 0 \<Longrightarrow> unat (n - 1) = unat n - 1"
  by (metis One_nat_def unat_minus_one)

lemma unat_of_nat_u32: "a < 2 ^ 32 \<Longrightarrow> unat (of_nat a :: u32) = a"
  by (simp add: unat_of_nat)

lemma unat_of_nat_u64: "a < 2 ^ 64 \<Longrightarrow> unat (of_nat a :: u64) = a"
  by (simp add: unat_of_nat)

lemma of_nat_u32_inject:
  "a < 2 ^ 32 \<Longrightarrow> b < 2 ^ 32 \<Longrightarrow> (of_nat a :: u32) = of_nat b \<longleftrightarrow> a = b"
  by (metis unat_of_nat_u32)

lemma unat_drop_bit_u64: "unat (drop_bit k (w :: u64)) = unat w div 2 ^ k"
  by (metis drop_bit_eq_div unat_drop_bit_eq)

lemma and_not_mask_nat: "unat ((w :: u64) AND NOT (mask k)) = unat w div 2 ^ k * 2 ^ k"
proof -
  have "w AND NOT (mask k) = push_bit k (drop_bit k w)"
    by (rule bit_word_eqI) (auto simp: bit_simps not_le)
  moreover have "unat w div 2 ^ k * 2 ^ k < 2 ^ 64"
    by (rule le_less_trans [OF div_times_less_eq_dividend]) (use unat_u64_less in simp)
  moreover have "unat (push_bit k (drop_bit k w)) = (unat w div 2 ^ k * 2 ^ k) mod 2 ^ 64"
    by (simp only: unsigned_push_bit_eq unat_drop_bit_u64 take_bit_eq_mod)
       (simp add: push_bit_eq_mult)
  ultimately show ?thesis by simp
qed

lemma align_up_eq:
  assumes "k < 64" and "x + 2 ^ k \<le> 2 ^ 64"
  shows "align_up x (2 ^ k) = (x + 2 ^ k - 1) div 2 ^ k * 2 ^ k"
proof -
  have "(of_nat (x + 2 ^ k - 1) :: u64) = of_nat (x + 2 ^ k) - of_nat 1"
    by (rule of_nat_diff) (simp add: Suc_le_eq)
  then have "(of_nat x + of_nat (2 ^ k) - 1 :: u64) = of_nat (x + 2 ^ k - 1)"
    by simp
  moreover have "unat (of_nat (x + 2 ^ k - 1) :: u64) = x + 2 ^ k - 1"
    using assms(2) by (simp add: unat_of_nat take_bit_eq_mod)
  moreover have "(of_nat (2 ^ k) - 1 :: u64) = mask k"
    by (simp add: mask_eq_exp_minus_1)
  ultimately show ?thesis
    using assms(1) by (simp add: align_up_def and_not_mask_nat)
qed

end
