(* ===== verification/Shm_Desc.thy ===== *)
theory Shm_Desc
  imports Shm_Prelude
begin

text \<open>
  \<^verbatim>\<open>crates/shm-core/src/desc.rs\<close> and \<^verbatim>\<open>error.rs\<close>: the 24-byte chunk descriptor that
  every primitive passes around, the 64-bit \<^verbatim>\<open>PackedRef\<close> manifest pointer, and the error
  enum of the substrate. Shown: the packed reference is an instance of \<open>packed_word\<close>,
  so packing the pointer fields of a descriptor loses exactly the non-pointer fields.
\<close>

section \<open>Errors of the substrate\<close>

text \<open>The two transparent OS wrappers keep no payload here: no modelled operation raises one.\<close>

datatype shm_error =
    StaleDescriptor
  | LayoutMismatch
  | OutOfBounds
  | Misaligned
  | PoolExhausted
  | JournalFull
  | InvalidState
  | LayoutOverflow string
  | Io
  | Nix

section \<open>Chunk descriptors\<close>

record chunk_desc =
  segment_id :: u32
  generation :: u32
  offset :: u32
  len :: u32
  schema_id :: u32
  desc_pad :: u32

definition ZERO_desc :: chunk_desc where
  "ZERO_desc = \<lparr>segment_id = 0, generation = 0, offset = 0, len = 0, schema_id = 0, desc_pad = 0\<rparr>"

definition is_zero :: "chunk_desc \<Rightarrow> bool" where
  "is_zero d \<longleftrightarrow> d = ZERO_desc"

section \<open>Packed references\<close>

type_synonym packed_ref = u64

definition OFFSET_BITS :: nat where "OFFSET_BITS = 32"
definition SEGMENT_BITS :: nat where "SEGMENT_BITS = 32"
definition OFFSET_MASK :: u64 where "OFFSET_MASK = push_bit OFFSET_BITS 1 - 1"
definition SEGMENT_MASK :: u64 where "SEGMENT_MASK = push_bit SEGMENT_BITS 1 - 1"
definition SEGMENT_SHIFT :: nat where "SEGMENT_SHIFT = OFFSET_BITS"

definition ref_pack :: "u32 \<Rightarrow> u32 \<Rightarrow> packed_ref" where
  "ref_pack seg off = push_bit SEGMENT_SHIFT (ucast seg) OR ucast off"

definition from_desc :: "chunk_desc \<Rightarrow> packed_ref" where
  "from_desc d = ref_pack (segment_id d) (offset d)"

definition ref_segment_id :: "packed_ref \<Rightarrow> u32" where
  "ref_segment_id r = ucast (drop_bit SEGMENT_SHIFT r AND SEGMENT_MASK)"

definition ref_offset :: "packed_ref \<Rightarrow> u32" where
  "ref_offset r = ucast (r AND OFFSET_MASK)"

definition unpack :: "packed_ref \<Rightarrow> u32 \<times> u32" where
  "unpack r = (ref_segment_id r, ref_offset r)"

lemma masks_eq: "OFFSET_MASK = mask 32" "SEGMENT_MASK = mask 32"
  by (simp_all add: OFFSET_MASK_def SEGMENT_MASK_def OFFSET_BITS_def SEGMENT_BITS_def
      mask_eq_exp_minus_1)

lemma ref_pack_eq_halves: "ref_pack = pack_halves"
  by (simp add: fun_eq_iff ref_pack_def pack_halves_def SEGMENT_SHIFT_def OFFSET_BITS_def)

lemma ref_segment_id_eq_high: "ref_segment_id = high_half"
  unfolding fun_eq_iff ref_segment_id_def high_half_def masks_eq SEGMENT_SHIFT_def OFFSET_BITS_def
  by (intro allI bit_word_eqI) (auto simp: bit_simps)

lemma ref_offset_eq_low: "ref_offset = low_half"
  unfolding fun_eq_iff ref_offset_def low_half_def masks_eq
  by (intro allI bit_word_eqI) (auto simp: bit_simps)

interpretation pref: packed_word ref_pack ref_segment_id ref_offset
  by (simp add: ref_pack_eq_halves ref_segment_id_eq_high ref_offset_eq_low
      halves.packed_word_axioms)

lemma unpack_pack [simp]: "unpack (ref_pack s off) = (s, off)"
  by (simp add: unpack_def)

lemma ref_pack_unpack: "unpack r = (s, off) \<longleftrightarrow> r = ref_pack s off"
  by (auto simp: unpack_def)

end
