(* ===== verification/Shm_Ctrl.thy ===== *)
theory Shm_Ctrl
  imports Shm_Desc
begin

text \<open>
  \<^verbatim>\<open>crates/shm-core/src/ctrl.rs\<close>: the per-chunk control word and the borrow state machine
  \<^verbatim>\<open>FREE -> LOANED -> PUBLISHED -> FREE\<close>. Each operation is modelled as the run of its body
  that no other party interrupts, in which a CAS loop exits at its first exchange; the
  retries under interference are the step relation of theory \<open>Shm_Ctrl_Conc\<close>.
  \<open>chunk_life\<close> is the abstract contract (who owns the chunk, how many pins), and the
  refinement lemmas say every operation implements it.
\<close>

section \<open>The control word\<close>

definition FREE :: u32 where "FREE = 0"
definition LOANED :: u32 where "LOANED = 1"
definition PUBLISHED :: u32 where "PUBLISHED = 2"
definition OWNER_NONE :: u32 where "OWNER_NONE = 0"

lemma ctrl_states_distinct [simp]:
  "FREE \<noteq> LOANED" "FREE \<noteq> PUBLISHED" "LOANED \<noteq> PUBLISHED"
  "LOANED \<noteq> FREE" "PUBLISHED \<noteq> FREE" "PUBLISHED \<noteq> LOANED"
  by (simp_all add: FREE_def LOANED_def PUBLISHED_def)

definition pack_word :: "u32 \<Rightarrow> u32 \<Rightarrow> u64" where
  "pack_word st n = push_bit 32 (ucast st) OR ucast n"

definition word_state :: "u64 \<Rightarrow> u32" where
  "word_state w = ucast (drop_bit 32 w)"

definition word_refcount :: "u64 \<Rightarrow> u32" where
  "word_refcount w = ucast w"

interpretation cw: packed_word pack_word word_state word_refcount
proof -
  have "pack_word = pack_halves" "word_state = high_half" "word_refcount = low_half"
    by (simp_all add: fun_eq_iff pack_word_def pack_halves_def word_state_def high_half_def
        word_refcount_def low_half_def)
  then show "packed_word pack_word word_state word_refcount"
    by (simp add: halves.packed_word_axioms)
qed

record chunk_ctrl =
  ctrl_word :: u64
  owner_actor :: u32
  ctrl_generation :: u32

definition init_at :: "u32 \<Rightarrow> chunk_ctrl" where
  "init_at g = \<lparr>ctrl_word = pack_word FREE 0, owner_actor = OWNER_NONE, ctrl_generation = g\<rparr>"

definition ctrl_state :: "chunk_ctrl \<Rightarrow> u32" where
  "ctrl_state c = word_state (ctrl_word c)"

definition refcount :: "chunk_ctrl \<Rightarrow> u32" where
  "refcount c = word_refcount (ctrl_word c)"

section \<open>The transitions\<close>

definition try_loan :: "u32 \<Rightarrow> chunk_ctrl \<Rightarrow> (shm_error + unit) \<times> chunk_ctrl" where
  "try_loan owner c =
     (case compare_exchange (ctrl_word c) (pack_word FREE 0) (pack_word LOANED 0) of
        (False, _) \<Rightarrow> (Inl InvalidState, c)
      | (True, w) \<Rightarrow> (Inr (), c\<lparr>ctrl_word := w, owner_actor := owner\<rparr>))"

definition publish :: "chunk_ctrl \<Rightarrow> (shm_error + unit) \<times> chunk_ctrl" where
  "publish c =
     (let cur = ctrl_word c in
      if word_state cur \<noteq> LOANED then (Inl InvalidState, c)
      else (Inr (), c\<lparr>ctrl_word :=
              snd (compare_exchange (ctrl_word c) cur (pack_word PUBLISHED (word_refcount cur)))\<rparr>))"

definition drop_loan :: "chunk_ctrl \<Rightarrow> (shm_error + unit) \<times> chunk_ctrl" where
  "drop_loan c =
     (let cur = ctrl_word c in
      if word_state cur \<noteq> LOANED then (Inl InvalidState, c)
      else (Inr (), c\<lparr>ctrl_word := snd (compare_exchange (ctrl_word c) cur (pack_word FREE 0)),
                      owner_actor := OWNER_NONE,
                      ctrl_generation := ctrl_generation c + 1\<rparr>))"

definition borrow_shared :: "chunk_ctrl \<Rightarrow> (shm_error + unit) \<times> chunk_ctrl" where
  "borrow_shared c =
     (let cur = ctrl_word c in
      if word_state cur \<noteq> PUBLISHED then (Inl InvalidState, c)
      else let n = word_refcount cur in
           (Inr (), c\<lparr>ctrl_word :=
              snd (compare_exchange (ctrl_word c) cur (pack_word PUBLISHED (n + 1)))\<rparr>))"

definition try_reclaim :: "chunk_ctrl \<Rightarrow> bool \<times> chunk_ctrl" where
  "try_reclaim c =
     (if owner_actor c \<noteq> OWNER_NONE then (False, c)
      else case compare_exchange (ctrl_word c) (pack_word PUBLISHED 0) (pack_word FREE 0) of
             (True, w) \<Rightarrow> (True, c\<lparr>ctrl_word := w, ctrl_generation := ctrl_generation c + 1\<rparr>)
           | (False, _) \<Rightarrow> (False, c))"

definition release_shared :: "chunk_ctrl \<Rightarrow> bool \<times> chunk_ctrl" where
  "release_shared c =
     (let cur = ctrl_word c;
          n = word_refcount cur;
          owner_gone = (owner_actor c = OWNER_NONE);
          new = (if n = 1 \<and> owner_gone then pack_word FREE 0 else pack_word PUBLISHED (n - 1));
          c' = c\<lparr>ctrl_word := snd (compare_exchange (ctrl_word c) cur new)\<rparr>
      in if word_state new = FREE
         then (True, c'\<lparr>ctrl_generation := ctrl_generation c' + 1\<rparr>)
         else if n = 1 then try_reclaim c'
         else (False, c'))"

definition owner_release :: "chunk_ctrl \<Rightarrow> bool \<times> chunk_ctrl" where
  "owner_release c = try_reclaim (c\<lparr>owner_actor := OWNER_NONE\<rparr>)"

definition force_free :: "chunk_ctrl \<Rightarrow> u32 \<times> chunk_ctrl" where
  "force_free c =
     (let c' = c\<lparr>ctrl_word := pack_word FREE 0, owner_actor := OWNER_NONE,
                 ctrl_generation := ctrl_generation c + 1\<rparr>
      in (ctrl_generation c + 1, c'))"

definition validate :: "chunk_ctrl \<Rightarrow> chunk_desc \<Rightarrow> shm_error + unit" where
  "validate c d = (if generation d = ctrl_generation c then Inr () else Inl StaleDescriptor)"

lemmas [shm_defs] = try_loan_def publish_def drop_loan_def borrow_shared_def try_reclaim_def
  release_shared_def owner_release_def force_free_def compare_exchange_def Let_def

section \<open>The contract: who holds the chunk\<close>

datatype chunk_life =
    Free
  | Loaned u32
  | Published "u32 option" nat \<comment> \<open>the owner, if it has not released; the shared pins\<close>

datatype ctrl_op =
    Op_loan u32
  | Op_publish
  | Op_drop_loan
  | Op_borrow
  | Op_release
  | Op_owner_release
  | Op_reclaim
  | Op_force_free

text \<open>A published chunk that neither the owner nor a reader holds goes back to \<open>Free\<close>.\<close>

fun settle :: "chunk_life \<Rightarrow> bool \<times> chunk_life" where
  "settle (Published None 0) = (True, Free)"
| "settle l = (False, l)"

fun life_step :: "ctrl_op \<Rightarrow> chunk_life \<Rightarrow> bool \<times> chunk_life" where
  "life_step (Op_loan ow) Free = (True, Loaned ow)"
| "life_step Op_publish (Loaned ow) = (True, Published (Some ow) 0)"
| "life_step Op_drop_loan (Loaned ow) = (True, Free)"
| "life_step Op_borrow (Published h n) = (True, Published h (Suc n))"
| "life_step Op_release (Published h n) = settle (Published h (n - 1))"
| "life_step Op_owner_release (Published h n) = settle (Published None n)"
| "life_step Op_reclaim l = settle l"
| "life_step Op_force_free l = (True, Free)"
| "life_step _ l = (False, l)"

fun exec :: "ctrl_op \<Rightarrow> chunk_ctrl \<Rightarrow> bool \<times> chunk_ctrl" where
  "exec (Op_loan ow) c = (case try_loan ow c of (r, c') \<Rightarrow> (r = Inr (), c'))"
| "exec Op_publish c = (case publish c of (r, c') \<Rightarrow> (r = Inr (), c'))"
| "exec Op_drop_loan c = (case drop_loan c of (r, c') \<Rightarrow> (r = Inr (), c'))"
| "exec Op_borrow c = (case borrow_shared c of (r, c') \<Rightarrow> (r = Inr (), c'))"
| "exec Op_release c = release_shared c"
| "exec Op_owner_release c = owner_release c"
| "exec Op_reclaim c = try_reclaim c"
| "exec Op_force_free c = (True, snd (force_free c))"

definition abs_ctrl :: "chunk_ctrl \<Rightarrow> chunk_life" where
  "abs_ctrl c =
     (if ctrl_state c = FREE then Free
      else if ctrl_state c = LOANED then Loaned (owner_actor c)
      else Published (if owner_actor c = OWNER_NONE then None else Some (owner_actor c))
             (unat (refcount c)))"

text \<open>
  Well-formed control words: the state half is one of the three states, a count only on a
  published chunk, an owner on a loaned one, and no published chunk that nobody holds.
\<close>

definition ctrl_ok :: "chunk_ctrl \<Rightarrow> bool" where
  "ctrl_ok c \<longleftrightarrow>
     (ctrl_state c = FREE \<and> refcount c = 0 \<and> owner_actor c = OWNER_NONE)
   \<or> (ctrl_state c = LOANED \<and> refcount c = 0 \<and> owner_actor c \<noteq> OWNER_NONE)
   \<or> (ctrl_state c = PUBLISHED \<and> (refcount c = 0 \<longrightarrow> owner_actor c \<noteq> OWNER_NONE))"

text \<open>The callers' side of the contract: the \<^verbatim>\<open>debug_assert\<close>s of the operations.\<close>

fun legal :: "ctrl_op \<Rightarrow> chunk_ctrl \<Rightarrow> bool" where
  "legal (Op_loan ow) c \<longleftrightarrow> ow \<noteq> OWNER_NONE"
| "legal Op_borrow c \<longleftrightarrow> refcount c \<noteq> -1"
| "legal Op_release c \<longleftrightarrow> ctrl_state c = PUBLISHED \<and> refcount c \<noteq> 0"
| "legal Op_owner_release c \<longleftrightarrow> ctrl_state c \<noteq> LOANED"
| "legal _ c \<longleftrightarrow> True"

lemma ctrl_state_pack [simp]:
  "ctrl_state (c\<lparr>ctrl_word := pack_word st n\<rparr>) = st"
  "refcount (c\<lparr>ctrl_word := pack_word st n\<rparr>) = n"
  by (simp_all add: ctrl_state_def refcount_def)

lemma ctrl_frame [simp]:
  "ctrl_state (c\<lparr>owner_actor := ow\<rparr>) = ctrl_state c"
  "ctrl_state (c\<lparr>ctrl_generation := g\<rparr>) = ctrl_state c"
  "refcount (c\<lparr>owner_actor := ow\<rparr>) = refcount c"
  "refcount (c\<lparr>ctrl_generation := g\<rparr>) = refcount c"
  by (simp_all add: ctrl_state_def refcount_def)

lemma ctrl_word_pack: "ctrl_word c = pack_word st n \<longleftrightarrow> ctrl_state c = st \<and> refcount c = n"
  by (simp add: cw.word_eq_pack_iff ctrl_state_def refcount_def)

lemma init_at_ok: "ctrl_ok (init_at g)" "abs_ctrl (init_at g) = Free"
  by (simp_all add: init_at_def ctrl_ok_def ctrl_state_def refcount_def abs_ctrl_def)

lemma ctrl_ok_cases [consumes 1, case_names free loaned published]:
  assumes "ctrl_ok c"
  obtains "ctrl_word c = pack_word FREE 0" "owner_actor c = OWNER_NONE"
  | "ctrl_word c = pack_word LOANED 0" "owner_actor c \<noteq> OWNER_NONE"
  | n where "ctrl_word c = pack_word PUBLISHED n" "n = 0 \<longrightarrow> owner_actor c \<noteq> OWNER_NONE"
  using assms unfolding ctrl_ok_def ctrl_word_pack by blast

lemma settle_Published:
  "settle (Published h n) = (if h = None \<and> n = 0 then (True, Free) else (False, Published h n))"
  by (cases h; cases n) auto

definition implements :: "ctrl_op \<Rightarrow> chunk_ctrl \<Rightarrow> bool" where
  "implements opn c \<longleftrightarrow>
     (case exec opn c of (b, c') \<Rightarrow> ctrl_ok c' \<and> life_step opn (abs_ctrl c) = (b, abs_ctrl c'))"

lemmas ctrl_eval = implements_def abs_ctrl_def ctrl_ok_def ctrl_state_def refcount_def
  shm_defs settle_Published unat_eq_zero

lemma loan_implements: "ctrl_ok c \<Longrightarrow> ow \<noteq> OWNER_NONE \<Longrightarrow> implements (Op_loan ow) c"
  by (cases rule: ctrl_ok_cases) (auto simp: ctrl_eval)

lemma publish_implements: "ctrl_ok c \<Longrightarrow> implements Op_publish c"
  by (cases rule: ctrl_ok_cases) (auto simp: ctrl_eval)

lemma drop_loan_implements: "ctrl_ok c \<Longrightarrow> implements Op_drop_loan c"
  by (cases rule: ctrl_ok_cases) (auto simp: ctrl_eval)

lemma borrow_implements: "ctrl_ok c \<Longrightarrow> refcount c \<noteq> -1 \<Longrightarrow> implements Op_borrow c"
  by (cases rule: ctrl_ok_cases) (auto simp: ctrl_eval unat_Suc_word succ_0_iff)

lemma reclaim_implements: "ctrl_ok c \<Longrightarrow> implements Op_reclaim c"
  by (cases rule: ctrl_ok_cases) (auto simp: ctrl_eval)

lemma owner_release_implements:
  "ctrl_ok c \<Longrightarrow> ctrl_state c \<noteq> LOANED \<Longrightarrow> implements Op_owner_release c"
  by (cases rule: ctrl_ok_cases) (auto simp: ctrl_eval)

lemma release_implements:
  "ctrl_ok c \<Longrightarrow> ctrl_state c = PUBLISHED \<Longrightarrow> refcount c \<noteq> 0 \<Longrightarrow> implements Op_release c"
  by (cases rule: ctrl_ok_cases) (auto simp: ctrl_eval unat_pred_word unat_le_1_iff)

lemma force_free_implements: "implements Op_force_free c"
  by (simp add: ctrl_eval)

lemma exec_implements: "ctrl_ok c \<Longrightarrow> legal opn c \<Longrightarrow> implements opn c"
  by (cases opn)
     (auto intro: loan_implements publish_implements drop_loan_implements borrow_implements
        release_implements owner_release_implements reclaim_implements force_free_implements)

text \<open>
  C5: every operation on a well-formed control word, called within its contract, keeps the
  word well-formed and does to the chunk what the abstract life cycle says, with the same
  success (or "this call freed it") flag.
\<close>

theorem ctrl_refines_life:
  assumes "ctrl_ok c" and "legal opn c"
  shows "ctrl_ok (snd (exec opn c))
       \<and> life_step opn (abs_ctrl c) = (fst (exec opn c), abs_ctrl (snd (exec opn c)))"
  using exec_implements [OF assms] by (simp add: implements_def case_prod_beta)

theorem ctrl_refines_life_witness:
  "ctrl_ok (snd (exec Op_release \<lparr>ctrl_word = pack_word PUBLISHED 1, owner_actor = 0, ctrl_generation = 7\<rparr>))
   \<and> abs_ctrl (snd (exec Op_release
        \<lparr>ctrl_word = pack_word PUBLISHED 1, owner_actor = 0, ctrl_generation = 7\<rparr>)) = Free"
proof -
  let ?c = "\<lparr>ctrl_word = pack_word PUBLISHED 1, owner_actor = 0, ctrl_generation = 7\<rparr> :: chunk_ctrl"
  have ok: "ctrl_ok ?c" and lg: "legal Op_release ?c"
    by (simp_all add: ctrl_ok_def ctrl_state_def refcount_def)
  have "abs_ctrl ?c = Published None 1"
    by (simp add: abs_ctrl_def ctrl_state_def refcount_def OWNER_NONE_def)
  then show ?thesis
    using ctrl_refines_life [OF ok lg] by (simp del: exec.simps)
qed

section \<open>Recycling and stale descriptors\<close>

text \<open>Whether a step recycles the chunk, and the recycles of a run of operations.\<close>

definition recycles :: "ctrl_op \<Rightarrow> chunk_ctrl \<Rightarrow> bool" where
  "recycles opn c \<longleftrightarrow>
     opn = Op_force_free \<or> (ctrl_state c \<noteq> FREE \<and> ctrl_state (snd (exec opn c)) = FREE)"

fun run_ops :: "ctrl_op list \<Rightarrow> chunk_ctrl \<Rightarrow> chunk_ctrl" where
  "run_ops [] c = c"
| "run_ops (x # xs) c = run_ops xs (snd (exec x c))"

fun recycle_count :: "ctrl_op list \<Rightarrow> chunk_ctrl \<Rightarrow> nat" where
  "recycle_count [] c = 0"
| "recycle_count (x # xs) c =
     (if recycles x c then 1 else 0) + recycle_count xs (snd (exec x c))"

fun legal_run :: "ctrl_op list \<Rightarrow> chunk_ctrl \<Rightarrow> bool" where
  "legal_run [] c \<longleftrightarrow> True"
| "legal_run (x # xs) c \<longleftrightarrow> legal x c \<and> legal_run xs (snd (exec x c))"

lemma exec_generation:
  assumes "ctrl_ok c" and "legal opn c"
  shows "ctrl_generation (snd (exec opn c)) = ctrl_generation c + (if recycles opn c then 1 else 0)"
  using assms
  by (cases opn; cases rule: ctrl_ok_cases)
     (auto simp: recycles_def ctrl_state_def refcount_def shm_defs)

lemma exec_ok: "ctrl_ok c \<Longrightarrow> legal opn c \<Longrightarrow> ctrl_ok (snd (exec opn c))"
  using exec_implements by (fastforce simp: implements_def)

lemma run_ops_generation:
  "ctrl_ok c \<Longrightarrow> legal_run xs c \<Longrightarrow>
     ctrl_generation (run_ops xs c) = ctrl_generation c + of_nat (recycle_count xs c)"
proof (induction xs arbitrary: c)
  case (Cons x xs)
  then have "ctrl_ok (snd (exec x c))" and "legal x c" and "legal_run xs (snd (exec x c))"
    by (auto intro: exec_ok simp del: exec.simps)
  with Cons show ?case
    by (simp add: exec_generation del: exec.simps)
qed simp

text \<open>
  C6: a descriptor minted at a chunk's generation is accepted after any run of operations
  exactly when the number of recycles since is a multiple of \<open>2^32\<close>: in particular it is
  rejected with \<open>StaleDescriptor\<close> after every recycle up to the wrap of the counter.
\<close>

theorem stale_after_recycle:
  assumes "ctrl_ok c" and "legal_run xs c" and "generation d = ctrl_generation c"
  shows "validate (run_ops xs c) d =
           (if 2 ^ 32 dvd recycle_count xs c then Inr () else Inl StaleDescriptor)"
  using run_ops_generation [OF assms(1,2)] assms(3)
  by (simp add: validate_def word_of_nat_eq_0_iff)

theorem stale_after_recycle_witness:
  "validate (run_ops [Op_publish, Op_borrow, Op_owner_release, Op_release]
       \<lparr>ctrl_word = pack_word LOANED 0, owner_actor = 5, ctrl_generation = 9\<rparr>)
     (ZERO_desc\<lparr>generation := 9\<rparr>) = Inl StaleDescriptor"
proof -
  let ?c = "\<lparr>ctrl_word = pack_word LOANED 0, owner_actor = 5, ctrl_generation = 9\<rparr> :: chunk_ctrl"
  let ?xs = "[Op_publish, Op_borrow, Op_owner_release, Op_release]"
  have ok: "ctrl_ok ?c"
    by (simp add: ctrl_ok_def ctrl_state_def refcount_def OWNER_NONE_def)
  have lg: "legal_run ?xs ?c" and n: "recycle_count ?xs ?c = 1"
    by (simp_all add: ctrl_state_def refcount_def shm_defs OWNER_NONE_def recycles_def)
  show ?thesis
    using stale_after_recycle [OF ok lg, of "ZERO_desc\<lparr>generation := 9\<rparr>"] n
    by (simp del: run_ops.simps)
qed

text \<open>
  a pin protects its chunk. While a reader holds a shared reference (the count is not
  zero), no sequence of the owner's and reclaimer's operations frees the chunk or changes
  its generation, so the reader's descriptor stays valid until it releases.
\<close>

theorem pin_protects:
  assumes "ctrl_ok c" and "ctrl_state c = PUBLISHED" and "refcount c \<noteq> 0"
    and "set xs \<subseteq> {Op_owner_release, Op_reclaim, Op_publish, Op_drop_loan, Op_loan ow}"
  shows "ctrl_word (run_ops xs c) = ctrl_word c
       \<and> ctrl_generation (run_ops xs c) = ctrl_generation c"
  using assms
proof (induction xs arbitrary: c)
  case (Cons x xs)
  let ?c = "snd (exec x c)"
  have same: "ctrl_word ?c = ctrl_word c \<and> ctrl_generation ?c = ctrl_generation c"
    using Cons.prems by (cases rule: ctrl_ok_cases) (auto simp: ctrl_state_def refcount_def shm_defs)
  then have st: "ctrl_state ?c = PUBLISHED" "refcount ?c \<noteq> 0"
    using Cons.prems by (simp_all add: ctrl_state_def refcount_def)
  then have "ctrl_ok ?c" by (simp add: ctrl_ok_def)
  then show ?case
    using Cons.IH [of ?c] Cons.prems st same by simp
qed simp

theorem pin_protects_witness:
  "ctrl_word (run_ops [Op_owner_release, Op_reclaim]
     \<lparr>ctrl_word = pack_word PUBLISHED 2, owner_actor = 5, ctrl_generation = 9\<rparr>)
   = pack_word PUBLISHED 2"
proof -
  let ?c = "\<lparr>ctrl_word = pack_word PUBLISHED 2, owner_actor = 5, ctrl_generation = 9\<rparr> :: chunk_ctrl"
  have "ctrl_ok ?c" "ctrl_state ?c = PUBLISHED" "refcount ?c \<noteq> 0"
    by (simp_all add: ctrl_ok_def ctrl_state_def refcount_def)
  then show ?thesis
    using pin_protects [of ?c "[Op_owner_release, Op_reclaim]" 1] by (simp del: run_ops.simps)
qed

end
