(* ===== verification/Shm_Ctrl_Conc.thy ===== *)
theory Shm_Ctrl_Conc
  imports Shm_Ctrl
begin

text \<open>
  The races of \<^verbatim>\<open>crates/shm-core/src/ctrl.rs\<close>: any number of readers run
  \<^verbatim>\<open>borrow_shared\<close> and \<^verbatim>\<open>release_shared\<close> on one published chunk while its owner
  runs \<^verbatim>\<open>owner_release\<close>. Every atomic access (load, store, compare-exchange,
  fetch-add) is one step, a failed exchange re-runs its loop with the value it saw, and the
  scheduler picks the party that moves. The interleaving is sequentially consistent, which is
  what the \<^verbatim>\<open>SeqCst\<close> accesses and fences of this protocol ask for.
  Shown: the count is the number of holders, nothing is freed while it is held, exactly one
  party frees the chunk, and once every party is done it has been freed.
\<close>

section \<open>The parties and their steps\<close>

datatype reader_pc =
    Idle
  | Borrow_cas u64         \<comment> \<open>saw \<open>PUBLISHED\<close> in this word, about to exchange\<close>
  | Holding                \<comment> \<open>holds a shared reference\<close>
  | Rel_owner u64          \<comment> \<open>\<open>release_shared\<close>: loaded the word, about to load the owner\<close>
  | Rel_cas u64 bool       \<comment> \<open>about to exchange; the flag is \<open>owner_gone\<close>\<close>
  | Rel_fence              \<comment> \<open>decremented to zero: \<open>try_reclaim\<close>, about to load the owner\<close>
  | Rel_reclaim            \<comment> \<open>\<open>try_reclaim\<close>, about to exchange\<close>
  | Bump                   \<comment> \<open>freed the chunk, about to bump the generation\<close>
  | Freed                  \<comment> \<open>\<open>release_shared\<close> returned true\<close>

datatype owner_pc = Own | Own_fence | Own_reclaim | Own_bump | Own_freed | Own_done

record chunk_sys =
  ctrl :: chunk_ctrl
  pcs :: "nat \<Rightarrow> reader_pc"
  opc :: owner_pc

definition set_pc :: "nat \<Rightarrow> reader_pc \<Rightarrow> chunk_sys \<Rightarrow> chunk_sys" where
  "set_pc i p s = s\<lparr>pcs := (pcs s)(i := p)\<rparr>"

definition set_word :: "u64 \<Rightarrow> chunk_sys \<Rightarrow> chunk_sys" where
  "set_word w s = s\<lparr>ctrl := (ctrl s)\<lparr>ctrl_word := w\<rparr>\<rparr>"

definition bump_generation :: "chunk_sys \<Rightarrow> chunk_sys" where
  "bump_generation s = s\<lparr>ctrl := (ctrl s)\<lparr>ctrl_generation := ctrl_generation (ctrl s) + 1\<rparr>\<rparr>"

abbreviation sys_word :: "chunk_sys \<Rightarrow> u64" where "sys_word s \<equiv> ctrl_word (ctrl s)"
abbreviation sys_owner :: "chunk_sys \<Rightarrow> u32" where "sys_owner s \<equiv> owner_actor (ctrl s)"

text \<open>The next atomic access of reader \<open>i\<close>.\<close>

definition reader_step :: "nat \<Rightarrow> chunk_sys \<Rightarrow> chunk_sys" where
  "reader_step i s = (case pcs s i of
     Idle \<Rightarrow>
       if word_state (sys_word s) \<noteq> PUBLISHED then s
       else set_pc i (Borrow_cas (sys_word s)) s
   | Borrow_cas cur \<Rightarrow>
       if sys_word s = cur
       then set_pc i Holding (set_word (pack_word PUBLISHED (word_refcount cur + 1)) s)
       else if word_state (sys_word s) \<noteq> PUBLISHED then set_pc i Idle s
       else set_pc i (Borrow_cas (sys_word s)) s
   | Holding \<Rightarrow> set_pc i (Rel_owner (sys_word s)) s
   | Rel_owner cur \<Rightarrow> set_pc i (Rel_cas cur (sys_owner s = OWNER_NONE)) s
   | Rel_cas cur owner_gone \<Rightarrow>
       (let n = word_refcount cur;
            new = (if n = 1 \<and> owner_gone then pack_word FREE 0 else pack_word PUBLISHED (n - 1))
        in if sys_word s = cur
           then set_pc i (if word_state new = FREE then Bump else if n = 1 then Rel_fence else Idle)
                  (set_word new s)
           else set_pc i (Rel_owner (sys_word s)) s)
   | Rel_fence \<Rightarrow> set_pc i (if sys_owner s \<noteq> OWNER_NONE then Idle else Rel_reclaim) s
   | Rel_reclaim \<Rightarrow>
       if sys_word s = pack_word PUBLISHED 0
       then set_pc i Bump (set_word (pack_word FREE 0) s)
       else set_pc i Idle s
   | Bump \<Rightarrow> set_pc i Freed (bump_generation s)
   | Freed \<Rightarrow> s)"

text \<open>The next atomic access of the owner's \<^verbatim>\<open>owner_release\<close>.\<close>

definition owner_step :: "chunk_sys \<Rightarrow> chunk_sys" where
  "owner_step s = (case opc s of
     Own \<Rightarrow> s\<lparr>ctrl := (ctrl s)\<lparr>owner_actor := OWNER_NONE\<rparr>, opc := Own_fence\<rparr>
   | Own_fence \<Rightarrow> s\<lparr>opc := if sys_owner s \<noteq> OWNER_NONE then Own_done else Own_reclaim\<rparr>
   | Own_reclaim \<Rightarrow>
       if sys_word s = pack_word PUBLISHED 0
       then (set_word (pack_word FREE 0) s)\<lparr>opc := Own_bump\<rparr>
       else s\<lparr>opc := Own_done\<rparr>
   | Own_bump \<Rightarrow> (bump_generation s)\<lparr>opc := Own_freed\<rparr>
   | Own_freed \<Rightarrow> s
   | Own_done \<Rightarrow> s)"

inductive conc_step :: "nat \<Rightarrow> chunk_sys \<Rightarrow> chunk_sys \<Rightarrow> bool" for n where
  reader_moves: "i < n \<Longrightarrow> conc_step n s (reader_step i s)"
| owner_moves: "conc_step n s (owner_step s)"

definition published_sys :: "u32 \<Rightarrow> u32 \<Rightarrow> chunk_sys" where
  "published_sys ow g =
     \<lparr>ctrl = \<lparr>ctrl_word = pack_word PUBLISHED 0, owner_actor = ow, ctrl_generation = g\<rparr>,
      pcs = (\<lambda>_. Idle), opc = Own\<rparr>"

inductive conc_reachable :: "nat \<Rightarrow> u32 \<Rightarrow> u32 \<Rightarrow> chunk_sys \<Rightarrow> bool" for n ow g where
  conc_start: "conc_reachable n ow g (published_sys ow g)"
| conc_next: "conc_reachable n ow g s \<Longrightarrow> conc_step n s t \<Longrightarrow> conc_reachable n ow g t"

section \<open>The invariant\<close>

fun holds_ref :: "reader_pc \<Rightarrow> bool" where
  "holds_ref Holding = True"
| "holds_ref (Rel_owner _) = True"
| "holds_ref (Rel_cas _ _) = True"
| "holds_ref _ = False"

definition holders :: "nat \<Rightarrow> chunk_sys \<Rightarrow> nat set" where
  "holders n s = {i. i < n \<and> holds_ref (pcs s i)}"

text \<open>The parties that freed the chunk; \<open>None\<close> is the owner.\<close>

definition freers :: "nat \<Rightarrow> chunk_sys \<Rightarrow> nat option set" where
  "freers n s = {Some i |i. i < n \<and> pcs s i \<in> {Bump, Freed}}
     \<union> (if opc s \<in> {Own_bump, Own_freed} then {None} else {})"

definition bumped :: "nat \<Rightarrow> chunk_sys \<Rightarrow> bool" where
  "bumped n s \<longleftrightarrow> (\<exists>i<n. pcs s i = Freed) \<or> opc s = Own_freed"

text \<open>A party that will still look at the chunk again and free it if nobody holds it.\<close>

definition pending :: "nat \<Rightarrow> chunk_sys \<Rightarrow> bool" where
  "pending n s \<longleftrightarrow> (\<exists>i<n. pcs s i \<in> {Rel_fence, Rel_reclaim}) \<or> opc s \<in> {Own_fence, Own_reclaim}"

definition life_inv :: "nat \<Rightarrow> chunk_sys \<Rightarrow> bool" where
  "life_inv n s \<longleftrightarrow>
     (if word_state (sys_word s) = FREE
      then sys_word s = pack_word FREE 0 \<and> holders n s = {} \<and> sys_owner s = OWNER_NONE
           \<and> (\<exists>a. freers n s = {a})
      else sys_word s = pack_word PUBLISHED (of_nat (card (holders n s))) \<and> freers n s = {}
           \<and> (sys_owner s = OWNER_NONE \<longrightarrow> holders n s = {} \<longrightarrow> pending n s))"

text \<open>What the local view of a reader says about the shared state.\<close>

fun pc_ok :: "bool \<Rightarrow> reader_pc \<Rightarrow> bool" where
  "pc_ok gone (Borrow_cas cur) \<longleftrightarrow> word_state cur = PUBLISHED"
| "pc_ok gone (Rel_cas cur b) \<longleftrightarrow> (b \<longrightarrow> gone)"
| "pc_ok gone Rel_reclaim \<longleftrightarrow> gone"
| "pc_ok gone _ \<longleftrightarrow> True"

definition conc_inv :: "nat \<Rightarrow> u32 \<Rightarrow> chunk_sys \<Rightarrow> bool" where
  "conc_inv n g s \<longleftrightarrow>
     life_inv n s
   \<and> (sys_owner s = OWNER_NONE \<longleftrightarrow> opc s \<noteq> Own)
   \<and> (\<forall>i<n. pc_ok (sys_owner s = OWNER_NONE) (pcs s i))
   \<and> ctrl_generation (ctrl s) = g + (if bumped n s then 1 else 0)"

section \<open>How a move of one party changes the derived sets\<close>

lemma sys_frame [simp]:
  "pcs (set_pc i p s) = (pcs s)(i := p)" "opc (set_pc i p s) = opc s" "ctrl (set_pc i p s) = ctrl s"
  "pcs (set_word w s) = pcs s" "opc (set_word w s) = opc s"
  "ctrl (set_word w s) = (ctrl s)\<lparr>ctrl_word := w\<rparr>"
  "pcs (bump_generation s) = pcs s" "opc (bump_generation s) = opc s"
  "ctrl (bump_generation s) = (ctrl s)\<lparr>ctrl_generation := ctrl_generation (ctrl s) + 1\<rparr>"
  by (simp_all add: set_pc_def set_word_def bump_generation_def)

lemma derived_frame [simp]:
  "holders n (set_word w s) = holders n s" "freers n (set_word w s) = freers n s"
  "pending n (set_word w s) = pending n s" "bumped n (set_word w s) = bumped n s"
  "holders n (bump_generation s) = holders n s" "freers n (bump_generation s) = freers n s"
  "pending n (bump_generation s) = pending n s" "bumped n (bump_generation s) = bumped n s"
  by (simp_all add: holders_def freers_def pending_def bumped_def)

lemma finite_holders [simp]: "finite (holders n s)"
  by (simp add: holders_def)

lemma card_holders_le: "card (holders n s) \<le> n"
  using card_mono [of "{..<n}" "holders n s"] by (auto simp: holders_def)

lemma holders_set_pc:
  "i < n \<Longrightarrow> holders n (set_pc i p s) =
     (if holds_ref p then insert i (holders n s) else holders n s - {i})"
  by (auto simp: holders_def)

lemma freers_set_pc:
  "i < n \<Longrightarrow> freers n (set_pc i p s) =
     (if p = Bump \<or> p = Freed then insert (Some i) (freers n s) else freers n s - {Some i})"
  by (auto simp: freers_def)

lemma in_holders: "i < n \<Longrightarrow> i \<in> holders n s \<longleftrightarrow> holds_ref (pcs s i)"
  by (simp add: holders_def)

lemma in_freers: "i < n \<Longrightarrow> Some i \<in> freers n s \<longleftrightarrow> pcs s i = Bump \<or> pcs s i = Freed"
  by (auto simp: freers_def)

lemma pending_set_pc_same:
  "pending n s \<Longrightarrow> pcs s i \<notin> {Rel_fence, Rel_reclaim} \<Longrightarrow> pending n (set_pc i p s)"
  by (auto simp: pending_def)

lemma pending_set_pc_new: "i < n \<Longrightarrow> p \<in> {Rel_fence, Rel_reclaim} \<Longrightarrow> pending n (set_pc i p s)"
  by (auto simp: pending_def)

lemma bumped_set_pc:
  "i < n \<Longrightarrow> pcs s i \<noteq> Freed \<Longrightarrow> bumped n (set_pc i p s) \<longleftrightarrow> p = Freed \<or> bumped n s"
  by (auto simp: bumped_def)

lemma bumpedD:
  "bumped n s \<Longrightarrow> (\<exists>j. Some j \<in> freers n s \<and> pcs s j = Freed) \<or> None \<in> freers n s"
  by (auto simp: bumped_def freers_def)

lemma bumped_freers: "bumped n s \<Longrightarrow> freers n s \<noteq> {}"
  using bumpedD by fastforce

section \<open>Every step keeps the invariant\<close>

lemma conc_invD:
  assumes "conc_inv n g s"
  shows "life_inv n s" and "sys_owner s = OWNER_NONE \<longleftrightarrow> opc s \<noteq> Own"
    and "i < n \<Longrightarrow> pc_ok (sys_owner s = OWNER_NONE) (pcs s i)"
    and "ctrl_generation (ctrl s) = g + (if bumped n s then 1 else 0)"
  using assms unfolding conc_inv_def by blast+

lemma life_inv_published:
  assumes "life_inv n s" and "word_state (sys_word s) \<noteq> FREE"
  shows "sys_word s = pack_word PUBLISHED (of_nat (card (holders n s)))" and "freers n s = {}"
    and "\<not> bumped n s"
  using assms bumped_freers [of n s] by (auto simp: life_inv_def)

lemma life_inv_state: "life_inv n s \<Longrightarrow> word_state (sys_word s) \<in> {FREE, PUBLISHED}"
  by (auto simp: life_inv_def cw.word_eq_pack_iff split: if_splits)

text \<open>A holder's chunk is published.\<close>

lemma life_inv_holder:
  assumes "life_inv n s" and "i < n" and "holds_ref (pcs s i)"
  shows "word_state (sys_word s) = PUBLISHED" and "i \<in> holders n s"
proof -
  show "i \<in> holders n s" using assms by (simp add: in_holders)
  then have "word_state (sys_word s) \<noteq> FREE" using assms(1) by (auto simp: life_inv_def)
  then show "word_state (sys_word s) = PUBLISHED" using life_inv_state [OF assms(1)] by simp
qed

text \<open>A move that neither takes nor drops a reference and frees nothing.\<close>

lemma life_inv_quiet:
  assumes inv: "life_inv n s" and i: "i < n"
    and h: "holds_ref p = holds_ref (pcs s i)"
    and f: "p \<notin> {Bump, Freed}" "pcs s i \<notin> {Bump, Freed}"
    and pend: "pcs s i \<in> {Rel_fence, Rel_reclaim} \<Longrightarrow> p \<in> {Rel_fence, Rel_reclaim}
                 \<or> sys_owner s \<noteq> OWNER_NONE \<or> sys_word s \<noteq> pack_word PUBLISHED 0"
  shows "life_inv n (set_pc i p s)"
proof -
  have H: "holders n (set_pc i p s) = holders n s"
    using h i by (auto simp: holders_set_pc in_holders insert_absorb)
  have F: "freers n (set_pc i p s) = freers n s"
    using f i by (auto simp: freers_set_pc in_freers)
  have P: "pending n (set_pc i p s)"
    if "pending n s" "sys_owner s = OWNER_NONE" "sys_word s = pack_word PUBLISHED 0"
    using that pend i pending_set_pc_same pending_set_pc_new by blast
  show ?thesis
  proof (cases "word_state (sys_word s) = FREE")
    case True
    with inv show ?thesis by (simp add: life_inv_def H F)
  next
    case False
    have W: "sys_word s = pack_word PUBLISHED 0" if "holders n s = {}"
      using life_inv_published(1) [OF inv False] that by simp
    have "pending n (set_pc i p s)" if "sys_owner s = OWNER_NONE" "holders n s = {}"
      using inv False that P [OF _ that(1) W [OF that(2)]] by (simp add: life_inv_def)
    with False inv show ?thesis by (simp add: life_inv_def H F)
  qed
qed

lemma conc_inv_quiet:
  assumes inv: "conc_inv n g s" and i: "i < n"
    and h: "holds_ref p = holds_ref (pcs s i)"
    and f: "p \<notin> {Bump, Freed}" "pcs s i \<notin> {Bump, Freed}"
    and pend: "pcs s i \<in> {Rel_fence, Rel_reclaim} \<Longrightarrow> p \<in> {Rel_fence, Rel_reclaim}
                 \<or> sys_owner s \<noteq> OWNER_NONE \<or> sys_word s \<noteq> pack_word PUBLISHED 0"
    and side: "pc_ok (sys_owner s = OWNER_NONE) p"
  shows "conc_inv n g (set_pc i p s)"
  using life_inv_quiet [OF conc_invD(1) [OF inv] i h f pend] conc_invD(2-4) [OF inv] side i f
  by (simp add: conc_inv_def bumped_set_pc)

text \<open>The moves that take a reference, drop one, or free the chunk.\<close>

lemma life_inv_borrow:
  assumes inv: "life_inv n s" and i: "i < n" and pc: "pcs s i = Borrow_cas cur"
    and st: "word_state cur = PUBLISHED" and eq: "sys_word s = cur"
  shows "life_inv n (set_pc i Holding (set_word (pack_word PUBLISHED (word_refcount cur + 1)) s))"
proof -
  have pub: "word_state (sys_word s) \<noteq> FREE" using st eq by simp
  have "i \<notin> holders n s" and "Some i \<notin> freers n s"
    using i pc by (auto simp: in_holders in_freers)
  then show ?thesis
    using life_inv_published [OF inv pub] i eq
    by (auto simp: life_inv_def holders_set_pc freers_set_pc)
qed

lemma life_inv_release:
  assumes inv: "life_inv n s" and i: "i < n" and bound: "n < 2 ^ 32"
    and pc: "pcs s i = Rel_cas cur gone" and eq: "sys_word s = cur"
    and gone: "gone \<Longrightarrow> sys_owner s = OWNER_NONE"
    and n': "m = word_refcount cur"
    and new: "new = (if m = 1 \<and> gone then pack_word FREE 0 else pack_word PUBLISHED (m - 1))"
  shows "life_inv n (set_pc i (if word_state new = FREE then Bump else if m = 1 then Rel_fence else Idle)
                      (set_word new s))"
proof -
  let ?H = "holders n s"
  have pub: "word_state (sys_word s) \<noteq> FREE" and iH: "i \<in> ?H"
    using life_inv_holder [OF inv i] pc by auto
  note P = life_inv_published [OF inv pub]
  have fr: "Some i \<notin> freers n s" using i pc by (simp add: in_freers)
  have card: "card (?H - {i}) = card ?H - 1" "card ?H > 0"
    using iH by (auto simp: card_gt_0_iff)
  have m: "m = of_nat (card ?H)" using P(1) eq n' by simp
  have small: "card ?H < 2 ^ 32" using card_holders_le [of n s] bound by simp
  then have m1: "m = 1 \<longleftrightarrow> ?H = {i}"
    using m of_nat_u32_inject [of "card ?H" 1] iH by (auto simp: card_1_singleton_iff)
  have pred: "m - 1 = of_nat (card (?H - {i}))"
    using m card by (simp add: of_nat_diff)
  show ?thesis
  proof (cases "m = 1")
    case True
    then show ?thesis
      using m1 P fr new gone i pending_set_pc_new [of i n Rel_fence]
      by (auto simp: life_inv_def holders_set_pc freers_set_pc)
  next
    case False
    then have "?H - {i} \<noteq> {}" using m1 iH by blast
    then show ?thesis
      using False m1 P fr new i pred
      by (auto simp: life_inv_def holders_set_pc freers_set_pc)
  qed
qed

lemma life_inv_empty:
  assumes "life_inv n s" and "n < 2 ^ 32" and "sys_word s = pack_word PUBLISHED 0"
  shows "holders n s = {}" and "freers n s = {}"
proof -
  have pub: "word_state (sys_word s) \<noteq> FREE" using assms by simp
  note P = life_inv_published [OF assms(1) pub]
  have "of_nat (card (holders n s)) = (0 :: u32)" using P(1) assms(3) by simp
  moreover have "card (holders n s) < 2 ^ 32" using card_holders_le [of n s] assms(2) by simp
  ultimately show "holders n s = {}" using of_nat_u32_inject [of "card (holders n s)" 0] by simp
  show "freers n s = {}" using P by simp
qed

lemma life_inv_reclaim:
  assumes inv: "life_inv n s" and i: "i < n" and bound: "n < 2 ^ 32"
    and word: "sys_word s = pack_word PUBLISHED 0" and gone: "sys_owner s = OWNER_NONE"
  shows "life_inv n (set_pc i Bump (set_word (pack_word FREE 0) s))"
  using life_inv_empty [OF inv bound word] i gone
  by (auto simp: life_inv_def holders_set_pc freers_set_pc)

lemma life_inv_bump:
  assumes inv: "life_inv n s" and i: "i < n" and pc: "pcs s i = Bump"
  shows "life_inv n (set_pc i Freed (bump_generation s))" and "\<not> bumped n s"
proof -
  have iF: "Some i \<in> freers n s" using i pc by (simp add: in_freers)
  then have fr: "word_state (sys_word s) = FREE"
    using inv by (auto simp: life_inv_def split: if_splits)
  then have one: "freers n s = {Some i}"
    using inv iF by (auto simp: life_inv_def)
  then show "\<not> bumped n s"
    using bumpedD [of n s] pc by auto
  show "life_inv n (set_pc i Freed (bump_generation s))"
    using inv fr one i pc by (auto simp: life_inv_def holders_set_pc freers_set_pc)
qed

lemma borrow_step_inv:
  assumes inv: "conc_inv n g s" and i: "i < n" and pc: "pcs s i = Borrow_cas cur"
  shows "conc_inv n g (reader_step i s)"
proof (cases "sys_word s = cur")
  case True
  have "word_state cur = PUBLISHED" using conc_invD(3) [OF inv i] pc by simp
  from life_inv_borrow [OF conc_invD(1) [OF inv] i pc this True] show ?thesis
    using True pc i conc_invD(2-4) [OF inv]
    by (simp add: reader_step_def conc_inv_def bumped_set_pc)
next
  case False
  then show ?thesis
    using pc inv i by (auto simp: reader_step_def intro!: conc_inv_quiet)
qed

lemma release_step_inv:
  assumes inv: "conc_inv n g s" and i: "i < n" and bound: "n < 2 ^ 32"
    and pc: "pcs s i = Rel_cas cur gone"
  shows "conc_inv n g (reader_step i s)"
proof (cases "sys_word s = cur")
  case True
  have "gone \<Longrightarrow> sys_owner s = OWNER_NONE" using conc_invD(3) [OF inv i] pc by simp
  from life_inv_release [OF conc_invD(1) [OF inv] i bound pc True this refl refl] show ?thesis
    using True pc i conc_invD(2-4) [OF inv]
    by (simp add: reader_step_def conc_inv_def bumped_set_pc Let_def)
next
  case False
  then show ?thesis
    using pc inv i by (auto simp: reader_step_def Let_def intro!: conc_inv_quiet)
qed

lemma reclaim_step_inv:
  assumes inv: "conc_inv n g s" and i: "i < n" and bound: "n < 2 ^ 32"
    and pc: "pcs s i = Rel_reclaim"
  shows "conc_inv n g (reader_step i s)"
proof (cases "sys_word s = pack_word PUBLISHED 0")
  case True
  have "sys_owner s = OWNER_NONE" using conc_invD(3) [OF inv i] pc by simp
  from life_inv_reclaim [OF conc_invD(1) [OF inv] i bound True this] show ?thesis
    using True pc i conc_invD(2-4) [OF inv]
    by (simp add: reader_step_def conc_inv_def bumped_set_pc)
next
  case False
  then show ?thesis
    using pc inv i by (auto simp: reader_step_def intro!: conc_inv_quiet)
qed

lemma bump_step_inv:
  assumes inv: "conc_inv n g s" and i: "i < n" and pc: "pcs s i = Bump"
  shows "conc_inv n g (reader_step i s)"
  using life_inv_bump [OF conc_invD(1) [OF inv] i pc] pc i conc_invD(2-4) [OF inv]
  by (simp add: reader_step_def conc_inv_def bumped_set_pc)

lemma reader_step_inv [shm_inv]:
  assumes inv: "conc_inv n g s" and i: "i < n" and bound: "n < 2 ^ 32"
  shows "conc_inv n g (reader_step i s)"
proof (cases "pcs s i")
  case (Borrow_cas cur)
  then show ?thesis by (rule borrow_step_inv [OF inv i])
next
  case (Rel_cas cur gone)
  then show ?thesis by (rule release_step_inv [OF inv i bound])
next
  case Rel_reclaim
  then show ?thesis by (rule reclaim_step_inv [OF inv i bound])
next
  case Bump
  then show ?thesis by (rule bump_step_inv [OF inv i])
qed (use inv i in \<open>auto simp: reader_step_def intro!: conc_inv_quiet\<close>)

text \<open>The owner's moves.\<close>

lemma derived_opc [simp]: "holders n (s\<lparr>opc := q\<rparr>) = holders n s"
  by (simp add: holders_def)

lemma owner_store_inv:
  assumes "conc_inv n g s" and "opc s = Own"
  shows "conc_inv n g (owner_step s)"
proof -
  let ?t = "owner_step s"
  have same: "sys_word ?t = sys_word s" "holders n ?t = holders n s" "freers n ?t = freers n s"
    "bumped n ?t = bumped n s" "pcs ?t = pcs s" "sys_owner ?t = OWNER_NONE" "pending n ?t"
    "opc ?t = Own_fence" "ctrl_generation (ctrl ?t) = ctrl_generation (ctrl s)"
    using assms(2)
    by (simp_all add: owner_step_def holders_def freers_def bumped_def pending_def)
  have "pc_ok True p" if "pc_ok b p" for b p
    using that by (cases "(b, p)" rule: pc_ok.cases) auto
  then show ?thesis
    using assms(1) same(7) unfolding conc_inv_def life_inv_def same(1-6,8,9) by auto
qed

lemma owner_reclaim_inv:
  assumes inv: "conc_inv n g s" and bound: "n < 2 ^ 32" and pc: "opc s = Own_reclaim"
  shows "conc_inv n g (owner_step s)"
proof (cases "sys_word s = pack_word PUBLISHED 0")
  case True
  have "holders n s = {}" "freers n s = {}"
    using life_inv_empty [OF conc_invD(1) [OF inv] bound True] by auto
  moreover have "sys_owner s = OWNER_NONE" using conc_invD(2) [OF inv] pc by simp
  ultimately show ?thesis
    using True pc conc_invD(2-4) [OF inv]
    by (auto simp: owner_step_def conc_inv_def life_inv_def holders_def freers_def bumped_def)
next
  case False
  have "holders n s \<noteq> {}" if "word_state (sys_word s) \<noteq> FREE"
    using life_inv_published(1) [OF conc_invD(1) [OF inv] that] False by auto
  then show ?thesis
    using False pc inv
    by (auto simp: owner_step_def conc_inv_def life_inv_def freers_def bumped_def)
qed

lemma owner_step_inv [shm_inv]:
  assumes inv: "conc_inv n g s" and bound: "n < 2 ^ 32"
  shows "conc_inv n g (owner_step s)"
proof (cases "opc s")
  case Own
  then show ?thesis by (rule owner_store_inv [OF inv])
next
  case Own_fence
  then have gone: "sys_owner s = OWNER_NONE" using conc_invD(2) [OF inv] by simp
  show ?thesis
    using inv Own_fence gone
    by (auto simp: owner_step_def conc_inv_def life_inv_def freers_def bumped_def pending_def)
next
  case Own_reclaim
  then show ?thesis by (rule owner_reclaim_inv [OF inv bound])
next
  case Own_bump
  then have "None \<in> freers n s" by (simp add: freers_def)
  moreover from this have "word_state (sys_word s) = FREE"
    using conc_invD(1) [OF inv] by (auto simp: life_inv_def split: if_splits)
  moreover from calculation have one: "freers n s = {None}"
    using conc_invD(1) [OF inv] by (auto simp: life_inv_def)
  moreover have "\<not> bumped n s"
    using one Own_bump by (auto simp: bumped_def freers_def)
  moreover have "freers n (owner_step s) = freers n s"
    using Own_bump by (simp add: owner_step_def freers_def)
  ultimately show ?thesis
    using inv Own_bump
    by (auto simp: owner_step_def conc_inv_def life_inv_def bumped_def)
qed (use inv in \<open>simp_all add: owner_step_def\<close>)

lemma conc_step_inv:
  assumes "conc_step n s t" and "conc_inv n g s" and "n < 2 ^ 32"
  shows "conc_inv n g t"
  using assms by (induction rule: conc_step.induct) (simp_all add: shm_inv)

lemma conc_reachable_inv:
  assumes "conc_reachable n ow g s" and "n < 2 ^ 32" and "ow \<noteq> OWNER_NONE"
  shows "conc_inv n g s"
  using assms(1)
proof (induction rule: conc_reachable.induct)
  case conc_start
  show ?case
    using assms(3)
    by (simp add: published_sys_def conc_inv_def life_inv_def holders_def freers_def bumped_def)
next
  case (conc_next s t)
  then show ?case using conc_step_inv assms(2) by blast
qed

section \<open>The race is safe and leaks nothing\<close>

text \<open>
  C7: in every state that readers and the owner can reach by interleaving their atomic
  accesses, the count in the word is the number of parties that hold a reference, a held
  chunk is \<open>PUBLISHED\<close> (it is never freed under a reader), and at most one party has
  freed it.
\<close>

theorem borrow_race_safe:
  assumes "conc_reachable n ow g s" and "n < 2 ^ 32" and "ow \<noteq> OWNER_NONE"
  shows "unat (word_refcount (sys_word s)) = card (holders n s)
       \<and> (holders n s \<noteq> {} \<longrightarrow> word_state (sys_word s) = PUBLISHED)
       \<and> card (freers n s) \<le> 1"
proof -
  have life: "life_inv n s" using conc_reachable_inv [OF assms] by (rule conc_invD(1))
  have small: "card (holders n s) < 2 ^ 32" using card_holders_le [of n s] assms(2) by simp
  show ?thesis
  proof (cases "word_state (sys_word s) = FREE")
    case True
    then show ?thesis using life by (auto simp: life_inv_def)
  next
    case False
    then show ?thesis
      using life_inv_published [OF life False] life_inv_state [OF life] small
      by (simp add: unat_of_nat_u32)
  qed
qed

theorem borrow_race_safe_witness:
  "holders 1 (reader_step 0 (reader_step 0 (published_sys 7 3))) = {0}
   \<and> word_state (sys_word (reader_step 0 (reader_step 0 (published_sys 7 3)))) = PUBLISHED"
proof -
  let ?s = "reader_step 0 (reader_step 0 (published_sys 7 3))"
  have r: "conc_reachable 1 7 3 ?s"
    by (intro conc_next [OF _ reader_moves] conc_start) simp_all
  have h: "holders 1 ?s = {0}"
    by (auto simp: holders_def reader_step_def published_sys_def)
  show ?thesis
    using borrow_race_safe [OF r] h by (simp add: OWNER_NONE_def)
qed

text \<open>
  C8: nothing leaks. Once every reader has released (or never borrowed) and the owner has
  returned from \<open>owner_release\<close>, the chunk is \<open>FREE\<close>, exactly one party was told that
  it freed the chunk, and the generation was bumped exactly once.
\<close>

theorem release_race_frees_once:
  assumes "conc_reachable n ow g s" and "n < 2 ^ 32" and "ow \<noteq> OWNER_NONE"
    and readers_done: "\<forall>i<n. pcs s i \<in> {Idle, Freed}"
    and owner_done: "opc s \<in> {Own_done, Own_freed}"
  shows "sys_word s = pack_word FREE 0 \<and> card (freers n s) = 1
       \<and> ctrl_generation (ctrl s) = g + 1"
proof -
  have inv: "conc_inv n g s" by (rule conc_reachable_inv [OF assms(1-3)])
  have H: "holders n s = {}"
    using readers_done by (fastforce simp: holders_def)
  have P: "\<not> pending n s"
    using readers_done owner_done by (auto simp: pending_def)
  have gone: "sys_owner s = OWNER_NONE"
    using conc_invD(2) [OF inv] owner_done by auto
  have free: "word_state (sys_word s) = FREE"
    using conc_invD(1) [OF inv] H P gone by (auto simp: life_inv_def split: if_splits)
  then obtain a where a: "freers n s = {a}" and w: "sys_word s = pack_word FREE 0"
    using conc_invD(1) [OF inv] by (auto simp: life_inv_def)
  have "bumped n s"
  proof (cases a)
    case None
    then have "None \<in> freers n s" using a by simp
    then show ?thesis using owner_done by (auto simp: freers_def bumped_def split: if_splits)
  next
    case (Some i)
    then have "Some i \<in> freers n s" using a by simp
    then show ?thesis using readers_done by (fastforce simp: freers_def bumped_def split: if_splits)
  qed
  then show ?thesis
    using a w conc_invD(4) [OF inv] by simp
qed

text \<open>One run of the race: the reader borrows, the owner releases first, the reader is last.\<close>

definition race_run :: "chunk_sys" where
  "race_run = (reader_step 0 ^^ 4) (owner_step (owner_step (owner_step
                ((reader_step 0 ^^ 2) (published_sys 7 3)))))"

theorem release_race_frees_once_witness:
  "sys_word race_run = pack_word FREE 0 \<and> ctrl_generation (ctrl race_run) = 4"
proof -
  have r: "conc_reachable 1 7 3 race_run"
    unfolding race_run_def
    by (simp add: numeral_eq_Suc)
       (intro conc_next [OF _ reader_moves] conc_next [OF _ owner_moves] conc_start; simp)
  have d: "\<forall>i<1. pcs race_run i \<in> {Idle, Freed}" "opc race_run \<in> {Own_done, Own_freed}"
    by (simp_all add: race_run_def numeral_eq_Suc reader_step_def owner_step_def published_sys_def
        OWNER_NONE_def)
  show ?thesis
    using release_race_frees_once [OF r _ _ d] by (simp add: OWNER_NONE_def)
qed

end
