(* ===== verification/Shm_Treiber.thy ===== *)
theory Shm_Treiber
  imports Shm_Prelude
begin

text \<open>
  The tagged Treiber stack of \<^verbatim>\<open>crates/shm-core/src/pool.rs\<close> (\<^verbatim>\<open>treiber_pop\<close>,
  \<^verbatim>\<open>treiber_push\<close>), which the chunk pools, the task queue's FREE / READY / lease stacks
  and the store catalog all run. The functions take the link access as an argument, as the
  Rust functions take closures. Here they are the uninterrupted run of the CAS loop (it exits
  at its first exchange); the interleaved loop is theory \<open>Shm_Treiber_Conc\<close>.
  \<open>intrusive_links\<close> is the interface a link memory provides; on it the operations are
  those of a stack, and a push leaves every stack that does not hold the node alone.
\<close>

section \<open>The head word and the two operations\<close>

definition EMPTY :: u32 where "EMPTY = 0xffffffff"

definition head_pack :: "u32 \<Rightarrow> u32 \<Rightarrow> u64" where
  "head_pack tag slot = push_bit 32 (ucast tag) OR ucast slot"

definition head_unpack :: "u64 \<Rightarrow> u32 \<times> u32" where
  "head_unpack v = (ucast (drop_bit 32 v), ucast (v AND 0xffffffff))"

definition treiber_pop :: "u64 \<Rightarrow> (u32 \<Rightarrow> u32) \<Rightarrow> u32 option \<times> u64" where
  "treiber_pop head read_next =
     (let (tag, slot) = head_unpack head in
      if slot = EMPTY then (None, head)
      else (Some slot, snd (compare_exchange head head (head_pack (tag + 1) (read_next slot)))))"

definition treiber_push :: "u64 \<Rightarrow> u32 \<Rightarrow> (u32 \<Rightarrow> u32 \<Rightarrow> 'm \<Rightarrow> 'm) \<Rightarrow> 'm \<Rightarrow> u64 \<times> 'm" where
  "treiber_push head slot write_next mem =
     (let (tag, old_head) = head_unpack head;
          mem' = write_next slot old_head mem
      in (snd (compare_exchange head head (head_pack (tag + 1) slot)), mem'))"

abbreviation head_tag :: "u64 \<Rightarrow> u32" where "head_tag h \<equiv> fst (head_unpack h)"
abbreviation head_slot :: "u64 \<Rightarrow> u32" where "head_slot h \<equiv> snd (head_unpack h)"

interpretation hw: packed_word head_pack head_tag head_slot
proof -
  have "(v AND 0xffffffff :: u64) = take_bit 32 v" for v
    by (simp add: take_bit_eq_mask mask_eq_exp_minus_1)
  then have "ucast (v AND 0xffffffff :: u64) = (ucast v :: u32)" for v
    by (simp add: bit_eq_iff bit_simps)
  then have "head_pack = pack_halves" "head_tag = high_half" "head_slot = low_half"
    by (simp_all add: fun_eq_iff head_pack_def pack_halves_def head_unpack_def high_half_def
        low_half_def)
  then show "packed_word head_pack head_tag head_slot"
    by (simp add: halves.packed_word_axioms)
qed

section \<open>Stacks threaded through a link memory\<close>

text \<open>The nodes reachable from \<open>slot\<close> through the links are exactly \<open>xs\<close>, in order.\<close>

primrec chain :: "(u32 \<Rightarrow> u32) \<Rightarrow> u32 \<Rightarrow> u32 list \<Rightarrow> bool" where
  "chain nx slot [] \<longleftrightarrow> slot = EMPTY"
| "chain nx slot (x # xs) \<longleftrightarrow> slot = x \<and> x \<noteq> EMPTY \<and> chain nx (nx x) xs"

definition stack_of :: "(u32 \<Rightarrow> u32) \<Rightarrow> u64 \<Rightarrow> u32 list \<Rightarrow> bool" where
  "stack_of nx head xs \<longleftrightarrow> distinct xs \<and> chain nx (head_slot head) xs"

lemma chain_no_EMPTY: "chain nx s xs \<Longrightarrow> EMPTY \<notin> set xs"
  by (induction xs arbitrary: s) auto

lemma chain_cong: "(\<And>x. x \<in> set xs \<Longrightarrow> nx x = ny x) \<Longrightarrow> chain nx s xs \<longleftrightarrow> chain ny s xs"
  by (induction xs arbitrary: s) auto

lemma chain_unique: "chain nx s xs \<Longrightarrow> chain nx s ys \<Longrightarrow> xs = ys"
proof (induction xs arbitrary: s ys)
  case Nil
  then show ?case by (cases ys) auto
next
  case (Cons x xs)
  then show ?case by (cases ys) auto
qed

lemma stack_of_cong: "(\<And>x. x \<in> set xs \<Longrightarrow> nx x = ny x) \<Longrightarrow> stack_of nx h xs \<longleftrightarrow> stack_of ny h xs"
  using chain_cong [of xs nx ny] by (auto simp: stack_of_def)

lemma stack_of_unique: "stack_of nx h xs \<Longrightarrow> stack_of nx h ys \<Longrightarrow> xs = ys"
  by (auto simp: stack_of_def intro: chain_unique)

lemma stack_of_Nil: "stack_of nx h [] \<longleftrightarrow> head_slot h = EMPTY"
  by (simp add: stack_of_def)

lemma pop_None_iff:
  "stack_of nx h xs \<Longrightarrow> fst (treiber_pop h nx) = None \<longleftrightarrow> xs = []"
  by (cases xs) (auto simp: treiber_pop_def stack_of_def case_prod_beta Let_def)

lemma pop_Nil [simp]: "stack_of nx h [] \<Longrightarrow> treiber_pop h nx = (None, h)"
  by (auto simp: treiber_pop_def stack_of_def case_prod_beta Let_def)

lemma pop_Cons:
  assumes "stack_of nx h (x # xs)"
  shows "treiber_pop h nx = (Some x, head_pack (head_tag h + 1) (nx x))"
    and "stack_of nx (head_pack (head_tag h + 1) (nx x)) xs"
  using assms by (auto simp: treiber_pop_def stack_of_def case_prod_beta Let_def compare_exchange_def)

text \<open>
  The memory of the links: writing the link of a node changes that node's link only. A
  provider says which nodes exist (\<open>node\<close>), since out-of-range accesses promise nothing.
\<close>

locale intrusive_links =
  fixes rd :: "'m \<Rightarrow> u32 \<Rightarrow> u32" and wr :: "u32 \<Rightarrow> u32 \<Rightarrow> 'm \<Rightarrow> 'm" and node :: "'m \<Rightarrow> u32 \<Rightarrow> bool"
  assumes rd_wr: "node m a \<Longrightarrow> node m b \<Longrightarrow> rd (wr a v m) b = (if b = a then v else rd m b)"
    and node_wr: "node (wr a v m) b \<longleftrightarrow> node m b"
    and node_not_EMPTY: "\<not> node m EMPTY"
begin

lemma push_stack:
  assumes st: "stack_of (rd m) h xs" and nodes: "\<forall>y\<in>set xs. node m y"
    and x: "node m x" "x \<notin> set xs" and push: "treiber_push h x wr m = (h', m')"
  shows "stack_of (rd m') h' (x # xs)"
proof -
  have m': "m' = wr x (head_slot h) m" and h': "head_slot h' = x"
    using push by (auto simp: treiber_push_def case_prod_beta Let_def compare_exchange_def)
  have "chain (rd m') s xs \<longleftrightarrow> chain (rd m) s xs" for s
    using nodes x m' by (intro chain_cong) (auto simp: rd_wr)
  moreover have "rd m' x = head_slot h"
    using x m' by (simp add: rd_wr)
  ultimately show ?thesis
    using st x h' node_not_EMPTY by (auto simp: stack_of_def)
qed

lemma push_other:
  assumes "stack_of (rd m) k ys" and "\<forall>y\<in>set ys. node m y" and "node m x" "x \<notin> set ys"
    and "treiber_push h x wr m = (h', m')"
  shows "stack_of (rd m') k ys"
proof -
  have "m' = wr x (head_slot h) m"
    using assms(5) by (auto simp: treiber_push_def case_prod_beta Let_def)
  then have "stack_of (rd m') k ys \<longleftrightarrow> stack_of (rd m) k ys"
    using assms(2-4) by (intro stack_of_cong) (auto simp: rd_wr)
  then show ?thesis using assms(1) by simp
qed

lemma push_node: "treiber_push h x wr m = (h', m') \<Longrightarrow> node m' y \<longleftrightarrow> node m y"
  by (auto simp: treiber_push_def case_prod_beta Let_def node_wr)

text \<open>Popping what was just pushed gives the node back and restores the stack.\<close>

lemma pop_push:
  assumes "stack_of (rd m) h xs" and "\<forall>y\<in>set xs. node m y"
    and "node m x" "x \<notin> set xs" and "treiber_push h x wr m = (h', m')"
  obtains h'' where "treiber_pop h' (rd m') = (Some x, h'')" and "stack_of (rd m') h'' xs"
  using pop_Cons [OF push_stack [OF assms]] by blast

end

end
