(* ===== verification/Shm_Treiber_Conc.thy ===== *)
theory Shm_Treiber_Conc
  imports Shm_Treiber
begin

text \<open>
  The tagged Treiber stack under interleaving: any number of threads run the CAS loops of
  \<^verbatim>\<open>treiber_pop\<close> and \<^verbatim>\<open>treiber_push\<close> (\<^verbatim>\<open>crates/shm-core/src/pool.rs\<close>), one atomic access
  per step; the exchange is the weak one and may fail at any time. The state carries three
  ghost fields: the abstract stack, the nodes each thread has popped and not pushed back, and
  the number of successful exchanges so far. Every run is subject to the one limit of the tag:
  no thread sleeps between its load of the head and its exchange through \<open>2^32\<close> successful
  exchanges of the others (\<open>windowed\<close>).
\<close>

datatype stack_pc =
    Rest
  | Pop_read u64 nat        \<comment> \<open>head loaded, about to read the node's link\<close>
  | Pop_cas u64 u32 nat     \<comment> \<open>link read, about to exchange\<close>
  | Push_start u32          \<comment> \<open>about to load the head\<close>
  | Push_link u32 u64 nat   \<comment> \<open>head loaded, about to write the node's link\<close>
  | Push_cas u32 u64 nat    \<comment> \<open>link written, about to exchange\<close>

record stack_sys =
  shead :: u64
  links :: "u32 \<Rightarrow> u32"
  spc :: "nat \<Rightarrow> stack_pc"
  stk :: "u32 list"
  owned :: "nat \<Rightarrow> u32 set"
  exchanges :: nat

inductive stack_step :: "stack_sys \<Rightarrow> stack_sys \<Rightarrow> bool" where
  pop_load: "spc s i = Rest \<Longrightarrow> head_slot (shead s) \<noteq> EMPTY \<Longrightarrow>
    stack_step s (s\<lparr>spc := (spc s)(i := Pop_read (shead s) (exchanges s))\<rparr>)"
| pop_read: "spc s i = Pop_read cur st \<Longrightarrow>
    stack_step s (s\<lparr>spc := (spc s)(i := Pop_cas cur (links s (head_slot cur)) st)\<rparr>)"
| pop_ok: "spc s i = Pop_cas cur nx st \<Longrightarrow> shead s = cur \<Longrightarrow>
    stack_step s (s\<lparr>shead := head_pack (head_tag cur + 1) nx, spc := (spc s)(i := Rest),
      stk := tl (stk s), owned := (owned s)(i := insert (head_slot cur) (owned s i)),
      exchanges := Suc (exchanges s)\<rparr>)"
| pop_fail: "spc s i = Pop_cas cur nx st \<Longrightarrow> stack_step s (s\<lparr>spc := (spc s)(i := Rest)\<rparr>)"
| push_call: "spc s i = Rest \<Longrightarrow> x \<in> owned s i \<Longrightarrow>
    stack_step s (s\<lparr>spc := (spc s)(i := Push_start x)\<rparr>)"
| push_load: "spc s i = Push_start x \<Longrightarrow>
    stack_step s (s\<lparr>spc := (spc s)(i := Push_link x (shead s) (exchanges s))\<rparr>)"
| push_link: "spc s i = Push_link x cur st \<Longrightarrow>
    stack_step s (s\<lparr>links := (links s)(x := head_slot cur), spc := (spc s)(i := Push_cas x cur st)\<rparr>)"
| push_ok: "spc s i = Push_cas x cur st \<Longrightarrow> shead s = cur \<Longrightarrow>
    stack_step s (s\<lparr>shead := head_pack (head_tag cur + 1) x, spc := (spc s)(i := Rest),
      stk := x # stk s, owned := (owned s)(i := owned s i - {x}),
      exchanges := Suc (exchanges s)\<rparr>)"
| push_fail: "spc s i = Push_cas x cur st \<Longrightarrow>
    stack_step s (s\<lparr>spc := (spc s)(i := Push_start x)\<rparr>)"

fun pc_stamp :: "stack_pc \<Rightarrow> nat option" where
  "pc_stamp (Pop_read _ st) = Some st"
| "pc_stamp (Pop_cas _ _ st) = Some st"
| "pc_stamp (Push_link _ _ st) = Some st"
| "pc_stamp (Push_cas _ _ st) = Some st"
| "pc_stamp _ = None"

definition windowed :: "stack_sys \<Rightarrow> bool" where
  "windowed s \<longleftrightarrow> (\<forall>i st. pc_stamp (spc s i) = Some st \<longrightarrow> exchanges s - st < 2 ^ 32)"

definition stack_init :: "u64 \<Rightarrow> (u32 \<Rightarrow> u32) \<Rightarrow> u32 list \<Rightarrow> stack_sys" where
  "stack_init h nx xs = \<lparr>shead = h, links = nx, spc = (\<lambda>_. Rest), stk = xs,
     owned = (\<lambda>_. {}), exchanges = 0\<rparr>"

inductive stack_reachable :: "stack_sys \<Rightarrow> stack_sys \<Rightarrow> bool" for s0 where
  stack_start: "stack_reachable s0 s0"
| stack_next: "stack_reachable s0 s \<Longrightarrow> windowed s \<Longrightarrow> stack_step s t \<Longrightarrow> stack_reachable s0 t"

section \<open>The invariant\<close>

text \<open>What a thread's local view is worth: it is current as long as nobody exchanged since.\<close>

definition view_ok :: "u32 \<Rightarrow> stack_sys \<Rightarrow> u64 \<Rightarrow> nat \<Rightarrow> bool" where
  "view_ok t0 s cur st \<longleftrightarrow> st \<le> exchanges s \<and> head_tag cur = t0 + of_nat st
     \<and> (st = exchanges s \<longrightarrow> cur = shead s)"

fun thread_ok :: "u32 \<Rightarrow> stack_sys \<Rightarrow> nat \<Rightarrow> stack_pc \<Rightarrow> bool" where
  "thread_ok t0 s i Rest \<longleftrightarrow> True"
| "thread_ok t0 s i (Pop_read cur st) \<longleftrightarrow> view_ok t0 s cur st \<and> head_slot cur \<noteq> EMPTY"
| "thread_ok t0 s i (Pop_cas cur nx st) \<longleftrightarrow> view_ok t0 s cur st \<and> head_slot cur \<noteq> EMPTY
     \<and> (st = exchanges s \<longrightarrow> nx = links s (head_slot cur))"
| "thread_ok t0 s i (Push_start x) \<longleftrightarrow> x \<in> owned s i"
| "thread_ok t0 s i (Push_link x cur st) \<longleftrightarrow> x \<in> owned s i \<and> view_ok t0 s cur st"
| "thread_ok t0 s i (Push_cas x cur st) \<longleftrightarrow> x \<in> owned s i \<and> view_ok t0 s cur st
     \<and> links s x = head_slot cur"

definition nodes_ok :: "u32 set \<Rightarrow> stack_sys \<Rightarrow> bool" where
  "nodes_ok U s \<longleftrightarrow> (\<forall>x. x \<in> U \<longleftrightarrow> x \<in> set (stk s) \<or> (\<exists>i. x \<in> owned s i)) \<and> EMPTY \<notin> U
     \<and> (\<forall>i x. x \<in> owned s i \<longrightarrow> x \<notin> set (stk s))
     \<and> (\<forall>i j x. x \<in> owned s i \<longrightarrow> x \<in> owned s j \<longrightarrow> i = j)"

definition stack_inv :: "u32 \<Rightarrow> u32 set \<Rightarrow> stack_sys \<Rightarrow> bool" where
  "stack_inv t0 U s \<longleftrightarrow>
     stack_of (links s) (shead s) (stk s)
   \<and> head_tag (shead s) = t0 + of_nat (exchanges s)
   \<and> nodes_ok U s
   \<and> (\<forall>i. thread_ok t0 s i (spc s i))"

lemma stack_inv_init:
  assumes "stack_of nx h xs"
  shows "stack_inv (head_tag h) (set xs) (stack_init h nx xs)"
  using assms chain_no_EMPTY by (auto simp: stack_inv_def stack_init_def nodes_ok_def stack_of_def)

text \<open>Inside the window an equal head means that nobody exchanged.\<close>

lemma view_current:
  assumes "view_ok t0 s cur st" and "cur = shead s"
    and "head_tag (shead s) = t0 + of_nat (exchanges s)" and "exchanges s - st < 2 ^ 32"
  shows "st = exchanges s"
proof -
  have "(of_nat (exchanges s) :: u32) = of_nat st" and le: "st \<le> exchanges s"
    using assms by (auto simp: view_ok_def)
  then have "(of_nat (exchanges s - st) :: u32) = of_nat 0"
    by (simp add: of_nat_diff)
  then show ?thesis using assms(4) le of_nat_u32_inject [of "exchanges s - st" 0] by simp
qed

section \<open>Every step keeps the invariant\<close>

lemma thread_ok_spc [simp]: "thread_ok t0 (s\<lparr>spc := f\<rparr>) i p \<longleftrightarrow> thread_ok t0 s i p"
  by (cases p) (simp_all add: view_ok_def)

lemma nodes_ok_frame [simp]:
  "nodes_ok U (s\<lparr>spc := f\<rparr>) \<longleftrightarrow> nodes_ok U s"
  "nodes_ok U (s\<lparr>links := l\<rparr>) \<longleftrightarrow> nodes_ok U s"
  by (simp_all add: nodes_ok_def)

text \<open>A move inside a thread.\<close>

lemma stack_inv_local:
  assumes "stack_inv t0 U s" and "thread_ok t0 s i p"
  shows "stack_inv t0 U (s\<lparr>spc := (spc s)(i := p)\<rparr>)"
  using assms by (simp add: stack_inv_def)

text \<open>An exchange outdates every other view.\<close>

lemma thread_ok_exchange:
  assumes "thread_ok t0 s j p" and "owned s j \<subseteq> owned t j" and "links t = links s"
    and "exchanges t = Suc (exchanges s)"
  shows "thread_ok t0 t j p"
  using assms by (cases p) (auto simp: view_ok_def)

lemma stack_inv_top:
  assumes "stack_inv t0 U s" and "head_slot (shead s) \<noteq> EMPTY"
  obtains xs where "stk s = head_slot (shead s) # xs"
  using assms by (cases "stk s") (auto simp: stack_inv_def stack_of_def)

lemma ex_fun_upd: "(\<exists>j. P ((f(i := A)) j)) \<longleftrightarrow> P A \<or> (\<exists>j. j \<noteq> i \<and> P (f j))"
  by auto

lemma nodes_ok_pop:
  assumes n: "nodes_ok U s" and xs: "stk s = x # xs" and d: "distinct (stk s)"
    and t: "stk t = xs" "owned t = (owned s)(i := insert x (owned s i))"
  shows "nodes_ok U t"
proof -
  have "(\<exists>j. y \<in> owned t j) \<longleftrightarrow> y = x \<or> (\<exists>j. y \<in> owned s j)" for y
    unfolding t ex_fun_upd by auto
  then have "y \<in> U \<longleftrightarrow> y \<in> set (stk t) \<or> (\<exists>j. y \<in> owned t j)" for y
    using n xs t by (simp add: nodes_ok_def) blast
  moreover have "y \<notin> set (stk t)" if "y \<in> owned t j" for j y
    using that n xs d t by (auto simp: nodes_ok_def split: if_splits)
  moreover have "j = k" if "y \<in> owned t j" "y \<in> owned t k" for j k y
    using that n xs t by (fastforce simp: nodes_ok_def split: if_splits)
  ultimately show ?thesis using n unfolding nodes_ok_def by blast
qed

lemma nodes_ok_push:
  assumes n: "nodes_ok U s" and x: "x \<in> owned s i"
    and t: "stk t = x # stk s" "owned t = (owned s)(i := owned s i - {x})"
  shows "nodes_ok U t"
proof -
  have only: "j = i" if "x \<in> owned s j" for j
    using n x that unfolding nodes_ok_def by blast
  have "(\<exists>j. y \<in> owned t j) \<longleftrightarrow> y \<noteq> x \<and> (\<exists>j. y \<in> owned s j)" for y
    unfolding t ex_fun_upd using only by (metis Diff_iff singleton_iff)
  then have "y \<in> U \<longleftrightarrow> y \<in> set (stk t) \<or> (\<exists>j. y \<in> owned t j)" for y
    using n x t by (simp add: nodes_ok_def) blast
  moreover have "y \<notin> set (stk t)" if "y \<in> owned t j" for j y
    using that n only t by (auto simp: nodes_ok_def split: if_splits)
  moreover have "j = k" if "y \<in> owned t j" "y \<in> owned t k" for j k y
    using that n t by (fastforce simp: nodes_ok_def split: if_splits)
  ultimately show ?thesis using n unfolding nodes_ok_def by blast
qed

lemma pop_ok_inv:
  assumes inv: "stack_inv t0 U s" and win: "windowed s"
    and pc: "spc s i = Pop_cas cur nx st" and eq: "shead s = cur"
  shows "stack_inv t0 U (s\<lparr>shead := head_pack (head_tag cur + 1) nx, spc := (spc s)(i := Rest),
      stk := tl (stk s), owned := (owned s)(i := insert (head_slot cur) (owned s i)),
      exchanges := Suc (exchanges s)\<rparr>)" (is "stack_inv t0 U ?t")
proof -
  have tk: "thread_ok t0 s i (Pop_cas cur nx st)" using inv pc by (metis stack_inv_def)
  have tag: "head_tag (shead s) = t0 + of_nat (exchanges s)" and dist: "distinct (stk s)"
    using inv by (auto simp: stack_inv_def stack_of_def)
  have "exchanges s - st < 2 ^ 32" using win pc by (metis windowed_def pc_stamp.simps(2))
  moreover have "view_ok t0 s cur st" using tk by simp
  ultimately have now: "st = exchanges s" by (intro view_current [OF _ eq [symmetric] tag])
  with tk have nx: "nx = links s (head_slot cur)" and ne: "head_slot cur \<noteq> EMPTY" by auto
  obtain xs where xs: "stk s = head_slot cur # xs" using stack_inv_top [OF inv] ne eq by auto
  have "stack_of (links ?t) (shead ?t) (stk ?t)"
    using inv xs nx by (simp add: stack_inv_def stack_of_def)
  moreover have "nodes_ok U ?t"
    by (rule nodes_ok_pop [OF _ xs dist, where i = i]) (use inv in \<open>simp_all add: stack_inv_def xs\<close>)
  moreover have "thread_ok t0 ?t j (spc ?t j)" for j
    using thread_ok_exchange [of t0 s j "spc s j" ?t] inv by (auto simp: stack_inv_def)
  ultimately show ?thesis
    using tag eq by (simp add: stack_inv_def add.assoc)
qed

lemma push_ok_inv:
  assumes inv: "stack_inv t0 U s"
    and pc: "spc s i = Push_cas x cur st" and eq: "shead s = cur"
  shows "stack_inv t0 U (s\<lparr>shead := head_pack (head_tag cur + 1) x, spc := (spc s)(i := Rest),
      stk := x # stk s, owned := (owned s)(i := owned s i - {x}),
      exchanges := Suc (exchanges s)\<rparr>)" (is "stack_inv t0 U ?t")
proof -
  have tk: "thread_ok t0 s i (Push_cas x cur st)" using inv pc by (metis stack_inv_def)
  then have x: "x \<in> owned s i" and lk: "links s x = head_slot cur" by auto
  have n: "nodes_ok U s" and tag: "head_tag (shead s) = t0 + of_nat (exchanges s)"
    using inv by (auto simp: stack_inv_def)
  have "x \<notin> set (stk s)" "x \<noteq> EMPTY" using n x unfolding nodes_ok_def by blast+
  then have "stack_of (links ?t) (shead ?t) (stk ?t)"
    using inv lk eq by (simp add: stack_inv_def stack_of_def)
  moreover have "nodes_ok U ?t"
    by (rule nodes_ok_push [OF n x]) simp_all
  moreover have "thread_ok t0 ?t j (spc ?t j)" for j
    using thread_ok_exchange [of t0 s j "spc s j" ?t] inv by (auto simp: stack_inv_def)
  ultimately show ?thesis
    using tag eq by (simp add: stack_inv_def add.assoc)
qed

text \<open>Writing the link of an owned node disturbs neither the stack nor another thread's view.\<close>

lemma push_link_inv:
  assumes inv: "stack_inv t0 U s" and pc: "spc s i = Push_link x cur st"
  shows "stack_inv t0 U (s\<lparr>links := (links s)(x := head_slot cur),
                            spc := (spc s)(i := Push_cas x cur st)\<rparr>)" (is "stack_inv t0 U ?t")
proof -
  have tk: "thread_ok t0 s i (Push_link x cur st)" using inv pc by (metis stack_inv_def)
  then have x: "x \<in> owned s i" by simp
  have n: "nodes_ok U s" using inv by (simp add: stack_inv_def)
  have xs: "x \<notin> set (stk s)" using n x by (auto simp: nodes_ok_def)
  then have "stack_of (links ?t) (shead s) (stk s) \<longleftrightarrow> stack_of (links s) (shead s) (stk s)"
    by (intro stack_of_cong) auto
  then have "stack_of (links ?t) (shead ?t) (stk ?t)" using inv by (simp add: stack_inv_def)
  moreover have "thread_ok t0 ?t j (spc ?t j)" for j
  proof (cases "j = i")
    case True
    then show ?thesis using tk by (simp add: view_ok_def)
  next
    case False
    have old: "thread_ok t0 s j (spc s j)" using inv by (simp add: stack_inv_def)
    have own: "x \<notin> owned s j" using n x False by (auto simp: nodes_ok_def)
    have top: "x \<noteq> head_slot (shead s) \<or> head_slot (shead s) = EMPTY"
      using stack_inv_top [OF inv] xs by (metis list.set_intros(1))
    show ?thesis
      using old own top False by (cases "spc s j") (auto simp: view_ok_def)
  qed
  ultimately show ?thesis
    using inv by (simp add: stack_inv_def)
qed

lemma stack_step_inv:
  assumes "stack_step s t" and "stack_inv t0 U s" and "windowed s"
  shows "stack_inv t0 U t"
  using assms
proof (induction rule: stack_step.induct)
  case (pop_ok s i cur nx st)
  then show ?case by (intro pop_ok_inv)
next
  case (push_ok s i x cur st)
  then show ?case by (intro push_ok_inv)
next
  case (push_link s i x cur st)
  then show ?case by (intro push_link_inv)
next
  case (pop_read s i cur st)
  then have "thread_ok t0 s i (Pop_read cur st)" by (metis stack_inv_def)
  with pop_read show ?case by (intro stack_inv_local) auto
next
  case (push_fail s i x cur st)
  then have "thread_ok t0 s i (Push_cas x cur st)" by (metis stack_inv_def)
  with push_fail show ?case by (intro stack_inv_local) auto
next
  case (push_load s i x)
  then have "thread_ok t0 s i (Push_start x)" by (metis stack_inv_def)
  with push_load show ?case by (intro stack_inv_local) (auto simp: view_ok_def stack_inv_def)
qed (auto intro!: stack_inv_local simp: view_ok_def stack_inv_def)

lemma stack_reachable_inv:
  assumes "stack_reachable s0 s" and "stack_inv t0 U s0"
  shows "stack_inv t0 U s"
  using assms by (induction rule: stack_reachable.induct) (auto intro: stack_step_inv)

section \<open>Linearizable, and no node is lost or handed out twice\<close>

text \<open>
  C9: a tagged Treiber stack started on a well-formed chain stays one under any interleaving
  of pops and pushes (each successful exchange is an atomic push or pop of the abstract
  stack), and every node of the initial chain is at any moment in exactly one place: on the
  stack once, or in the hands of exactly one thread.
\<close>

theorem treiber_linearizable:
  assumes "stack_of nx h xs" and "stack_reachable (stack_init h nx xs) s"
  shows "stack_of (links s) (shead s) (stk s)
       \<and> (\<forall>x. x \<in> set xs \<longleftrightarrow> x \<in> set (stk s) \<or> (\<exists>i. x \<in> owned s i))
       \<and> (\<forall>i x. x \<in> owned s i \<longrightarrow> x \<notin> set (stk s))
       \<and> (\<forall>i j x. x \<in> owned s i \<longrightarrow> x \<in> owned s j \<longrightarrow> i = j)"
  using stack_reachable_inv [OF assms(2) stack_inv_init [OF assms(1)]]
  by (simp add: stack_inv_def nodes_ok_def)

text \<open>A two-node stack and the states of one thread popping from it.\<close>

definition two_links :: "u32 \<Rightarrow> u32" where
  "two_links = (\<lambda>x. if x = 0 then 1 else EMPTY)"

definition two_start :: stack_sys where
  "two_start = stack_init (head_pack 0 0) two_links [0, 1]"

definition two_read :: stack_sys where
  "two_read = two_start\<lparr>spc := (\<lambda>_. Rest)(0 := Pop_cas (head_pack 0 0) 1 0)\<rparr>"

definition two_popped :: stack_sys where
  "two_popped = two_start\<lparr>shead := head_pack 1 1, stk := [1], owned := (\<lambda>_. {})(0 := {0}),
     exchanges := 1\<rparr>"

lemma windowed_small: "exchanges s < 2 ^ 32 \<Longrightarrow> windowed s"
  by (simp add: windowed_def less_imp_diff_less)

lemma two_stack: "stack_of two_links (head_pack 0 0) [0, 1]"
  by (simp add: stack_of_def two_links_def EMPTY_def)

lemma two_read_reachable: "stack_reachable two_start two_read"
proof -
  let ?s = "two_start\<lparr>spc := (\<lambda>_. Rest)(0 := Pop_read (head_pack 0 0) 0)\<rparr>"
  have a: "stack_step two_start ?s"
    using stack_step.pop_load [of two_start 0]
    by (simp add: two_start_def stack_init_def EMPTY_def)
  have b: "stack_step ?s two_read"
    using stack_step.pop_read [of ?s 0 "head_pack 0 0" 0]
    by (simp add: two_read_def two_start_def stack_init_def two_links_def)
  have w: "windowed two_start" "windowed ?s"
    by (intro windowed_small, simp add: two_start_def stack_init_def)+
  show ?thesis by (rule stack_next [OF stack_next [OF stack_start w(1) a] w(2) b])
qed

lemma two_popped_reachable: "stack_reachable two_start two_popped"
proof -
  have w: "windowed two_read"
    by (intro windowed_small) (simp add: two_read_def two_start_def stack_init_def)
  have "stack_step two_read two_popped"
    using stack_step.pop_ok [of two_read 0 "head_pack 0 0" 1 0]
    by (simp add: two_read_def two_popped_def two_start_def stack_init_def fun_upd_idem)
  then show ?thesis by (rule stack_next [OF two_read_reachable w])
qed

theorem treiber_linearizable_witness:
  "stack_of (links two_popped) (shead two_popped) [1] \<and> 0 \<in> owned two_popped 0
   \<and> 0 \<notin> set (stk two_popped)"
  using treiber_linearizable [OF two_stack two_popped_reachable [unfolded two_start_def]]
  by (simp add: two_popped_def)

text \<open>
  the tag defeats the ABA pattern. Within the window, a thread's exchange succeeds only
  if no other exchange happened since it loaded the head, and then the link it installs is
  the one below the popped node on the abstract stack.
\<close>

theorem treiber_pop_not_stale:
  assumes "stack_of nx h xs" and "stack_reachable (stack_init h nx xs) s" and "windowed s"
    and "spc s i = Pop_cas cur next_slot st" and "shead s = cur"
  shows "st = exchanges s \<and> (\<exists>ys. stk s = head_slot cur # ys
           \<and> stack_of (links s) (head_pack (head_tag cur + 1) next_slot) ys)"
proof -
  have inv: "stack_inv (head_tag h) (set xs) s"
    by (rule stack_reachable_inv [OF assms(2) stack_inv_init [OF assms(1)]])
  have tk: "thread_ok (head_tag h) s i (Pop_cas cur next_slot st)"
    using inv assms(4) by (metis stack_inv_def)
  have "exchanges s - st < 2 ^ 32" using assms(3,4) by (metis windowed_def pc_stamp.simps(2))
  moreover have "view_ok (head_tag h) s cur st" using tk by simp
  moreover have "head_tag (shead s) = head_tag h + of_nat (exchanges s)"
    using inv by (simp add: stack_inv_def)
  ultimately have now: "st = exchanges s"
    by (intro view_current [OF _ assms(5) [symmetric]])
  obtain ys where ys: "stk s = head_slot cur # ys"
    using stack_inv_top [OF inv] tk assms(5) by auto
  then have "stack_of (links s) (head_pack (head_tag cur + 1) next_slot) ys"
    using inv tk now by (simp add: stack_inv_def stack_of_def)
  with now ys show ?thesis by blast
qed

theorem treiber_pop_not_stale_witness:
  "stk two_read = 0 # [1] \<and> stack_of (links two_read) (head_pack 1 1) [1]"
proof -
  have w: "windowed two_read"
    by (intro windowed_small) (simp add: two_read_def two_start_def stack_init_def)
  have pc: "spc two_read 0 = Pop_cas (head_pack 0 0) 1 0" and h: "shead two_read = head_pack 0 0"
    by (simp_all add: two_read_def two_start_def stack_init_def)
  show ?thesis
    using treiber_pop_not_stale [OF two_stack two_read_reachable [unfolded two_start_def] w pc h]
    by (auto simp: two_read_def two_start_def stack_init_def)
qed

end
