(* ===== verification/Shm_Pool.thy ===== *)
theory Shm_Pool
  imports Shm_Ctrl Shm_Treiber Shm_Segment
begin

text \<open>
  \<^verbatim>\<open>crates/shm-core/src/pool.rs\<close>: size-class chunk pools. A pool carves the payload of a
  segment into classes of equal chunks; each class keeps its free chunks on a tagged Treiber
  stack whose links are the first word of each free chunk. The payload memory is a map from
  payload offsets to link words; \<^verbatim>\<open>usize\<close> is \<open>nat\<close> (a layout that fits a segment is far
  below the 64-bit wrap), every \<^verbatim>\<open>u32\<close> field keeps its width.
  Shown: the layout is aligned and disjoint; creation puts every chunk on its free list;
  \<open>alloc\<close> and \<open>free\<close> are pop and push of an abstract free list per class; \<open>locate\<close> inverts
  the address of a chunk; chunks that are out are never handed out again.
\<close>

section \<open>Configuration and layout\<close>

definition POOL_MAGIC :: u64 where "POOL_MAGIC = from_le_bytes (ascii ''SHMPOOL2'')"

record size_class =
  sc_chunk_size :: u32
  sc_chunk_count :: u32

type_synonym pool_config = "size_class list"

text \<open>
  \<^verbatim>\<open>u32::next_power_of_two\<close>: the least power of two that is at least the argument; when it
  does not fit, a release build wraps to 0.
\<close>

fun bit_length :: "nat \<Rightarrow> nat" where
  "bit_length n = (if n = 0 then 0 else Suc (bit_length (n div 2)))"

declare bit_length.simps [simp del]

definition next_power_of_two :: "u32 \<Rightarrow> u32" where
  "next_power_of_two w = of_nat (2 ^ bit_length (unat w - 1))"

text \<open>The loop of \<^verbatim>\<open>power_of_two\<close>; \<open>None\<close> is "never returns".\<close>

partial_function (option) power_of_two_loop ::
  "u32 \<Rightarrow> u32 \<Rightarrow> u32 \<Rightarrow> pool_config \<Rightarrow> pool_config option" where
  "power_of_two_loop sz mx count acc =
     (if sz \<ge> mx then Some (acc @ [\<lparr>sc_chunk_size = sz, sc_chunk_count = count\<rparr>])
      else power_of_two_loop (push_bit 1 sz) mx count
             (acc @ [\<lparr>sc_chunk_size = sz, sc_chunk_count = count\<rparr>]))"

definition power_of_two :: "u32 \<Rightarrow> u32 \<Rightarrow> u32 \<Rightarrow> pool_config option" where
  "power_of_two min_size max_size count =
     (let mn = next_power_of_two (max min_size 64);
          mx = next_power_of_two (max max_size mn)
      in power_of_two_loop mn mx count [])"

definition config_max_chunk_size :: "pool_config \<Rightarrow> u32" where
  "config_max_chunk_size cfg = fold max (map sc_chunk_size cfg) 0"

record class_header =
  ch_head :: u64
  chunk_size :: u32
  chunk_count :: u32
  base_index :: u32
  data_offset :: u32

record pool_header =
  ph_magic :: u64
  ph_num_classes :: u32
  ph_total_chunks :: u32
  ph_classes_offset :: u32
  ph_ctrl_offset :: u32

record pool_layout =
  classes_offset :: nat
  ctrl_offset :: nat
  data_offsets :: "nat list"
  base_indices :: "u32 list"
  total_chunks :: u32
  total_bytes :: nat

text \<open>\<^verbatim>\<open>size_of\<close> of the on-segment structs, and the alignment of a control word.\<close>

definition SIZE_PoolHeader :: nat where "SIZE_PoolHeader = 24"
definition SIZE_ClassHeader :: nat where "SIZE_ClassHeader = 32"
definition SIZE_ChunkCtrl :: nat where "SIZE_ChunkCtrl = 16"
definition ALIGN_ChunkCtrl :: nat where "ALIGN_ChunkCtrl = 8"

fun base_index_loop :: "pool_config \<Rightarrow> u32 \<Rightarrow> u32 list \<times> u32" where
  "base_index_loop [] tot = ([], tot)"
| "base_index_loop (c # cs) tot =
     (let (bs, t) = base_index_loop cs (tot + sc_chunk_count c) in (tot # bs, t))"

fun data_offset_loop :: "pool_config \<Rightarrow> nat \<Rightarrow> nat list \<times> nat" where
  "data_offset_loop [] off = ([], off)"
| "data_offset_loop (c # cs) off =
     (let data_off = align_up off 64;
          (ds, e) = data_offset_loop cs
            (data_off + unat (sc_chunk_count c) * unat (sc_chunk_size c))
      in (data_off # ds, e))"

definition compute_layout :: "pool_config \<Rightarrow> pool_layout" where
  "compute_layout cfg =
     (let (bases, tot) = base_index_loop cfg 0;
          co = align_up SIZE_PoolHeader 8;
          after_classes = co + length cfg * SIZE_ClassHeader;
          ctrl = align_up after_classes ALIGN_ChunkCtrl;
          (ds, e) = data_offset_loop cfg (ctrl + unat tot * SIZE_ChunkCtrl)
      in \<lparr>classes_offset = co, ctrl_offset = ctrl, data_offsets = ds, base_indices = bases,
          total_chunks = tot, total_bytes = e\<rparr>)"

section \<open>The pool and its operations\<close>

text \<open>
  The handle caches pointers into the segment; the state behind them is the class headers,
  the control array, and the payload words (\<open>mem\<close>, by payload offset).
\<close>

record pool =
  pl_segment :: segment
  classes :: "class_header list"
  ctrls :: "chunk_ctrl list"
  mem :: "nat \<Rightarrow> u32"

definition chunk_ptr :: "class_header \<Rightarrow> u32 \<Rightarrow> nat" where
  "chunk_ptr c local = unat (data_offset c) + unat local * unat (chunk_size c)"

text \<open>The seeding loop of \<open>create\<close>: chunk \<open>k\<close> links to \<open>k + 1\<close>, the last one to \<open>EMPTY\<close>.\<close>

definition seed_links :: "class_header \<Rightarrow> (nat \<Rightarrow> u32) \<Rightarrow> nat \<Rightarrow> u32" where
  "seed_links c m = fold (\<lambda>k m. m(chunk_ptr c (of_nat k) :=
       (if k + 1 < unat (chunk_count c) then of_nat (k + 1) else EMPTY)))
     [0..<unat (chunk_count c)] m"

definition mk_class :: "size_class \<Rightarrow> u32 \<Rightarrow> nat \<Rightarrow> class_header" where
  "mk_class c base doff =
     \<lparr>ch_head = head_pack 0 (if 0 < sc_chunk_count c then 0 else EMPTY),
      chunk_size = sc_chunk_size c, chunk_count = sc_chunk_count c,
      base_index = base, data_offset = of_nat doff\<rparr>"

definition mk_classes :: "pool_config \<Rightarrow> pool_layout \<Rightarrow> class_header list" where
  "mk_classes cfg l = map2 (\<lambda>c (b, d). mk_class c b d) cfg (zip (base_indices l) (data_offsets l))"

definition pool_create ::
  "segment \<Rightarrow> (nat \<Rightarrow> u32) \<Rightarrow> pool_config \<Rightarrow> shm_error + (pool_header \<times> pool)" where
  "pool_create sg m0 cfg =
     (if cfg = [] then Inl (LayoutOverflow ''pool config has no size classes'')
      else let l = compute_layout cfg in
      if total_bytes l > payload_len sg
      then Inl (LayoutOverflow ''pool does not fit in segment'')
      else let cs = mk_classes cfg l in
        Inr (\<lparr>ph_magic = POOL_MAGIC, ph_num_classes = of_nat (length cfg),
              ph_total_chunks = total_chunks l, ph_classes_offset = of_nat (classes_offset l),
              ph_ctrl_offset = of_nat (ctrl_offset l)\<rparr>,
             \<lparr>pl_segment = sg, classes = cs,
              ctrls = replicate (unat (total_chunks l)) (init_at 0),
              mem = fold seed_links cs m0\<rparr>))"

text \<open>\<^verbatim>\<open>attach\<close>: the geometry is what the header says; the arrays are those in the segment.\<close>

definition pool_attach ::
  "pool_header \<Rightarrow> segment \<Rightarrow> class_header list \<Rightarrow> chunk_ctrl list \<Rightarrow> (nat \<Rightarrow> u32) \<Rightarrow> shm_error + pool" where
  "pool_attach h sg cs ks m =
     (if ph_magic h \<noteq> POOL_MAGIC then Inl LayoutMismatch
      else Inr \<lparr>pl_segment = sg, classes = take (unat (ph_num_classes h)) cs,
                ctrls = take (unat (ph_total_chunks h)) ks, mem = m\<rparr>)"

definition pool_max_chunk_size :: "pool \<Rightarrow> u32" where
  "pool_max_chunk_size p = fold max (map chunk_size (classes p)) 0"

text \<open>The loop of \<^verbatim>\<open>locate\<close> over the classes from index \<open>i\<close>.\<close>

fun locate_loop :: "class_header list \<Rightarrow> nat \<Rightarrow> nat \<Rightarrow> shm_error + (nat \<times> u32 \<times> nat)" where
  "locate_loop [] i payload_off = Inl OutOfBounds"
| "locate_loop (c # cs) i payload_off =
     (let start = unat (data_offset c);
          span = unat (chunk_count c) * unat (chunk_size c)
      in if payload_off \<ge> start \<and> payload_off < start + span then
           (let rel = payload_off - start in
            if rel mod unat (chunk_size c) \<noteq> 0 then Inl Misaligned
            else let local = of_nat (rel div unat (chunk_size c)) :: u32
                 in Inr (i, local, unat (base_index c) + unat local))
         else locate_loop cs (Suc i) payload_off)"

definition locate :: "pool \<Rightarrow> u32 \<Rightarrow> shm_error + (nat \<times> u32 \<times> nat)" where
  "locate p seg_offset =
     (let o' = unat seg_offset in
      if o' < HEADER_SIZE then Inl OutOfBounds
      else locate_loop (classes p) 0 (o' - HEADER_SIZE))"

text \<open>The control word of a chunk, by its global index.\<close>

definition pool_ctrl :: "pool \<Rightarrow> chunk_desc \<Rightarrow> shm_error + nat" where
  "pool_ctrl p d = (case locate p (offset d) of Inl e \<Rightarrow> Inl e | Inr (_, _, g) \<Rightarrow> Inr g)"

definition ctrl_by_index :: "pool \<Rightarrow> nat \<Rightarrow> shm_error + chunk_ctrl" where
  "ctrl_by_index p g = (if g \<ge> length (ctrls p) then Inl OutOfBounds else Inr (ctrls p ! g))"

fun find_class :: "class_header list \<Rightarrow> u32 \<Rightarrow> nat option" where
  "find_class [] sz = None"
| "find_class (c # cs) sz = (if chunk_size c \<ge> sz then Some 0 else map_option Suc (find_class cs sz))"

text \<open>The closure that resolves a slot's link out of the chunk payload, and the one that writes it.\<close>

definition read_link :: "class_header \<Rightarrow> (nat \<Rightarrow> u32) \<Rightarrow> u32 \<Rightarrow> u32" where
  "read_link c m slot = m (chunk_ptr c slot)"

definition write_link :: "class_header \<Rightarrow> u32 \<Rightarrow> u32 \<Rightarrow> (nat \<Rightarrow> u32) \<Rightarrow> nat \<Rightarrow> u32" where
  "write_link c slot nx m = m(chunk_ptr c slot := nx)"

definition pool_alloc :: "pool \<Rightarrow> u32 \<Rightarrow> (shm_error + chunk_desc) \<times> pool" where
  "pool_alloc p sz =
     (case find_class (classes p) sz of
        None \<Rightarrow> (Inl (LayoutOverflow ''allocation exceeds largest size class''), p)
      | Some i \<Rightarrow>
          let c = classes p ! i in
          case treiber_pop (ch_head c) (read_link c (mem p)) of
            (None, _) \<Rightarrow> (Inl PoolExhausted, p)
          | (Some local, h) \<Rightarrow>
              let global = unat (base_index c) + unat local;
                  gen = ctrl_generation (ctrls p ! global);
                  seg_offset = HEADER_SIZE + unat (data_offset c) + unat local * unat (chunk_size c)
              in (Inr \<lparr>segment_id = seg_id (pl_segment p), generation = gen,
                       offset = of_nat seg_offset, len = chunk_size c, schema_id = 0, desc_pad = 0\<rparr>,
                  p\<lparr>classes := (classes p)[i := c\<lparr>ch_head := h\<rparr>]\<rparr>))"

definition pool_free :: "pool \<Rightarrow> chunk_desc \<Rightarrow> (shm_error + unit) \<times> pool" where
  "pool_free p d =
     (case locate p (offset d) of
        Inl e \<Rightarrow> (Inl e, p)
      | Inr (i, local, _) \<Rightarrow>
          let c = classes p ! i;
              (h, m) = treiber_push (ch_head c) local (write_link c) (mem p)
          in (Inr (), p\<lparr>classes := (classes p)[i := c\<lparr>ch_head := h\<rparr>], mem := m\<rparr>))"

text \<open>The walk of \<^verbatim>\<open>free_count\<close>; on a corrupt (cyclic) chain it does not return.\<close>

partial_function (option) free_walk :: "(u32 \<Rightarrow> u32) \<Rightarrow> u32 \<Rightarrow> nat \<Rightarrow> nat option" where
  "free_walk nx slot n = (if slot = EMPTY then Some n else free_walk nx (nx slot) (Suc n))"

definition free_count :: "pool \<Rightarrow> nat \<Rightarrow> nat option" where
  "free_count p i =
     (let c = classes p ! i in free_walk (read_link c (mem p)) (head_slot (ch_head c)) 0)"

section \<open>Layout: aligned, ordered, disjoint\<close>

abbreviation sc_span :: "size_class \<Rightarrow> nat" where
  "sc_span c \<equiv> unat (sc_chunk_count c) * unat (sc_chunk_size c)"

text \<open>
  The configurations a segment can hold: chunks large enough for the link word, and a total
  (headers, control words, chunks and alignment slack) inside the 32-bit offsets of a segment.
\<close>

definition config_weight :: "pool_config \<Rightarrow> nat" where
  "config_weight cfg = HEADER_SIZE + 104 + 32 * length cfg
     + (\<Sum>c\<leftarrow>cfg. 16 * unat (sc_chunk_count c)) + (\<Sum>c\<leftarrow>cfg. sc_span c + 64)"

definition config_fits :: "pool_config \<Rightarrow> bool" where
  "config_fits cfg \<longleftrightarrow> (\<forall>c\<in>set cfg. 4 \<le> unat (sc_chunk_size c)) \<and> config_weight cfg \<le> 2 ^ 32"

lemma align_up_64:
  assumes "x + 64 \<le> 2 ^ 64"
  shows "x \<le> align_up x 64" and "align_up x 64 \<le> x + 63" and "64 dvd align_up x 64"
proof -
  have "align_up x 64 = (x + 63) div 64 * 64"
    using align_up_eq [of 6 x] assms by simp
  then show "x \<le> align_up x 64" and "align_up x 64 \<le> x + 63" and "64 dvd align_up x 64"
    by simp_all
qed

lemma align_up_8:
  assumes "x + 8 \<le> 2 ^ 64"
  shows "x \<le> align_up x 8" and "align_up x 8 \<le> x + 7"
proof -
  have "align_up x 8 = (x + 7) div 8 * 8"
    using align_up_eq [of 3 x] assms by simp
  then show "x \<le> align_up x 8" and "align_up x 8 \<le> x + 7" by simp_all
qed

definition offsets_ok :: "pool_config \<Rightarrow> nat \<Rightarrow> nat list \<Rightarrow> nat \<Rightarrow> bool" where
  "offsets_ok cs off ds e \<longleftrightarrow>
     length ds = length cs \<and> off \<le> e
   \<and> (\<forall>i<length cs. off \<le> ds ! i \<and> ds ! i + sc_span (cs ! i) \<le> e \<and> 64 dvd ds ! i)
   \<and> (\<forall>i<length cs. \<forall>j<i. ds ! j + sc_span (cs ! j) \<le> ds ! i)"

lemma data_offset_loop_ok:
  assumes "off + (\<Sum>c\<leftarrow>cs. sc_span c + 64) \<le> 2 ^ 64"
  shows "offsets_ok cs off (fst (data_offset_loop cs off)) (snd (data_offset_loop cs off))
       \<and> snd (data_offset_loop cs off) \<le> off + (\<Sum>c\<leftarrow>cs. sc_span c + 64)"
  using assms
proof (induction cs arbitrary: off)
  case Nil
  then show ?case by (simp add: offsets_ok_def)
next
  case (Cons c cs)
  define a where "a = align_up off 64"
  define rest where "rest = (\<Sum>c\<leftarrow>cs. sc_span c + 64)"
  have a: "off \<le> a" "a \<le> off + 63" "64 dvd a"
    using align_up_64 [of off] Cons.prems by (simp_all add: a_def)
  obtain ds e where de: "data_offset_loop cs (a + sc_span c) = (ds, e)" by fastforce
  have "a + sc_span c + rest \<le> 2 ^ 64"
    using Cons.prems a by (simp add: rest_def)
  then have IH: "offsets_ok cs (a + sc_span c) ds e" and e: "e \<le> a + sc_span c + rest"
    using Cons.IH [of "a + sc_span c"] de by (simp_all add: rest_def)
  have "offsets_ok (c # cs) off (a # ds) e"
    using IH a unfolding offsets_ok_def
    by (auto simp: nth_Cons split: nat.splits intro: le_trans)
  moreover have "data_offset_loop (c # cs) off = (a # ds, e)"
    by (simp add: a_def [symmetric] de)
  ultimately show ?case using e a by (simp add: rest_def)
qed

lemma base_index_loop_ok:
  assumes "unat t + (\<Sum>c\<leftarrow>cs. unat (sc_chunk_count c)) < 2 ^ 32"
  shows "length (fst (base_index_loop cs t)) = length cs
       \<and> (\<forall>i<length cs. unat (fst (base_index_loop cs t) ! i)
            = unat t + (\<Sum>c\<leftarrow>take i cs. unat (sc_chunk_count c)))
       \<and> unat (snd (base_index_loop cs t)) = unat t + (\<Sum>c\<leftarrow>cs. unat (sc_chunk_count c))"
  using assms
proof (induction cs arbitrary: t)
  case (Cons c cs)
  have t: "unat (t + sc_chunk_count c) = unat t + unat (sc_chunk_count c)"
    using Cons.prems by (simp add: unat_word_ariths)
  show ?case
    using Cons.IH [of "t + sc_chunk_count c"] Cons.prems
    by (auto simp: t nth_Cons take_Cons split: nat.splits prod.splits)
qed simp

text \<open>
  What the operations need of the class headers: the link word fits a chunk, every chunk's
  segment offset fits 32 bits, the data regions follow one another, and so do the index ranges
  of the control array.
\<close>

abbreviation span :: "class_header \<Rightarrow> nat" where
  "span c \<equiv> unat (chunk_count c) * unat (chunk_size c)"

definition geometry_ok :: "class_header list \<Rightarrow> nat \<Rightarrow> bool" where
  "geometry_ok cs n \<longleftrightarrow>
     (\<forall>i<length cs. 4 \<le> unat (chunk_size (cs ! i))
        \<and> HEADER_SIZE + unat (data_offset (cs ! i)) + span (cs ! i) \<le> 2 ^ 32
        \<and> unat (base_index (cs ! i)) + unat (chunk_count (cs ! i)) \<le> n)
   \<and> (\<forall>i<length cs. \<forall>j<i. unat (data_offset (cs ! j)) + span (cs ! j) \<le> unat (data_offset (cs ! i))
        \<and> unat (base_index (cs ! j)) + unat (chunk_count (cs ! j)) \<le> unat (base_index (cs ! i)))"

lemma sum_take_le:
  fixes f :: "'a \<Rightarrow> nat"
  assumes "j < i" and "i \<le> length cs"
  shows "(\<Sum>c\<leftarrow>take j cs. f c) + f (cs ! j) \<le> (\<Sum>c\<leftarrow>take i cs. f c)"
proof -
  have "take i cs = take (Suc j) cs @ drop (Suc j) (take i cs)"
    using assms by (metis Suc_leI append_take_drop_id min.absorb1 take_take)
  moreover have "take (Suc j) cs = take j cs @ [cs ! j]"
    using assms by (simp add: take_Suc_conv_app_nth)
  ultimately have "take i cs = take j cs @ cs ! j # drop (Suc j) (take i cs)" by simp
  then have "map f (take i cs) = map f (take j cs) @ f (cs ! j) # map f (drop (Suc j) (take i cs))"
    by (metis list.simps(9) map_append)
  then show ?thesis by simp
qed

definition layout_ok :: "pool_config \<Rightarrow> pool_layout \<Rightarrow> bool" where
  "layout_ok cfg l \<longleftrightarrow>
     offsets_ok cfg (ctrl_offset l + 16 * unat (total_chunks l)) (data_offsets l) (total_bytes l)
   \<and> classes_offset l + 32 * length cfg \<le> ctrl_offset l \<and> 24 \<le> classes_offset l
   \<and> HEADER_SIZE + total_bytes l \<le> 2 ^ 32
   \<and> length (base_indices l) = length cfg
   \<and> (\<forall>i<length cfg. unat (base_indices l ! i) = (\<Sum>c\<leftarrow>take i cfg. unat (sc_chunk_count c)))
   \<and> unat (total_chunks l) = (\<Sum>c\<leftarrow>cfg. unat (sc_chunk_count c))"

lemma compute_layout_ok:
  assumes "config_fits cfg"
  shows "layout_ok cfg (compute_layout cfg)"
proof -
  let ?n = "\<Sum>c\<leftarrow>cfg. unat (sc_chunk_count c)"
  have w: "HEADER_SIZE + 104 + 32 * length cfg + 16 * ?n + (\<Sum>c\<leftarrow>cfg. sc_span c + 64) \<le> 2 ^ 32"
    using assms by (simp add: config_fits_def config_weight_def sum_list_const_mult)
  obtain bs t where bt: "base_index_loop cfg 0 = (bs, t)" by fastforce
  have b: "length bs = length cfg" "unat t = ?n"
    "\<forall>i<length cfg. unat (bs ! i) = (\<Sum>c\<leftarrow>take i cfg. unat (sc_chunk_count c))"
    using base_index_loop_ok [of 0 cfg] bt w by simp_all
  define co where "co = align_up SIZE_PoolHeader 8"
  have co: "24 \<le> co" "co \<le> 31"
    using align_up_8 [of 24] by (simp_all add: co_def SIZE_PoolHeader_def)
  define ctrl where "ctrl = align_up (co + length cfg * SIZE_ClassHeader) ALIGN_ChunkCtrl"
  have ctrl: "co + 32 * length cfg \<le> ctrl" "ctrl \<le> co + 32 * length cfg + 7"
    using align_up_8 [of "co + 32 * length cfg"] w co
    by (simp_all add: ctrl_def SIZE_ClassHeader_def ALIGN_ChunkCtrl_def mult.commute)
  obtain ds e where de: "data_offset_loop cfg (ctrl + 16 * unat t) = (ds, e)" by fastforce
  have "offsets_ok cfg (ctrl + 16 * unat t) ds e
      \<and> e \<le> ctrl + 16 * unat t + (\<Sum>c\<leftarrow>cfg. sc_span c + 64)"
    using data_offset_loop_ok [of "ctrl + 16 * unat t" cfg] de w co ctrl b(2) by simp
  moreover have "compute_layout cfg = \<lparr>classes_offset = co, ctrl_offset = ctrl, data_offsets = ds,
      base_indices = bs, total_chunks = t, total_bytes = e\<rparr>"
    using bt de unfolding compute_layout_def SIZE_ChunkCtrl_def
    by (simp add: co_def [symmetric] ctrl_def [symmetric] mult.commute [of "unat t"])
  ultimately show ?thesis
    using w co ctrl b by (simp add: layout_ok_def)
qed

text \<open>
  for every configuration that fits, the layout puts the class headers after the pool
  header, the control array after them, and every data region after that, 64-byte aligned,
  in order and without overlap, all inside the reported total; the index ranges of the classes
  tile the control array.
\<close>

theorem layout_disjoint:
  assumes "config_fits cfg" and "i < length cfg" and "j < i"
  defines "l \<equiv> compute_layout cfg"
  shows "64 dvd data_offsets l ! i
       \<and> ctrl_offset l + 16 * unat (total_chunks l) \<le> data_offsets l ! j
       \<and> data_offsets l ! j + sc_span (cfg ! j) \<le> data_offsets l ! i
       \<and> data_offsets l ! i + sc_span (cfg ! i) \<le> total_bytes l
       \<and> unat (base_indices l ! j) + unat (sc_chunk_count (cfg ! j)) \<le> unat (base_indices l ! i)
       \<and> unat (base_indices l ! i) + unat (sc_chunk_count (cfg ! i)) \<le> unat (total_chunks l)"
proof -
  have ok: "layout_ok cfg l" using compute_layout_ok [OF assms(1)] by (simp add: l_def)
  have "unat (base_indices l ! j) + unat (sc_chunk_count (cfg ! j)) \<le> unat (base_indices l ! i)"
    and "unat (base_indices l ! i) + unat (sc_chunk_count (cfg ! i)) \<le> unat (total_chunks l)"
    using ok assms(2,3) sum_take_le [of j i cfg "\<lambda>c. unat (sc_chunk_count c)"]
      sum_take_le [of i "length cfg" cfg "\<lambda>c. unat (sc_chunk_count c)"]
    by (auto simp: layout_ok_def)
  moreover have "offsets_ok cfg (ctrl_offset l + 16 * unat (total_chunks l)) (data_offsets l) (total_bytes l)"
    using ok unfolding layout_ok_def by blast
  ultimately show ?thesis
    using assms(2,3) by (simp add: offsets_ok_def)
qed

definition demo_config :: pool_config where
  "demo_config = [\<lparr>sc_chunk_size = 64, sc_chunk_count = 4\<rparr>, \<lparr>sc_chunk_size = 256, sc_chunk_count = 2\<rparr>]"

lemma demo_config_fits: "config_fits demo_config"
  by (simp add: config_fits_def config_weight_def demo_config_def HEADER_SIZE_def)

theorem layout_disjoint_witness:
  "64 dvd data_offsets (compute_layout demo_config) ! 1
   \<and> data_offsets (compute_layout demo_config) ! 0 + 256 \<le> data_offsets (compute_layout demo_config) ! 1"
  using layout_disjoint [OF demo_config_fits, of 1 0] by (simp add: demo_config_def)

section \<open>Free lists\<close>

text \<open>Two valid locals of a class are at different addresses.\<close>

lemma chunk_ptr_inject:
  "chunk_size c \<noteq> 0 \<Longrightarrow> chunk_ptr c x = chunk_ptr c y \<longleftrightarrow> x = y"
  by (simp add: chunk_ptr_def unat_0_iff) (metis word_unat_eq_iff)

lemma chunk_ptr_bounds:
  assumes "x < chunk_count c"
  shows "unat (data_offset c) \<le> chunk_ptr c x"
    and "chunk_ptr c x + unat (chunk_size c) \<le> unat (data_offset c) + span c"
proof -
  have "Suc (unat x) * unat (chunk_size c) \<le> span c"
    using assms by (intro mult_le_mono1) (simp add: word_less_nat_alt Suc_le_eq)
  then show "unat (data_offset c) \<le> chunk_ptr c x"
    and "chunk_ptr c x + unat (chunk_size c) \<le> unat (data_offset c) + span c"
    by (simp_all add: chunk_ptr_def)
qed

lemma EMPTY_not_local: "\<not> EMPTY < (n :: u32)"
proof -
  have "unat n < 2 ^ 32" by (rule unat_u32_less)
  then show ?thesis by (simp add: EMPTY_def word_less_nat_alt)
qed

text \<open>The payload words of one class are a link memory for its chunks.\<close>

interpretation pool_links: intrusive_links "read_link c" "write_link c"
  "\<lambda>_ x. x < chunk_count c \<and> chunk_size c \<noteq> 0" for c
  by unfold_locales (auto simp: read_link_def write_link_def chunk_ptr_inject EMPTY_not_local)

definition class_free :: "class_header \<Rightarrow> (nat \<Rightarrow> u32) \<Rightarrow> u32 list \<Rightarrow> bool" where
  "class_free c m xs \<longleftrightarrow> stack_of (read_link c m) (ch_head c) xs \<and> (\<forall>x\<in>set xs. x < chunk_count c)"

text \<open>The pool invariant, with the free chunks of each class as its abstraction.\<close>

definition pool_inv :: "pool \<Rightarrow> u32 list list \<Rightarrow> bool" where
  "pool_inv p fs \<longleftrightarrow> geometry_ok (classes p) (length (ctrls p)) \<and> length fs = length (classes p)
     \<and> (\<forall>i<length fs. class_free (classes p ! i) (mem p) (fs ! i))"

lemma geometry_okD:
  assumes "geometry_ok cs n" and "i < length cs"
  shows "chunk_size (cs ! i) \<noteq> 0" and "4 \<le> unat (chunk_size (cs ! i))"
    and "HEADER_SIZE + unat (data_offset (cs ! i)) + span (cs ! i) \<le> 2 ^ 32"
    and "unat (base_index (cs ! i)) + unat (chunk_count (cs ! i)) \<le> n"
    and "j < i \<Longrightarrow> unat (data_offset (cs ! j)) + span (cs ! j) \<le> unat (data_offset (cs ! i))"
  using assms unfolding geometry_ok_def by fastforce+

lemma geometry_disjoint:
  assumes "geometry_ok cs n" and "i < length cs" and "j < length cs" and "i \<noteq> j"
    and "x < chunk_count (cs ! i)" and "y < chunk_count (cs ! j)"
  shows "chunk_ptr (cs ! i) x \<noteq> chunk_ptr (cs ! j) y"
proof -
  have *: "chunk_ptr (cs ! a) u \<noteq> chunk_ptr (cs ! b) v"
    if "a < b" "b < length cs" "u < chunk_count (cs ! a)" "v < chunk_count (cs ! b)" for a b u v
    using geometry_okD(5) [OF assms(1) that(2,1)] geometry_okD(2) [OF assms(1), of a] that
      chunk_ptr_bounds [OF that(3)] chunk_ptr_bounds [OF that(4)] by simp
  show ?thesis
    using *[of i j x y] *[of j i y x] assms by (metis linorder_neq_iff)
qed

text \<open>Replacing the head of a class changes nothing the geometry speaks of.\<close>

lemma geometry_head:
  "geometry_ok (cs[i := (cs ! i)\<lparr>ch_head := h\<rparr>]) n \<longleftrightarrow> geometry_ok cs n"
proof -
  let ?cs = "cs[i := (cs ! i)\<lparr>ch_head := h\<rparr>]"
  have "chunk_size (?cs ! k) = chunk_size (cs ! k) \<and> chunk_count (?cs ! k) = chunk_count (cs ! k)
      \<and> data_offset (?cs ! k) = data_offset (cs ! k) \<and> base_index (?cs ! k) = base_index (cs ! k)"
    for k by (cases "k = i"; cases "i < length cs") (auto simp: list_update_beyond)
  then show ?thesis by (simp add: geometry_ok_def)
qed

lemma links_head [simp]:
  "read_link (c\<lparr>ch_head := h\<rparr>) = read_link c" "write_link (c\<lparr>ch_head := h\<rparr>) = write_link c"
  "chunk_ptr (c\<lparr>ch_head := h\<rparr>) = chunk_ptr c"
  by (simp_all add: read_link_def write_link_def chunk_ptr_def fun_eq_iff)

lemma find_class_Some:
  "find_class cs sz = Some i \<Longrightarrow> i < length cs \<and> sz \<le> chunk_size (cs ! i)
     \<and> (\<forall>j<i. chunk_size (cs ! j) < sz)"
proof (induction cs arbitrary: i)
  case (Cons c cs)
  then show ?case by (auto split: if_splits simp: nth_Cons split: nat.splits)
qed simp

lemma find_class_None: "find_class cs sz = None \<longleftrightarrow> (\<forall>c\<in>set cs. chunk_size c < sz)"
  by (induction cs) auto

section \<open>Allocation and release\<close>

definition set_head :: "pool \<Rightarrow> nat \<Rightarrow> u64 \<Rightarrow> pool" where
  "set_head p i h = p\<lparr>classes := (classes p)[i := (classes p ! i)\<lparr>ch_head := h\<rparr>]\<rparr>"

definition desc_of :: "pool \<Rightarrow> nat \<Rightarrow> u32 \<Rightarrow> chunk_desc" where
  "desc_of p i x =
     (let c = classes p ! i in
      \<lparr>segment_id = seg_id (pl_segment p),
       generation = ctrl_generation (ctrls p ! (unat (base_index c) + unat x)),
       offset = of_nat (HEADER_SIZE + chunk_ptr c x), len = chunk_size c, schema_id = 0, desc_pad = 0\<rparr>)"

lemma pool_alloc_cases:
  assumes inv: "pool_inv p fs" and i: "find_class (classes p) sz = Some i"
  shows "fs ! i = [] \<Longrightarrow> pool_alloc p sz = (Inl PoolExhausted, p)"
    and "fs ! i = x # xs \<Longrightarrow> \<exists>h. pool_alloc p sz = (Inr (desc_of p i x), set_head p i h)
           \<and> pool_inv (set_head p i h) (fs[i := xs])"
proof -
  let ?c = "classes p ! i"
  have il: "i < length (classes p)" using find_class_Some [OF i] by simp
  then have cf: "class_free ?c (mem p) (fs ! i)" using inv by (simp add: pool_inv_def)
  then have st: "stack_of (read_link ?c (mem p)) (ch_head ?c) (fs ! i)" by (simp add: class_free_def)
  show "pool_alloc p sz = (Inl PoolExhausted, p)" if "fs ! i = []"
    using that st i by (simp add: pool_alloc_def)
  assume x: "fs ! i = x # xs"
  let ?h = "head_pack (head_tag (ch_head ?c) + 1) (read_link ?c (mem p) x)"
  have pop: "treiber_pop (ch_head ?c) (read_link ?c (mem p)) = (Some x, ?h)"
    and st': "stack_of (read_link ?c (mem p)) ?h xs"
    using pop_Cons st x by metis+
  have "pool_alloc p sz = (Inr (desc_of p i x), set_head p i ?h)"
    using i pop by (simp add: pool_alloc_def desc_of_def set_head_def chunk_ptr_def Let_def add.assoc)
  moreover have "pool_inv (set_head p i ?h) (fs[i := xs])"
    using inv il st' cf x
    by (auto simp: pool_inv_def set_head_def geometry_head class_free_def nth_list_update)
  ultimately show "\<exists>h. pool_alloc p sz = (Inr (desc_of p i x), set_head p i h)
      \<and> pool_inv (set_head p i h) (fs[i := xs])" by blast
qed

lemma locate_loop_skip:
  assumes "\<forall>k<length cs. payload_off < unat (data_offset (cs ! k))
             \<or> unat (data_offset (cs ! k)) + span (cs ! k) \<le> payload_off"
  shows "locate_loop (cs @ ds) n payload_off = locate_loop ds (n + length cs) payload_off"
  using assms
proof (induction cs arbitrary: n)
  case (Cons c cs)
  have "\<not> (payload_off \<ge> unat (data_offset c) \<and> payload_off < unat (data_offset c) + span c)"
    using Cons.prems by (metis length_greater_0_conv linorder_not_le list.discI nth_Cons_0)
  moreover have "locate_loop (cs @ ds) (Suc n) payload_off = locate_loop ds (Suc n + length cs) payload_off"
    using Cons.prems by (intro Cons.IH) fastforce
  ultimately show ?case by (auto simp: Let_def)
qed simp

lemma locate_loop_hit:
  assumes "4 \<le> unat (chunk_size c)" and "x < chunk_count c"
  shows "locate_loop (c # cs) n (chunk_ptr c x) = Inr (n, x, unat (base_index c) + unat x)"
proof -
  have "unat x * unat (chunk_size c) < span c"
    using assms by (simp add: word_less_nat_alt)
  then show ?thesis using assms by (simp add: chunk_ptr_def Let_def)
qed

lemma locate_chunk:
  assumes geo: "geometry_ok (classes p) n" and i: "i < length (classes p)"
    and x: "x < chunk_count (classes p ! i)"
  shows "locate p (of_nat (HEADER_SIZE + chunk_ptr (classes p ! i) x))
       = Inr (i, x, unat (base_index (classes p ! i)) + unat x)"
proof -
  let ?cs = "classes p" and ?c = "classes p ! i"
  let ?a = "chunk_ptr ?c x"
  have fits: "HEADER_SIZE + ?a < 2 ^ 32"
    using chunk_ptr_bounds [OF x] geometry_okD(2,3) [OF geo i] by linarith
  have split: "?cs = take i ?cs @ ?c # drop (Suc i) ?cs"
    using i by (rule id_take_nth_drop)
  have "unat (data_offset (?cs ! k)) + span (?cs ! k) \<le> ?a" if "k < i" for k
    using geometry_okD(5) [OF geo i that] chunk_ptr_bounds(1) [OF x] by linarith
  then have "locate_loop (take i ?cs @ ?c # drop (Suc i) ?cs) 0 ?a
      = locate_loop (?c # drop (Suc i) ?cs) i ?a"
    using i locate_loop_skip [of "take i ?cs" ?a "?c # drop (Suc i) ?cs" 0] by simp
  also have "\<dots> = Inr (i, x, unat (base_index ?c) + unat x)"
    using geometry_okD(2) [OF geo i] x by (rule locate_loop_hit)
  finally have "locate_loop ?cs 0 ?a = Inr (i, x, unat (base_index ?c) + unat x)"
    using split by simp
  moreover have "unat (of_nat (HEADER_SIZE + ?a) :: u32) = HEADER_SIZE + ?a"
    using fits by (rule unat_of_nat_u32)
  ultimately show ?thesis by (simp add: locate_def Let_def)
qed

section \<open>Creation puts every chunk on its free list\<close>

lemma fold_upd_other:
  "a \<notin> f ` set ks \<Longrightarrow> fold (\<lambda>k m. m(f k := g k)) ks m a = m a"
  by (induction ks arbitrary: m) auto

lemma fold_upd_hit:
  "distinct ks \<Longrightarrow> inj_on f (set ks) \<Longrightarrow> k \<in> set ks \<Longrightarrow> fold (\<lambda>k m. m(f k := g k)) ks m (f k) = g k"
proof (induction ks arbitrary: m)
  case (Cons j ks)
  show ?case
  proof (cases "k = j")
    case True
    then have "f k \<notin> f ` set ks" using Cons.prems by (auto simp: inj_on_def)
    then show ?thesis using True fold_upd_other [of "f k" f ks g "m(f j := g j)"]
      by (simp add: fun_upd_same del: fun_upd_apply)
  qed (use Cons in auto)
qed simp

lemma local_less: "k < unat (chunk_count c) \<Longrightarrow> (of_nat k :: u32) < chunk_count c"
  using unat_u32_less [of "chunk_count c"] by (simp add: word_less_nat_alt unat_of_nat_u32)

lemma seed_links_hit:
  assumes "chunk_size c \<noteq> 0" and "k < unat (chunk_count c)"
  shows "seed_links c m (chunk_ptr c (of_nat k))
       = (if k + 1 < unat (chunk_count c) then of_nat (k + 1) else EMPTY)"
proof -
  have "inj_on (\<lambda>k. chunk_ptr c (of_nat k)) {0..<unat (chunk_count c)}"
  proof (rule inj_onI)
    fix a b
    assume "a \<in> {0..<unat (chunk_count c)}" "b \<in> {0..<unat (chunk_count c)}"
      and "chunk_ptr c (of_nat a) = chunk_ptr c (of_nat b)"
    then show "a = b"
      using assms(1) unat_u32_less [of "chunk_count c"]
      by (simp add: chunk_ptr_inject of_nat_u32_inject)
  qed
  then show ?thesis
    using assms(2) unfolding seed_links_def
    by (subst fold_upd_hit [where f = "\<lambda>k. chunk_ptr c (of_nat k)"]) auto
qed

lemma seed_links_other:
  assumes "\<And>x. x < chunk_count c \<Longrightarrow> a \<noteq> chunk_ptr c x"
  shows "seed_links c m a = m a"
proof -
  have "a \<notin> (\<lambda>k. chunk_ptr c (of_nat k)) ` set [0..<unat (chunk_count c)]"
  proof
    assume "a \<in> (\<lambda>k. chunk_ptr c (of_nat k)) ` set [0..<unat (chunk_count c)]"
    then obtain k where "k < unat (chunk_count c)" "a = chunk_ptr c (of_nat k)" by auto
    then show False using assms local_less by blast
  qed
  then show ?thesis unfolding seed_links_def by (rule fold_upd_other)
qed

lemma fold_seed_other:
  "(\<And>c x. c \<in> set cs \<Longrightarrow> x < chunk_count c \<Longrightarrow> a \<noteq> chunk_ptr c x)
     \<Longrightarrow> fold seed_links cs m a = m a"
  by (induction cs arbitrary: m) (auto simp: seed_links_other)

lemma fold_seed_hit:
  assumes geo: "geometry_ok cs n" and i: "i < length cs" and k: "k < unat (chunk_count (cs ! i))"
  shows "fold seed_links cs m (chunk_ptr (cs ! i) (of_nat k))
       = (if k + 1 < unat (chunk_count (cs ! i)) then of_nat (k + 1) else EMPTY)"
proof -
  let ?c = "cs ! i"
  have "fold seed_links cs m (chunk_ptr ?c (of_nat k))
      = fold seed_links (take i cs @ ?c # drop (Suc i) cs) m (chunk_ptr ?c (of_nat k))"
    using id_take_nth_drop [OF i] by simp
  also have "\<dots> = fold seed_links (drop (Suc i) cs)
      (seed_links ?c (fold seed_links (take i cs) m)) (chunk_ptr ?c (of_nat k))"
    by simp
  also have "\<dots> = seed_links ?c (fold seed_links (take i cs) m) (chunk_ptr ?c (of_nat k))"
  proof (rule fold_seed_other)
    fix c and x :: u32
    assume "c \<in> set (drop (Suc i) cs)" and x: "x < chunk_count c"
    then obtain k' where "k' < length cs - Suc i" "c = cs ! (Suc i + k')"
      using i by (auto simp: in_set_conv_nth)
    moreover have "Suc i + k' < length cs \<and> Suc i + k' \<noteq> i"
      using calculation by simp
    ultimately obtain j where "j < length cs" "j \<noteq> i" "c = cs ! j" by blast
    then show "chunk_ptr ?c (of_nat k) \<noteq> chunk_ptr c x"
      using geometry_disjoint [OF geo i, of j "of_nat k" x] x local_less [OF k] by simp
  qed
  finally show ?thesis
    using seed_links_hit [OF geometry_okD(1) [OF geo i] k] by simp
qed

definition all_locals :: "u32 \<Rightarrow> u32 list" where
  "all_locals n = map of_nat [0..<unat n]"

lemma all_locals [simp]:
  "distinct (all_locals n)" "length (all_locals n) = unat n" "set (all_locals n) = {x. x < n}"
proof -
  have "inj_on (of_nat :: nat \<Rightarrow> u32) {0..<unat n}"
  proof (rule inj_onI)
    fix a b
    assume "a \<in> {0..<unat n}" "b \<in> {0..<unat n}" "(of_nat a :: u32) = of_nat b"
    then show "a = b" using unat_u32_less [of n] by (simp add: of_nat_u32_inject)
  qed
  then show "distinct (all_locals n)" by (simp add: all_locals_def distinct_map)
  show "length (all_locals n) = unat n" by (simp add: all_locals_def)
  show "set (all_locals n) = {x. x < n}"
  proof (intro set_eqI iffI)
    fix x assume "x \<in> set (all_locals n)"
    then obtain k where k: "k < unat n" "x = of_nat k" by (auto simp: all_locals_def)
    then show "x \<in> {x. x < n}"
      using unat_u32_less [of n] by (simp add: word_less_nat_alt unat_of_nat_u32)
  next
    fix x assume "x \<in> {x. x < n}"
    then have "unat x < unat n" "x = of_nat (unat x)" by (simp_all add: word_less_nat_alt)
    then show "x \<in> set (all_locals n)" by (auto simp: all_locals_def intro!: image_eqI [where x = "unat x"])
  qed
qed

lemma chain_upt:
  assumes "\<And>j. j < n \<Longrightarrow> nx (of_nat j) = (if j + 1 < n then of_nat (j + 1) else EMPTY)"
    and "n < 2 ^ 32"
  shows "k < n \<Longrightarrow> chain nx (of_nat k) (map of_nat [k..<n])"
proof (induction "n - k" arbitrary: k)
  case (Suc d)
  have ne: "(of_nat k :: u32) \<noteq> EMPTY"
    using Suc.prems assms(2) unat_of_nat_u32 [of k] by (auto simp: EMPTY_def)
  have "[k..<n] = k # [Suc k..<n]" using Suc.prems by (rule upt_conv_Cons)
  moreover have "chain nx (nx (of_nat k)) (map of_nat [Suc k..<n])"
  proof (cases "k + 1 < n")
    case True
    then have "chain nx (of_nat (Suc k)) (map of_nat [Suc k..<n])"
      using Suc.hyps by (intro Suc.hyps(1)) linarith+
    then show ?thesis using assms(1) [OF Suc.prems] True by simp
  qed (use assms(1) [OF Suc.prems] Suc.prems in simp)
  ultimately show ?case using ne by simp
qed simp

lemma mk_classes_nth:
  assumes "layout_ok cfg l" and "i < length cfg"
  shows "mk_classes cfg l ! i = mk_class (cfg ! i) (base_indices l ! i) (data_offsets l ! i)"
    and "length (mk_classes cfg l) = length cfg"
  using assms by (simp_all add: mk_classes_def layout_ok_def offsets_ok_def)

lemma mk_classes_geometry:
  assumes fits: "config_fits cfg" and ok: "layout_ok cfg l"
  shows "geometry_ok (mk_classes cfg l) (unat (total_chunks l))"
proof -
  have len: "length (mk_classes cfg l) = length cfg"
    using ok by (simp add: mk_classes_def layout_ok_def offsets_ok_def)
  have off: "data_offsets l ! i + sc_span (cfg ! i) \<le> total_bytes l"
    "j < i \<Longrightarrow> data_offsets l ! j + sc_span (cfg ! j) \<le> data_offsets l ! i" if "i < length cfg" for i j
    using ok that by (auto simp: layout_ok_def offsets_ok_def)
  have tb: "HEADER_SIZE + total_bytes l \<le> 2 ^ 32" using ok by (simp add: layout_ok_def)
  have un: "unat (of_nat (data_offsets l ! i) :: u32) = data_offsets l ! i" if "i < length cfg" for i
    using off(1) [OF that] tb by (intro unat_of_nat_u32) (simp add: HEADER_SIZE_def)
  have base: "unat (base_indices l ! i) + unat (sc_chunk_count (cfg ! i)) \<le> unat (total_chunks l)"
    "j < i \<Longrightarrow> unat (base_indices l ! j) + unat (sc_chunk_count (cfg ! j)) \<le> unat (base_indices l ! i)"
    if "i < length cfg" for i j
    using ok that sum_take_le [of j i cfg "\<lambda>c. unat (sc_chunk_count c)"]
      sum_take_le [of i "length cfg" cfg "\<lambda>c. unat (sc_chunk_count c)"]
    by (auto simp: layout_ok_def)
  have four: "4 \<le> unat (sc_chunk_size (cfg ! i))" if "i < length cfg" for i
    using fits that by (simp add: config_fits_def)
  have hd: "HEADER_SIZE + data_offsets l ! i + sc_span (cfg ! i) \<le> 2 ^ 32" if "i < length cfg" for i
    using off(1) [OF that] tb by linarith
  show ?thesis
    unfolding geometry_ok_def len
    using mk_classes_nth(1) [OF ok] off(2) un base four hd by (simp add: mk_class_def)
qed

lemma created_class_free:
  assumes "geometry_ok cs n" and i: "i < length cs"
    and "ch_head (cs ! i) = head_pack 0 (if 0 < chunk_count (cs ! i) then 0 else EMPTY)"
  shows "class_free (cs ! i) (fold seed_links cs m) (all_locals (chunk_count (cs ! i)))"
proof -
  let ?c = "cs ! i" and ?m = "fold seed_links cs m"
  have "chain (read_link ?c ?m) (if 0 < chunk_count ?c then 0 else EMPTY) (all_locals (chunk_count ?c))"
  proof (cases "0 < unat (chunk_count ?c)")
    case True
    have "chain (read_link ?c ?m) (of_nat 0) (map of_nat [0..<unat (chunk_count ?c)])"
      using fold_seed_hit [OF assms(1) i] unat_u32_less True
      by (intro chain_upt) (simp_all add: read_link_def)
    then show ?thesis using True by (simp add: all_locals_def word_less_nat_alt)
  qed (simp add: all_locals_def word_less_nat_alt)
  then show ?thesis
    using assms(3) by (simp add: class_free_def stack_of_def)
qed

definition full_lists :: "pool_config \<Rightarrow> u32 list list" where
  "full_lists cfg = map (\<lambda>c. all_locals (sc_chunk_count c)) cfg"

lemma pool_create_Inr:
  assumes fits: "config_fits cfg" and "cfg \<noteq> []" and "total_bytes (compute_layout cfg) \<le> payload_len sg"
  obtains h p where "pool_create sg m0 cfg = Inr (h, p)" and "pool_inv p (full_lists cfg)"
    and "h = \<lparr>ph_magic = POOL_MAGIC, ph_num_classes = of_nat (length cfg),
              ph_total_chunks = total_chunks (compute_layout cfg),
              ph_classes_offset = of_nat (classes_offset (compute_layout cfg)),
              ph_ctrl_offset = of_nat (ctrl_offset (compute_layout cfg))\<rparr>"
    and "ctrls p = replicate (unat (total_chunks (compute_layout cfg))) (init_at 0)"
    and "map chunk_size (classes p) = map sc_chunk_size cfg"
    and "map chunk_count (classes p) = map sc_chunk_count cfg"
proof -
  let ?l = "compute_layout cfg" let ?cs = "mk_classes cfg ?l"
  have ok: "layout_ok cfg ?l" by (rule compute_layout_ok [OF fits])
  have geo: "geometry_ok ?cs (unat (total_chunks ?l))"
    by (rule mk_classes_geometry [OF fits ok])
  have len: "length ?cs = length cfg"
    using ok by (simp add: mk_classes_def layout_ok_def offsets_ok_def)
  have free: "class_free (?cs ! i) (fold seed_links ?cs m0) (full_lists cfg ! i)" if "i < length cfg" for i
    using created_class_free [OF geo, of i m0] that len mk_classes_nth(1) [OF ok that]
    by (simp add: full_lists_def mk_class_def)
  have maps: "map chunk_size ?cs = map sc_chunk_size cfg" "map chunk_count ?cs = map sc_chunk_count cfg"
    using len mk_classes_nth(1) [OF ok] by (auto intro!: nth_equalityI simp: mk_class_def)
  let ?p = "\<lparr>pl_segment = sg, classes = ?cs, ctrls = replicate (unat (total_chunks ?l)) (init_at 0),
      mem = fold seed_links ?cs m0\<rparr>"
  have "pool_inv ?p (full_lists cfg)"
    using geo len free by (simp add: pool_inv_def full_lists_def)
  then show thesis
    using that [of _ ?p] assms maps by (simp add: pool_create_def Let_def)
qed

text \<open>
  creating a pool from a configuration that fits (and a payload that holds the layout)
  succeeds with the well-formed pool in which every chunk of every class is free, in index
  order, and every control word is FREE at generation 0; attaching through the header written
  gives the same pool back.
\<close>

theorem pool_create_full:
  assumes "config_fits cfg" and "cfg \<noteq> []" and "total_bytes (compute_layout cfg) \<le> payload_len sg"
  shows "\<exists>h p. pool_create sg m0 cfg = Inr (h, p) \<and> pool_inv p (full_lists cfg)
       \<and> (\<forall>g<length (ctrls p). ctrl_by_index p g = Inr (init_at 0))
       \<and> map chunk_size (classes p) = map sc_chunk_size cfg
       \<and> map chunk_count (classes p) = map sc_chunk_count cfg
       \<and> pool_attach h sg (classes p) (ctrls p) (mem p) = Inr (p\<lparr>pl_segment := sg\<rparr>)"
proof (rule pool_create_Inr [OF assms, of m0])
  fix h p
  assume *: "pool_create sg m0 cfg = Inr (h, p)" "pool_inv p (full_lists cfg)"
    "h = \<lparr>ph_magic = POOL_MAGIC, ph_num_classes = of_nat (length cfg),
        ph_total_chunks = total_chunks (compute_layout cfg),
        ph_classes_offset = of_nat (classes_offset (compute_layout cfg)),
        ph_ctrl_offset = of_nat (ctrl_offset (compute_layout cfg))\<rparr>"
    "ctrls p = replicate (unat (total_chunks (compute_layout cfg))) (init_at 0)"
    "map chunk_size (classes p) = map sc_chunk_size cfg"
    "map chunk_count (classes p) = map sc_chunk_count cfg"
  have "length cfg < 2 ^ 32"
    using assms(1) by (simp add: config_fits_def config_weight_def HEADER_SIZE_def)
  moreover have "length (classes p) = length cfg"
    using *(5) by (metis length_map)
  ultimately have "pool_attach h sg (classes p) (ctrls p) (mem p) = Inr (p\<lparr>pl_segment := sg\<rparr>)"
    using *(3,4) by (simp add: pool_attach_def unat_of_nat_u32)
  then show ?thesis using * by (auto simp: ctrl_by_index_def)
qed

definition demo_segment :: segment where
  "demo_segment = snd (projr (segment_create None 7 4096))"

lemma demo_layout:
  "total_bytes (compute_layout demo_config) \<le> payload_len demo_segment" "demo_config \<noteq> []"
  by (simp_all add: compute_layout_def demo_config_def demo_segment_def segment_create_def payload_len_def
      HEADER_SIZE_def align_up_def SIZE_PoolHeader_def SIZE_ClassHeader_def SIZE_ChunkCtrl_def
      ALIGN_ChunkCtrl_def)

theorem pool_create_full_witness:
  "\<exists>h p. pool_create demo_segment (\<lambda>_. 0) demo_config = Inr (h, p) \<and> pool_inv p (full_lists demo_config)"
  using pool_create_full [OF demo_config_fits demo_layout(2,1), of "\<lambda>_. 0"] by blast

section \<open>The contract of \<open>alloc\<close> and \<open>free\<close>\<close>

lemma offset_desc_of:
  assumes "geometry_ok (classes p) n" and "i < length (classes p)" and "x < chunk_count (classes p ! i)"
  shows "unat (offset (desc_of p i x)) = HEADER_SIZE + chunk_ptr (classes p ! i) x"
    and "locate p (offset (desc_of p i x)) = Inr (i, x, unat (base_index (classes p ! i)) + unat x)"
proof -
  have "HEADER_SIZE + chunk_ptr (classes p ! i) x < 2 ^ 32"
    using chunk_ptr_bounds(2) [OF assms(3)] geometry_okD(2,3) [OF assms(1,2)] by linarith
  then show "unat (offset (desc_of p i x)) = HEADER_SIZE + chunk_ptr (classes p ! i) x"
    by (simp add: desc_of_def Let_def unat_of_nat_u32 del: of_nat_add)
  show "locate p (offset (desc_of p i x)) = Inr (i, x, unat (base_index (classes p ! i)) + unat x)"
    using locate_chunk [OF assms] by (simp add: desc_of_def Let_def del: of_nat_add)
qed

lemma pool_inv_free_local:
  "pool_inv p fs \<Longrightarrow> i < length fs \<Longrightarrow> x \<in> set (fs ! i) \<Longrightarrow> x < chunk_count (classes p ! i)"
  by (simp add: pool_inv_def class_free_def)

text \<open>
  \<open>alloc\<close> on every branch. A request above the largest class is a layout error; an empty
  free list of the first fitting class is \<open>PoolExhausted\<close>, both leaving the pool as it was;
  otherwise the first free chunk of that class is handed out: at least as long as asked, its
  descriptor stamped with the chunk's current generation and located back to that chunk, and the
  free list loses exactly this chunk.
\<close>

theorem pool_alloc_spec:
  assumes inv: "pool_inv p fs"
  shows "case find_class (classes p) sz of
      None \<Rightarrow> (\<forall>c\<in>set (classes p). chunk_size c < sz)
        \<and> pool_alloc p sz = (Inl (LayoutOverflow ''allocation exceeds largest size class''), p)
    | Some i \<Rightarrow> (case fs ! i of
        [] \<Rightarrow> pool_alloc p sz = (Inl PoolExhausted, p)
      | x # xs \<Rightarrow> (\<exists>d p' g. pool_alloc p sz = (Inr d, p') \<and> pool_inv p' (fs[i := xs])
          \<and> sz \<le> len d \<and> len d = chunk_size (classes p ! i)
          \<and> locate p (offset d) = Inr (i, x, g) \<and> g < length (ctrls p)
          \<and> generation d = ctrl_generation (ctrls p ! g)
          \<and> ctrls p' = ctrls p \<and> mem p' = mem p))"
proof (cases "find_class (classes p) sz")
  case None
  then show ?thesis using find_class_None [THEN iffD1, OF None] by (simp add: pool_alloc_def)
next
  case (Some i)
  have il: "i < length (classes p)" and sz: "sz \<le> chunk_size (classes p ! i)"
    using find_class_Some [OF Some] by simp_all
  have geo: "geometry_ok (classes p) (length (ctrls p))" and fl: "i < length fs"
    using inv il by (simp_all add: pool_inv_def)
  show ?thesis
  proof (cases "fs ! i")
    case Nil
    then show ?thesis using pool_alloc_cases(1) [OF inv Some] Some by simp
  next
    case (Cons x xs)
    obtain h where h: "pool_alloc p sz = (Inr (desc_of p i x), set_head p i h)"
      "pool_inv (set_head p i h) (fs[i := xs])"
      using pool_alloc_cases(2) [OF inv Some Cons] by blast
    have x: "x < chunk_count (classes p ! i)"
      using pool_inv_free_local [OF inv fl, of x] Cons by simp
    have "unat (base_index (classes p ! i)) + unat x < length (ctrls p)"
      using geometry_okD(4) [OF geo il] x by (simp add: word_less_nat_alt)
    then show ?thesis
      using Some Cons h sz offset_desc_of(2) [OF geo il x]
      by (auto simp: desc_of_def set_head_def Let_def)
  qed
qed

definition demo_pool :: pool where
  "demo_pool = snd (projr (pool_create demo_segment (\<lambda>_. 0) demo_config))"

lemma demo_pool_inv: "pool_inv demo_pool (full_lists demo_config)"
  and demo_pool_sizes: "map chunk_size (classes demo_pool) = [64, 256]"
  by (rule pool_create_Inr [OF demo_config_fits demo_layout(2,1), of "\<lambda>_. 0"],
      simp add: demo_pool_def demo_config_def)+

theorem pool_alloc_spec_witness:
  "\<exists>d p' g. pool_alloc demo_pool 100 = (Inr d, p') \<and> pool_inv p' [all_locals 4, [1]]
     \<and> 100 \<le> len d \<and> locate demo_pool (offset d) = Inr (1, 0, g)"
proof -
  obtain c0 c1 where cs: "classes demo_pool = [c0, c1]" "chunk_size c0 = 64" "chunk_size c1 = 256"
    using demo_pool_sizes by (auto simp: map_eq_Cons_conv)
  have "find_class (classes demo_pool) 100 = Some 1" by (simp add: cs)
  moreover have "full_lists demo_config = [all_locals 4, [0, 1]]"
    by (simp add: full_lists_def demo_config_def all_locals_def upt_conv_Cons)
  ultimately show ?thesis
    using pool_alloc_spec [OF demo_pool_inv, of 100] by auto
qed

lemma locate_loop_head:
  "locate_loop (cs[i := (cs ! i)\<lparr>ch_head := h\<rparr>]) n off = locate_loop cs n off"
proof (induction cs arbitrary: i n)
  case (Cons c cs)
  show ?case
  proof (cases i)
    case (Suc j)
    then show ?thesis using Cons.IH [of j "Suc n"] by (simp add: Let_def)
  qed (simp add: Let_def)
qed simp

lemma locate_loop_range:
  assumes "locate_loop cs n off = Inr (i, x, g)"
  shows "n \<le> i \<and> i - n < length cs \<and> x < chunk_count (cs ! (i - n))
       \<and> g = unat (base_index (cs ! (i - n))) + unat x \<and> off = chunk_ptr (cs ! (i - n)) x"
  using assms
proof (induction cs arbitrary: n)
  case (Cons c cs)
  let ?in = "unat (data_offset c) \<le> off \<and> off < unat (data_offset c) + span c"
  show ?case
  proof (cases ?in)
    case True
    let ?q = "(off - unat (data_offset c)) div unat (chunk_size c)"
    have q: "?q < unat (chunk_count c)"
      using True by (intro less_mult_imp_div_less) linarith
    then have un: "unat (of_nat ?q :: u32) = ?q"
      using unat_u32_less [of "chunk_count c"] by (intro unat_of_nat_u32) simp
    have r: "(off - unat (data_offset c)) mod unat (chunk_size c) = 0" "i = n" "x = of_nat ?q"
      "g = unat (base_index c) + unat x"
      using Cons.prems True by (auto simp: Let_def split: if_splits)
    have "unat x * unat (chunk_size c) = off - unat (data_offset c)"
      using r(1) by (simp only: r(3) un) (metis add.right_neutral div_mult_mod_eq)
    then show ?thesis
      using True r q un by (simp add: word_less_nat_alt chunk_ptr_def)
  next
    case False
    then have "locate_loop cs (Suc n) off = Inr (i, x, g)"
      using Cons.prems by (auto simp: Let_def split: if_splits)
    from Cons.IH [OF this] show ?thesis
      by (auto simp: nth_Cons' Suc_diff_Suc Suc_le_eq) 
  qed
qed simp

lemma locate_range:
  assumes "locate p off = Inr (i, x, g)"
  shows "i < length (classes p)" and "x < chunk_count (classes p ! i)"
    and "g = unat (base_index (classes p ! i)) + unat x"
    and "unat off = HEADER_SIZE + chunk_ptr (classes p ! i) x"
  using assms locate_loop_range [of "classes p" 0 "unat off - HEADER_SIZE" i x g]
  by (auto simp: locate_def Let_def split: if_splits)

lemma push_preserves_inv:
  assumes inv: "pool_inv p fs" and i: "i < length fs" and x: "x < chunk_count (classes p ! i)"
    "x \<notin> set (fs ! i)"
    and push: "treiber_push (ch_head (classes p ! i)) x (write_link (classes p ! i)) (mem p) = (h, m)"
  shows "pool_inv ((set_head p i h)\<lparr>mem := m\<rparr>) (fs[i := x # fs ! i])"
proof -
  let ?c = "classes p ! i"
  have geo: "geometry_ok (classes p) (length (ctrls p))" and len: "length fs = length (classes p)"
    using inv by (simp_all add: pool_inv_def)
  have nz: "chunk_size ?c \<noteq> 0" using geometry_okD(1) [OF geo] i len by simp
  have st: "class_free ?c (mem p) (fs ! i)" using inv i by (simp add: pool_inv_def)
  have m: "m = write_link ?c x (head_slot (ch_head ?c)) (mem p)"
    using push by (auto simp: treiber_push_def case_prod_beta Let_def)
  have "class_free (?c\<lparr>ch_head := h\<rparr>) m (x # fs ! i)"
    using pool_links.push_stack [OF _ _ _ _ push, of "fs ! i"] st x nz by (simp add: class_free_def)
  moreover have "class_free (classes p ! j) m (fs ! j)" if j: "j < length fs" "j \<noteq> i" for j
  proof -
    have cf: "class_free (classes p ! j) (mem p) (fs ! j)" using inv j by (simp add: pool_inv_def)
    have "read_link (classes p ! j) m y = read_link (classes p ! j) (mem p) y" if "y \<in> set (fs ! j)" for y
      using geometry_disjoint [OF geo, of j i y x] that cf j i len x
      by (simp add: m read_link_def write_link_def class_free_def)
    then have "stack_of (read_link (classes p ! j) m) (ch_head (classes p ! j)) (fs ! j)
        \<longleftrightarrow> stack_of (read_link (classes p ! j) (mem p)) (ch_head (classes p ! j)) (fs ! j)"
      by (intro stack_of_cong) simp
    then show ?thesis using cf by (simp add: class_free_def)
  qed
  ultimately show ?thesis
    using geo i len by (simp add: pool_inv_def set_head_def geometry_head nth_list_update)
qed

lemma ctrls_set_head [simp]: "ctrls (set_head p i h) = ctrls p"
  by (simp add: set_head_def)

lemma locate_set_head [simp]:
  "locate (set_head p i h) = locate p" "locate (p\<lparr>mem := m\<rparr>) = locate p"
  by (simp_all add: fun_eq_iff locate_def set_head_def locate_loop_head Let_def)

lemma pool_free_located:
  assumes inv: "pool_inv p fs" and loc: "locate p (offset d) = Inr (i, x, g)" and x: "x \<notin> set (fs ! i)"
  obtains h m where "pool_free p d = (Inr (), (set_head p i h)\<lparr>mem := m\<rparr>)"
    and "pool_inv ((set_head p i h)\<lparr>mem := m\<rparr>) (fs[i := x # fs ! i])"
proof -
  let ?c = "classes p ! i"
  obtain h m where push: "treiber_push (ch_head ?c) x (write_link ?c) (mem p) = (h, m)" by fastforce
  have "pool_free p d = (Inr (), (set_head p i h)\<lparr>mem := m\<rparr>)"
    using loc push by (simp add: pool_free_def set_head_def Let_def)
  moreover have "pool_inv ((set_head p i h)\<lparr>mem := m\<rparr>) (fs[i := x # fs ! i])"
    using push_preserves_inv [OF inv _ _ _ push] locate_range [OF loc] inv x by (simp add: pool_inv_def)
  ultimately show thesis by (rule that)
qed

text \<open>
  returning a chunk that is out puts it on top of its own class's free list, whatever the
  rest of the descriptor says, and leaves every other free list and all control words alone;
  the next allocation of that class would hand it out again. A descriptor outside the pool or
  off a chunk boundary is refused and changes nothing.
\<close>

theorem pool_free_spec:
  assumes inv: "pool_inv p fs"
  shows "case locate p (offset d) of
      Inl e \<Rightarrow> pool_free p d = (Inl e, p)
    | Inr (i, x, g) \<Rightarrow> x \<notin> set (fs ! i) \<longrightarrow>
        (\<exists>p'. pool_free p d = (Inr (), p') \<and> pool_inv p' (fs[i := x # fs ! i])
            \<and> ctrls p' = ctrls p \<and> locate p' = locate p)"
proof (cases "locate p (offset d)")
  case (Inl e)
  then show ?thesis by (simp add: pool_free_def)
next
  case (Inr r)
  obtain i x g where r: "r = (i, x, g)" by (cases r)
  have "\<exists>p'. pool_free p d = (Inr (), p') \<and> pool_inv p' (fs[i := x # fs ! i])
      \<and> ctrls p' = ctrls p \<and> locate p' = locate p" if "x \<notin> set (fs ! i)"
    by (rule pool_free_located [OF inv Inr [unfolded r] that]) simp
  then show ?thesis using Inr r by simp
qed

lemma demo_pool_find: "find_class (classes demo_pool) 100 = Some 1"
  using demo_pool_sizes by (auto simp: map_eq_Cons_conv)

lemma demo_pool_lists: "full_lists demo_config = [all_locals 4, [0, 1]]"
  by (simp add: full_lists_def demo_config_def all_locals_def upt_conv_Cons)

theorem pool_free_spec_witness:
  "\<exists>d p' p''. pool_alloc demo_pool 100 = (Inr d, p') \<and> pool_free p' d = (Inr (), p'')
     \<and> pool_inv p'' [all_locals 4, [0, 1]]"
proof -
  obtain h where al: "pool_alloc demo_pool 100 = (Inr (desc_of demo_pool 1 0), set_head demo_pool 1 h)"
    and inv: "pool_inv (set_head demo_pool 1 h) [all_locals 4, [1]]"
    using pool_alloc_cases(2) [OF demo_pool_inv demo_pool_find] by (auto simp: demo_pool_lists)
  have "1 < length (classes demo_pool)" using find_class_Some [OF demo_pool_find] by simp
  moreover have "(0 :: u32) < chunk_count (classes demo_pool ! 1)"
    using pool_inv_free_local [OF demo_pool_inv, of 1 0] by (simp add: demo_pool_lists)
  ultimately have "locate (set_head demo_pool 1 h) (offset (desc_of demo_pool 1 0))
      = Inr (1, 0, unat (base_index (classes demo_pool ! 1)) + unat (0 :: u32))"
    using offset_desc_of(2) [of demo_pool "length (ctrls demo_pool)" 1 0] demo_pool_inv
    by (simp add: locate_set_head pool_inv_def)
  then show ?thesis
    using pool_free_spec [OF inv, of "desc_of demo_pool 1 0"] al by auto
qed

section \<open>Clients never share a chunk\<close>

text \<open>
  A client (all processes together) allocates and returns chunks it holds, in any order.
\<close>

datatype pool_op = Alloc u32 | Free nat

fun client_step :: "pool \<times> chunk_desc list \<Rightarrow> pool_op \<Rightarrow> pool \<times> chunk_desc list" where
  "client_step (p, live) (Alloc sz) =
     (case pool_alloc p sz of (Inl _, p') \<Rightarrow> (p', live) | (Inr d, p') \<Rightarrow> (p', live @ [d]))"
| "client_step (p, live) (Free k) =
     (if k < length live then (snd (pool_free p (live ! k)), take k live @ drop (Suc k) live)
      else (p, live))"

definition client_run :: "pool \<Rightarrow> pool_op list \<Rightarrow> pool \<times> chunk_desc list" where
  "client_run p ops = fold (\<lambda>op s. client_step s op) ops (p, [])"

text \<open>Where a held descriptor points: its class and its index in the class.\<close>

definition place :: "pool \<Rightarrow> chunk_desc \<Rightarrow> nat \<times> u32" where
  "place p d = (case locate p (offset d) of Inr (i, x, _) \<Rightarrow> (i, x) | Inl _ \<Rightarrow> (0, EMPTY))"

text \<open>Every chunk is free or held by exactly one descriptor.\<close>

definition partitioned :: "u32 list \<Rightarrow> u32 list list \<Rightarrow> (nat \<times> u32) set \<Rightarrow> bool" where
  "partitioned ns fs P \<longleftrightarrow> (\<forall>i<length ns. \<forall>x<ns ! i. x \<in> set (fs ! i) \<longleftrightarrow> (i, x) \<notin> P)"

definition client_inv :: "pool \<Rightarrow> u32 list list \<Rightarrow> chunk_desc list \<Rightarrow> bool" where
  "client_inv p fs live \<longleftrightarrow> pool_inv p fs
     \<and> (\<forall>d\<in>set live. (\<exists>i x g. locate p (offset d) = Inr (i, x, g) \<and> len d = chunk_size (classes p ! i)))
     \<and> distinct (map (place p) live)
     \<and> partitioned (map chunk_count (classes p)) fs (set (map (place p) live))"

lemma partitionedD:
  "partitioned ns fs P \<Longrightarrow> i < length ns \<Longrightarrow> x < ns ! i \<Longrightarrow> x \<in> set (fs ! i) \<longleftrightarrow> (i, x) \<notin> P"
  by (simp add: partitioned_def)

lemma partitioned_pop:
  assumes "partitioned ns fs P" and "i < length ns" and "fs ! i = x # xs" and "x \<notin> set xs"
    and "length fs = length ns"
  shows "partitioned ns (fs[i := xs]) (insert (i, x) P)"
  unfolding partitioned_def
proof (intro allI impI)
  fix j y assume jy: "j < length ns" "y < ns ! j"
  then have *: "y \<in> set (fs ! j) \<longleftrightarrow> (j, y) \<notin> P" using assms(1) by (simp add: partitioned_def)
  show "y \<in> set (fs[i := xs] ! j) \<longleftrightarrow> (j, y) \<notin> insert (i, x) P"
  proof (cases "j = i")
    case True
    then have "y = x \<or> y \<in> set xs \<longleftrightarrow> (i, y) \<notin> P" using * assms(3) by simp
    then show ?thesis using True assms jy by auto
  qed (use * in simp)
qed

lemma partitioned_push:
  assumes "partitioned ns fs P" and "i < length ns" and "(i, x) \<in> P"
    and "length fs = length ns"
  shows "partitioned ns (fs[i := x # fs ! i]) (P - {(i, x)})"
  using assms unfolding partitioned_def by (auto simp: nth_list_update)

lemma place_Inr: "locate p (offset d) = Inr (i, x, g) \<Longrightarrow> place p d = (i, x)"
  by (simp add: place_def)

lemma client_alloc:
  assumes inv: "client_inv p fs live" and c: "find_class (classes p) sz = Some i" and f: "fs ! i = x # xs"
  shows "\<exists>d p'. pool_alloc p sz = (Inr d, p') \<and> client_inv p' (fs[i := xs]) (live @ [d])"
proof -
  have pi: "pool_inv p fs" using inv by (simp add: client_inv_def)
  obtain h where al: "pool_alloc p sz = (Inr (desc_of p i x), set_head p i h)"
    and pi': "pool_inv (set_head p i h) (fs[i := xs])"
    using pool_alloc_cases(2) [OF pi c f] by blast
  let ?p' = "set_head p i h" and ?d = "desc_of p i x"
  have il: "i < length (classes p)" "i < length fs" using find_class_Some [OF c] pi by (simp_all add: pool_inv_def)
  have geo: "geometry_ok (classes p) (length (ctrls p))" using pi by (simp add: pool_inv_def)
  have x: "x < chunk_count (classes p ! i)" using pool_inv_free_local [OF pi il(2)] f by simp
  have loc: "locate ?p' = locate p" by (rule locate_set_head)
  then have pl: "place ?p' = place p" by (simp add: fun_eq_iff place_def)
  have d: "locate p (offset ?d) = Inr (i, x, unat (base_index (classes p ! i)) + unat x)"
    by (rule offset_desc_of(2) [OF geo il(1) x])
  have lend: "len ?d = chunk_size (classes p ! i)" by (simp add: desc_of_def Let_def)
  have cc: "map chunk_count (classes ?p') = map chunk_count (classes p)"
    "chunk_size (classes ?p' ! j) = chunk_size (classes p ! j)" for j
    using il by (auto simp: set_head_def nth_list_update intro!: nth_equalityI)
  have part: "partitioned (map chunk_count (classes p)) fs (set (map (place p) live))"
    using inv by (simp add: client_inv_def)
  then have "(i, x) \<notin> set (map (place p) live)"
    using partitionedD [OF part, of i x] il x f by simp
  moreover have "x \<notin> set xs"
    using pi il f by (auto simp: pool_inv_def class_free_def stack_of_def)
  then have "partitioned (map chunk_count (classes p)) (fs[i := xs]) (insert (i, x) (set (map (place p) live)))"
    using partitioned_pop [OF part, of i x xs] il f pi by (simp add: pool_inv_def)
  ultimately have "client_inv ?p' (fs[i := xs]) (live @ [?d])"
    using inv pi' d lend by (auto simp: client_inv_def loc pl cc place_Inr [OF d])
  then show ?thesis using al by blast
qed

lemma client_free:
  assumes inv: "client_inv p fs live" and k: "k < length live"
  shows "\<exists>fs'. client_inv (snd (pool_free p (live ! k))) fs' (take k live @ drop (Suc k) live)"
proof -
  let ?d = "live ! k" and ?rest = "take k live @ drop (Suc k) live"
  have split: "live = take k live @ ?d # drop (Suc k) live" using k by (rule id_take_nth_drop)
  have pi: "pool_inv p fs" and part: "partitioned (map chunk_count (classes p)) fs (set (map (place p) live))"
    and dist: "distinct (map (place p) live)"
    using inv by (simp_all add: client_inv_def)
  have "?d \<in> set live" using k by simp
  then obtain i x g where loc: "locate p (offset ?d) = Inr (i, x, g)"
    using inv unfolding client_inv_def by blast
  note rng = locate_range [OF loc]
  have held: "(i, x) \<in> set (map (place p) live)"
    using place_Inr [OF loc] k by (metis in_set_conv_nth length_map nth_map)
  then have "x \<notin> set (fs ! i)" using partitionedD [OF part, of i x] rng by simp
  then obtain h m where fr: "pool_free p ?d = (Inr (), (set_head p i h)\<lparr>mem := m\<rparr>)"
    and pi': "pool_inv ((set_head p i h)\<lparr>mem := m\<rparr>) (fs[i := x # fs ! i])"
    using pool_free_located [OF pi loc] by blast
  let ?p' = "(set_head p i h)\<lparr>mem := m\<rparr>"
  have pl: "place ?p' = place p" by (simp add: fun_eq_iff place_def)
  have cc: "map chunk_count (classes (set_head p i h)) = map chunk_count (classes p)"
    "chunk_size (classes (set_head p i h) ! j) = chunk_size (classes p ! j)" for j
    using rng(1) by (auto simp: set_head_def nth_list_update intro!: nth_equalityI)
  have "map (place p) live = map (place p) (take k live) @ (i, x) # map (place p) (drop (Suc k) live)"
    using split place_Inr [OF loc] by (metis list.simps(9) map_append)
  then have rest: "set (map (place p) ?rest) = set (map (place p) live) - {(i, x)}" "distinct (map (place p) ?rest)"
    using dist by auto
  have sub: "set ?rest \<subseteq> set live" by (auto dest: in_set_takeD in_set_dropD)
  have "partitioned (map chunk_count (classes p)) (fs[i := x # fs ! i]) (set (map (place p) ?rest))"
    using partitioned_push [OF part _ held] rng(1) pi rest(1) by (simp add: pool_inv_def)
  then have "client_inv ?p' (fs[i := x # fs ! i]) ?rest"
    using inv pi' rest(2) sub unfolding client_inv_def by (auto simp: pl cc)
  then show ?thesis using fr by auto
qed

lemma client_step_inv:
  assumes "client_inv p fs live"
  shows "\<exists>fs'. client_inv (fst (client_step (p, live) op)) fs' (snd (client_step (p, live) op))"
proof (cases op)
  case (Alloc sz)
  have pi: "pool_inv p fs" using assms by (simp add: client_inv_def)
  show ?thesis
  proof (cases "find_class (classes p) sz")
    case None
    then show ?thesis using Alloc assms by (auto simp: pool_alloc_def)
  next
    case (Some i)
    then show ?thesis
      using Alloc assms pool_alloc_cases(1) [OF pi Some] client_alloc [OF assms Some]
      by (cases "fs ! i") fastforce+
  qed
next
  case (Free k)
  then show ?thesis using assms client_free [OF assms, of k] by auto
qed

lemma client_run_inv:
  assumes "client_inv p fs live"
  shows "\<exists>fs'. client_inv (fst (fold (\<lambda>op s. client_step s op) ops (p, live))) fs'
              (snd (fold (\<lambda>op s. client_step s op) ops (p, live)))"
  using assms
proof (induction ops arbitrary: p fs live)
  case (Cons op ops)
  obtain p' live' where s: "client_step (p, live) op = (p', live')" by fastforce
  then obtain fs' where "client_inv p' fs' live'"
    using client_step_inv [OF Cons.prems, of op] by auto
  then show ?case using Cons.IH s by simp
qed auto

lemma client_inv_init:
  assumes "pool_inv p (full_lists cfg)" and "map chunk_count (classes p) = map sc_chunk_count cfg"
  shows "client_inv p (full_lists cfg) []"
  using assms by (auto simp: client_inv_def partitioned_def full_lists_def)

lemma client_inv_disjoint:
  assumes inv: "client_inv p fs live" and j: "j < length live" and k: "k < length live" "j \<noteq> k"
  shows "unat (offset (live ! j)) + unat (len (live ! j)) \<le> unat (offset (live ! k))
       \<or> unat (offset (live ! k)) + unat (len (live ! k)) \<le> unat (offset (live ! j))"
proof -
  have geo: "geometry_ok (classes p) (length (ctrls p))"
    using inv by (simp add: client_inv_def pool_inv_def)
  have ex: "\<exists>i x g. locate p (offset (live ! a)) = Inr (i, x, g) \<and> len (live ! a) = chunk_size (classes p ! i)"
    if "a < length live" for a using inv that unfolding client_inv_def by (metis nth_mem)
  obtain i x g where l: "locate p (offset (live ! j)) = Inr (i, x, g)" "len (live ! j) = chunk_size (classes p ! i)"
    using ex [OF j] by blast
  obtain i' x' g' where l': "locate p (offset (live ! k)) = Inr (i', x', g')" "len (live ! k) = chunk_size (classes p ! i')"
    using ex [OF k(1)] by blast
  have "place p (live ! j) \<noteq> place p (live ! k)"
    using inv j k by (auto simp: client_inv_def distinct_conv_nth)
  then have ne: "i \<noteq> i' \<or> x \<noteq> x'" using place_Inr l l' by fastforce
  note r = locate_range [OF l(1)] and r' = locate_range [OF l'(1)]
  show ?thesis
  proof (cases "i = i'")
    case True
    have "unat x < unat x' \<or> unat x' < unat x" using ne True by (metis linorder_neq_iff word_unat_eq_iff)
    then have "chunk_ptr (classes p ! i) x + unat (chunk_size (classes p ! i)) \<le> chunk_ptr (classes p ! i) x'
        \<or> chunk_ptr (classes p ! i) x' + unat (chunk_size (classes p ! i)) \<le> chunk_ptr (classes p ! i) x"
      using mult_le_mono1 [of "Suc (unat x)" "unat x'" "unat (chunk_size (classes p ! i))"]
        mult_le_mono1 [of "Suc (unat x')" "unat x" "unat (chunk_size (classes p ! i))"]
      by (auto simp: chunk_ptr_def)
    then show ?thesis using True r r' l l' by auto
  next
    case False
    then show ?thesis
      using geometry_okD(5) [OF geo r(1), of i'] geometry_okD(5) [OF geo r'(1), of i] r(4) r'(4) l l'
        chunk_ptr_bounds [OF r(2)] chunk_ptr_bounds [OF r'(2)] by (cases "i < i'") auto
  qed
qed

lemma free_walk_chain: "chain nx s xs \<Longrightarrow> free_walk nx s n = Some (n + length xs)"
proof (induction xs arbitrary: s n)
  case (Cons x xs)
  then show ?case by (subst free_walk.simps) auto
qed (simp add: free_walk.simps)

lemma free_count_eq:
  "pool_inv p fs \<Longrightarrow> i < length fs \<Longrightarrow> free_count p i = Some (length (fs ! i))"
  using free_walk_chain [of "read_link (classes p ! i) (mem p)" "head_slot (ch_head (classes p ! i))" "fs ! i" 0]
  by (auto simp: free_count_def pool_inv_def class_free_def stack_of_def Let_def)

lemma client_conservation:
  assumes inv: "client_inv p fs live" and i: "i < length (classes p)"
  shows "length (fs ! i) + length (filter (\<lambda>d. fst (place p d) = i) live) = unat (chunk_count (classes p ! i))"
proof -
  let ?n = "chunk_count (classes p ! i)"
  let ?held = "filter (\<lambda>q. fst q = i) (map (place p) live)"
  have pi: "pool_inv p fs" and part: "partitioned (map chunk_count (classes p)) fs (set (map (place p) live))"
    using inv by (simp_all add: client_inv_def)
  have df: "distinct (fs ! i)" "set (fs ! i) \<subseteq> {x. x < ?n}"
    using pi i by (auto simp: pool_inv_def class_free_def stack_of_def)
  have dh: "distinct ?held" using inv by (simp add: client_inv_def)
  have "snd q < ?n" if "q \<in> set ?held" for q
  proof -
    obtain d where d: "d \<in> set live" "q = place p d" "fst q = i" using \<open>q \<in> set ?held\<close> by auto
    then obtain j x g where "locate p (offset d) = Inr (j, x, g)"
      using inv unfolding client_inv_def by blast
    then show ?thesis using locate_range(2) place_Inr d by fastforce
  qed
  moreover have "x \<in> set (fs ! i) \<longleftrightarrow> x \<notin> snd ` set ?held" if "x < ?n" for x
  proof -
    have "x \<in> snd ` set ?held \<longleftrightarrow> (i, x) \<in> set (map (place p) live)" by (force simp: image_iff)
    then show ?thesis using partitionedD [OF part, of i x] that i by simp
  qed
  ultimately have "set (fs ! i) \<union> snd ` set ?held = {x. x < ?n}" "set (fs ! i) \<inter> snd ` set ?held = {}"
    using df(2) by blast+
  moreover have "card (snd ` set ?held) = length ?held"
    using distinct_card [OF dh] by (subst card_image) (auto simp: inj_on_def prod_eq_iff)
  moreover have "card {x. x < ?n} = unat ?n"
    using distinct_card [OF all_locals(1) [of ?n]] by simp
  ultimately have "length (fs ! i) + length ?held = unat ?n"
    using distinct_card [OF df(1)] card_Un_disjoint [of "set (fs ! i)" "snd ` set ?held"] by simp
  then show ?thesis by (simp add: filter_map comp_def)
qed

text \<open>
  C10: whatever sequence of allocations and returns the clients of a fresh pool run, two
  descriptors that are out never overlap, every one of them locates to a chunk of its class,
  and nothing leaks: in every class the chunks the census counts free (the walk of
  \<open>free_count\<close> returns) and the chunks that are out add up to the chunks configured.
\<close>

theorem pool_no_sharing:
  assumes fits: "config_fits cfg" and create: "pool_create sg m0 cfg = Inr (h0, p0)"
  shows "(let (p, live) = client_run p0 ops in
      (\<forall>j<length live. \<forall>k<j. unat (offset (live ! j)) + unat (len (live ! j)) \<le> unat (offset (live ! k))
         \<or> unat (offset (live ! k)) + unat (len (live ! k)) \<le> unat (offset (live ! j)))
      \<and> (\<forall>i<length (classes p). \<exists>n. free_count p i = Some n
         \<and> n + length (filter (\<lambda>d. fst (place p d) = i) live) = unat (chunk_count (classes p ! i))))"
proof -
  have "cfg \<noteq> []" "total_bytes (compute_layout cfg) \<le> payload_len sg"
    using create by (auto simp: pool_create_def Let_def split: if_splits)
  then have "pool_inv p0 (full_lists cfg) \<and> map chunk_count (classes p0) = map sc_chunk_count cfg"
    using create by (auto intro: pool_create_Inr [OF fits, of sg m0])
  then have "client_inv p0 (full_lists cfg) []"
    by (simp add: client_inv_init)
  then obtain p' live fs where run: "client_run p0 ops = (p', live)" and inv: "client_inv p' fs live"
    using client_run_inv [of p0 _ "[]" ops] unfolding client_run_def by (metis prod.collapse)
  have "free_count p' i = Some (length (fs ! i))" if "i < length (classes p')" for i
    using free_count_eq inv that by (simp add: client_inv_def pool_inv_def)
  then show ?thesis
    using run client_inv_disjoint [OF inv] client_conservation [OF inv] by auto
qed

theorem pool_no_sharing_witness:
  "case client_run demo_pool [Alloc 100, Alloc 100, Free 0, Alloc 10, Alloc 300] of
     (p, live) \<Rightarrow> \<forall>i<length (classes p). \<exists>n. free_count p i = Some n
         \<and> n + length (filter (\<lambda>d. fst (place p d) = i) live) = unat (chunk_count (classes p ! i))"
proof (rule pool_create_Inr [OF demo_config_fits demo_layout(2,1), of "\<lambda>_. 0"])
  fix h p
  assume *: "pool_create demo_segment (\<lambda>_. 0) demo_config = Inr (h, p)"
  then have "demo_pool = p" by (simp add: demo_pool_def)
  then show ?thesis
    using pool_no_sharing [OF demo_config_fits *,
        of "[Alloc 100, Alloc 100, Free 0, Alloc 10, Alloc 300]"]
    by (simp add: case_prod_beta Let_def)
qed

section \<open>The ladder of size classes\<close>

lemma bit_length_bounds: "n < 2 ^ bit_length n \<and> (0 < n \<longrightarrow> 2 ^ bit_length n \<le> 2 * n)"
proof (induction n rule: bit_length.induct)
  case (1 n)
  show ?case
  proof (cases "n = 0")
    case False
    then have "bit_length n = Suc (bit_length (n div 2))" by (subst bit_length.simps) simp
    moreover have "bit_length 0 = 0" by (subst bit_length.simps) simp
    ultimately show ?thesis using 1 [OF False] False by (cases "n div 2 = 0") auto
  qed (simp add: bit_length.simps)
qed

lemma next_power_of_two_le:
  assumes "unat w \<le> 2 ^ 31"
  obtains k where "k \<le> 31" and "unat (next_power_of_two w) = 2 ^ k" and "unat w \<le> 2 ^ k"
proof -
  let ?k = "bit_length (unat w - 1)"
  have "2 ^ ?k \<le> (2 :: nat) ^ 31"
  proof (cases "unat w - 1 = 0")
    case True
    then show ?thesis by (simp add: bit_length.simps)
  next
    case False
    define n where "n = unat w - 1"
    have n: "0 < n" "n < 2 ^ 31" using False assms by (simp_all add: n_def)
    have "(2 :: nat) ^ ?k \<le> 2 * n" using bit_length_bounds [of n] n by (simp add: n_def)
    then have "(2 :: nat) ^ ?k < 2 ^ 32" using n by simp
    then have "?k < 32" by (rule power_less_imp_less_exp [rotated]) simp
    then show ?thesis by (intro power_increasing) simp_all
  qed
  then have k: "?k \<le> 31" by (rule power_le_imp_le_exp [rotated]) simp
  moreover have "(2 :: nat) ^ ?k < 2 ^ 32" using k by (intro power_strict_increasing) simp_all
  then have "unat (next_power_of_two w) = 2 ^ ?k"
    unfolding next_power_of_two_def by (intro unat_of_nat_u32)
  moreover have "unat w \<le> 2 ^ ?k" using bit_length_bounds [of "unat w - 1"] by linarith
  ultimately show thesis by (rule that)
qed

lemma power_u32_eqI:
  assumes "unat (w :: u32) = 2 ^ k" and "k \<le> 31"
  shows "w = 2 ^ k"
proof -
  have "(2 :: nat) ^ k < 2 ^ 32" using assms(2) by (intro power_strict_increasing) simp_all
  then have "unat (of_nat (2 ^ k) :: u32) = 2 ^ k" by (rule unat_of_nat_u32)
  then show ?thesis using assms(1) by (simp add: word_unat_eq_iff)
qed

lemma power_of_two_loop_ends:
  assumes "unat sz = 2 ^ a" and "unat mx = 2 ^ b" and "a \<le> b" and "b \<le> 31"
  shows "power_of_two_loop sz mx count acc
       = Some (acc @ map (\<lambda>k. \<lparr>sc_chunk_size = 2 ^ k, sc_chunk_count = count\<rparr>) [a..<Suc b])"
  using assms
proof (induction "b - a" arbitrary: a sz acc)
  case 0
  then have "sz = mx" "sz = 2 ^ a" "a = b"
    using power_u32_eqI [of sz a] power_u32_eqI [of mx b] by simp_all
  then show ?case by (subst power_of_two_loop.simps) simp
next
  case (Suc d)
  then have ab: "a < b" by simp
  then have "(2 :: nat) ^ a < 2 ^ b" by simp
  then have lt: "\<not> sz \<ge> mx" using Suc.prems by (simp add: word_le_nat_alt)
  have "(2 :: nat) ^ Suc a < 2 ^ 32" using ab Suc.prems(4) by (intro power_strict_increasing) simp_all
  then have dbl: "unat (push_bit 1 sz) = 2 ^ Suc a"
    using Suc.prems(1) by (simp add: push_bit_eq_mult unat_word_ariths)
  have szp: "sz = 2 ^ a"
    using Suc.prems(1,3,4) by (intro power_u32_eqI) simp_all
  have "[a..<Suc b] = a # [Suc a..<Suc b]" using ab by (simp add: upt_conv_Cons del: upt_Suc)
  then show ?case
    using Suc.hyps(1) [OF _ dbl Suc.prems(2)] Suc.hyps(2) Suc.prems(4) ab lt szp
    by (subst power_of_two_loop.simps) (simp del: upt_Suc)
qed

text \<open>
  for sizes up to 2 GiB the ladder constructor returns, with one class per power of two
  from the rounded-up minimum (at least 64) to the rounded-up maximum, each with the asked count.
\<close>

theorem power_of_two_ladder:
  assumes "unat mn \<le> 2 ^ 31" and "unat mx \<le> 2 ^ 31"
  shows "\<exists>a b. 6 \<le> a \<and> a \<le> b \<and> b \<le> 31 \<and> unat mn \<le> 2 ^ a \<and> unat mx \<le> 2 ^ b
       \<and> power_of_two mn mx count
           = Some (map (\<lambda>k. \<lparr>sc_chunk_size = 2 ^ k, sc_chunk_count = count\<rparr>) [a..<Suc b])"
proof -
  have m: "unat (max mn 64) \<le> 2 ^ 31" using assms(1) by (simp add: max_def)
  obtain a where a: "a \<le> 31" "unat (next_power_of_two (max mn 64)) = 2 ^ a" "unat (max mn 64) \<le> 2 ^ a"
    using next_power_of_two_le [OF m] by blast
  let ?n = "next_power_of_two (max mn 64)"
  have "(2 :: nat) ^ a \<le> 2 ^ 31" using a(1) by (intro power_increasing) simp_all
  then have m': "unat (max mx ?n) \<le> 2 ^ 31" using assms(2) a(2) by (simp add: max_def)
  obtain b where b: "b \<le> 31" "unat (next_power_of_two (max mx ?n)) = 2 ^ b" "unat (max mx ?n) \<le> 2 ^ b"
    using next_power_of_two_le [OF m'] by blast
  have le: "unat x \<le> unat (max x y)" "unat y \<le> unat (max x y)" for x y :: u32
    by (simp_all add: max_def word_le_nat_alt)
  have "(2 :: nat) ^ a \<le> 2 ^ b" using le(2) [of ?n mx] a(2) b(3) by linarith
  then have ab: "a \<le> b" by (rule power_le_imp_le_exp [rotated]) simp
  have "(2 :: nat) ^ 6 \<le> 2 ^ a" using le(2) [of 64 mn] a(3) by simp
  then have "6 \<le> a" by (rule power_le_imp_le_exp [rotated]) simp
  moreover have "unat mn \<le> 2 ^ a" "unat mx \<le> 2 ^ b"
    using le(1) [of mn 64] le(1) [of mx ?n] a(3) b(3) by simp_all
  moreover have "power_of_two mn mx count
      = Some (map (\<lambda>k. \<lparr>sc_chunk_size = 2 ^ k, sc_chunk_count = count\<rparr>) [a..<Suc b])"
    using power_of_two_loop_ends [OF a(2) b(2) ab b(1)] by (simp add: power_of_two_def Let_def)
  ultimately show ?thesis using ab b(1) by blast
qed

theorem power_of_two_ladder_witness:
  "\<exists>a b. 6 \<le> a \<and> a \<le> b \<and> b \<le> 31 \<and> 100 \<le> (2 :: nat) ^ a \<and> 5000 \<le> (2 :: nat) ^ b
       \<and> power_of_two 100 5000 8
           = Some (map (\<lambda>k. \<lparr>sc_chunk_size = 2 ^ k, sc_chunk_count = 8\<rparr>) [a..<Suc b])"
  using power_of_two_ladder [of 100 5000 8] by (simp del: upt_Suc)

lemma power_of_two_loop_stuck:
  assumes "mx \<noteq> 0"
  shows "power_of_two_loop 0 mx count acc = None"
proof (rule ccontr)
  assume "power_of_two_loop 0 mx count acc \<noteq> None"
  then obtain y where "power_of_two_loop 0 mx count acc = Some y" by blast
  then have "(0 :: u32) = 0 \<longrightarrow> mx \<noteq> 0 \<longrightarrow> False"
    by (rule power_of_two_loop.raw_induct [where P = "\<lambda>sz mx count acc y. sz = 0 \<longrightarrow> mx \<noteq> 0 \<longrightarrow> False", rotated])
       (auto split: if_splits)
  then show False using assms by simp
qed

lemma next_power_of_two_wraps:
  assumes "2 ^ 31 < unat (w :: u32)"
  shows "next_power_of_two w = 0"
proof -
  define n where "n = unat w - 1"
  have n: "2 ^ 31 \<le> n" "n < 2 ^ 32" using assms unat_u32_less [of w] by (simp_all add: n_def)
  have "(2 :: nat) ^ 31 < 2 ^ bit_length n" using bit_length_bounds [of n] n(1) by linarith
  then have lo: "31 < bit_length n" by (rule power_less_imp_less_exp [rotated]) simp
  have "(2 :: nat) ^ bit_length n < 2 ^ 33" using bit_length_bounds [of n] n by simp
  then have "bit_length n < 33" by (rule power_less_imp_less_exp [rotated]) simp
  then have "bit_length n = 32" using lo by simp
  then have "next_power_of_two w = of_nat (2 ^ 32)" unfolding next_power_of_two_def n_def [symmetric] by simp
  then show ?thesis by simp
qed

text \<open>
  above 2 GiB the rounded-up minimum wraps to 0 in a release build, and then the loop,
  doubling 0, never reaches a non-zero maximum: the constructor does not return.
\<close>

theorem power_of_two_diverges:
  assumes "2 ^ 31 < unat mn" and "unat mx \<le> 2 ^ 31"
  shows "power_of_two mn mx count = None"
proof -
  have "max mn 64 = mn" using assms(1) by (simp add: max_def word_le_nat_alt)
  then have mn0: "next_power_of_two (max mn 64) = 0"
    using next_power_of_two_wraps [OF assms(1)] by simp
  obtain k where "unat (next_power_of_two mx) = 2 ^ k"
    using next_power_of_two_le [OF assms(2)] by blast
  then have "next_power_of_two mx \<noteq> 0" by (metis power_not_zero unat_0 zero_neq_numeral)
  moreover have "max mx (0 :: u32) = mx" by (simp add: max_def)
  ultimately show ?thesis by (simp add: power_of_two_def mn0 power_of_two_loop_stuck Let_def)
qed

theorem power_of_two_diverges_witness: "power_of_two 0x80000001 4096 1 = None"
  by (rule power_of_two_diverges) simp_all

end
