(* ===== verification/Shm_Journal.thy ===== *)
theory Shm_Journal
  imports Shm_Segment
begin

text \<open>
  \<^verbatim>\<open>crates/shm-core/src/journal.rs\<close>: the borrow journal, a fixed table of tagged entries with
  an occupancy bitmap, from which the coordinator reclaims what a dead actor held. A journal is
  a map from slots to entries (\<open>held\<close>); shown: the tagged entries decode to what was
  encoded, \<open>record\<close> takes a free slot or reports that there is none, \<open>release\<close> elects
  exactly one caller, \<open>replay\<close> yields exactly the held records in slot order.
  The interleaved loop of \<open>record_entry\<close> is theory \<open>Shm_Journal_Conc\<close>.
\<close>

section \<open>Bits of a 64-bit word\<close>

text \<open>\<^verbatim>\<open>u64::trailing_zeros\<close> and \<^verbatim>\<open>u64::count_ones\<close>.\<close>

definition trailing_zeros :: "u64 \<Rightarrow> nat" where
  "trailing_zeros w = length (takeWhile (\<lambda>i. \<not> bit w i) [0..<64])"

definition count_ones :: "u64 \<Rightarrow> nat" where
  "count_ones w = length (filter (bit w) [0..<64])"

lemma takeWhile_upt:
  "i < n \<Longrightarrow> \<not> P i \<Longrightarrow> (\<And>j. j < i \<Longrightarrow> P j) \<Longrightarrow> length (takeWhile P [0..<n]) = i"
proof -
  assume "i < n" and P: "\<not> P i" "\<And>j. j < i \<Longrightarrow> P j"
  then have "[0..<n] = [0..<i] @ i # [Suc i..<n]"
    by (metis add_0 le_add_same_cancel1 less_imp_add_positive upt_add_eq_append upt_conv_Cons zero_le)
  then show ?thesis using P by (simp add: takeWhile_append takeWhile_tail)
qed

lemma trailing_zeros:
  assumes "w \<noteq> 0"
  shows "trailing_zeros w < 64" and "bit w (trailing_zeros w)"
    and "j < trailing_zeros w \<Longrightarrow> \<not> bit w j"
proof -
  obtain k where k: "bit w k" using assms by (metis bit_0_eq bit_eqI bot_apply bot_bool_def)
  define i where "i = (LEAST k. bit w k)"
  have i: "bit w i" "\<And>j. j < i \<Longrightarrow> \<not> bit w j"
    using LeastI [of "bit w", OF k] not_less_Least by (auto simp: i_def)
  have "i < 64" using i(1) bit_imp_le_length by fastforce
  then have "trailing_zeros w = i"
    unfolding trailing_zeros_def using i by (intro takeWhile_upt) auto
  then show "trailing_zeros w < 64" "bit w (trailing_zeros w)"
    "j < trailing_zeros w \<Longrightarrow> \<not> bit w j"
    using i \<open>i < 64\<close> by simp_all
qed

section \<open>Tagged entries\<close>

definition JOURNAL_MAGIC :: u64 where "JOURNAL_MAGIC = from_le_bytes (ascii ''SHMJRNL3'')"
definition DEFAULT_CAPACITY :: nat where "DEFAULT_CAPACITY = 1024"
definition ENTRY_EMPTY :: u32 where "ENTRY_EMPTY = 0"
definition ENTRY_CHUNK_PIN :: u32 where "ENTRY_CHUNK_PIN = 1"
definition ENTRY_ARTIFACT_PIN :: u32 where "ENTRY_ARTIFACT_PIN = 2"
definition ENTRY_WRITE_LEASE :: u32 where "ENTRY_WRITE_LEASE = 3"
definition ENTRY_STAGED_MANIFEST :: u32 where "ENTRY_STAGED_MANIFEST = 4"

lemmas entry_kind_defs = ENTRY_EMPTY_def ENTRY_CHUNK_PIN_def ENTRY_ARTIFACT_PIN_def
  ENTRY_WRITE_LEASE_def ENTRY_STAGED_MANIFEST_def

text \<open>The payload \<^verbatim>\<open>w: [u32; 6]\<close> is a list of six words.\<close>

record journal_entry =
  kind :: u32
  je_pad :: u32
  je_w :: "u32 list"

definition ZERO_entry :: journal_entry where
  "ZERO_entry = \<lparr>kind = ENTRY_EMPTY, je_pad = 0, je_w = replicate 6 0\<rparr>"

definition chunk_pin :: "chunk_desc \<Rightarrow> journal_entry" where
  "chunk_pin d = \<lparr>kind = ENTRY_CHUNK_PIN, je_pad = 0,
     je_w = [segment_id d, generation d, offset d, len d, schema_id d, desc_pad d]\<rparr>"

definition artifact_pin :: "u32 \<Rightarrow> u32 \<Rightarrow> u64 \<Rightarrow> journal_entry" where
  "artifact_pin artifact_id incarnation version = \<lparr>kind = ENTRY_ARTIFACT_PIN, je_pad = 0,
     je_w = [artifact_id, ucast version, ucast (drop_bit 32 version), incarnation, 0, 0]\<rparr>"

definition write_lease :: "u32 \<Rightarrow> u32 \<Rightarrow> u32 \<Rightarrow> journal_entry" where
  "write_lease artifact_id incarnation fence = \<lparr>kind = ENTRY_WRITE_LEASE, je_pad = 0,
     je_w = [artifact_id, fence, incarnation, 0, 0, 0]\<rparr>"

definition staged_manifest :: "u32 \<Rightarrow> u32 \<Rightarrow> u64 \<Rightarrow> u32 \<Rightarrow> journal_entry" where
  "staged_manifest artifact_id incarnation manifest gen = \<lparr>kind = ENTRY_STAGED_MANIFEST, je_pad = 0,
     je_w = [artifact_id, incarnation, ucast manifest, ucast (drop_bit 32 manifest), gen, 0]\<rparr>"

datatype journal_record =
    ChunkPin chunk_desc
  | ArtifactPin (ap_artifact_id: u32) (ap_incarnation: u32) (ap_version: u64)
  | WriteLease (wl_artifact_id: u32) (wl_incarnation: u32) (wl_fence: u32)
  | StagedManifest (sm_artifact_id: u32) (sm_incarnation: u32) (sm_manifest: u64) (sm_generation: u32)

definition to_record :: "journal_entry \<Rightarrow> journal_record option" where
  "to_record e =
     (if kind e = ENTRY_CHUNK_PIN then Some (ChunkPin
        \<lparr>segment_id = je_w e ! 0, generation = je_w e ! 1, offset = je_w e ! 2, len = je_w e ! 3,
         schema_id = je_w e ! 4, desc_pad = je_w e ! 5\<rparr>)
      else if kind e = ENTRY_ARTIFACT_PIN then
        Some (ArtifactPin (je_w e ! 0) (je_w e ! 3) (ucast (je_w e ! 1) OR push_bit 32 (ucast (je_w e ! 2))))
      else if kind e = ENTRY_WRITE_LEASE then
        Some (WriteLease (je_w e ! 0) (je_w e ! 2) (je_w e ! 1))
      else if kind e = ENTRY_STAGED_MANIFEST then
        Some (StagedManifest (je_w e ! 0) (je_w e ! 1) (ucast (je_w e ! 2) OR push_bit 32 (ucast (je_w e ! 3))) (je_w e ! 4))
      else None)"

section \<open>The journal\<close>

record journal_header =
  jh_magic :: u64
  jh_capacity :: u32
  hint :: u32

record journal =
  jheader :: journal_header
  bitmap :: "u64 list"
  jslots :: "journal_entry list"
  jwords :: nat
  jcapacity :: nat

definition journal_layout :: "nat \<Rightarrow> nat \<times> nat \<times> nat \<times> nat" where
  "journal_layout cap =
     (let nwords = (cap + 63) div 64;
          bitmap_off = align_up 16 8;
          slots_off = align_up (bitmap_off + nwords * 8) 4;
          tot = slots_off + cap * 32
      in (bitmap_off, slots_off, nwords, tot))"

definition journal_create :: "segment \<Rightarrow> nat \<Rightarrow> shm_error + journal" where
  "journal_create sg cap =
     (if cap = 0 then Inl (LayoutOverflow ''journal capacity must be non-zero'')
      else case journal_layout cap of (bitmap_off, slots_off, nwords, tot) \<Rightarrow>
        if tot > payload_len sg then Inl (LayoutOverflow ''journal does not fit in segment'')
        else Inr \<lparr>jheader = \<lparr>jh_magic = JOURNAL_MAGIC, jh_capacity = of_nat cap, hint = 0\<rparr>,
                  bitmap = replicate nwords 0, jslots = replicate cap ZERO_entry,
                  jwords = nwords, jcapacity = cap\<rparr>)"

text \<open>\<^verbatim>\<open>attach\<close>: the arrays are those in the segment at the offsets the capacity gives.\<close>

definition journal_attach ::
  "journal_header \<Rightarrow> u64 list \<Rightarrow> journal_entry list \<Rightarrow> shm_error + journal" where
  "journal_attach h bm sl =
     (if jh_magic h \<noteq> JOURNAL_MAGIC then Inl LayoutMismatch
      else let cap = unat (jh_capacity h) in
        case journal_layout cap of (bitmap_off, slots_off, nwords, tot) \<Rightarrow>
          Inr \<lparr>jheader = h, bitmap = bm, jslots = sl, jwords = nwords, jcapacity = cap\<rparr>)"

definition valid_mask :: "journal \<Rightarrow> nat \<Rightarrow> u64" where
  "valid_mask j k =
     (if k + 1 < jwords j then - 1
      else let bits = jcapacity j - (jwords j - 1) * 64
           in if bits = 64 then - 1 else push_bit bits 1 - 1)"

text \<open>The scan of \<^verbatim>\<open>record_entry\<close> over the words, each visited without contention.\<close>

primrec record_scan :: "journal \<Rightarrow> journal_entry \<Rightarrow> nat \<Rightarrow> nat list \<Rightarrow> (shm_error + nat) \<times> journal" where
  "record_scan j e start_word [] = (Inl JournalFull, j)"
| "record_scan j e start_word (step # steps) =
     (let k = (start_word + step) mod jwords j;
          cur = bitmap j ! k;
          valid = valid_mask j k
      in if cur AND valid = valid then record_scan j e start_word steps
         else let b = trailing_zeros (NOT cur AND valid);
                  idx = k * 64 + b
              in (Inr idx,
                  j\<lparr>jslots := (jslots j)[idx := e],
                    bitmap := (bitmap j)[k := snd (compare_exchange (bitmap j ! k) cur (cur OR push_bit b 1))],
                    jheader := (jheader j)\<lparr>hint := of_nat (idx + 1)\<rparr>\<rparr>))"

definition record_entry :: "journal \<Rightarrow> journal_entry \<Rightarrow> (shm_error + nat) \<times> journal" where
  "record_entry j e =
     record_scan j e ((unat (hint (jheader j)) div 64) mod max (jwords j) 1) [0..<jwords j]"

definition record_chunk :: "journal \<Rightarrow> chunk_desc \<Rightarrow> (shm_error + nat) \<times> journal" where
  "record_chunk j d = record_entry j (chunk_pin d)"

definition record_artifact_pin :: "journal \<Rightarrow> u32 \<Rightarrow> u32 \<Rightarrow> u64 \<Rightarrow> (shm_error + nat) \<times> journal" where
  "record_artifact_pin j a i v = record_entry j (artifact_pin a i v)"

definition record_staged_manifest ::
  "journal \<Rightarrow> u32 \<Rightarrow> u32 \<Rightarrow> u64 \<Rightarrow> u32 \<Rightarrow> (shm_error + nat) \<times> journal" where
  "record_staged_manifest j a i m g = record_entry j (staged_manifest a i m g)"

definition record_write_lease :: "journal \<Rightarrow> u32 \<Rightarrow> u32 \<Rightarrow> u32 \<Rightarrow> (shm_error + nat) \<times> journal" where
  "record_write_lease j a i f = record_entry j (write_lease a i f)"

definition journal_release :: "journal \<Rightarrow> nat \<Rightarrow> (shm_error + bool) \<times> journal" where
  "journal_release j slot =
     (if slot \<ge> jcapacity j then (Inl OutOfBounds, j)
      else let k = slot div 64;
               msk = push_bit (slot mod 64) 1 :: u64;
               prev = bitmap j ! k
           in (Inr (prev AND msk \<noteq> 0),
               j\<lparr>bitmap := (bitmap j)[k := prev AND NOT msk],
                 jheader := (jheader j)\<lparr>hint := of_nat slot\<rparr>\<rparr>))"

definition is_occupied :: "journal \<Rightarrow> nat \<Rightarrow> bool" where
  "is_occupied j slot =
     (if slot \<ge> jcapacity j then False
      else bitmap j ! (slot div 64) AND push_bit (slot mod 64) 1 \<noteq> 0)"

definition journal_len :: "journal \<Rightarrow> nat" where
  "journal_len j = (\<Sum>k\<leftarrow>[0..<jwords j]. count_ones (bitmap j ! k AND valid_mask j k))"

definition journal_is_empty :: "journal \<Rightarrow> bool" where
  "journal_is_empty j \<longleftrightarrow> journal_len j = 0"

text \<open>The bit loop of \<^verbatim>\<open>replay_indexed\<close>: take the lowest set bit, clear it, go on.\<close>

lemma clear_lowest: "(v :: u64) \<noteq> 0 \<Longrightarrow> v AND (v - 1) < v"
proof -
  assume "v \<noteq> 0"
  then have "v - 1 < v" by (simp add: word_less_nat_alt unat_pred_word unat_gt_0)
  moreover have "v AND (v - 1) \<le> v - 1" by (rule word_and_le1)
  ultimately show ?thesis by (rule order.strict_trans1 [rotated])
qed

function replay_bits :: "journal \<Rightarrow> nat \<Rightarrow> u64 \<Rightarrow> (nat \<times> journal_record) list" where
  "replay_bits j k bits =
     (if bits = 0 then []
      else let b = trailing_zeros bits;
               rest = replay_bits j k (bits AND (bits - 1));
               idx = k * 64 + b
           in (case to_record (jslots j ! idx) of Some r \<Rightarrow> (idx, r) # rest | None \<Rightarrow> rest))"
  by auto
termination
  by (relation "measure (\<lambda>(j, k, bits). unat bits)")
     (auto simp: word_less_nat_alt [symmetric] clear_lowest)

declare replay_bits.simps [simp del]

definition replay_indexed :: "journal \<Rightarrow> (nat \<times> journal_record) list" where
  "replay_indexed j =
     concat (map (\<lambda>k. replay_bits j k (bitmap j ! k AND valid_mask j k)) [0..<jwords j])"

definition replay :: "journal \<Rightarrow> journal_record list" where
  "replay j = map snd (replay_indexed j)"

section \<open>Well-formedness and abstraction\<close>

definition journal_ok :: "journal \<Rightarrow> bool" where
  "journal_ok j \<longleftrightarrow> 0 < jcapacity j \<and> jwords j = (jcapacity j + 63) div 64
     \<and> length (bitmap j) = jwords j \<and> length (jslots j) = jcapacity j"

definition held :: "journal \<Rightarrow> nat \<rightharpoonup> journal_entry" where
  "held j i = (if is_occupied j i then Some (jslots j ! i) else None)"

lemma and_mask_iff: "(v AND push_bit b 1 \<noteq> 0) \<longleftrightarrow> bit (v :: u64) b \<and> b < 64"
  unfolding bit_iff_and_push_bit_not_eq_0 [symmetric] using bit_imp_le_length [of v b] by auto

lemma is_occupied_iff: "is_occupied j i \<longleftrightarrow> i < jcapacity j \<and> bit (bitmap j ! (i div 64)) (i mod 64)"
  using and_mask_iff [of "bitmap j ! (i div 64)" "i mod 64"] by (auto simp: is_occupied_def)

lemma valid_mask_bit:
  assumes "journal_ok j" and "k < jwords j" and "b < 64"
  shows "bit (valid_mask j k) b \<longleftrightarrow> k * 64 + b < jcapacity j"
proof (cases "k + 1 < jwords j")
  case True
  then have "k * 64 + b < jcapacity j" using assms by (simp add: journal_ok_def)
  then show ?thesis using True assms by (simp add: valid_mask_def bit_simps)
next
  case False
  let ?bits = "jcapacity j - (jwords j - 1) * 64"
  have k: "k = jwords j - 1" using False assms(2) by simp
  have bits: "?bits \<le> 64" "(jwords j - 1) * 64 \<le> jcapacity j" using assms by (auto simp: journal_ok_def)
  have "bit (push_bit ?bits 1 - 1 :: u64) b \<longleftrightarrow> b < ?bits" if "?bits < 64"
  proof -
    have "(push_bit ?bits 1 - 1 :: u64) = mask ?bits"
      by (simp add: mask_eq_exp_minus_1 push_bit_eq_mult)
    then show ?thesis using assms(3) by (simp add: bit_simps)
  qed
  then have "bit (valid_mask j k) b \<longleftrightarrow> b < ?bits"
    using False assms(3) bits by (auto simp: valid_mask_def bit_simps Let_def)
  then show ?thesis using k bits by auto
qed

lemma valid_free_bit:
  assumes ok: "journal_ok j" and k: "k < jwords j"
    and "bitmap j ! k AND valid_mask j k \<noteq> valid_mask j k"
  defines "b \<equiv> trailing_zeros (NOT (bitmap j ! k) AND valid_mask j k)"
  shows "b < 64" and "\<not> bit (bitmap j ! k) b" and "k * 64 + b < jcapacity j"
proof -
  have "NOT (bitmap j ! k) AND valid_mask j k \<noteq> 0"
    using assms(3) by (auto simp: bit_eq_iff bit_simps)
  note tz = trailing_zeros [OF this, folded b_def]
  show "b < 64" "\<not> bit (bitmap j ! k) b" using tz by (simp_all add: bit_simps)
  then show "k * 64 + b < jcapacity j"
    using valid_mask_bit [OF ok k, of b] tz by (simp add: bit_simps)
qed

lemma word_full_iff:
  assumes ok: "journal_ok j" and k: "k < jwords j"
  shows "bitmap j ! k AND valid_mask j k = valid_mask j k
     \<longleftrightarrow> (\<forall>b<64. k * 64 + b < jcapacity j \<longrightarrow> bit (bitmap j ! k) b)"
  using valid_mask_bit [OF ok k] by (auto simp: bit_eq_iff bit_simps)

lemma slot_word: "journal_ok j \<Longrightarrow> i < jcapacity j \<Longrightarrow> i div 64 < jwords j"
  by (auto simp: journal_ok_def)

lemma record_scan_spec:
  assumes ok: "journal_ok j" and "set steps \<subseteq> {..<jwords j}"
  shows "case record_scan j e s steps of
      (Inl err, j') \<Rightarrow> err = JournalFull \<and> j' = j
        \<and> (\<forall>step\<in>set steps. \<forall>b<64. ((s + step) mod jwords j) * 64 + b < jcapacity j
             \<longrightarrow> bit (bitmap j ! ((s + step) mod jwords j)) b)
    | (Inr i, j') \<Rightarrow> i < jcapacity j \<and> \<not> is_occupied j i \<and> journal_ok j'
        \<and> jcapacity j' = jcapacity j \<and> held j' = (held j)(i \<mapsto> e)"
  using assms(2)
proof (induction steps)
  case (Cons step steps)
  let ?k = "(s + step) mod jwords j"
  have k: "?k < jwords j" using ok by (intro mod_less_divisor) (auto simp: journal_ok_def)
  show ?case
  proof (cases "bitmap j ! ?k AND valid_mask j ?k = valid_mask j ?k")
    case True
    then show ?thesis
      using Cons word_full_iff [OF ok k] by (auto simp: Let_def split: prod.splits sum.splits)
  next
    case False
    let ?b = "trailing_zeros (NOT (bitmap j ! ?k) AND valid_mask j ?k)"
    let ?j = "j\<lparr>jslots := (jslots j)[?k * 64 + ?b := e],
        bitmap := (bitmap j)[?k := bitmap j ! ?k OR push_bit ?b 1],
        jheader := (jheader j)\<lparr>hint := of_nat (?k * 64 + ?b + 1)\<rparr>\<rparr>"
    note b = valid_free_bit [OF ok k False]
    have "record_scan j e s (step # steps) = (Inr (?k * 64 + ?b), ?j)"
      using False by (simp add: Let_def compare_exchange_def)
    moreover have "is_occupied ?j i \<longleftrightarrow> is_occupied j i \<or> i = ?k * 64 + ?b" for i
    proof (cases "i div 64 = ?k")
      case True
      then have "i = ?k * 64 + i mod 64" by (metis div_mult_mod_eq)
      then have "i = ?k * 64 + ?b \<longleftrightarrow> i mod 64 = ?b" by linarith
      then show ?thesis
        using True b k ok by (auto simp: is_occupied_iff bit_simps journal_ok_def)
    next
      case False
      then have "i \<noteq> ?k * 64 + ?b" using b(1) by auto
      then show ?thesis using False by (simp add: is_occupied_iff)
    qed
    moreover have "\<not> is_occupied j (?k * 64 + ?b)" using b by (simp add: is_occupied_iff)
    ultimately show ?thesis
      using ok b(3) by (auto simp: held_def fun_eq_iff journal_ok_def)
  qed
qed simp

lemma record_entry_full:
  assumes ok: "journal_ok j" and e: "fst (record_entry j e) = Inl err" and i: "i < jcapacity j"
  shows "is_occupied j i"
proof -
  let ?n = "jwords j"
  define s where "s = unat (hint (jheader j)) div 64 mod max ?n 1"
  have i64: "i div 64 < ?n" using slot_word [OF ok i] .
  have s: "s < ?n" using i64 by (simp add: s_def max_def)
  define step where "step = (i div 64 + ?n - s) mod ?n"
  have "(s + step) mod ?n = (s + (i div 64 + ?n - s)) mod ?n"
    unfolding step_def by (rule mod_add_right_eq)
  also have "s + (i div 64 + ?n - s) = i div 64 + ?n" using s by linarith
  finally have hit: "(s + step) mod ?n = i div 64" using i64 by simp
  have step: "step \<in> set [0..<?n]" using i64 by (simp add: step_def)
  obtain j' where "record_scan j e s [0..<?n] = (Inl err, j')"
    using e unfolding record_entry_def s_def [symmetric] by (metis prod.collapse)
  moreover have "set [0..<?n] \<subseteq> {..<?n}" by auto
  ultimately have "\<forall>step\<in>set [0..<?n]. \<forall>b<64. ((s + step) mod ?n) * 64 + b < jcapacity j
      \<longrightarrow> bit (bitmap j ! ((s + step) mod ?n)) b"
    using record_scan_spec [OF ok, where steps = "[0..<?n]" and e = e and s = s] by auto
  then have "bit (bitmap j ! (i div 64)) (i mod 64)"
    using i step by (metis div_mult_mod_eq hit mod_less_divisor zero_less_numeral)
  then show ?thesis using i by (simp add: is_occupied_iff)
qed

text \<open>
  every kind of borrow survives the journal: the entry built for it decodes to the record
  with the same fields, 64-bit versions and manifest references included, and a zeroed slot
  decodes to nothing.
\<close>

theorem journal_entry_roundtrip:
  "to_record (chunk_pin d) = Some (ChunkPin d)
   \<and> to_record (artifact_pin a i v) = Some (ArtifactPin a i v)
   \<and> to_record (write_lease a i f) = Some (WriteLease a i f)
   \<and> to_record (staged_manifest a i m g) = Some (StagedManifest a i m g)
   \<and> to_record ZERO_entry = None"
proof -
  have "ucast (ucast v :: u32) OR push_bit 32 (ucast (ucast (drop_bit 32 v) :: u32)) = v" for v :: u64
    using pack_high_low [of v] by (simp add: pack_halves_def high_half_def low_half_def or.commute)
  then show ?thesis
    by (simp add: to_record_def chunk_pin_def artifact_pin_def write_lease_def staged_manifest_def
        ZERO_entry_def entry_kind_defs)
qed

text \<open>
  \<open>record_entry\<close> stores the entry in a slot that was free, touching no other, whatever
  the hint says; it reports \<open>JournalFull\<close> exactly when no slot is free, and then changes nothing.
\<close>

theorem record_entry_spec:
  assumes "journal_ok j"
  shows "case record_entry j e of
      (Inr i, j') \<Rightarrow> i < jcapacity j \<and> held j i = None \<and> held j' = (held j)(i \<mapsto> e)
        \<and> journal_ok j' \<and> jcapacity j' = jcapacity j
    | (Inl err, j') \<Rightarrow> err = JournalFull \<and> j' = j \<and> (\<forall>i<jcapacity j. held j i \<noteq> None)"
proof -
  have sub: "set [0..<jwords j] \<subseteq> {..<jwords j}" by auto
  obtain r j' where r: "record_entry j e = (r, j')" by fastforce
  note scan = record_scan_spec [OF assms sub, where e = e and
      s = "unat (hint (jheader j)) div 64 mod max (jwords j) 1", folded record_entry_def, unfolded r]
  show ?thesis
  proof (cases r)
    case (Inl err)
    then have "is_occupied j i" if "i < jcapacity j" for i
      using record_entry_full [OF assms, of e err i] r that by simp
    then show ?thesis using scan Inl r by (simp add: held_def)
  next
    case (Inr i)
    then show ?thesis using scan r by (simp add: held_def)
  qed
qed

text \<open>
  releasing a slot clears it and tells the caller whether it was held, so of any number of
  releases of a held slot exactly the first one is elected; an out-of-range slot is refused.
\<close>

theorem release_spec:
  assumes "journal_ok j"
  shows "case journal_release j i of
      (Inr won, j') \<Rightarrow> i < jcapacity j \<and> (won \<longleftrightarrow> held j i \<noteq> None) \<and> held j' = (held j)(i := None)
        \<and> journal_ok j' \<and> fst (journal_release j' i) = Inr False
    | (Inl err, j') \<Rightarrow> err = OutOfBounds \<and> j' = j \<and> jcapacity j \<le> i"
proof (cases "i < jcapacity j")
  case True
  let ?m = "push_bit (i mod 64) 1 :: u64"
  let ?j = "j\<lparr>bitmap := (bitmap j)[i div 64 := bitmap j ! (i div 64) AND NOT ?m],
        jheader := (jheader j)\<lparr>hint := of_nat i\<rparr>\<rparr>"
  have rel: "journal_release j i = (Inr (is_occupied j i), ?j)"
    using True by (simp add: journal_release_def is_occupied_def Let_def)
  have iw: "i div 64 < length (bitmap j)"
    using slot_word [OF assms True] assms by (simp add: journal_ok_def)
  have occ: "is_occupied ?j k \<longleftrightarrow> is_occupied j k \<and> k \<noteq> i" for k
  proof (cases "k div 64 = i div 64")
    case True
    then have "k = i \<longleftrightarrow> k mod 64 = i mod 64" by (metis div_mult_mod_eq)
    then show ?thesis using True iw by (auto simp: is_occupied_iff bit_simps)
  qed (auto simp: is_occupied_iff)
  then have "held ?j = (held j)(i := None)" by (auto simp: held_def fun_eq_iff)
  moreover have "journal_ok ?j" using assms by (simp add: journal_ok_def)
  moreover have "fst (journal_release ?j i) = Inr (is_occupied ?j i)"
    using True by (simp add: journal_release_def is_occupied_def Let_def)
  ultimately show ?thesis using rel occ True by (simp add: held_def)
qed (simp add: journal_release_def)

section \<open>Replay\<close>

lemma clear_lowest_bit:
  assumes "(v :: u64) \<noteq> 0"
  shows "bit (v AND (v - 1)) b \<longleftrightarrow> bit v b \<and> b \<noteq> trailing_zeros v"
proof -
  let ?t = "trailing_zeros v"
  have t: "?t < 64" "bit v ?t" "\<And>b. b < ?t \<Longrightarrow> \<not> bit v b" using trailing_zeros [OF assms] by auto
  have "unset_bit ?t v AND mask ?t = 0"
    using t(3) by (auto simp: bit_eq_iff bit_simps)
  then have "unset_bit ?t v + mask ?t = unset_bit ?t v OR mask ?t"
    by (rule disjunctive_add_eq_or)
  moreover have "unset_bit ?t v = v - 2 ^ ?t" using t(2) by (simp add: unset_bit_eq)
  moreover have "(mask ?t :: u64) = 2 ^ ?t - 1" by (rule mask_eq_exp_minus_1)
  ultimately have "v - 1 = unset_bit ?t v OR mask ?t" by simp
  then show ?thesis using t(3) [of b] bit_imp_le_length [of v b] by (auto simp: bit_simps)
qed

lemma replay_bits_spec:
  "set (replay_bits j k v) = {(k * 64 + b, r) | b r. bit v b \<and> to_record (jslots j ! (k * 64 + b)) = Some r}
   \<and> sorted_wrt (<) (map fst (replay_bits j k v))"
proof (induction j k v rule: replay_bits.induct)
  case (1 j k v)
  show ?case
  proof (cases "v = 0")
    case False
    let ?t = "trailing_zeros v" and ?rest = "replay_bits j k (v AND (v - 1))"
    note t = trailing_zeros [OF False] and clr = clear_lowest_bit [OF False]
    have "set ?rest = {(k * 64 + b, r) | b r. (bit v b \<and> b \<noteq> ?t) \<and> to_record (jslots j ! (k * 64 + b)) = Some r}"
      and srt: "sorted_wrt (<) (map fst ?rest)"
      using 1 False by (simp_all add: clr)
    moreover have "replay_bits j k v = (case to_record (jslots j ! (k * 64 + ?t)) of
        Some r \<Rightarrow> (k * 64 + ?t, r) # ?rest | None \<Rightarrow> ?rest)"
      using False by (subst replay_bits.simps) (simp add: Let_def)
    moreover have "?t < b" if "bit v b" "b \<noteq> ?t" for b
      using t(3) that by (metis linorder_neq_iff)
    ultimately show ?thesis
      using t(2) by (cases "to_record (jslots j ! (k * 64 + ?t))") auto
  qed (simp add: replay_bits.simps)
qed

lemma replay_word_spec:
  assumes ok: "journal_ok j" and k: "k < jwords j"
  defines "l \<equiv> replay_bits j k (bitmap j ! k AND valid_mask j k)"
  shows "set l = {(i, r). i div 64 = k \<and> (\<exists>e. held j i = Some e \<and> to_record e = Some r)}"
    and "sorted_wrt (<) (map fst l)"
proof -
  have bit: "bit (bitmap j ! k AND valid_mask j k) b \<longleftrightarrow> b < 64 \<and> is_occupied j (k * 64 + b)" for b
    using valid_mask_bit [OF ok k, of b] bit_imp_le_length [of "bitmap j ! k" b]
    by (auto simp: bit_simps is_occupied_iff)
  have "(i, r) \<in> set l \<longleftrightarrow> i div 64 = k \<and> (\<exists>e. held j i = Some e \<and> to_record e = Some r)" for i r
  proof
    assume "(i, r) \<in> set l"
    then obtain b where "i = k * 64 + b" "b < 64" "is_occupied j i" "to_record (jslots j ! i) = Some r"
      using replay_bits_spec [of j k] by (auto simp: l_def bit)
    then show "i div 64 = k \<and> (\<exists>e. held j i = Some e \<and> to_record e = Some r)"
      by (simp add: held_def)
  next
    assume r: "i div 64 = k \<and> (\<exists>e. held j i = Some e \<and> to_record e = Some r)"
    then have i: "i = k * 64 + i mod 64" by (metis div_mult_mod_eq)
    have "is_occupied j i" "to_record (jslots j ! i) = Some r"
      using r by (auto simp: held_def split: if_splits)
    then have "bit (bitmap j ! k AND valid_mask j k) (i mod 64)
        \<and> to_record (jslots j ! (k * 64 + i mod 64)) = Some r"
      using i bit [of "i mod 64"] by simp
    then have "(k * 64 + i mod 64, r) \<in> set l"
      using replay_bits_spec [of j k "bitmap j ! k AND valid_mask j k"] unfolding l_def by blast
    then show "(i, r) \<in> set l" using i by simp
  qed
  then show "set l = {(i, r). i div 64 = k \<and> (\<exists>e. held j i = Some e \<and> to_record e = Some r)}" by auto
  show "sorted_wrt (<) (map fst l)" using replay_bits_spec [of j k] by (simp add: l_def)
qed

lemma sorted_concat_words:
  assumes "\<And>k. k < n \<Longrightarrow> sorted_wrt (<) (map fst (f k))"
    and "\<And>k i r. k < n \<Longrightarrow> (i, r) \<in> set (f k) \<Longrightarrow> i div 64 = (k :: nat)"
  shows "sorted_wrt (<) (map fst (concat (map f [0..<n])))"
  using assms
proof (induction n)
  case (Suc n)
  have "fst a < fst b" if "a \<in> set (concat (map f [0..<n]))" "b \<in> set (f n)" for a b
  proof -
    obtain k where k: "k < n" "a \<in> set (f k)" using \<open>a \<in> set (concat (map f [0..<n]))\<close> by auto
    then have "fst a div 64 = k" "fst b div 64 = n"
      using Suc.prems(2) [of k "fst a" "snd a"] Suc.prems(2) [of n "fst b" "snd b"] that by auto
    then show ?thesis using k(1) by (metis div_le_mono linorder_not_le)
  qed
  then show ?case using Suc by (auto simp: sorted_wrt_append)
qed simp

lemma held_bound: "held j i = Some e \<Longrightarrow> i < jcapacity j"
  by (auto simp: held_def is_occupied_iff split: if_splits)

lemma sorted_replay_indexed: "journal_ok j \<Longrightarrow> sorted_wrt (<) (map fst (replay_indexed j))"
  unfolding replay_indexed_def by (rule sorted_concat_words) (use replay_word_spec in auto)

lemma set_replay_indexed:
  assumes "journal_ok j"
  shows "set (replay_indexed j) = {(i, r). \<exists>e. held j i = Some e \<and> to_record e = Some r}"
proof -
  have "(i, r) \<in> set (replay_indexed j) \<longleftrightarrow>
      (\<exists>k<jwords j. i div 64 = k \<and> (\<exists>e. held j i = Some e \<and> to_record e = Some r))" for i r
    unfolding replay_indexed_def by (simp add: replay_word_spec(1) [OF assms] cong: conj_cong)
  then show ?thesis using slot_word [OF assms held_bound] by blast
qed

text \<open>
  a replay yields, in slot order and without repetition, exactly the decoded records of the
  slots that are held: nothing released, nothing missed.
\<close>

theorem replay_exact:
  assumes "journal_ok j"
  shows "set (replay_indexed j) = {(i, r). \<exists>e. held j i = Some e \<and> to_record e = Some r}
       \<and> sorted_wrt (<) (map fst (replay_indexed j))"
  using set_replay_indexed [OF assms] sorted_replay_indexed [OF assms] by blast

section \<open>Creation and a run\<close>

lemma journal_layout_words: "journal_layout cap = (a, b, n, t) \<Longrightarrow> n = (cap + 63) div 64"
  by (auto simp: journal_layout_def Let_def)

lemma journal_create_ok:
  assumes "journal_create sg cap = Inr j"
  shows "journal_ok j" and "held j = Map.empty" and "jcapacity j = cap"
proof -
  have j: "0 < cap" "jcapacity j = cap" "jwords j = (cap + 63) div 64"
    "bitmap j = replicate (jwords j) 0" "jslots j = replicate cap ZERO_entry"
    using assms by (auto simp: journal_create_def dest!: journal_layout_words split: if_splits prod.splits)
  then show ok: "journal_ok j" "jcapacity j = cap" by (simp_all add: journal_ok_def)
  have "\<not> is_occupied j i" for i
    using slot_word [OF ok(1), of i] j by (auto simp: is_occupied_iff)
  then show "held j = Map.empty" by (simp add: held_def fun_eq_iff)
qed

definition demo_journal :: journal where
  "demo_journal = projr (journal_create (snd (projr (segment_create None 7 4096))) 3)"

lemma demo_journal_create: "journal_create (snd (projr (segment_create None 7 4096))) 3 = Inr demo_journal"
  by (simp add: demo_journal_def journal_create_def segment_create_def payload_len_def HEADER_SIZE_def
      journal_layout_def align_up_def)

lemmas demo_journal_ok = journal_create_ok [OF demo_journal_create]

theorem record_entry_spec_witness:
  "case record_entry demo_journal (chunk_pin ZERO_desc) of
     (Inr i, j') \<Rightarrow> i < 3 \<and> held j' = [i \<mapsto> chunk_pin ZERO_desc] | (Inl _, _) \<Rightarrow> False"
  using record_entry_spec [OF demo_journal_ok(1), of "chunk_pin ZERO_desc"] demo_journal_ok(2,3)
  by (auto split: prod.splits sum.splits dest!: spec [of _ 0])

theorem release_spec_witness:
  "fst (journal_release demo_journal 2) = Inr False \<and> fst (journal_release demo_journal 3) = Inl OutOfBounds"
  using release_spec [OF demo_journal_ok(1), of 2] release_spec [OF demo_journal_ok(1), of 3] demo_journal_ok(2,3)
  by (auto split: prod.splits sum.splits)

theorem replay_exact_witness: "replay_indexed demo_journal = []"
  using replay_exact [OF demo_journal_ok(1)] demo_journal_ok(2) by simp

end
