(* ===== verification/Shm_Journal_Conc.thy ===== *)
theory Shm_Journal_Conc
  imports Shm_Journal
begin

text \<open>
  The interleaved inner loop of \<^verbatim>\<open>record_entry\<close> on one bitmap word (\<^verbatim>\<open>journal.rs\<close>): load
  the word, write the slot of its lowest free bit, compare-exchange the bit in, retry from the
  load on failure. Holders release their bits at any moment. Each step is one access to shared
  memory, sequentially consistent. \<open>ledger\<close> is a ghost: the slots handed out and the entry
  each caller recorded there.
  Shown: with one recording thread at a time every handed-out slot keeps its caller's entry,
  whatever releases run; with two, the slot write that precedes a lost exchange can
  overwrite an entry already recorded, and the replay then misses it.
\<close>

datatype 'e rec_pc =
    RIdle
  | RLoad 'e
  | RWrite 'e u64
  | RCas 'e u64 nat

record 'e jsys =
  jword :: u64
  jslot :: "nat \<Rightarrow> 'e"
  jpc :: "nat \<Rightarrow> 'e rec_pc"
  ledger :: "(nat \<times> 'e) set"

abbreviation set_jpc :: "nat \<Rightarrow> 'e rec_pc \<Rightarrow> 'e jsys \<Rightarrow> 'e jsys" where
  "set_jpc t pc s \<equiv> s\<lparr>jpc := (jpc s)(t := pc)\<rparr>"

text \<open>
  One step of recorder \<open>t\<close>. The bit is chosen from the loaded value; the full word ends the
  visit of this word.
\<close>

inductive rec_step :: "u64 \<Rightarrow> nat \<Rightarrow> 'e jsys \<Rightarrow> 'e jsys \<Rightarrow> bool" for valid :: u64 and t :: nat where
  rec_call: "jpc s t = RIdle \<Longrightarrow> rec_step valid t s (set_jpc t (RLoad e) s)"
| rec_full: "jpc s t = RLoad e \<Longrightarrow> jword s AND valid = valid \<Longrightarrow> rec_step valid t s (set_jpc t RIdle s)"
| rec_load: "jpc s t = RLoad e \<Longrightarrow> jword s AND valid \<noteq> valid
    \<Longrightarrow> rec_step valid t s (set_jpc t (RWrite e (jword s)) s)"
| rec_write: "jpc s t = RWrite e cur \<Longrightarrow> b = trailing_zeros (NOT cur AND valid)
    \<Longrightarrow> rec_step valid t s (set_jpc t (RCas e cur b) (s\<lparr>jslot := (jslot s)(b := e)\<rparr>))"
| rec_cas: "jpc s t = RCas e cur b \<Longrightarrow> jword s = cur
    \<Longrightarrow> rec_step valid t s (set_jpc t RIdle (s\<lparr>jword := cur OR push_bit b 1, ledger := insert (b, e) (ledger s)\<rparr>))"
| rec_retry: "jpc s t = RCas e cur b \<Longrightarrow> rec_step valid t s (set_jpc t (RLoad e) s)"

text \<open>A holder's \<^verbatim>\<open>release\<close>: the \<^verbatim>\<open>fetch_and\<close>.\<close>

inductive rel_step :: "'e jsys \<Rightarrow> 'e jsys \<Rightarrow> bool" where
  rel_clear: "(b, e) \<in> ledger s
    \<Longrightarrow> rel_step s (s\<lparr>jword := jword s AND NOT (push_bit b 1), ledger := ledger s - {(b, e)}\<rparr>)"

definition jsys_init :: "'e \<Rightarrow> 'e jsys" where
  "jsys_init z = \<lparr>jword = 0, jslot = \<lambda>_. z, jpc = \<lambda>_. RIdle, ledger = {}\<rparr>"

text \<open>The states that the recorders in \<open>ts\<close> and any releasers can reach.\<close>

inductive rec_reachable :: "u64 \<Rightarrow> nat set \<Rightarrow> 'e \<Rightarrow> 'e jsys \<Rightarrow> bool" for valid ts z where
  rr_init: "rec_reachable valid ts z (jsys_init z)"
| rr_rec: "rec_reachable valid ts z s \<Longrightarrow> t \<in> ts \<Longrightarrow> rec_step valid t s s' \<Longrightarrow> rec_reachable valid ts z s'"
| rr_rel: "rec_reachable valid ts z s \<Longrightarrow> rel_step s s' \<Longrightarrow> rec_reachable valid ts z s'"

inductive_cases rec_stepE: "rec_step valid t s s'"
inductive_cases rel_stepE: "rel_step s s'"

text \<open>
  The invariant of a single recorder: a handed-out slot has its bit set, holds its entry and has
  one owner; the word only loses bits after the recorder's load.
\<close>

definition ledger_ok :: "'e jsys \<Rightarrow> bool" where
  "ledger_ok s \<longleftrightarrow> (\<forall>b e. (b, e) \<in> ledger s \<longrightarrow> b < 64 \<and> bit (jword s) b \<and> jslot s b = e)"

primrec loaded :: "u64 \<Rightarrow> 'e rec_pc \<Rightarrow> u64 \<Rightarrow> (nat \<Rightarrow> 'e) \<Rightarrow> bool" where
  "loaded valid RIdle v sl \<longleftrightarrow> True"
| "loaded valid (RLoad e) v sl \<longleftrightarrow> True"
| "loaded valid (RWrite e cur) v sl \<longleftrightarrow> cur AND valid \<noteq> valid \<and> (\<forall>b. bit v b \<longrightarrow> bit cur b)"
| "loaded valid (RCas e cur b) v sl \<longleftrightarrow> b < 64 \<and> \<not> bit cur b \<and> sl b = e \<and> (\<forall>b. bit v b \<longrightarrow> bit cur b)"

definition solo_inv :: "u64 \<Rightarrow> nat \<Rightarrow> 'e jsys \<Rightarrow> bool" where
  "solo_inv valid t s \<longleftrightarrow> ledger_ok s \<and> loaded valid (jpc s t) (jword s) (jslot s)"

lemma free_bit:
  assumes "(cur :: u64) AND valid \<noteq> valid"
  shows "trailing_zeros (NOT cur AND valid) < 64" and "\<not> bit cur (trailing_zeros (NOT cur AND valid))"
proof -
  have "NOT cur AND valid \<noteq> 0" using assms by (auto simp: bit_eq_iff bit_simps)
  from trailing_zeros(1,2) [OF this]
  show "trailing_zeros (NOT cur AND valid) < 64" "\<not> bit cur (trailing_zeros (NOT cur AND valid))"
    by (simp_all add: bit_simps)
qed

lemma rec_step_solo:
  assumes "rec_step valid t s s'" and "solo_inv valid t s"
  shows "solo_inv valid t s'"
  using assms
proof (cases rule: rec_step.cases)
  case (rec_write e cur b)
  then have "cur AND valid \<noteq> valid" "\<forall>b. bit (jword s) b \<longrightarrow> bit cur b"
    using assms(2) by (simp_all add: solo_inv_def)
  then show ?thesis
    using rec_write free_bit [of cur valid] assms(2) by (auto simp: solo_inv_def ledger_ok_def)
next
  case (rec_cas e cur b)
  then show ?thesis using assms(2) by (auto simp: solo_inv_def ledger_ok_def bit_simps)
qed (auto simp: solo_inv_def ledger_ok_def)

lemma loaded_mono:
  "loaded valid pc v sl \<Longrightarrow> (\<And>b. bit v' b \<Longrightarrow> bit v b) \<Longrightarrow> loaded valid pc v' sl"
  by (cases pc) auto

lemma rel_step_solo:
  assumes "rel_step s s'" and "solo_inv valid t s"
  shows "solo_inv valid t s'"
  using assms
proof (cases rule: rel_step.cases)
  case (rel_clear b e)
  have "ledger_ok s" using assms(2) by (simp add: solo_inv_def)
  then have "ledger_ok s'"
    using rel_clear by (auto simp: ledger_ok_def bit_simps)
  moreover have "loaded valid (jpc s' t) (jword s') (jslot s')"
    using assms(2) rel_clear loaded_mono [of valid "jpc s t" "jword s" "jslot s" "jword s'"]
    by (simp add: solo_inv_def bit_simps)
  ultimately show ?thesis by (simp add: solo_inv_def)
qed

text \<open>
  while one thread records at a time, under any interleaving with releases every slot that
  was handed out and not released has its bit set and holds the entry recorded for it, so a
  replay at any moment finds it.
\<close>

theorem single_recorder_safe:
  assumes "rec_reachable valid {t} z s" and "(b, e) \<in> ledger s"
  shows "bit (jword s) b \<and> jslot s b = e"
proof -
  have "solo_inv valid t s"
    using assms(1)
  proof (induction rule: rec_reachable.induct)
    case rr_init
    then show ?case by (simp add: solo_inv_def ledger_ok_def jsys_init_def)
  qed (auto intro: rec_step_solo rel_step_solo)
  then show ?thesis using assms(2) by (auto simp: solo_inv_def ledger_ok_def)
qed

section \<open>Two recorders\<close>

definition lost_run :: "nat jsys list" where
  "lost_run =
    (let s0 = jsys_init 0;
         s1 = set_jpc 0 (RLoad 10) s0;
         s2 = set_jpc 1 (RLoad 20) s1;
         s3 = set_jpc 0 (RWrite 10 0) s2;
         s4 = set_jpc 1 (RWrite 20 0) s3;
         s5 = set_jpc 0 (RCas 10 0 0) (s4\<lparr>jslot := (jslot s4)(0 := 10)\<rparr>);
         s6 = set_jpc 0 RIdle (s5\<lparr>jword := 1, ledger := {(0, 10)}\<rparr>);
         s7 = set_jpc 1 (RCas 20 0 0) (s6\<lparr>jslot := (jslot s6)(0 := 20)\<rparr>)
     in [s0, s1, s2, s3, s4, s5, s6, s7])"

text \<open>
  with two threads recording into one word, a slot already handed out can be overwritten:
  the second thread, which loaded the word before the first one's exchange, writes its entry
  into the same slot, and only then fails its own exchange. The first entry is then in no slot:
  a replay at that moment does not yield it.
\<close>

theorem two_recorders_lose_entry:
  "\<exists>s. rec_reachable (- 1) {0, 1} 0 s \<and> (0, 10 :: nat) \<in> ledger s \<and> bit (jword s) 0 \<and> jslot s 0 = 20
     \<and> (\<forall>b. jslot s b \<noteq> 10)"
proof -
  have tz: "trailing_zeros (- 1) = 0" by (simp add: trailing_zeros_def upt_conv_Cons)
  have "rec_reachable (- 1) {0, 1} 0 (lost_run ! 0)" by (simp add: lost_run_def Let_def rr_init)
  moreover have "rec_step (- 1) 0 (lost_run ! 0) (lost_run ! 1)"
    using rec_call [of "lost_run ! 0" 0 "- 1" 10] by (simp add: lost_run_def Let_def jsys_init_def)
  ultimately have r1: "rec_reachable (- 1) {0, 1} 0 (lost_run ! 1)" by (auto intro: rr_rec)
  have "rec_step (- 1) 1 (lost_run ! 1) (lost_run ! 2)"
    using rec_call [of "lost_run ! 1" 1 "- 1" 20] by (simp add: lost_run_def Let_def jsys_init_def)
  with r1 have r2: "rec_reachable (- 1) {0, 1} 0 (lost_run ! 2)" by (auto intro: rr_rec)
  have "rec_step (- 1) 0 (lost_run ! 2) (lost_run ! 3)"
    using rec_load [of "lost_run ! 2" 0 10 "- 1"] by (simp add: lost_run_def Let_def jsys_init_def)
  with r2 have r3: "rec_reachable (- 1) {0, 1} 0 (lost_run ! 3)" by (auto intro: rr_rec)
  have "rec_step (- 1) 1 (lost_run ! 3) (lost_run ! 4)"
    using rec_load [of "lost_run ! 3" 1 20 "- 1"] by (simp add: lost_run_def Let_def jsys_init_def)
  with r3 have r4: "rec_reachable (- 1) {0, 1} 0 (lost_run ! 4)" by (auto intro: rr_rec)
  have "rec_step (- 1) 0 (lost_run ! 4) (lost_run ! 5)"
    using rec_write [of "lost_run ! 4" 0 10 0 0 "- 1"] tz by (simp add: lost_run_def Let_def jsys_init_def)
  with r4 have r5: "rec_reachable (- 1) {0, 1} 0 (lost_run ! 5)" by (auto intro: rr_rec)
  have "rec_step (- 1) 0 (lost_run ! 5) (lost_run ! 6)"
    using rec_cas [of "lost_run ! 5" 0 10 0 0 "- 1"] by (simp add: lost_run_def Let_def jsys_init_def)
  with r5 have r6: "rec_reachable (- 1) {0, 1} 0 (lost_run ! 6)" by (auto intro: rr_rec)
  have "rec_step (- 1) 1 (lost_run ! 6) (lost_run ! 7)"
    using rec_write [of "lost_run ! 6" 1 20 0 0 "- 1"] tz by (simp add: lost_run_def Let_def jsys_init_def)
  with r6 have "rec_reachable (- 1) {0, 1} 0 (lost_run ! 7)" by (auto intro: rr_rec)
  moreover have "(0, 10) \<in> ledger (lost_run ! 7)" "bit (jword (lost_run ! 7)) 0"
    "jslot (lost_run ! 7) 0 = 20" "\<forall>b. jslot (lost_run ! 7) b \<noteq> 10"
    by (simp_all add: lost_run_def Let_def jsys_init_def)
  ultimately show ?thesis by blast
qed

theorem single_recorder_safe_witness:
  "\<exists>s. rec_reachable (- 1) {0} (0 :: nat) s \<and> bit (jword s) 0 \<and> jslot s 0 = 10"
proof -
  have tz: "trailing_zeros (- 1) = 0" by (simp add: trailing_zeros_def upt_conv_Cons)
  let ?s1 = "set_jpc 0 (RLoad 10) (jsys_init 0)"
  let ?s2 = "set_jpc 0 (RWrite 10 0) ?s1"
  let ?s3 = "set_jpc 0 (RCas 10 0 0) (?s2\<lparr>jslot := (jslot ?s2)(0 := 10)\<rparr>)"
  let ?s4 = "set_jpc 0 RIdle (?s3\<lparr>jword := 0 OR push_bit 0 1, ledger := insert (0, 10) (ledger ?s3)\<rparr>)"
  have "rec_reachable (- 1) {0} 0 ?s1"
    by (rule rr_rec [OF rr_init, of 0]) (use rec_call [of "jsys_init 0" 0 "- 1" 10] in \<open>simp_all add: jsys_init_def\<close>)
  then have "rec_reachable (- 1) {0} 0 ?s2"
    by (rule rr_rec [of _ _ _ _ 0]) (use rec_load [of ?s1 0 10 "- 1"] in \<open>simp_all add: jsys_init_def\<close>)
  then have "rec_reachable (- 1) {0} 0 ?s3"
    by (rule rr_rec [of _ _ _ _ 0]) (use rec_write [of ?s2 0 10 0 0 "- 1"] tz in \<open>simp_all add: jsys_init_def\<close>)
  then have s4: "rec_reachable (- 1) {0} 0 ?s4"
    by (rule rr_rec [of _ _ _ _ 0]) (use rec_cas [of ?s3 0 10 0 0 "- 1"] in \<open>simp_all add: jsys_init_def\<close>)
  moreover have "(0, 10) \<in> ledger ?s4" by simp
  ultimately show ?thesis using single_recorder_safe [OF s4, of 0 10] by blast
qed

end
