(* ===== verification/Shm_Ring.thy ===== *)
theory Shm_Ring
  imports Shm_Segment
begin

text \<open>
  \<^verbatim>\<open>crates/shm-ring/src/{ring,publish,subscribe}.rs\<close>: the single-producer broadcast ring.
  The ring state is the mapped header and slot array; a subscriber keeps a private cursor and
  possibly an index into the table of reliable cursors. Operations run to completion here; the
  interleaving of \<open>publish\<close> and \<open>read_at\<close> is theory \<open>Shm_Ring_Conc\<close>.
  The abstraction of a ring is the history of all descriptors published. Shown: a read at a
  cursor returns the history's element, an exact lag, or nothing; over every run of publishers
  and subscribers each subscriber's deliveries account for the whole history; the reliable
  table tracks the reliable cursors.
\<close>

section \<open>The ring region\<close>

datatype ring_error =
    RCore shm_error
  | BadCapacity u32
  | RegionTooSmall (rts_need: nat) (rts_have: nat)
  | RMisaligned
  | BadMagic
  | ReliableTableFull nat

definition RING_MAGIC :: u64 where "RING_MAGIC = from_le_bytes (ascii ''SHMRING1'')"
definition MAX_RELIABLE :: nat where "MAX_RELIABLE = 8"
definition RELIABLE_UNUSED :: u64 where "RELIABLE_UNUSED = - 1"

record ring_header =
  rh_magic :: u64
  rh_capacity :: u32
  rh_mask :: u32
  rhead :: u64
  waiters :: u32
  doorbell_seq :: u32
  reliable :: "u64 list"

record ring_slot =
  seq :: u64
  sdesc :: chunk_desc

text \<open>The handle's cached geometry beside the mapped header and slots.\<close>

record ring =
  rheader :: ring_header
  rslots :: "ring_slot list"
  rcapacity :: nat
  rmask :: u64

definition slots_offset :: nat where "slots_offset = align_up 96 64"

definition required_bytes :: "u32 \<Rightarrow> nat" where
  "required_bytes cap = slots_offset + unat cap * 32"

text \<open>\<^verbatim>\<open>u32::is_power_of_two\<close>: exactly one bit set.\<close>

definition is_power_of_two :: "u32 \<Rightarrow> bool" where
  "is_power_of_two v \<longleftrightarrow> v \<noteq> 0 \<and> v AND (v - 1) = 0"

definition ring_init :: "nat \<Rightarrow> nat \<Rightarrow> u32 \<Rightarrow> ring_error + ring" where
  "ring_init base region_len cap =
     (if cap = 0 \<or> \<not> is_power_of_two cap then Inl (BadCapacity cap)
      else if base mod 8 \<noteq> 0 then Inl RMisaligned
      else let need = required_bytes cap in
      if region_len < need then Inl (RegionTooSmall need region_len)
      else Inr
        \<lparr>rheader = \<lparr>rh_magic = RING_MAGIC, rh_capacity = cap, rh_mask = cap - 1, rhead = 0, waiters = 0,
                    doorbell_seq = 0, reliable = replicate MAX_RELIABLE RELIABLE_UNUSED\<rparr>,
         rslots = replicate (unat cap) \<lparr>seq = RELIABLE_UNUSED, sdesc = ZERO_desc\<rparr>,
         rcapacity = unat cap, rmask = ucast (cap - 1)\<rparr>)"

definition ring_attach :: "nat \<Rightarrow> nat \<Rightarrow> ring_header \<Rightarrow> ring_slot list \<Rightarrow> ring_error + ring" where
  "ring_attach base region_len h sl =
     (if base mod 8 \<noteq> 0 then Inl RMisaligned
      else if region_len < 96 then Inl (RegionTooSmall 96 region_len)
      else if rh_magic h \<noteq> RING_MAGIC then Inl BadMagic
      else let need = required_bytes (rh_capacity h) in
      if region_len < need then Inl (RegionTooSmall need region_len)
      else Inr \<lparr>rheader = h, rslots = sl, rcapacity = unat (rh_capacity h), rmask = ucast (rh_mask h)\<rparr>)"

abbreviation ring_head :: "ring \<Rightarrow> u64" where "ring_head r \<equiv> rhead (rheader r)"

definition slot_index :: "ring \<Rightarrow> u64 \<Rightarrow> nat" where
  "slot_index r s = unat (s AND rmask r)"

definition ring_publish :: "ring \<Rightarrow> chunk_desc \<Rightarrow> bool \<times> ring" where
  "ring_publish r d =
     (let s = ring_head r;
          i = slot_index r s;
          r1 = r\<lparr>rslots := (rslots r)[i := (rslots r ! i)\<lparr>sdesc := d\<rparr>]\<rparr>;
          r2 = r1\<lparr>rslots := (rslots r1)[i := (rslots r1 ! i)\<lparr>seq := s\<rparr>]\<rparr>;
          r3 = r2\<lparr>rheader := (rheader r2)\<lparr>rhead := s + 1\<rparr>\<rparr>
      in (waiters (rheader r3) > 0, r3))"

datatype read_outcome = RSample chunk_desc | RLagged (skipped: u64) (new_cursor: u64) | REmpty

text \<open>\<^verbatim>\<open>u64::saturating_sub\<close>.\<close>

definition saturating_sub :: "u64 \<Rightarrow> u64 \<Rightarrow> u64" where
  "saturating_sub a b = (if b \<le> a then a - b else 0)"

definition read_at :: "ring \<Rightarrow> u64 \<Rightarrow> read_outcome" where
  "read_at r cursor =
     (let h = ring_head r; cap = of_nat (rcapacity r) in
      if cursor \<ge> h then REmpty
      else if h - cursor > cap then
        (let nc = h - cap in RLagged (nc - cursor) nc)
      else let sl = rslots r ! slot_index r cursor in
        if seq sl \<noteq> cursor then
          (let nc = ring_head r - cap in RLagged (saturating_sub nc cursor) nc)
        else RSample (sdesc sl))"

definition add_waiter :: "ring \<Rightarrow> ring" where
  "add_waiter r = r\<lparr>rheader := (rheader r)\<lparr>waiters := waiters (rheader r) + 1\<rparr>\<rparr>"

definition remove_waiter :: "ring \<Rightarrow> ring" where
  "remove_waiter r = r\<lparr>rheader := (rheader r)\<lparr>waiters := waiters (rheader r) - 1\<rparr>\<rparr>"

section \<open>The reliable table\<close>

definition set_reliable :: "nat \<Rightarrow> u64 \<Rightarrow> ring \<Rightarrow> ring" where
  "set_reliable i v r = r\<lparr>rheader := (rheader r)\<lparr>reliable := (reliable (rheader r))[i := v]\<rparr>\<rparr>"

fun register_scan :: "ring \<Rightarrow> u64 \<Rightarrow> nat list \<Rightarrow> (ring_error + nat) \<times> ring" where
  "register_scan r cursor [] = (Inl (ReliableTableFull MAX_RELIABLE), r)"
| "register_scan r cursor (i # is) =
     (case compare_exchange (reliable (rheader r) ! i) RELIABLE_UNUSED cursor of
        (True, v) \<Rightarrow> (Inr i, set_reliable i v r)
      | (False, _) \<Rightarrow> register_scan r cursor is)"

definition register_reliable :: "ring \<Rightarrow> u64 \<Rightarrow> (ring_error + nat) \<times> ring" where
  "register_reliable r cursor = register_scan r cursor [0..<MAX_RELIABLE]"

definition update_reliable :: "ring \<Rightarrow> nat \<Rightarrow> u64 \<Rightarrow> ring" where
  "update_reliable r i cursor = set_reliable i cursor r"

definition release_reliable :: "ring \<Rightarrow> nat \<Rightarrow> ring" where
  "release_reliable r i = set_reliable i RELIABLE_UNUSED r"

definition min_reliable_cursor :: "ring \<Rightarrow> u64 option" where
  "min_reliable_cursor r =
     fold (\<lambda>i mn. let v = reliable (rheader r) ! i in
             if v \<noteq> RELIABLE_UNUSED then Some (case mn of None \<Rightarrow> v | Some m \<Rightarrow> min m v) else mn)
       [0..<MAX_RELIABLE] None"

definition would_backpressure :: "ring \<Rightarrow> bool" where
  "would_backpressure r =
     (case min_reliable_cursor r of
        Some mn \<Rightarrow> saturating_sub (ring_head r) mn > of_nat (rcapacity r)
      | None \<Rightarrow> False)"

section \<open>Subscribers\<close>

datatype msg = Sample chunk_desc | Lagged u64

record subscriber =
  cursor :: u64
  sub_reliable :: "nat option"

text \<open>\<^verbatim>\<open>new\<close> / \<^verbatim>\<open>with_parker\<close>, and \<^verbatim>\<open>from_seq\<close> / \<^verbatim>\<open>from_seq_with_parker\<close>; the parker is policy.\<close>

definition sub_new :: "ring \<Rightarrow> subscriber" where
  "sub_new r = \<lparr>cursor = ring_head r, sub_reliable = None\<rparr>"

definition sub_from_seq :: "ring \<Rightarrow> u64 \<Rightarrow> subscriber" where
  "sub_from_seq r s = (sub_new r)\<lparr>cursor := s\<rparr>"

definition sub_from_start :: "ring \<Rightarrow> subscriber" where
  "sub_from_start r = sub_from_seq r 0"

definition make_reliable :: "ring \<Rightarrow> subscriber \<Rightarrow> (ring_error + unit) \<times> ring \<times> subscriber" where
  "make_reliable r s =
     (if sub_reliable s = None then
        (case register_reliable r (cursor s) of
           (Inl e, r') \<Rightarrow> (Inl e, r', s)
         | (Inr i, r') \<Rightarrow> (Inr (), r', s\<lparr>sub_reliable := Some i\<rparr>))
      else (Inr (), r, s))"

definition is_reliable :: "subscriber \<Rightarrow> bool" where
  "is_reliable s \<longleftrightarrow> sub_reliable s \<noteq> None"

definition sync_reliable :: "ring \<Rightarrow> subscriber \<Rightarrow> ring" where
  "sync_reliable r s = (case sub_reliable s of Some i \<Rightarrow> update_reliable r i (cursor s) | None \<Rightarrow> r)"

definition try_recv :: "ring \<Rightarrow> subscriber \<Rightarrow> msg option \<times> ring \<times> subscriber" where
  "try_recv r s =
     (case read_at r (cursor s) of
        RSample d \<Rightarrow> (let s' = s\<lparr>cursor := cursor s + 1\<rparr> in (Some (Sample d), sync_reliable r s', s'))
      | RLagged n nc \<Rightarrow> (let s' = s\<lparr>cursor := nc\<rparr> in (Some (Lagged n), sync_reliable r s', s'))
      | REmpty \<Rightarrow> (None, r, s))"

definition sub_drop :: "ring \<Rightarrow> subscriber \<Rightarrow> ring" where
  "sub_drop r s = (case sub_reliable s of Some i \<Rightarrow> release_reliable r i | None \<Rightarrow> r)"

section \<open>Reads return the history\<close>

text \<open>
  A ring of \<open>2 ^ k\<close> slots whose live window is the end of the history. Sequence numbers stay
  below the reserved value \<open>RELIABLE_UNUSED\<close>: the 64-bit counter does not wrap.
\<close>

definition ring_inv :: "ring \<Rightarrow> chunk_desc list \<Rightarrow> bool" where
  "ring_inv r hist \<longleftrightarrow>
     (\<exists>k<32. rcapacity r = 2 ^ k \<and> rmask r = mask k) \<and> length (rslots r) = rcapacity r
   \<and> unat (ring_head r) = length hist \<and> length hist < 2 ^ 64 - 1
   \<and> (\<forall>n<length hist. length hist \<le> n + rcapacity r \<longrightarrow>
        seq (rslots r ! (n mod rcapacity r)) = of_nat n \<and> sdesc (rslots r ! (n mod rcapacity r)) = hist ! n)"

lemma ring_inv_cap:
  assumes "ring_inv r hist"
  shows "0 < rcapacity r" and "rcapacity r < 2 ^ 32" and "slot_index r s = unat s mod rcapacity r"
proof -
  obtain k where k: "k < 32" "rcapacity r = 2 ^ k" "rmask r = mask k"
    using assms unfolding ring_inv_def by blast
  show "0 < rcapacity r" using k by simp
  show "rcapacity r < 2 ^ 32" unfolding k(2) using k(1) by (rule power_strict_increasing) simp
  have "unat (s AND mask k) = unat (take_bit k s)" by (simp only: take_bit_eq_mask)
  also have "\<dots> = take_bit k (unat s)" by (rule unsigned_take_bit_eq)
  also have "\<dots> = unat s mod 2 ^ k" by (rule take_bit_eq_mod)
  finally show "slot_index r s = unat s mod rcapacity r" using k by (simp add: slot_index_def)
qed

text \<open>Two sequence numbers less than a capacity apart are in different slots.\<close>

lemma window_mod:
  assumes "(m :: nat) < n" and "n < m + c"
  shows "m mod c \<noteq> n mod c"
proof
  assume "m mod c = n mod c"
  then have "c dvd n - m" using assms(1) mod_eq_dvd_iff_nat [of m n c] by simp
  then show False using assms nat_dvd_not_less [of "n - m" c] by simp
qed

lemma publish_inv:
  assumes inv: "ring_inv r hist" and "length hist + 1 < 2 ^ 64 - 1"
  shows "ring_inv (snd (ring_publish r d)) (hist @ [d])"
proof -
  let ?c = "rcapacity r" and ?n = "length hist" and ?r = "snd (ring_publish r d)"
  have cap: "0 < ?c" by (rule ring_inv_cap(1) [OF inv])
  have h: "ring_head r = of_nat ?n" "unat (ring_head r) = ?n" "length (rslots r) = ?c"
    using inv by (simp_all add: ring_inv_def) (metis of_nat_unat ucast_id)
  have i: "slot_index r (ring_head r) = ?n mod ?c" "?n mod ?c < ?c"
    using ring_inv_cap(3) [OF inv] h cap by simp_all
  have slot_upd: "x\<lparr>sdesc := d, seq := v\<rparr> = \<lparr>seq = v, sdesc = d\<rparr>" for x :: ring_slot and v
    by (cases x) simp
  have sl: "rslots ?r = (rslots r)[?n mod ?c := \<lparr>seq = of_nat ?n, sdesc = d\<rparr>]"
    using i h by (simp add: ring_publish_def Let_def slot_upd)
  have hd: "ring_head ?r = of_nat ?n + 1" "rcapacity ?r = ?c" "rmask ?r = rmask r"
    using h by (simp_all add: ring_publish_def Let_def)
  have un: "unat (ring_head ?r) = ?n + 1"
    using hd(1) assms(2) unat_of_nat_u64 [of "?n + 1"] by (simp add: add.commute)
  have "seq (rslots ?r ! (m mod ?c)) = of_nat m \<and> sdesc (rslots ?r ! (m mod ?c)) = (hist @ [d]) ! m"
    if m: "m < ?n + 1" "?n + 1 \<le> m + ?c" for m
  proof (cases "m = ?n")
    case True
    then show ?thesis using sl i h(3) by simp
  next
    case False
    then have "m mod ?c \<noteq> ?n mod ?c" using m by (intro window_mod) simp_all
    moreover have "seq (rslots r ! (m mod ?c)) = of_nat m \<and> sdesc (rslots r ! (m mod ?c)) = hist ! m"
      using inv m False unfolding ring_inv_def by auto
    ultimately show ?thesis using sl m False by (simp add: nth_append)
  qed
  then show ?thesis
    using inv un hd assms(2) sl unfolding ring_inv_def by simp
qed

lemma read_at_spec:
  assumes inv: "ring_inv r hist"
  shows "read_at r c =
     (if length hist \<le> unat c then REmpty
      else if unat c + rcapacity r < length hist
           then RLagged (of_nat (length hist - rcapacity r - unat c)) (of_nat (length hist - rcapacity r))
           else RSample (hist ! unat c))"
proof -
  let ?n = "length hist" and ?cap = "rcapacity r"
  note cap = ring_inv_cap [OF inv]
  have h: "unat (ring_head r) = ?n" "?n < 2 ^ 64 - 1" using inv by (simp_all add: ring_inv_def)
  have hw: "ring_head r = of_nat ?n" using h(1) by (metis of_nat_unat ucast_id)
  have ucap: "unat (of_nat ?cap :: u64) = ?cap" using cap(2) by (intro unat_of_nat_u64) simp
  show ?thesis
  proof (cases "?n \<le> unat c")
    case True
    then have "c \<ge> ring_head r" using h by (simp add: word_le_nat_alt)
    then show ?thesis using True by (simp add: read_at_def Let_def)
  next
    case False
    then have lt: "\<not> c \<ge> ring_head r" using h by (simp add: word_le_nat_alt)
    have sub: "unat (ring_head r - c) = ?n - unat c"
      using False h by (subst unat_sub) (simp_all add: word_le_nat_alt)
    have gt: "ring_head r - c > of_nat ?cap \<longleftrightarrow> unat c + ?cap < ?n"
      using sub ucap False by (auto simp: word_less_nat_alt)
    show ?thesis
    proof (cases "unat c + ?cap < ?n")
      case True
      have nc: "ring_head r - of_nat ?cap = of_nat (?n - ?cap)"
        using True hw by (simp add: of_nat_diff)
      have "(of_nat (?n - ?cap) :: u64) - c = of_nat (?n - ?cap) - of_nat (unat c)" by simp
      also have "\<dots> = of_nat (?n - ?cap - unat c)" using True by (subst of_nat_diff) simp_all
      finally show ?thesis
        using True False lt gt nc by (simp add: read_at_def Let_def)
    next
      case nl: False
      have "seq (rslots r ! slot_index r c) = of_nat (unat c)" "sdesc (rslots r ! slot_index r c) = hist ! unat c"
        using inv nl False cap(3) [of c] unfolding ring_inv_def by auto
      then show ?thesis using nl False lt gt by (simp add: read_at_def Let_def)
    qed
  qed
qed

lemma power_of_two_word:
  assumes "is_power_of_two v"
  obtains k where "k < 32" and "v = 2 ^ k" and "v - 1 = mask k"
proof -
  have nz: "v \<noteq> 0" and z: "v AND (v - 1) = 0" using assms by (simp_all add: is_power_of_two_def)
  define k where "k = (LEAST k. bit v k)"
  obtain j where "bit v j" using nz by (metis bit_0_eq bit_eqI bot_apply bot_bool_def)
  then have k: "bit v k" "\<And>i. i < k \<Longrightarrow> \<not> bit v i"
    using LeastI [of "bit v"] not_less_Least by (auto simp: k_def)
  then have k32: "k < 32" using bit_imp_le_length [of v k] by simp
  have "unset_bit k v AND mask k = 0" using k(2) by (auto simp: bit_eq_iff bit_simps)
  then have "unset_bit k v + mask k = unset_bit k v OR mask k" by (rule disjunctive_add_eq_or)
  then have vm: "v - 1 = unset_bit k v OR mask k"
    using k(1) by (simp add: unset_bit_eq mask_eq_exp_minus_1)
  have "\<not> bit v i" if "i \<noteq> k" for i
  proof
    assume "bit v i"
    then have "bit (v AND (v - 1)) i" using vm that bit_imp_le_length [of v i] by (simp add: bit_simps)
    then show False using z by simp
  qed
  then have v: "v = 2 ^ k" using k(1) k32 by (intro bit_word_eqI) (auto simp: bit_simps)
  then show thesis using that [OF k32 v] by (simp add: mask_eq_exp_minus_1)
qed

lemma ring_init_inv:
  assumes "ring_init base rl cap = Inr r"
  shows "ring_inv r []" and "reliable (rheader r) = replicate MAX_RELIABLE RELIABLE_UNUSED"
proof -
  have p: "is_power_of_two cap" and r: "rcapacity r = unat cap" "rmask r = ucast (cap - 1)"
    "rslots r = replicate (unat cap) \<lparr>seq = RELIABLE_UNUSED, sdesc = ZERO_desc\<rparr>" "ring_head r = 0"
    "reliable (rheader r) = replicate MAX_RELIABLE RELIABLE_UNUSED"
    using assms by (auto simp: ring_init_def Let_def split: if_splits)
  obtain k where k: "k < 32" "cap = 2 ^ k" "cap - 1 = mask k" using power_of_two_word [OF p] by blast
  have "(2 :: nat) ^ k < 2 ^ 32" using k(1) by (rule power_strict_increasing) simp
  then have "unat cap = 2 ^ k" using k(2) unat_of_nat_u32 [of "2 ^ k"] by simp
  moreover have "(ucast (mask k :: u32) :: u64) = mask k"
    using k(1) by (auto simp: bit_eq_iff bit_simps)
  ultimately show "ring_inv r []"
    using r k by (auto simp: ring_inv_def)
  show "reliable (rheader r) = replicate MAX_RELIABLE RELIABLE_UNUSED" by (rule r)
qed

section \<open>Runs of a ring\<close>

text \<open>
  The world of one ring: the shared ring, the history, and the subscribers that were ever
  created with where each started and what it has been delivered (a dropped one is \<open>None\<close>).
\<close>

record sub_log =
  sub :: "subscriber option"
  started :: nat
  delivered :: "msg list"

record world =
  wring :: ring
  whist :: "chunk_desc list"
  wsubs :: "sub_log list"

datatype ring_op =
    Publish chunk_desc
  | SubscribeNew
  | SubscribeFrom u64
  | TryRecv nat
  | MakeReliable nat
  | DropSub nat

definition set_sub :: "nat \<Rightarrow> sub_log \<Rightarrow> world \<Rightarrow> world" where
  "set_sub i l s = s\<lparr>wsubs := (wsubs s)[i := l]\<rparr>"

definition live_sub :: "world \<Rightarrow> nat \<Rightarrow> subscriber option" where
  "live_sub s i = (if i < length (wsubs s) then sub (wsubs s ! i) else None)"

fun world_step :: "world \<Rightarrow> ring_op \<Rightarrow> world" where
  "world_step s (Publish d) = s\<lparr>wring := snd (ring_publish (wring s) d), whist := whist s @ [d]\<rparr>"
| "world_step s SubscribeNew = s\<lparr>wsubs := wsubs s @
     [\<lparr>sub = Some (sub_new (wring s)), started = length (whist s), delivered = []\<rparr>]\<rparr>"
| "world_step s (SubscribeFrom n) = s\<lparr>wsubs := wsubs s @
     [\<lparr>sub = Some (sub_from_seq (wring s) n), started = unat n, delivered = []\<rparr>]\<rparr>"
| "world_step s (TryRecv i) =
     (case live_sub s i of None \<Rightarrow> s
      | Some u \<Rightarrow> (case try_recv (wring s) u of
          (None, r, u') \<Rightarrow> s
        | (Some m, r, u') \<Rightarrow> set_sub i ((wsubs s ! i)\<lparr>sub := Some u', delivered := delivered (wsubs s ! i) @ [m]\<rparr>)
            (s\<lparr>wring := r\<rparr>)))"
| "world_step s (MakeReliable i) =
     (case live_sub s i of None \<Rightarrow> s
      | Some u \<Rightarrow> (case make_reliable (wring s) u of
          (_, r, u') \<Rightarrow> set_sub i ((wsubs s ! i)\<lparr>sub := Some u'\<rparr>) (s\<lparr>wring := r\<rparr>)))"
| "world_step s (DropSub i) =
     (case live_sub s i of None \<Rightarrow> s
      | Some u \<Rightarrow> set_sub i ((wsubs s ! i)\<lparr>sub := None\<rparr>) (s\<lparr>wring := sub_drop (wring s) u\<rparr>))"

definition world_run :: "ring \<Rightarrow> ring_op list \<Rightarrow> world" where
  "world_run r ops = fold (\<lambda>op s. world_step s op) ops \<lparr>wring = r, whist = [], wsubs = []\<rparr>"

text \<open>
  What a list of deliveries says of the history: a sample is the next element, a lag of \<open>n\<close>
  steps over exactly \<open>n\<close> elements; the result is where the subscriber then is.
\<close>

primrec account :: "chunk_desc list \<Rightarrow> nat \<Rightarrow> msg list \<Rightarrow> nat option" where
  "account hist c [] = Some c"
| "account hist c (m # ms) =
     (case m of
        Sample d \<Rightarrow> if c < length hist \<and> d = hist ! c then account hist (c + 1) ms else None
      | Lagged n \<Rightarrow> if 0 < n \<and> c + unat n \<le> length hist then account hist (c + unat n) ms else None)"

lemma account_append: "account hist c (ms @ ks) = Option.bind (account hist c ms) (\<lambda>c'. account hist c' ks)"
  by (induction ms arbitrary: c) (auto split: msg.splits)

lemma account_mono: "account hist c ms = Some c' \<Longrightarrow> account (hist @ xs) c ms = Some c'"
  by (induction ms arbitrary: c) (auto simp: nth_append split: msg.splits if_splits)

definition log_ok :: "chunk_desc list \<Rightarrow> sub_log \<Rightarrow> bool" where
  "log_ok hist l \<longleftrightarrow> (\<exists>c. account hist (started l) (delivered l) = Some c
     \<and> (\<forall>u. sub l = Some u \<longrightarrow> c = unat (cursor u)))"

lemma log_ok_mono: "log_ok hist l \<Longrightarrow> log_ok (hist @ xs) l"
  by (auto simp: log_ok_def dest: account_mono)

lemma set_reliable_simps [simp]:
  "rslots (set_reliable i v r) = rslots r" "rcapacity (set_reliable i v r) = rcapacity r"
  "rmask (set_reliable i v r) = rmask r" "ring_head (set_reliable i v r) = ring_head r"
  "reliable (rheader (set_reliable i v r)) = (reliable (rheader r))[i := v]"
  by (simp_all add: set_reliable_def)

lemma ring_inv_reliable [simp]: "ring_inv (set_reliable i v r) hist = ring_inv r hist"
  by (simp add: ring_inv_def)

lemma register_scan_inv: "ring_inv (snd (register_scan r c is)) hist = ring_inv r hist"
  by (induction "is") (auto split: prod.splits bool.splits)

lemma sync_inv [simp]:
  "ring_inv (sync_reliable r u) hist = ring_inv r hist" "ring_inv (sub_drop r u) hist = ring_inv r hist"
  by (simp_all add: sync_reliable_def sub_drop_def update_reliable_def release_reliable_def split: option.splits)

lemma make_reliable_inv:
  "make_reliable r u = (e, r', u') \<Longrightarrow> ring_inv r' hist = ring_inv r hist \<and> cursor u' = cursor u"
  using register_scan_inv [of r "cursor u" "[0..<MAX_RELIABLE]" hist]
  by (auto simp: make_reliable_def register_reliable_def split: if_splits prod.splits sum.splits)

lemma try_recv_spec:
  assumes inv: "ring_inv r hist" and tr: "try_recv r u = (Some m, r', u')"
  shows "ring_inv r' hist" and "account hist (unat (cursor u)) [m] = Some (unat (cursor u'))"
    and "sub_reliable u' = sub_reliable u" and "r' = sync_reliable r u'"
proof -
  let ?n = "length hist"
  have n: "?n < 2 ^ 64 - 1" using inv by (simp add: ring_inv_def)
  note rd = read_at_spec [OF inv, of "cursor u"]
  consider (lag) "unat (cursor u) + rcapacity r < ?n"
      "m = Lagged (of_nat (?n - rcapacity r - unat (cursor u)))" "u' = u\<lparr>cursor := of_nat (?n - rcapacity r)\<rparr>"
    | (sample) "unat (cursor u) < ?n" "m = Sample (hist ! unat (cursor u))" "u' = u\<lparr>cursor := cursor u + 1\<rparr>"
    using tr unfolding try_recv_def rd by (auto simp: Let_def split: if_splits)
  then show "account hist (unat (cursor u)) [m] = Some (unat (cursor u'))"
  proof cases
    case lag
    define k where "k = ?n - rcapacity r - unat (cursor u)"
    have "unat (of_nat k :: u64) = k" "unat (of_nat (?n - rcapacity r) :: u64) = ?n - rcapacity r" "0 < k"
      using n lag(1) unat_of_nat_u64 [of k] unat_of_nat_u64 [of "?n - rcapacity r"] by (simp_all add: k_def)
    moreover have "0 < (of_nat k :: u64)" using calculation by (simp add: word_less_nat_alt)
    ultimately show ?thesis using lag by (simp add: k_def [symmetric]) (simp add: k_def)
  next
    case sample
    have "cursor u \<noteq> - 1" using sample(1) n by (auto simp: unsigned_minus_1_eq_mask mask_eq_exp_minus_1)
    then show ?thesis using sample by (simp add: unat_Suc_word)
  qed
  show "r' = sync_reliable r u'" "sub_reliable u' = sub_reliable u"
    using tr by (auto simp: try_recv_def Let_def split: read_outcome.splits)
  then show "ring_inv r' hist" using inv by simp
qed

lemma live_sub_set [simp]:
  "i < length (wsubs s) \<Longrightarrow> live_sub (set_sub i l s) j = (if j = i then sub l else live_sub s j)"
  by (auto simp: live_sub_def set_sub_def)

lemma live_sub_ring [simp]:
  "live_sub (s\<lparr>wring := r\<rparr>) i = live_sub s i" "live_sub (s\<lparr>whist := h\<rparr>) i = live_sub s i"
  by (simp_all add: live_sub_def)

lemma live_sub_bound: "live_sub s i = Some u \<Longrightarrow> i < length (wsubs s) \<and> sub (wsubs s ! i) = Some u"
  by (auto simp: live_sub_def split: if_splits)

definition owns :: "world \<Rightarrow> nat \<Rightarrow> nat \<Rightarrow> bool" where
  "owns s i x \<longleftrightarrow> (\<exists>u. live_sub s i = Some u \<and> sub_reliable u = Some x)"

text \<open>The history side of the invariant.\<close>

definition log_inv :: "world \<Rightarrow> bool" where
  "log_inv s \<longleftrightarrow> ring_inv (wring s) (whist s) \<and> (\<forall>l\<in>set (wsubs s). log_ok (whist s) l)"

lemma log_inv_set:
  assumes "log_inv s" and "ring_inv r (whist s)" and "log_ok (whist s) l"
  shows "log_inv (set_sub i l (s\<lparr>wring := r\<rparr>))"
  using assms set_update_subset_insert [of "wsubs s" i l] by (auto simp: log_inv_def set_sub_def)

lemma log_ok_live:
  assumes "log_inv s" and "live_sub s i = Some u"
  shows "account (whist s) (started (wsubs s ! i)) (delivered (wsubs s ! i)) = Some (unat (cursor u))"
proof -
  have "i < length (wsubs s)" "sub (wsubs s ! i) = Some u" using live_sub_bound [OF assms(2)] by simp_all
  then have "log_ok (whist s) (wsubs s ! i)" using assms(1) by (simp add: log_inv_def)
  then show ?thesis using \<open>sub (wsubs s ! i) = Some u\<close> by (auto simp: log_ok_def)
qed

lemma log_inv_recv:
  assumes inv: "log_inv s" and u: "live_sub s i = Some u" and tr: "try_recv (wring s) u = (Some m, r, u')"
  shows "log_inv (world_step s (TryRecv i))"
proof -
  have ri: "ring_inv (wring s) (whist s)" using inv by (simp add: log_inv_def)
  note sp = try_recv_spec [OF ri tr]
  have "log_ok (whist s) ((wsubs s ! i)\<lparr>sub := Some u', delivered := delivered (wsubs s ! i) @ [m]\<rparr>)"
    using log_ok_live [OF inv u] sp(2) by (simp add: log_ok_def account_append)
  then show ?thesis using log_inv_set [OF inv sp(1)] u tr by simp
qed

lemma log_inv_step:
  assumes inv: "log_inv s" and len: "length (whist s) + 1 < 2 ^ 64 - 1"
  shows "log_inv (world_step s op)"
proof (cases op)
  case (Publish d)
  then show ?thesis
    using inv publish_inv [of "wring s" "whist s" d] len log_ok_mono by (simp add: log_inv_def)
next
  case SubscribeNew
  then show ?thesis using inv by (simp add: log_inv_def log_ok_def sub_new_def ring_inv_def)
next
  case (SubscribeFrom n)
  then show ?thesis using inv by (simp add: log_inv_def log_ok_def sub_new_def sub_from_seq_def)
next
  case (TryRecv i)
  obtain m r u' where tr: "live_sub s i = Some u \<Longrightarrow> try_recv (wring s) u = (m, r, u')" for u
    by (cases "live_sub s i") (auto, metis prod_cases3)
  then show ?thesis
    using TryRecv inv log_inv_recv [OF inv] by (cases "live_sub s i"; cases m) auto
next
  case (MakeReliable i)
  show ?thesis
  proof (cases "live_sub s i")
    case (Some u)
    obtain e r u' where mk: "make_reliable (wring s) u = (e, r, u')" by (metis prod_cases3)
    have "log_ok (whist s) ((wsubs s ! i)\<lparr>sub := Some u'\<rparr>)" "ring_inv r (whist s)"
      using log_ok_live [OF inv Some] make_reliable_inv [OF mk, of "whist s"] inv
      by (simp_all add: log_ok_def log_inv_def)
    then show ?thesis using MakeReliable Some mk log_inv_set [OF inv] by simp
  qed (use MakeReliable inv in simp)
next
  case (DropSub i)
  show ?thesis
  proof (cases "live_sub s i")
    case (Some u)
    have "log_ok (whist s) ((wsubs s ! i)\<lparr>sub := None\<rparr>)" "ring_inv (sub_drop (wring s) u) (whist s)"
      using log_ok_live [OF inv Some] inv by (simp_all add: log_ok_def log_inv_def)
    then show ?thesis using DropSub Some log_inv_set [OF inv] by simp
  qed (use DropSub inv in simp)
qed

lemma hist_step: "length (whist (world_step s op)) \<le> length (whist s) + 1"
  by (cases op) (auto simp: set_sub_def split: option.splits prod.splits)

lemma log_inv_run:
  assumes "log_inv s" and "length (whist s) + length ops < 2 ^ 64 - 1"
  shows "log_inv (fold (\<lambda>op s. world_step s op) ops s)"
  using assms
proof (induction ops arbitrary: s)
  case (Cons op ops)
  have "log_inv (world_step s op)" using Cons.prems by (intro log_inv_step) simp_all
  moreover have "length (whist (world_step s op)) + length ops < 2 ^ 64 - 1"
    using hist_step [of s op] Cons.prems by simp
  ultimately show ?case using Cons.IH by simp
qed simp

text \<open>
  C11: a broadcast delivers. Over every run of one publisher and any subscribers of a fresh ring
  (below the 64-bit horizon), the deliveries of each subscriber account for the history from
  where it started: every sample is the next published descriptor, every lag names exactly the
  number of messages skipped, nothing is repeated or reordered, and they end at its cursor.
\<close>

theorem broadcast_accounts:
  assumes "ring_init base rl cap = Inr r" and "length ops < 2 ^ 64 - 1"
    and "i < length (wsubs (world_run r ops))"
  shows "case wsubs (world_run r ops) ! i of l \<Rightarrow>
      \<exists>c. account (whist (world_run r ops)) (started l) (delivered l) = Some c
        \<and> (\<forall>u. sub l = Some u \<longrightarrow> c = unat (cursor u))"
proof -
  have "log_inv (world_run r ops)"
    unfolding world_run_def using ring_init_inv(1) [OF assms(1)] assms(2)
    by (intro log_inv_run) (simp_all add: log_inv_def)
  then show ?thesis using assms(3) by (auto simp: log_inv_def log_ok_def)
qed

text \<open>
  what the next read of a subscriber is, in any such run: nothing exactly when it has
  caught up; the exact lag, resynchronised to the oldest message still in the ring, exactly when
  more than a capacity of messages were published past it; otherwise the next message.
\<close>

theorem recv_classifies:
  assumes "ring_init base rl cap = Inr r" and "length ops < 2 ^ 64 - 1"
    and "live_sub (world_run r ops) i = Some u"
  defines "s \<equiv> world_run r ops"
  shows "fst (try_recv (wring s) u) =
     (if length (whist s) \<le> unat (cursor u) then None
      else if unat (cursor u) + rcapacity (wring s) < length (whist s)
           then Some (Lagged (of_nat (length (whist s) - rcapacity (wring s) - unat (cursor u))))
           else Some (Sample (whist s ! unat (cursor u))))"
proof -
  have "log_inv s"
    unfolding s_def world_run_def using ring_init_inv(1) [OF assms(1)] assms(2)
    by (intro log_inv_run) (simp_all add: log_inv_def)
  then have "ring_inv (wring s) (whist s)" by (simp add: log_inv_def)
  then show ?thesis by (simp add: try_recv_def read_at_spec Let_def)
qed

section \<open>Reliable cursors\<close>

definition table :: "world \<Rightarrow> u64 list" where
  "table s = reliable (rheader (wring s))"

text \<open>Each used entry of the table is the cursor of exactly one live reliable subscriber.\<close>

definition table_inv :: "world \<Rightarrow> bool" where
  "table_inv s \<longleftrightarrow> length (table s) = MAX_RELIABLE
     \<and> (\<forall>i u. live_sub s i = Some u \<longrightarrow> cursor u \<noteq> RELIABLE_UNUSED
          \<and> (\<forall>x. sub_reliable u = Some x \<longrightarrow> x < MAX_RELIABLE \<and> table s ! x = cursor u))
     \<and> (\<forall>i j x. owns s i x \<longrightarrow> owns s j x \<longrightarrow> i = j)
     \<and> (\<forall>x<MAX_RELIABLE. table s ! x \<noteq> RELIABLE_UNUSED \<longrightarrow> (\<exists>i. owns s i x))"

lemma register_scan_cases:
  "(\<exists>i\<in>set is. register_scan r c is = (Inr i, set_reliable i c r) \<and> reliable (rheader r) ! i = RELIABLE_UNUSED)
   \<or> (register_scan r c is = (Inl (ReliableTableFull MAX_RELIABLE), r)
       \<and> (\<forall>i\<in>set is. reliable (rheader r) ! i \<noteq> RELIABLE_UNUSED))"
  by (induction "is") (auto simp: compare_exchange_def)

lemma table_inv_advance:
  assumes inv: "table_inv s" and u: "live_sub s i = Some u"
    and u': "sub_reliable u' = sub_reliable u" "cursor u' \<noteq> RELIABLE_UNUSED" "sub l = Some u'"
  shows "table_inv (set_sub i l (s\<lparr>wring := sync_reliable (wring s) u'\<rparr>))"
proof -
  let ?s = "set_sub i l (s\<lparr>wring := sync_reliable (wring s) u'\<rparr>)"
  have il: "i < length (wsubs s)" using live_sub_bound [OF u] by simp
  have live: "live_sub ?s j = (if j = i then Some u' else live_sub s j)" for j
    using il u'(3) by simp
  have own: "owns ?s j x \<longleftrightarrow> owns s j x" for j x using u u'(1) by (auto simp: owns_def live)
  have tab: "table ?s = (case sub_reliable u of Some x \<Rightarrow> (table s)[x := cursor u'] | None \<Rightarrow> table s)"
    using u'(1) by (simp add: table_def set_sub_def sync_reliable_def update_reliable_def split: option.splits)
  have other: "table ?s ! x = table s ! x" if "owns s j x" "j \<noteq> i" for j x
  proof -
    have "\<not> owns s i x" using inv that unfolding table_inv_def by blast
    then have "sub_reliable u \<noteq> Some x" using u by (simp add: owns_def)
    then show ?thesis by (auto simp: tab split: option.splits)
  qed
  have mine: "x < MAX_RELIABLE \<and> table ?s ! x = cursor u'" if "sub_reliable u = Some x" for x
    using inv u that by (auto simp: tab table_inv_def)
  show ?thesis
    unfolding table_inv_def
  proof (intro conjI allI impI)
    show "length (table ?s) = MAX_RELIABLE" using inv by (auto simp: tab table_inv_def split: option.splits)
  next
    fix j v assume v: "live_sub ?s j = Some v"
    then show "cursor v \<noteq> RELIABLE_UNUSED" using inv u' by (auto simp: live table_inv_def split: if_splits)
    fix x assume x: "sub_reliable v = Some x"
    show "x < MAX_RELIABLE" "table ?s ! x = cursor v"
      using inv u'(1) v x mine other [of j x] by (auto simp: live table_inv_def owns_def split: if_splits)
  next
    fix j k x assume "owns ?s j x" "owns ?s k x"
    then show "j = k" using inv unfolding own table_inv_def by blast
  next
    fix x assume x: "x < MAX_RELIABLE" "table ?s ! x \<noteq> RELIABLE_UNUSED"
    show "\<exists>j. owns ?s j x"
    proof (cases "sub_reliable u = Some x")
      case True
      then show ?thesis unfolding own using u by (auto simp: owns_def)
    next
      case False
      then have "table ?s ! x = table s ! x" by (auto simp: tab split: option.splits)
      then show ?thesis using inv x unfolding own table_inv_def by metis
    qed
  qed
qed

lemma table_set_sub: "table (set_sub i l s) = table s"
  by (simp add: table_def set_sub_def)

lemma table_inv_register:
  assumes inv: "table_inv s" and u: "live_sub s i = Some u" and none: "sub_reliable u = None"
    and x: "x < MAX_RELIABLE" "table s ! x = RELIABLE_UNUSED" and l: "sub l = Some (u\<lparr>sub_reliable := Some x\<rparr>)"
  shows "table_inv (set_sub i l (s\<lparr>wring := set_reliable x (cursor u) (wring s)\<rparr>))"
proof -
  let ?s = "set_sub i l (s\<lparr>wring := set_reliable x (cursor u) (wring s)\<rparr>)"
  have il: "i < length (wsubs s)" using live_sub_bound [OF u] by simp
  have live: "live_sub ?s j = (if j = i then Some (u\<lparr>sub_reliable := Some x\<rparr>) else live_sub s j)" for j
    using il l by simp
  have len: "length (table s) = MAX_RELIABLE" and cu: "cursor u \<noteq> RELIABLE_UNUSED"
    using inv u by (auto simp: table_inv_def)
  have tab: "table ?s = (table s)[x := cursor u]" by (simp add: table_def set_sub_def)
  have free: "\<not> owns s j x" for j
    using inv x(2) unfolding table_inv_def owns_def by metis
  have own: "owns ?s j y \<longleftrightarrow> owns s j y \<or> j = i \<and> y = x" for j y
    using u none by (auto simp: owns_def live)
  show ?thesis
    unfolding table_inv_def
  proof (intro conjI allI impI)
    show "length (table ?s) = MAX_RELIABLE" using len tab by simp
  next
    fix j v assume v: "live_sub ?s j = Some v"
    then show "cursor v \<noteq> RELIABLE_UNUSED" using inv cu by (auto simp: live table_inv_def split: if_splits)
    fix y assume y: "sub_reliable v = Some y"
    have "y < MAX_RELIABLE \<and> table ?s ! y = cursor v"
    proof (cases "j = i")
      case True
      then have "v = u\<lparr>sub_reliable := Some x\<rparr>" using v unfolding live by simp
      then show ?thesis unfolding tab using y x(1) len by auto
    next
      case False
      then have lv: "live_sub s j = Some v" using v unfolding live by simp
      then have "y \<noteq> x" using free [of j] y by (auto simp: owns_def)
      then show ?thesis unfolding tab using inv lv y by (simp add: table_inv_def)
    qed
    then show "y < MAX_RELIABLE" "table ?s ! y = cursor v" by simp_all
  next
    fix j k y assume "owns ?s j y" "owns ?s k y"
    then show "j = k" using inv free unfolding own table_inv_def by metis
  next
    fix y assume "y < MAX_RELIABLE" "table ?s ! y \<noteq> RELIABLE_UNUSED"
    then show "\<exists>j. owns ?s j y" using inv unfolding own tab table_inv_def by (cases "y = x") auto
  qed
qed

lemma table_inv_drop:
  assumes inv: "table_inv s" and u: "live_sub s i = Some u" and l: "sub l = None"
  shows "table_inv (set_sub i l (s\<lparr>wring := sub_drop (wring s) u\<rparr>))"
proof -
  let ?s = "set_sub i l (s\<lparr>wring := sub_drop (wring s) u\<rparr>)"
  have il: "i < length (wsubs s)" using live_sub_bound [OF u] by simp
  have live: "live_sub ?s j = (if j = i then None else live_sub s j)" for j using il l by simp
  have own: "owns ?s j y \<longleftrightarrow> owns s j y \<and> j \<noteq> i" for j y by (auto simp: owns_def live)
  have tab: "table ?s = (case sub_reliable u of Some x \<Rightarrow> (table s)[x := RELIABLE_UNUSED] | None \<Rightarrow> table s)"
    by (simp add: table_def set_sub_def sub_drop_def release_reliable_def split: option.splits)
  have keep: "table ?s ! y = table s ! y" if "\<not> owns s i y" for y
    using that u by (auto simp: tab owns_def split: option.splits)
  have clear: "table ?s ! y = RELIABLE_UNUSED" if "owns s i y" for y
    using that u inv by (auto simp: tab owns_def table_inv_def)
  show ?thesis
    unfolding table_inv_def
  proof (intro conjI allI impI)
    show "length (table ?s) = MAX_RELIABLE" using inv by (auto simp: tab table_inv_def split: option.splits)
  next
    fix j v assume v: "live_sub ?s j = Some v"
    then show "cursor v \<noteq> RELIABLE_UNUSED" using inv by (auto simp: live table_inv_def split: if_splits)
    fix y assume y: "sub_reliable v = Some y"
    have lv: "j \<noteq> i" "live_sub s j = Some v" using v by (auto simp: live split: if_splits)
    then have "owns s j y" using y by (simp add: owns_def)
    then have "\<not> owns s i y" using inv lv(1) unfolding table_inv_def by blast
    then show "y < MAX_RELIABLE" "table ?s ! y = cursor v"
      using inv lv y keep by (auto simp: table_inv_def)
  next
    fix j k y assume "owns ?s j y" "owns ?s k y"
    then show "j = k" using inv unfolding own table_inv_def by blast
  next
    fix y assume y: "y < MAX_RELIABLE" "table ?s ! y \<noteq> RELIABLE_UNUSED"
    then have "\<not> owns s i y" using clear by blast
    then show "\<exists>j. owns ?s j y" using inv y keep [of y] unfolding own table_inv_def by metis
  qed
qed

lemma table_inv_frame:
  assumes "table_inv s" and "table s' = table s"
    and "\<And>i. live_sub s' i = live_sub s i
        \<or> (live_sub s i = None \<and> (\<exists>u. live_sub s' i = Some u \<and> sub_reliable u = None \<and> cursor u \<noteq> RELIABLE_UNUSED))"
  shows "table_inv s'"
proof -
  have own: "owns s' i x \<longleftrightarrow> owns s i x" for i x
    using assms(3) [of i] by (elim disjE conjE exE) (simp_all add: owns_def)
  have "cursor u \<noteq> RELIABLE_UNUSED \<and> (\<forall>x. sub_reliable u = Some x \<longrightarrow> x < MAX_RELIABLE \<and> table s' ! x = cursor u)"
    if "live_sub s' i = Some u" for i u
  proof (cases "live_sub s' i = live_sub s i")
    case True
    then have "live_sub s i = Some u" using that by simp
    then show ?thesis using assms(1) unfolding assms(2) table_inv_def by blast
  next
    case False
    then show ?thesis using assms(3) [of i] that by auto
  qed
  then show ?thesis using assms(1,2) unfolding table_inv_def own by simp
qed

lemma table_inv_step:
  assumes inv: "table_inv s" and log: "log_inv s" and op: "op \<noteq> SubscribeFrom RELIABLE_UNUSED"
  shows "table_inv (world_step s op)"
proof (cases op)
  case (Publish d)
  then show ?thesis
    by (intro table_inv_frame [OF inv]) (simp_all add: table_def ring_publish_def Let_def)
next
  case SubscribeNew
  have "ring_head (wring s) \<noteq> RELIABLE_UNUSED"
    using log by (auto simp: log_inv_def ring_inv_def RELIABLE_UNUSED_def unsigned_minus_1_eq_mask mask_eq_exp_minus_1)
  then show ?thesis using SubscribeNew
    by (intro table_inv_frame [OF inv]) (auto simp: table_def live_sub_def nth_append sub_new_def)
next
  case (SubscribeFrom n)
  then show ?thesis using op
    by (intro table_inv_frame [OF inv]) (auto simp: table_def live_sub_def nth_append sub_new_def sub_from_seq_def)
next
  case (TryRecv i)
  show ?thesis
  proof (cases "live_sub s i")
    case (Some u)
    obtain m r u' where tr: "try_recv (wring s) u = (m, r, u')" by (metis prod_cases3)
    show ?thesis
    proof (cases m)
      case (Some k)
      have ri: "ring_inv (wring s) (whist s)" using log by (simp add: log_inv_def)
      note sp = try_recv_spec [OF ri tr [unfolded Some]]
      have "unat (cursor u') \<le> length (whist s)"
        using sp(2) by (auto split: msg.splits if_splits)
      then have "cursor u' \<noteq> RELIABLE_UNUSED"
        using ri by (auto simp: ring_inv_def RELIABLE_UNUSED_def unsigned_minus_1_eq_mask mask_eq_exp_minus_1)
      then show ?thesis
        using TryRecv \<open>live_sub s i = Some u\<close> tr Some sp(4) table_inv_advance [OF inv \<open>live_sub s i = Some u\<close> sp(3)]
        by simp
    qed (use TryRecv Some tr inv in simp)
  qed (use TryRecv inv in simp)
next
  case (MakeReliable i)
  show ?thesis
  proof (cases "live_sub s i")
    case (Some u)
    let ?l = "wsubs s ! i"
    have same: "table_inv (set_sub i (?l\<lparr>sub := Some u\<rparr>) s)"
      using live_sub_bound [OF Some] Some by (intro table_inv_frame [OF inv]) (simp_all add: table_set_sub)
    show ?thesis
    proof (cases "sub_reliable u")
      case None
      then show ?thesis
        using MakeReliable Some register_scan_cases [of "[0..<MAX_RELIABLE]" "wring s" "cursor u"] same
          table_inv_register [OF inv Some None]
        by (auto simp: make_reliable_def register_reliable_def table_def)
    qed (use MakeReliable Some same in \<open>simp add: make_reliable_def\<close>)
  qed (use MakeReliable inv in simp)
next
  case (DropSub i)
  then show ?thesis using inv table_inv_drop [OF inv] by (cases "live_sub s i") simp_all
qed

lemma Min_insert_min: "finite S \<Longrightarrow> Min (insert a (insert b S)) = Min (insert (min a b) S)"
  for a b :: "'a :: linorder"
  by (cases "S = {}") (simp_all add: min.assoc)

text \<open>The scan of \<open>min_reliable_cursor\<close> computes the minimum of the used entries.\<close>

lemma min_scan:
  fixes t :: "u64 list"
  shows "fold (\<lambda>i mn. let v = t ! i in
            if v \<noteq> RELIABLE_UNUSED then Some (case mn of None \<Rightarrow> v | Some m \<Rightarrow> min m v) else mn) is acc
    = (let R = set_option acc \<union> {t ! i | i. i \<in> set is \<and> t ! i \<noteq> RELIABLE_UNUSED}
       in if R = {} then None else Some (Min R))"
proof (induction "is" arbitrary: acc)
  case Nil
  then show ?case by (cases acc) simp_all
next
  case (Cons i "is")
  let ?S = "{t ! j | j. j \<in> set is \<and> t ! j \<noteq> RELIABLE_UNUSED}"
  have fin: "finite ?S" by simp
  show ?case
  proof (cases "t ! i = RELIABLE_UNUSED")
    case True
    then have "{t ! j | j. j \<in> set (i # is) \<and> t ! j \<noteq> RELIABLE_UNUSED} = ?S" by auto
    then show ?thesis using True Cons.IH by (simp add: Let_def)
  next
    case False
    then have "{t ! j | j. j \<in> set (i # is) \<and> t ! j \<noteq> RELIABLE_UNUSED} = insert (t ! i) ?S" by auto
    then show ?thesis
      using False Cons.IH Min_insert_min [OF fin] by (cases acc) (simp_all add: Let_def min.commute)
  qed
qed

lemma min_reliable_eq:
  assumes "table_inv s"
  defines "R \<equiv> {cursor u | i u. live_sub s i = Some u \<and> sub_reliable u \<noteq> None}"
  shows "min_reliable_cursor (wring s) = (if R = {} then None else Some (Min R))"
proof -
  have "{table s ! i | i. i \<in> set [0..<MAX_RELIABLE] \<and> table s ! i \<noteq> RELIABLE_UNUSED} = R" (is "?T = R")
  proof (intro set_eqI iffI)
    fix v assume "v \<in> ?T"
    then obtain x where x: "x < MAX_RELIABLE" "v = table s ! x" "table s ! x \<noteq> RELIABLE_UNUSED" by auto
    then obtain i u where "live_sub s i = Some u" "sub_reliable u = Some x"
      using assms(1) unfolding table_inv_def owns_def by metis
    then show "v \<in> R" using assms(1) x by (force simp: R_def table_inv_def)
  next
    fix v assume "v \<in> R"
    then obtain i u x where "v = cursor u" "live_sub s i = Some u" "sub_reliable u = Some x"
      by (auto simp: R_def)
    then have "x < MAX_RELIABLE" "table s ! x = v" "v \<noteq> RELIABLE_UNUSED"
      using assms(1) unfolding table_inv_def by auto
    then show "v \<in> ?T" by auto
  qed
  then show ?thesis
    using min_scan [of "table s" "[0..<MAX_RELIABLE]" None]
    by (simp add: min_reliable_cursor_def table_def Let_def)
qed

lemma finite_reliable: "finite {cursor u | i u. live_sub s i = Some u \<and> sub_reliable u \<noteq> None}"
proof (rule finite_subset)
  show "{cursor u | i u. live_sub s i = Some u \<and> sub_reliable u \<noteq> None}
      \<subseteq> (\<lambda>l. cursor (the (sub l))) ` set (wsubs s)"
  proof
    fix v assume "v \<in> {cursor u | i u. live_sub s i = Some u \<and> sub_reliable u \<noteq> None}"
    then obtain i u where u: "v = cursor u" "live_sub s i = Some u" by auto
    then have "wsubs s ! i \<in> set (wsubs s)" "sub (wsubs s ! i) = Some u" using live_sub_bound [OF u(2)] by simp_all
    then show "v \<in> (\<lambda>l. cursor (the (sub l))) ` set (wsubs s)" using u(1) by force
  qed
qed simp

lemma behind_iff:
  assumes ri: "ring_inv r hist"
  shows "saturating_sub (ring_head r) c > of_nat (rcapacity r) \<longleftrightarrow> unat c + rcapacity r < length hist"
proof -
  have hd: "unat (ring_head r) = length hist" using ri by (simp add: ring_inv_def)
  have cap: "unat (of_nat (rcapacity r) :: u64) = rcapacity r"
    using ring_inv_cap(2) [OF ri] by (intro unat_of_nat_u64) simp
  show ?thesis
  proof (cases "c \<le> ring_head r")
    case True
    then have "unat (ring_head r - c) = length hist - unat c" using hd by (simp add: unat_sub)
    then show ?thesis using True cap by (auto simp: saturating_sub_def word_less_nat_alt)
  next
    case False
    then have "length hist < unat c" using hd by (simp add: word_le_nat_alt)
    then show ?thesis using False by (simp add: saturating_sub_def)
  qed
qed

lemma table_inv_run:
  assumes "table_inv s" and "log_inv s" and "length (whist s) + length ops < 2 ^ 64 - 1"
    and "SubscribeFrom RELIABLE_UNUSED \<notin> set ops"
  shows "table_inv (fold (\<lambda>op s. world_step s op) ops s)"
  using assms
proof (induction ops arbitrary: s)
  case (Cons op ops)
  have "log_inv (world_step s op)" using Cons.prems by (intro log_inv_step) simp_all
  moreover have "table_inv (world_step s op)" using Cons.prems by (intro table_inv_step) auto
  moreover have "length (whist (world_step s op)) + length ops < 2 ^ 64 - 1"
    using hist_step [of s op] Cons.prems by simp
  ultimately show ?case using Cons.IH Cons.prems by simp
qed simp

text \<open>
  C12: the reliable table is the cursors of the live reliable subscribers. In every run of a
  fresh ring the minimum the producer side reads is the least of their cursors, and
  backpressure is signalled exactly when one of them is more than a capacity behind; dropped
  subscribers no longer count. (Sequence \<^verbatim>\<open>u64::MAX\<close> is the table's free marker, so no
  subscriber starts there.)
\<close>

theorem backpressure_exact:
  assumes "ring_init base rl cap = Inr r" and "length ops < 2 ^ 64 - 1"
    and "SubscribeFrom RELIABLE_UNUSED \<notin> set ops"
  defines "s \<equiv> world_run r ops"
  defines "R \<equiv> {cursor u | i u. live_sub s i = Some u \<and> sub_reliable u \<noteq> None}"
  shows "min_reliable_cursor (wring s) = (if R = {} then None else Some (Min R))
     \<and> (would_backpressure (wring s) \<longleftrightarrow> (\<exists>c\<in>R. unat c + rcapacity (wring s) < length (whist s)))"
proof -
  let ?s0 = "\<lparr>wring = r, whist = [], wsubs = []\<rparr>"
  have log0: "log_inv ?s0" using ring_init_inv(1) [OF assms(1)] by (simp add: log_inv_def)
  have tab0: "table_inv ?s0"
    using ring_init_inv(2) [OF assms(1)] by (simp add: table_inv_def table_def owns_def live_sub_def)
  have "log_inv s" "table_inv s"
    using log_inv_run [OF log0] table_inv_run [OF tab0 log0] assms(2,3) by (simp_all add: s_def world_run_def)
  then have ri: "ring_inv (wring s) (whist s)" by (simp add: log_inv_def)
  have mn: "min_reliable_cursor (wring s) = (if R = {} then None else Some (Min R))"
    using min_reliable_eq [OF \<open>table_inv s\<close>] by (simp add: R_def)
  have fin: "finite R" unfolding R_def by (rule finite_reliable)
  note behind = behind_iff [OF ri]
  have "would_backpressure (wring s) \<longleftrightarrow> (\<exists>c\<in>R. unat c + rcapacity (wring s) < length (whist s))"
  proof (cases "R = {}")
    case False
    then have "Min R \<in> R" "\<forall>c\<in>R. unat (Min R) \<le> unat c"
      using fin by (simp_all add: word_le_nat_alt [symmetric])
    moreover have "would_backpressure (wring s) \<longleftrightarrow> unat (Min R) + rcapacity (wring s) < length (whist s)"
      using mn False behind by (simp add: would_backpressure_def)
    ultimately show ?thesis using le_less_trans add_le_mono1 by meson
  qed (use mn in \<open>simp add: would_backpressure_def\<close>)
  then show ?thesis using mn by simp
qed

section \<open>A concrete run\<close>

definition demo_ring :: ring where
  "demo_ring = projr (ring_init 64 4096 2)"

lemma demo_ring_init: "ring_init 64 4096 2 = Inr demo_ring"
  by (simp add: demo_ring_def ring_init_def is_power_of_two_def required_bytes_def slots_offset_def align_up_def)

definition demo_desc :: "u32 \<Rightarrow> chunk_desc" where
  "demo_desc n = \<lparr>segment_id = 1, generation = n, offset = 64, len = 64, schema_id = 0, desc_pad = 0\<rparr>"

text \<open>Capacity two, three publishes: the subscriber from the start is lapped by one.\<close>

definition demo_ops :: "ring_op list" where
  "demo_ops = [SubscribeFrom 0, MakeReliable 0, Publish (demo_desc 1), Publish (demo_desc 2), Publish (demo_desc 3)]"

lemma demo_world:
  "whist (world_run demo_ring demo_ops) = map demo_desc [1, 2, 3]"
  "live_sub (world_run demo_ring demo_ops) 0 = Some \<lparr>cursor = 0, sub_reliable = Some 0\<rparr>"
  "length (wsubs (world_run demo_ring demo_ops)) = 1"
  "rcapacity (wring (world_run demo_ring demo_ops)) = 2"
  by (simp_all add: world_run_def demo_ops_def demo_ring_def ring_init_def is_power_of_two_def required_bytes_def
      slots_offset_def align_up_def live_sub_def sub_from_seq_def sub_new_def make_reliable_def register_reliable_def
      MAX_RELIABLE_def upt_conv_Cons compare_exchange_def set_sub_def ring_publish_def Let_def set_reliable_def)

theorem recv_classifies_witness:
  "fst (try_recv (wring (world_run demo_ring demo_ops)) \<lparr>cursor = 0, sub_reliable = Some 0\<rparr>) = Some (Lagged 1)"
  using recv_classifies [OF demo_ring_init, of demo_ops 0] demo_world by (simp add: demo_ops_def)

theorem broadcast_accounts_witness:
  "case wsubs (world_run demo_ring (demo_ops @ [TryRecv 0, TryRecv 0])) ! 0 of l \<Rightarrow>
     \<exists>c. account (whist (world_run demo_ring (demo_ops @ [TryRecv 0, TryRecv 0]))) (started l) (delivered l) = Some c"
proof -
  have len: "length (wsubs (world_step s (TryRecv i))) = length (wsubs s)" for s i
    by (auto simp: set_sub_def split: option.splits prod.splits)
  have "0 < length (wsubs (world_run demo_ring (demo_ops @ [TryRecv 0, TryRecv 0])))"
    using demo_world(3) by (simp add: world_run_def len del: world_step.simps)
  then show ?thesis
    using broadcast_accounts [OF demo_ring_init, of "demo_ops @ [TryRecv 0, TryRecv 0]" 0]
    by (auto simp: demo_ops_def)
qed

theorem backpressure_exact_witness: "would_backpressure (wring (world_run demo_ring demo_ops))"
proof -
  let ?R = "{cursor u | i u. live_sub (world_run demo_ring demo_ops) i = Some u \<and> sub_reliable u \<noteq> None}"
  have "0 \<in> ?R" using demo_world(2) by force
  then have "\<exists>c\<in>?R. unat c + 2 < 3" by (rule bexI [rotated]) simp
  moreover have "SubscribeFrom RELIABLE_UNUSED \<notin> set demo_ops" "length demo_ops < 2 ^ 64 - 1"
    by (simp_all add: demo_ops_def RELIABLE_UNUSED_def)
  ultimately show ?thesis
    using backpressure_exact [OF demo_ring_init, of demo_ops] demo_world(1,4) by simp
qed

end
