(* ===== verification/Shm_Ring_Conc.thy ===== *)
theory Shm_Ring_Conc
  imports Shm_Ring
begin

text \<open>
  \<^verbatim>\<open>Ring::publish\<close> and \<^verbatim>\<open>Ring::read_at\<close> interleaved, one shared access per step. The sequence of a slot
  and the head are atomic words; the descriptor between them is a plain structure, which both sides copy piece by
  piece. It is a list of \<open>w\<close> cells (six words, or twenty-four bytes: the size of a cell is left open) and a copy
  moves its cells one per step, in any order. The producer writes the cells, stores the slot's sequence,
  stores the head; a reader loads the head, checks the sequence, reads the cells, checks the sequence again, and
  on a mismatch reloads the head. Readers write nothing the others read, so one reader stands for all. Sequence
  numbers are naturals (the 64-bit counter does not wrap); \<open>sent\<close> is a ghost, the descriptors whose publish has
  begun.
  Shown: whatever the interleaving, every cell of a sample accepted at cursor \<open>c\<close> is that of the message \<open>c\<close> or of
  the message one capacity later, and all are those of \<open>c\<close> unless the publish of the later message has begun; a lag
  never moves a cursor back or past the head; and samples of the wrong message, whole or in part, really occur, at
  the lap edge.
\<close>

text \<open>\<open>PDesc r\<close>: the cells \<open>r\<close> are still to be written. \<open>RCopy c r b\<close>: the cells \<open>r\<close> are still to be read into \<open>b\<close>.\<close>

datatype prod_pc = PIdle | PDesc "nat list" | PSeq

datatype 'c outcome = OSample "'c list" | OLagged nat nat | OEmpty

datatype 'c read_pc =
    RStart nat
  | RGate nat
  | RCopy nat "nat list" "'c list"
  | RRelag nat
  | RDone nat "'c outcome"

record 'c rsys =
  nhead :: nat
  nseq :: "nat \<Rightarrow> nat option"
  ndesc :: "nat \<Rightarrow> 'c list"
  prod :: prod_pc
  rdr :: "'c read_pc"
  sent :: "'c list list"

inductive prod_step :: "nat \<Rightarrow> nat \<Rightarrow> 'c rsys \<Rightarrow> 'c rsys \<Rightarrow> bool" for cap w where
  begin_publish: "prod s = PIdle \<Longrightarrow> length d = w \<Longrightarrow> prod_step cap w s (s\<lparr>prod := PDesc [0..<w], sent := sent s @ [d]\<rparr>)"
| write_cell: "prod s = PDesc r \<Longrightarrow> j \<in> set r \<Longrightarrow> prod_step cap w s
     (s\<lparr>ndesc := (ndesc s)(nhead s mod cap := (ndesc s (nhead s mod cap))[j := last (sent s) ! j]), prod := PDesc (remove1 j r)\<rparr>)"
| store_seq: "prod s = PDesc [] \<Longrightarrow> prod_step cap w s
     (s\<lparr>nseq := (nseq s)(nhead s mod cap := Some (nhead s)), prod := PSeq\<rparr>)"
| store_head: "prod s = PSeq \<Longrightarrow> prod_step cap w s (s\<lparr>nhead := Suc (nhead s), prod := PIdle\<rparr>)"

inductive read_step :: "nat \<Rightarrow> nat \<Rightarrow> 'c rsys \<Rightarrow> 'c rsys \<Rightarrow> bool" for cap w where
  rd_empty: "rdr s = RStart c \<Longrightarrow> nhead s \<le> c \<Longrightarrow> read_step cap w s (s\<lparr>rdr := RDone c OEmpty\<rparr>)"
| rd_lag: "rdr s = RStart c \<Longrightarrow> c < nhead s \<Longrightarrow> nhead s - c > cap
    \<Longrightarrow> read_step cap w s (s\<lparr>rdr := RDone c (OLagged (nhead s - cap - c) (nhead s - cap))\<rparr>)"
| rd_gate: "rdr s = RStart c \<Longrightarrow> c < nhead s \<Longrightarrow> nhead s - c \<le> cap \<Longrightarrow> read_step cap w s (s\<lparr>rdr := RGate c\<rparr>)"
| rd_seq1: "rdr s = RGate c \<Longrightarrow> length b = w \<Longrightarrow> read_step cap w s
    (s\<lparr>rdr := (if nseq s (c mod cap) = Some c then RCopy c [0..<w] b else RRelag c)\<rparr>)"
| rd_cell: "rdr s = RCopy c r b \<Longrightarrow> j \<in> set r \<Longrightarrow> read_step cap w s
    (s\<lparr>rdr := RCopy c (remove1 j r) (b[j := ndesc s (c mod cap) ! j])\<rparr>)"
| rd_seq2: "rdr s = RCopy c [] b \<Longrightarrow> read_step cap w s
    (s\<lparr>rdr := (if nseq s (c mod cap) = Some c then RDone c (OSample b) else RRelag c)\<rparr>)"
| rd_relag: "rdr s = RRelag c \<Longrightarrow> read_step cap w s
    (s\<lparr>rdr := RDone c (OLagged (nhead s - cap - c) (nhead s - cap))\<rparr>)"
| rd_again: "rdr s = RDone c oc \<Longrightarrow> read_step cap w s (s\<lparr>rdr := RStart c'\<rparr>)"

definition rsys_init :: "nat \<Rightarrow> 'c \<Rightarrow> 'c rsys" where
  "rsys_init w z = \<lparr>nhead = 0, nseq = \<lambda>_. None, ndesc = \<lambda>_. replicate w z, prod = PIdle, rdr = RStart 0, sent = []\<rparr>"

inductive ring_reachable :: "nat \<Rightarrow> nat \<Rightarrow> 'c \<Rightarrow> 'c rsys \<Rightarrow> bool" for cap w z where
  rg_init: "ring_reachable cap w z (rsys_init w z)"
| rg_prod: "ring_reachable cap w z s \<Longrightarrow> prod_step cap w s s' \<Longrightarrow> ring_reachable cap w z s'"
| rg_read: "ring_reachable cap w z s \<Longrightarrow> read_step cap w s s' \<Longrightarrow> ring_reachable cap w z s'"

section \<open>Invariants\<close>

text \<open>How many sequence numbers have been stored in slots, and which cells of the current message are still to be written.\<close>

definition stored :: "'c rsys \<Rightarrow> nat" where
  "stored s = (case prod s of PDesc _ \<Rightarrow> length (sent s) - 1 | _ \<Rightarrow> length (sent s))"

definition unwritten :: "'c rsys \<Rightarrow> nat set" where
  "unwritten s = (case prod s of PDesc r \<Rightarrow> set r | _ \<Rightarrow> {})"

definition seq_inv :: "nat \<Rightarrow> 'c rsys \<Rightarrow> bool" where
  "seq_inv cap s \<longleftrightarrow>
     length (sent s) = nhead s + (if prod s = PIdle then 0 else 1)
   \<and> (\<forall>n < stored s. stored s \<le> n + cap \<longrightarrow> nseq s (n mod cap) = Some n)
   \<and> (\<forall>i n. nseq s i = Some n \<longrightarrow> n < stored s \<and> stored s \<le> n + cap \<and> i = n mod cap)"

text \<open>A cell of the slot of message \<open>n\<close> is that message's, until its successor in the slot has written it.\<close>

definition cell_inv :: "nat \<Rightarrow> nat \<Rightarrow> 'c rsys \<Rightarrow> bool" where
  "cell_inv cap w s \<longleftrightarrow>
     (\<forall>i. length (ndesc s i) = w) \<and> (\<forall>r. prod s = PDesc r \<longrightarrow> set r \<subseteq> {..<w} \<and> distinct r)
   \<and> (\<forall>n j. n < length (sent s) \<longrightarrow> length (sent s) \<le> n + cap \<longrightarrow> j < w \<longrightarrow> \<not> (n = nhead s \<and> j \<in> unwritten s)
        \<longrightarrow> ndesc s (n mod cap) ! j = sent s ! n ! j)
   \<and> (\<forall>n j. n + cap = nhead s \<longrightarrow> j \<in> unwritten s \<longrightarrow> ndesc s (n mod cap) ! j = sent s ! n ! j)"

lemma seq_step_inv:
  assumes "prod_step cap w s s'" and inv: "seq_inv cap s" and cap: "0 < cap"
  shows "seq_inv cap s'"
  using assms(1)
proof cases
  case store_seq
  let ?h = "nhead s"
  have len: "length (sent s) = ?h + 1" "stored s = ?h" "stored s' = ?h + 1"
    using inv store_seq by (simp_all add: seq_inv_def stored_def)
  have ne: "n mod cap \<noteq> ?h mod cap" if "n < ?h" "?h < n + cap" for n
    using that by (rule window_mod)
  have old: "nseq s (n mod cap) = Some n" if "n < ?h" "?h \<le> n + cap" for n
    using inv that len(2) unfolding seq_inv_def by simp
  have "n < ?h + 1 \<and> ?h + 1 \<le> n + cap \<and> i = n mod cap" if "nseq s' i = Some n" for i n
  proof (cases "i = ?h mod cap")
    case True
    then show ?thesis using that store_seq cap by simp
  next
    case False
    then have n: "nseq s i = Some n" using that store_seq by simp
    then have b: "n < ?h" "?h \<le> n + cap" "i = n mod cap" using inv len(2) unfolding seq_inv_def by metis+
    then have "?h \<noteq> n + cap" using False by auto
    then show ?thesis using b by auto
  qed
  moreover have "nseq s' (n mod cap) = Some n" if "n < ?h + 1" "?h + 1 \<le> n + cap" for n
    using that ne [of n] old [of n] store_seq by (cases "n = ?h") auto
  moreover have "sent s' = sent s" "nhead s' = nhead s" "prod s' = PSeq" using store_seq by simp_all
  ultimately show ?thesis unfolding seq_inv_def len(3) by (simp add: len(1))
qed (use inv in \<open>auto simp: seq_inv_def stored_def split: prod_pc.splits\<close>)

lemma cell_step_inv:
  assumes "prod_step cap w s s'" and inv: "cell_inv cap w s" and seq: "seq_inv cap s" and cap: "0 < cap"
  shows "cell_inv cap w s'"
  using assms(1)
proof cases
  case (begin_publish d)
  have len: "length (sent s) = nhead s" using seq begin_publish by (simp add: seq_inv_def)
  have "ndesc s (n mod cap) ! j = sent s ! n ! j" if "n < nhead s" "nhead s \<le> n + cap" "j < w" for n j
    using inv that len by (simp add: cell_inv_def)
  then show ?thesis using inv len begin_publish cap
    by (auto simp: cell_inv_def unwritten_def nth_append less_Suc_eq)
next
  case (write_cell r j)
  let ?h = "nhead s"
  have len: "length (sent s) = ?h + 1" using seq write_cell by (simp add: seq_inv_def)
  then have last: "last (sent s) = sent s ! ?h" by (metis diff_add_inverse2 last_conv_nth length_0_conv add_is_0 one_neq_zero)
  have d: "distinct r" "set r \<subseteq> {..<w}" "length (ndesc s (?h mod cap)) = w" using inv write_cell by (auto simp: cell_inv_def)
  have uw: "unwritten s = set r" "unwritten s' = set r - {j}" using write_cell d(1) by (simp_all add: unwritten_def set_remove1_eq)
  have nd: "ndesc s' i ! k = (if i = ?h mod cap \<and> k = j then sent s ! ?h ! j else ndesc s i ! k)" if "k < w" for i k
    using write_cell d that last by (auto simp: nth_list_update)
  have ne: "n mod cap \<noteq> ?h mod cap" if "n < ?h" "?h < n + cap" for n using that by (rule window_mod)
  have a: "ndesc s' (n mod cap) ! k = sent s ! n ! k" if "n < ?h + 1" "?h + 1 \<le> n + cap" "k < w" "\<not> (n = ?h \<and> k \<in> set r - {j})" for n k
  proof (cases "n = ?h \<and> k = j")
    case False
    then have "ndesc s (n mod cap) ! k = sent s ! n ! k" using inv that len uw by (auto simp: cell_inv_def)
    then show ?thesis using nd [OF that(3)] ne [of n] that False by auto
  qed (use nd [OF that(3)] in simp)
  have b: "ndesc s' (n mod cap) ! k = sent s ! n ! k" if "n + cap = ?h" "k \<in> set r - {j}" for n k
    using inv that uw nd [of k "n mod cap"] d(2) by (auto simp: cell_inv_def)
  have "sent s' = sent s" "nhead s' = ?h" "prod s' = PDesc (remove1 j r)" "\<forall>i. length (ndesc s' i) = w"
    using write_cell inv by (simp_all add: cell_inv_def)
  then show ?thesis using a b d uw(2) len unfolding cell_inv_def by (auto dest: notin_set_remove1)
next
  case store_head
  then show ?thesis using inv seq by (auto simp: cell_inv_def seq_inv_def unwritten_def)
qed (use inv in \<open>auto simp: cell_inv_def unwritten_def\<close>)

text \<open>
  What the reader knows at each point. A cell it has read is the one of its cursor's message, or of the message a
  capacity later, or the slot's sequence has already moved on for good.
\<close>

definition own_or_lapping :: "nat \<Rightarrow> 'c rsys \<Rightarrow> nat \<Rightarrow> nat \<Rightarrow> 'c \<Rightarrow> bool" where
  "own_or_lapping cap s c j v \<longleftrightarrow> c < length (sent s) \<and> v = sent s ! c ! j
     \<or> c + cap < length (sent s) \<and> v = sent s ! (c + cap) ! j"

primrec outcome_ok :: "nat \<Rightarrow> nat \<Rightarrow> 'c rsys \<Rightarrow> nat \<Rightarrow> 'c outcome \<Rightarrow> bool" where
  "outcome_ok cap w s c (OSample b) \<longleftrightarrow> length b = w \<and> c < length (sent s) \<and> (\<forall>j<w. own_or_lapping cap s c j (b ! j))"
| "outcome_ok cap w s c (OLagged n c') \<longleftrightarrow> c' = c + n \<and> c' + cap \<le> nhead s"
| "outcome_ok cap w s c OEmpty \<longleftrightarrow> True"

primrec reader_ok :: "nat \<Rightarrow> nat \<Rightarrow> 'c rsys \<Rightarrow> 'c read_pc \<Rightarrow> bool" where
  "reader_ok cap w s (RStart c) \<longleftrightarrow> True"
| "reader_ok cap w s (RGate c) \<longleftrightarrow> c < nhead s"
| "reader_ok cap w s (RCopy c r b) \<longleftrightarrow> c < nhead s \<and> length b = w
     \<and> (\<forall>j<w. j \<in> set r \<or> own_or_lapping cap s c j (b ! j) \<or> c + cap < stored s)"
| "reader_ok cap w s (RRelag c) \<longleftrightarrow> c + cap \<le> nhead s"
| "reader_ok cap w s (RDone c oc) \<longleftrightarrow> outcome_ok cap w s c oc"

lemma slot_cell:
  assumes inv: "cell_inv cap w s" and seq: "seq_inv cap s" and cap: "0 < cap" and c: "c < nhead s" and j: "j < w"
  shows "own_or_lapping cap s c j (ndesc s (c mod cap) ! j) \<or> c + cap < stored s"
proof -
  let ?L = "length (sent s)"
  have len: "c < ?L" "?L \<le> stored s + 1" using seq c by (auto simp: seq_inv_def stored_def split: prod_pc.splits)
  have nd: "ndesc s (n mod cap) ! j = sent s ! n ! j" if "n < ?L" "?L \<le> n + cap" "\<not> (n = nhead s \<and> j \<in> unwritten s)" for n
    using inv that j by (simp add: cell_inv_def)
  consider "?L \<le> c + cap" | "c + cap < ?L" "?L \<le> c + 2 * cap" | "c + 2 * cap < ?L" by linarith
  then show ?thesis
  proof cases
    case 1
    then show ?thesis using nd [of c] len c by (simp add: own_or_lapping_def)
  next
    case 2
    show ?thesis
    proof (cases "c + cap = nhead s \<and> j \<in> unwritten s")
      case True
      then show ?thesis using inv len by (simp add: cell_inv_def own_or_lapping_def)
    next
      case False
      then show ?thesis using nd [of "c + cap"] 2 by (simp add: own_or_lapping_def)
    qed
  next
    case 3
    then show ?thesis using len cap by simp
  qed
qed

lemma seq_moved:
  assumes "seq_inv cap s" and "c < nhead s" and "nseq s (c mod cap) \<noteq> Some c"
  shows "c + cap \<le> nhead s"
proof (rule ccontr)
  assume "\<not> c + cap \<le> nhead s"
  then have "c < stored s" "stored s \<le> c + cap"
    using assms(1,2) by (auto simp: seq_inv_def stored_def split: prod_pc.splits)
  then show False using assms(1,3) by (simp add: seq_inv_def)
qed

lemma seq_current:
  "seq_inv cap s \<Longrightarrow> nseq s (c mod cap) = Some c \<Longrightarrow> stored s \<le> c + cap"
  by (auto simp: seq_inv_def)

lemma reader_ok_mono:
  assumes "reader_ok cap w s pc" and "nhead s \<le> nhead s'" and "stored s \<le> stored s'"
    and "\<exists>xs. sent s' = sent s @ xs"
  shows "reader_ok cap w s' pc"
proof -
  obtain xs where xs: "sent s' = sent s @ xs" using assms(4) by blast
  then have mono: "own_or_lapping cap s c j v \<Longrightarrow> own_or_lapping cap s' c j v" for c j v
    by (auto simp: own_or_lapping_def nth_append)
  have "outcome_ok cap w s c oc \<Longrightarrow> outcome_ok cap w s' c oc" for c oc
    using mono assms(2) xs by (cases oc) auto
  moreover have "c + cap < stored s \<Longrightarrow> c + cap < stored s'" for c using assms(3) by simp
  ultimately show ?thesis using assms(1,2) mono by (cases pc; force)
qed

lemma reader_cong:
  "stored (s\<lparr>rdr := p\<rparr>) = stored s" "own_or_lapping cap (s\<lparr>rdr := p\<rparr>) c j v = own_or_lapping cap s c j v"
  "seq_inv cap (s\<lparr>rdr := p\<rparr>) = seq_inv cap s" "cell_inv cap w (s\<lparr>rdr := p\<rparr>) = cell_inv cap w s"
proof -
  show st: "stored (s\<lparr>rdr := p\<rparr>) = stored s" by (cases "prod s") (simp_all add: stored_def)
  have "unwritten (s\<lparr>rdr := p\<rparr>) = unwritten s" by (cases "prod s") (simp_all add: unwritten_def)
  then show "cell_inv cap w (s\<lparr>rdr := p\<rparr>) = cell_inv cap w s" by (simp add: cell_inv_def)
  show "seq_inv cap (s\<lparr>rdr := p\<rparr>) = seq_inv cap s" by (simp add: seq_inv_def st)
qed (simp add: own_or_lapping_def)

definition ring_inv :: "nat \<Rightarrow> nat \<Rightarrow> 'c rsys \<Rightarrow> bool" where
  "ring_inv cap w s \<longleftrightarrow> seq_inv cap s \<and> cell_inv cap w s \<and> reader_ok cap w s (rdr s)"

lemma read_step_ok:
  assumes "read_step cap w s s'" and inv: "ring_inv cap w s" and cap: "0 < cap"
  shows "ring_inv cap w s'"
proof -
  have i: "seq_inv cap s" "cell_inv cap w s" "reader_ok cap w s (rdr s)" using inv by (simp_all add: ring_inv_def)
  have len: "nhead s \<le> length (sent s)" using i(1) by (simp add: seq_inv_def)
  show ?thesis
    using assms(1)
  proof cases
    case (rd_seq1 c b)
    then show ?thesis using i seq_moved [OF i(1)] by (auto simp: ring_inv_def reader_cong)
  next
    case (rd_cell c r b j)
    then have c: "c < nhead s" "length b = w" "\<forall>k<w. k \<in> set r \<or> own_or_lapping cap s c k (b ! k) \<or> c + cap < stored s"
      using i(3) by simp_all
    have "k \<in> set (remove1 j r) \<or> own_or_lapping cap s c k ((b[j := ndesc s (c mod cap) ! j]) ! k) \<or> c + cap < stored s" if k: "k < w" for k
      using c k slot_cell [OF i(2,1) cap c(1) k] by (cases "k = j") (auto simp: in_set_remove1)
    then show ?thesis using i rd_cell c by (simp add: ring_inv_def reader_cong)
  next
    case (rd_seq2 c b)
    then show ?thesis using i len seq_moved [OF i(1)] seq_current [OF i(1), of c] by (auto simp: ring_inv_def reader_cong)
  qed (use i in \<open>auto simp: ring_inv_def reader_cong\<close>)
qed

lemma prod_step_ok:
  assumes "prod_step cap w s s'" and inv: "ring_inv cap w s" and cap: "0 < cap"
  shows "ring_inv cap w s'"
proof -
  have i: "seq_inv cap s" "cell_inv cap w s" "reader_ok cap w s (rdr s)" using inv by (simp_all add: ring_inv_def)
  have "rdr s' = rdr s" "nhead s \<le> nhead s'" "stored s \<le> stored s'" "\<exists>xs. sent s' = sent s @ xs"
    using assms(1) by (cases, auto simp: stored_def)+
  then show ?thesis
    using seq_step_inv [OF assms(1) i(1) cap] cell_step_inv [OF assms(1) i(2,1) cap] reader_ok_mono [OF i(3)] by (simp add: ring_inv_def)
qed

lemma ring_reachable_ok:
  assumes "ring_reachable cap w z s" and "0 < cap"
  shows "ring_inv cap w s"
  using assms(1)
proof induction
  case rg_init
  then show ?case by (simp add: rsys_init_def ring_inv_def seq_inv_def cell_inv_def stored_def unwritten_def)
qed (use prod_step_ok read_step_ok assms(2) in blast)+

text \<open>
  C13: whatever the interleaving, what a read at cursor \<open>c\<close> returns. Every cell of a sample is the cell of message
  \<open>c\<close> or of message \<open>c + capacity\<close> and of no other, and the sample is message \<open>c\<close> as it was sent unless the publish of
  message \<open>c + capacity\<close> has begun; a lag of \<open>n\<close> moves the cursor to exactly \<open>c + n\<close>, never back and never past the
  oldest message the head still covers.
\<close>

theorem concurrent_read_outcome:
  assumes "ring_reachable cap w z s" and "0 < cap" and "rdr s = RDone c oc"
  shows "(\<forall>b. oc = OSample b \<longrightarrow> length b = w \<and> c < length (sent s)
            \<and> (\<forall>j<w. b ! j = sent s ! c ! j \<or> c + cap < length (sent s) \<and> b ! j = sent s ! (c + cap) ! j)
            \<and> (length (sent s) \<le> c + cap \<longrightarrow> (\<forall>j<w. b ! j = sent s ! c ! j)))
       \<and> (\<forall>n c'. oc = OLagged n c' \<longrightarrow> c' = c + n \<and> c' + cap \<le> nhead s)"
  using ring_reachable_ok [OF assms(1,2)] assms(3) by (auto simp: ring_inv_def own_or_lapping_def)

section \<open>The lap edge\<close>

text \<open>A scheduler for concrete runs: which side takes its next step, and on which cell.\<close>

datatype 'c event = Begin "'c list" | WriteCell nat | Advance | Consume | ReadCell nat | ReadFrom nat

fun exec_event :: "nat \<Rightarrow> nat \<Rightarrow> 'c \<Rightarrow> 'c rsys \<Rightarrow> 'c event \<Rightarrow> 'c rsys option" where
  "exec_event cap w z s (Begin d) =
     (if prod s = PIdle \<and> length d = w then Some (s\<lparr>prod := PDesc [0..<w], sent := sent s @ [d]\<rparr>) else None)"
| "exec_event cap w z s (WriteCell j) = (case prod s of
      PDesc r \<Rightarrow> if j \<in> set r then Some (s\<lparr>ndesc := (ndesc s)(nhead s mod cap := (ndesc s (nhead s mod cap))[j := last (sent s) ! j]),
                   prod := PDesc (remove1 j r)\<rparr>) else None
    | _ \<Rightarrow> None)"
| "exec_event cap w z s Advance = (case prod s of
      PDesc [] \<Rightarrow> Some (s\<lparr>nseq := (nseq s)(nhead s mod cap := Some (nhead s)), prod := PSeq\<rparr>)
    | PSeq \<Rightarrow> Some (s\<lparr>nhead := Suc (nhead s), prod := PIdle\<rparr>)
    | _ \<Rightarrow> None)"
| "exec_event cap w z s Consume = (case rdr s of
      RStart c \<Rightarrow> Some (s\<lparr>rdr := (if nhead s \<le> c then RDone c OEmpty
         else if nhead s - c > cap then RDone c (OLagged (nhead s - cap - c) (nhead s - cap)) else RGate c)\<rparr>)
    | RGate c \<Rightarrow> Some (s\<lparr>rdr := (if nseq s (c mod cap) = Some c then RCopy c [0..<w] (replicate w z) else RRelag c)\<rparr>)
    | RCopy c [] b \<Rightarrow> Some (s\<lparr>rdr := (if nseq s (c mod cap) = Some c then RDone c (OSample b) else RRelag c)\<rparr>)
    | RRelag c \<Rightarrow> Some (s\<lparr>rdr := RDone c (OLagged (nhead s - cap - c) (nhead s - cap))\<rparr>)
    | _ \<Rightarrow> None)"
| "exec_event cap w z s (ReadCell j) = (case rdr s of
      RCopy c r b \<Rightarrow> if j \<in> set r then Some (s\<lparr>rdr := RCopy c (remove1 j r) (b[j := ndesc s (c mod cap) ! j])\<rparr>) else None
    | _ \<Rightarrow> None)"
| "exec_event cap w z s (ReadFrom c') = (case rdr s of RDone c oc \<Rightarrow> Some (s\<lparr>rdr := RStart c'\<rparr>) | _ \<Rightarrow> None)"

primrec exec_events :: "nat \<Rightarrow> nat \<Rightarrow> 'c \<Rightarrow> 'c rsys \<Rightarrow> 'c event list \<Rightarrow> 'c rsys option" where
  "exec_events cap w z s [] = Some s"
| "exec_events cap w z s (e # es) = (case exec_event cap w z s e of None \<Rightarrow> None | Some s' \<Rightarrow> exec_events cap w z s' es)"

lemma exec_consume_sound:
  assumes "exec_event cap w z s Consume = Some s'"
  shows "read_step cap w s s'"
proof (cases "rdr s")
  case (RStart c)
  then show ?thesis using assms
    by (cases "nhead s \<le> c"; cases "nhead s - c > cap") (use rd_lag [OF RStart, of cap w] in \<open>auto intro: rd_empty rd_gate\<close>)
next
  case (RGate c)
  then show ?thesis using assms rd_seq1 [OF RGate, of "replicate w z" w cap] by auto
next
  case (RCopy c r b)
  then have "r = []" using assms by (cases r) auto
  then show ?thesis using assms RCopy rd_seq2 [of s c b cap w] by auto
next
  case (RRelag c)
  then show ?thesis using assms rd_relag [OF RRelag, of cap w] by auto
qed (use assms in simp)

lemma exec_event_sound:
  assumes "exec_event cap w z s e = Some s'"
  shows "prod_step cap w s s' \<or> read_step cap w s s'"
proof (cases e)
  case Consume
  show ?thesis using exec_consume_sound [OF assms [unfolded Consume]] ..
qed (use assms in \<open>auto intro: prod_step.intros rd_cell rd_again split: prod_pc.splits read_pc.splits list.splits if_splits\<close>)

lemma exec_events_sound:
  "exec_events cap w z s es = Some s' \<Longrightarrow> ring_reachable cap w z s \<Longrightarrow> ring_reachable cap w z s'"
proof (induction es arbitrary: s)
  case (Cons e es)
  then show ?case
    by (auto split: option.splits dest!: exec_event_sound intro: rg_prod rg_read)
qed simp

text \<open>A message of six equal words, its whole publish and its whole read.\<close>

abbreviation msg :: "nat \<Rightarrow> nat list" where
  "msg n \<equiv> [n, n, n, n, n, n]"

definition publish_all :: "nat \<Rightarrow> nat event list" where
  "publish_all n = Begin (msg n) # map WriteCell [0, 1, 2, 3, 4, 5] @ [Advance, Advance]"

definition lap_edge :: "nat event list" where
  "lap_edge = publish_all 10 @ publish_all 11 @ [Consume, Consume, Begin (msg 12)] @ map WriteCell [0, 1, 2, 3, 4, 5]
     @ map ReadCell [0, 1, 2, 3, 4, 5] @ [Consume]"

definition lap_edge_torn :: "nat event list" where
  "lap_edge_torn = publish_all 10 @ publish_all 11 @ [Consume, Consume, Begin (msg 12)] @ map WriteCell [0, 1, 2]
     @ map ReadCell [0, 1, 2, 3, 4, 5] @ [Consume]"

text \<open>
  C14: at the lap edge a reader accepts the wrong message. In a ring of two slots holding messages 10 and 11, of
  six words each, a reader at cursor 0 passes the head gate and the first sequence check; the producer then
  writes message 12 over slot 0, whose sequence still reads 0; the reader reads it, finds the sequence unchanged, and
  returns message 12 as message 0. If the producer has written only half of the words, the reader returns a
  descriptor that nobody ever sent.
\<close>

theorem lap_edge_wrong_sample:
  "(\<exists>s. ring_reachable 2 6 (0 :: nat) s \<and> rdr s = RDone 0 (OSample (msg 12)) \<and> sent s = [msg 10, msg 11, msg 12] \<and> nhead s = 2)
   \<and> (\<exists>s. ring_reachable 2 6 (0 :: nat) s \<and> rdr s = RDone 0 (OSample [12, 12, 12, 10, 10, 10]) \<and> sent s = [msg 10, msg 11, msg 12] \<and> nhead s = 2)"
proof
  obtain s where s: "exec_events 2 6 0 (rsys_init 6 0) lap_edge = Some s"
      "rdr s = RDone 0 (OSample (msg 12)) \<and> sent s = [msg 10, msg 11, msg 12] \<and> nhead s = 2"
    by (simp add: lap_edge_def publish_all_def rsys_init_def upt_rec numeral_eq_Suc)
  have "ring_reachable 2 6 0 s" by (rule exec_events_sound [OF s(1) rg_init])
  then show "\<exists>s. ring_reachable 2 6 (0 :: nat) s \<and> rdr s = RDone 0 (OSample (msg 12)) \<and> sent s = [msg 10, msg 11, msg 12] \<and> nhead s = 2"
    using s(2) by blast
next
  obtain s where s: "exec_events 2 6 0 (rsys_init 6 0) lap_edge_torn = Some s"
      "rdr s = RDone 0 (OSample [12, 12, 12, 10, 10, 10]) \<and> sent s = [msg 10, msg 11, msg 12] \<and> nhead s = 2"
    by (simp add: lap_edge_torn_def publish_all_def rsys_init_def upt_rec numeral_eq_Suc)
  have "ring_reachable 2 6 0 s" by (rule exec_events_sound [OF s(1) rg_init])
  then show "\<exists>s. ring_reachable 2 6 (0 :: nat) s \<and> rdr s = RDone 0 (OSample [12, 12, 12, 10, 10, 10]) \<and> sent s = [msg 10, msg 11, msg 12] \<and> nhead s = 2"
    using s(2) by blast
qed

text \<open>A read that the producer does not catch up with, and one it laps.\<close>

theorem concurrent_read_outcome_witness:
  "(\<exists>s. ring_reachable 2 6 (0 :: nat) s \<and> rdr s = RDone 0 (OSample (msg 10)) \<and> (\<forall>j<6. msg 10 ! j = sent s ! 0 ! j))
   \<and> (\<exists>s. ring_reachable 2 6 (0 :: nat) s \<and> rdr s = RDone 0 (OLagged 1 1) \<and> 1 + 2 \<le> nhead s)"
proof
  obtain s where s: "exec_events 2 6 0 (rsys_init 6 0) (publish_all 10 @ [Consume, Consume] @ map ReadCell [0, 1, 2, 3, 4, 5] @ [Consume]) = Some s"
      "rdr s = RDone 0 (OSample (msg 10))" "length (sent s) = 1"
    by (simp add: publish_all_def rsys_init_def upt_rec numeral_eq_Suc)
  have r: "ring_reachable 2 6 0 s" by (rule exec_events_sound [OF s(1) rg_init])
  from concurrent_read_outcome [OF r _ s(2)] show "\<exists>s. ring_reachable 2 6 (0 :: nat) s \<and> rdr s = RDone 0 (OSample (msg 10)) \<and> (\<forall>j<6. msg 10 ! j = sent s ! 0 ! j)"
    using r s(2,3) by auto
next
  obtain s where s: "exec_events 2 6 0 (rsys_init 6 0) (publish_all 10 @ publish_all 11 @ [Consume] @ publish_all 12 @ [Consume, Consume]) = Some s"
      "rdr s = RDone 0 (OLagged 1 1)"
    by (simp add: publish_all_def rsys_init_def upt_rec numeral_eq_Suc)
  have r: "ring_reachable 2 6 0 s" by (rule exec_events_sound [OF s(1) rg_init])
  from concurrent_read_outcome [OF r _ s(2)] show "\<exists>s. ring_reachable 2 6 (0 :: nat) s \<and> rdr s = RDone 0 (OLagged 1 1) \<and> 1 + 2 \<le> nhead s"
    using r s(2) by auto
qed

end
