(* ===== verification/Shm_Shards.thy ===== *)
theory Shm_Shards
  imports Shm_Treiber
begin

text \<open>
  A family of Treiber stacks over one link memory: the sharded FREE and READY stacks of the task
  queue (\<^verbatim>\<open>crates/shm-task/src/queue.rs\<close>). A node is on at most one stack. Shown here for
  any link memory: a sweep pops the first non-empty stack it meets and reports empty only if
  all are; a push keeps every other stack.
\<close>

definition members :: "u32 list list \<Rightarrow> u32 set" where
  "members xss = (\<Union>xs\<in>set xss. set xs)"

definition shards :: "(u32 \<Rightarrow> u32) \<Rightarrow> u64 list \<Rightarrow> u32 list list \<Rightarrow> bool" where
  "shards nx hs xss \<longleftrightarrow> length hs = length xss
     \<and> (\<forall>s<length xss. stack_of nx (hs ! s) (xss ! s))
     \<and> (\<forall>s<length xss. \<forall>t<length xss. s \<noteq> t \<longrightarrow> set (xss ! s) \<inter> set (xss ! t) = {})"

text \<open>The loop over shards that pops the first non-empty one.\<close>

fun sweep_pop :: "(u32 \<Rightarrow> u32) \<Rightarrow> u64 list \<Rightarrow> nat list \<Rightarrow> u32 option \<times> u64 list" where
  "sweep_pop nx hs [] = (None, hs)"
| "sweep_pop nx hs (s # ss) =
     (case treiber_pop (hs ! s) nx of
        (Some i, h) \<Rightarrow> (Some i, hs[s := h])
      | (None, _) \<Rightarrow> sweep_pop nx hs ss)"

lemma members_iff: "x \<in> members xss \<longleftrightarrow> (\<exists>s<length xss. x \<in> set (xss ! s))"
  by (auto simp: members_def set_conv_nth [of xss])

lemma shards_cong:
  assumes "\<And>x. x \<in> members xss \<Longrightarrow> nx x = ny x"
  shows "shards nx hs xss \<longleftrightarrow> shards ny hs xss"
proof -
  have "stack_of nx (hs ! s) (xss ! s) \<longleftrightarrow> stack_of ny (hs ! s) (xss ! s)" if "s < length xss" for s
    using assms that by (intro stack_of_cong) (auto simp: members_iff)
  then show ?thesis by (simp add: shards_def)
qed

lemma shards_disjoint:
  "shards nx hs xss \<Longrightarrow> s < length xss \<Longrightarrow> t < length xss \<Longrightarrow> x \<in> set (xss ! s) \<Longrightarrow> x \<in> set (xss ! t) \<Longrightarrow> s = t"
  unfolding shards_def by blast

lemma shards_unique:
  assumes "shards nx hs xss" and "shards nx hs yss"
  shows "xss = yss"
proof (rule nth_equalityI)
  show "length xss = length yss" using assms by (simp add: shards_def)
  show "xss ! s = yss ! s" if "s < length xss" for s
    using assms that unfolding shards_def by (metis stack_of_unique)
qed

lemma members_pop:
  assumes sh: "shards nx hs xss" and s: "s < length xss" and x: "xss ! s = x # xs"
  shows "members (xss[s := xs]) = members xss - {x}" and "x \<in> members xss"
proof -
  have d: "x \<notin> set xs" using sh s x by (auto simp: shards_def stack_of_def)
  have other: "x \<notin> set (xss ! t)" if "t < length xss" "t \<noteq> s" for t
    using shards_disjoint [OF sh s that(1), of x] that x by auto
  show "x \<in> members xss" using s x by (auto simp: members_iff)
  show "members (xss[s := xs]) = members xss - {x}"
  proof (intro set_eqI iffI)
    fix y assume "y \<in> members (xss[s := xs])"
    then obtain t where "t < length xss" "y \<in> set (xss[s := xs] ! t)" by (auto simp: members_iff)
    then show "y \<in> members xss - {x}" using x s d other by (cases "t = s") (auto simp: members_iff)
  next
    fix y assume "y \<in> members xss - {x}"
    then obtain t where t: "t < length xss" "y \<in> set (xss ! t)" "y \<noteq> x" by (auto simp: members_iff)
    then have "y \<in> set (xss[s := xs] ! t)" using x s by (cases "t = s") auto
    then show "y \<in> members (xss[s := xs])" using t(1) unfolding members_iff by auto
  qed
qed

lemma members_push: "s < length xss \<Longrightarrow> members (xss[s := x # xss ! s]) = insert x (members xss)"
proof (intro set_eqI iffI)
  fix y assume "s < length xss" and "y \<in> members (xss[s := x # xss ! s])"
  then obtain t where "t < length xss" "y \<in> set (xss[s := x # xss ! s] ! t)" by (auto simp: members_iff)
  then show "y \<in> insert x (members xss)" by (cases "t = s") (auto simp: members_iff)
next
  fix y assume s: "s < length xss" and "y \<in> insert x (members xss)"
  then consider "y = x" | t where "t < length xss" "y \<in> set (xss ! t)" by (auto simp: members_iff)
  then show "y \<in> members (xss[s := x # xss ! s])"
  proof cases
    case 1
    then show ?thesis using s unfolding members_iff by (auto intro!: exI [of _ s])
  next
    case (2 t)
    then have "y \<in> set (xss[s := x # xss ! s] ! t)" using s by (cases "t = s") auto
    then show ?thesis using 2 unfolding members_iff by auto
  qed
qed

lemma shards_pop:
  assumes sh: "shards nx hs xss" and s: "s < length xss" and x: "xss ! s = x # xs"
  obtains h where "treiber_pop (hs ! s) nx = (Some x, h)" and "shards nx (hs[s := h]) (xss[s := xs])"
proof -
  have st: "stack_of nx (hs ! s) (x # xs)" and len: "length hs = length xss"
    using sh s x by (auto simp: shards_def)
  let ?h = "head_pack (head_tag (hs ! s) + 1) (nx x)"
  have sub: "set (xss[s := xs] ! t) \<subseteq> set (xss ! t)" if "t < length xss" for t
    using x s by (cases "t = s") auto
  have "set (xss[s := xs] ! t) \<inter> set (xss[s := xs] ! u) = {}"
    if "t < length xss" "u < length xss" "t \<noteq> u" for t u
  proof -
    have "set (xss ! t) \<inter> set (xss ! u) = {}" using sh that by (simp add: shards_def)
    then show ?thesis using sub [OF that(1)] sub [OF that(2)] by blast
  qed
  moreover have "stack_of nx (hs[s := ?h] ! t) (xss[s := xs] ! t)" if "t < length xss" for t
    using sh that s len pop_Cons(2) [OF st] by (cases "t = s") (simp_all add: shards_def)
  ultimately have "shards nx (hs[s := ?h]) (xss[s := xs])"
    using len by (simp add: shards_def)
  then show thesis using that pop_Cons(1) [OF st] by blast
qed

lemma shards_pop_Nil:
  "shards nx hs xss \<Longrightarrow> s < length xss \<Longrightarrow> xss ! s = [] \<Longrightarrow> treiber_pop (hs ! s) nx = (None, hs ! s)"
  by (auto simp: shards_def)

lemma sweep_pop_spec:
  assumes sh: "shards nx hs xss" and ss: "\<forall>s\<in>set ss. s < length xss"
  shows "(sweep_pop nx hs ss = (None, hs) \<and> (\<forall>s\<in>set ss. xss ! s = []))
    \<or> (\<exists>s\<in>set ss. \<exists>x xs hs'. xss ! s = x # xs \<and> sweep_pop nx hs ss = (Some x, hs') \<and> shards nx hs' (xss[s := xs]))"
  using ss
proof (induction ss)
  case (Cons s ss)
  show ?case
  proof (cases "xss ! s")
    case Nil
    then show ?thesis using Cons shards_pop_Nil [OF sh, of s] by auto
  next
    case (Cons x xs)
    obtain h where "treiber_pop (hs ! s) nx = (Some x, h)" "shards nx (hs[s := h]) (xss[s := xs])"
      using shards_pop [OF sh _ Cons] \<open>\<forall>t\<in>set (s # ss). t < length xss\<close> by auto
    then show ?thesis using Cons by auto
  qed
qed simp

text \<open>The round-robin order visits every shard.\<close>

lemma rotation_covers:
  assumes "0 < (n :: nat)"
  shows "set (map (\<lambda>k. (home + k) mod n) [0..<n]) = {..<n}"
proof
  show "set (map (\<lambda>k. (home + k) mod n) [0..<n]) \<subseteq> {..<n}" using assms by auto
  show "{..<n} \<subseteq> set (map (\<lambda>k. (home + k) mod n) [0..<n])"
  proof
    fix s assume s: "s \<in> {..<n}"
    define k where "k = (s + n - home mod n) mod n"
    have "(home + k) mod n = (home mod n + (s + n - home mod n)) mod n"
      unfolding k_def by (metis mod_add_left_eq mod_add_right_eq)
    also have "home mod n + (s + n - home mod n) = s + n"
      using mod_less_divisor [OF assms, of home] by linarith
    finally have "(home + k) mod n = s" using s by simp
    moreover have "k < n" using assms by (simp add: k_def)
    ultimately show "s \<in> set (map (\<lambda>k. (home + k) mod n) [0..<n])" by force
  qed
qed

context intrusive_links
begin

lemma shards_push:
  assumes sh: "shards (rd m) hs xss" and nodes: "\<forall>y\<in>members xss. node m y"
    and x: "node m x" "x \<notin> members xss" and s: "s < length xss"
    and push: "treiber_push (hs ! s) x wr m = (h, m')"
  shows "shards (rd m') (hs[s := h]) (xss[s := x # xss ! s])"
proof -
  have len: "length hs = length xss" using sh by (simp add: shards_def)
  have st: "stack_of (rd m) (hs ! t) (xss ! t)" if "t < length xss" for t
    using sh that by (simp add: shards_def)
  have nd: "\<forall>y\<in>set (xss ! t). node m y" "x \<notin> set (xss ! t)" if "t < length xss" for t
    using nodes x that by (auto simp: members_iff)
  have "stack_of (rd m') h (x # xss ! s)"
    by (rule push_stack [OF st [OF s] nd(1) [OF s] x(1) nd(2) [OF s] push])
  moreover have "stack_of (rd m') (hs ! t) (xss ! t)" if "t < length xss" for t
    by (rule push_other [OF st [OF that] nd(1) [OF that] x(1) nd(2) [OF that] push])
  moreover have "set (xss ! t) \<inter> set (xss ! u) = {}" if "t < length xss" "u < length xss" "t \<noteq> u" for t u
    using sh that by (simp add: shards_def)
  ultimately show ?thesis
    using len nd(2) s by (auto simp: shards_def nth_list_update)
qed

lemma shards_push_other:
  assumes sh: "shards (rd m) hs xss" and nodes: "\<forall>y\<in>members xss. node m y"
    and x: "node m x" "x \<notin> members xss" and push: "treiber_push k x wr m = (h, m')"
  shows "shards (rd m') hs xss"
proof -
  have "m' = wr x (head_slot k) m"
    using push by (auto simp: treiber_push_def case_prod_beta Let_def)
  then have "rd m' y = rd m y" if "y \<in> members xss" for y
    using that nodes x by (auto simp: rd_wr)
  then show ?thesis using sh shards_cong [of xss "rd m'" "rd m" hs] by simp
qed

end

end
