(* ===== verification/Shm_Task.thy ===== *)
theory Shm_Task
  imports Shm_Shards Shm_Ring
begin

text \<open>
  \<^verbatim>\<open>crates/shm-task/src/{queue,error}.rs\<close>: the multi-producer multi-consumer task queue. The
  queue state is the mapped header, slot array and lease side table; a caller's thread-local
  shard cursor is passed along. Each operation runs to completion here (its compare-exchanges
  see no interference); doorbells and parking are not part of the state. This theory holds the
  data and the operations; \<open>Shm_Task_Inv\<close> their correctness.
\<close>

section \<open>Constants and errors\<close>

datatype task_error =
    TCore shm_error
  | TBadCapacity u32
  | TRegionTooSmall nat nat
  | TMisaligned
  | TBadMagic
  | QueueFull
  | StaleHandle
  | Lost
  | LeaseTableFull
  | NotTerminal

definition TASK_MAGIC :: u64 where "TASK_MAGIC = from_le_bytes (ascii ''SHMTASK4'')"
definition STACK_NIL :: u32 where "STACK_NIL = 0xffffffff"

definition pack_stack_head :: "u32 \<Rightarrow> u32 \<Rightarrow> u64" where
  "pack_stack_head idx tag = push_bit 32 (ucast tag) OR ucast idx"

definition TEMPTY :: u32 where "TEMPTY = 0"
definition QUEUED :: u32 where "QUEUED = 1"
definition CLAIMED :: u32 where "CLAIMED = 2"
definition DONE :: u32 where "DONE = 3"
definition FAILED :: u32 where "FAILED = 4"
definition CANCELLED :: u32 where "CANCELLED = 5"
definition RESERVED :: u32 where "RESERVED = 6"
definition COMPLETING :: u32 where "COMPLETING = 7"
definition TOWNER_NONE :: u32 where "TOWNER_NONE = 0"
definition DEFAULT_MAX_RETRIES :: u32 where "DEFAULT_MAX_RETRIES = 3"
definition DRAIN_DIG :: nat where "DRAIN_DIG = 4"
definition SHARDS :: nat where "SHARDS = 8"

lemmas task_states = TEMPTY_def QUEUED_def CLAIMED_def DONE_def FAILED_def CANCELLED_def
  RESERVED_def COMPLETING_def

section \<open>Slots and lease records\<close>

record task_slot =
  tstate :: u32
  towner :: u32
  tseq :: u64
  tdeadline :: u64
  tretry :: u32
  tcancel :: u32
  tnext :: u32
  trequest :: chunk_desc
  tresult :: chunk_desc

definition cas_state :: "u32 \<Rightarrow> u32 \<Rightarrow> task_slot \<Rightarrow> bool \<times> task_slot" where
  "cas_state old new s =
     (case compare_exchange (tstate s) old new of (ok, v) \<Rightarrow> (ok, s\<lparr>tstate := v\<rparr>))"

definition try_claim :: "task_slot \<Rightarrow> bool \<times> task_slot" where
  "try_claim = cas_state QUEUED CLAIMED"

definition try_begin_complete :: "task_slot \<Rightarrow> bool \<times> task_slot" where
  "try_begin_complete = cas_state CLAIMED COMPLETING"

definition try_begin_reap_requeue :: "task_slot \<Rightarrow> bool \<times> task_slot" where
  "try_begin_reap_requeue = cas_state CLAIMED RESERVED"

definition try_fail :: "task_slot \<Rightarrow> bool \<times> task_slot" where
  "try_fail = cas_state CLAIMED FAILED"

definition try_cancel_queued :: "task_slot \<Rightarrow> bool \<times> task_slot" where
  "try_cancel_queued = cas_state QUEUED CANCELLED"

definition LEASE_NONE :: u32 where "LEASE_NONE = 0"
definition LEASE_ARMED :: u32 where "LEASE_ARMED = 1"
definition LEASE_RELEASED :: u32 where "LEASE_RELEASED = 2"
definition LEASE_ACKED :: u32 where "LEASE_ACKED = 3"

lemmas lease_states = LEASE_NONE_def LEASE_ARMED_def LEASE_RELEASED_def LEASE_ACKED_def

definition pack_lease_word :: "u32 \<Rightarrow> u32 \<Rightarrow> u64" where
  "pack_lease_word gen st = push_bit 32 (ucast gen) OR ucast st"

definition lease_word_gen :: "u64 \<Rightarrow> u32" where
  "lease_word_gen v = ucast (drop_bit 32 v)"

definition lease_word_state :: "u64 \<Rightarrow> u32" where
  "lease_word_state v = ucast v"

record lease_binding =
  lb_artifact_id :: u32
  lb_incarnation :: u32
  lb_version :: u64

record lease_slot =
  lword :: u64
  lversion :: u64
  lseq :: u64
  ldeadline :: u64
  lartifact_id :: u32
  lincarnation :: u32
  lslot_idx :: u32
  lnext :: u32

definition arm :: "lease_binding \<Rightarrow> u32 \<Rightarrow> u64 \<Rightarrow> u64 \<Rightarrow> lease_slot \<Rightarrow> lease_slot" where
  "arm b idx sq dl l =
     (let l' = l\<lparr>lversion := lb_version b, lseq := sq, ldeadline := dl, lartifact_id := lb_artifact_id b,
                 lincarnation := lb_incarnation b, lslot_idx := idx\<rparr>
      in l'\<lparr>lword := pack_lease_word (lease_word_gen (lword l') + 1) LEASE_ARMED\<rparr>)"

definition try_ack :: "u64 \<Rightarrow> lease_slot \<Rightarrow> bool \<times> lease_slot" where
  "try_ack observed l =
     (case compare_exchange (lword l) observed (pack_lease_word (lease_word_gen observed) LEASE_ACKED)
      of (ok, v) \<Rightarrow> (ok, l\<lparr>lword := v\<rparr>))"

definition try_release :: "u64 \<Rightarrow> lease_slot \<Rightarrow> bool \<times> lease_slot" where
  "try_release observed l =
     (case compare_exchange (lword l) observed (pack_lease_word (lease_word_gen observed) LEASE_RELEASED)
      of (ok, v) \<Rightarrow> (ok, l\<lparr>lword := v\<rparr>))"

definition retire :: "lease_slot \<Rightarrow> lease_slot" where
  "retire l = l\<lparr>lword := pack_lease_word (lease_word_gen (lword l)) LEASE_NONE\<rparr>"

section \<open>The queue\<close>

record task_queue =
  tq_magic :: u64
  tq_capacity :: nat
  cancelled :: u32
  max_retries :: u32
  lease_free_head :: u64
  free_heads :: "u64 list"
  ready_heads :: "u64 list"
  tslots :: "task_slot list"
  leases :: "lease_slot list"

text \<open>The thread-local cursor, and the address it is seeded from on first use.\<close>

record shard_cursor =
  sc_val :: u32
  sc_seed :: u32

definition next_shard :: "shard_cursor \<Rightarrow> nat \<times> shard_cursor" where
  "next_shard c =
     (let v = (if sc_val c = 0 then sc_seed c OR 1 else sc_val c)
      in (unat v mod SHARDS, c\<lparr>sc_val := v + 1\<rparr>))"

definition tslots_offset :: nat where "tslots_offset = align_up 1088 64"

definition lease_table_offset :: "u32 \<Rightarrow> nat" where
  "lease_table_offset cap = align_up (tslots_offset + unat cap * 128) 64"

text \<open>\<^verbatim>\<open>saturating_mul(2)\<close>.\<close>

definition lease_capacity :: "u32 \<Rightarrow> u32" where
  "lease_capacity cap = (if unat cap * 2 < 2 ^ 32 then cap * 2 else - 1)"

definition task_required_bytes :: "u32 \<Rightarrow> nat" where
  "task_required_bytes cap = lease_table_offset cap + unat (lease_capacity cap) * 48"

definition fresh_slot :: "u32 \<Rightarrow> task_slot" where
  "fresh_slot nx = \<lparr>tstate = TEMPTY, towner = TOWNER_NONE, tseq = 0, tdeadline = 0, tretry = 0, tcancel = 0,
     tnext = nx, trequest = ZERO_desc, tresult = ZERO_desc\<rparr>"

definition fresh_lease :: "u32 \<Rightarrow> lease_slot" where
  "fresh_lease nx = \<lparr>lword = pack_lease_word 0 LEASE_NONE, lversion = 0, lseq = 0, ldeadline = 0,
     lartifact_id = 0, lincarnation = 0, lslot_idx = 0, lnext = nx\<rparr>"

definition seed_next :: "nat \<Rightarrow> nat \<Rightarrow> u32" where
  "seed_next n i = (if i + 1 < n then of_nat (i + 1) else STACK_NIL)"

definition task_init_with_max_retries :: "nat \<Rightarrow> nat \<Rightarrow> u32 \<Rightarrow> u32 \<Rightarrow> task_error + task_queue" where
  "task_init_with_max_retries base region_len cap maxr =
     (if cap = 0 \<or> \<not> is_power_of_two cap then Inl (TBadCapacity cap)
      else if base mod 8 \<noteq> 0 then Inl TMisaligned
      else let need = task_required_bytes cap in
      if region_len < need then Inl (TRegionTooSmall need region_len)
      else Inr
        \<lparr>tq_magic = TASK_MAGIC, tq_capacity = unat cap, cancelled = 0, max_retries = maxr,
         lease_free_head = pack_stack_head 0 0,
         free_heads = map (\<lambda>i. pack_stack_head (if i = 0 then 0 else STACK_NIL) 0) [0..<SHARDS],
         ready_heads = map (\<lambda>_. pack_stack_head STACK_NIL 0) [0..<SHARDS],
         tslots = map (\<lambda>i. fresh_slot (seed_next (unat cap) i)) [0..<unat cap],
         leases = map (\<lambda>i. fresh_lease (seed_next (unat (lease_capacity cap)) i)) [0..<unat (lease_capacity cap)]\<rparr>)"

definition task_init :: "nat \<Rightarrow> nat \<Rightarrow> u32 \<Rightarrow> task_error + task_queue" where
  "task_init base region_len cap = task_init_with_max_retries base region_len cap DEFAULT_MAX_RETRIES"

text \<open>\<^verbatim>\<open>attach\<close>: \<open>q\<close> is what the region holds, its capacity the one of the header.\<close>

definition task_attach :: "nat \<Rightarrow> nat \<Rightarrow> task_queue \<Rightarrow> task_error + task_queue" where
  "task_attach base region_len q =
     (if base mod 8 \<noteq> 0 then Inl TMisaligned
      else if region_len < 1088 then Inl (TRegionTooSmall 1088 region_len)
      else if tq_magic q \<noteq> TASK_MAGIC then Inl TBadMagic
      else let need = task_required_bytes (of_nat (tq_capacity q)) in
      if region_len < need then Inl (TRegionTooSmall need region_len)
      else Inr q)"

section \<open>The FREE, READY and lease stacks\<close>

definition slot_link :: "task_slot list \<Rightarrow> u32 \<Rightarrow> u32" where
  "slot_link sl i = tnext (sl ! unat i)"

definition set_slot_link :: "u32 \<Rightarrow> u32 \<Rightarrow> task_slot list \<Rightarrow> task_slot list" where
  "set_slot_link i nx sl = sl[unat i := (sl ! unat i)\<lparr>tnext := nx\<rparr>]"

definition lease_link :: "lease_slot list \<Rightarrow> u32 \<Rightarrow> u32" where
  "lease_link ls i = lnext (ls ! unat i)"

definition set_lease_link :: "u32 \<Rightarrow> u32 \<Rightarrow> lease_slot list \<Rightarrow> lease_slot list" where
  "set_lease_link i nx ls = ls[unat i := (ls ! unat i)\<lparr>lnext := nx\<rparr>]"

definition set_slot :: "nat \<Rightarrow> task_slot \<Rightarrow> task_queue \<Rightarrow> task_queue" where
  "set_slot i s q = q\<lparr>tslots := (tslots q)[i := s]\<rparr>"

definition pop_free :: "task_queue \<Rightarrow> shard_cursor \<Rightarrow> u32 option \<times> task_queue \<times> shard_cursor" where
  "pop_free q c =
     (let (home, c') = next_shard c;
          (r, hs) = sweep_pop (slot_link (tslots q)) (free_heads q)
                      (map (\<lambda>k. (home + k) mod SHARDS) [0..<SHARDS])
      in (r, q\<lparr>free_heads := hs\<rparr>, c'))"

definition push_free :: "task_queue \<Rightarrow> shard_cursor \<Rightarrow> u32 \<Rightarrow> task_queue \<times> shard_cursor" where
  "push_free q c i =
     (let (s, c') = next_shard c;
          (h, sl) = treiber_push (free_heads q ! s) i set_slot_link (tslots q)
      in (q\<lparr>free_heads := (free_heads q)[s := h], tslots := sl\<rparr>, c'))"

definition push_ready :: "task_queue \<Rightarrow> nat \<Rightarrow> u32 \<Rightarrow> task_queue" where
  "push_ready q s i =
     (let (h, sl) = treiber_push (ready_heads q ! s) i set_slot_link (tslots q)
      in q\<lparr>ready_heads := (ready_heads q)[s := h], tslots := sl\<rparr>)"

text \<open>\<^verbatim>\<open>publish_queued\<close>: store QUEUED, then push onto READY.\<close>

definition publish_queued :: "task_queue \<Rightarrow> nat \<Rightarrow> u32 \<Rightarrow> task_queue" where
  "publish_queued q s i =
     push_ready (set_slot (unat i) ((tslots q ! unat i)\<lparr>tstate := QUEUED\<rparr>) q) s i"

definition pop_lease :: "task_queue \<Rightarrow> u32 option \<times> task_queue" where
  "pop_lease q = (case treiber_pop (lease_free_head q) (lease_link (leases q)) of
     (r, h) \<Rightarrow> (r, q\<lparr>lease_free_head := h\<rparr>))"

definition push_lease :: "task_queue \<Rightarrow> u32 \<Rightarrow> task_queue" where
  "push_lease q i = (case treiber_push (lease_free_head q) i set_lease_link (leases q) of
     (h, ls) \<Rightarrow> q\<lparr>lease_free_head := h, leases := ls\<rparr>)"

definition release_lease_record :: "task_queue \<Rightarrow> nat \<Rightarrow> u64 \<Rightarrow> lease_binding option \<times> task_queue" where
  "release_lease_record q i observed =
     (case try_release observed (leases q ! i) of
        (False, _) \<Rightarrow> (None, q)
      | (True, l) \<Rightarrow>
          let b = \<lparr>lb_artifact_id = lartifact_id l, lb_incarnation = lincarnation l, lb_version = lversion l\<rparr>;
              q' = q\<lparr>leases := (leases q)[i := retire l]\<rparr>
          in (Some b, push_lease q' (of_nat i)))"

section \<open>Submitting\<close>

text \<open>
  The queue-full recovery: dig through at most \<open>DRAIN_DIG\<close> nodes of a READY shard for a
  CANCELLED one, holding the live ones aside, then push those back in reverse order.
\<close>

fun dig :: "nat \<Rightarrow> task_queue \<Rightarrow> nat \<Rightarrow> u32 list \<Rightarrow> u32 option \<times> u32 list \<times> task_queue" where
  "dig 0 q s hld = (None, hld, q)"
| "dig (Suc n) q s hld =
     (case treiber_pop (ready_heads q ! s) (slot_link (tslots q)) of
        (None, _) \<Rightarrow> (None, hld, q)
      | (Some i, h) \<Rightarrow>
          let q1 = q\<lparr>ready_heads := (ready_heads q)[s := h]\<rparr> in
          (case cas_state CANCELLED RESERVED (tslots q1 ! unat i) of
             (True, sl) \<Rightarrow> (Some i, hld, (set_slot (unat i) sl q1)\<lparr>cancelled := cancelled q1 - 1\<rparr>)
           | (False, _) \<Rightarrow> dig n q1 s (hld @ [i])))"

definition put_back :: "task_queue \<Rightarrow> nat \<Rightarrow> u32 list \<Rightarrow> task_queue" where
  "put_back q s hld = fold (\<lambda>i q. push_ready q s i) (rev hld) q"

fun drain :: "task_queue \<Rightarrow> nat list \<Rightarrow> u32 option \<times> task_queue" where
  "drain q [] = (None, q)"
| "drain q (s # ss) =
     (if cancelled q = 0 \<or> unat (cancelled q) > tq_capacity q then (None, q)
      else let (found, hld, q1) = dig DRAIN_DIG q s [];
               q2 = put_back q1 s hld
           in case found of Some i \<Rightarrow> (Some i, q2) | None \<Rightarrow> drain q2 ss)"

text \<open>The pop is the reservation: the popped slot is stored RESERVED.\<close>

definition pop_free_reserve :: "task_queue \<Rightarrow> shard_cursor \<Rightarrow> u32 option \<times> task_queue \<times> shard_cursor" where
  "pop_free_reserve q c =
     (case pop_free q c of
        (Some i, q', c') \<Rightarrow> (Some i, set_slot (unat i) ((tslots q' ! unat i)\<lparr>tstate := RESERVED\<rparr>) q', c')
      | (None, q', c') \<Rightarrow> (None, q', c'))"

definition reserve_cancelled_ready :: "task_queue \<Rightarrow> shard_cursor \<Rightarrow> u32 option \<times> task_queue \<times> shard_cursor" where
  "reserve_cancelled_ready q c =
     (case drain q [0..<SHARDS] of
        (Some i, q') \<Rightarrow> (Some i, q', c)
      | (None, q') \<Rightarrow> pop_free_reserve q' c)"

definition reserve_submit_slot :: "task_queue \<Rightarrow> shard_cursor \<Rightarrow> u32 option \<times> task_queue \<times> shard_cursor" where
  "reserve_submit_slot q c =
     (case pop_free_reserve q c of
        (Some i, q', c') \<Rightarrow> (Some i, q', c')
      | (None, q', c') \<Rightarrow> reserve_cancelled_ready q' c')"

record task_handle =
  slot_idx :: u32
  hseq :: u64

text \<open>Filling the reserved slot: fresh incarnation first, then the fields.\<close>

definition fill_slot :: "chunk_desc \<Rightarrow> u64 \<Rightarrow> task_slot \<Rightarrow> task_slot" where
  "fill_slot request dl s =
     s\<lparr>tseq := tseq s + 1, towner := TOWNER_NONE, tretry := 0, tcancel := 0, tdeadline := dl,
       trequest := request, tresult := ZERO_desc\<rparr>"

definition submit_inner ::
  "task_queue \<Rightarrow> shard_cursor \<Rightarrow> chunk_desc \<Rightarrow> u64 \<Rightarrow> lease_binding option
     \<Rightarrow> (task_error + task_handle) \<times> task_queue \<times> shard_cursor" where
  "submit_inner q c request dl input =
     (let (li, q0) = (case input of Some _ \<Rightarrow> pop_lease q | None \<Rightarrow> (None, q)) in
      if input \<noteq> None \<and> li = None then (Inl LeaseTableFull, q0, c)
      else case reserve_submit_slot q0 c of
        (None, q1, c1) \<Rightarrow>
          (Inl QueueFull, (case li of Some k \<Rightarrow> push_lease q1 k | None \<Rightarrow> q1), c1)
      | (Some i, q1, c1) \<Rightarrow>
          let sl = fill_slot request dl (tslots q1 ! unat i);
              q2 = set_slot (unat i) sl q1;
              q3 = (case (input, li) of
                      (Some b, Some k) \<Rightarrow>
                        q2\<lparr>leases := (leases q2)[unat k := arm b i (tseq sl) dl (leases q2 ! unat k)]\<rparr>
                    | _ \<Rightarrow> q2);
              (s, c2) = next_shard c1
          in (Inr \<lparr>slot_idx = i, hseq = tseq sl\<rparr>, publish_queued q3 s i, c2))"

definition submit ::
  "task_queue \<Rightarrow> shard_cursor \<Rightarrow> chunk_desc \<Rightarrow> u64 \<Rightarrow> (task_error + task_handle) \<times> task_queue \<times> shard_cursor" where
  "submit q c request dl = submit_inner q c request dl None"

definition submit_with_binding ::
  "task_queue \<Rightarrow> shard_cursor \<Rightarrow> chunk_desc \<Rightarrow> u64 \<Rightarrow> lease_binding
     \<Rightarrow> (task_error + task_handle) \<times> task_queue \<times> shard_cursor" where
  "submit_with_binding q c request dl b = submit_inner q c request dl (Some b)"

section \<open>Claiming\<close>

text \<open>
  \<^verbatim>\<open>claim_pop\<close> on one shard: pop READY until a claim succeeds, moving each cancelled node to
  the shard's FREE stack. \<open>None\<close> is "does not return" (a corrupt stack).
\<close>

partial_function (option) claim_pop :: "task_queue \<Rightarrow> nat \<Rightarrow> (u32 option \<times> task_queue) option" where
  "claim_pop q s =
     (case treiber_pop (ready_heads q ! s) (slot_link (tslots q)) of
        (None, _) \<Rightarrow> Some (None, q)
      | (Some i, h) \<Rightarrow>
          let q1 = q\<lparr>ready_heads := (ready_heads q)[s := h]\<rparr> in
          case try_claim (tslots q1 ! unat i) of
            (won, sl) \<Rightarrow>
              if won then Some (Some i, set_slot (unat i) sl q1)
              else let (fh, sls) = treiber_push (free_heads q1 ! s) i set_slot_link (tslots q1)
                   in claim_pop (q1\<lparr>free_heads := (free_heads q1)[s := fh], tslots := sls,
                                    cancelled := cancelled q1 - 1\<rparr>) s)"

fun claim_sweep :: "task_queue \<Rightarrow> nat list \<Rightarrow> (u32 option \<times> task_queue) option" where
  "claim_sweep q [] = Some (None, q)"
| "claim_sweep q (s # ss) =
     (case claim_pop q s of
        None \<Rightarrow> None
      | Some (Some i, q') \<Rightarrow> Some (Some i, q')
      | Some (None, q') \<Rightarrow> claim_sweep q' ss)"

record claimed_task =
  ct_idx :: nat
  ct_seq :: u64
  ct_worker :: u32
  ct_request :: chunk_desc

definition claim_order :: "u32 \<Rightarrow> nat list" where
  "claim_order worker =
     (let home = unat worker mod SHARDS;
          stride = 1 + 2 * (unat worker mod (SHARDS div 2))
      in map (\<lambda>k. (home + k * stride) mod SHARDS) [0..<SHARDS])"

definition claim_inner :: "task_queue \<Rightarrow> u32 \<Rightarrow> u64 option \<Rightarrow> (claimed_task option \<times> task_queue) option" where
  "claim_inner q worker dl =
     (case claim_sweep q (claim_order worker) of
        None \<Rightarrow> None
      | Some (None, q') \<Rightarrow> Some (None, q')
      | Some (Some i, q') \<Rightarrow>
          let s = (tslots q' ! unat i)\<lparr>towner := worker\<rparr>;
              s' = (case dl of Some d \<Rightarrow> s\<lparr>tdeadline := d\<rparr> | None \<Rightarrow> s)
          in Some (Some \<lparr>ct_idx = unat i, ct_seq = tseq s', ct_worker = worker, ct_request = trequest s'\<rparr>,
                   set_slot (unat i) s' q'))"

definition claim :: "task_queue \<Rightarrow> u32 \<Rightarrow> (claimed_task option \<times> task_queue) option" where
  "claim q worker = claim_inner q worker None"

definition claim_with_lease :: "task_queue \<Rightarrow> u32 \<Rightarrow> u64 \<Rightarrow> (claimed_task option \<times> task_queue) option" where
  "claim_with_lease q worker dl = claim_inner q worker (Some dl)"

section \<open>Polling, cancelling, completing\<close>

datatype task_status = SQueued | SClaimed | SDone chunk_desc | SFailed | SCancelled

definition poll :: "task_queue \<Rightarrow> task_handle \<Rightarrow> task_error + task_status" where
  "poll q h =
     (let i = unat (slot_idx h) in
      if i \<ge> tq_capacity q then Inl StaleHandle
      else let s = tslots q ! i in
      if tseq s \<noteq> hseq h then Inl StaleHandle
      else if tstate s = QUEUED \<or> tstate s = RESERVED then Inr SQueued
      else if tstate s = CLAIMED \<or> tstate s = COMPLETING then Inr SClaimed
      else if tstate s = DONE then Inr (SDone (tresult s))
      else if tstate s = FAILED then Inr SFailed
      else if tstate s = CANCELLED then Inr SCancelled
      else Inl StaleHandle)"

definition cancel :: "task_queue \<Rightarrow> task_handle \<Rightarrow> (task_error + unit) \<times> task_queue" where
  "cancel q h =
     (let i = unat (slot_idx h) in
      if i \<ge> tq_capacity q then (Inl StaleHandle, q)
      else let s = tslots q ! i in
      if tseq s \<noteq> hseq h then (Inl StaleHandle, q)
      else let q1 = q\<lparr>cancelled := cancelled q + 1\<rparr> in
        case try_cancel_queued s of
          (True, s') \<Rightarrow> (Inr (), set_slot i s' q1)
        | (False, _) \<Rightarrow>
            let q2 = q1\<lparr>cancelled := cancelled q1 - 1\<rparr> in
            if tstate s = CLAIMED \<and> tseq s = hseq h
            then (Inr (), set_slot i (s\<lparr>tcancel := 1\<rparr>) q2) else (Inr (), q2))"

definition task_attempt :: "task_queue \<Rightarrow> claimed_task \<Rightarrow> u32" where
  "task_attempt q t = tretry (tslots q ! ct_idx t)"

definition task_is_cancelled :: "task_queue \<Rightarrow> claimed_task \<Rightarrow> bool" where
  "task_is_cancelled q t \<longleftrightarrow> tcancel (tslots q ! ct_idx t) \<noteq> 0"

definition bind_output :: "task_queue \<Rightarrow> claimed_task \<Rightarrow> lease_binding \<Rightarrow> (task_error + unit) \<times> task_queue" where
  "bind_output q t b =
     (case pop_lease q of
        (None, q') \<Rightarrow> (Inl LeaseTableFull, q')
      | (Some k, q') \<Rightarrow>
          let dl = tdeadline (tslots q' ! ct_idx t) in
          (Inr (), q'\<lparr>leases := (leases q')[unat k :=
             arm b (of_nat (ct_idx t)) (ct_seq t) dl (leases q' ! unat k)]\<rparr>))"

definition complete ::
  "task_queue \<Rightarrow> shard_cursor \<Rightarrow> claimed_task \<Rightarrow> chunk_desc \<Rightarrow> (task_error + unit) \<times> task_queue \<times> shard_cursor" where
  "complete q c t res =
     (let s = tslots q ! ct_idx t in
      if tseq s \<noteq> ct_seq t then (Inl StaleHandle, q, c)
      else case try_begin_complete s of
        (False, _) \<Rightarrow> (Inl Lost, q, c)
      | (True, s1) \<Rightarrow>
          let (q', c') = push_free (set_slot (ct_idx t) (s1\<lparr>tresult := res, tstate := DONE\<rparr>) q) c (of_nat (ct_idx t))
          in (Inr (), q', c'))"

definition fail :: "task_queue \<Rightarrow> shard_cursor \<Rightarrow> claimed_task \<Rightarrow> (task_error + unit) \<times> task_queue \<times> shard_cursor" where
  "fail q c t =
     (let s = tslots q ! ct_idx t in
      if tseq s \<noteq> ct_seq t then (Inl StaleHandle, q, c)
      else case try_fail s of
        (False, _) \<Rightarrow> (Inl Lost, q, c)
      | (True, s1) \<Rightarrow>
          let (q', c') = push_free (set_slot (ct_idx t) s1 q) c (of_nat (ct_idx t)) in (Inr (), q', c'))"

section \<open>Reaping\<close>

record reap_report =
  requeued :: u32
  rfailed :: u32

definition reap_slot ::
  "u64 \<Rightarrow> nat \<Rightarrow> task_queue \<times> shard_cursor \<times> reap_report \<Rightarrow> task_queue \<times> shard_cursor \<times> reap_report" where
  "reap_slot now i st =
     (case st of (q, c, rep) \<Rightarrow>
      let s = tslots q ! i in
      if tstate s \<noteq> CLAIMED then (q, c, rep)
      else if tdeadline s \<ge> now then (q, c, rep)
      else if tretry s \<ge> max_retries q then
        (case try_fail s of
           (True, s1) \<Rightarrow>
             let (q', c') = push_free (set_slot i s1 q) c (of_nat i) in (q', c', rep\<lparr>rfailed := rfailed rep + 1\<rparr>)
         | (False, _) \<Rightarrow> (q, c, rep))
      else
        (case try_begin_reap_requeue s of
           (True, s1) \<Rightarrow>
             let q1 = set_slot i (s1\<lparr>tretry := tretry s + 1, towner := TOWNER_NONE\<rparr>) q
             in (publish_queued q1 (i mod SHARDS) (of_nat i), c, rep\<lparr>requeued := requeued rep + 1\<rparr>)
         | (False, _) \<Rightarrow> (q, c, rep)))"

definition reap :: "task_queue \<Rightarrow> shard_cursor \<Rightarrow> u64 \<Rightarrow> task_queue \<times> shard_cursor \<times> reap_report" where
  "reap q c now = fold (reap_slot now) [0..<tq_capacity q] (q, c, \<lparr>requeued = 0, rfailed = 0\<rparr>)"

definition ack_record :: "task_handle \<Rightarrow> nat \<Rightarrow> task_queue \<times> nat \<Rightarrow> task_queue \<times> nat" where
  "ack_record h i st =
     (case st of (q, n) \<Rightarrow>
      let l = leases q ! i; v = lword l in
      if lease_word_state v \<noteq> LEASE_ARMED then (q, n)
      else if lslot_idx l \<noteq> slot_idx h \<or> lseq l \<noteq> hseq h then (q, n)
      else case try_ack v l of
          (True, l') \<Rightarrow> (q\<lparr>leases := (leases q)[i := l']\<rparr>, n + 1)
        | (False, _) \<Rightarrow> (q, n))"

definition ack :: "task_queue \<Rightarrow> task_handle \<Rightarrow> (task_error + nat) \<times> task_queue" where
  "ack q h =
     (let i = unat (slot_idx h) in
      if i \<ge> tq_capacity q then (Inl StaleHandle, q)
      else let s = tslots q ! i in
      if tseq s = hseq h \<and> tstate s \<noteq> DONE \<and> tstate s \<noteq> FAILED \<and> tstate s \<noteq> CANCELLED
      then (Inl NotTerminal, q)
      else case fold (ack_record h) [0..<length (leases q)] (q, 0) of (q', n) \<Rightarrow> (Inr n, q'))"

text \<open>\<^verbatim>\<open>u64::saturating_add\<close>.\<close>

definition saturating_add :: "u64 \<Rightarrow> u64 \<Rightarrow> u64" where
  "saturating_add a b = (if unat a + unat b < 2 ^ 64 then a + b else - 1)"

definition releasable :: "task_queue \<Rightarrow> u64 \<Rightarrow> u64 \<Rightarrow> lease_slot \<Rightarrow> bool" where
  "releasable q now grace l =
     (if lease_word_state (lword l) = LEASE_ACKED then True
      else if lease_word_state (lword l) \<noteq> LEASE_ARMED then False
      else if now \<le> saturating_add (ldeadline l) grace then False
      else let i = unat (lslot_idx l) in
        \<not> (i < tq_capacity q \<and> tseq (tslots q ! i) = lseq l
           \<and> (tstate (tslots q ! i) = QUEUED \<or> tstate (tslots q ! i) = CLAIMED \<or> tstate (tslots q ! i) = COMPLETING)))"

definition reap_binding ::
  "u64 \<Rightarrow> u64 \<Rightarrow> nat \<Rightarrow> task_queue \<times> lease_binding list \<Rightarrow> task_queue \<times> lease_binding list" where
  "reap_binding now grace i st =
     (case st of (q, out) \<Rightarrow>
      let l = leases q ! i in
      if releasable q now grace l then
        (case release_lease_record q i (lword l) of
           (Some b, q') \<Rightarrow> (q', out @ [b])
         | (None, q') \<Rightarrow> (q', out))
      else (q, out))"

definition reap_bindings :: "task_queue \<Rightarrow> u64 \<Rightarrow> u64 \<Rightarrow> task_queue \<times> lease_binding list" where
  "reap_bindings q now grace = fold (reap_binding now grace) [0..<length (leases q)] (q, [])"

end
