(* ===== verification/Shm_Task_Inv.thy ===== *)
theory Shm_Task_Inv
  imports Shm_Task
begin

text \<open>
  Correctness of the task queue (\<^verbatim>\<open>crates/shm-task/src/queue.rs\<close>). The invariant is the
  single-membership discipline of the slots: every slot is on exactly one FREE shard, on exactly
  one READY shard, or held. Shown: every operation keeps it; a claim returns a queued task
  exactly once and comes back empty only if none is queued; a submit hands out a reusable slot
  under a fresh incarnation; outcomes reach the holder of the handle; lapsed claims are retried
  a bounded number of times; a binding is released exactly once.
\<close>

interpretation slot_links: intrusive_links slot_link set_slot_link
  "\<lambda>sl x. unat x < length sl \<and> x \<noteq> EMPTY"
proof
  fix sl :: "task_slot list" and a b v :: u32
  assume "unat a < length sl \<and> a \<noteq> EMPTY" "unat b < length sl \<and> b \<noteq> EMPTY"
  moreover have "unat a = unat b \<longleftrightarrow> a = b" by (simp add: word_unat_eq_iff)
  ultimately show "slot_link (set_slot_link a v sl) b = (if b = a then v else slot_link sl b)"
    by (auto simp: slot_link_def set_slot_link_def)
qed (simp_all add: set_slot_link_def)

interpretation lease_links: intrusive_links lease_link set_lease_link
  "\<lambda>ls x. unat x < length ls \<and> x \<noteq> EMPTY"
proof
  fix ls :: "lease_slot list" and a b v :: u32
  assume "unat a < length ls \<and> a \<noteq> EMPTY" "unat b < length ls \<and> b \<noteq> EMPTY"
  moreover have "unat a = unat b \<longleftrightarrow> a = b" by (simp add: word_unat_eq_iff)
  ultimately show "lease_link (set_lease_link a v ls) b = (if b = a then v else lease_link ls b)"
    by (auto simp: lease_link_def set_lease_link_def)
qed (simp_all add: set_lease_link_def)

text \<open>The generation and state halves of a lease word are an instance of the packed pair.\<close>

interpretation lw: packed_word pack_lease_word lease_word_gen lease_word_state
proof -
  have "pack_lease_word = pack_halves" "lease_word_gen = high_half" "lease_word_state = low_half"
    by (simp_all add: fun_eq_iff pack_lease_word_def pack_halves_def lease_word_gen_def high_half_def
        lease_word_state_def low_half_def)
  then show "packed_word pack_lease_word lease_word_gen lease_word_state"
    by (simp add: halves.packed_word_axioms)
qed

section \<open>The invariant\<close>

abbreviation slot_of :: "task_queue \<Rightarrow> u32 \<Rightarrow> task_slot" where
  "slot_of q x \<equiv> tslots q ! unat x"

definition state_ok :: "bool \<Rightarrow> bool \<Rightarrow> u32 \<Rightarrow> bool" where
  "state_ok in_free in_ready st =
     (if in_free then st = TEMPTY \<or> st = DONE \<or> st = FAILED \<or> st = CANCELLED
      else if in_ready then st = QUEUED \<or> st = CANCELLED
      else st = CLAIMED)"

text \<open>Slots in \<open>H\<close> are in the hands of an operation under way and on no stack.\<close>

definition queue_inv :: "u32 set \<Rightarrow> task_queue \<Rightarrow> u32 list list \<Rightarrow> u32 list list \<Rightarrow> bool" where
  "queue_inv H q fs rs \<longleftrightarrow>
     length (tslots q) = tq_capacity q \<and> 0 < tq_capacity q \<and> tq_capacity q < 2 ^ 32
   \<and> length fs = SHARDS \<and> length rs = SHARDS
   \<and> shards (slot_link (tslots q)) (free_heads q) fs
   \<and> shards (slot_link (tslots q)) (ready_heads q) rs
   \<and> members fs \<inter> members rs = {} \<and> H \<inter> (members fs \<union> members rs) = {}
   \<and> (\<forall>x\<in>members fs \<union> members rs \<union> H. unat x < tq_capacity q)
   \<and> (\<forall>x. unat x < tq_capacity q \<longrightarrow> x \<notin> H \<longrightarrow>
        state_ok (x \<in> members fs) (x \<in> members rs) (tstate (slot_of q x)))
   \<and> unat (cancelled q) = card {x \<in> members rs. tstate (slot_of q x) = CANCELLED}"

lemma not_EMPTY: "unat (x :: u32) < n \<Longrightarrow> n < 2 ^ 32 \<Longrightarrow> x \<noteq> EMPTY"
  by (auto simp: EMPTY_def)

lemma inv_node:
  assumes "queue_inv H q fs rs" and "x \<in> members fs \<union> members rs \<union> H"
  shows "unat x < length (tslots q) \<and> x \<noteq> EMPTY"
  using assms not_EMPTY [of x "tq_capacity q"] unfolding queue_inv_def by auto

text \<open>What an operation may leave unchanged: all data of the slots outside \<open>X\<close>, and the rest.\<close>

definition slot_data :: "task_slot \<Rightarrow> task_slot" where
  "slot_data s = s\<lparr>tnext := 0\<rparr>"

definition frame :: "u32 set \<Rightarrow> task_queue \<Rightarrow> task_queue \<Rightarrow> bool" where
  "frame X q q' \<longleftrightarrow> tq_capacity q' = tq_capacity q \<and> max_retries q' = max_retries q
     \<and> leases q' = leases q \<and> lease_free_head q' = lease_free_head q
     \<and> (\<forall>x. unat x < tq_capacity q \<longrightarrow> x \<notin> X \<longrightarrow> slot_data (slot_of q' x) = slot_data (slot_of q x))"

lemma slot_data_eqD:
  assumes "slot_data s = slot_data s'"
  shows "tstate s = tstate s'" "towner s = towner s'" "tseq s = tseq s'" "tdeadline s = tdeadline s'"
    "tretry s = tretry s'" "tcancel s = tcancel s'" "trequest s = trequest s'" "tresult s = tresult s'"
  using assms by (cases s; cases s'; simp add: slot_data_def)+

lemma frame_refl [simp]: "frame X q q"
  by (simp add: frame_def)

lemma frame_trans: "frame X q q' \<Longrightarrow> frame Y q' q'' \<Longrightarrow> frame (X \<union> Y) q q''"
  by (simp add: frame_def)

lemma frame_mono: "frame X q q' \<Longrightarrow> X \<subseteq> Y \<Longrightarrow> frame Y q q'"
  by (auto simp: frame_def)

lemma frame_state: "frame X q q' \<Longrightarrow> unat x < tq_capacity q \<Longrightarrow> x \<notin> X \<Longrightarrow> tstate (slot_of q' x) = tstate (slot_of q x)"
  by (auto simp: frame_def dest: slot_data_eqD)

section \<open>Steps of the operations on the invariant\<close>

text \<open>A held slot may be rewritten freely, as long as its link is left alone.\<close>

lemma inv_set_held:
  assumes inv: "queue_inv H q fs rs" and x: "x \<in> H"
  shows "queue_inv H (set_slot (unat x) s q) fs rs" and "frame {x} q (set_slot (unat x) s q)"
proof -
  let ?q = "set_slot (unat x) s q"
  have other: "slot_of ?q y = slot_of q y" if "y \<noteq> x" for y
    using that by (simp add: set_slot_def word_unat_eq_iff)
  have "x \<notin> members fs \<union> members rs" using inv x by (auto simp: queue_inv_def)
  have sh: "shards (slot_link (tslots ?q)) hs xss = shards (slot_link (tslots q)) hs xss"
    if "xss = fs \<or> xss = rs" for hs xss
  proof (rule shards_cong)
    fix y assume "y \<in> members xss"
    then have "y \<noteq> x" using that \<open>x \<notin> members fs \<union> members rs\<close> by auto
    then show "slot_link (tslots ?q) y = slot_link (tslots q) y" using other by (simp add: slot_link_def)
  qed
  have cnt: "{y \<in> members rs. tstate (slot_of ?q y) = CANCELLED} = {y \<in> members rs. tstate (slot_of q y) = CANCELLED}"
    using \<open>x \<notin> members fs \<union> members rs\<close> other by (metis (no_types, lifting) UnCI)
  have flds: "tq_capacity ?q = tq_capacity q" "free_heads ?q = free_heads q" "ready_heads ?q = ready_heads q"
    "cancelled ?q = cancelled q" "length (tslots ?q) = length (tslots q)" "max_retries ?q = max_retries q"
    "leases ?q = leases q" "lease_free_head ?q = lease_free_head q"
    by (simp_all add: set_slot_def)
  have "state_ok (y \<in> members fs) (y \<in> members rs) (tstate (slot_of ?q y))"
    if "unat y < tq_capacity q" "y \<notin> H" for y
    using inv that other [of y] x unfolding queue_inv_def by metis
  then show "queue_inv H ?q fs rs"
    using inv sh cnt unfolding queue_inv_def flds by simp
  show "frame {x} q ?q" using other by (simp add: frame_def flds)
qed

lemma push_slot_data:
  assumes "treiber_push k x set_slot_link sl = (h, sl')"
  shows "length sl' = length sl" and "slot_data (sl' ! i) = slot_data (sl ! i)"
proof -
  have sl': "sl' = sl[unat x := (sl ! unat x)\<lparr>tnext := head_slot k\<rparr>]"
    using assms by (auto simp: treiber_push_def case_prod_beta Let_def set_slot_link_def)
  then show "length sl' = length sl" by simp
  show "slot_data (sl' ! i) = slot_data (sl ! i)"
    by (cases "i = unat x"; cases "i < length sl") (simp_all add: sl' slot_data_def list_update_beyond)
qed

text \<open>Pushing a held slot that is reusable onto a FREE shard.\<close>

lemma inv_push_free:
  assumes inv: "queue_inv (insert x H) q fs rs" and x: "x \<notin> H" and s: "s < SHARDS"
    and st: "state_ok True False (tstate (slot_of q x))"
    and push: "treiber_push (free_heads q ! s) x set_slot_link (tslots q) = (h, sl)"
  defines "q' \<equiv> q\<lparr>free_heads := (free_heads q)[s := h], tslots := sl\<rparr>"
  shows "queue_inv H q' (fs[s := x # fs ! s]) rs" and "frame {} q q'"
proof -
  note nd = inv_node [OF inv]
  have s': "s < length fs" and lens: "length fs = SHARDS" "length rs = SHARDS"
    using inv s by (auto simp: queue_inv_def)
  have xn: "x \<notin> members fs" "x \<notin> members rs" using inv by (auto simp: queue_inv_def)
  have data: "slot_data (sl ! i) = slot_data (tslots q ! i)" "length sl = length (tslots q)" for i
    using push_slot_data [OF push] by auto
  have stt: "tstate (sl ! i) = tstate (tslots q ! i)" for i using slot_data_eqD(1) [OF data(1)] .
  have "shards (slot_link sl) ((free_heads q)[s := h]) (fs[s := x # fs ! s])"
    by (rule slot_links.shards_push [OF _ _ _ _ s' push]) (use inv nd xn in \<open>auto simp: queue_inv_def\<close>)
  moreover have "shards (slot_link sl) (ready_heads q) rs"
    by (rule slot_links.shards_push_other [OF _ _ _ _ push]) (use inv nd xn in \<open>auto simp: queue_inv_def\<close>)
  moreover have "members (fs[s := x # fs ! s]) = insert x (members fs)" by (rule members_push [OF s'])
  moreover have "state_ok (y \<in> insert x (members fs)) (y \<in> members rs) (tstate (sl ! unat y))"
    if "unat y < tq_capacity q" "y \<notin> H" for y
    using inv that st unfolding queue_inv_def stt by (cases "y = x") (auto simp: state_ok_def)
  ultimately show "queue_inv H q' (fs[s := x # fs ! s]) rs"
    using inv x xn data(2) stt lens by (auto simp: q'_def queue_inv_def)
  show "frame {} q q'" using data by (simp add: frame_def q'_def)
qed

text \<open>Pushing a held queued slot onto a READY shard.\<close>

lemma inv_push_ready:
  assumes inv: "queue_inv (insert x H) q fs rs" and x: "x \<notin> H" and s: "s < SHARDS"
    and st: "tstate (slot_of q x) = QUEUED"
  shows "queue_inv H (push_ready q s x) fs (rs[s := x # rs ! s])" and "frame {} q (push_ready q s x)"
proof -
  obtain h sl where push: "treiber_push (ready_heads q ! s) x set_slot_link (tslots q) = (h, sl)" by fastforce
  have q': "push_ready q s x = q\<lparr>ready_heads := (ready_heads q)[s := h], tslots := sl\<rparr>"
    using push by (simp add: push_ready_def)
  note nd = inv_node [OF inv]
  have s': "s < length rs" and lens: "length fs = SHARDS" "length rs = SHARDS"
    using inv s by (auto simp: queue_inv_def)
  have xn: "x \<notin> members fs" "x \<notin> members rs" using inv by (auto simp: queue_inv_def)
  have data: "slot_data (sl ! i) = slot_data (tslots q ! i)" "length sl = length (tslots q)" for i
    using push_slot_data [OF push] by auto
  have stt: "tstate (sl ! i) = tstate (tslots q ! i)" for i using slot_data_eqD(1) [OF data(1)] .
  have "shards (slot_link sl) ((ready_heads q)[s := h]) (rs[s := x # rs ! s])"
    by (rule slot_links.shards_push [OF _ _ _ _ s' push]) (use inv nd xn in \<open>auto simp: queue_inv_def\<close>)
  moreover have "shards (slot_link sl) (free_heads q) fs"
    by (rule slot_links.shards_push_other [OF _ _ _ _ push]) (use inv nd xn in \<open>auto simp: queue_inv_def\<close>)
  moreover have mem: "members (rs[s := x # rs ! s]) = insert x (members rs)" by (rule members_push [OF s'])
  moreover have "{y \<in> insert x (members rs). tstate (sl ! unat y) = CANCELLED}
      = {y \<in> members rs. tstate (slot_of q y) = CANCELLED}"
    using st by (auto simp: stt task_states)
  moreover have "state_ok (y \<in> members fs) (y \<in> insert x (members rs)) (tstate (sl ! unat y))"
    if "unat y < tq_capacity q" "y \<notin> H" for y
    using inv that st xn unfolding queue_inv_def stt by (cases "y = x") (auto simp: state_ok_def)
  ultimately show "queue_inv H (push_ready q s x) fs (rs[s := x # rs ! s])"
    using inv x xn data(2) lens by (auto simp: q' queue_inv_def)
  show "frame {} q (push_ready q s x)" using data by (simp add: frame_def q')
qed

lemma inv_pop_free_shard:
  assumes inv: "queue_inv H q fs rs" and s: "s < SHARDS" and x: "fs ! s = x # xs"
    and sh: "shards (slot_link (tslots q)) hs (fs[s := xs])"
  shows "queue_inv (insert x H) (q\<lparr>free_heads := hs\<rparr>) (fs[s := xs]) rs"
    and "x \<in> members fs" and "x \<notin> H" and "unat x < tq_capacity q"
proof -
  have s': "s < length fs" and lens: "length fs = SHARDS" using inv s by (auto simp: queue_inv_def)
  have fsh: "shards (slot_link (tslots q)) (free_heads q) fs" using inv by (simp add: queue_inv_def)
  note mem = members_pop [OF fsh s' x]
  show "x \<in> members fs" by (rule mem(2))
  show "x \<notin> H" "unat x < tq_capacity q" using inv mem(2) by (auto simp: queue_inv_def)
  have "state_ok (y \<in> members fs - {x}) (y \<in> members rs) (tstate (slot_of q y))"
    if "unat y < tq_capacity q" "y \<notin> insert x H" for y
    using inv that unfolding queue_inv_def by auto
  then show "queue_inv (insert x H) (q\<lparr>free_heads := hs\<rparr>) (fs[s := xs]) rs"
    using inv sh mem lens by (auto simp: queue_inv_def)
qed

lemma next_shard_bound: "next_shard c = (s, c') \<Longrightarrow> s < SHARDS"
  by (auto simp: next_shard_def Let_def SHARDS_def)

lemma pop_free_cases:
  assumes inv: "queue_inv H q fs rs" and pop: "pop_free q c = (r, q', c')"
  shows "(r = None \<and> q' = q \<and> members fs = {})
    \<or> (\<exists>x fs'. r = Some x \<and> queue_inv (insert x H) q' fs' rs \<and> frame {} q q' \<and> tslots q' = tslots q
         \<and> x \<in> members fs \<and> x \<notin> H \<and> unat x < tq_capacity q)"
proof -
  obtain home where nx: "next_shard c = (home, c')" using pop by (auto simp: pop_free_def split: prod.splits)
  let ?ss = "map (\<lambda>k. (home + k) mod SHARDS) [0..<SHARDS]"
  obtain hs where sw: "sweep_pop (slot_link (tslots q)) (free_heads q) ?ss = (r, hs)"
    and q': "q' = q\<lparr>free_heads := hs\<rparr>"
    using pop nx by (auto simp: pop_free_def split: prod.splits)
  have ss: "set ?ss = {..<SHARDS}" by (rule rotation_covers) (simp add: SHARDS_def)
  have fsh: "shards (slot_link (tslots q)) (free_heads q) fs" and len: "length fs = SHARDS"
    using inv by (simp_all add: queue_inv_def)
  have bnd: "\<forall>s\<in>set ?ss. s < length fs" using ss len by simp
  from sweep_pop_spec [OF fsh bnd] show ?thesis
  proof (elim disjE bexE exE conjE)
    assume "sweep_pop (slot_link (tslots q)) (free_heads q) ?ss = (None, free_heads q)" "\<forall>s\<in>set ?ss. fs ! s = []"
    then have "\<forall>s<length fs. fs ! s = []" unfolding ss len by simp
    then have "members fs = {}" by (auto simp: members_iff)
    then show ?thesis using sw q' \<open>sweep_pop _ _ _ = (None, free_heads q)\<close> by auto
  next
    fix s x xs hs'
    assume "s \<in> set ?ss" and x: "fs ! s = x # xs"
      and "sweep_pop (slot_link (tslots q)) (free_heads q) ?ss = (Some x, hs')"
      and sh: "shards (slot_link (tslots q)) hs' (fs[s := xs])"
    then have s: "s < SHARDS" and "r = Some x" "hs' = hs" using ss sw by auto
    then show ?thesis
      using inv_pop_free_shard [OF inv s x sh] q' by (auto simp: frame_def)
  qed
qed

lemma inv_pop_ready:
  assumes inv: "queue_inv H q fs rs" and s: "s < SHARDS" and x: "rs ! s = x # xs"
  obtains h where "treiber_pop (ready_heads q ! s) (slot_link (tslots q)) = (Some x, h)"
    and "tstate (slot_of q x) = QUEUED \<Longrightarrow>
           queue_inv (insert x H) (q\<lparr>ready_heads := (ready_heads q)[s := h]\<rparr>) fs (rs[s := xs])"
    and "tstate (slot_of q x) \<noteq> QUEUED \<Longrightarrow> tstate (slot_of q x) = CANCELLED \<and>
           queue_inv (insert x H) (q\<lparr>ready_heads := (ready_heads q)[s := h], cancelled := cancelled q - 1\<rparr>) fs (rs[s := xs])"
    and "x \<in> members rs" and "x \<notin> H" and "unat x < tq_capacity q" and "x \<notin> members fs"
proof -
  have s': "s < length rs" and lens: "length rs = SHARDS" using inv s by (auto simp: queue_inv_def)
  have rsh: "shards (slot_link (tslots q)) (ready_heads q) rs" using inv by (simp add: queue_inv_def)
  obtain h where pop: "treiber_pop (ready_heads q ! s) (slot_link (tslots q)) = (Some x, h)"
    and sh: "shards (slot_link (tslots q)) ((ready_heads q)[s := h]) (rs[s := xs])"
    using shards_pop [OF rsh s' x] by blast
  note mem = members_pop [OF rsh s' x]
  have x': "x \<notin> H" "unat x < tq_capacity q" "x \<notin> members fs" using inv mem(2) by (auto simp: queue_inv_def)
  have sx: "tstate (slot_of q x) = QUEUED \<or> tstate (slot_of q x) = CANCELLED"
    using inv x' mem(2) by (auto simp: queue_inv_def state_ok_def)
  let ?C = "{y \<in> members rs. tstate (slot_of q y) = CANCELLED}"
  have fin: "finite ?C" by (simp add: members_def)
  have cnt: "unat (cancelled q) = card ?C" using inv by (simp add: queue_inv_def)
  have st: "state_ok (y \<in> members fs) (y \<in> members rs - {x}) (tstate (slot_of q y))"
    if "unat y < tq_capacity q" "y \<notin> insert x H" for y
    using inv that unfolding queue_inv_def by auto
  have q1: "queue_inv (insert x H) (q\<lparr>ready_heads := (ready_heads q)[s := h]\<rparr>) fs (rs[s := xs])"
    if "tstate (slot_of q x) = QUEUED"
  proof -
    have "{y \<in> members rs - {x}. tstate (slot_of q y) = CANCELLED} = ?C" using that by (auto simp: task_states)
    then show ?thesis using inv sh mem lens st by (auto simp: queue_inv_def)
  qed
  have q2: "queue_inv (insert x H) (q\<lparr>ready_heads := (ready_heads q)[s := h], cancelled := cancelled q - 1\<rparr>) fs (rs[s := xs])"
    if "tstate (slot_of q x) = CANCELLED"
  proof -
    have "x \<in> ?C" using that mem(2) by simp
    then have "0 < card ?C" "card (?C - {x}) = card ?C - 1" using fin by (auto simp: card_gt_0_iff)
    moreover have "{y \<in> members rs - {x}. tstate (slot_of q y) = CANCELLED} = ?C - {x}" by auto
    moreover have "unat (cancelled q - 1) = unat (cancelled q) - 1"
      using cnt calculation(1) by (intro unat_pred_word) (metis less_numeral_extra(3) unat_0)
    ultimately have "unat (cancelled q - 1) = card {y \<in> members rs - {x}. tstate (slot_of q y) = CANCELLED}"
      using cnt by simp
    then show ?thesis using inv sh mem lens st by (auto simp: queue_inv_def)
  qed
  show thesis
    by (rule that [OF pop]) (use q1 q2 sx mem(2) x' in \<open>auto simp: task_states\<close>)
qed

lemma inv_claimed:
  "queue_inv (insert x H) q fs rs \<Longrightarrow> x \<notin> H \<Longrightarrow> tstate (slot_of q x) = CLAIMED \<Longrightarrow> queue_inv H q fs rs"
  by (auto simp: queue_inv_def state_ok_def)

lemma set_slot_same [simp]: "i < length (tslots q) \<Longrightarrow> tslots (set_slot i s q) ! i = s"
  by (simp add: set_slot_def)

lemma frame_heads [simp]:
  "frame X q (q'\<lparr>ready_heads := h\<rparr>) = frame X q q'" "frame X q (q'\<lparr>free_heads := h\<rparr>) = frame X q q'"
  "frame X q (q'\<lparr>cancelled := n\<rparr>) = frame X q q'"
  by (simp_all add: frame_def)

lemma queue_upd_comm:
  "q\<lparr>cancelled := n, free_heads := a, tslots := b\<rparr> = q\<lparr>free_heads := a, tslots := b, cancelled := n\<rparr>"
  for q :: task_queue
  by (cases q) simp

section \<open>Claiming\<close>

definition claim_post ::
  "u32 set \<Rightarrow> task_queue \<Rightarrow> u32 list list \<Rightarrow> nat \<Rightarrow> u32 option \<Rightarrow> task_queue \<Rightarrow> u32 list list \<Rightarrow> u32 list list \<Rightarrow> bool" where
  "claim_post H q rs s r q' fs' rs' \<longleftrightarrow> queue_inv H q' fs' rs' \<and>
     (case r of
        None \<Rightarrow> frame {} q q' \<and> rs' = rs[s := []] \<and> (\<forall>x\<in>set (rs ! s). tstate (slot_of q x) \<noteq> QUEUED)
      | Some x \<Rightarrow> frame {x} q q' \<and> x \<in> set (rs ! s) \<and> unat x < tq_capacity q \<and> tstate (slot_of q x) = QUEUED
          \<and> slot_data (slot_of q' x) = slot_data ((slot_of q x)\<lparr>tstate := CLAIMED\<rparr>))"

lemma claim_pop_hit:
  assumes inv: "queue_inv H q fs rs" and s: "s < SHARDS" and x: "rs ! s = x # xs"
    and st: "tstate (slot_of q x) = QUEUED"
  shows "\<exists>q'. claim_pop q s = Some (Some x, q') \<and> claim_post H q rs s (Some x) q' fs (rs[s := xs])"
proof -
  obtain h where pop: "treiber_pop (ready_heads q ! s) (slot_link (tslots q)) = (Some x, h)"
    and q1: "queue_inv (insert x H) (q\<lparr>ready_heads := (ready_heads q)[s := h]\<rparr>) fs (rs[s := xs])"
    and xm: "x \<notin> H" "unat x < tq_capacity q"
    using inv_pop_ready [OF inv s x] st by blast
  let ?q1 = "q\<lparr>ready_heads := (ready_heads q)[s := h]\<rparr>" and ?sl = "(slot_of q x)\<lparr>tstate := CLAIMED\<rparr>"
  have len: "unat x < length (tslots ?q1)" using xm inv by (simp add: queue_inv_def)
  have "claim_pop q s = Some (Some x, set_slot (unat x) ?sl ?q1)"
    using pop st by (subst claim_pop.simps) (simp add: try_claim_def cas_state_def compare_exchange_def Let_def)
  moreover have fr: "frame {x} ?q1 (set_slot (unat x) ?sl ?q1)"
    by (rule inv_set_held(2) [OF q1 insertI1])
  moreover have held: "queue_inv (insert x H) (set_slot (unat x) ?sl ?q1) fs (rs[s := xs])"
    by (rule inv_set_held(1) [OF q1 insertI1])
  have cl: "tstate (slot_of (set_slot (unat x) ?sl ?q1) x) = CLAIMED"
    unfolding set_slot_same [OF len] by simp
  moreover have "queue_inv H (set_slot (unat x) ?sl ?q1) fs (rs[s := xs])"
    by (rule inv_claimed [OF held xm(1) cl])
  moreover have "frame {x} q (set_slot (unat x) ?sl ?q1)"
    using frame_trans [of "{}" q ?q1, OF _ fr] by simp
  ultimately show ?thesis using xm st x len by (simp add: claim_post_def)
qed

lemma claim_pop_spec:
  assumes "queue_inv H q fs rs" and "s < SHARDS"
  shows "\<exists>r q' fs' rs'. claim_pop q s = Some (r, q') \<and> claim_post H q rs s r q' fs' rs'"
  using assms
proof (induction "rs ! s" arbitrary: q fs rs)
  case Nil
  have "treiber_pop (ready_heads q ! s) (slot_link (tslots q)) = (None, ready_heads q ! s)"
    using Nil by (intro shards_pop_Nil) (auto simp: queue_inv_def)
  then have "claim_pop q s = Some (None, q)" by (subst claim_pop.simps) simp
  moreover have "rs[s := []] = rs" using Nil(1) by (metis list_update_id)
  ultimately show ?case using Nil by (auto simp: claim_post_def)
next
  case (Cons x xs)
  note x = Cons.hyps(2) [symmetric] and inv = Cons.prems(1) and s = Cons.prems(2)
  have sl: "s < length rs" using inv s by (simp add: queue_inv_def)
  show ?case
  proof (cases "tstate (slot_of q x) = QUEUED")
    case True
    then show ?thesis using claim_pop_hit [OF inv s x] by blast
  next
    case False
    obtain h where pop: "treiber_pop (ready_heads q ! s) (slot_link (tslots q)) = (Some x, h)"
      and canc: "tstate (slot_of q x) = CANCELLED" and xH: "x \<notin> H"
      and q1: "queue_inv (insert x H) (q\<lparr>ready_heads := (ready_heads q)[s := h], cancelled := cancelled q - 1\<rparr>) fs (rs[s := xs])"
      using inv_pop_ready [OF inv s x] False by blast
    let ?q1 = "q\<lparr>ready_heads := (ready_heads q)[s := h], cancelled := cancelled q - 1\<rparr>"
    obtain fh sls where push: "treiber_push (free_heads ?q1 ! s) x set_slot_link (tslots ?q1) = (fh, sls)" by fastforce
    let ?q2 = "?q1\<lparr>free_heads := (free_heads ?q1)[s := fh], tslots := sls\<rparr>"
    have q2: "queue_inv H ?q2 (fs[s := x # fs ! s]) (rs[s := xs])" "frame {} ?q1 ?q2"
      using inv_push_free [OF q1 xH s _ push] canc by (auto simp: state_ok_def)
    have fr: "frame {} q ?q2" using frame_trans [of "{}" q ?q1, OF _ q2(2)] by simp
    have step: "claim_pop q s = claim_pop ?q2 s"
      using pop push canc by (subst claim_pop.simps)
        (simp add: try_claim_def cas_state_def compare_exchange_def Let_def task_states queue_upd_comm)
    obtain r q' fs' rs' where r: "claim_pop ?q2 s = Some (r, q')" "claim_post H ?q2 (rs[s := xs]) s r q' fs' rs'"
      using Cons.hyps(1) [of "rs[s := xs]" ?q2, OF _ q2(1) s] sl by auto
    have dat: "slot_data (slot_of ?q2 y) = slot_data (slot_of q y)" "tstate (slot_of ?q2 y) = tstate (slot_of q y)"
      if "unat y < tq_capacity q" for y
      using fr that slot_data_eqD(1) unfolding frame_def by blast+
    have bnd: "unat y < tq_capacity q" if "y \<in> set xs" for y
    proof -
      have "y \<in> members rs" using that x sl by (auto simp: members_iff)
      then show ?thesis using inv by (auto simp: queue_inv_def)
    qed
    have "claim_post H q rs s r q' fs' rs'"
    proof (cases r)
      case None
      then show ?thesis
        using r(2) x sl canc dat bnd frame_trans [OF fr, of "{}" q'] by (auto simp: claim_post_def task_states)
    next
      case (Some y)
      have y: "unat y < tq_capacity q" "y \<in> set xs"
        using r(2) Some sl by (auto simp: claim_post_def)
      have "slot_data ((slot_of ?q2 y)\<lparr>tstate := CLAIMED\<rparr>) = slot_data ((slot_of q y)\<lparr>tstate := CLAIMED\<rparr>)"
        using dat(1) [OF y(1)] by (cases "slot_of ?q2 y"; cases "slot_of q y") (simp add: slot_data_def)
      then show ?thesis
        using r(2) Some x dat [OF y(1)] y frame_trans [OF fr, of "{y}" q'] by (auto simp: claim_post_def)
    qed
    then show ?thesis using step r(1) by auto
  qed
qed

definition claim_none :: "task_queue \<Rightarrow> u32 list list \<Rightarrow> nat list \<Rightarrow> bool" where
  "claim_none q rs ss \<longleftrightarrow> (\<forall>s\<in>set ss. \<forall>x\<in>set (rs ! s). tstate (slot_of q x) \<noteq> QUEUED)"

text \<open>A task taken off the queue: the one slot that changes went from QUEUED to CLAIMED.\<close>

definition claimed_slot :: "task_queue \<Rightarrow> task_queue \<Rightarrow> u32 \<Rightarrow> bool" where
  "claimed_slot q q' x \<longleftrightarrow> frame {x} q q' \<and> unat x < tq_capacity q \<and> tstate (slot_of q x) = QUEUED
     \<and> slot_data (slot_of q' x) = slot_data ((slot_of q x)\<lparr>tstate := CLAIMED\<rparr>)"

lemma slot_data_upd_state:
  "slot_data a = slot_data b \<Longrightarrow> slot_data (a\<lparr>tstate := v\<rparr>) = slot_data (b\<lparr>tstate := v\<rparr>)"
  by (cases a; cases b) (simp add: slot_data_def)

lemma claimed_slot_frame:
  assumes "frame {} q q1" and "claimed_slot q1 q' x"
  shows "claimed_slot q q' x"
proof -
  have x: "unat x < tq_capacity q" using assms by (simp add: claimed_slot_def frame_def)
  then have d: "slot_data (slot_of q1 x) = slot_data (slot_of q x)" using assms(1) by (simp add: frame_def)
  have "frame {x} q q'" using frame_trans [OF assms(1)] assms(2) by (simp add: claimed_slot_def)
  then show ?thesis
    using x assms(2) slot_data_upd_state [OF d] slot_data_eqD(1) [OF d] by (simp add: claimed_slot_def)
qed

lemma claim_sweep_spec:
  assumes "queue_inv H q fs rs" and "\<forall>s\<in>set ss. s < SHARDS"
  shows "\<exists>r q' fs' rs'. claim_sweep q ss = Some (r, q') \<and> queue_inv H q' fs' rs'
    \<and> (case r of None \<Rightarrow> frame {} q q' \<and> claim_none q rs ss | Some x \<Rightarrow> claimed_slot q q' x)"
  using assms
proof (induction ss arbitrary: q fs rs)
  case Nil
  then show ?case by (auto simp: claim_none_def)
next
  case (Cons s ss)
  note inv = Cons.prems(1)
  have s: "s < SHARDS" and ss: "\<forall>t\<in>set ss. t < SHARDS" using Cons.prems by auto
  obtain r q1 fs1 rs1 where pop: "claim_pop q s = Some (r, q1)" and post: "claim_post H q rs s r q1 fs1 rs1"
    using claim_pop_spec [OF inv s] by blast
  show ?case
  proof (cases r)
    case (Some x)
    then show ?thesis using pop post by (auto simp: claim_post_def claimed_slot_def)
  next
    case None
    then have inv1: "queue_inv H q1 fs1 rs1" and fr: "frame {} q q1" and rs1: "rs1 = rs[s := []]"
      and no: "\<forall>x\<in>set (rs ! s). tstate (slot_of q x) \<noteq> QUEUED"
      using post by (auto simp: claim_post_def)
    obtain r' q' fs' rs' where IH: "claim_sweep q1 ss = Some (r', q')" "queue_inv H q' fs' rs'"
      "case r' of None \<Rightarrow> frame {} q1 q' \<and> claim_none q1 rs1 ss | Some x \<Rightarrow> claimed_slot q1 q' x"
      using Cons.IH [OF inv1 ss] by blast
    have sw: "claim_sweep q (s # ss) = Some (r', q')" using pop None IH(1) by simp
    have "case r' of None \<Rightarrow> frame {} q q' \<and> claim_none q rs (s # ss) | Some x \<Rightarrow> claimed_slot q q' x"
    proof (cases r')
      case (Some x)
      then show ?thesis using IH(3) claimed_slot_frame [OF fr] by simp
    next
      case None
      have "tstate (slot_of q x) \<noteq> QUEUED" if t: "t \<in> set ss" and x: "x \<in> set (rs ! t)" for t x
      proof (cases "t = s")
        case False
        have "t < length rs" using t ss inv by (auto simp: queue_inv_def)
        then have "unat x < tq_capacity q" using x inv by (auto simp: queue_inv_def members_iff)
        moreover have "x \<in> set (rs1 ! t)" using False x by (simp add: rs1)
        moreover have "claim_none q1 rs1 ss" using IH(3) None by simp
        ultimately have "unat x < tq_capacity q" "tstate (slot_of q1 x) \<noteq> QUEUED"
          using t by (auto simp: claim_none_def)
        then show ?thesis using frame_state [OF fr, of x] by simp
      qed (use no x in simp)
      then show ?thesis using None IH(3) no frame_trans [OF fr, of "{}" q'] by (auto simp: claim_none_def)
    qed
    then show ?thesis using sw IH(2) by blast
  qed
qed

lemma upt_shards: "[0..<8] = [0, 1, 2, 3, 4, 5, 6, 7 :: nat]"
  by (simp add: upt_rec)

lemma claim_order_covers: "set (claim_order w) = {..<SHARDS}"
proof -
  have *: "set (map (\<lambda>k. (h + k * (1 + 2 * (h mod 4))) mod 8) [0..<8]) = {..<8 :: nat}" if "h < 8" for h
  proof -
    have "h \<in> {0, 1, 2, 3, 4, 5, 6, 7}" using that by auto
    moreover have "{..<8 :: nat} = {0, 1, 2, 3, 4, 5, 6, 7}" by auto
    ultimately show ?thesis
      by (elim insertE emptyE; simp add: upt_shards insert_commute; simp add: eval_nat_numeral)
  qed
  have "unat w mod 4 = (unat w mod 8) mod 4" by (simp add: mod_mod_cancel)
  then have "claim_order w = map (\<lambda>k. (unat w mod 8 + k * (1 + 2 * (unat w mod 8 mod 4))) mod 8) [0..<8]"
    by (simp add: claim_order_def Let_def SHARDS_def)
  also have "set \<dots> = {..<8}" by (rule *) simp
  finally show ?thesis by (simp add: SHARDS_def)
qed

lemma inv_state:
  "queue_inv H q fs rs \<Longrightarrow> unat x < tq_capacity q \<Longrightarrow> x \<notin> H \<Longrightarrow>
     state_ok (x \<in> members fs) (x \<in> members rs) (tstate (slot_of q x))"
  unfolding queue_inv_def by blast

lemma claimed_off_stacks:
  assumes inv: "queue_inv H q fs rs" and x: "unat x < tq_capacity q" "x \<notin> H"
    and st: "tstate (slot_of q x) = CLAIMED"
  shows "x \<notin> members fs" and "x \<notin> members rs" and "queue_inv (insert x H) q fs rs"
proof -
  have ok: "state_ok (x \<in> members fs) (x \<in> members rs) CLAIMED"
    using inv_state [OF inv x] st by simp
  then show *: "x \<notin> members fs" "x \<notin> members rs" by (auto simp: state_ok_def task_states split: if_splits)
  then show "queue_inv (insert x H) q fs rs" using inv x by (auto simp: queue_inv_def)
qed

lemma inv_rewrite_claimed:
  assumes inv: "queue_inv H q fs rs" and x: "unat x < tq_capacity q" "x \<notin> H"
    and st: "tstate (slot_of q x) = CLAIMED" "tstate s = CLAIMED"
  shows "queue_inv H (set_slot (unat x) s q) fs rs" and "frame {x} q (set_slot (unat x) s q)"
proof -
  note held = claimed_off_stacks(3) [OF inv x st(1)]
  have len: "unat x < length (tslots q)" using inv x by (simp add: queue_inv_def)
  have "tstate (slot_of (set_slot (unat x) s q) x) = CLAIMED"
    unfolding set_slot_same [OF len] by (rule st(2))
  then show "queue_inv H (set_slot (unat x) s q) fs rs"
    by (rule inv_claimed [OF inv_set_held(1) [OF held insertI1] x(2)])
  show "frame {x} q (set_slot (unat x) s q)" by (rule inv_set_held(2) [OF held insertI1])
qed

definition queue_ok :: "task_queue \<Rightarrow> bool" where
  "queue_ok q \<longleftrightarrow> (\<exists>fs rs. queue_inv {} q fs rs)"

lemma queued_iff_ready:
  assumes "queue_inv {} q fs rs" and "unat x < tq_capacity q" and "tstate (slot_of q x) = QUEUED"
  shows "x \<in> members rs"
  using inv_state [OF assms(1,2)] assms(3) by (auto simp: state_ok_def task_states split: if_splits)

lemma claim_none_all:
  assumes inv: "queue_inv {} q fs rs" and no: "claim_none q rs (claim_order w)" and x: "unat x < tq_capacity q"
  shows "tstate (slot_of q x) \<noteq> QUEUED"
proof
  assume "tstate (slot_of q x) = QUEUED"
  then have "x \<in> members rs" by (rule queued_iff_ready [OF inv x])
  then obtain s where "s < length rs" "x \<in> set (rs ! s)" by (auto simp: members_iff)
  moreover have "s \<in> set (claim_order w)" using \<open>s < length rs\<close> inv by (simp add: claim_order_covers queue_inv_def)
  ultimately show False using no \<open>tstate (slot_of q x) = QUEUED\<close> by (auto simp: claim_none_def)
qed

definition lease_of :: "u32 \<Rightarrow> u64 option \<Rightarrow> task_slot \<Rightarrow> task_slot" where
  "lease_of w dl s = s\<lparr>tstate := CLAIMED, towner := w, tdeadline := (case dl of Some d \<Rightarrow> d | None \<Rightarrow> tdeadline s)\<rparr>"

lemma claim_inner_spec:
  assumes "queue_inv {} q fs rs"
  obtains (none) q' where "claim_inner q w dl = Some (None, q')" "queue_ok q'" "frame {} q q'"
      "\<forall>x. unat x < tq_capacity q \<longrightarrow> tstate (slot_of q x) \<noteq> QUEUED"
  | (some) x q' where "claim_inner q w dl = Some (Some \<lparr>ct_idx = unat x, ct_seq = tseq (slot_of q x),
        ct_worker = w, ct_request = trequest (slot_of q x)\<rparr>, q')"
      "queue_ok q'" "frame {x} q q'" "unat x < tq_capacity q" "tstate (slot_of q x) = QUEUED"
      "slot_data (slot_of q' x) = slot_data (lease_of w dl (slot_of q x))"
proof -
  obtain r q1 fs' rs' where sw: "claim_sweep q (claim_order w) = Some (r, q1)" and inv1: "queue_inv {} q1 fs' rs'"
    and r: "case r of None \<Rightarrow> frame {} q q1 \<and> claim_none q rs (claim_order w) | Some x \<Rightarrow> claimed_slot q q1 x"
    using claim_sweep_spec [OF assms, of "claim_order w"] by (auto simp: claim_order_covers)
  show thesis
  proof (cases r)
    case None
    have "claim_inner q w dl = Some (None, q1)" using sw None by (simp add: claim_inner_def)
    then show thesis by (rule none) (use inv1 r None claim_none_all [OF assms] in \<open>auto simp: queue_ok_def\<close>)
  next
    case (Some x)
    then have cs: "claimed_slot q q1 x" using r by simp
    then have x: "unat x < tq_capacity q1" and fr: "frame {x} q q1"
      and d: "slot_data (slot_of q1 x) = slot_data ((slot_of q x)\<lparr>tstate := CLAIMED\<rparr>)"
      by (simp_all add: claimed_slot_def frame_def)
    note d' = slot_data_eqD [OF d]
    let ?s = "lease_of w dl (slot_of q1 x)"
    have st: "tstate (slot_of q1 x) = CLAIMED" using d'(1) by simp
    have cl: "(case dl of Some d \<Rightarrow> (slot_of q1 x)\<lparr>towner := w, tdeadline := d\<rparr> | None \<Rightarrow> (slot_of q1 x)\<lparr>towner := w\<rparr>) = ?s"
      using st by (cases "slot_of q1 x") (simp add: lease_of_def split: option.split)
    have *: "claim_inner q w dl = Some (Some \<lparr>ct_idx = unat x, ct_seq = tseq (slot_of q x),
        ct_worker = w, ct_request = trequest (slot_of q x)\<rparr>, set_slot (unat x) ?s q1)"
      using sw Some cl d'(3,7) by (simp add: claim_inner_def Let_def lease_of_def split: option.splits)
    have len: "unat x < length (tslots q1)" using x inv1 by (simp add: queue_inv_def)
    have inv2: "queue_inv {} (set_slot (unat x) ?s q1) fs' rs'" "frame {x} q1 (set_slot (unat x) ?s q1)"
      using inv_rewrite_claimed [OF inv1 x _ st, of ?s] by (simp_all add: lease_of_def)
    have dat: "slot_data ?s = slot_data (lease_of w dl (slot_of q x))"
      using d by (cases "slot_of q1 x"; cases "slot_of q x") (simp add: slot_data_def lease_of_def split: option.split)
    show thesis
    proof (rule some [OF *])
      show "queue_ok (set_slot (unat x) ?s q1)" using inv2(1) by (auto simp: queue_ok_def)
      show "frame {x} q (set_slot (unat x) ?s q1)" using frame_trans [OF fr inv2(2)] by simp
      show "unat x < tq_capacity q" "tstate (slot_of q x) = QUEUED" using cs by (simp_all add: claimed_slot_def)
      show "slot_data (slot_of (set_slot (unat x) ?s q1) x) = slot_data (lease_of w dl (slot_of q x))"
        unfolding set_slot_same [OF len] by (rule dat)
    qed
  qed
qed

end
