(* ===== verification/Shm_Task_Ops.thy ===== *)
theory Shm_Task_Ops
  imports Shm_Task_Inv
begin

text \<open>
  What the operations of the task queue (\<^verbatim>\<open>crates/shm-task/src/queue.rs\<close>) do on the
  invariant of \<open>Shm_Task_Inv\<close>: submitting, completing, failing, cancelling and reaping, each on
  every branch; the invariant over every run from a fresh queue; and the lease side table.
\<close>

section \<open>Finishing and requeueing a held slot\<close>

text \<open>The slot's data after an operation, whatever became of its link.\<close>

lemma frame_self: "frame {} q q' \<Longrightarrow> unat x < tq_capacity q \<Longrightarrow> slot_data (slot_of q' x) = slot_data (slot_of q x)"
  by (simp add: frame_def)

lemma held_to_free:
  assumes inv: "queue_inv (insert x H) q fs rs" and x: "x \<notin> H"
    and st: "state_ok True False (tstate s)" and push: "push_free (set_slot (unat x) s q) c x = (q', c')"
  shows "\<exists>fs'. queue_inv H q' fs' rs" and "frame {x} q q'" and "slot_data (slot_of q' x) = slot_data s"
proof -
  let ?q1 = "set_slot (unat x) s q"
  have len: "unat x < length (tslots q)" "unat x < tq_capacity q" using inv_node [OF inv, of x] inv by (auto simp: queue_inv_def)
  note inv1 = inv_set_held [OF inv insertI1, of s]
  obtain sh where sh: "next_shard c = (sh, c')" using push by (auto simp: push_free_def split: prod.splits)
  obtain h sl where tp: "treiber_push (free_heads ?q1 ! sh) x set_slot_link (tslots ?q1) = (h, sl)" by fastforce
  have q': "q' = ?q1\<lparr>free_heads := (free_heads ?q1)[sh := h], tslots := sl\<rparr>"
    using push sh tp by (simp add: push_free_def)
  have st1: "state_ok True False (tstate (slot_of ?q1 x))" unfolding set_slot_same [OF len(1)] by (rule st)
  note fin = inv_push_free [OF inv1(1) x next_shard_bound [OF sh] st1 tp, folded q']
  show "\<exists>fs'. queue_inv H q' fs' rs" using fin(1) by blast
  show "frame {x} q q'" using frame_trans [OF inv1(2) fin(2)] by simp
  have "unat x < tq_capacity ?q1" using len by (simp add: set_slot_def)
  from frame_self [OF fin(2) this] show "slot_data (slot_of q' x) = slot_data s"
    unfolding set_slot_same [OF len(1)] .
qed

lemma held_to_ready:
  assumes inv: "queue_inv (insert x H) q fs rs" and x: "x \<notin> H" and sh: "sh < SHARDS"
  shows "\<exists>rs'. queue_inv H (publish_queued q sh x) fs rs'" and "frame {x} q (publish_queued q sh x)"
    and "slot_data (slot_of (publish_queued q sh x) x) = slot_data ((slot_of q x)\<lparr>tstate := QUEUED\<rparr>)"
proof -
  let ?s = "(slot_of q x)\<lparr>tstate := QUEUED\<rparr>"
  let ?q1 = "set_slot (unat x) ?s q"
  have len: "unat x < length (tslots q)" "unat x < tq_capacity q" using inv_node [OF inv, of x] inv by (auto simp: queue_inv_def)
  note inv1 = inv_set_held [OF inv insertI1, of ?s]
  have st: "tstate (slot_of ?q1 x) = QUEUED" unfolding set_slot_same [OF len(1)] by simp
  note fin = inv_push_ready [OF inv1(1) x sh st, folded publish_queued_def]
  show "\<exists>rs'. queue_inv H (publish_queued q sh x) fs rs'" using fin(1) by blast
  show "frame {x} q (publish_queued q sh x)" using frame_trans [OF inv1(2) fin(2)] by simp
  have "unat x < tq_capacity ?q1" using len by (simp add: set_slot_def)
  from frame_self [OF fin(2) this] show "slot_data (slot_of (publish_queued q sh x) x) = slot_data ?s"
    unfolding set_slot_same [OF len(1)] .
qed

text \<open>Ending a claimed task.\<close>

lemma claimed_to_free:
  assumes inv: "queue_inv {} q fs rs" and x: "unat x < tq_capacity q" "tstate (slot_of q x) = CLAIMED"
    and st: "state_ok True False (tstate s)" and push: "push_free (set_slot (unat x) s q) c x = (q', c')"
  shows "queue_ok q'" and "frame {x} q q'" and "slot_data (slot_of q' x) = slot_data s"
proof -
  have held: "queue_inv (insert x {}) q fs rs" using claimed_off_stacks(3) [OF inv x(1) _ x(2)] by simp
  show "queue_ok q'" "frame {x} q q'" "slot_data (slot_of q' x) = slot_data s"
    using held_to_free [OF held _ st push] by (auto simp: queue_ok_def)
qed

lemma idx_of_nat: "queue_inv H q fs rs \<Longrightarrow> i < tq_capacity q \<Longrightarrow> unat (of_nat i :: u32) = i"
  by (simp add: queue_inv_def unat_of_nat)

lemma complete_spec:
  assumes inv: "queue_inv {} q fs rs" and i: "ct_idx t < tq_capacity q"
    and s: "s = tslots q ! ct_idx t" and r: "complete q c t res = (r, q', c')"
  shows "if tseq s \<noteq> ct_seq t then r = Inl StaleHandle \<and> q' = q
    else if tstate s \<noteq> CLAIMED then r = Inl Lost \<and> q' = q
    else r = Inr () \<and> queue_ok q' \<and> frame {of_nat (ct_idx t)} q q'
      \<and> slot_data (tslots q' ! ct_idx t) = slot_data (s\<lparr>tstate := DONE, tresult := res\<rparr>)"
proof (cases "tseq s = ct_seq t \<and> tstate s = CLAIMED")
  case True
  let ?x = "of_nat (ct_idx t) :: u32" and ?s = "s\<lparr>tstate := COMPLETING, tresult := res, tstate := DONE\<rparr>"
  note x = idx_of_nat [OF inv i]
  have "push_free (set_slot (unat ?x) ?s q) c ?x = (q', c')" and r': "r = Inr ()"
    using r True s x by (auto simp: complete_def try_begin_complete_def cas_state_def compare_exchange_def
        Let_def split: prod.splits)
  moreover have "state_ok True False (tstate ?s)" by (simp add: state_ok_def)
  moreover have "unat ?x < tq_capacity q" "tstate (slot_of q ?x) = CLAIMED" using i x True s by simp_all
  ultimately have "queue_ok q'" "frame {?x} q q'" "slot_data (slot_of q' ?x) = slot_data ?s"
    using claimed_to_free [OF inv] by blast+
  moreover have "?s = s\<lparr>tstate := DONE, tresult := res\<rparr>" by (cases s) simp
  ultimately show ?thesis using True r' x by simp
next
  case False
  then show ?thesis using r s
    by (auto simp: complete_def try_begin_complete_def cas_state_def compare_exchange_def Let_def)
qed

lemma fail_spec:
  assumes inv: "queue_inv {} q fs rs" and i: "ct_idx t < tq_capacity q"
    and s: "s = tslots q ! ct_idx t" and r: "fail q c t = (r, q', c')"
  shows "if tseq s \<noteq> ct_seq t then r = Inl StaleHandle \<and> q' = q
    else if tstate s \<noteq> CLAIMED then r = Inl Lost \<and> q' = q
    else r = Inr () \<and> queue_ok q' \<and> frame {of_nat (ct_idx t)} q q'
      \<and> slot_data (tslots q' ! ct_idx t) = slot_data (s\<lparr>tstate := FAILED\<rparr>)"
proof (cases "tseq s = ct_seq t \<and> tstate s = CLAIMED")
  case True
  let ?x = "of_nat (ct_idx t) :: u32" and ?s = "s\<lparr>tstate := FAILED\<rparr>"
  note x = idx_of_nat [OF inv i]
  have "push_free (set_slot (unat ?x) ?s q) c ?x = (q', c')" and r': "r = Inr ()"
    using r True s x by (auto simp: fail_def try_fail_def cas_state_def compare_exchange_def
        Let_def split: prod.splits)
  moreover have "state_ok True False (tstate ?s)" by (simp add: state_ok_def)
  moreover have "unat ?x < tq_capacity q" "tstate (slot_of q ?x) = CLAIMED" using i x True s by simp_all
  ultimately have "queue_ok q'" "frame {?x} q q'" "slot_data (slot_of q' ?x) = slot_data ?s"
    using claimed_to_free [OF inv] by blast+
  then show ?thesis using True r' x by simp
next
  case False
  then show ?thesis using r s
    by (auto simp: fail_def try_fail_def cas_state_def compare_exchange_def Let_def)
qed

section \<open>Submitting\<close>

lemma set_slot_upd [simp]:
  "(set_slot i s q)\<lparr>cancelled := n\<rparr> = set_slot i s (q\<lparr>cancelled := n\<rparr>)"
  "tq_capacity (set_slot i s q) = tq_capacity q"
  by (simp_all add: set_slot_def)

lemma put_back_inv:
  assumes "queue_inv (H \<union> set ys) q fs rs" and "distinct ys" and "H \<inter> set ys = {}" and "s < SHARDS"
    and "\<forall>y\<in>set ys. tstate (slot_of q y) = QUEUED"
  shows "\<exists>rs'. queue_inv H (fold (\<lambda>i q. push_ready q s i) ys q) fs rs'
    \<and> frame {} q (fold (\<lambda>i q. push_ready q s i) ys q)"
  using assms
proof (induction ys arbitrary: q rs)
  case (Cons y ys)
  have inv: "queue_inv (insert y (H \<union> set ys)) q fs rs" using Cons.prems(1) by simp
  have y: "y \<notin> H \<union> set ys" "tstate (slot_of q y) = QUEUED" using Cons.prems by auto
  note p = inv_push_ready [OF inv y(1) Cons.prems(4) y(2)]
  have bnd: "unat z < tq_capacity q" if "z \<in> set ys" for z using inv that by (auto simp: queue_inv_def)
  have "\<forall>z\<in>set ys. tstate (slot_of (push_ready q s y) z) = QUEUED"
    using Cons.prems(5) bnd frame_state [OF p(2)] by simp
  then obtain rs' where "queue_inv H (fold (\<lambda>i q. push_ready q s i) ys (push_ready q s y)) fs rs'"
      "frame {} (push_ready q s y) (fold (\<lambda>i q. push_ready q s i) ys (push_ready q s y))"
    using Cons.IH [OF p(1)] Cons.prems by auto
  then show ?case using frame_trans [OF p(2)] by fastforce
qed auto

definition dug :: "task_queue \<Rightarrow> task_queue \<Rightarrow> u32 list list \<Rightarrow> u32 set \<Rightarrow> u32 option \<Rightarrow> bool" where
  "dug q q' fs H r \<longleftrightarrow> (\<exists>rs'. case r of
     None \<Rightarrow> queue_inv H q' fs rs' \<and> frame {} q q'
   | Some x \<Rightarrow> x \<notin> H \<and> queue_inv (insert x H) q' fs rs' \<and> frame {x} q q'
       \<and> unat x < tq_capacity q \<and> state_ok True False (tstate (slot_of q x))
       \<and> slot_data (slot_of q' x) = slot_data ((slot_of q x)\<lparr>tstate := RESERVED\<rparr>))"

lemma dug_frame:
  assumes "frame {} q q1" and "dug q1 q' fs H r" shows "dug q q' fs H r"
proof -
  have cap: "tq_capacity q1 = tq_capacity q" using assms(1) by (simp add: frame_def)
  have "slot_data ((slot_of q1 x)\<lparr>tstate := v\<rparr>) = slot_data ((slot_of q x)\<lparr>tstate := v\<rparr>)"
    if "unat x < tq_capacity q" for x v
    by (rule slot_data_upd_state [OF frame_self [OF assms(1) that]])
  then show ?thesis
    using assms(2) frame_trans [OF assms(1), of _ q'] frame_state [OF assms(1)] unfolding dug_def cap
    by (cases r) auto
qed

lemma dig_spec:
  assumes "queue_inv (set hld) q fs rs" and "distinct hld" and "\<forall>y\<in>set hld. tstate (slot_of q y) = QUEUED"
    and "s < SHARDS" and "dig n q s hld = (r, hld', q')"
  shows "distinct hld' \<and> (\<forall>y\<in>set hld'. tstate (slot_of q' y) = QUEUED) \<and> dug q q' fs (set hld') r"
  using assms
proof (induction n arbitrary: q hld rs)
  case 0
  then show ?case by (auto simp: dug_def)
next
  case (Suc n)
  note inv = Suc.prems(1) and s = Suc.prems(4)
  show ?case
  proof (cases "rs ! s")
    case Nil
    have "treiber_pop (ready_heads q ! s) (slot_link (tslots q)) = (None, ready_heads q ! s)"
      using inv s Nil by (intro shards_pop_Nil) (auto simp: queue_inv_def)
    then show ?thesis using Suc.prems by (auto simp: dug_def)
  next
    case (Cons x xs)
    obtain h where pop: "treiber_pop (ready_heads q ! s) (slot_link (tslots q)) = (Some x, h)"
      and q1: "tstate (slot_of q x) = QUEUED \<Longrightarrow>
        queue_inv (insert x (set hld)) (q\<lparr>ready_heads := (ready_heads q)[s := h]\<rparr>) fs (rs[s := xs])"
      and q2: "tstate (slot_of q x) \<noteq> QUEUED \<Longrightarrow> tstate (slot_of q x) = CANCELLED \<and>
        queue_inv (insert x (set hld)) (q\<lparr>ready_heads := (ready_heads q)[s := h], cancelled := cancelled q - 1\<rparr>) fs (rs[s := xs])"
      and x: "x \<notin> set hld" "unat x < tq_capacity q"
      using inv_pop_ready [OF inv s Cons] by metis
    let ?q1 = "q\<lparr>ready_heads := (ready_heads q)[s := h]\<rparr>"
    show ?thesis
    proof (cases "tstate (slot_of q x) = QUEUED")
      case True
      have "queue_inv (set (hld @ [x])) ?q1 fs (rs[s := xs])" using q1 [OF True] by simp
      moreover have "dig n ?q1 s (hld @ [x]) = (r, hld', q')"
        using Suc.prems(5) pop True by (simp add: cas_state_def compare_exchange_def Let_def task_states)
      ultimately have "distinct hld' \<and> (\<forall>y\<in>set hld'. tstate (slot_of q' y) = QUEUED) \<and> dug ?q1 q' fs (set hld') r"
        using Suc.IH [of "hld @ [x]" ?q1] Suc.prems(2,3,4) x(1) True by simp
      then show ?thesis using dug_frame [of q ?q1] by simp
    next
      case False
      let ?q2 = "?q1\<lparr>cancelled := cancelled q - 1\<rparr>" and ?s = "(slot_of q x)\<lparr>tstate := RESERVED\<rparr>"
      have st: "tstate (slot_of q x) = CANCELLED" and inv2: "queue_inv (insert x (set hld)) ?q2 fs (rs[s := xs])"
        using q2 False by auto
      note held = inv_set_held [OF inv2 insertI1, of ?s]
      have len: "unat x < length (tslots ?q2)" using inv2 x by (simp add: queue_inv_def)
      have r: "r = Some x" "hld' = hld" "q' = set_slot (unat x) ?s ?q2"
        using Suc.prems(5) pop st by (simp_all add: cas_state_def compare_exchange_def Let_def)
      have same: "slot_of q' x = ?s" unfolding r(3) by (rule set_slot_same [OF len])
      have fr: "frame {x} q q'" using frame_trans [of "{}" q ?q2, OF _ held(2)] unfolding r(3) by simp
      have "\<forall>y\<in>set hld. tstate (slot_of q' y) = QUEUED"
      proof
        fix y assume y: "y \<in> set hld"
        then have "unat y < tq_capacity q" "y \<noteq> x" using inv x by (auto simp: queue_inv_def)
        then show "tstate (slot_of q' y) = QUEUED" using frame_state [OF fr, of y] Suc.prems(3) y by simp
      qed
      then show ?thesis
        using Suc.prems(2) r(1,2) x fr same held(1) st unfolding dug_def r(3) by (auto simp: state_ok_def)
    qed
  qed
qed

lemma put_back_dug:
  assumes d: "dug q q1 fs (set hld) r" and hld: "distinct hld" "\<forall>y\<in>set hld. tstate (slot_of q1 y) = QUEUED"
    and s: "s < SHARDS"
  shows "dug q (put_back q1 s hld) fs {} r"
proof -
  have put: "\<exists>rs'. queue_inv H (put_back q1 s hld) fs rs' \<and> frame {} q1 (put_back q1 s hld)"
    if "queue_inv (H \<union> set hld) q1 fs rs" "H \<inter> set hld = {}" for H rs
    using put_back_inv [of H "rev hld" q1 fs rs s] that hld s by (simp add: put_back_def)
  show ?thesis
  proof (cases r)
    case None
    then obtain rs where "queue_inv (set hld) q1 fs rs" "frame {} q q1" using d by (auto simp: dug_def)
    then show ?thesis using put [of "{}"] None frame_trans [of "{}" q q1 "{}"] by (fastforce simp: dug_def)
  next
    case (Some x)
    then obtain rs where x: "x \<notin> set hld" "queue_inv (insert x (set hld)) q1 fs rs" "frame {x} q q1"
        "unat x < tq_capacity q" "slot_data (slot_of q1 x) = slot_data ((slot_of q x)\<lparr>tstate := RESERVED\<rparr>)"
        "state_ok True False (tstate (slot_of q x))"
      using d by (auto simp: dug_def)
    obtain rs' where p: "queue_inv {x} (put_back q1 s hld) fs rs'" "frame {} q1 (put_back q1 s hld)"
      using put [of "{x}" rs] x by auto
    have "unat x < tq_capacity q1" using x by (simp add: frame_def)
    then have "slot_data (slot_of (put_back q1 s hld) x) = slot_data (slot_of q1 x)" by (rule frame_self [OF p(2)])
    then show ?thesis using Some p x frame_trans [OF x(3) p(2)] by (auto simp: dug_def)
  qed
qed

lemma drain_spec:
  assumes "queue_inv {} q fs rs" and "\<forall>s\<in>set ss. s < SHARDS" and "drain q ss = (r, q')"
  shows "dug q q' fs {} r"
  using assms
proof (induction ss arbitrary: q rs)
  case Nil
  then show ?case by (auto simp: dug_def)
next
  case (Cons s ss)
  show ?case
  proof (cases "cancelled q = 0 \<or> unat (cancelled q) > tq_capacity q")
    case True
    then show ?thesis using Cons.prems by (auto simp: dug_def)
  next
    case False
    obtain found hld q1 where dg: "dig DRAIN_DIG q s [] = (found, hld, q1)" by (metis prod_cases3)
    have sp: "distinct hld \<and> (\<forall>y\<in>set hld. tstate (slot_of q1 y) = QUEUED) \<and> dug q q1 fs (set hld) found"
      using dig_spec [OF _ _ _ _ dg] Cons.prems(1,2) by simp
    then have d: "dug q (put_back q1 s hld) fs {} found" using put_back_dug Cons.prems(2) by simp
    show ?thesis
    proof (cases found)
      case None
      then obtain rs' where "queue_inv {} (put_back q1 s hld) fs rs'" "frame {} q (put_back q1 s hld)"
        using d by (auto simp: dug_def)
      moreover have "drain (put_back q1 s hld) ss = (r, q')" using Cons.prems(3) False dg None by simp
      ultimately show ?thesis using Cons.IH Cons.prems(2) dug_frame by auto
    next
      case (Some x)
      then show ?thesis using Cons.prems(3) False dg d by auto
    qed
  qed
qed

text \<open>A slot reserved for a submit: held, RESERVED, its other data as before.\<close>

definition reserved_slot :: "task_queue \<Rightarrow> task_queue \<Rightarrow> u32 \<Rightarrow> bool" where
  "reserved_slot q q' x \<longleftrightarrow> (\<exists>fs rs. queue_inv {x} q' fs rs) \<and> frame {x} q q' \<and> unat x < tq_capacity q
     \<and> state_ok True False (tstate (slot_of q x))
     \<and> slot_data (slot_of q' x) = slot_data ((slot_of q x)\<lparr>tstate := RESERVED\<rparr>)"

lemma reserved_slot_frame:
  assumes "frame {} q q1" and "reserved_slot q1 q' x" shows "reserved_slot q q' x"
proof -
  have x: "unat x < tq_capacity q" using assms by (simp add: reserved_slot_def frame_def)
  have "slot_data ((slot_of q1 x)\<lparr>tstate := RESERVED\<rparr>) = slot_data ((slot_of q x)\<lparr>tstate := RESERVED\<rparr>)"
    by (rule slot_data_upd_state [OF frame_self [OF assms(1) x]])
  then show ?thesis using assms(2) x frame_trans [OF assms(1), of "{x}" q'] frame_state [OF assms(1) x]
    by (simp add: reserved_slot_def)
qed

lemma pop_free_reserve_spec:
  assumes inv: "queue_inv {} q fs rs" and r: "pop_free_reserve q c = (r, q', c')"
  shows "case r of None \<Rightarrow> q' = q \<and> members fs = {} | Some x \<Rightarrow> reserved_slot q q' x"
proof -
  obtain r1 q1 where pop: "pop_free q c = (r1, q1, c')"
    using r by (auto simp: pop_free_reserve_def split: prod.splits option.splits)
  from pop_free_cases [OF inv pop] show ?thesis
  proof (elim disjE exE conjE)
    fix x fs' assume x: "r1 = Some x" "queue_inv (insert x {}) q1 fs' rs" "frame {} q q1" "tslots q1 = tslots q"
      "unat x < tq_capacity q" "x \<in> members fs"
    have old: "state_ok True False (tstate (slot_of q x))"
      using inv_state [OF inv x(5)] x(6) by (simp add: state_ok_def)
    let ?s = "(slot_of q1 x)\<lparr>tstate := RESERVED\<rparr>"
    note h = inv_set_held [OF x(2) insertI1, of ?s]
    have len: "unat x < length (tslots q1)" using x(2) by (auto simp: queue_inv_def)
    have r': "r = Some x" "q' = set_slot (unat x) ?s q1" using r pop x(1) by (auto simp: pop_free_reserve_def)
    have "reserved_slot q q' x"
      using h x(3,5) frame_trans [OF x(3) h(2)] set_slot_same [OF len, of ?s] x(4) old
      unfolding reserved_slot_def r'(2) by auto
    then show ?thesis using r'(1) by simp
  qed (use r pop in \<open>auto simp: pop_free_reserve_def\<close>)
qed

lemma no_free_states:
  assumes "queue_inv {} q fs rs" and "members fs = {}" and "unat x < tq_capacity q"
  shows "tstate (slot_of q x) = QUEUED \<or> tstate (slot_of q x) = CLAIMED \<or> (tstate (slot_of q x) = CANCELLED \<and> cancelled q \<noteq> 0)"
proof -
  have ok: "state_ok False (x \<in> members rs) (tstate (slot_of q x))" using inv_state [OF assms(1,3)] assms(2) by simp
  moreover have "cancelled q \<noteq> 0" if "tstate (slot_of q x) = CANCELLED"
  proof -
    have "x \<in> {x \<in> members rs. tstate (slot_of q x) = CANCELLED}"
      using ok that by (auto simp: state_ok_def task_states split: if_splits)
    moreover have "finite {x \<in> members rs. tstate (slot_of q x) = CANCELLED}" by (simp add: members_def)
    ultimately have "0 < card {x \<in> members rs. tstate (slot_of q x) = CANCELLED}" by (auto simp: card_gt_0_iff)
    then show ?thesis using assms(1) by (metis (no_types, lifting) queue_inv_def less_numeral_extra(3) unat_0)
  qed
  ultimately show ?thesis by (auto simp: state_ok_def split: if_splits)
qed

text \<open>Reserving fails only when no slot is free, empty or finished.\<close>

lemma reserve_submit_slot_spec:
  assumes inv: "queue_inv {} q fs rs" and r: "reserve_submit_slot q c = (r, q', c')"
  shows "case r of
      None \<Rightarrow> queue_ok q' \<and> frame {} q q' \<and> members fs = {}
    | Some x \<Rightarrow> reserved_slot q q' x"
proof -
  obtain r1 q1 c1 where p: "pop_free_reserve q c = (r1, q1, c1)" by (metis prod_cases3)
  note sp = pop_free_reserve_spec [OF inv p]
  show ?thesis
  proof (cases r1)
    case (Some x)
    then show ?thesis using sp r p by (auto simp: reserve_submit_slot_def)
  next
    case None
    then have q1: "q1 = q" "members fs = {}" using sp by auto
    then have rc: "reserve_cancelled_ready q c1 = (r, q', c')" using r p None by (simp add: reserve_submit_slot_def)
    obtain r2 q2 where dr: "drain q [0..<SHARDS] = (r2, q2)" by fastforce
    have d: "dug q q2 fs {} r2" using drain_spec [OF inv _ dr] by simp
    show ?thesis
    proof (cases r2)
      case (Some x)
      then have "reserved_slot q q2 x" using d by (auto simp: dug_def reserved_slot_def)
      then show ?thesis using rc dr Some by (auto simp: reserve_cancelled_ready_def)
    next
      case None
      then obtain rs' where inv2: "queue_inv {} q2 fs rs'" and fr: "frame {} q q2" using d by (auto simp: dug_def)
      have p2: "pop_free_reserve q2 c1 = (r, q', c')" using rc dr None by (simp add: reserve_cancelled_ready_def)
      from pop_free_reserve_spec [OF inv2 p2] show ?thesis
        using inv2 fr q1(2) reserved_slot_frame [OF fr] by (auto simp: queue_ok_def split: option.splits)
    qed
  qed
qed

section \<open>The lease side table\<close>

abbreviation lease_at :: "task_queue \<Rightarrow> u32 \<Rightarrow> lease_slot" where
  "lease_at q x \<equiv> leases q ! unat x"

abbreviation lease_state :: "lease_slot \<Rightarrow> u32" where
  "lease_state l \<equiv> lease_word_state (lword l)"

definition lease_data :: "lease_slot \<Rightarrow> lease_slot" where
  "lease_data l = l\<lparr>lnext := 0\<rparr>"

text \<open>A record is on the free list exactly when it is retired; records in \<open>H\<close> are held.\<close>

definition lease_inv :: "u32 set \<Rightarrow> task_queue \<Rightarrow> u32 list \<Rightarrow> bool" where
  "lease_inv H q ls \<longleftrightarrow> length (leases q) < 2 ^ 32
     \<and> stack_of (lease_link (leases q)) (lease_free_head q) ls
     \<and> H \<inter> set ls = {} \<and> (\<forall>x\<in>set ls \<union> H. unat x < length (leases q))
     \<and> (\<forall>x. unat x < length (leases q) \<longrightarrow> x \<notin> H \<longrightarrow>
          (if x \<in> set ls then lease_state (lease_at q x) = LEASE_NONE
           else lease_state (lease_at q x) = LEASE_ARMED \<or> lease_state (lease_at q x) = LEASE_ACKED))"

lemma lease_inv_cong:
  "leases q' = leases q \<Longrightarrow> lease_free_head q' = lease_free_head q \<Longrightarrow> lease_inv H q' ls = lease_inv H q ls"
  by (simp add: lease_inv_def)

lemma frame_lease_inv: "frame X q q' \<Longrightarrow> lease_inv H q' ls = lease_inv H q ls"
  by (rule lease_inv_cong) (simp_all add: frame_def)

lemma queue_inv_leases [simp]:
  "queue_inv H (q\<lparr>leases := l\<rparr>) fs rs = queue_inv H q fs rs"
  "queue_inv H (q\<lparr>lease_free_head := h\<rparr>) fs rs = queue_inv H q fs rs"
  by (simp_all add: queue_inv_def)

lemma pop_lease_cases:
  assumes inv: "lease_inv H q ls" and pop: "pop_lease q = (r, q')"
  obtains (empty) "r = None" "q' = q" "ls = []"
  | (got) x xs h where "r = Some x" "q' = q\<lparr>lease_free_head := h\<rparr>" "ls = x # xs" "lease_inv (insert x H) q' xs"
      "x \<notin> H" "unat x < length (leases q)" "lease_state (lease_at q x) = LEASE_NONE"
proof (cases ls)
  case Nil
  have "stack_of (lease_link (leases q)) (lease_free_head q) []" using inv Nil by (simp add: lease_inv_def)
  from pop_Nil [OF this] show thesis using pop Nil by (intro empty) (auto simp: pop_lease_def)
next
  case (Cons x xs)
  have st: "stack_of (lease_link (leases q)) (lease_free_head q) (x # xs)" using inv Cons by (simp add: lease_inv_def)
  let ?h = "head_pack (head_tag (lease_free_head q) + 1) (lease_link (leases q) x)"
  note p = pop_Cons [OF st]
  have d: "x \<notin> set xs" using st by (simp add: stack_of_def)
  have x: "x \<notin> H" "unat x < length (leases q)" "lease_state (lease_at q x) = LEASE_NONE"
    using inv Cons by (auto simp: lease_inv_def)
  have q': "r = Some x" "q' = q\<lparr>lease_free_head := ?h\<rparr>" using pop p(1) by (auto simp: pop_lease_def)
  have "lease_inv (insert x H) q' xs"
    using inv p(2) d x Cons unfolding lease_inv_def q'(2) by auto
  then show thesis using got q' Cons x by blast
qed

lemma push_lease_inv:
  assumes inv: "lease_inv (insert x H) q ls" and x: "x \<notin> H" and st: "lease_state (lease_at q x) = LEASE_NONE"
  shows "lease_inv H (push_lease q x) (x # ls)"
    and "length (leases (push_lease q x)) = length (leases q)"
    and "lease_data (leases (push_lease q x) ! i) = lease_data (leases q ! i)"
    and "\<exists>h l. push_lease q x = q\<lparr>lease_free_head := h, leases := l\<rparr>"
proof -
  obtain h l where push: "treiber_push (lease_free_head q) x set_lease_link (leases q) = (h, l)" by fastforce
  have q': "push_lease q x = q\<lparr>lease_free_head := h, leases := l\<rparr>" using push by (simp add: push_lease_def)
  then show "\<exists>h l. push_lease q x = q\<lparr>lease_free_head := h, leases := l\<rparr>" by blast
  have l: "l = (leases q)[unat x := (leases q ! unat x)\<lparr>lnext := head_slot (lease_free_head q)\<rparr>]"
    using push by (auto simp: treiber_push_def case_prod_beta Let_def set_lease_link_def)
  show "length (leases (push_lease q x)) = length (leases q)" by (simp add: q' l)
  show "lease_data (leases (push_lease q x) ! i) = lease_data (leases q ! i)"
    by (cases "i = unat x"; cases "i < length (leases q)") (simp_all add: q' l lease_data_def list_update_beyond)
  have lw: "lword (l ! i) = lword (leases q ! i)" for i
    by (cases "i = unat x"; cases "i < length (leases q)") (simp_all add: l list_update_beyond)
  have nd: "unat y < length (leases q) \<and> y \<noteq> EMPTY" if "y \<in> insert x (set ls)" for y
    using inv that not_EMPTY [of y "length (leases q)"] by (auto simp: lease_inv_def)
  have "stack_of (lease_link l) h (x # ls)"
    by (rule lease_links.push_stack [OF _ _ _ _ push]) (use inv nd in \<open>auto simp: lease_inv_def\<close>)
  then show "lease_inv H (push_lease q x) (x # ls)"
    using inv x st lw unfolding lease_inv_def q' by (auto simp: l)
qed

text \<open>Rewriting a record that is off the free list keeps the table.\<close>

lemma lease_rewrite:
  assumes inv: "lease_inv H q ls" and x: "unat x < length (leases q)" "x \<notin> set ls"
    and st: "lease_state l = LEASE_ARMED \<or> lease_state l = LEASE_ACKED"
  shows "lease_inv (H - {x}) (q\<lparr>leases := (leases q)[unat x := l]\<rparr>) ls"
proof -
  have other: "(leases q)[unat x := l] ! unat y = lease_at q y" if "y \<noteq> x" for y
    using that by (simp add: word_unat_eq_iff)
  have "lease_link ((leases q)[unat x := l]) y = lease_link (leases q) y" if "y \<in> set ls" for y
    using that x(2) other [of y] by (cases "y = x") (simp_all add: lease_link_def)
  then have st': "stack_of (lease_link ((leases q)[unat x := l])) (lease_free_head q) ls"
    using inv stack_of_cong [of ls "lease_link ((leases q)[unat x := l])" "lease_link (leases q)"]
    by (simp add: lease_inv_def)
  have "if y \<in> set ls then lease_state ((leases q)[unat x := l] ! unat y) = LEASE_NONE
      else lease_state ((leases q)[unat x := l] ! unat y) = LEASE_ARMED
        \<or> lease_state ((leases q)[unat x := l] ! unat y) = LEASE_ACKED"
    if "unat y < length (leases q)" "y \<notin> H - {x}" for y
    using inv that x st other [of y] by (cases "y = x") (auto simp: lease_inv_def)
  then show ?thesis using inv st' by (auto simp: lease_inv_def)
qed

section \<open>The whole submit\<close>

definition slots_kept :: "u32 set \<Rightarrow> task_queue \<Rightarrow> task_queue \<Rightarrow> bool" where
  "slots_kept X q q' \<longleftrightarrow> tq_capacity q' = tq_capacity q \<and> max_retries q' = max_retries q
     \<and> (\<forall>x. unat x < tq_capacity q \<longrightarrow> x \<notin> X \<longrightarrow> slot_data (slot_of q' x) = slot_data (slot_of q x))"

lemma frame_kept: "frame X q q' \<Longrightarrow> slots_kept X q q'"
  by (simp add: frame_def slots_kept_def)

lemma slots_kept_refl [simp]: "slots_kept X q q"
  by (simp add: slots_kept_def)

lemma slots_kept_trans: "slots_kept X q q' \<Longrightarrow> slots_kept Y q' q'' \<Longrightarrow> slots_kept (X \<union> Y) q q''"
  by (simp add: slots_kept_def)

lemma slots_kept_leases [simp]:
  "slots_kept X q (q'\<lparr>leases := l\<rparr>) = slots_kept X q q'" "slots_kept X q (q'\<lparr>lease_free_head := h\<rparr>) = slots_kept X q q'"
  by (simp_all add: slots_kept_def)

definition lease_ok :: "task_queue \<Rightarrow> bool" where
  "lease_ok q \<longleftrightarrow> (\<exists>ls. lease_inv {} q ls)"

definition submitted :: "chunk_desc \<Rightarrow> u64 \<Rightarrow> task_slot \<Rightarrow> task_slot" where
  "submitted request dl s = (fill_slot request dl s)\<lparr>tstate := QUEUED\<rparr>"

lemma arm_state [simp]: "lease_state (arm b i sq dl l) = LEASE_ARMED"
  by (simp add: arm_def Let_def)

text \<open>The reserved slot is filled and published.\<close>

lemma fill_publish:
  fixes request :: chunk_desc and dl :: u64
  assumes res: "reserved_slot q0 q1 x" and sh: "sh < SHARDS"
  defines "q2 \<equiv> set_slot (unat x) (fill_slot request dl (tslots q1 ! unat x)) q1"
  shows "queue_ok (publish_queued q2 sh x)" and "frame {x} q0 (publish_queued q2 sh x)"
    and "slot_data (slot_of (publish_queued q2 sh x) x) = slot_data (submitted request dl (slot_of q0 x))"
    and "tseq (fill_slot request dl (tslots q1 ! unat x)) = tseq (slot_of q0 x) + 1"
proof -
  obtain fs rs where inv1: "queue_inv (insert x {}) q1 fs rs" and fr1: "frame {x} q0 q1"
    and d: "slot_data (slot_of q1 x) = slot_data ((slot_of q0 x)\<lparr>tstate := RESERVED\<rparr>)"
    using res by (auto simp: reserved_slot_def)
  note h = inv_set_held [OF inv1 insertI1, of "fill_slot request dl (slot_of q1 x)", folded q2_def]
  note fin = held_to_ready [OF h(1) _ sh]
  show "queue_ok (publish_queued q2 sh x)" using fin(1) by (auto simp: queue_ok_def)
  show "frame {x} q0 (publish_queued q2 sh x)"
    using frame_trans [OF fr1 frame_trans [OF h(2) fin(2)]] by simp
  have len: "unat x < length (tslots q1)" using inv1 by (auto simp: queue_inv_def)
  have "slot_of q2 x = fill_slot request dl (slot_of q1 x)" unfolding q2_def by (rule set_slot_same [OF len])
  moreover have "slot_data ((fill_slot request dl (slot_of q1 x))\<lparr>tstate := QUEUED\<rparr>) = slot_data (submitted request dl (slot_of q0 x))"
    using d by (cases "slot_of q1 x"; cases "slot_of q0 x") (simp add: slot_data_def submitted_def fill_slot_def)
  ultimately show "slot_data (slot_of (publish_queued q2 sh x) x) = slot_data (submitted request dl (slot_of q0 x))"
    using fin(3) by simp
  show "tseq (fill_slot request dl (tslots q1 ! unat x)) = tseq (slot_of q0 x) + 1"
    using slot_data_eqD(3) [OF d] by (simp add: fill_slot_def)
qed

lemma publish_leases: "publish_queued (q\<lparr>leases := l\<rparr>) s x = (publish_queued q s x)\<lparr>leases := l\<rparr>"
  by (simp add: publish_queued_def push_ready_def set_slot_def split: prod.split)

lemma queue_ok_leases [simp]:
  "queue_ok (q\<lparr>leases := l\<rparr>) = queue_ok q" "queue_ok (q\<lparr>lease_free_head := h\<rparr>) = queue_ok q"
  by (simp_all add: queue_ok_def)

definition submit_post ::
  "task_queue \<Rightarrow> task_queue \<Rightarrow> chunk_desc \<Rightarrow> u64 \<Rightarrow> lease_binding option \<Rightarrow> task_handle \<Rightarrow> bool" where
  "submit_post q q' request dl input h \<longleftrightarrow> (let x = slot_idx h in
     slots_kept {x} q q' \<and> unat x < tq_capacity q \<and> state_ok True False (tstate (slot_of q x))
   \<and> hseq h = tseq (slot_of q x) + 1
   \<and> slot_data (slot_of q' x) = slot_data (submitted request dl (slot_of q x))
   \<and> (case input of
        None \<Rightarrow> leases q' = leases q
      | Some b \<Rightarrow> \<exists>k<length (leases q). lease_state (leases q ! k) = LEASE_NONE
          \<and> leases q' = (leases q)[k := arm b x (hseq h) dl (leases q ! k)]))"

text \<open>Without a binding, and with one whose record \<open>k\<close> has been popped.\<close>

lemma submit_plain:
  assumes inv: "queue_inv {} q fs rs" and linv: "lease_inv {} q ls"
    and r: "submit_inner q c request dl None = (r, q', c')"
  shows "queue_ok q' \<and> lease_ok q' \<and>
    (case r of Inl e \<Rightarrow> e = QueueFull \<and> slots_kept {} q q' \<and> members fs = {} \<and> leases q' = leases q
     | Inr h \<Rightarrow> submit_post q q' request dl None h)"
proof -
  obtain ri q1 c1 where rs: "reserve_submit_slot q c = (ri, q1, c1)" by (metis prod_cases3)
  note sp = reserve_submit_slot_spec [OF inv rs]
  show ?thesis
  proof (cases ri)
    case None
    then have "r = Inl QueueFull" "q' = q1" using r rs by (auto simp: submit_inner_def)
    then show ?thesis
      using sp None linv frame_lease_inv [of "{}" q q1 "{}" ls] frame_kept [of "{}" q q1]
      by (auto simp: lease_ok_def frame_def)
  next
    case (Some x)
    then have res: "reserved_slot q q1 x" using sp by simp
    obtain s c2 where ns: "next_shard c1 = (s, c2)" by fastforce
    note f = fill_publish [OF res next_shard_bound [OF ns], of request dl]
    have h: "r = Inr \<lparr>slot_idx = x, hseq = tseq (slot_of q x) + 1\<rparr>"
      and q': "q' = publish_queued (set_slot (unat x) (fill_slot request dl (tslots q1 ! unat x)) q1) s x"
      using r rs Some ns f(4) by (auto simp: submit_inner_def Let_def)
    have ll: "lease_ok q'" "leases q' = leases q"
      using linv frame_lease_inv [OF f(2), of "{}" ls] f(2) unfolding q' lease_ok_def by (auto simp: frame_def)
    show ?thesis
      using f(1,3) frame_kept [OF f(2)] res ll unfolding q' h submit_post_def by (simp add: Let_def reserved_slot_def)
  qed
qed

lemma reserve_leases:
  assumes "queue_inv {} q fs rs" and "reserve_submit_slot q c = (ri, q1, c1)"
  shows "leases q1 = leases q" and "lease_free_head q1 = lease_free_head q"
  using reserve_submit_slot_spec [OF assms]
  by (cases ri; auto simp: frame_def reserved_slot_def)+

lemma submit_bound:
  assumes inv: "queue_inv {} q fs rs" and linv: "lease_inv {} q ls"
    and r: "submit_inner q c request dl (Some b) = (r, q', c')"
  shows "queue_ok q' \<and> lease_ok q' \<and>
    (case r of Inl e \<Rightarrow> slots_kept {} q q' \<and> (e = LeaseTableFull \<and> ls = [] \<or> e = QueueFull \<and> members fs = {})
     | Inr h \<Rightarrow> submit_post q q' request dl (Some b) h)"
proof -
  obtain li q0 where pl: "pop_lease q = (li, q0)" by fastforce
  from linv pl show ?thesis
  proof (cases rule: pop_lease_cases)
    case empty
    then have "r = Inl LeaseTableFull" "q' = q" using r pl by (auto simp: submit_inner_def)
    then show ?thesis using inv linv empty by (auto simp: queue_ok_def lease_ok_def)
  next
    case (got k xs h0)
    have inv0: "queue_inv {} q0 fs rs" using inv got by simp
    obtain ri q1 c1 where rs: "reserve_submit_slot q0 c = (ri, q1, c1)" by (metis prod_cases3)
    note sp = reserve_submit_slot_spec [OF inv0 rs]
    note rl = reserve_leases [OF inv0 rs]
    have linv1: "lease_inv {k} q1 xs" using lease_inv_cong [OF rl, of "{k}" xs] got(4) by simp
    have kept0: "slots_kept X q q0" for X using got(2) by simp
    have k: "unat k < length (leases q1)" "lease_state (lease_at q1 k) = LEASE_NONE" "leases q1 = leases q"
      using got rl by simp_all
    show ?thesis
    proof (cases ri)
      case None
      then have e: "r = Inl QueueFull" "q' = push_lease q1 k" using r rs pl got(1) by (auto simp: submit_inner_def)
      have full: "queue_ok q1" "slots_kept {} q0 q1" "members fs = {}" using sp None frame_kept [of "{}" q0 q1] by auto
      note p = push_lease_inv [of k "{}" q1 xs, OF linv1 _ k(2)]
      obtain h l where q': "q' = q1\<lparr>lease_free_head := h, leases := l\<rparr>" using p(4) e(2) by auto
      have "queue_ok q'" using full(1) by (simp add: q')
      moreover have "lease_ok q'" using p(1) e(2) by (auto simp: lease_ok_def)
      moreover have "slots_kept {} q q'" using slots_kept_trans [OF kept0 full(2), of "{}"] by (simp add: q')
      ultimately show ?thesis using e(1) full(3) by simp
    next
      case (Some x)
      then have res: "reserved_slot q0 q1 x" using sp by simp
      obtain s c2 where ns: "next_shard c1 = (s, c2)" by fastforce
      note f = fill_publish [OF res next_shard_bound [OF ns], of request dl]
      let ?q2 = "set_slot (unat x) (fill_slot request dl (tslots q1 ! unat x)) q1"
      let ?p = "publish_queued ?q2 s x"
      let ?l = "(leases q)[unat k := arm b x (tseq (slot_of q0 x) + 1) dl (lease_at q k)]"
      have h: "r = Inr \<lparr>slot_idx = x, hseq = tseq (slot_of q0 x) + 1\<rparr>" and q': "q' = ?p\<lparr>leases := ?l\<rparr>"
        using r rs pl got(1) Some ns f(4) k(3)
        by (auto simp: submit_inner_def Let_def publish_leases set_slot_def)
      have lp: "leases ?p = leases q" using f(2) got(2) by (simp add: frame_def)
      have lip: "lease_inv {k} ?p xs" using frame_lease_inv [OF f(2), of "{k}" xs] got(4) by simp
      moreover have "unat k < length (leases ?p)" "k \<notin> set xs"
        using lp got(6) lip by (auto simp: lease_inv_def)
      ultimately have "lease_inv ({k} - {k}) (?p\<lparr>leases := (leases ?p)[unat k := arm b x (tseq (slot_of q0 x) + 1) dl (lease_at q k)]\<rparr>) xs"
        by (rule lease_rewrite) simp
      then have "lease_inv {} q' xs" unfolding q' lp by simp
      then have lo: "lease_ok q'" by (auto simp: lease_ok_def)
      have kp: "slots_kept {x} q q'" using slots_kept_trans [OF kept0 frame_kept [OF f(2)], of "{}"] by (simp add: q')
      have same: "slot_of q0 x = slot_of q x" "tq_capacity q0 = tq_capacity q" using got(2) by simp_all
      have qk: "queue_ok q'" using f(1) by (simp add: q')
      have le: "\<exists>k<length (leases q). lease_state (leases q ! k) = LEASE_NONE
          \<and> leases q' = (leases q)[k := arm b x (tseq (slot_of q x) + 1) dl (leases q ! k)]"
        using got(6,7) by (intro exI [of _ "unat k"]) (simp add: q' same)
      have "submit_post q q' request dl (Some b) \<lparr>slot_idx = x, hseq = tseq (slot_of q0 x) + 1\<rparr>"
        using kp res f(3) le unfolding submit_post_def same by (simp add: Let_def reserved_slot_def same q')
      then show ?thesis using qk lo h by simp
    qed
  qed
qed

section \<open>Cancelling\<close>

lemma card_slots:
  assumes "\<forall>x\<in>S. unat (x :: u32) < n"
  shows "card S \<le> n"
proof -
  have "inj_on unat S" by (rule inj_onI) (simp add: word_unat_eq_iff)
  then have "card S = card (unat ` S)" by (simp add: card_image)
  also have "\<dots> \<le> card {..<n}" using assms by (intro card_mono) auto
  finally show ?thesis by simp
qed

lemma cancel_queued:
  assumes inv: "queue_inv {} q fs rs" and x: "unat x < tq_capacity q" and st: "tstate (slot_of q x) = QUEUED"
  defines "q' \<equiv> set_slot (unat x) ((slot_of q x)\<lparr>tstate := CANCELLED\<rparr>) (q\<lparr>cancelled := cancelled q + 1\<rparr>)"
  shows "queue_inv {} q' fs rs" and "frame {x} q q'"
    and "slot_of q' x = (slot_of q x)\<lparr>tstate := CANCELLED\<rparr>"
proof -
  have len: "unat x < length (tslots q)" using inv x by (simp add: queue_inv_def)
  show same: "slot_of q' x = (slot_of q x)\<lparr>tstate := CANCELLED\<rparr>"
    unfolding q'_def by (rule set_slot_same) (use len in simp)
  have other: "slot_of q' y = slot_of q y" if "y \<noteq> x" for y
    using that by (simp add: q'_def set_slot_def word_unat_eq_iff)
  have "slot_link (tslots q') y = slot_link (tslots q) y" for y
    using same other [of y] by (cases "y = x") (simp_all add: slot_link_def)
  then have link: "slot_link (tslots q') = slot_link (tslots q)" by blast
  have xr: "x \<in> members rs" by (rule queued_iff_ready [OF inv x st])
  have xf: "x \<notin> members fs" using inv xr by (auto simp: queue_inv_def)
  let ?C = "{y \<in> members rs. tstate (slot_of q y) = CANCELLED}"
  have set: "{y \<in> members rs. tstate (slot_of q' y) = CANCELLED} = insert x ?C"
  proof (rule set_eqI)
    fix y show "y \<in> {y \<in> members rs. tstate (slot_of q' y) = CANCELLED} \<longleftrightarrow> y \<in> insert x ?C"
      using xr same other [of y] by (cases "y = x") simp_all
  qed
  have fin: "finite ?C" and xC: "x \<notin> ?C" using st by (auto simp: members_def task_states)
  have bnd: "\<forall>y\<in>insert x ?C. unat y < tq_capacity q" using inv x by (auto simp: queue_inv_def)
  have cnt: "unat (cancelled q) = card ?C" using inv by (simp add: queue_inv_def)
  have "card (insert x ?C) < 2 ^ 32" using card_slots [OF bnd] inv by (simp add: queue_inv_def)
  moreover have "unat (- 1 :: u32) = 4294967295" by (simp add: unsigned_minus_1_eq_mask mask_eq_exp_minus_1)
  ultimately have "unat (cancelled q) \<noteq> unat (- 1 :: u32)" using cnt fin xC by simp
  then have "cancelled q \<noteq> - 1" by metis
  then have "unat (cancelled q + 1) = card (insert x ?C)" using cnt fin xC by (simp add: unat_Suc_word)
  moreover have "state_ok (y \<in> members fs) (y \<in> members rs) (tstate (slot_of q' y))" if "unat y < tq_capacity q" for y
    using inv_state [OF inv that] xr xf same other [of y] by (cases "y = x") (auto simp: state_ok_def)
  ultimately show "queue_inv {} q' fs rs"
    using inv unfolding queue_inv_def set link by (simp add: q'_def set_slot_def)
  show "frame {x} q q'" using other by (simp add: frame_def q'_def set_slot_def)
qed

lemma cancel_spec:
  assumes inv: "queue_inv {} q fs rs" and r: "cancel q h = (r, q')" and x: "x = slot_idx h"
  shows "queue_ok q' \<and> leases q' = leases q \<and> lease_free_head q' = lease_free_head q \<and>
    (if unat x \<ge> tq_capacity q \<or> tseq (slot_of q x) \<noteq> hseq h then r = Inl StaleHandle \<and> q' = q
     else r = Inr () \<and> slots_kept {x} q q' \<and>
       slot_of q' x = (if tstate (slot_of q x) = QUEUED then (slot_of q x)\<lparr>tstate := CANCELLED\<rparr>
                       else if tstate (slot_of q x) = CLAIMED then (slot_of q x)\<lparr>tcancel := 1\<rparr> else slot_of q x))"
proof -
  have same: "q\<lparr>cancelled := cancelled q\<rparr> = q" by (cases q) simp
  consider (stale) "unat x \<ge> tq_capacity q \<or> tseq (slot_of q x) \<noteq> hseq h"
    | (queued) "unat x < tq_capacity q" "tseq (slot_of q x) = hseq h" "tstate (slot_of q x) = QUEUED"
    | (claimed) "unat x < tq_capacity q" "tseq (slot_of q x) = hseq h" "tstate (slot_of q x) = CLAIMED"
    | (other) "unat x < tq_capacity q" "tseq (slot_of q x) = hseq h" "tstate (slot_of q x) \<noteq> QUEUED" "tstate (slot_of q x) \<noteq> CLAIMED"
    by linarith
  then show ?thesis
  proof cases
    case stale
    then have "r = Inl StaleHandle" "q' = q" using r unfolding cancel_def Let_def x by (auto split: if_splits)
    then show ?thesis using inv stale by (auto simp: queue_ok_def)
  next
    case queued
    have q': "r = Inr ()" "q' = set_slot (unat x) ((slot_of q x)\<lparr>tstate := CANCELLED\<rparr>) (q\<lparr>cancelled := cancelled q + 1\<rparr>)"
      using queued r x by (simp_all add: cancel_def Let_def try_cancel_queued_def cas_state_def compare_exchange_def)
    note c = cancel_queued [OF inv queued(1,3), folded q'(2)]
    show ?thesis using q'(1) queued c frame_kept [OF c(2)] c(2) by (auto simp: queue_ok_def frame_def)
  next
    case claimed
    let ?s = "(slot_of q x)\<lparr>tcancel := 1\<rparr>"
    have q': "r = Inr ()" "q' = set_slot (unat x) ?s q"
      using claimed r x same by (simp_all add: cancel_def Let_def try_cancel_queued_def cas_state_def compare_exchange_def task_states)
    have st: "tstate ?s = CLAIMED" using claimed by simp
    note c = inv_rewrite_claimed [OF inv claimed(1) _ claimed(3) st, folded q'(2)]
    have len: "unat x < length (tslots q)" using inv claimed by (simp add: queue_inv_def)
    show ?thesis using q' claimed c frame_kept [OF c(2)] c(2) set_slot_same [OF len, of ?s]
      by (auto simp: queue_ok_def frame_def task_states)
  next
    case other
    then have "r = Inr ()" "q' = q"
      using r x same by (simp_all add: cancel_def Let_def try_cancel_queued_def cas_state_def compare_exchange_def)
    then show ?thesis using inv other by (auto simp: queue_ok_def)
  qed
qed

section \<open>Reaping lapsed claims\<close>

text \<open>What a sweep at time \<open>now\<close> makes of one slot.\<close>

definition lapsed :: "u64 \<Rightarrow> task_slot \<Rightarrow> bool" where
  "lapsed now s \<longleftrightarrow> tstate s = CLAIMED \<and> tdeadline s < now"

definition reaped :: "u64 \<Rightarrow> u32 \<Rightarrow> task_slot \<Rightarrow> task_slot" where
  "reaped now maxr s =
     (if lapsed now s then
        if tretry s < maxr then s\<lparr>tstate := QUEUED, tretry := tretry s + 1, towner := TOWNER_NONE\<rparr>
        else s\<lparr>tstate := FAILED\<rparr>
      else s)"

lemma reap_slot_spec:
  assumes inv: "queue_inv {} q fs rs" and i: "i < tq_capacity q"
    and r: "reap_slot now i (q, c, rep) = (q', c', rep')"
  defines "s \<equiv> tslots q ! i"
  shows "queue_ok q'" and "frame {of_nat i} q q'"
    and "slot_data (tslots q' ! i) = slot_data (reaped now (max_retries q) s)"
    and "rep' = (if lapsed now s then if tretry s < max_retries q then rep\<lparr>requeued := requeued rep + 1\<rparr>
                   else rep\<lparr>rfailed := rfailed rep + 1\<rparr> else rep)"
proof -
  let ?x = "of_nat i :: u32"
  note x = idx_of_nat [OF inv i]
  have goal: "queue_ok q' \<and> frame {?x} q q' \<and> slot_data (slot_of q' ?x) = slot_data (reaped now (max_retries q) s)
    \<and> rep' = (if lapsed now s then if tretry s < max_retries q then rep\<lparr>requeued := requeued rep + 1\<rparr>
                   else rep\<lparr>rfailed := rfailed rep + 1\<rparr> else rep)"
  proof (cases "lapsed now s")
    case False
    then have "q' = q" "rep' = rep" using r by (auto simp: reap_slot_def lapsed_def s_def Let_def split: if_splits)
    then show ?thesis using inv False x by (auto simp: queue_ok_def reaped_def s_def)
  next
    case l: True
    then have cl: "unat ?x < tq_capacity q" "tstate (slot_of q ?x) = CLAIMED" "tstate s = CLAIMED" "\<not> now \<le> tdeadline s"
      using i x by (simp_all add: lapsed_def s_def not_le)
    show ?thesis
    proof (cases "tretry s < max_retries q")
      case False
      let ?s = "s\<lparr>tstate := FAILED\<rparr>"
      have p: "push_free (set_slot (unat ?x) ?s q) c ?x = (q', c')" "rep' = rep\<lparr>rfailed := rfailed rep + 1\<rparr>"
        using r cl(3,4) False x unfolding reap_slot_def prod.case s_def [symmetric] Let_def
        by (simp_all add: not_less try_fail_def cas_state_def compare_exchange_def split: prod.splits)
      have "state_ok True False (tstate ?s)" by (simp add: state_ok_def)
      from claimed_to_free [OF inv cl(1,2) this p(1)] show ?thesis
        using l False p(2) by (simp add: reaped_def)
    next
      case True
      let ?s = "s\<lparr>tstate := RESERVED, tretry := tretry s + 1, towner := TOWNER_NONE\<rparr>"
      let ?q1 = "set_slot (unat ?x) ?s q"
      have ge: "\<not> max_retries q \<le> tretry s" using True by (simp add: not_le)
      have sh: "i mod SHARDS < SHARDS" by (simp add: SHARDS_def)
      have p: "q' = publish_queued ?q1 (i mod SHARDS) ?x" "rep' = rep\<lparr>requeued := requeued rep + 1\<rparr>"
        using r cl(3,4) ge x unfolding reap_slot_def prod.case s_def [symmetric] Let_def
        by (simp_all add: try_begin_reap_requeue_def cas_state_def compare_exchange_def)
      have held: "queue_inv (insert ?x {}) q fs rs" using claimed_off_stacks(3) [OF inv cl(1) _ cl(2)] by simp
      note h = inv_set_held [OF held insertI1, of ?s]
      have len: "unat ?x < length (tslots q)" using inv cl(1) by (simp add: queue_inv_def)
      note fin = held_to_ready [OF h(1) _ sh, folded p(1)]
      have "slot_data (slot_of q' ?x) = slot_data (?s\<lparr>tstate := QUEUED\<rparr>)"
        using fin(3) unfolding set_slot_same [OF len] by simp
      moreover have "?s\<lparr>tstate := QUEUED\<rparr> = reaped now (max_retries q) s"
        using l True by (cases s) (simp add: reaped_def)
      moreover have "frame {?x} q q'" using frame_trans [OF h(2) fin(2)] by simp
      moreover have "queue_ok q'" using fin(1) by (auto simp: queue_ok_def)
      ultimately show ?thesis using l True p(2) by simp
    qed
  qed
  then show "queue_ok q'" "frame {?x} q q'"
    "slot_data (tslots q' ! i) = slot_data (reaped now (max_retries q) s)"
    "rep' = (if lapsed now s then if tretry s < max_retries q then rep\<lparr>requeued := requeued rep + 1\<rparr>
                   else rep\<lparr>rfailed := rfailed rep + 1\<rparr> else rep)"
    using x by simp_all
qed

lemma reaped_data: "slot_data a = slot_data b \<Longrightarrow> slot_data (reaped now m a) = slot_data (reaped now m b)"
  by (cases a; cases b) (simp add: slot_data_def reaped_def lapsed_def)

definition reap_counts :: "u64 \<Rightarrow> u32 \<Rightarrow> task_slot list \<Rightarrow> nat \<times> nat" where
  "reap_counts now m sl =
     (length (filter (\<lambda>s. lapsed now s \<and> tretry s < m) sl), length (filter (\<lambda>s. lapsed now s \<and> \<not> tretry s < m) sl))"

lemma reap_counts_snoc:
  "reap_counts now m (sl @ [s]) = (case reap_counts now m sl of (a, b) \<Rightarrow>
     (if lapsed now s then if tretry s < m then (a + 1, b) else (a, b + 1) else (a, b)))"
  by (simp add: reap_counts_def)

lemma reap_fold:
  assumes inv: "queue_inv {} q fs rs" and n: "n \<le> tq_capacity q"
  shows "\<exists>q' c' rep'. fold (reap_slot now) [0..<n] (q, c, \<lparr>requeued = 0, rfailed = 0\<rparr>) = (q', c', rep')
    \<and> queue_ok q' \<and> tq_capacity q' = tq_capacity q \<and> max_retries q' = max_retries q
    \<and> leases q' = leases q \<and> lease_free_head q' = lease_free_head q
    \<and> (\<forall>i<tq_capacity q. slot_data (tslots q' ! i) =
         slot_data (if i < n then reaped now (max_retries q) (tslots q ! i) else tslots q ! i))
    \<and> (requeued rep', rfailed rep') = map_prod of_nat of_nat (reap_counts now (max_retries q) (take n (tslots q)))"
  using n
proof (induction n)
  case 0
  then show ?case using inv by (auto simp: queue_ok_def reap_counts_def)
next
  case (Suc n)
  then obtain q1 c1 rep1 where IH: "fold (reap_slot now) [0..<n] (q, c, \<lparr>requeued = 0, rfailed = 0\<rparr>) = (q1, c1, rep1)"
    "queue_ok q1" "tq_capacity q1 = tq_capacity q" "max_retries q1 = max_retries q"
    "leases q1 = leases q" "lease_free_head q1 = lease_free_head q"
    "\<forall>i<tq_capacity q. slot_data (tslots q1 ! i) = slot_data (if i < n then reaped now (max_retries q) (tslots q ! i) else tslots q ! i)"
    "(requeued rep1, rfailed rep1) = map_prod of_nat of_nat (reap_counts now (max_retries q) (take n (tslots q)))" by auto
  obtain fs1 rs1 where inv1: "queue_inv {} q1 fs1 rs1" using IH(2) by (auto simp: queue_ok_def)
  obtain q' c' rep' where st: "reap_slot now n (q1, c1, rep1) = (q', c', rep')" by (metis prod_cases3)
  have n: "n < tq_capacity q1" using Suc.prems IH(3) by simp
  note sp = reap_slot_spec [OF inv1 n st]
  have d: "slot_data (tslots q1 ! n) = slot_data (tslots q ! n)" using IH(7) Suc.prems by simp
  note dd = slot_data_eqD [OF d]
  have new: "slot_data (tslots q' ! i) = slot_data (if i < Suc n then reaped now (max_retries q) (tslots q ! i) else tslots q ! i)"
    if i: "i < tq_capacity q" for i
  proof (cases "i = n")
    case True
    then show ?thesis using sp(3) reaped_data [OF d] IH(4) by simp
  next
    case False
    have "of_nat i \<noteq> (of_nat n :: u32)"
      using False idx_of_nat [OF inv1 n] idx_of_nat [OF inv1, of i] i IH(3) by metis
    moreover have "unat (of_nat i :: u32) = i" using idx_of_nat [OF inv1, of i] i IH(3) by simp
    ultimately have "slot_data (tslots q' ! i) = slot_data (tslots q1 ! i)"
      using sp(2) i IH(3) unfolding frame_def by (metis singletonD)
    then show ?thesis using IH(7) i False by (simp add: less_Suc_eq)
  qed
  have tk: "take (Suc n) (tslots q) = take n (tslots q) @ [tslots q ! n]"
    using Suc.prems inv by (simp add: take_Suc_conv_app_nth queue_inv_def)
  have rep: "(requeued rep', rfailed rep') = map_prod of_nat of_nat (reap_counts now (max_retries q) (take (Suc n) (tslots q)))"
    using sp(4) IH(8) dd IH(4) unfolding tk reap_counts_snoc lapsed_def
    by (cases "reap_counts now (max_retries q) (take n (tslots q))") (simp split: if_splits)
  show ?case using IH st sp(1,2) new rep by (simp add: frame_def)
qed

lemma reap_spec:
  assumes inv: "queue_inv {} q fs rs" and r: "reap q c now = (q', c', rep)"
  shows "queue_ok q'" and "tq_capacity q' = tq_capacity q" and "max_retries q' = max_retries q"
    and "leases q' = leases q" and "lease_free_head q' = lease_free_head q"
    and "\<And>i. i < tq_capacity q \<Longrightarrow> slot_data (tslots q' ! i) = slot_data (reaped now (max_retries q) (tslots q ! i))"
    and "(requeued rep, rfailed rep) = map_prod of_nat of_nat (reap_counts now (max_retries q) (tslots q))"
  using reap_fold [OF inv order_refl, of now c] r inv by (auto simp: reap_def queue_inv_def)

section \<open>Acknowledging and releasing bindings\<close>

definition ack_matches :: "task_handle \<Rightarrow> lease_slot \<Rightarrow> bool" where
  "ack_matches h l \<longleftrightarrow> lease_state l = LEASE_ARMED \<and> lslot_idx l = slot_idx h \<and> lseq l = hseq h"

definition acked :: "task_handle \<Rightarrow> lease_slot \<Rightarrow> lease_slot" where
  "acked h l = (if ack_matches h l then l\<lparr>lword := pack_lease_word (lease_word_gen (lword l)) LEASE_ACKED\<rparr> else l)"

definition freed :: "lease_slot \<Rightarrow> lease_slot" where
  "freed l = l\<lparr>lword := pack_lease_word (lease_word_gen (lword l)) LEASE_NONE\<rparr>"

definition binding_of :: "lease_slot \<Rightarrow> lease_binding" where
  "binding_of l = \<lparr>lb_artifact_id = lartifact_id l, lb_incarnation = lincarnation l, lb_version = lversion l\<rparr>"

lemma ack_record_eq:
  "ack_record h i (q, n) = (q\<lparr>leases := (leases q)[i := acked h (leases q ! i)]\<rparr>,
     if ack_matches h (leases q ! i) then n + 1 else n)"
proof (cases "ack_matches h (leases q ! i)")
  case True
  then show ?thesis by (simp add: ack_record_def Let_def ack_matches_def acked_def try_ack_def compare_exchange_def)
next
  case False
  have "q\<lparr>leases := leases q\<rparr> = q" by (cases q) simp
  then show ?thesis using False by (auto simp: ack_record_def Let_def ack_matches_def acked_def)
qed

lemma ack_fold:
  assumes "n \<le> length (leases q)"
  shows "fold (ack_record h) [0..<n] (q, 0) =
     (q\<lparr>leases := map (acked h) (take n (leases q)) @ drop n (leases q)\<rparr>, length (filter (ack_matches h) (take n (leases q))))"
  using assms
proof (induction n)
  case (Suc n)
  let ?l = "leases q ! n" and ?ls = "map (acked h) (take n (leases q)) @ drop n (leases q)"
  have tk: "take (Suc n) (leases q) = take n (leases q) @ [?l]" "drop n (leases q) = ?l # drop (Suc n) (leases q)"
    using Suc.prems by (simp_all add: take_Suc_conv_app_nth Cons_nth_drop_Suc)
  have len: "length (map (acked h) (take n (leases q))) = n" using Suc.prems by simp
  have nth: "?ls ! n = ?l" and upd: "?ls[n := l'] = map (acked h) (take n (leases q)) @ l' # drop (Suc n) (leases q)" for l'
    unfolding tk using len by (metis nth_append_length) (metis list_update_length len)
  have "fold (ack_record h) [0..<Suc n] (q, 0)
      = ack_record h n (q\<lparr>leases := ?ls\<rparr>, length (filter (ack_matches h) (take n (leases q))))"
    using Suc by simp
  also have "\<dots> = (q\<lparr>leases := ?ls[n := acked h ?l]\<rparr>, length (filter (ack_matches h) (take (Suc n) (leases q))))"
    unfolding ack_record_eq by (simp add: nth tk(1))
  finally show ?case unfolding upd tk(1) by simp
qed simp

lemma lease_inv_map:
  assumes inv: "lease_inv {} q ls" and link: "\<And>l. lnext (f l) = lnext l"
    and st: "\<And>l. lease_state l = LEASE_NONE \<Longrightarrow> lease_state (f l) = LEASE_NONE"
    and st': "\<And>l. lease_state l = LEASE_ARMED \<or> lease_state l = LEASE_ACKED \<Longrightarrow>
                lease_state (f l) = LEASE_ARMED \<or> lease_state (f l) = LEASE_ACKED"
  shows "lease_inv {} (q\<lparr>leases := map f (leases q)\<rparr>) ls"
proof -
  have bnd: "\<forall>x\<in>set ls. unat x < length (leases q)" using inv by (simp add: lease_inv_def)
  have "stack_of (lease_link (map f (leases q))) (lease_free_head q) ls
      \<longleftrightarrow> stack_of (lease_link (leases q)) (lease_free_head q) ls"
    using bnd by (intro stack_of_cong) (simp add: lease_link_def link)
  then show ?thesis using inv st st' by (simp add: lease_inv_def)
qed

lemma ack_spec:
  assumes linv: "lease_inv {} q ls" and r: "ack q h = (r, q')"
  shows "lease_inv {} q' ls"
    and "q' = (case r of Inl _ \<Rightarrow> q | Inr _ \<Rightarrow> q\<lparr>leases := map (acked h) (leases q)\<rparr>)"
    and "case r of Inl _ \<Rightarrow> True | Inr n \<Rightarrow> n = length (filter (ack_matches h) (leases q))"
proof -
  have "lease_inv {} (q\<lparr>leases := map (acked h) (leases q)\<rparr>) ls"
    by (rule lease_inv_map [OF linv]) (auto simp: acked_def ack_matches_def lease_states)
  moreover have "q' = (case r of Inl _ \<Rightarrow> q | Inr _ \<Rightarrow> q\<lparr>leases := map (acked h) (leases q)\<rparr>)
    \<and> (case r of Inl _ \<Rightarrow> True | Inr n \<Rightarrow> n = length (filter (ack_matches h) (leases q)))"
    using r ack_fold [of "length (leases q)" q h] by (auto simp: ack_def Let_def split: if_splits)
  ultimately show "lease_inv {} q' ls"
    "q' = (case r of Inl _ \<Rightarrow> q | Inr _ \<Rightarrow> q\<lparr>leases := map (acked h) (leases q)\<rparr>)"
    "case r of Inl _ \<Rightarrow> True | Inr n \<Rightarrow> n = length (filter (ack_matches h) (leases q))"
    using linv by (auto split: sum.splits)
qed

lemma lease_hold:
  assumes inv: "lease_inv {} q ls" and x: "unat x < length (leases q)" "x \<notin> set ls"
  shows "lease_inv {x} (q\<lparr>leases := (leases q)[unat x := l]\<rparr>) ls"
proof -
  have other: "(leases q)[unat x := l] ! unat y = lease_at q y" if "y \<noteq> x" for y
    using that by (simp add: word_unat_eq_iff)
  have "lease_link ((leases q)[unat x := l]) y = lease_link (leases q) y" if "y \<in> set ls" for y
    using that x(2) other [of y] by (cases "y = x") (simp_all add: lease_link_def)
  then have "stack_of (lease_link ((leases q)[unat x := l])) (lease_free_head q) ls"
    using inv stack_of_cong [of ls "lease_link ((leases q)[unat x := l])" "lease_link (leases q)"]
    by (simp add: lease_inv_def)
  moreover have "if y \<in> set ls then lease_state ((leases q)[unat x := l] ! unat y) = LEASE_NONE
      else lease_state ((leases q)[unat x := l] ! unat y) = LEASE_ARMED
        \<or> lease_state ((leases q)[unat x := l] ! unat y) = LEASE_ACKED"
    if "unat y < length (leases q)" "y \<noteq> x" for y
    using inv that other [of y] by (auto simp: lease_inv_def)
  ultimately show ?thesis using inv x by (auto simp: lease_inv_def)
qed

lemma releasable_state: "releasable q now g l \<Longrightarrow> lease_state l = LEASE_ARMED \<or> lease_state l = LEASE_ACKED"
  by (auto simp: releasable_def split: if_splits)

lemma releasable_cong:
  "tslots q' = tslots q \<Longrightarrow> tq_capacity q' = tq_capacity q \<Longrightarrow> lease_data l' = lease_data l \<Longrightarrow>
     releasable q' now g l' = releasable q now g l"
  by (cases l; cases l') (simp add: releasable_def lease_data_def)

lemma lease_data_freed: "lease_data a = lease_data b \<Longrightarrow> lease_data (freed a) = lease_data (freed b) \<and> binding_of a = binding_of b"
  by (cases a; cases b) (simp add: lease_data_def freed_def binding_of_def)

lemma reap_binding_spec:
  assumes linv: "lease_inv {} q ls" and i: "i < length (leases q)"
    and r: "reap_binding now g i (q, out) = (q', out')"
  defines "l \<equiv> leases q ! i"
  shows "\<exists>h ll. q' = q\<lparr>lease_free_head := h, leases := ll\<rparr> \<and> length ll = length (leases q)
      \<and> (\<forall>j. lease_data (ll ! j) = lease_data (if j = i \<and> releasable q now g l then freed l else leases q ! j))"
    and "lease_ok q'" and "out' = (if releasable q now g l then out @ [binding_of l] else out)"
proof -
  have goal: "(\<exists>h ll. q' = q\<lparr>lease_free_head := h, leases := ll\<rparr> \<and> length ll = length (leases q)
      \<and> (\<forall>j. lease_data (ll ! j) = lease_data (if j = i \<and> releasable q now g l then freed l else leases q ! j)))
    \<and> lease_ok q' \<and> out' = (if releasable q now g l then out @ [binding_of l] else out)"
  proof (cases "releasable q now g l")
    case False
    then have "q' = q" "out' = out" using r by (auto simp: reap_binding_def l_def Let_def)
    then show ?thesis using linv False
      by (auto simp: lease_ok_def intro!: exI [of _ "lease_free_head q"] exI [of _ "leases q"])
  next
    case True
    let ?x = "of_nat i :: u32" and ?q1 = "q\<lparr>leases := (leases q)[i := freed l]\<rparr>"
    have x: "unat ?x = i" using linv i by (simp add: lease_inv_def unat_of_nat)
    have nls: "?x \<notin> set ls" using releasable_state [OF True] linv i x
      by (auto simp: lease_inv_def l_def lease_states)
    have fr: "retire (l\<lparr>lword := pack_lease_word (lease_word_gen (lword l)) LEASE_RELEASED\<rparr>) = freed l"
      by (simp add: retire_def freed_def)
    have rr: "release_lease_record q i (lword l) = (Some (binding_of l), push_lease ?q1 ?x)"
      using fr by (simp add: release_lease_record_def try_release_def compare_exchange_def l_def [symmetric] binding_of_def Let_def)
    have q': "q' = push_lease ?q1 ?x" "out' = out @ [binding_of l]"
      using r True rr by (auto simp: reap_binding_def Let_def l_def [symmetric])
    have li: "lease_inv {?x} ?q1 ls" using lease_hold [OF linv _ nls, of "freed l"] i x by simp
    have st: "lease_state (lease_at ?q1 ?x) = LEASE_NONE" using i x by (simp add: freed_def)
    note p = push_lease_inv [of ?x "{}" ?q1 ls, OF li _ st, folded q'(1)]
    obtain h ll where hl: "q' = ?q1\<lparr>lease_free_head := h, leases := ll\<rparr>" using p(4) by auto
    then have "q' = q\<lparr>lease_free_head := h, leases := ll\<rparr>" "leases q' = ll" by simp_all
    moreover have "lease_data (ll ! j) = lease_data (if j = i \<and> releasable q now g l then freed l else leases q ! j)" for j
      using p(3) [of j] i True unfolding \<open>leases q' = ll\<close> by (cases "j = i") simp_all
    moreover have "length ll = length (leases q)" using p(2) unfolding \<open>leases q' = ll\<close> by simp
    ultimately have "\<exists>h ll. q' = q\<lparr>lease_free_head := h, leases := ll\<rparr> \<and> length ll = length (leases q)
      \<and> (\<forall>j. lease_data (ll ! j) = lease_data (if j = i \<and> releasable q now g l then freed l else leases q ! j))"
      by blast
    then show ?thesis using p(1) True q'(2) by (simp add: lease_ok_def) blast
  qed
  then show "\<exists>h ll. q' = q\<lparr>lease_free_head := h, leases := ll\<rparr> \<and> length ll = length (leases q)
      \<and> (\<forall>j. lease_data (ll ! j) = lease_data (if j = i \<and> releasable q now g l then freed l else leases q ! j))"
    "lease_ok q'" "out' = (if releasable q now g l then out @ [binding_of l] else out)" by blast+
qed

lemma reap_bindings_fold:
  assumes linv: "lease_inv {} q ls" and n: "n \<le> length (leases q)"
  shows "\<exists>h ll. fold (reap_binding now g) [0..<n] (q, []) =
      (q\<lparr>lease_free_head := h, leases := ll\<rparr>, map binding_of (filter (releasable q now g) (take n (leases q))))
    \<and> lease_ok (q\<lparr>lease_free_head := h, leases := ll\<rparr>) \<and> length ll = length (leases q)
    \<and> (\<forall>i<length (leases q). lease_data (ll ! i) =
         lease_data (if i < n \<and> releasable q now g (leases q ! i) then freed (leases q ! i) else leases q ! i))"
  using n
proof (induction n)
  case 0
  have "q\<lparr>lease_free_head := lease_free_head q, leases := leases q\<rparr> = q" by (cases q) simp
  then show ?case using linv
    by (auto simp: lease_ok_def intro!: exI [of _ "lease_free_head q"] exI [of _ "leases q"])
next
  case (Suc n)
  then obtain h ll where IH: "fold (reap_binding now g) [0..<n] (q, []) =
      (q\<lparr>lease_free_head := h, leases := ll\<rparr>, map binding_of (filter (releasable q now g) (take n (leases q))))"
    "lease_ok (q\<lparr>lease_free_head := h, leases := ll\<rparr>)" "length ll = length (leases q)"
    "\<And>i. i < length (leases q) \<Longrightarrow> lease_data (ll ! i) =
         lease_data (if i < n \<and> releasable q now g (leases q ! i) then freed (leases q ! i) else leases q ! i)" by auto
  let ?q1 = "q\<lparr>lease_free_head := h, leases := ll\<rparr>"
  obtain ls1 where linv1: "lease_inv {} ?q1 ls1" using IH(2) by (auto simp: lease_ok_def)
  obtain q' out' where st: "reap_binding now g n (?q1, map binding_of (filter (releasable q now g) (take n (leases q)))) = (q', out')"
    by fastforce
  have n: "n < length (leases ?q1)" using Suc.prems IH(3) by simp
  note sp = reap_binding_spec [OF linv1 n st]
  have d: "lease_data (ll ! n) = lease_data (leases q ! n)" using IH(4) [of n] Suc.prems by simp
  have rl: "releasable ?q1 now g (ll ! n) = releasable q now g (leases q ! n)"
    using releasable_cong [of ?q1 q, OF _ _ d] by simp
  obtain h' ll' where q': "q' = q\<lparr>lease_free_head := h', leases := ll'\<rparr>" "length ll' = length ll"
    and nth': "\<And>j. lease_data (ll' ! j) = lease_data (if j = n \<and> releasable q now g (leases q ! n) then freed (ll ! n) else ll ! j)"
    using sp(1) rl by auto
  have tk: "take (Suc n) (leases q) = take n (leases q) @ [leases q ! n]"
    using Suc.prems by (simp add: take_Suc_conv_app_nth)
  have out: "out' = map binding_of (filter (releasable q now g) (take (Suc n) (leases q)))"
    using sp(3) rl lease_data_freed [OF d] unfolding tk by simp
  have "lease_data (ll' ! i) = lease_data (if i < Suc n \<and> releasable q now g (leases q ! i) then freed (leases q ! i) else leases q ! i)"
    if "i < length (leases q)" for i
    using nth' [of i] IH(4) [OF that] lease_data_freed [OF d] d by (cases "i = n") (auto simp: less_Suc_eq)
  then have "lease_ok (q\<lparr>lease_free_head := h', leases := ll'\<rparr>) \<and> length ll' = length (leases q)
    \<and> (\<forall>i<length (leases q). lease_data (ll' ! i) =
         lease_data (if i < Suc n \<and> releasable q now g (leases q ! i) then freed (leases q ! i) else leases q ! i))"
    using IH(3) q' sp(2) by simp
  moreover have "fold (reap_binding now g) [0..<Suc n] (q, []) = (q\<lparr>lease_free_head := h', leases := ll'\<rparr>,
      map binding_of (filter (releasable q now g) (take (Suc n) (leases q))))"
    using IH(1) st q'(1) out by simp
  ultimately show ?case by blast
qed

lemma reap_bindings_spec:
  assumes linv: "lease_inv {} q ls" and r: "reap_bindings q now g = (q', out)"
  shows "out = map binding_of (filter (releasable q now g) (leases q))" and "lease_ok q'"
    and "\<exists>h ll. q' = q\<lparr>lease_free_head := h, leases := ll\<rparr>" and "length (leases q') = length (leases q)"
    and "\<And>i. i < length (leases q) \<Longrightarrow> lease_data (leases q' ! i) =
           lease_data (if releasable q now g (leases q ! i) then freed (leases q ! i) else leases q ! i)"
proof -
  obtain h ll where f: "fold (reap_binding now g) [0..<length (leases q)] (q, []) =
      (q\<lparr>lease_free_head := h, leases := ll\<rparr>, map binding_of (filter (releasable q now g) (leases q)))"
    "lease_ok (q\<lparr>lease_free_head := h, leases := ll\<rparr>)" "length ll = length (leases q)"
    "\<And>i. i < length (leases q) \<Longrightarrow> lease_data (ll ! i) =
       lease_data (if releasable q now g (leases q ! i) then freed (leases q ! i) else leases q ! i)"
    using reap_bindings_fold [OF linv order_refl, of now g] by auto
  then have q': "q' = q\<lparr>lease_free_head := h, leases := ll\<rparr>" "out = map binding_of (filter (releasable q now g) (leases q))"
    using r by (simp_all add: reap_bindings_def)
  show "out = map binding_of (filter (releasable q now g) (leases q))" by (rule q'(2))
  show "lease_ok q'" using f(2) q'(1) by simp
  show "\<exists>h ll. q' = q\<lparr>lease_free_head := h, leases := ll\<rparr>" using q'(1) by blast
  show "length (leases q') = length (leases q)" using f(3) q'(1) by simp
  show "lease_data (leases q' ! i) = lease_data (if releasable q now g (leases q ! i) then freed (leases q ! i) else leases q ! i)"
    if "i < length (leases q)" for i using f(4) [OF that] q'(1) by simp
qed

lemma bind_output_spec:
  assumes linv: "lease_inv {} q ls" and r: "bind_output q t b = (r, q')"
  shows "lease_ok q'" and "\<exists>h ll. q' = q\<lparr>lease_free_head := h, leases := ll\<rparr>"
    and "r = Inl LeaseTableFull \<longleftrightarrow> ls = []"
    and "r = Inr () \<Longrightarrow> \<exists>k<length (leases q). lease_state (leases q ! k) = LEASE_NONE \<and> leases q' =
           (leases q)[k := arm b (of_nat (ct_idx t)) (ct_seq t) (tdeadline (tslots q ! ct_idx t)) (leases q ! k)]"
proof -
  obtain li q1 where pop: "pop_lease q = (li, q1)" by fastforce
  have "lease_ok q' \<and> (\<exists>h ll. q' = q\<lparr>lease_free_head := h, leases := ll\<rparr>) \<and> (r = Inl LeaseTableFull \<longleftrightarrow> ls = []) \<and>
    (r = Inr () \<longrightarrow> (\<exists>k<length (leases q). lease_state (leases q ! k) = LEASE_NONE \<and> leases q' =
           (leases q)[k := arm b (of_nat (ct_idx t)) (ct_seq t) (tdeadline (tslots q ! ct_idx t)) (leases q ! k)]))"
    using linv pop
  proof (cases rule: pop_lease_cases)
    case empty
    have r': "r = Inl LeaseTableFull" "q' = q" using r pop empty by (auto simp: bind_output_def)
    have "q' = q\<lparr>lease_free_head := lease_free_head q, leases := leases q\<rparr>" using r'(2) by (cases q) simp
    then have "\<exists>h ll. q' = q\<lparr>lease_free_head := h, leases := ll\<rparr>" by blast
    then show ?thesis using linv empty r' by (auto simp: lease_ok_def)
  next
    case (got k xs h)
    let ?a = "arm b (of_nat (ct_idx t)) (ct_seq t) (tdeadline (tslots q ! ct_idx t)) (lease_at q k)"
    have r': "r = Inr ()" "q' = q1\<lparr>leases := (leases q1)[unat k := ?a]\<rparr>"
      using r pop got(1,2) by (auto simp: bind_output_def Let_def)
    have "lease_inv ({k} - {k}) q' xs" unfolding r'(2)
      by (rule lease_rewrite) (use got in \<open>auto simp: lease_inv_def\<close>)
    then show ?thesis using r' got by (auto simp: lease_ok_def)
  qed
  then show "lease_ok q'" "\<exists>h ll. q' = q\<lparr>lease_free_head := h, leases := ll\<rparr>" "r = Inl LeaseTableFull \<longleftrightarrow> ls = []"
    "r = Inr () \<Longrightarrow> \<exists>k<length (leases q). lease_state (leases q ! k) = LEASE_NONE \<and> leases q' =
           (leases q)[k := arm b (of_nat (ct_idx t)) (ct_seq t) (tdeadline (tslots q ! ct_idx t)) (leases q ! k)]" by blast+
qed

section \<open>A fresh queue\<close>

text \<open>The links \<open>i + 1\<close> of a fresh array form one stack from 0.\<close>

lemma chain_seed:
  assumes "\<And>i. i < n \<Longrightarrow> nx (of_nat i) = seed_next n i" and "n < 2 ^ 32" and "i < n"
  shows "chain nx (of_nat i) (map of_nat [i..<n])"
  using assms(3)
proof (induction "n - i" arbitrary: i)
  case (Suc d)
  have i: "(of_nat i :: u32) \<noteq> EMPTY"
    using Suc.prems assms(2) not_EMPTY [of "of_nat i" n] by (simp add: unat_of_nat)
  show ?case
  proof (cases "Suc i < n")
    case True
    then have "chain nx (of_nat (Suc i)) (map of_nat [Suc i..<n])"
      using Suc.hyps(1) [of "Suc i"] Suc.hyps(2) by linarith
    then show ?thesis using i assms(1) [OF Suc.prems] Suc.prems True by (simp add: upt_conv_Cons seed_next_def)
  next
    case False
    then have "[i..<n] = [i]" using Suc.prems by (simp add: upt_conv_Cons)
    then show ?thesis using i assms(1) [OF Suc.prems] False by (simp add: seed_next_def STACK_NIL_def EMPTY_def)
  qed
qed simp

lemma stack_seed:
  assumes "\<And>i. i < n \<Longrightarrow> nx (of_nat i) = seed_next n i" and "n < 2 ^ 32" and "0 < n" and "head_slot h = 0"
  shows "stack_of nx h (map of_nat [0..<n])"
proof -
  have "inj_on (of_nat :: nat \<Rightarrow> u32) {0..<n}"
  proof (rule inj_onI)
    fix i j assume ij: "i \<in> {0..<n}" "j \<in> {0..<n}" and eq: "(of_nat i :: u32) = of_nat j"
    have "unat (of_nat k :: u32) = k" if "k \<in> {0..<n}" for k using that assms(2) by (simp add: unat_of_nat)
    from this [OF ij(1)] this [OF ij(2)] show "i = j" unfolding eq by simp
  qed
  then show ?thesis using chain_seed [OF assms(1,2,3)] assms(4) by (simp add: stack_of_def distinct_map)
qed

lemma head_slot_stack [simp]: "head_slot (pack_stack_head idx tag) = idx"
proof -
  have "pack_stack_head idx tag = head_pack tag idx" by (simp add: pack_stack_head_def head_pack_def)
  then show ?thesis by simp
qed

lemma stack_empty [simp]: "stack_of nx (pack_stack_head STACK_NIL t) []"
  by (simp add: stack_of_Nil STACK_NIL_def EMPTY_def)

lemma init_inv:
  assumes q: "task_init_with_max_retries base rlen cap maxr = Inr q"
  shows "\<exists>fs rs. queue_inv {} q fs rs" and "\<exists>ls. lease_inv {} q ls"
    and "max_retries q = maxr" and "tq_capacity q = unat cap"
    and "\<And>i. i < unat cap \<Longrightarrow> tslots q ! i = fresh_slot (seed_next (unat cap) i)"
proof -
  let ?n = "unat cap" and ?m = "unat (lease_capacity cap)"
  have cap: "cap \<noteq> 0" and qd: "q = \<lparr>tq_magic = TASK_MAGIC, tq_capacity = ?n, cancelled = 0, max_retries = maxr,
         lease_free_head = pack_stack_head 0 0,
         free_heads = map (\<lambda>i. pack_stack_head (if i = 0 then 0 else STACK_NIL) 0) [0..<SHARDS],
         ready_heads = map (\<lambda>_. pack_stack_head STACK_NIL 0) [0..<SHARDS],
         tslots = map (\<lambda>i. fresh_slot (seed_next ?n i)) [0..<?n],
         leases = map (\<lambda>i. fresh_lease (seed_next ?m i)) [0..<?m]\<rparr>"
    using q by (auto simp: task_init_with_max_retries_def Let_def split: if_splits)
  show "max_retries q = maxr" "tq_capacity q = unat cap" by (simp_all add: qd)
  show "tslots q ! i = fresh_slot (seed_next (unat cap) i)" if "i < unat cap" for i using that by (simp add: qd)
  have n: "0 < ?n" "?n < 2 ^ 32" using cap unat_u32_less [of cap] by (auto simp: unat_gt_0)
  have un: "unat (of_nat i :: u32) = i" if "i < 2 ^ 32" for i using that by (simp add: unat_of_nat)
  let ?fs = "map (\<lambda>i. if i = 0 then map of_nat [0..<?n] else []) [0..<SHARDS] :: u32 list list"
  let ?rs = "map (\<lambda>i. []) [0..<SHARDS] :: u32 list list"
  have "stack_of (slot_link (tslots q)) (pack_stack_head 0 0) (map of_nat [0..<?n])"
    by (rule stack_seed) (use n un in \<open>auto simp: slot_link_def qd fresh_slot_def\<close>)
  then have sf: "shards (slot_link (tslots q)) (free_heads q) ?fs" by (auto simp: shards_def qd)
  have sr: "shards (slot_link (tslots q)) (ready_heads q) ?rs" by (auto simp: shards_def qd)
  have mf: "members ?fs = of_nat ` {0..<?n}" by (force simp: members_def SHARDS_def)
  have mr: "members ?rs = {}" by (auto simp: members_def)
  have all: "x \<in> members ?fs" if "unat x < ?n" for x :: u32
    unfolding mf using that by (intro image_eqI [of _ _ "unat x"]) simp_all
  have bnd: "unat x < ?n" if "x \<in> members ?fs" for x using that n un unfolding mf by auto
  have "state_ok (x \<in> members ?fs) (x \<in> members ?rs) (tstate (slot_of q x))" if "unat x < ?n" for x
    using all [OF that] that by (simp add: state_ok_def qd fresh_slot_def)
  then have "queue_inv {} q ?fs ?rs"
    unfolding queue_inv_def mr using sf sr n bnd by (simp add: qd)
  then show "\<exists>fs rs. queue_inv {} q fs rs" by blast
  have "unat (cap * 2) = ?n * 2" if "?n * 2 < 2 ^ 32"
    using that by (simp add: unat_word_ariths)
  then have "lease_capacity cap \<noteq> 0" using n by (auto simp: lease_capacity_def)
  then have m: "0 < ?m" "?m < 2 ^ 32" using unat_u32_less [of "lease_capacity cap"] by (auto simp: unat_gt_0)
  let ?ls = "map of_nat [0..<?m] :: u32 list"
  have st: "stack_of (lease_link (leases q)) (lease_free_head q) ?ls"
    by (rule stack_seed) (use m un in \<open>auto simp: lease_link_def qd fresh_lease_def\<close>)
  have ls: "unat x < ?m \<longleftrightarrow> x \<in> set ?ls" for x :: u32
  proof
    show "x \<in> set ?ls" if "unat x < ?m" using that by (auto intro: image_eqI [of _ _ "unat x"])
    show "unat x < ?m" if "x \<in> set ?ls" using that m un by auto
  qed
  have "lease_state (lease_at q x) = LEASE_NONE" if "unat x < ?m" for x
    using that by (simp add: qd fresh_lease_def)
  then have "lease_inv {} q ?ls" using st m ls unfolding lease_inv_def by (simp add: qd)
  then show "\<exists>ls. lease_inv {} q ls" by blast
qed
section \<open>When a submit finds no slot\<close>

text \<open>
  No cancelled slot lies within the reach of the queue-full recovery, which is the first \<open>DRAIN_DIG\<close> nodes of a READY shard.
\<close>

definition out_of_reach :: "task_queue \<Rightarrow> u32 list \<Rightarrow> bool" where
  "out_of_reach q xs \<longleftrightarrow> (\<forall>x \<in> set (take DRAIN_DIG xs). tstate (slot_of q x) \<noteq> CANCELLED)"

lemma dig_exact:
  assumes "queue_inv (set hld) q fs rs" and "s < SHARDS" and "dig n q s hld = (r, hld', q')"
  shows "(r = None \<longleftrightarrow> (\<forall>x \<in> set (take n (rs ! s)). tstate (slot_of q x) \<noteq> CANCELLED))
    \<and> (r = None \<longrightarrow> hld' = hld @ take n (rs ! s) \<and> queue_inv (set hld') q' fs (rs[s := drop n (rs ! s)]) \<and> frame {} q q')"
  using assms
proof (induction n arbitrary: q hld rs)
  case 0
  then show ?case by auto
next
  case (Suc n)
  note inv = Suc.prems(1) and s = Suc.prems(2)
  have sl: "s < length rs" using inv s by (simp add: queue_inv_def)
  show ?case
  proof (cases "rs ! s")
    case Nil
    have "treiber_pop (ready_heads q ! s) (slot_link (tslots q)) = (None, ready_heads q ! s)"
      using inv s Nil by (intro shards_pop_Nil) (auto simp: queue_inv_def)
    moreover have "rs[s := []] = rs" using Nil by (metis list_update_id)
    ultimately show ?thesis using Suc.prems Nil by auto
  next
    case (Cons x xs)
    obtain h where pop: "treiber_pop (ready_heads q ! s) (slot_link (tslots q)) = (Some x, h)"
      and q1: "tstate (slot_of q x) = QUEUED \<Longrightarrow>
        queue_inv (insert x (set hld)) (q\<lparr>ready_heads := (ready_heads q)[s := h]\<rparr>) fs (rs[s := xs])"
      and q2: "tstate (slot_of q x) \<noteq> QUEUED \<Longrightarrow> tstate (slot_of q x) = CANCELLED \<and>
        queue_inv (insert x (set hld)) (q\<lparr>ready_heads := (ready_heads q)[s := h], cancelled := cancelled q - 1\<rparr>) fs (rs[s := xs])"
      by (rule inv_pop_ready [OF inv s Cons]) (rule that, assumption+)
    let ?q1 = "q\<lparr>ready_heads := (ready_heads q)[s := h]\<rparr>"
    show ?thesis
    proof (cases "tstate (slot_of q x) = QUEUED")
      case True
      have i1: "queue_inv (set (hld @ [x])) ?q1 fs (rs[s := xs])" using q1 [OF True] by simp
      have "dig n ?q1 s (hld @ [x]) = (r, hld', q')"
        using Suc.prems(3) pop True by (simp add: cas_state_def compare_exchange_def Let_def task_states)
      note IH = Suc.IH [OF i1 s this]
      have "frame {} q q'" if "frame {} ?q1 q'" using frame_trans [of "{}" q ?q1, OF _ that] by simp
      then show ?thesis using IH Cons True sl by (auto simp: task_states)
    next
      case False
      then have st: "tstate (slot_of q x) = CANCELLED" using q2 by blast
      then have "r = Some x" using Suc.prems(3) pop by (simp add: cas_state_def compare_exchange_def Let_def)
      then show ?thesis using Cons st by auto
    qed
  qed
qed

lemma put_back_exact:
  assumes "queue_inv (set ys) q fs rs" and "distinct ys" and "s < SHARDS" and "\<forall>y\<in>set ys. tstate (slot_of q y) = QUEUED"
  shows "queue_inv {} (fold (\<lambda>i q. push_ready q s i) ys q) fs (rs[s := rev ys @ rs ! s])"
  using assms
proof (induction ys arbitrary: q rs)
  case (Cons y ys)
  have inv: "queue_inv (insert y (set ys)) q fs rs" using Cons.prems(1) by simp
  have sl: "s < length rs" using inv Cons.prems(3) by (simp add: queue_inv_def)
  have y: "y \<notin> set ys" "tstate (slot_of q y) = QUEUED" using Cons.prems by auto
  note p = inv_push_ready [OF inv y(1) Cons.prems(3) y(2)]
  have "unat z < tq_capacity q" if "z \<in> set ys" for z using inv that by (auto simp: queue_inv_def)
  then have "\<forall>z\<in>set ys. tstate (slot_of (push_ready q s y) z) = QUEUED"
    using Cons.prems(4) frame_state [OF p(2)] by simp
  from Cons.IH [OF p(1) _ Cons.prems(3) this] show ?case using Cons.prems(2) sl by simp
qed simp

lemma cancelled_bound:
  assumes inv: "queue_inv {} q fs rs"
  shows "unat (cancelled q) \<le> tq_capacity q"
    and "cancelled q = 0 \<Longrightarrow> x \<in> members rs \<Longrightarrow> tstate (slot_of q x) \<noteq> CANCELLED"
proof -
  let ?C = "{x \<in> members rs. tstate (slot_of q x) = CANCELLED}"
  have c: "unat (cancelled q) = card ?C" "\<forall>x \<in> ?C. unat x < tq_capacity q" using inv by (auto simp: queue_inv_def)
  show "unat (cancelled q) \<le> tq_capacity q" unfolding c(1) by (rule card_slots [OF c(2)])
  have "finite ?C" by (simp add: members_def)
  then show "cancelled q = 0 \<Longrightarrow> x \<in> members rs \<Longrightarrow> tstate (slot_of q x) \<noteq> CANCELLED" using c(1) by auto
qed

lemma drain_exact:
  assumes "queue_inv {} q fs rs" and "\<forall>s\<in>set ss. s < SHARDS" and "drain q ss = (r, q')"
  shows "r = None \<longleftrightarrow> (\<forall>s \<in> set ss. out_of_reach q (rs ! s))"
  using assms
proof (induction ss arbitrary: q)
  case (Cons s ss)
  note inv = Cons.prems(1)
  have s: "s < SHARDS" and lens: "length rs = SHARDS" using Cons.prems(2) inv by (auto simp: queue_inv_def)
  have mem: "x \<in> members rs" if "t \<in> set (s # ss)" "x \<in> set (take n (rs ! t))" for t x n
    using that Cons.prems(2) lens by (auto simp: members_iff dest: in_set_takeD)
  show ?case
  proof (cases "cancelled q = 0")
    case True
    then have "r = None" using Cons.prems(3) by auto
    then show ?thesis using cancelled_bound(2) [OF inv True] mem unfolding out_of_reach_def by blast
  next
    case False
    then have go: "\<not> (cancelled q = 0 \<or> unat (cancelled q) > tq_capacity q)" using cancelled_bound(1) [OF inv] by simp
    obtain found hld q1 where dg: "dig DRAIN_DIG q s [] = (found, hld, q1)" by (metis prod_cases3)
    have i0: "queue_inv (set []) q fs rs" using inv by simp
    note ex = dig_exact [OF i0 s dg]
    have sp: "distinct hld" "\<forall>y\<in>set hld. tstate (slot_of q1 y) = QUEUED" using dig_spec [OF i0 _ _ s dg] by simp_all
    show ?thesis
    proof (cases found)
      case (Some x)
      then show ?thesis using Cons.prems(3) go dg ex by (auto simp: out_of_reach_def)
    next
      case None
      let ?q2 = "put_back q1 s hld"
      have h: "hld = take DRAIN_DIG (rs ! s)" "queue_inv (set hld) q1 fs (rs[s := drop DRAIN_DIG (rs ! s)])" "frame {} q q1"
        using ex None by auto
      have i2: "queue_inv {} ?q2 fs rs"
        using put_back_exact [of "rev hld" q1 fs "rs[s := drop DRAIN_DIG (rs ! s)]" s] h sp s lens by (simp add: put_back_def)
      have f2: "frame {} q ?q2" using put_back_inv [of "{}" "rev hld" q1 fs _ s] h(2) sp s frame_trans [OF h(3), of "{}"]
        by (auto simp: put_back_def)
      have "unat x < tq_capacity q" if "x \<in> members rs" for x using inv that by (auto simp: queue_inv_def)
      then have same: "out_of_reach ?q2 (rs ! t) = out_of_reach q (rs ! t)" if "t \<in> set ss" for t
        using frame_state [OF f2] mem [of t] that by (simp add: out_of_reach_def)
      have "drain ?q2 ss = (r, q')" using Cons.prems(3) go dg None by simp
      from Cons.IH [OF i2 _ this] show ?thesis using same ex None Cons.prems(2) by (auto simp: out_of_reach_def)
    qed
  qed
qed simp

lemma reserve_none_iff:
  assumes inv: "queue_inv {} q fs rs" and r: "reserve_submit_slot q c = (r, q', c')"
  shows "r = None \<longleftrightarrow> members fs = {} \<and> (\<forall>xs \<in> set rs. out_of_reach q xs)"
proof -
  obtain r1 q1 c1 where p: "pop_free_reserve q c = (r1, q1, c1)" by (metis prod_cases3)
  note sp = pop_free_reserve_spec [OF inv p]
  have lens: "length rs = SHARDS" using inv by (simp add: queue_inv_def)
  show ?thesis
  proof (cases "members fs = {}")
    case False
    have "r \<noteq> None" using reserve_submit_slot_spec [OF inv r] False by (cases r) auto
    then show ?thesis using False by simp
  next
    case True
    have "r1 = None"
    proof (cases r1)
      case (Some x)
      obtain r0 q0 where pop: "pop_free q c = (r0, q0, c1)" using p by (auto simp: pop_free_reserve_def split: prod.splits option.splits)
      from pop_free_cases [OF inv pop] have "r0 = None" using True by auto
      then show ?thesis using p pop by (simp add: pop_free_reserve_def)
    qed
    then have rc: "reserve_cancelled_ready q c1 = (r, q', c')" using sp r p by (simp add: reserve_submit_slot_def)
    obtain r2 q2 where dr: "drain q [0..<SHARDS] = (r2, q2)" by fastforce
    have all: "(\<forall>s \<in> set [0..<SHARDS]. out_of_reach q (rs ! s)) \<longleftrightarrow> (\<forall>xs \<in> set rs. out_of_reach q xs)"
      using lens by (metis atLeastLessThan_iff in_set_conv_nth le0 set_upt)
    have ex: "r2 = None \<longleftrightarrow> (\<forall>xs \<in> set rs. out_of_reach q xs)" using drain_exact [OF inv _ dr] all by simp
    have d: "dug q q2 fs {} r2" using drain_spec [OF inv _ dr] by simp
    show ?thesis
    proof (cases r2)
      case (Some x)
      then show ?thesis using rc dr ex by (auto simp: reserve_cancelled_ready_def)
    next
      case None
      then obtain rs' where i2: "queue_inv {} q2 fs rs'" using d by (auto simp: dug_def)
      obtain r0 q0 where pop: "pop_free q2 c1 = (r0, q0, c')" using rc dr None
        by (auto simp: reserve_cancelled_ready_def pop_free_reserve_def split: prod.splits option.splits)
      from pop_free_cases [OF i2 pop] have "r0 = None" using True by auto
      then have "r = None" using rc dr None pop by (simp add: reserve_cancelled_ready_def pop_free_reserve_def)
      then show ?thesis using ex None True by simp
    qed
  qed
qed

end
