(* ===== verification/Shm_Task_Prop.thy ===== *)
theory Shm_Task_Prop
  imports Shm_Task_Ops
begin

text \<open>
  The properties of the task queue (\<^verbatim>\<open>crates/shm-task/src/queue.rs\<close>) and the runs they
  quantify over: a run starts from a fresh queue and takes any operation of any caller at each
  step. A ghost counter per slot counts the claims of its current incarnation.
\<close>

section \<open>Runs\<close>

inductive task_step :: "task_queue \<times> (u32 \<Rightarrow> nat) \<Rightarrow> task_queue \<times> (u32 \<Rightarrow> nat) \<Rightarrow> bool" where
  st_submit: "submit_inner q c request dl input = (r, q', c') \<Longrightarrow>
     task_step (q, g) (q', case r of Inr h \<Rightarrow> g(slot_idx h := 0) | Inl _ \<Rightarrow> g)"
| st_claim: "claim_inner q w dl = Some (r, q') \<Longrightarrow>
     task_step (q, g) (q', case r of Some t \<Rightarrow> g(of_nat (ct_idx t) := Suc (g (of_nat (ct_idx t)))) | None \<Rightarrow> g)"
| st_complete: "ct_idx t < tq_capacity q \<Longrightarrow> complete q c t res = (r, q', c') \<Longrightarrow> task_step (q, g) (q', g)"
| st_fail: "ct_idx t < tq_capacity q \<Longrightarrow> fail q c t = (r, q', c') \<Longrightarrow> task_step (q, g) (q', g)"
| st_cancel: "cancel q h = (r, q') \<Longrightarrow> task_step (q, g) (q', g)"
| st_reap: "reap q c now = (q', c', rep) \<Longrightarrow> task_step (q, g) (q', g)"
| st_bind: "bind_output q t b = (r, q') \<Longrightarrow> task_step (q, g) (q', g)"
| st_ack: "ack q h = (r, q') \<Longrightarrow> task_step (q, g) (q', g)"
| st_reap_bindings: "reap_bindings q now grace = (q', out) \<Longrightarrow> task_step (q, g) (q', g)"

inductive task_reachable :: "u32 \<Rightarrow> task_queue \<times> (u32 \<Rightarrow> nat) \<Rightarrow> bool" for maxr where
  tr_init: "task_init_with_max_retries base rlen cap maxr = Inr q \<Longrightarrow> task_reachable maxr (q, \<lambda>_. 0)"
| tr_step: "task_reachable maxr st \<Longrightarrow> task_step st st' \<Longrightarrow> task_reachable maxr st'"

text \<open>The retry counter accounts for every claim but the one under way or last made.\<close>

definition attempts_ok :: "u32 \<Rightarrow> task_slot \<Rightarrow> nat \<Rightarrow> bool" where
  "attempts_ok m s n \<longleftrightarrow> unat (tretry s) \<le> unat m
     \<and> n \<le> unat (tretry s) + (if tstate s = QUEUED \<or> tstate s = TEMPTY then 0 else 1)"

definition run_ok :: "u32 \<Rightarrow> task_queue \<times> (u32 \<Rightarrow> nat) \<Rightarrow> bool" where
  "run_ok m st \<longleftrightarrow> (case st of (q, g) \<Rightarrow> queue_ok q \<and> lease_ok q \<and> max_retries q = m
     \<and> (\<forall>x. unat x < tq_capacity q \<longrightarrow> attempts_ok m (slot_of q x) (g x)))"

lemma attempts_ok_data:
  assumes "slot_data s = slot_data s'"
  shows "attempts_ok m s n = attempts_ok m s' n"
  by (simp add: attempts_ok_def slot_data_eqD(1,5) [OF assms])

lemma run_ok_kept:
  assumes "run_ok m (q, g)" and "queue_ok q'" and "lease_ok q'" and "slots_kept X q q'"
    and "\<And>x. x \<in> X \<Longrightarrow> unat x < tq_capacity q \<Longrightarrow> attempts_ok m (slot_of q' x) (g' x)" and "\<And>x. x \<notin> X \<Longrightarrow> g' x = g x"
  shows "run_ok m (q', g')"
proof -
  have "attempts_ok m (slot_of q' x) (g' x)" if "unat x < tq_capacity q" for x
  proof (cases "x \<in> X")
    case False
    then have "slot_data (slot_of q' x) = slot_data (slot_of q x)" using assms(4) that by (simp add: slots_kept_def)
    from attempts_ok_data [OF this] show ?thesis using assms(1,6) that False by (simp add: run_ok_def)
  qed (use assms(5) that in simp)
  then show ?thesis using assms by (simp add: run_ok_def slots_kept_def)
qed

lemma frame_lease_ok: "frame X q q' \<Longrightarrow> lease_ok q' = lease_ok q"
  using frame_lease_inv by (simp add: lease_ok_def)

lemma kept_leases: "q' = q\<lparr>lease_free_head := h, leases := ll\<rparr> \<Longrightarrow> queue_ok q' = queue_ok q \<and> slots_kept {} q q'"
  by simp

lemma run_ok_submit:
  assumes ok: "run_ok m (q, g)" and r: "submit_inner q c request dl input = (r, q', c')"
  shows "run_ok m (q', case r of Inr h \<Rightarrow> g(slot_idx h := 0) | Inl _ \<Rightarrow> g)"
proof -
  obtain fs rs ls where inv: "queue_inv {} q fs rs" "lease_inv {} q ls"
    using ok by (auto simp: run_ok_def queue_ok_def lease_ok_def)
  have post: "queue_ok q' \<and> lease_ok q' \<and>
      (case r of Inl e \<Rightarrow> slots_kept {} q q' | Inr h \<Rightarrow> submit_post q q' request dl input h)"
  proof (cases input)
    case None
    then show ?thesis using submit_plain [OF inv r [unfolded None]] by (cases r) auto
  next
    case (Some b)
    then show ?thesis using submit_bound [OF inv r [unfolded Some]] by (cases r) auto
  qed
  show ?thesis
  proof (cases r)
    case (Inl e)
    then show ?thesis using run_ok_kept [OF ok, of q' "{}" g] post by simp
  next
    case (Inr h)
    then have sp: "submit_post q q' request dl input h" using post by simp
    then have d: "slot_data (slot_of q' (slot_idx h)) = slot_data (submitted request dl (slot_of q (slot_idx h)))"
      and kept: "slots_kept {slot_idx h} q q'" by (simp_all add: submit_post_def Let_def)
    have "attempts_ok m (submitted request dl (slot_of q (slot_idx h))) 0"
      by (simp add: attempts_ok_def submitted_def fill_slot_def)
    then have "attempts_ok m (slot_of q' (slot_idx h)) 0" using attempts_ok_data [OF d] by simp
    then show ?thesis using run_ok_kept [OF ok, of q' "{slot_idx h}" "g(slot_idx h := 0)"] post kept Inr by simp
  qed
qed

lemma run_ok_claim:
  assumes ok: "run_ok m (q, g)" and r: "claim_inner q w dl = Some (r, q')"
  shows "run_ok m (q', case r of Some t \<Rightarrow> g(of_nat (ct_idx t) := Suc (g (of_nat (ct_idx t)))) | None \<Rightarrow> g)"
proof -
  obtain fs rs where inv: "queue_inv {} q fs rs" using ok by (auto simp: run_ok_def queue_ok_def)
  have lo: "lease_ok q" using ok by (simp add: run_ok_def)
  show ?thesis
    using inv
  proof (cases rule: claim_inner_spec [of q fs rs w dl])
    case (none q1)
    then show ?thesis
      using r run_ok_kept [OF ok, of q' "{}" g] frame_kept [OF none(3)] frame_lease_ok [OF none(3)] lo by simp
  next
    case (some x q1)
    let ?g = "g(x := Suc (g x))"
    have old: "attempts_ok m (slot_of q x) (g x)" using ok some(4) by (simp add: run_ok_def)
    then have "attempts_ok m (lease_of w dl (slot_of q x)) (Suc (g x))"
      using some(5) by (simp add: attempts_ok_def lease_of_def task_states)
    then have "attempts_ok m (slot_of q1 x) (?g x)" using attempts_ok_data [OF some(6)] by simp
    then have "run_ok m (q1, ?g)"
      using run_ok_kept [OF ok some(2), of "{x}" ?g] frame_kept [OF some(3)] frame_lease_ok [OF some(3)] lo by simp
    then show ?thesis using r some(1) by auto
  qed
qed

lemma run_ok_slot:
  assumes ok: "run_ok m (q, g)" and post: "queue_ok q'" "frame {x} q q'" and x: "unat x < tq_capacity q"
    and st: "attempts_ok m (slot_of q' x) (g x)"
  shows "run_ok m (q', g)"
proof -
  have "lease_ok q'" using ok frame_lease_ok [OF post(2)] by (simp add: run_ok_def)
  then show ?thesis using run_ok_kept [OF ok post(1) _ frame_kept [OF post(2)]] st by auto
qed

lemma run_ok_finish:
  assumes ok: "run_ok m (q, g)" and i: "i < tq_capacity q" "tstate (tslots q ! i) = CLAIMED"
    and post: "queue_ok q'" "frame {of_nat i} q q'" "slot_data (tslots q' ! i) = slot_data s"
    and s: "tretry s = tretry (tslots q ! i)" "tstate s = DONE \<or> tstate s = FAILED"
  shows "run_ok m (q', g)"
proof -
  obtain fs rs where inv: "queue_inv {} q fs rs" using ok by (auto simp: run_ok_def queue_ok_def)
  note x = idx_of_nat [OF inv i(1)]
  have "attempts_ok m (tslots q ! i) (g (of_nat i))" using ok i x by (auto simp: run_ok_def dest: spec [of _ "of_nat i"])
  then have "attempts_ok m s (g (of_nat i))" using i(2) s by (auto simp: attempts_ok_def task_states)
  then have "attempts_ok m (slot_of q' (of_nat i)) (g (of_nat i))" using attempts_ok_data [OF post(3)] x by simp
  then show ?thesis using run_ok_slot [OF ok post(1,2)] x i(1) by simp
qed

lemma run_ok_reap:
  assumes ok: "run_ok m (q, g)" and r: "reap q c now = (q', c', rep)"
  shows "run_ok m (q', g)"
proof -
  obtain fs rs where inv: "queue_inv {} q fs rs" using ok by (auto simp: run_ok_def queue_ok_def)
  note sp = reap_spec [OF inv r]
  have m: "max_retries q = m" using ok by (simp add: run_ok_def)
  have "attempts_ok m (slot_of q' x) (g x)" if x: "unat x < tq_capacity q" for x
  proof -
    have old: "attempts_ok m (slot_of q x) (g x)" using ok x by (simp add: run_ok_def)
    have "unat (tretry (slot_of q x) + 1) = Suc (unat (tretry (slot_of q x)))" if "tretry (slot_of q x) < m"
    proof (rule unat_Suc_word)
      show "tretry (slot_of q x) \<noteq> - 1" using that word_order.extremum_strict by fastforce
    qed
    then have "attempts_ok m (reaped now m (slot_of q x)) (g x)"
      using old by (auto simp: attempts_ok_def reaped_def lapsed_def task_states word_less_nat_alt)
    then show ?thesis using attempts_ok_data [OF sp(6) [OF x]] m by simp
  qed
  moreover have "lease_ok q'" using ok sp(4,5) lease_inv_cong [of q' q] by (simp add: run_ok_def lease_ok_def)
  ultimately show ?thesis using sp(1,2,3) m by (simp add: run_ok_def)
qed

lemma run_ok_cancel:
  assumes ok: "run_ok m (q, g)" and r: "cancel q h = (r, q')"
  shows "run_ok m (q', g)"
proof -
  obtain fs rs where inv: "queue_inv {} q fs rs" using ok by (auto simp: run_ok_def queue_ok_def)
  note sp = cancel_spec [OF inv r refl]
  have lo: "lease_ok q'" using ok sp lease_inv_cong [of q' q] by (simp add: run_ok_def lease_ok_def)
  let ?x = "slot_idx h"
  show ?thesis
  proof (cases "unat ?x \<ge> tq_capacity q \<or> tseq (slot_of q ?x) \<noteq> hseq h")
    case True
    then show ?thesis using sp ok by simp
  next
    case False
    then have kept: "slots_kept {?x} q q'" and s: "slot_of q' ?x = (if tstate (slot_of q ?x) = QUEUED
        then (slot_of q ?x)\<lparr>tstate := CANCELLED\<rparr>
        else if tstate (slot_of q ?x) = CLAIMED then (slot_of q ?x)\<lparr>tcancel := 1\<rparr> else slot_of q ?x)"
      using sp by simp_all
    have "attempts_ok m (slot_of q ?x) (g ?x)" using ok False by (simp add: run_ok_def)
    then have "attempts_ok m (slot_of q' ?x) (g ?x)" unfolding s by (auto simp: attempts_ok_def task_states)
    then show ?thesis using run_ok_kept [OF ok _ lo kept] sp by simp
  qed
qed

lemma run_ok_leases:
  assumes "run_ok m (q, g)" and "lease_ok q'" and "\<exists>h ll. q' = q\<lparr>lease_free_head := h, leases := ll\<rparr>"
  shows "run_ok m (q', g)"
  using assms by (auto simp: run_ok_def)

lemma run_ok_ack:
  assumes ok: "run_ok m (q, g)" and r: "ack q h = (r, q')"
  shows "run_ok m (q', g)"
proof -
  obtain ls where inv: "lease_inv {} q ls" using ok by (auto simp: run_ok_def lease_ok_def)
  note sp = ack_spec [OF inv r]
  have "queue_ok q'" "tq_capacity q' = tq_capacity q" "max_retries q' = max_retries q" "tslots q' = tslots q"
    using sp(2) ok by (auto simp: run_ok_def split: sum.splits)
  then show ?thesis using sp(1) ok by (auto simp: run_ok_def lease_ok_def)
qed

lemma run_ok_step:
  assumes "task_step st st'" and "run_ok m st"
  shows "run_ok m st'"
  using assms
proof (cases rule: task_step.cases)
  case (st_complete t q c res r q' c' g)
  have ok: "run_ok m (q, g)" using st_complete assms(2) by simp
  obtain fs rs where inv: "queue_inv {} q fs rs" using ok by (auto simp: run_ok_def queue_ok_def)
  note sp = complete_spec [OF inv st_complete(3) refl st_complete(4)]
  show ?thesis
  proof (cases "tseq (tslots q ! ct_idx t) = ct_seq t \<and> tstate (tslots q ! ct_idx t) = CLAIMED")
    case True
    then show ?thesis
      using run_ok_finish [OF ok st_complete(3), of q' "(tslots q ! ct_idx t)\<lparr>tstate := DONE, tresult := res\<rparr>"] sp
        st_complete(2) by simp
  qed (use sp ok st_complete(2) in \<open>auto split: if_splits\<close>)
next
  case (st_fail t q c r q' c' g)
  have ok: "run_ok m (q, g)" using st_fail assms(2) by simp
  obtain fs rs where inv: "queue_inv {} q fs rs" using ok by (auto simp: run_ok_def queue_ok_def)
  note sp = fail_spec [OF inv st_fail(3) refl st_fail(4)]
  show ?thesis
  proof (cases "tseq (tslots q ! ct_idx t) = ct_seq t \<and> tstate (tslots q ! ct_idx t) = CLAIMED")
    case True
    then show ?thesis
      using run_ok_finish [OF ok st_fail(3), of q' "(tslots q ! ct_idx t)\<lparr>tstate := FAILED\<rparr>"] sp st_fail(2) by simp
  qed (use sp ok st_fail(2) in \<open>auto split: if_splits\<close>)
next
  case (st_bind q t b r q' g)
  obtain ls where inv: "lease_inv {} q ls" using st_bind assms(2) by (auto simp: run_ok_def lease_ok_def)
  show ?thesis using run_ok_leases bind_output_spec(1,2) [OF inv st_bind(3)] st_bind assms(2) by auto
next
  case (st_reap_bindings q now grace q' out g)
  obtain ls where inv: "lease_inv {} q ls" using st_reap_bindings assms(2) by (auto simp: run_ok_def lease_ok_def)
  show ?thesis
    using run_ok_leases reap_bindings_spec(2,3) [OF inv st_reap_bindings(3)] st_reap_bindings assms(2) by auto
qed (auto intro: run_ok_submit run_ok_claim run_ok_cancel run_ok_reap run_ok_ack)

lemma run_ok_reachable: "task_reachable maxr st \<Longrightarrow> run_ok maxr st"
proof (induction rule: task_reachable.induct)
  case (tr_init base rlen cap q)
  note sp = init_inv [OF tr_init]
  have "attempts_ok maxr (slot_of q x) 0" if "unat x < tq_capacity q" for x
    using sp(5) [of "unat x"] sp(4) that by (simp add: attempts_ok_def fresh_slot_def)
  then show ?case using sp(1-4) by (simp add: run_ok_def queue_ok_def lease_ok_def)
qed (auto intro: run_ok_step)

section \<open>Properties\<close>

text \<open>A queue of one slot and two lease records, with three retries; the input of the witnesses.\<close>

definition demo_queue :: task_queue where
  "demo_queue = projr (task_init_with_max_retries 0 4096 1 3)"

lemma demo_init: "task_init_with_max_retries 0 4096 1 3 = Inr demo_queue"
  by (simp add: demo_queue_def task_init_with_max_retries_def is_power_of_two_def task_required_bytes_def
      lease_table_offset_def tslots_offset_def align_up_def lease_capacity_def Let_def)

lemma demo_ok: "queue_ok demo_queue" "lease_ok demo_queue" "tq_capacity demo_queue = 1" "max_retries demo_queue = 3"
  "tslots demo_queue ! 0 = fresh_slot STACK_NIL"
  using init_inv [OF demo_init] by (auto simp: queue_ok_def lease_ok_def seed_next_def)

text \<open>
  C15: In every run from a fresh queue, each slot is on exactly one FREE shard, one READY shard
  or held by its claimant, with a state that fits; each lease record is retired exactly when it
  is on the free list; and a task is claimed at most \<^verbatim>\<open>max_retries\<close> + 1 times.
\<close>

theorem task_run_invariant:
  assumes "task_reachable maxr (q, attempts)"
  shows "queue_ok q \<and> lease_ok q \<and> (\<forall>x. unat x < tq_capacity q \<longrightarrow> attempts x \<le> unat maxr + 1)"
proof -
  have ok: "run_ok maxr (q, attempts)" by (rule run_ok_reachable [OF assms])
  have "attempts x \<le> unat maxr + 1" if "unat x < tq_capacity q" for x
  proof -
    have "attempts_ok maxr (slot_of q x) (attempts x)" using ok that by (simp add: run_ok_def)
    then show ?thesis by (auto simp: attempts_ok_def split: if_splits)
  qed
  then show ?thesis using ok by (simp add: run_ok_def)
qed

theorem task_run_invariant_witness: "queue_ok demo_queue \<and> lease_ok demo_queue"
  using task_run_invariant [OF tr_init [OF demo_init]] by simp

text \<open>
  A claim always returns. It comes back empty only if no slot is QUEUED, and then changes
  no slot; otherwise it hands one QUEUED task to the worker, which becomes CLAIMED under its
  owner and lease with its incarnation and request unchanged, and no other slot changes.
\<close>

theorem claim_takes_queued:
  assumes "queue_ok q"
  shows "\<exists>r q'. claim_inner q w dl = Some (r, q') \<and> queue_ok q' \<and>
    (case r of
       None \<Rightarrow> slots_kept {} q q' \<and> (\<forall>i<tq_capacity q. tstate (tslots q ! i) \<noteq> QUEUED)
     | Some t \<Rightarrow> (let s = tslots q ! ct_idx t in
         ct_idx t < tq_capacity q \<and> tstate s = QUEUED \<and> ct_seq t = tseq s \<and> ct_worker t = w \<and> ct_request t = trequest s
       \<and> slots_kept {of_nat (ct_idx t)} q q' \<and> slot_data (tslots q' ! ct_idx t) = slot_data (lease_of w dl s)))"
proof -
  obtain fs rs where inv: "queue_inv {} q fs rs" using assms by (auto simp: queue_ok_def)
  show ?thesis
    using inv
  proof (cases rule: claim_inner_spec [of q fs rs w dl])
    case (none q')
    have "tstate (tslots q ! i) \<noteq> QUEUED" if "i < tq_capacity q" for i
      using none(4) idx_of_nat [OF inv that] that by (metis)
    then show ?thesis using none frame_kept [OF none(3)] by auto
  next
    case (some x q')
    then show ?thesis using frame_kept [OF some(3)] by (auto simp: Let_def)
  qed
qed

theorem claim_takes_queued_witness: "\<exists>r q'. claim_inner demo_queue 7 (Some 5) = Some (r, q') \<and> queue_ok q'"
  using claim_takes_queued [OF demo_ok(1), of 7 "Some 5"] by blast

section \<open>Draining\<close>

primrec claim_each :: "task_queue \<Rightarrow> u32 list \<Rightarrow> (claimed_task list \<times> task_queue) option" where
  "claim_each q [] = Some ([], q)"
| "claim_each q (w # ws) =
     (case claim q w of
        None \<Rightarrow> None
      | Some (None, q') \<Rightarrow> claim_each q' ws
      | Some (Some t, q') \<Rightarrow> (case claim_each q' ws of None \<Rightarrow> None | Some (ts, q'') \<Rightarrow> Some (t # ts, q'')))"

definition queued_slots :: "task_queue \<Rightarrow> nat set" where
  "queued_slots q = {i. i < tq_capacity q \<and> tstate (tslots q ! i) = QUEUED}"

lemma queued_slots_claim:
  assumes inv: "queue_inv {} q fs rs" and c: "claim q w = Some (r, q')"
  shows "queue_ok q'" and "case r of None \<Rightarrow> queued_slots q = {} \<and> queued_slots q' = {}
    | Some t \<Rightarrow> ct_idx t \<in> queued_slots q \<and> queued_slots q' = queued_slots q - {ct_idx t}"
proof -
  have un: "unat (of_nat i :: u32) = i" if "i < tq_capacity q" for i by (rule idx_of_nat [OF inv that])
  have "queue_ok q' \<and> (case r of None \<Rightarrow> queued_slots q = {} \<and> queued_slots q' = {}
    | Some t \<Rightarrow> ct_idx t \<in> queued_slots q \<and> queued_slots q' = queued_slots q - {ct_idx t})"
    using inv
  proof (cases rule: claim_inner_spec [of q fs rs w None])
    case (none q1)
    have "tstate (tslots q ! i) \<noteq> QUEUED" if "i < tq_capacity q" for i
      using none(4) un [OF that] that by metis
    moreover have "tstate (tslots q1 ! i) = tstate (tslots q ! i)" if "i < tq_capacity q" for i
      using frame_state [OF none(3), of "of_nat i"] un [OF that] that by simp
    ultimately have "queued_slots q = {} \<and> queued_slots q1 = {}"
      using none(3) by (auto simp: queued_slots_def frame_def)
    then show ?thesis using c none by (simp add: claim_def)
  next
    case (some x q1)
    have "tstate (slot_of q1 x) = CLAIMED" using slot_data_eqD(1) [OF some(6)] by (simp add: lease_of_def)
    moreover have "tstate (tslots q1 ! i) = tstate (tslots q ! i)" if "i < tq_capacity q" "i \<noteq> unat x" for i
    proof -
      have "of_nat i \<noteq> x" using that(2) un [OF that(1)] by auto
      then show ?thesis using frame_state [OF some(3), of "of_nat i"] un [OF that(1)] that by simp
    qed
    moreover have "tq_capacity q1 = tq_capacity q" using some(3) by (simp add: frame_def)
    ultimately have "i \<in> queued_slots q1 \<longleftrightarrow> i \<in> queued_slots q - {unat x}" for i
      unfolding queued_slots_def by (cases "i = unat x"; cases "i < tq_capacity q") (simp_all add: task_states)
    then have "queued_slots q1 = queued_slots q - {unat x}" by blast
    moreover have "unat x \<in> queued_slots q" using some(4,5) by (simp add: queued_slots_def)
    moreover have "r = Some \<lparr>ct_idx = unat x, ct_seq = tseq (slot_of q x), ct_worker = w, ct_request = trequest (slot_of q x)\<rparr>"
      and "q' = q1" using c some(1) by (simp_all add: claim_def)
    ultimately show ?thesis using some(2) by simp
  qed
  then show "queue_ok q'" "case r of None \<Rightarrow> queued_slots q = {} \<and> queued_slots q' = {}
    | Some t \<Rightarrow> ct_idx t \<in> queued_slots q \<and> queued_slots q' = queued_slots q - {ct_idx t}" by simp_all
qed

lemma claim_each_spec:
  assumes "queue_ok q"
  shows "\<exists>ts q'. claim_each q ws = Some (ts, q') \<and> queue_ok q' \<and> distinct (map ct_idx ts)
    \<and> set (map ct_idx ts) \<subseteq> queued_slots q \<and> queued_slots q' = queued_slots q - set (map ct_idx ts)
    \<and> length ts = min (length ws) (card (queued_slots q))"
  using assms
proof (induction ws arbitrary: q)
  case (Cons w ws)
  obtain fs rs where inv: "queue_inv {} q fs rs" using Cons.prems by (auto simp: queue_ok_def)
  obtain r q1 where c: "claim q w = Some (r, q1)"
    by (rule claim_inner_spec [OF inv, of w None]) (auto simp: claim_def)
  note sp = queued_slots_claim [OF inv c]
  obtain ts q' where IH: "claim_each q1 ws = Some (ts, q')" "queue_ok q'" "distinct (map ct_idx ts)"
    "set (map ct_idx ts) \<subseteq> queued_slots q1" "queued_slots q' = queued_slots q1 - set (map ct_idx ts)"
    "length ts = min (length ws) (card (queued_slots q1))"
    using Cons.IH [OF sp(1)] by blast
  have fin: "finite (queued_slots q)" by (simp add: queued_slots_def)
  show ?case
  proof (cases r)
    case None
    then show ?thesis using IH c sp(2) by auto
  next
    case (Some t)
    then have t: "ct_idx t \<in> queued_slots q" "queued_slots q1 = queued_slots q - {ct_idx t}" using sp(2) by auto
    have "card (queued_slots q) = Suc (card (queued_slots q1))"
      unfolding t(2) using t(1) fin by (metis card.remove)
    then show ?thesis using IH c Some t by auto
  qed
qed simp

text \<open>
  C16: A queued task is always found: any workers whatever, claiming one after the other at
  least as often as there are queued tasks, take every queued task, each exactly once, and leave
  none queued.
\<close>

theorem claims_drain_queue:
  assumes "queue_ok q" and "card (queued_slots q) \<le> length ws"
  shows "\<exists>ts q'. claim_each q ws = Some (ts, q') \<and> distinct (map ct_idx ts)
    \<and> set (map ct_idx ts) = queued_slots q \<and> queued_slots q' = {}"
proof -
  obtain ts q' where sp: "claim_each q ws = Some (ts, q')" "distinct (map ct_idx ts)"
    "set (map ct_idx ts) \<subseteq> queued_slots q" "queued_slots q' = queued_slots q - set (map ct_idx ts)"
    "length ts = min (length ws) (card (queued_slots q))"
    using claim_each_spec [OF assms(1), of ws] by blast
  have "card (set (map ct_idx ts)) = card (queued_slots q)"
    using sp(2,5) assms(2) distinct_card [OF sp(2)] by simp
  then have "set (map ct_idx ts) = queued_slots q"
    using sp(3) by (intro card_subset_eq) (simp_all add: queued_slots_def)
  then show ?thesis using sp by auto
qed

section \<open>Submitting and its outcome\<close>

text \<open>A full queue: every slot queued, claimed, or cancelled but not yet recovered.\<close>

definition all_busy :: "task_queue \<Rightarrow> bool" where
  "all_busy q \<longleftrightarrow> (\<forall>i<tq_capacity q. tstate (tslots q ! i) = QUEUED \<or> tstate (tslots q ! i) = CLAIMED
     \<or> tstate (tslots q ! i) = CANCELLED \<and> cancelled q \<noteq> 0)"

lemma busy_no_free:
  assumes inv: "queue_inv {} q fs rs" and "members fs = {}"
  shows "all_busy q"
  unfolding all_busy_def
proof (intro allI impI)
  fix i assume i: "i < tq_capacity q"
  show "tstate (tslots q ! i) = QUEUED \<or> tstate (tslots q ! i) = CLAIMED \<or> tstate (tslots q ! i) = CANCELLED \<and> cancelled q \<noteq> 0"
    using no_free_states [OF assms, of "of_nat i"] idx_of_nat [OF inv i] i by simp
qed

lemma lease_none_free:
  assumes "lease_inv {} q []" and "l \<in> set (leases q)"
  shows "lease_state l \<noteq> LEASE_NONE"
proof -
  obtain i where i: "i < length (leases q)" "l = leases q ! i" using assms(2) by (auto simp: in_set_conv_nth)
  then have "unat (of_nat i :: u32) = i" using assms(1) by (simp add: lease_inv_def unat_of_nat)
  then show ?thesis using assms(1) i by (auto simp: lease_inv_def lease_states dest: spec [of _ "of_nat i"])
qed

lemma submit_cases:
  assumes "queue_ok q" and "lease_ok q" and r: "submit_inner q c request dl input = (r, q', c')"
  shows "queue_ok q' \<and> lease_ok q' \<and> (case r of
      Inl e \<Rightarrow> slots_kept {} q q' \<and>
        (e = QueueFull \<and> all_busy q
         \<or> e = LeaseTableFull \<and> input \<noteq> None \<and> (\<forall>l\<in>set (leases q). lease_state l \<noteq> LEASE_NONE))
    | Inr h \<Rightarrow> submit_post q q' request dl input h)"
proof -
  obtain fs rs ls where inv: "queue_inv {} q fs rs" "lease_inv {} q ls"
    using assms by (auto simp: queue_ok_def lease_ok_def)
  show ?thesis
  proof (cases input)
    case None
    then show ?thesis
      using submit_plain [OF inv r [unfolded None]] busy_no_free [OF inv(1)] by (cases r) auto
  next
    case (Some b)
    have "\<forall>l\<in>set (leases q). lease_state l \<noteq> LEASE_NONE" if "ls = []" using inv(2) lease_none_free that by blast
    then show ?thesis
      using submit_bound [OF inv r [unfolded Some]] busy_no_free [OF inv(1)] Some by (cases r) auto
  qed
qed

text \<open>
  The two conditions under which a submit is refused. \<open>queue_full\<close> speaks of the stacks themselves:
  every FREE stack is empty, and no READY stack holds a cancelled node among its first
  \<open>DRAIN_DIG\<close> nodes, which is how deep the recovery of a full queue looks.
\<close>

definition queue_full :: "task_queue \<Rightarrow> bool" where
  "queue_full q \<longleftrightarrow> (\<exists>fs rs. shards (slot_link (tslots q)) (free_heads q) fs \<and> shards (slot_link (tslots q)) (ready_heads q) rs
     \<and> members fs = {} \<and> (\<forall>xs\<in>set rs. out_of_reach q xs))"

definition lease_table_full :: "task_queue \<Rightarrow> bool" where
  "lease_table_full q \<longleftrightarrow> (\<forall>l\<in>set (leases q). lease_state l \<noteq> LEASE_NONE)"

lemma queue_full_iff:
  assumes "queue_inv {} q fs rs"
  shows "queue_full q \<longleftrightarrow> members fs = {} \<and> (\<forall>xs\<in>set rs. out_of_reach q xs)"
proof -
  have "shards (slot_link (tslots q)) (free_heads q) fs" "shards (slot_link (tslots q)) (ready_heads q) rs"
    using assms by (simp_all add: queue_inv_def)
  then show ?thesis unfolding queue_full_def by (metis shards_unique)
qed

lemma submit_refused:
  assumes "queue_ok q" and "lease_ok q" and r: "submit_inner q c request dl input = (r, q', c')"
  shows "r = Inl LeaseTableFull \<longleftrightarrow> input \<noteq> None \<and> lease_table_full q" (is ?L)
    and "r = Inl QueueFull \<longleftrightarrow> \<not> (input \<noteq> None \<and> lease_table_full q) \<and> queue_full q" (is ?Q)
proof -
  obtain fs rs ls where inv: "queue_inv {} q fs rs" and linv: "lease_inv {} q ls"
    using assms by (auto simp: queue_ok_def lease_ok_def)
  have after: "(r = Inl QueueFull \<longleftrightarrow> queue_full q) \<and> r \<noteq> Inl LeaseTableFull"
    if p: "(case input of Some _ \<Rightarrow> pop_lease q | None \<Rightarrow> (None, q)) = (li, q0)" "input \<noteq> None \<longrightarrow> li \<noteq> None"
      and q0: "queue_inv {} q0 fs rs" "tslots q0 = tslots q" for li q0
  proof -
    obtain ri q1 c1 where rv: "reserve_submit_slot q0 c = (ri, q1, c1)" by (metis prod_cases3)
    have "ri = None \<longleftrightarrow> queue_full q"
      using reserve_none_iff [OF q0(1) rv] queue_full_iff [OF inv] q0(2) by (simp add: out_of_reach_def)
    moreover have "(r = Inl QueueFull \<longleftrightarrow> ri = None) \<and> r \<noteq> Inl LeaseTableFull"
      using r p rv by (cases ri) (auto simp: submit_inner_def Let_def split: prod.splits)
    ultimately show ?thesis by blast
  qed
  have "?L \<and> ?Q"
  proof (cases input)
    case None
    then show ?thesis using after [of None q] inv by simp
  next
    case (Some b)
    obtain li q0 where pl: "pop_lease q = (li, q0)" by fastforce
    from linv pl show ?thesis
    proof (cases rule: pop_lease_cases)
      case empty
      then have "r = Inl LeaseTableFull" using r pl Some by (auto simp: submit_inner_def)
      moreover have "lease_table_full q" using lease_none_free linv empty(3) by (auto simp: lease_table_full_def)
      ultimately show ?thesis using Some by simp
    next
      case (got k xs h)
      have "\<not> lease_table_full q" using got(6,7) unfolding lease_table_full_def by (metis nth_mem)
      moreover have "(r = Inl QueueFull \<longleftrightarrow> queue_full q) \<and> r \<noteq> Inl LeaseTableFull"
        using after [of "Some k" q0] Some pl got(1,2) inv by simp
      ultimately show ?thesis by blast
    qed
  qed
  then show ?L ?Q by blast+
qed

lemma reusable_in_reach:
  assumes ok: "queue_ok q" and few: "card (queued_slots q) < DRAIN_DIG"
    and i: "i < tq_capacity q" "tstate (tslots q ! i) \<noteq> QUEUED" "tstate (tslots q ! i) \<noteq> CLAIMED"
  shows "\<not> queue_full q"
proof
  assume full: "queue_full q"
  obtain fs rs where inv: "queue_inv {} q fs rs" using ok by (auto simp: queue_ok_def)
  note f = full [unfolded queue_full_iff [OF inv]]
  note x = idx_of_nat [OF inv i(1)]
  have st: "state_ok False (of_nat i \<in> members rs) (tstate (tslots q ! i))"
    using inv_state [OF inv, of "of_nat i"] f x i(1) by simp
  then have c: "tstate (tslots q ! i) = CANCELLED" "of_nat i \<in> members rs"
    using i(2,3) by (auto simp: state_ok_def task_states split: if_splits)
  then obtain xs where xs: "xs \<in> set rs" "of_nat i \<in> set xs" by (auto simp: members_def)
  have ci: "tstate (slot_of q (of_nat i)) = CANCELLED" using c(1) x by simp
  have far: "of_nat i \<notin> set (take DRAIN_DIG xs)" using f xs(1) ci unfolding out_of_reach_def by blast
  have dx: "distinct xs" using inv xs(1) by (auto simp: queue_inv_def shards_def stack_of_def in_set_conv_nth)
  have "DRAIN_DIG < length xs" using far xs(2) by (metis not_le_imp_less take_all)
  then have n: "card (unat ` set (take DRAIN_DIG xs)) = DRAIN_DIG"
    using distinct_card [OF distinct_take [OF dx]] card_image [of unat "set (take DRAIN_DIG xs)"]
    by (simp add: inj_on_def word_unat_eq_iff)
  have sub: "unat ` set (take DRAIN_DIG xs) \<subseteq> queued_slots q"
  proof
    fix j assume "j \<in> unat ` set (take DRAIN_DIG xs)"
    then obtain y where y: "j = unat y" "y \<in> set (take DRAIN_DIG xs)" by blast
    have m: "y \<in> members rs" using y(2) xs(1) by (auto simp: members_def dest: in_set_takeD)
    then have b: "unat y < tq_capacity q" using inv by (simp add: queue_inv_def)
    have "tstate (slot_of q y) \<noteq> CANCELLED" using f xs(1) y(2) by (simp add: out_of_reach_def)
    then have "tstate (slot_of q y) = QUEUED"
      using inv_state [OF inv b] m f by (auto simp: state_ok_def task_states split: if_splits)
    then show "j \<in> queued_slots q" using b y(1) by (simp add: queued_slots_def)
  qed
  have "finite (queued_slots q)" by (simp add: queued_slots_def)
  from card_mono [OF this sub] show False using n few by simp
qed

text \<open>
  C17: A submit takes a slot that was empty or finished, never a live one, under a fresh
  incarnation: the handle polls as queued, every other handle to that slot as stale, the request
  and deadline are stored, the binding is armed for that incarnation, and no other slot changes.
  It is refused in exactly two cases, and then changes no slot: with \<^verbatim>\<open>LeaseTableFull\<close> if and only if it
  brings a binding and no lease record is free, and otherwise with \<^verbatim>\<open>QueueFull\<close> if and only if no
  slot is on a FREE stack and no cancelled slot is among the first \<open>DRAIN_DIG\<close> nodes of a READY
  stack. A cancelled slot buried deeper than that is not recovered; while fewer than \<open>DRAIN_DIG\<close>
  tasks are queued none can be, and any slot neither queued nor claimed is found.
\<close>

theorem submit_fresh:
  assumes "queue_ok q" and "lease_ok q" and "submit_inner q c request dl input = (r, q', c')"
  shows "queue_ok q' \<and> lease_ok q'
    \<and> (r = Inl LeaseTableFull \<longleftrightarrow> input \<noteq> None \<and> lease_table_full q)
    \<and> (r = Inl QueueFull \<longleftrightarrow> \<not> (input \<noteq> None \<and> lease_table_full q) \<and> queue_full q)
    \<and> (card (queued_slots q) < DRAIN_DIG
         \<and> (\<exists>i<tq_capacity q. tstate (tslots q ! i) \<noteq> QUEUED \<and> tstate (tslots q ! i) \<noteq> CLAIMED) \<longrightarrow> \<not> queue_full q)
    \<and> (case r of
      Inl e \<Rightarrow> slots_kept {} q q' \<and> (e = QueueFull \<and> all_busy q \<or> e = LeaseTableFull)
    | Inr h \<Rightarrow> submit_post q q' request dl input h \<and> poll q' h = Inr SQueued
        \<and> (\<forall>sq. sq \<noteq> hseq h \<longrightarrow> poll q' (h\<lparr>hseq := sq\<rparr>) = Inl StaleHandle))"
proof -
  have ok: "queue_ok q' \<and> lease_ok q'" using submit_cases [OF assms] by blast
  have reach: "card (queued_slots q) < DRAIN_DIG
      \<and> (\<exists>i<tq_capacity q. tstate (tslots q ! i) \<noteq> QUEUED \<and> tstate (tslots q ! i) \<noteq> CLAIMED) \<longrightarrow> \<not> queue_full q"
    using reusable_in_reach [OF assms(1)] by blast
  have "case r of
      Inl e \<Rightarrow> slots_kept {} q q' \<and> (e = QueueFull \<and> all_busy q \<or> e = LeaseTableFull)
    | Inr h \<Rightarrow> submit_post q q' request dl input h \<and> poll q' h = Inr SQueued
        \<and> (\<forall>sq. sq \<noteq> hseq h \<longrightarrow> poll q' (h\<lparr>hseq := sq\<rparr>) = Inl StaleHandle)"
  proof (cases r)
    case (Inl e)
    then show ?thesis using submit_cases [OF assms] by auto
  next
    case (Inr h)
    then have sp: "submit_post q q' request dl input h" using submit_cases [OF assms] by simp
    then have d: "slot_data (slot_of q' (slot_idx h)) = slot_data (submitted request dl (slot_of q (slot_idx h)))"
      and h: "unat (slot_idx h) < tq_capacity q'" "hseq h = tseq (slot_of q (slot_idx h)) + 1"
      by (simp_all add: submit_post_def Let_def slots_kept_def)
    have "tstate (slot_of q' (slot_idx h)) = QUEUED" "tseq (slot_of q' (slot_idx h)) = hseq h"
      using slot_data_eqD(1,3) [OF d] h(2) by (simp_all add: submitted_def fill_slot_def)
    then show ?thesis using Inr sp h(1) by (auto simp: poll_def Let_def)
  qed
  then show ?thesis using ok reach submit_refused [OF assms] by blast
qed

lemma demo_submit:
  obtains h q' c' where "submit_inner demo_queue c request dl None = (Inr h, q', c')" and "queue_ok q'" and "lease_ok q'"
    and "slot_idx h = 0" and "tstate (tslots q' ! 0) = QUEUED" and "tretry (tslots q' ! 0) = 0"
    and "tq_capacity q' = 1" and "max_retries q' = 3"
proof -
  obtain r q' c' where r: "submit_inner demo_queue c request dl None = (r, q', c')" by (metis prod_cases3)
  note sp = submit_cases [OF demo_ok(1,2) r]
  have "\<not> all_busy demo_queue"
    using demo_ok by (auto simp: all_busy_def fresh_slot_def task_states)
  then obtain h where h: "r = Inr h" using sp by (cases r) auto
  then have post: "submit_post demo_queue q' request dl None h" using sp by simp
  then have x: "slot_idx h = 0" using demo_ok(3) by (simp add: submit_post_def Let_def unat_eq_zero)
  have d: "slot_data (tslots q' ! 0) = slot_data (submitted request dl (tslots demo_queue ! 0))"
    using post x by (simp add: submit_post_def Let_def)
  show thesis
    by (rule that [OF r [unfolded h]])
      (use sp x post slot_data_eqD [OF d] demo_ok(3,4) in
        \<open>auto simp: h submitted_def fill_slot_def submit_post_def Let_def slots_kept_def\<close>)
qed

theorem submit_fresh_witness:
  "\<exists>h q' c'. submit_inner demo_queue \<lparr>sc_val = 0, sc_seed = 5\<rparr> ZERO_desc 9 None = (Inr h, q', c') \<and> poll q' h = Inr SQueued"
proof -
  obtain r q' c' where s: "submit_inner demo_queue \<lparr>sc_val = 0, sc_seed = 5\<rparr> ZERO_desc 9 None = (r, q', c')" by (metis prod_cases3)
  have st: "tq_capacity demo_queue = 1" "tstate (tslots demo_queue ! 0) = TEMPTY"
    using demo_ok by (simp_all add: fresh_slot_def)
  have "queued_slots demo_queue = {}" "\<exists>i<tq_capacity demo_queue. tstate (tslots demo_queue ! i) \<noteq> QUEUED \<and> tstate (tslots demo_queue ! i) \<noteq> CLAIMED"
    using st by (auto simp: queued_slots_def task_states)
  then have few: "card (queued_slots demo_queue) < DRAIN_DIG
      \<and> (\<exists>i<tq_capacity demo_queue. tstate (tslots demo_queue ! i) \<noteq> QUEUED \<and> tstate (tslots demo_queue ! i) \<noteq> CLAIMED)"
    by (simp add: DRAIN_DIG_def)
  note f = submit_fresh [OF demo_ok(1,2) s]
  have "\<not> queue_full demo_queue" using f few by blast
  then have "r \<noteq> Inl QueueFull" "r \<noteq> Inl LeaseTableFull" using f by simp_all
  then obtain h where "r = Inr h" using f by (cases r) auto
  then show ?thesis using f s by auto
qed

theorem claims_drain_queue_witness:
  "\<exists>h q c. submit_inner demo_queue \<lparr>sc_val = 0, sc_seed = 5\<rparr> ZERO_desc 9 None = (Inr h, q, c) \<and>
     (\<exists>ts q'. claim_each q [3] = Some (ts, q') \<and> set (map ct_idx ts) = {0} \<and> queued_slots q' = {})"
proof -
  obtain h q c where s: "submit_inner demo_queue \<lparr>sc_val = 0, sc_seed = 5\<rparr> ZERO_desc 9 None = (Inr h, q, c)"
    "queue_ok q" "tstate (tslots q ! 0) = QUEUED" "tq_capacity q = 1" using demo_submit by blast
  have "queued_slots q = {0}" using s(3,4) by (auto simp: queued_slots_def)
  then show ?thesis using claims_drain_queue [OF s(2), of "[3]"] s(1) by auto
qed

lemma ended_lost:
  assumes "tstate (tslots q ! ct_idx t) \<noteq> CLAIMED" and "tseq (tslots q ! ct_idx t) = ct_seq t"
  shows "complete q c t res = (Inl Lost, q, c)" and "fail q c t = (Inl Lost, q, c)"
  using assms by (simp_all add: complete_def fail_def Let_def try_begin_complete_def try_fail_def cas_state_def compare_exchange_def)

lemma end_same_claim:
  assumes "ct_idx t2 = ct_idx t" and "ct_seq t2 = ct_seq t"
  shows "complete q c t2 res = complete q c t res" and "fail q c t2 = fail q c t"
  by (simp_all only: complete_def fail_def assms)

text \<open>
  C18: Ending a claimed task, by \<^verbatim>\<open>complete\<close> or \<^verbatim>\<open>fail\<close>. If the slot has been reused the worker gets
  \<^verbatim>\<open>StaleHandle\<close>, if the slot is not claimed at that moment \<^verbatim>\<open>Lost\<close>, and nothing changes. Otherwise the
  end is recorded: the holder of the handle polls the result, respectively the failure, and no
  other slot changes; and every further end under the same incarnation gets \<^verbatim>\<open>Lost\<close> and changes
  nothing. Which worker ends the task plays no part: two claims of one slot and incarnation, such
  as one that lapsed and the one it was re-dispatched to, end it in the same way, so the first of
  them to call is recorded and the other is told \<^verbatim>\<open>Lost\<close>, whichever of the two owns the slot.
\<close>

theorem outcome_reported:
  assumes "queue_ok q" and "ct_idx t < tq_capacity q"
    and "h = \<lparr>slot_idx = of_nat (ct_idx t), hseq = ct_seq t\<rparr>" and "s = tslots q ! ct_idx t"
    and "complete q c t res = (r, q', c')" and "fail q c t = (rf, qf, cf)"
  shows "(if tseq s \<noteq> ct_seq t then r = Inl StaleHandle \<and> q' = q \<and> rf = Inl StaleHandle \<and> qf = q
    else if tstate s \<noteq> CLAIMED then r = Inl Lost \<and> q' = q \<and> rf = Inl Lost \<and> qf = q
    else r = Inr () \<and> queue_ok q' \<and> slots_kept {slot_idx h} q q' \<and> poll q' h = Inr (SDone res)
       \<and> rf = Inr () \<and> queue_ok qf \<and> slots_kept {slot_idx h} q qf \<and> poll qf h = Inr SFailed
       \<and> (\<forall>t2 c2 res2. ct_idx t2 = ct_idx t \<and> ct_seq t2 = ct_seq t \<longrightarrow>
            complete q' c2 t2 res2 = (Inl Lost, q', c2) \<and> fail q' c2 t2 = (Inl Lost, q', c2)
          \<and> complete qf c2 t2 res2 = (Inl Lost, qf, c2) \<and> fail qf c2 t2 = (Inl Lost, qf, c2)))
    \<and> (\<forall>t2. ct_idx t2 = ct_idx t \<and> ct_seq t2 = ct_seq t \<longrightarrow> complete q c t2 res = (r, q', c') \<and> fail q c t2 = (rf, qf, cf))"
proof -
  obtain fs rs where inv: "queue_inv {} q fs rs" using assms(1) by (auto simp: queue_ok_def)
  note x = idx_of_nat [OF inv assms(2)]
  note c = complete_spec [OF inv assms(2,4,5)] and f = fail_spec [OF inv assms(2,4,6)]
  have same: "complete q c t2 res = (r, q', c') \<and> fail q c t2 = (rf, qf, cf)"
    if "ct_idx t2 = ct_idx t" "ct_seq t2 = ct_seq t" for t2 :: claimed_task
    using end_same_claim [OF that] assms(5,6) by simp
  have "if tseq s \<noteq> ct_seq t then r = Inl StaleHandle \<and> q' = q \<and> rf = Inl StaleHandle \<and> qf = q
    else if tstate s \<noteq> CLAIMED then r = Inl Lost \<and> q' = q \<and> rf = Inl Lost \<and> qf = q
    else r = Inr () \<and> queue_ok q' \<and> slots_kept {slot_idx h} q q' \<and> poll q' h = Inr (SDone res)
       \<and> rf = Inr () \<and> queue_ok qf \<and> slots_kept {slot_idx h} q qf \<and> poll qf h = Inr SFailed
       \<and> (\<forall>t2 c2 res2. ct_idx t2 = ct_idx t \<and> ct_seq t2 = ct_seq t \<longrightarrow>
            complete q' c2 t2 res2 = (Inl Lost, q', c2) \<and> fail q' c2 t2 = (Inl Lost, q', c2)
          \<and> complete qf c2 t2 res2 = (Inl Lost, qf, c2) \<and> fail qf c2 t2 = (Inl Lost, qf, c2))"
  proof (cases "tseq s = ct_seq t \<and> tstate s = CLAIMED")
    case True
    then have c': "r = Inr ()" "queue_ok q'" "frame {slot_idx h} q q'" "slot_data (tslots q' ! ct_idx t) = slot_data (s\<lparr>tstate := DONE, tresult := res\<rparr>)"
      and f': "rf = Inr ()" "queue_ok qf" "frame {slot_idx h} q qf" "slot_data (tslots qf ! ct_idx t) = slot_data (s\<lparr>tstate := FAILED\<rparr>)"
      using c f assms(3) by simp_all
    have "poll q' h = Inr (SDone res)" "poll qf h = Inr SFailed"
      using slot_data_eqD [OF c'(4)] slot_data_eqD [OF f'(4)] c'(3) f'(3) x assms(2,3) True
      by (simp_all add: poll_def Let_def frame_def task_states)
    moreover have "tstate (tslots q' ! ct_idx t) \<noteq> CLAIMED" "tseq (tslots q' ! ct_idx t) = ct_seq t"
      "tstate (tslots qf ! ct_idx t) \<noteq> CLAIMED" "tseq (tslots qf ! ct_idx t) = ct_seq t"
      using slot_data_eqD(1,3) [OF c'(4)] slot_data_eqD(1,3) [OF f'(4)] True by (simp_all add: task_states)
    ultimately show ?thesis using True c'(1-3) f'(1-3) frame_kept ended_lost by simp
  qed (use c f in \<open>auto split: if_splits\<close>)
  then show ?thesis using same by blast
qed

lemma claimed_demo:
  obtains q0 t q where "claim_with_lease q0 1 20 = Some (Some t, q)" and "queue_ok q0" and "queue_ok q" and "ct_idx t = 0"
    and "tq_capacity q = 1" and "max_retries q = 3" and "ct_seq t = tseq (tslots q ! 0)"
    and "tstate (tslots q ! 0) = CLAIMED" and "tdeadline (tslots q ! 0) = 20" and "tretry (tslots q ! 0) = 0"
proof -
  obtain h q0 c where s: "queue_ok q0" "tstate (tslots q0 ! 0) = QUEUED" "tretry (tslots q0 ! 0) = 0"
    "tq_capacity q0 = 1" "max_retries q0 = 3"
    using demo_submit [of "\<lparr>sc_val = 0, sc_seed = 5\<rparr>" ZERO_desc 9] by metis
  obtain fs rs where inv: "queue_inv {} q0 fs rs" using s(1) by (auto simp: queue_ok_def)
  from inv show thesis
  proof (cases rule: claim_inner_spec [of q0 fs rs 1 "Some 20"])
    case (none q')
    then have "tstate (slot_of q0 0) \<noteq> QUEUED" using s(4) by (metis less_numeral_extra(1) unat_0)
    then show thesis using s(2) by simp
  next
    case (some x q')
    then have x: "x = 0" using s(4) by (simp add: unat_eq_zero)
    note d = slot_data_eqD [OF some(6)]
    show thesis
      by (rule that [of q0 "\<lparr>ct_idx = unat x, ct_seq = tseq (slot_of q0 x), ct_worker = 1, ct_request = trequest (slot_of q0 x)\<rparr>" q'])
        (use some(1,2,3) s d x in \<open>auto simp: claim_with_lease_def lease_of_def frame_def\<close>)
  qed
qed

theorem outcome_reported_witness:
  "\<exists>q t q' c'. complete q \<lparr>sc_val = 2, sc_seed = 5\<rparr> t ZERO_desc = (Inr (), q', c')
     \<and> poll q' \<lparr>slot_idx = of_nat (ct_idx t), hseq = ct_seq t\<rparr> = Inr (SDone ZERO_desc)
     \<and> fail q' c' (t\<lparr>ct_worker := 9\<rparr>) = (Inl Lost, q', c')"
proof -
  obtain q :: task_queue and t :: claimed_task where d: "queue_ok q" "ct_idx t = 0" "tq_capacity q = 1" "ct_seq t = tseq (tslots q ! 0)"
    "tstate (tslots q ! 0) = CLAIMED"
    by (rule claimed_demo) blast
  then have q: "queue_ok q" "ct_idx t < tq_capacity q" "ct_seq t = tseq (tslots q ! ct_idx t)"
    "tstate (tslots q ! ct_idx t) = CLAIMED" by simp_all
  obtain r q' c' rf qf cf where e: "complete q \<lparr>sc_val = 2, sc_seed = 5\<rparr> t ZERO_desc = (r, q', c')"
    "fail q \<lparr>sc_val = 2, sc_seed = 5\<rparr> t = (rf, qf, cf)" by (metis prod_cases3)
  from outcome_reported [OF q(1,2) refl refl e]
  have "r = Inr ()" "poll q' \<lparr>slot_idx = of_nat (ct_idx t), hseq = ct_seq t\<rparr> = Inr (SDone ZERO_desc)"
    "fail q' c' (t\<lparr>ct_worker := 9\<rparr>) = (Inl Lost, q', c')"
    using q(3,4) by simp_all
  then show ?thesis using e(1) by blast
qed

section \<open>Reaping\<close>

text \<open>
  C19: A sweep of the reaper at time \<open>now\<close> treats exactly the claims whose deadline has passed:
  below the retry limit the task is queued again under the same incarnation with one more retry
  and no owner, at the limit it fails; every other slot is left as it is, and the report counts
  both kinds.
\<close>

theorem reap_exact:
  assumes "queue_ok q" and "reap q c now = (q', c', rep)"
  shows "queue_ok q' \<and> leases q' = leases q
    \<and> (\<forall>i<tq_capacity q. slot_data (tslots q' ! i) = slot_data (reaped now (max_retries q) (tslots q ! i)))
    \<and> (requeued rep, rfailed rep) = map_prod of_nat of_nat (reap_counts now (max_retries q) (tslots q))"
proof -
  obtain fs rs where inv: "queue_inv {} q fs rs" using assms(1) by (auto simp: queue_ok_def)
  show ?thesis using reap_spec [OF inv assms(2)] by blast
qed

theorem reap_exact_witness:
  "\<exists>q q' c' rep. reap q \<lparr>sc_val = 2, sc_seed = 5\<rparr> 21 = (q', c', rep) \<and> tstate (tslots q ! 0) = CLAIMED
     \<and> tstate (tslots q' ! 0) = QUEUED"
proof -
  obtain q where q: "queue_ok q" "tq_capacity q = 1" "max_retries q = 3" "tstate (tslots q ! 0) = CLAIMED"
    "tdeadline (tslots q ! 0) = 20" "tretry (tslots q ! 0) = 0" using claimed_demo by metis
  obtain q' c' rep where r: "reap q \<lparr>sc_val = 2, sc_seed = 5\<rparr> 21 = (q', c', rep)" by (metis prod_cases3)
  have "slot_data (tslots q' ! 0) = slot_data (reaped 21 3 (tslots q ! 0))"
    using reap_exact [OF q(1) r] q(2,3) by simp
  from slot_data_eqD(1) [OF this] have "tstate (tslots q' ! 0) = QUEUED" using q by (simp add: reaped_def lapsed_def)
  then show ?thesis using r q(4) by blast
qed

lemma leased_claim:
  assumes "queue_ok q" and c: "claim_with_lease q w d = Some (Some t, q')"
  shows "ct_idx t < tq_capacity q" and "queue_ok q'" and "tq_capacity q' = tq_capacity q"
    and "ct_seq t = tseq (tslots q' ! ct_idx t)" and "ct_seq t = tseq (tslots q ! ct_idx t)"
    and "tstate (tslots q' ! ct_idx t) = CLAIMED" and "tdeadline (tslots q' ! ct_idx t) = d"
    and "towner (tslots q' ! ct_idx t) = w" and "max_retries q' = max_retries q"
    and "tretry (tslots q' ! ct_idx t) = tretry (tslots q ! ct_idx t)"
proof -
  obtain fs rs where inv: "queue_inv {} q fs rs" using assms(1) by (auto simp: queue_ok_def)
  have "ct_idx t < tq_capacity q \<and> queue_ok q' \<and> tq_capacity q' = tq_capacity q
    \<and> ct_seq t = tseq (tslots q' ! ct_idx t) \<and> ct_seq t = tseq (tslots q ! ct_idx t)
    \<and> tstate (tslots q' ! ct_idx t) = CLAIMED \<and> tdeadline (tslots q' ! ct_idx t) = d
    \<and> towner (tslots q' ! ct_idx t) = w \<and> max_retries q' = max_retries q
    \<and> tretry (tslots q' ! ct_idx t) = tretry (tslots q ! ct_idx t)"
    using inv
  proof (cases rule: claim_inner_spec [of q fs rs w "Some d"])
    case (some x q1)
    note e = slot_data_eqD [OF some(6)]
    have "t = \<lparr>ct_idx = unat x, ct_seq = tseq (slot_of q x), ct_worker = w, ct_request = trequest (slot_of q x)\<rparr>" "q' = q1"
      using some(1) c by (simp_all add: claim_with_lease_def)
    then show ?thesis using some(2,3,4) e by (simp add: lease_of_def frame_def)
  qed (use c in \<open>simp add: claim_with_lease_def\<close>)
  then show "ct_idx t < tq_capacity q" "queue_ok q'" "tq_capacity q' = tq_capacity q"
    "ct_seq t = tseq (tslots q' ! ct_idx t)" "ct_seq t = tseq (tslots q ! ct_idx t)"
    "tstate (tslots q' ! ct_idx t) = CLAIMED" "tdeadline (tslots q' ! ct_idx t) = d"
    "towner (tslots q' ! ct_idx t) = w" "max_retries q' = max_retries q"
    "tretry (tslots q' ! ct_idx t) = tretry (tslots q ! ct_idx t)" by blast+
qed

lemma claim_inner_worker: "claim_inner q w dl = Some (Some t, q') \<Longrightarrow> ct_worker t = w"
  by (auto simp: claim_inner_def Let_def split: option.splits)

text \<open>
  The incarnation does not tell one attempt from the next. A worker whose claim lapsed and
  was handed to another worker still completes the task successfully, and it is the worker that
  owns the claim that is told \<^verbatim>\<open>Lost\<close>.
\<close>

theorem lapsed_worker_completes:
  assumes "queue_ok q" and "claim_with_lease q w1 d1 = Some (Some t1, q1)" and "d1 < now"
    and "tretry (tslots q1 ! ct_idx t1) < max_retries q1"
    and "reap q1 c now = (q2, c2, rep)" and "claim_with_lease q2 w2 d2 = Some (Some t2, q3)" and "ct_idx t2 = ct_idx t1"
  shows "towner (tslots q3 ! ct_idx t1) = w2 \<and>
    (\<exists>q4 c4. complete q3 c2 t1 res = (Inr (), q4, c4) \<and> complete q4 c4 t2 res2 = (Inl Lost, q4, c4))"
proof -
  note c1 = leased_claim [OF assms(1,2)]
  obtain fs1 rs1 where inv1: "queue_inv {} q1 fs1 rs1" using c1(2) by (auto simp: queue_ok_def)
  note rp = reap_spec [OF inv1 assms(5)]
  have d2: "slot_data (tslots q2 ! ct_idx t1) = slot_data (reaped now (max_retries q1) (tslots q1 ! ct_idx t1))"
    using rp(6) [of "ct_idx t1"] c1(1,3) by simp
  have sq: "tseq (tslots q2 ! ct_idx t1) = ct_seq t1"
    using slot_data_eqD(3) [OF d2] c1(4) by (simp add: reaped_def)
  note c3 = leased_claim [OF rp(1) assms(6)]
  obtain fs3 rs3 where inv3: "queue_inv {} q3 fs3 rs3" using c3(2) by (auto simp: queue_ok_def)
  have old: "ct_seq t2 = ct_seq t1" using c3(5) sq assms(7) by simp
  obtain r q4 c4 where e: "complete q3 c2 t1 res = (r, q4, c4)" by (metis prod_cases3)
  have i: "ct_idx t1 < tq_capacity q3" using c3(1,3) assms(7) by simp
  have sp: "r = Inr ()" "slot_data (tslots q4 ! ct_idx t1) = slot_data ((tslots q3 ! ct_idx t1)\<lparr>tstate := DONE, tresult := res\<rparr>)"
    using complete_spec [OF inv3 i refl e] old c3(4,6) assms(7) by simp_all
  have "tstate (tslots q4 ! ct_idx t2) = DONE" "tseq (tslots q4 ! ct_idx t2) = ct_seq t2"
    using slot_data_eqD(1,3) [OF sp(2)] c3(4) assms(7) by simp_all
  then have "complete q4 c4 t2 res2 = (Inl Lost, q4, c4)"
    by (simp add: complete_def Let_def try_begin_complete_def cas_state_def compare_exchange_def task_states)
  then show ?thesis using e sp(1) c3(8) assms(7) by auto
qed

theorem lapsed_worker_completes_witness:
  "\<exists>q3 c2 t1 t2 q4 c4. ct_worker t1 = 1 \<and> towner (tslots q3 ! ct_idx t1) = 2
     \<and> complete q3 c2 t1 ZERO_desc = (Inr (), q4, c4) \<and> complete q4 c4 t2 ZERO_desc = (Inl Lost, q4, c4)"
proof -
  let ?c = "\<lparr>sc_val = 2, sc_seed = 5\<rparr>"
  obtain q0 t1 q where q: "claim_with_lease q0 1 20 = Some (Some t1, q)" "queue_ok q0" "queue_ok q" "ct_idx t1 = 0"
    "tq_capacity q = 1" "max_retries q = 3" "tstate (tslots q ! 0) = CLAIMED" "tdeadline (tslots q ! 0) = 20"
    "tretry (tslots q ! 0) = 0" by (rule claimed_demo) blast
  obtain q2 c2 rep where rp: "reap q ?c 21 = (q2, c2, rep)" by (metis prod_cases3)
  obtain fs rs where inv: "queue_inv {} q fs rs" using q(3) by (auto simp: queue_ok_def)
  note r = reap_spec [OF inv rp]
  have "slot_data (tslots q2 ! 0) = slot_data (reaped 21 3 (tslots q ! 0))" using r(6) [of 0] q(5,6) by simp
  from slot_data_eqD(1) [OF this] have st: "tstate (tslots q2 ! 0) = QUEUED" using q(7-9) by (simp add: reaped_def lapsed_def)
  obtain fs2 rs2 where inv2: "queue_inv {} q2 fs2 rs2" using r(1) by (auto simp: queue_ok_def)
  obtain t2 q3 where c: "claim_with_lease q2 2 60 = Some (Some t2, q3)"
  proof (rule claim_inner_spec [OF inv2, of 2 "Some 60"])
    fix q' assume "\<forall>x. unat x < tq_capacity q2 \<longrightarrow> tstate (slot_of q2 x) \<noteq> QUEUED"
    then have "tstate (slot_of q2 0) \<noteq> QUEUED" using r(2) q(5) by (metis less_numeral_extra(1) unat_0)
    then show thesis using st by simp
  qed (use that in \<open>auto simp: claim_with_lease_def\<close>)
  have i: "ct_idx t2 = ct_idx t1" using leased_claim(1) [OF r(1) c] r(2) q(4,5) by simp
  have w: "ct_worker t1 = 1"
    using claim_inner_worker [OF q(1) [unfolded claim_with_lease_def]] .
  have "(20 :: u64) < 21" "tretry (tslots q ! ct_idx t1) < max_retries q" using q(4,6,9) by simp_all
  from lapsed_worker_completes [OF q(2,1) this rp c i, of ZERO_desc ZERO_desc] show ?thesis using w by blast
qed

section \<open>Bindings\<close>

lemma acked_matches: "ack_matches h l \<Longrightarrow> lease_state (acked h l) = LEASE_ACKED \<and> binding_of (acked h l) = binding_of l"
  by (simp add: acked_def binding_of_def)

lemma freed_not_releasable:
  assumes "lease_data l' = lease_data (freed l)"
  shows "lease_state l' = LEASE_NONE"
  using assms by (cases l; cases l') (simp add: lease_data_def freed_def)

text \<open>
  C20: Bindings are handed back exactly once. An ack of a finished task marks exactly the records
  armed for its handle and counts them. The next sweep, at any time and with any grace, returns
  the binding of each of them, returns exactly the bindings of the releasable records, one each,
  retires those records to the free list and leaves the others as they are; the slots are not
  touched, and no later sweep finds a retired record releasable.
\<close>

theorem bindings_released_once:
  assumes "lease_ok q" and "ack q h = (Inr n, q1)" and "reap_bindings q1 now grace = (q2, out)"
  shows "n = length (filter (ack_matches h) (leases q))
    \<and> out = map binding_of (filter (releasable q1 now grace) (leases q1))
    \<and> (\<forall>l\<in>set (leases q). ack_matches h l \<longrightarrow> binding_of l \<in> set out)
    \<and> (\<forall>i<length (leases q1). if releasable q1 now grace (leases q1 ! i)
         then lease_state (leases q2 ! i) = LEASE_NONE \<and> (\<forall>now' grace'. \<not> releasable q2 now' grace' (leases q2 ! i))
         else lease_data (leases q2 ! i) = lease_data (leases q1 ! i))
    \<and> lease_ok q2 \<and> tslots q2 = tslots q"
proof -
  obtain ls where inv: "lease_inv {} q ls" using assms(1) by (auto simp: lease_ok_def)
  note a = ack_spec [OF inv assms(2)]
  have q1: "q1 = q\<lparr>leases := map (acked h) (leases q)\<rparr>" using a(2) by simp
  note r = reap_bindings_spec [OF a(1) assms(3)]
  have got: "binding_of l \<in> set out" if "l \<in> set (leases q)" "ack_matches h l" for l
  proof -
    have "releasable q1 now grace (acked h l)" using acked_matches [OF that(2)] by (simp add: releasable_def)
    moreover have "acked h l \<in> set (leases q1)" using that(1) by (simp add: q1)
    ultimately have "binding_of (acked h l) \<in> set out" unfolding r(1) by simp
    then show ?thesis using acked_matches [OF that(2)] by simp
  qed
  have each: "if releasable q1 now grace (leases q1 ! i)
         then lease_state (leases q2 ! i) = LEASE_NONE \<and> (\<forall>now' grace'. \<not> releasable q2 now' grace' (leases q2 ! i))
         else lease_data (leases q2 ! i) = lease_data (leases q1 ! i)" if "i < length (leases q1)" for i
    using r(5) [OF that] freed_not_releasable [of "leases q2 ! i"] by (auto simp: releasable_def lease_states)
  have "tslots q2 = tslots q" using r(3) by (auto simp: q1)
  then show ?thesis using a(3) r(1,2) got each by simp
qed

lemma arm_binding [simp]: "binding_of (arm b i sq dl l) = b" "lslot_idx (arm b i sq dl l) = i" "lseq (arm b i sq dl l) = sq"
  by (simp_all add: arm_def binding_of_def Let_def)

lemma demo_bound:
  obtains h q k where "queue_ok q" and "lease_ok q" and "tstate (slot_of q (slot_idx h)) = QUEUED"
    and "unat (slot_idx h) < tq_capacity q" and "tseq (slot_of q (slot_idx h)) = hseq h"
    and "k < length (leases q)" and "ack_matches h (leases q ! k)" and "binding_of (leases q ! k) = b"
proof -
  obtain r q c where s: "submit_inner demo_queue \<lparr>sc_val = 0, sc_seed = 5\<rparr> ZERO_desc 9 (Some b) = (r, q, c)" by (metis prod_cases3)
  note sp = submit_cases [OF demo_ok(1,2) s]
  have "\<not> all_busy demo_queue" using demo_ok by (auto simp: all_busy_def fresh_slot_def task_states)
  moreover have "leases demo_queue = map (\<lambda>i. fresh_lease (seed_next 2 i)) [0..<2]"
    by (simp add: demo_queue_def task_init_with_max_retries_def is_power_of_two_def task_required_bytes_def
      lease_table_offset_def tslots_offset_def align_up_def lease_capacity_def Let_def)
  then have "fresh_lease (seed_next 2 0) \<in> set (leases demo_queue)" by simp
  moreover have "lease_state (fresh_lease (seed_next 2 0)) = LEASE_NONE" by (simp add: fresh_lease_def)
  ultimately obtain h where h: "r = Inr h" using sp by (cases r) auto
  then have post: "submit_post demo_queue q ZERO_desc 9 (Some b) h" using sp by simp
  then obtain k where k: "k < length (leases demo_queue)"
      "leases q = (leases demo_queue)[k := arm b (slot_idx h) (hseq h) 9 (leases demo_queue ! k)]"
    by (auto simp: submit_post_def Let_def)
  have d: "slot_data (slot_of q (slot_idx h)) = slot_data (submitted ZERO_desc 9 (slot_of demo_queue (slot_idx h)))"
    using post by (simp add: submit_post_def Let_def)
  show thesis
    by (rule that [of q h k])
      (use sp h k post slot_data_eqD(1,3) [OF d] in
        \<open>auto simp: submitted_def fill_slot_def submit_post_def Let_def slots_kept_def ack_matches_def\<close>)
qed

theorem bindings_released_once_witness:
  "\<exists>q h n q1 q2 out. ack q h = (Inr n, q1) \<and> reap_bindings q1 0 100 = (q2, out)
     \<and> \<lparr>lb_artifact_id = 4, lb_incarnation = 1, lb_version = 2\<rparr> \<in> set out"
proof -
  let ?b = "\<lparr>lb_artifact_id = 4, lb_incarnation = 1, lb_version = 2\<rparr>"
  obtain h :: task_handle and q k where q: "queue_ok q" "lease_ok q" "tstate (slot_of q (slot_idx h)) = QUEUED"
    "unat (slot_idx h) < tq_capacity q" "tseq (slot_of q (slot_idx h)) = hseq h"
    "k < length (leases q)" "ack_matches h (leases q ! k)" "binding_of (leases q ! k) = ?b"
    by (rule demo_bound [of ?b]) blast
  obtain r q' where c: "cancel q h = (r, q')" by fastforce
  obtain fs rs where inv: "queue_inv {} q fs rs" using q(1) by (auto simp: queue_ok_def)
  note cs = cancel_spec [OF inv c refl]
  have st: "tstate (slot_of q' (slot_idx h)) = CANCELLED" "leases q' = leases q" "unat (slot_idx h) < tq_capacity q'"
    using cs q(3-5) by (simp_all add: slots_kept_def)
  have lo: "lease_ok q'" using q(2) cs lease_inv_cong [of q' q] by (simp add: lease_ok_def)
  obtain n q1 where a: "ack q' h = (Inr n, q1)"
    using st by (cases "fold (ack_record h) [0..<length (leases q')] (q', 0)") (auto simp: ack_def Let_def not_le)
  obtain q2 out where rb: "reap_bindings q1 0 100 = (q2, out)" by fastforce
  have "leases q' ! k \<in> set (leases q')" using q(6) st(2) by simp
  then have "?b \<in> set out" using bindings_released_once [OF lo a rb] q(7,8) st(2) by metis
  then show ?thesis using a rb by blast
qed

end
