(* ===== verification/Shm_Bytes.thy ===== *)
theory Shm_Bytes
  imports Shm_Segment
begin

text \<open>
  Plain data in bytes: little-endian integers, the 24 bytes of a chunk descriptor, and the interface
  \<open>pod\<close> of a record that is copied to and from shared memory as it lies there (\<^verbatim>\<open>#[repr(C)]\<close>
  structs written and read unaligned). Shown once for every such record: a value, or an array
  of them, read where it was written is the value written.
\<close>

type_synonym bytes = "u8 list"

section \<open>Little-endian integers\<close>

definition le_bytes :: "nat \<Rightarrow> 'a::len word \<Rightarrow> u8 list" where
  "le_bytes n w = map (\<lambda>i. ucast (drop_bit (8 * i) w)) [0..<n]"

primrec le_word :: "u8 list \<Rightarrow> 'a::len word" where
  "le_word [] = 0"
| "le_word (b # bs) = ucast b OR push_bit 8 (le_word bs)"

section \<open>Chunk descriptors\<close>

definition desc_bytes :: "chunk_desc \<Rightarrow> bytes" where
  "desc_bytes d = le_bytes 4 (segment_id d) @ le_bytes 4 (generation d) @ le_bytes 4 (offset d)
     @ le_bytes 4 (len d) @ le_bytes 4 (schema_id d) @ le_bytes 4 (desc_pad d)"

definition desc_of_bytes :: "bytes \<Rightarrow> chunk_desc" where
  "desc_of_bytes b =
     \<lparr>segment_id = le_word (take 4 b), generation = le_word (take 4 (drop 4 b)),
      offset = le_word (take 4 (drop 8 b)), len = le_word (take 4 (drop 12 b)),
      schema_id = le_word (take 4 (drop 16 b)), desc_pad = le_word (take 4 (drop 20 b))\<rparr>"

section \<open>Reading records out of a buffer\<close>

text \<open>\<^verbatim>\<open>read_pod\<close>: the \<open>n\<close> bytes at \<open>off\<close>, as a value.\<close>

definition read_pod :: "nat \<Rightarrow> (bytes \<Rightarrow> 'a) \<Rightarrow> bytes \<Rightarrow> nat \<Rightarrow> 'a" where
  "read_pod n dec buf off = dec (take n (drop off buf))"

text \<open>The loop that reads \<open>k\<close> records in a row.\<close>

definition read_pods :: "nat \<Rightarrow> (bytes \<Rightarrow> 'a) \<Rightarrow> bytes \<Rightarrow> nat \<Rightarrow> nat \<Rightarrow> 'a list" where
  "read_pods n dec buf off k = map (\<lambda>i. read_pod n dec buf (off + i * n)) [0..<k]"

section \<open>Lemmas\<close>

lemma length_le_bytes [simp]: "length (le_bytes n w) = n"
  by (simp add: le_bytes_def)

lemma bit_le_word:
  "bit (le_word bs :: 'a::len word) i \<longleftrightarrow> i < LENGTH('a) \<and> i div 8 < length bs \<and> bit (bs ! (i div 8)) (i mod 8)"
proof (induction bs arbitrary: i)
  case (Cons b bs)
  show ?case
  proof (cases "i < 8")
    case True
    then show ?thesis by (auto simp: bit_or_iff bit_ucast_iff bit_push_bit_iff)
  next
    case False
    then obtain j where j: "i = j + 8" by (metis add.commute le_Suc_ex not_less)
    have "\<not> bit b (j + 8)" using bit_imp_le_length [of b "j + 8"] by auto
    moreover have "(j + 8) div 8 = Suc (j div 8)" by simp
    ultimately show ?thesis using Cons [of j] by (auto simp: j bit_or_iff bit_ucast_iff bit_push_bit_iff)
  qed
qed simp

lemma nth_le_bytes: "i < n \<Longrightarrow> le_bytes n w ! i = ucast (drop_bit (8 * i) w)"
  by (simp add: le_bytes_def)

lemma le_word_bytes:
  assumes "LENGTH('a) \<le> 8 * n"
  shows "le_word (le_bytes n (w :: 'a::len word)) = w"
proof (rule bit_word_eqI)
  fix i assume i: "i < LENGTH('a)"
  then have "i div 8 < n" using assms by (simp add: div_less_iff_less_mult mult.commute)
  then show "bit (le_word (le_bytes n w) :: 'a word) i \<longleftrightarrow> bit w i"
    using i by (simp add: bit_le_word nth_le_bytes bit_ucast_iff bit_drop_bit_eq)
qed

lemma le_word_u16 [simp]: "le_word (le_bytes 2 w) = (w :: u16)"
  by (rule le_word_bytes) simp

lemma le_word_u32 [simp]: "le_word (le_bytes 4 w) = (w :: u32)"
  by (rule le_word_bytes) simp

lemma le_word_u64 [simp]: "le_word (le_bytes 8 w) = (w :: u64)"
  by (rule le_word_bytes) simp

locale pod =
  fixes n :: nat and enc :: "'a \<Rightarrow> bytes" and dec :: "bytes \<Rightarrow> 'a"
  assumes length_enc [simp]: "length (enc x) = n"
    and dec_enc [simp]: "dec (enc x) = x"
begin

lemma read_pod_enc: "drop off buf = enc x @ rest \<Longrightarrow> read_pod n dec buf off = x"
  by (simp add: read_pod_def)

lemma length_concat_enc [simp]: "length (concat (map enc xs)) = length xs * n"
  by (induction xs) simp_all

lemma read_pods_enc:
  "drop off buf = concat (map enc xs) @ rest \<Longrightarrow> read_pods n dec buf off (length xs) = xs"
proof (induction xs arbitrary: off)
  case (Cons x xs)
  have hd: "read_pod n dec buf off = x" using Cons.prems by (intro read_pod_enc) simp
  have "drop (off + n) buf = concat (map enc xs) @ rest"
    using arg_cong [OF Cons.prems, of "drop n"] by (simp add: add.commute)
  then have "read_pods n dec buf (off + n) (length xs) = xs" by (rule Cons.IH)
  then show ?case using hd
    by (simp add: read_pods_def upt_conv_Cons map_Suc_upt [symmetric] comp_def add.assoc del: upt_Suc)
qed (simp add: read_pods_def)

end

interpretation desc_pod: pod 24 desc_bytes desc_of_bytes
  by unfold_locales (simp_all add: desc_bytes_def desc_of_bytes_def)

interpretation u32_pod: pod 4 "le_bytes 4" "le_word :: bytes \<Rightarrow> u32"
  by unfold_locales simp_all

end
