(* ===== verification/Shm_Protocol.thy ===== *)
theory Shm_Protocol
  imports Shm_Bytes
begin

text \<open>
  \<^verbatim>\<open>crates/shm-runtime/src/protocol.rs\<close> and \<^verbatim>\<open>uds.rs\<close>: the control protocol between actors
  and the coordinator. Requests and responses are encoded into frame bodies, decoded by a cursor
  over the received bytes, and carried in length-prefixed frames over a stream socket. The socket
  is a parameter: \<open>recv_frame\<close> takes the bytes one \<^verbatim>\<open>recvmsg\<close> returned; passed descriptors are not
  part of the bytes. A Rust \<^verbatim>\<open>String\<close> is its UTF-8 bytes. Shown: every field reader undoes its writer
  (the interface \<open>wire_field\<close>), every message survives the wire, a cut-off body is refused, and
  a second frame in the same read is lost.
\<close>

section \<open>UTF-8\<close>

text \<open>What \<^verbatim>\<open>String::from_utf8\<close> accepts.\<close>

definition utf8_cont :: "u8 \<Rightarrow> bool" where
  "utf8_cont b \<longleftrightarrow> 0x80 \<le> b \<and> b \<le> 0xBF"

fun valid_utf8 :: "u8 list \<Rightarrow> bool" where
  "valid_utf8 [] = True"
| "valid_utf8 (a # bs) =
     (if a < 0x80 then valid_utf8 bs
      else if 0xC2 \<le> a \<and> a \<le> 0xDF then
        (case bs of b # cs \<Rightarrow> utf8_cont b \<and> valid_utf8 cs | [] \<Rightarrow> False)
      else if 0xE0 \<le> a \<and> a \<le> 0xEF then
        (case bs of b # c # ds \<Rightarrow>
           (if a = 0xE0 then 0xA0 \<le> b \<and> b \<le> 0xBF else if a = 0xED then 0x80 \<le> b \<and> b \<le> 0x9F else utf8_cont b)
           \<and> utf8_cont c \<and> valid_utf8 ds | _ \<Rightarrow> False)
      else if 0xF0 \<le> a \<and> a \<le> 0xF4 then
        (case bs of b # c # d # es \<Rightarrow>
           (if a = 0xF0 then 0x90 \<le> b \<and> b \<le> 0xBF else if a = 0xF4 then 0x80 \<le> b \<and> b \<le> 0x8F else utf8_cont b)
           \<and> utf8_cont c \<and> utf8_cont d \<and> valid_utf8 es | _ \<Rightarrow> False)
      else False)"

section \<open>Errors and messages\<close>

datatype runtime_error =
    RCore shm_error
  | RArrow string
  | RRing string
  | RArtifact string
  | RTask string
  | RStream string
  | RStore string
  | RIo
  | RNix
  | Protocol string
  | PeerClosed
  | MissingFds nat nat
  | Rejected string
  | RNotFound string

text \<open>Tag bytes.\<close>

definition REGISTER :: u8 where "REGISTER = 1"
definition HEARTBEAT :: u8 where "HEARTBEAT = 2"
definition CREATE_TOPIC :: u8 where "CREATE_TOPIC = 3"
definition SUBSCRIBE :: u8 where "SUBSCRIBE = 4"
definition TAG_PUBLISHED :: u8 where "TAG_PUBLISHED = 5"
definition PINNED :: u8 where "PINNED = 6"
definition BYE :: u8 where "BYE = 7"
definition OPEN_ARTIFACT :: u8 where "OPEN_ARTIFACT = 8"
definition OPEN_TASK_QUEUE :: u8 where "OPEN_TASK_QUEUE = 9"
definition INTERN_SCHEMA :: u8 where "INTERN_SCHEMA = 10"
definition RESOLVE_SCHEMA :: u8 where "RESOLVE_SCHEMA = 11"
definition INTERN_KEY :: u8 where "INTERN_KEY = 12"
definition RESOLVE_KEY :: u8 where "RESOLVE_KEY = 13"
definition OPEN_STORE :: u8 where "OPEN_STORE = 14"
definition REGISTERED :: u8 where "REGISTERED = 128"
definition GRANTED :: u8 where "GRANTED = 129"
definition ACK :: u8 where "ACK = 130"
definition ERROR :: u8 where "ERROR = 131"
definition ARTIFACT_GRANTED :: u8 where "ARTIFACT_GRANTED = 132"
definition TASK_QUEUE_GRANTED :: u8 where "TASK_QUEUE_GRANTED = 133"
definition SCHEMA_INTERNED :: u8 where "SCHEMA_INTERNED = 134"
definition SCHEMA_RESOLVED :: u8 where "SCHEMA_RESOLVED = 135"
definition KEY_INTERNED :: u8 where "KEY_INTERNED = 136"
definition KEY_RESOLVED :: u8 where "KEY_RESOLVED = 137"
definition STORE_GRANTED :: u8 where "STORE_GRANTED = 138"

lemmas request_tags = REGISTER_def HEARTBEAT_def CREATE_TOPIC_def SUBSCRIBE_def TAG_PUBLISHED_def PINNED_def BYE_def OPEN_ARTIFACT_def OPEN_TASK_QUEUE_def INTERN_SCHEMA_def RESOLVE_SCHEMA_def INTERN_KEY_def RESOLVE_KEY_def OPEN_STORE_def
lemmas response_tags = REGISTERED_def GRANTED_def ACK_def ERROR_def ARTIFACT_GRANTED_def TASK_QUEUE_GRANTED_def SCHEMA_INTERNED_def SCHEMA_RESOLVED_def KEY_INTERNED_def KEY_RESOLVED_def STORE_GRANTED_def

datatype request =
    Register bytes
  | Heartbeat
  | CreateTopic bytes
  | Subscribe bytes
  | Published chunk_desc
  | Pinned chunk_desc
  | Bye
  | OpenArtifact bytes
  | OpenTaskQueue
  | InternSchema bytes
  | ResolveSchema u32
  | InternKey bytes
  | ResolveKey u32
  | OpenStore

datatype response =
    Registered u32 u32 u32 u32
  | Granted u32 u32
  | Ack
  | RespError bytes
  | ArtifactGranted u32 u32 u32
  | TaskQueueGranted u32 u32
  | SchemaInterned u32
  | SchemaResolved bytes
  | KeyInterned u32
  | KeyResolved bytes
  | StoreGranted u32 u32 u32 u32 u32 u32

definition response_fd_count :: "response \<Rightarrow> nat" where
  "response_fd_count resp =
     (case resp of
        Registered _ _ _ _ \<Rightarrow> 2
      | Granted _ _ \<Rightarrow> 2
      | ArtifactGranted _ _ _ \<Rightarrow> 2
      | TaskQueueGranted _ _ \<Rightarrow> 5
      | StoreGranted _ _ _ _ _ _ \<Rightarrow> 3
      | _ \<Rightarrow> 0)"

section \<open>Writing fields\<close>

definition put_u32 :: "u32 \<Rightarrow> bytes" where
  "put_u32 v = le_bytes 4 v"

text \<open>A string longer than a \<^verbatim>\<open>u16\<close> can say is cut to \<^verbatim>\<open>u16::MAX\<close> bytes; likewise byte strings at \<^verbatim>\<open>u32::MAX\<close>.\<close>

definition put_str :: "bytes \<Rightarrow> bytes" where
  "put_str s = (let n = (if length s < 2 ^ 16 then length s else 2 ^ 16 - 1)
                in le_bytes 2 (of_nat n :: u16) @ take n s)"

definition put_bytes :: "bytes \<Rightarrow> bytes" where
  "put_bytes bs = (let n = (if length bs < 2 ^ 32 then length bs else 2 ^ 32 - 1)
                   in le_bytes 4 (of_nat n :: u32) @ take n bs)"

definition put_desc :: "chunk_desc \<Rightarrow> bytes" where
  "put_desc d = desc_bytes d"

section \<open>Reading fields\<close>

record reader =
  rbuf :: bytes
  rpos :: nat

definition reader_new :: "bytes \<Rightarrow> reader" where
  "reader_new b = \<lparr>rbuf = b, rpos = 0\<rparr>"

text \<open>\<^verbatim>\<open>buf.get(a..b)\<close>.\<close>

definition get_range :: "bytes \<Rightarrow> nat \<Rightarrow> nat \<Rightarrow> bytes option" where
  "get_range buf a b = (if a \<le> b \<and> b \<le> length buf then Some (take (b - a) (drop a buf)) else None)"

definition read_u8 :: "reader \<Rightarrow> runtime_error + (u8 \<times> reader)" where
  "read_u8 r =
     (if rpos r < length (rbuf r) then Inr (rbuf r ! rpos r, r\<lparr>rpos := rpos r + 1\<rparr>)
      else Inl (Protocol ''short read: u8''))"

definition read_u32 :: "reader \<Rightarrow> runtime_error + (u32 \<times> reader)" where
  "read_u32 r =
     (case get_range (rbuf r) (rpos r) (rpos r + 4) of
        None \<Rightarrow> Inl (Protocol ''short read: u32'')
      | Some s \<Rightarrow> Inr (le_word s, r\<lparr>rpos := rpos r + 4\<rparr>))"

definition read_string :: "reader \<Rightarrow> runtime_error + (bytes \<times> reader)" where
  "read_string r =
     (case get_range (rbuf r) (rpos r) (rpos r + 2) of
        None \<Rightarrow> Inl (Protocol ''short read: str len'')
      | Some lenb \<Rightarrow>
          let n = unat (le_word lenb :: u16); p = rpos r + 2 in
          case get_range (rbuf r) p (p + n) of
            None \<Rightarrow> Inl (Protocol ''short read: str body'')
          | Some s \<Rightarrow>
              if valid_utf8 s then Inr (s, r\<lparr>rpos := p + n\<rparr>)
              else Inl (Protocol ''invalid utf-8 in string''))"

definition read_bytes :: "reader \<Rightarrow> runtime_error + (bytes \<times> reader)" where
  "read_bytes r =
     (case get_range (rbuf r) (rpos r) (rpos r + 4) of
        None \<Rightarrow> Inl (Protocol ''short read: bytes len'')
      | Some lenb \<Rightarrow>
          let n = unat (le_word lenb :: u32); p = rpos r + 4 in
          case get_range (rbuf r) p (p + n) of
            None \<Rightarrow> Inl (Protocol ''short read: bytes body'')
          | Some s \<Rightarrow> Inr (s, r\<lparr>rpos := p + n\<rparr>))"

definition read_desc :: "reader \<Rightarrow> runtime_error + (chunk_desc \<times> reader)" where
  "read_desc r =
     (case get_range (rbuf r) (rpos r) (rpos r + 24) of
        None \<Rightarrow> Inl (Protocol ''short read: desc'')
      | Some b \<Rightarrow> Inr
          (\<lparr>segment_id = le_word (take 4 b), generation = le_word (take 4 (drop 4 b)),
            offset = le_word (take 4 (drop 8 b)), len = le_word (take 4 (drop 12 b)),
            schema_id = le_word (take 4 (drop 16 b)), desc_pad = le_word (take 4 (drop 20 b))\<rparr>,
           r\<lparr>rpos := rpos r + 24\<rparr>))"

text \<open>The \<^verbatim>\<open>?\<close> operator: the first error ends the decoding.\<close>

definition try_read :: "(runtime_error + ('a \<times> reader)) \<Rightarrow> ('a \<Rightarrow> reader \<Rightarrow> runtime_error + 'b) \<Rightarrow> runtime_error + 'b" where
  "try_read m f = (case m of Inl e \<Rightarrow> Inl e | Inr (v, r) \<Rightarrow> f v r)"

section \<open>Messages\<close>

definition request_encode :: "request \<Rightarrow> bytes" where
  "request_encode req =
     (case req of
        Register name \<Rightarrow> REGISTER # put_str name
      | Heartbeat \<Rightarrow> [HEARTBEAT]
      | CreateTopic topic \<Rightarrow> CREATE_TOPIC # put_str topic
      | Subscribe topic \<Rightarrow> SUBSCRIBE # put_str topic
      | Published d \<Rightarrow> TAG_PUBLISHED # put_desc d
      | Pinned d \<Rightarrow> PINNED # put_desc d
      | Bye \<Rightarrow> [BYE]
      | OpenArtifact name \<Rightarrow> OPEN_ARTIFACT # put_str name
      | OpenTaskQueue \<Rightarrow> [OPEN_TASK_QUEUE]
      | InternSchema bs \<Rightarrow> INTERN_SCHEMA # put_bytes bs
      | ResolveSchema i \<Rightarrow> RESOLVE_SCHEMA # put_u32 i
      | InternKey bs \<Rightarrow> INTERN_KEY # put_bytes bs
      | ResolveKey i \<Rightarrow> RESOLVE_KEY # put_u32 i
      | OpenStore \<Rightarrow> [OPEN_STORE])"

definition request_decode :: "bytes \<Rightarrow> runtime_error + request" where
  "request_decode body =
     try_read (read_u8 (reader_new body)) (\<lambda>tag r.
       if tag = REGISTER then try_read (read_string r) (\<lambda>s _. Inr (Register s))
       else if tag = HEARTBEAT then Inr Heartbeat
       else if tag = CREATE_TOPIC then try_read (read_string r) (\<lambda>s _. Inr (CreateTopic s))
       else if tag = SUBSCRIBE then try_read (read_string r) (\<lambda>s _. Inr (Subscribe s))
       else if tag = TAG_PUBLISHED then try_read (read_desc r) (\<lambda>d _. Inr (Published d))
       else if tag = PINNED then try_read (read_desc r) (\<lambda>d _. Inr (Pinned d))
       else if tag = BYE then Inr Bye
       else if tag = OPEN_ARTIFACT then try_read (read_string r) (\<lambda>s _. Inr (OpenArtifact s))
       else if tag = OPEN_TASK_QUEUE then Inr OpenTaskQueue
       else if tag = INTERN_SCHEMA then try_read (read_bytes r) (\<lambda>b _. Inr (InternSchema b))
       else if tag = RESOLVE_SCHEMA then try_read (read_u32 r) (\<lambda>i _. Inr (ResolveSchema i))
       else if tag = INTERN_KEY then try_read (read_bytes r) (\<lambda>b _. Inr (InternKey b))
       else if tag = RESOLVE_KEY then try_read (read_u32 r) (\<lambda>i _. Inr (ResolveKey i))
       else if tag = OPEN_STORE then Inr OpenStore
       else Inl (Protocol ''unknown request tag''))"

definition response_encode :: "response \<Rightarrow> bytes" where
  "response_encode resp =
     (case resp of
        Registered a j p s \<Rightarrow> REGISTERED # put_u32 a @ put_u32 j @ put_u32 p @ put_u32 s
      | Granted r l \<Rightarrow> GRANTED # put_u32 r @ put_u32 l
      | Ack \<Rightarrow> [ACK]
      | RespError m \<Rightarrow> ERROR # put_str m
      | ArtifactGranted n h d \<Rightarrow> ARTIFACT_GRANTED # put_u32 n @ put_u32 h @ put_u32 d
      | TaskQueueGranted q l \<Rightarrow> TASK_QUEUE_GRANTED # put_u32 q @ put_u32 l
      | SchemaInterned i \<Rightarrow> SCHEMA_INTERNED # put_u32 i
      | SchemaResolved bs \<Rightarrow> SCHEMA_RESOLVED # put_bytes bs
      | KeyInterned i \<Rightarrow> KEY_INTERNED # put_u32 i
      | KeyResolved bs \<Rightarrow> KEY_RESOLVED # put_bytes bs
      | StoreGranted c cl h hl d dl \<Rightarrow>
          STORE_GRANTED # put_u32 c @ put_u32 cl @ put_u32 h @ put_u32 hl @ put_u32 d @ put_u32 dl)"

definition response_decode :: "bytes \<Rightarrow> runtime_error + response" where
  "response_decode body =
     try_read (read_u8 (reader_new body)) (\<lambda>tag r.
       if tag = REGISTERED then
         try_read (read_u32 r) (\<lambda>a r. try_read (read_u32 r) (\<lambda>j r. try_read (read_u32 r) (\<lambda>p r.
           try_read (read_u32 r) (\<lambda>s _. Inr (Registered a j p s)))))
       else if tag = GRANTED then
         try_read (read_u32 r) (\<lambda>a r. try_read (read_u32 r) (\<lambda>l _. Inr (Granted a l)))
       else if tag = ACK then Inr Ack
       else if tag = ERROR then try_read (read_string r) (\<lambda>s _. Inr (RespError s))
       else if tag = ARTIFACT_GRANTED then
         try_read (read_u32 r) (\<lambda>n r. try_read (read_u32 r) (\<lambda>h r. try_read (read_u32 r) (\<lambda>d _.
           Inr (ArtifactGranted n h d))))
       else if tag = TASK_QUEUE_GRANTED then
         try_read (read_u32 r) (\<lambda>q r. try_read (read_u32 r) (\<lambda>l _. Inr (TaskQueueGranted q l)))
       else if tag = SCHEMA_INTERNED then try_read (read_u32 r) (\<lambda>i _. Inr (SchemaInterned i))
       else if tag = SCHEMA_RESOLVED then try_read (read_bytes r) (\<lambda>b _. Inr (SchemaResolved b))
       else if tag = KEY_INTERNED then try_read (read_u32 r) (\<lambda>i _. Inr (KeyInterned i))
       else if tag = KEY_RESOLVED then try_read (read_bytes r) (\<lambda>b _. Inr (KeyResolved b))
       else if tag = STORE_GRANTED then
         try_read (read_u32 r) (\<lambda>c r. try_read (read_u32 r) (\<lambda>cl r. try_read (read_u32 r) (\<lambda>h r.
           try_read (read_u32 r) (\<lambda>hl r. try_read (read_u32 r) (\<lambda>d r. try_read (read_u32 r) (\<lambda>dl _.
             Inr (StoreGranted c cl h hl d dl)))))))
       else Inl (Protocol ''unknown response tag''))"

section \<open>Frames\<close>

definition MAX_FRAME :: nat where "MAX_FRAME = 64 * 1024"

text \<open>\<^verbatim>\<open>None\<close> is the failed assertion.\<close>

definition send_frame :: "bytes \<Rightarrow> bytes option" where
  "send_frame body =
     (if length body \<le> MAX_FRAME then Some (le_bytes 4 (of_nat (length body) :: u32) @ body) else None)"

text \<open>The argument is what one \<^verbatim>\<open>recvmsg\<close> stored in the buffer.\<close>

definition recv_frame :: "bytes \<Rightarrow> runtime_error + bytes" where
  "recv_frame buf =
     (let n = length buf in
      if n = 0 then Inl PeerClosed
      else if n < 4 then Inl (Protocol ''frame shorter than length prefix'')
      else let body_len = unat (le_word (take 4 buf) :: u32) in
      if body_len > MAX_FRAME \<or> 4 + body_len > n then Inl (Protocol ''frame body length exceeds received bytes'')
      else Inr (take body_len (drop 4 buf)))"

section \<open>Fields\<close>

text \<open>
  What a message relies on of a field: its reader takes exactly what its writer wrote, from any
  place in a buffer, and refuses any part of it that is cut off.
\<close>

locale wire_field =
  fixes put :: "'a \<Rightarrow> bytes" and get :: "reader \<Rightarrow> runtime_error + ('a \<times> reader)" and ok :: "'a \<Rightarrow> bool"
  assumes get_put: "ok v \<Longrightarrow> drop p buf = put v @ suf \<Longrightarrow>
      get \<lparr>rbuf = buf, rpos = p\<rparr> = Inr (v, \<lparr>rbuf = buf, rpos = p + length (put v)\<rparr>)"
    and get_short: "n < length (put v) \<Longrightarrow> drop p buf = take n (put v) \<Longrightarrow>
      \<exists>m. get \<lparr>rbuf = buf, rpos = p\<rparr> = Inl (Protocol m)"
begin

text \<open>The field behind the bytes \<open>pre\<close> already read.\<close>

lemma after:
  "ok v \<Longrightarrow> get \<lparr>rbuf = pre @ put v @ suf, rpos = length pre\<rparr>
     = Inr (v, \<lparr>rbuf = pre @ put v @ suf, rpos = length pre + length (put v)\<rparr>)"
  by (rule get_put) simp_all

lemma last_field:
  "ok v \<Longrightarrow> try_read (get \<lparr>rbuf = t # put v, rpos = Suc 0\<rparr>) f = f v \<lparr>rbuf = t # put v, rpos = Suc (length (put v))\<rparr>"
  using after [of v "[t]" "[]"] by (simp add: try_read_def)

lemma cut_last: "n < length (put v) \<Longrightarrow> \<exists>m. try_read (get \<lparr>rbuf = t # take n (put v), rpos = Suc 0\<rparr>) f = Inl (Protocol m)"
  using get_short [of n v 1 "t # take n (put v)"] by (auto simp: try_read_def)

end

lemma get_range_drop:
  assumes d: "drop p buf = xs @ suf" and "xs \<noteq> [] \<or> p \<le> length buf"
  shows "get_range buf p (p + length xs) = Some xs"
proof -
  have "length buf - p = length xs + length suf" using arg_cong [OF d, of length] by simp
  then have "p + length xs \<le> length buf" using assms(2) by (cases xs) auto
  then show ?thesis using d by (simp add: get_range_def)
qed

lemma get_range_short:
  "drop p buf = ys \<Longrightarrow> length ys < n \<Longrightarrow> get_range buf p (p + n) = None"
  by (auto simp: get_range_def)

lemma drop_prefix:
  "drop p buf = xs @ ys \<Longrightarrow> drop (p + length xs) buf = ys"
  by (metis append_eq_conv_conj drop_drop add.commute)

interpretation u32_field: wire_field put_u32 read_u32 "\<lambda>_. True"
proof
  fix v :: u32 and p buf suf
  assume "drop p buf = put_u32 v @ suf"
  then have "get_range buf p (p + length (put_u32 v)) = Some (put_u32 v)"
    by (rule get_range_drop) (auto simp: put_u32_def le_bytes_def)
  then show "read_u32 \<lparr>rbuf = buf, rpos = p\<rparr> = Inr (v, \<lparr>rbuf = buf, rpos = p + length (put_u32 v)\<rparr>)"
    by (simp add: read_u32_def put_u32_def)
next
  fix n and v :: u32 and p buf
  assume "n < length (put_u32 v)" and "drop p buf = take n (put_u32 v)"
  then have "get_range buf p (p + 4) = None" by (intro get_range_short) (auto simp: put_u32_def)
  then show "\<exists>m. read_u32 \<lparr>rbuf = buf, rpos = p\<rparr> = Inl (Protocol m)" by (simp add: read_u32_def)
qed

interpretation desc_field: wire_field put_desc read_desc "\<lambda>_. True"
proof
  fix v :: chunk_desc and p buf suf
  assume "drop p buf = put_desc v @ suf"
  then have "get_range buf p (p + length (put_desc v)) = Some (put_desc v)"
    by (rule get_range_drop) (auto simp: put_desc_def desc_bytes_def le_bytes_def)
  moreover have "length (put_desc v) = 24" by (simp add: put_desc_def desc_bytes_def)
  ultimately show "read_desc \<lparr>rbuf = buf, rpos = p\<rparr> = Inr (v, \<lparr>rbuf = buf, rpos = p + length (put_desc v)\<rparr>)"
    by (simp add: read_desc_def) (simp add: put_desc_def desc_bytes_def)
next
  fix n and v :: chunk_desc and p buf
  assume "n < length (put_desc v)" and "drop p buf = take n (put_desc v)"
  moreover have "length (put_desc v) = 24" by (simp add: put_desc_def desc_bytes_def)
  ultimately have "get_range buf p (p + 24) = None"
    using get_range_short [of p buf "take n (put_desc v)" 24] by simp
  then show "\<exists>m. read_desc \<lparr>rbuf = buf, rpos = p\<rparr> = Inl (Protocol m)" by (simp add: read_desc_def)
qed

lemma get_range_field:
  assumes "drop p buf = le_bytes n w @ s @ suf" and "0 < n"
  shows "get_range buf p (p + n) = Some (le_bytes n w)" and "get_range buf (p + n) (p + n + length s) = Some s"
proof -
  show "get_range buf p (p + n) = Some (le_bytes n w)"
    using get_range_drop [OF assms(1)] assms(2) by (auto simp: le_bytes_def)
  have "length buf - p = n + length (s @ suf)" using arg_cong [OF assms(1), of length] by simp
  then have "p + n \<le> length buf" using assms(2) by linarith
  then show "get_range buf (p + n) (p + n + length s) = Some s"
    using get_range_drop [OF drop_prefix [OF assms(1)]] by simp
qed

text \<open>Cutting a length-prefixed field hits the length or the body.\<close>

lemma cut_field:
  assumes "drop p buf = take k (le_bytes n w @ s)" and "k < n + length s" and "0 < n"
  shows "get_range buf p (p + n) = None
    \<or> get_range buf p (p + n) = Some (le_bytes n w) \<and> get_range buf (p + n) (p + n + length s) = None"
proof (cases "k < n")
  case True
  then show ?thesis using get_range_short [of p buf "take k (le_bytes n w @ s)" n] assms(1) by simp
next
  case False
  then have d: "drop p buf = le_bytes n w @ take (k - n) s @ []" using assms(1) by simp
  have "get_range buf (p + n) (p + n + length s) = None"
    using get_range_short [OF drop_prefix [OF d], of "length s"] assms(2) False by simp
  then show ?thesis using get_range_field(1) [OF d assms(3)] by simp
qed

interpretation str_field: wire_field put_str read_string "\<lambda>s. valid_utf8 s \<and> length s < 2 ^ 16"
proof
  fix s p buf suf
  assume ok: "valid_utf8 s \<and> length s < 2 ^ 16" and d: "drop p buf = put_str s @ suf"
  then have "drop p buf = le_bytes 2 (of_nat (length s) :: u16) @ s @ suf" by (simp add: put_str_def)
  from get_range_field [OF this] show "read_string \<lparr>rbuf = buf, rpos = p\<rparr> = Inr (s, \<lparr>rbuf = buf, rpos = p + length (put_str s)\<rparr>)"
    using ok by (simp add: read_string_def put_str_def unat_of_nat Let_def)
next
  fix k s p buf
  assume k: "k < length (put_str s)" and d: "drop p buf = take k (put_str s)"
  define n where "n = (if length s < 2 ^ 16 then length s else 2 ^ 16 - 1)"
  have put: "put_str s = le_bytes 2 (of_nat n :: u16) @ take n s" by (simp add: put_str_def n_def Let_def)
  have len: "length (take n s) = n" "unat (of_nat n :: u16) = n" by (auto simp: n_def unat_of_nat)
  from cut_field [of p buf k 2 "of_nat n :: u16" "take n s"]
  show "\<exists>m. read_string \<lparr>rbuf = buf, rpos = p\<rparr> = Inl (Protocol m)"
    using k d len unfolding put by (auto simp: read_string_def Let_def)
qed

interpretation bytes_field: wire_field put_bytes read_bytes "\<lambda>s. length s < 2 ^ 32"
proof
  fix s p buf suf
  assume ok: "length s < 2 ^ 32" and d: "drop p buf = put_bytes s @ suf"
  then have "drop p buf = le_bytes 4 (of_nat (length s) :: u32) @ s @ suf" by (simp add: put_bytes_def)
  from get_range_field [OF this] show "read_bytes \<lparr>rbuf = buf, rpos = p\<rparr> = Inr (s, \<lparr>rbuf = buf, rpos = p + length (put_bytes s)\<rparr>)"
    using ok by (simp add: read_bytes_def put_bytes_def unat_of_nat Let_def)
next
  fix k s p buf
  assume k: "k < length (put_bytes s)" and d: "drop p buf = take k (put_bytes s)"
  define n where "n = (if length s < 2 ^ 32 then length s else 2 ^ 32 - 1)"
  have put: "put_bytes s = le_bytes 4 (of_nat n :: u32) @ take n s" by (simp add: put_bytes_def n_def Let_def)
  have len: "length (take n s) = n" "unat (of_nat n :: u32) = n" by (auto simp: n_def unat_of_nat)
  from cut_field [of p buf k 4 "of_nat n :: u32" "take n s"]
  show "\<exists>m. read_bytes \<lparr>rbuf = buf, rpos = p\<rparr> = Inl (Protocol m)"
    using k d len unfolding put by (auto simp: read_bytes_def Let_def)
qed

section \<open>Messages on the wire\<close>

definition request_ok :: "request \<Rightarrow> bool" where
  "request_ok req =
     (case req of
        Register s \<Rightarrow> valid_utf8 s \<and> length s < 2 ^ 16
      | CreateTopic s \<Rightarrow> valid_utf8 s \<and> length s < 2 ^ 16
      | Subscribe s \<Rightarrow> valid_utf8 s \<and> length s < 2 ^ 16
      | OpenArtifact s \<Rightarrow> valid_utf8 s \<and> length s < 2 ^ 16
      | InternSchema b \<Rightarrow> length b < 2 ^ 32
      | InternKey b \<Rightarrow> length b < 2 ^ 32
      | _ \<Rightarrow> True)"

definition response_ok :: "response \<Rightarrow> bool" where
  "response_ok resp =
     (case resp of
        RespError s \<Rightarrow> valid_utf8 s \<and> length s < 2 ^ 16
      | SchemaResolved b \<Rightarrow> length b < 2 ^ 32
      | KeyResolved b \<Rightarrow> length b < 2 ^ 32
      | _ \<Rightarrow> True)"

lemma read_tag [simp]: "try_read (read_u8 (reader_new (t # bs))) f = f t \<lparr>rbuf = t # bs, rpos = Suc 0\<rparr>"
  by (simp add: try_read_def read_u8_def reader_new_def)

lemma read_tag_empty: "try_read (read_u8 (reader_new [])) f = Inl (Protocol ''short read: u8'')"
  by (simp add: try_read_def read_u8_def reader_new_def)

lemma read_u32_if:
  "try_read (read_u32 \<lparr>rbuf = buf, rpos = p\<rparr>) f =
     (if p + 4 \<le> length buf then f (le_word (take 4 (drop p buf))) \<lparr>rbuf = buf, rpos = p + 4\<rparr>
      else Inl (Protocol ''short read: u32''))"
  by (simp add: try_read_def read_u32_def get_range_def)

lemma put_u32_simps [simp]: "length (put_u32 v) = 4" "le_word (put_u32 v) = v" "take 4 (put_u32 v) = put_u32 v"
  "drop 4 (put_u32 v) = []"
  by (simp_all add: put_u32_def)

lemmas field_reads = str_field.last_field bytes_field.last_field desc_field.last_field read_u32_if

lemma request_roundtrip: "request_ok req \<Longrightarrow> request_decode (request_encode req) = Inr req"
  by (cases req) (simp_all add: request_ok_def request_encode_def request_decode_def request_tags field_reads)

lemma response_roundtrip: "response_ok resp \<Longrightarrow> response_decode (response_encode resp) = Inr resp"
  by (cases resp) (simp_all add: response_ok_def response_encode_def response_decode_def response_tags field_reads)

lemmas cut_reads = str_field.cut_last bytes_field.cut_last desc_field.cut_last

lemma request_cut: "n < length (request_encode req) \<Longrightarrow> \<exists>m. request_decode (take n (request_encode req)) = Inl (Protocol m)"
  by (cases n; cases req)
    (simp_all add: request_encode_def request_decode_def request_tags read_tag_empty cut_reads read_u32_if)

lemma read_u32_cut:
  assumes "\<And>v. p + 4 \<le> length buf \<Longrightarrow> \<exists>m. f v \<lparr>rbuf = buf, rpos = p + 4\<rparr> = Inl (Protocol m)"
  shows "\<exists>m. try_read (read_u32 \<lparr>rbuf = buf, rpos = p\<rparr>) f = Inl (Protocol m)"
  using assms by (simp add: read_u32_if)

text \<open>A body whose tag promises more words than it holds.\<close>

lemma words_cut:
  "length bs < 16 \<Longrightarrow> \<exists>m. response_decode (REGISTERED # bs) = Inl (Protocol m)"
  "length bs < 8 \<Longrightarrow> \<exists>m. response_decode (GRANTED # bs) = Inl (Protocol m)"
  "length bs < 12 \<Longrightarrow> \<exists>m. response_decode (ARTIFACT_GRANTED # bs) = Inl (Protocol m)"
  "length bs < 8 \<Longrightarrow> \<exists>m. response_decode (TASK_QUEUE_GRANTED # bs) = Inl (Protocol m)"
  "length bs < 4 \<Longrightarrow> \<exists>m. response_decode (SCHEMA_INTERNED # bs) = Inl (Protocol m)"
  "length bs < 4 \<Longrightarrow> \<exists>m. response_decode (KEY_INTERNED # bs) = Inl (Protocol m)"
  "length bs < 24 \<Longrightarrow> \<exists>m. response_decode (STORE_GRANTED # bs) = Inl (Protocol m)"
  unfolding response_decode_def response_tags by (simp; (rule read_u32_cut)+; simp)+

lemma response_cut:
  assumes "n < length (response_encode resp)"
  shows "\<exists>m. response_decode (take n (response_encode resp)) = Inl (Protocol m)"
proof (cases n)
  case 0
  then show ?thesis by (simp add: response_decode_def read_tag_empty)
next
  case (Suc k)
  note cut = assms [unfolded Suc]
  show ?thesis
  proof (cases resp)
    case (RespError s)
    then show ?thesis using cut unfolding Suc
      by (simp add: response_encode_def response_decode_def response_tags cut_reads)
  next
    case (SchemaResolved s)
    then show ?thesis using cut unfolding Suc
      by (simp add: response_encode_def response_decode_def response_tags cut_reads)
  next
    case (KeyResolved s)
    then show ?thesis using cut unfolding Suc
      by (simp add: response_encode_def response_decode_def response_tags cut_reads)
  next
    case (Registered a b c d)
    then show ?thesis using cut words_cut(1) [of "take k (put_u32 a @ put_u32 b @ put_u32 c @ put_u32 d)"]
      by (simp add: Suc response_encode_def del: take_append)
  next
    case (Granted a b)
    then show ?thesis using cut words_cut(2) [of "take k (put_u32 a @ put_u32 b)"]
      by (simp add: Suc response_encode_def del: take_append)
  next
    case (ArtifactGranted a b c)
    then show ?thesis using cut words_cut(3) [of "take k (put_u32 a @ put_u32 b @ put_u32 c)"]
      by (simp add: Suc response_encode_def del: take_append)
  next
    case (TaskQueueGranted a b)
    then show ?thesis using cut words_cut(4) [of "take k (put_u32 a @ put_u32 b)"]
      by (simp add: Suc response_encode_def del: take_append)
  next
    case (SchemaInterned a)
    then show ?thesis using cut words_cut(5) [of "take k (put_u32 a)"]
      by (simp add: Suc response_encode_def del: take_append)
  next
    case (KeyInterned a)
    then show ?thesis using cut words_cut(6) [of "take k (put_u32 a)"]
      by (simp add: Suc response_encode_def del: take_append)
  next
    case (StoreGranted a b c d e f)
    then show ?thesis using cut words_cut(7) [of "take k (put_u32 a @ put_u32 b @ put_u32 c @ put_u32 d @ put_u32 e @ put_u32 f)"]
      by (simp add: Suc response_encode_def del: take_append)
  next
    case Ack
    then show ?thesis using cut by (simp add: response_encode_def)
  qed
qed

lemma recv_send:
  assumes "send_frame body = Some fr"
  shows "recv_frame (fr @ rest) = Inr body"
proof -
  have len: "length body \<le> MAX_FRAME" and fr: "fr = le_bytes 4 (of_nat (length body) :: u32) @ body"
    using assms by (auto simp: send_frame_def split: if_splits)
  have "unat (of_nat (length body) :: u32) = length body" using len by (simp add: MAX_FRAME_def unat_of_nat)
  then show ?thesis using len by (simp add: recv_frame_def fr Let_def)
qed

lemma framed:
  "if length body \<le> MAX_FRAME then \<exists>f. send_frame body = Some f \<and> recv_frame f = Inr body else send_frame body = None"
proof (cases "length body \<le> MAX_FRAME")
  case True
  then obtain f where "send_frame body = Some f" by (simp add: send_frame_def)
  then show ?thesis using True recv_send [of body f "[]"] by simp
qed (simp add: send_frame_def)

section \<open>Properties\<close>

text \<open>
  C21: The body encoded for any request and any response whose strings are valid UTF-8 within
  their length fields decodes to that message, whatever its length. It crosses the wire as one
  frame, received as the body encoded, exactly when it is at most \<open>MAX_FRAME\<close> bytes long; of a longer
  body no frame is made (the assertion of \<^verbatim>\<open>send_frame\<close> fails).
\<close>

theorem wire_roundtrip:
  assumes "request_ok req" and "response_ok resp"
  shows "request_decode (request_encode req) = Inr req \<and> response_decode (response_encode resp) = Inr resp
    \<and> (if length (request_encode req) \<le> MAX_FRAME
       then \<exists>f. send_frame (request_encode req) = Some f \<and> recv_frame f = Inr (request_encode req)
       else send_frame (request_encode req) = None)
    \<and> (if length (response_encode resp) \<le> MAX_FRAME
       then \<exists>g. send_frame (response_encode resp) = Some g \<and> recv_frame g = Inr (response_encode resp)
       else send_frame (response_encode resp) = None)"
  using request_roundtrip [OF assms(1)] response_roundtrip [OF assms(2)] framed by blast

text \<open>The longest name its length field admits still decodes, and does not fit a frame with its header.\<close>

theorem wire_roundtrip_witness:
  "(\<exists>f. send_frame (request_encode (Register [0x61, 0xC3, 0xA9])) = Some f
     \<and> recv_frame f = Inr (request_encode (Register [0x61, 0xC3, 0xA9]))
     \<and> request_decode (request_encode (Register [0x61, 0xC3, 0xA9])) = Inr (Register [0x61, 0xC3, 0xA9]))
   \<and> request_decode (request_encode (Register (replicate 65535 0x61))) = Inr (Register (replicate 65535 0x61))
   \<and> send_frame (request_encode (Register (replicate 65535 0x61))) = None"
proof -
  have "valid_utf8 [0x61, 0xC3, 0xA9]" by (simp add: utf8_cont_def)
  then have ok: "request_ok (Register [0x61, 0xC3, 0xA9])" "response_ok Ack"
    by (simp_all add: request_ok_def response_ok_def)
  have "length (request_encode (Register [0x61, 0xC3, 0xA9])) \<le> MAX_FRAME"
    by (simp add: request_encode_def put_str_def MAX_FRAME_def)
  moreover have "valid_utf8 (replicate n 0x61)" for n by (induction n) simp_all
  then have big: "request_ok (Register (replicate 65535 0x61))" by (simp add: request_ok_def)
  moreover have "\<not> length (request_encode (Register (replicate 65535 0x61))) \<le> MAX_FRAME"
    by (simp add: request_encode_def put_str_def MAX_FRAME_def)
  ultimately show ?thesis using wire_roundtrip [OF ok] wire_roundtrip [OF big ok(2)] by presburger
qed

text \<open>
  A body that is cut off anywhere is refused with a protocol error and never decodes to
  another message, whatever the message was.
\<close>

theorem cut_body_refused:
  assumes "n < length (request_encode req)" and "k < length (response_encode resp)"
  shows "(\<exists>m. request_decode (take n (request_encode req)) = Inl (Protocol m))
    \<and> (\<exists>m. response_decode (take k (response_encode resp)) = Inl (Protocol m))"
  using request_cut [OF assms(1)] response_cut [OF assms(2)] by blast

theorem cut_body_refused_witness:
  "\<exists>m. request_decode (take 3 (request_encode (ResolveKey 7))) = Inl (Protocol m)"
proof -
  have "3 < length (request_encode (ResolveKey 7))" "2 < length (response_encode (KeyInterned 7))"
    by (simp_all add: request_encode_def response_encode_def)
  from cut_body_refused [OF this] show ?thesis by blast
qed

text \<open>The requests a connection handler serves, one read of the socket per list element.\<close>

fun conn_requests :: "bytes list \<Rightarrow> request list" where
  "conn_requests [] = []"
| "conn_requests (buf # bufs) =
     (case recv_frame buf of
        Inl _ \<Rightarrow> []
      | Inr body \<Rightarrow>
          (case request_decode body of
             Inl _ \<Rightarrow> []
           | Inr Bye \<Rightarrow> [Bye]
           | Inr req \<Rightarrow> req # conn_requests bufs))"

lemma conn_requests_step:
  assumes "request_ok req" and "send_frame (request_encode req) = Some f" and "req \<noteq> Bye"
  shows "conn_requests ((f @ rest) # bufs) = req # conn_requests bufs"
  using recv_send [OF assms(2)] request_roundtrip [OF assms(1)] assms(3) by (auto split: request.splits)

text \<open>
  The socket is a byte stream, but a read keeps only its first frame. Two requests that
  arrive in one read are served as the first alone, while the same bytes in two reads are served
  as both.
\<close>

theorem coalesced_frame_lost:
  assumes "request_ok r1" and "request_ok r2" and "r1 \<noteq> Bye" and "r2 \<noteq> Bye"
    and "send_frame (request_encode r1) = Some f1" and "send_frame (request_encode r2) = Some f2"
  shows "conn_requests [f1, f2] = [r1, r2] \<and> conn_requests [f1 @ f2] = [r1]"
  using conn_requests_step [OF assms(1,5,3), of "[]" "[f2]"] conn_requests_step [OF assms(1,5,3), of f2 "[]"]
    conn_requests_step [OF assms(2,6,4), of "[]" "[]"] by simp

theorem coalesced_frame_lost_witness:
  "\<exists>f1 f2. send_frame (request_encode Heartbeat) = Some f1 \<and> send_frame (request_encode OpenStore) = Some f2
     \<and> conn_requests [f1 @ f2] = [Heartbeat]"
proof -
  obtain f1 f2 where f: "send_frame (request_encode Heartbeat) = Some f1" "send_frame (request_encode OpenStore) = Some f2"
    by (simp add: send_frame_def request_encode_def MAX_FRAME_def)
  have "request_ok Heartbeat" "request_ok OpenStore" by (simp_all add: request_ok_def)
  from coalesced_frame_lost [OF this _ _ f] show ?thesis using f by simp
qed

end
