(* ===== verification/Shm_Head.thy ===== *)
theory Shm_Head
  imports Shm_Segment
begin

text \<open>
  \<^verbatim>\<open>crates/shm-artifact/src/head.rs\<close>: the control block of one artifact, that is its current
  version, the pin table of live versions, the fenced write lease and the incarnation of its
  occupant. Each operation runs to completion here; \<open>Shm_Head_Conc\<close> interleaves the pin
  handshake. Shown: the lease word is an instance of \<open>packed_word\<close>, a token is good until the
  first release after it and never again within 2^32 releases, and a head is quiescent only if
  nothing is registered in it.
\<close>

section \<open>Constants\<close>

definition HEAD_MAGIC :: u64 where "HEAD_MAGIC = from_le_bytes (ascii ''SHMAHEA3'')"
definition NO_INCARNATION :: u32 where "NO_INCARNATION = 0"
definition FIRST_INCARNATION :: u32 where "FIRST_INCARNATION = 1"
definition NO_VERSION :: u64 where "NO_VERSION = 0"
definition LEASE_OWNER_NONE :: u32 where "LEASE_OWNER_NONE = 0"
definition MAX_LIVE_VERSIONS :: nat where "MAX_LIVE_VERSIONS = 64"
definition SLOT_FREE :: u32 where "SLOT_FREE = 0"
definition SLOT_LIVE :: u32 where "SLOT_LIVE = 1"
definition SLOT_FREEING :: u32 where "SLOT_FREEING = 2"

lemmas pin_states = SLOT_FREE_def SLOT_LIVE_def SLOT_FREEING_def

definition pack_lease :: "u32 \<Rightarrow> u32 \<Rightarrow> u64" where
  "pack_lease owner fence = push_bit 32 (ucast owner) OR ucast fence"

definition lease_owner :: "u64 \<Rightarrow> u32" where
  "lease_owner packed = ucast (drop_bit 32 packed)"

definition lease_fence :: "u64 \<Rightarrow> u32" where
  "lease_fence packed = ucast packed"

section \<open>Pin slots\<close>

record pin_slot =
  ps_version :: u64
  ps_manifest :: u64
  ps_pins :: u32
  ps_state :: u32

definition publish_pin :: "pin_slot \<Rightarrow> pin_slot" where
  "publish_pin s = s\<lparr>ps_pins := ps_pins s + 1\<rparr>"

definition accept_pin :: "u64 \<Rightarrow> pin_slot \<Rightarrow> bool" where
  "accept_pin v s \<longleftrightarrow> ps_state s = SLOT_LIVE \<and> ps_version s = v"

definition unpin :: "pin_slot \<Rightarrow> u32 \<times> pin_slot" where
  "unpin s = (ps_pins s, s\<lparr>ps_pins := ps_pins s - 1\<rparr>)"

definition try_unpin :: "pin_slot \<Rightarrow> u32 option \<times> pin_slot" where
  "try_unpin s =
     (let cur = ps_pins s in
      if cur = 0 then (None, s)
      else case compare_exchange (ps_pins s) cur (cur - 1) of (_, v) \<Rightarrow> (Some cur, s\<lparr>ps_pins := v\<rparr>))"

definition elect_freeing :: "pin_slot \<Rightarrow> bool \<times> pin_slot" where
  "elect_freeing s = (case compare_exchange (ps_state s) SLOT_LIVE SLOT_FREEING of (ok, v) \<Rightarrow> (ok, s\<lparr>ps_state := v\<rparr>))"

definition pin_scan :: "pin_slot \<Rightarrow> u32" where
  "pin_scan s = ps_pins s"

definition revert_live :: "pin_slot \<Rightarrow> pin_slot" where
  "revert_live s = s\<lparr>ps_state := SLOT_LIVE\<rparr>"

definition store_free :: "pin_slot \<Rightarrow> pin_slot" where
  "store_free s = s\<lparr>ps_version := 0, ps_manifest := 0, ps_state := SLOT_FREE\<rparr>"

section \<open>The head\<close>

record artifact_head =
  ah_magic :: u64
  ah_current :: u64
  ah_manifest_desc :: u64
  ah_write_lease :: u64
  ah_schema_id :: u32
  ah_incarnation :: u32
  ah_pins :: "pin_slot list"

definition head_region_bytes :: nat where
  "head_region_bytes = 40 + MAX_LIVE_VERSIONS * 24"

definition fresh_head :: artifact_head where
  "fresh_head = \<lparr>ah_magic = HEAD_MAGIC, ah_current = NO_VERSION, ah_manifest_desc = 0,
     ah_write_lease = pack_lease LEASE_OWNER_NONE 0, ah_schema_id = 0, ah_incarnation = NO_INCARNATION,
     ah_pins = replicate MAX_LIVE_VERSIONS \<lparr>ps_version = 0, ps_manifest = 0, ps_pins = 0, ps_state = SLOT_FREE\<rparr>\<rparr>"

definition check_magic :: "artifact_head \<Rightarrow> bool" where
  "check_magic h \<longleftrightarrow> ah_magic h = HEAD_MAGIC"

definition is_incarnation :: "u32 \<Rightarrow> artifact_head \<Rightarrow> bool" where
  "is_incarnation expected h \<longleftrightarrow> ah_incarnation h = expected"

definition head_retire :: "artifact_head \<Rightarrow> u32 \<times> artifact_head" where
  "head_retire h = (ah_incarnation h, h\<lparr>ah_incarnation := NO_INCARNATION\<rparr>)"

definition is_quiescent :: "artifact_head \<Rightarrow> bool" where
  "is_quiescent h \<longleftrightarrow>
     (if ah_current h \<noteq> NO_VERSION then False
      else if lease_owner (ah_write_lease h) \<noteq> LEASE_OWNER_NONE then False
      else list_all (\<lambda>s. ps_state s = SLOT_FREE \<and> pin_scan s = 0) (ah_pins h))"

definition commission :: "u32 \<Rightarrow> artifact_head \<Rightarrow> artifact_head" where
  "commission i h = h\<lparr>ah_incarnation := i\<rparr>"

text \<open>The loops over the pin table.\<close>

fun first_slot :: "(pin_slot \<Rightarrow> bool) \<Rightarrow> nat \<Rightarrow> pin_slot list \<Rightarrow> nat option" where
  "first_slot P i [] = None"
| "first_slot P i (s # ss) = (if P s then Some i else first_slot P (i + 1) ss)"

definition find_slot_with_manifest :: "u64 \<Rightarrow> u64 \<Rightarrow> artifact_head \<Rightarrow> nat option" where
  "find_slot_with_manifest v bits h =
     first_slot (\<lambda>s. ps_state s = SLOT_LIVE \<and> ps_version s = v \<and> ps_manifest s = bits) 0 (ah_pins h)"

definition find_slot :: "u64 \<Rightarrow> artifact_head \<Rightarrow> nat option" where
  "find_slot v h = first_slot (\<lambda>s. ps_state s = SLOT_LIVE \<and> ps_version s = v) 0 (ah_pins h)"

definition claim_slot :: "u64 \<Rightarrow> u64 \<Rightarrow> artifact_head \<Rightarrow> nat option \<times> artifact_head" where
  "claim_slot v m h =
     (case first_slot (\<lambda>s. fst (compare_exchange (ps_state s) SLOT_FREE SLOT_LIVE)) 0 (ah_pins h) of
        None \<Rightarrow> (None, h)
      | Some i \<Rightarrow> (Some i, h\<lparr>ah_pins := (ah_pins h)
          [i := (ah_pins h ! i)\<lparr>ps_state := SLOT_LIVE, ps_manifest := m, ps_version := v\<rparr>]\<rparr>))"

section \<open>The write lease\<close>

definition acquire_write_lease :: "u32 \<Rightarrow> u64 \<Rightarrow> u32 option \<times> u64" where
  "acquire_write_lease owner lease =
     (if lease_owner lease \<noteq> LEASE_OWNER_NONE then (None, lease)
      else let f = lease_fence lease in
        case compare_exchange lease lease (pack_lease owner f) of (_, l) \<Rightarrow> (Some f, l))"

definition lease_held_by :: "u32 \<Rightarrow> u32 \<Rightarrow> u64 \<Rightarrow> bool" where
  "lease_held_by owner f lease \<longleftrightarrow> lease = pack_lease owner f"

definition release_write_lease :: "u32 \<Rightarrow> u32 \<Rightarrow> u64 \<Rightarrow> bool \<times> u64" where
  "release_write_lease owner token lease =
     compare_exchange lease (pack_lease owner token) (pack_lease LEASE_OWNER_NONE (token + 1))"

definition force_release_write_lease :: "u64 \<Rightarrow> bool \<times> u64" where
  "force_release_write_lease lease =
     (if lease_owner lease = LEASE_OWNER_NONE then (False, lease)
      else compare_exchange lease lease (pack_lease LEASE_OWNER_NONE (lease_fence lease + 1)))"

interpretation lease: packed_word pack_lease lease_owner lease_fence
proof -
  have "pack_lease = pack_halves" "lease_owner = high_half" "lease_fence = low_half"
    by (simp_all add: fun_eq_iff pack_lease_def pack_halves_def lease_owner_def high_half_def
        lease_fence_def low_half_def)
  then show "packed_word pack_lease lease_owner lease_fence"
    by (simp add: halves.packed_word_axioms)
qed

datatype lease_op = LAcquire u32 | LRelease u32 u32 | LForce

text \<open>One operation on the lease word by whatever actor: the new word, and whether it released.\<close>

fun lease_apply :: "lease_op \<Rightarrow> u64 \<Rightarrow> bool \<times> u64" where
  "lease_apply (LAcquire w) lease = (False, snd (acquire_write_lease w lease))"
| "lease_apply (LRelease w t) lease = release_write_lease w t lease"
| "lease_apply LForce lease = force_release_write_lease lease"

fun lease_run :: "lease_op list \<Rightarrow> u64 \<Rightarrow> nat \<times> u64" where
  "lease_run [] lease = (0, lease)"
| "lease_run (x # xs) lease =
     (case lease_apply x lease of (rel, l) \<Rightarrow>
      case lease_run xs l of (n, l') \<Rightarrow> (if rel then n + 1 else n, l'))"

text \<open>Every release moves the fence by one and nothing else moves it.\<close>

lemma lease_apply_fence:
  "lease_apply x lease = (rel, l) \<Longrightarrow> lease_fence l = (if rel then lease_fence lease + 1 else lease_fence lease)"
  by (cases x) (auto simp: acquire_write_lease_def release_write_lease_def force_release_write_lease_def
      compare_exchange_def Let_def split: if_splits)

lemma lease_run_fence: "lease_run xs lease = (n, l) \<Longrightarrow> lease_fence l = lease_fence lease + of_nat n"
  by (induction xs arbitrary: lease n l)
    (auto dest!: lease_apply_fence split: prod.splits if_splits)

text \<open>A held lease changes only by being released.\<close>

lemma lease_apply_held:
  "lease_apply x lease = (False, l) \<Longrightarrow> lease_owner lease \<noteq> LEASE_OWNER_NONE \<Longrightarrow> l = lease"
  by (cases x) (auto simp: acquire_write_lease_def release_write_lease_def force_release_write_lease_def
      compare_exchange_def Let_def split: if_splits)

lemma lease_run_held:
  "lease_run xs lease = (0, l) \<Longrightarrow> lease_owner lease \<noteq> LEASE_OWNER_NONE \<Longrightarrow> l = lease"
proof (induction xs arbitrary: lease)
  case (Cons x xs)
  obtain rel l1 where a: "lease_apply x lease = (rel, l1)" by fastforce
  obtain n l2 where r: "lease_run xs l1 = (n, l2)" by fastforce
  have "\<not> rel" "n = 0" "l2 = l" using Cons.prems(1) a r by (auto split: if_splits)
  then show ?case using Cons.IH [of l1] lease_apply_held [of x lease l1] a r Cons.prems(2) by auto
qed simp

text \<open>
  C22: The write lease is exclusive and fenced. A writer that acquired it holds exactly its token
  as long as nothing has released the lease, whatever acquires were tried; from the first release
  on, clean or forced, its token is refused, until 2^32 releases have gone by.
\<close>

theorem lease_fenced:
  assumes "acquire_write_lease w lease = (Some token, l1)" and "w \<noteq> LEASE_OWNER_NONE"
    and "lease_run ops l1 = (n, l2)" and "n < 2 ^ 32"
  shows "if n = 0 then lease_held_by w token l2 \<and> (\<forall>v. fst (acquire_write_lease v l2) = None)
    else \<not> lease_held_by v token l2"
proof -
  have l1: "l1 = pack_lease w token" "token = lease_fence lease"
    using assms(1) by (auto simp: acquire_write_lease_def compare_exchange_def Let_def split: if_splits)
  show ?thesis
  proof (cases "n = 0")
    case True
    then have "l2 = l1" using lease_run_held [of ops l1 l2] assms(2,3) l1 by simp
    then show ?thesis using True l1 assms(2) by (simp add: lease_held_by_def acquire_write_lease_def)
  next
    case False
    have f: "lease_fence l2 = token + of_nat n" using lease_run_fence [OF assms(3)] l1 by simp
    have "unat (of_nat n :: u32) = n" using assms(4) by (simp add: unat_of_nat)
    then have "(of_nat n :: u32) \<noteq> 0" using False by (metis unat_0)
    then show ?thesis using f False by (auto simp: lease_held_by_def lease.word_eq_pack_iff)
  qed
qed

theorem lease_fenced_witness:
  "lease_run [LAcquire 9, LForce, LAcquire 9] (pack_lease 7 3) = (1, pack_lease 9 4)
     \<and> \<not> lease_held_by 7 3 (pack_lease 9 4)"
proof -
  have a: "acquire_write_lease 7 (pack_lease 0 3) = (Some 3, pack_lease 7 3)"
    by (simp add: acquire_write_lease_def LEASE_OWNER_NONE_def compare_exchange_def Let_def)
  have r: "lease_run [LAcquire 9, LForce, LAcquire 9] (pack_lease 7 3) = (1, pack_lease 9 4)"
    by (simp add: acquire_write_lease_def force_release_write_lease_def LEASE_OWNER_NONE_def compare_exchange_def Let_def)
  show ?thesis using lease_fenced [OF a _ r, of 7] r by (simp add: LEASE_OWNER_NONE_def)
qed

end
