(* ===== verification/Shm_Head_Conc.thy ===== *)
theory Shm_Head_Conc
  imports Shm_Head
begin

text \<open>
  The races on one slot of the pin table (\<^verbatim>\<open>crates/shm-artifact/src/head.rs\<close>, and its callers
  \<^verbatim>\<open>pin_inner\<close>, \<^verbatim>\<open>try_retire_version_at\<close> and the install path of \<^verbatim>\<open>commit_staged_inner_j\<close> in
  \<^verbatim>\<open>artifact.rs\<close>): readers pin the current version, retirers look a superseded version up and
  free it, committers claim the slot for a new version and install it. Every access to the slot
  or to \<^verbatim>\<open>current\<close> is one step, in the order of the code, sequentially consistent as its
  \<^verbatim>\<open>SeqCst\<close> accesses and fences ask for. Commits through other slots appear as changes of
  \<^verbatim>\<open>current\<close>. Only commits that win their install are followed, as under the exclusive lease: the
  rollback of an optimistic commit that loses, which frees its own slot, is left out. Shown: as
  long as a reader holds an accepted pin nothing is released from its slot and the slot is not
  freed; but a retirer elects the slot without looking at its version again, and so can release
  the current version when no reader has it pinned.
\<close>

section \<open>Parties and steps\<close>

datatype pin_pc =
    PIdle
  | PCur u64        \<comment> \<open>loaded \<open>current\<close>\<close>
  | PSeen u64       \<comment> \<open>\<open>find_slot\<close> saw the slot live\<close>
  | PFound u64      \<comment> \<open>\<open>find_slot\<close> returned the slot\<close>
  | PPublished u64  \<comment> \<open>\<open>publish_pin\<close> done\<close>
  | PStateOk u64    \<comment> \<open>\<open>accept_pin\<close> saw the slot live\<close>
  | PHeld u64       \<comment> \<open>accepted\<close>
  | PUndo           \<comment> \<open>refused, about to \<open>unpin\<close>\<close>

datatype ret_pc =
    RIdle
  | RSeek u64 "u64 option"     \<comment> \<open>a version, and the manifest it was installed with if the caller knows it\<close>
  | RSeen u64 "u64 option"     \<comment> \<open>the search saw the slot live\<close>
  | RVersion u64 "u64 option"  \<comment> \<open>the search saw the version, the manifest is left to compare\<close>
  | RFound u64 "u64 option"    \<comment> \<open>the search returned the slot\<close>
  | RChecked u64 "u64 option"  \<comment> \<open>the version is not current\<close>
  | RElected u64 "u64 option"  \<comment> \<open>won \<open>elect_freeing\<close>\<close>
  | RReverting u64 "u64 option" \<comment> \<open>saw a pin\<close>
  | RRescan u64 "u64 option"   \<comment> \<open>reverted, about to look for pins again\<close>
  | RReleasing      \<comment> \<open>saw no pin, about to release the manifest\<close>
  | RClearVersion
  | RClearManifest
  | RStoreFree

datatype com_pc =
    CIdle
  | CClaimed u64 u64
  | CVersion u64
  | CInstall u64

record head_sys =
  hslot :: pin_slot
  hcur :: u64
  hreleased :: "(u64 \<times> u64) list"
  hissued :: "u64 list"
  rpc :: "nat \<Rightarrow> pin_pc"
  tpc :: "nat \<Rightarrow> ret_pc"
  cpc :: "nat \<Rightarrow> com_pc"

definition head_start :: head_sys where
  "head_start = \<lparr>hslot = \<lparr>ps_version = 0, ps_manifest = 0, ps_pins = 0, ps_state = SLOT_FREE\<rparr>, hcur = NO_VERSION,
     hreleased = [], hissued = [], rpc = (\<lambda>_. PIdle), tpc = (\<lambda>_. RIdle), cpc = (\<lambda>_. CIdle)\<rparr>"

definition set_rpc :: "nat \<Rightarrow> pin_pc \<Rightarrow> head_sys \<Rightarrow> head_sys" where
  "set_rpc i p s = s\<lparr>rpc := (rpc s)(i := p)\<rparr>"

definition set_tpc :: "nat \<Rightarrow> ret_pc \<Rightarrow> head_sys \<Rightarrow> head_sys" where
  "set_tpc i p s = s\<lparr>tpc := (tpc s)(i := p)\<rparr>"

definition set_cpc :: "nat \<Rightarrow> com_pc \<Rightarrow> head_sys \<Rightarrow> head_sys" where
  "set_cpc i p s = s\<lparr>cpc := (cpc s)(i := p)\<rparr>"

text \<open>The next access of a reader in \<^verbatim>\<open>pin_inner\<close>.\<close>

definition pin_step :: "nat \<Rightarrow> head_sys \<Rightarrow> head_sys" where
  "pin_step i s =
     (case rpc s i of
        PIdle \<Rightarrow> if hcur s = NO_VERSION then s else set_rpc i (PCur (hcur s)) s
      | PCur v \<Rightarrow> set_rpc i (if ps_state (hslot s) = SLOT_LIVE then PSeen v else PIdle) s
      | PSeen v \<Rightarrow> set_rpc i (if ps_version (hslot s) = v then PFound v else PIdle) s
      | PFound v \<Rightarrow> set_rpc i (PPublished v) (s\<lparr>hslot := publish_pin (hslot s)\<rparr>)
      | PPublished v \<Rightarrow> set_rpc i (if ps_state (hslot s) = SLOT_LIVE then PStateOk v else PUndo) s
      | PStateOk v \<Rightarrow> set_rpc i (if ps_version (hslot s) = v then PHeld v else PUndo) s
      | PHeld v \<Rightarrow> set_rpc i PIdle (s\<lparr>hslot := snd (unpin (hslot s))\<rparr>)
      | PUndo \<Rightarrow> set_rpc i PIdle (s\<lparr>hslot := snd (unpin (hslot s))\<rparr>))"

text \<open>The next access of a retirer in \<^verbatim>\<open>try_retire_version_at\<close>.\<close>

definition retire_step :: "nat \<Rightarrow> head_sys \<Rightarrow> head_sys" where
  "retire_step k s =
     (case tpc s k of
        RIdle \<Rightarrow> s
      | RSeek v mb \<Rightarrow> set_tpc k (if ps_state (hslot s) = SLOT_LIVE then RSeen v mb else RIdle) s
      | RSeen v mb \<Rightarrow> set_tpc k (if ps_version (hslot s) = v then RVersion v mb else RIdle) s
      | RVersion v mb \<Rightarrow>
          set_tpc k (case mb of None \<Rightarrow> RFound v mb
            | Some bits \<Rightarrow> if ps_manifest (hslot s) = bits then RFound v mb else RIdle) s
      | RFound v mb \<Rightarrow> set_tpc k (if hcur s = v then RIdle else RChecked v mb) s
      | RChecked v mb \<Rightarrow>
          (case elect_freeing (hslot s) of (ok, sl) \<Rightarrow>
             if ok then set_tpc k (RElected v mb) (s\<lparr>hslot := sl\<rparr>) else set_tpc k RIdle s)
      | RElected v mb \<Rightarrow> set_tpc k (if pin_scan (hslot s) \<noteq> 0 then RReverting v mb else RReleasing) s
      | RReverting v mb \<Rightarrow> set_tpc k (RRescan v mb) (s\<lparr>hslot := revert_live (hslot s)\<rparr>)
      | RRescan v mb \<Rightarrow> set_tpc k (if pin_scan (hslot s) \<noteq> 0 then RIdle else RSeek v mb) s
      | RReleasing \<Rightarrow>
          set_tpc k RClearVersion (s\<lparr>hreleased := (ps_version (hslot s), ps_manifest (hslot s)) # hreleased s\<rparr>)
      | RClearVersion \<Rightarrow> set_tpc k RClearManifest (s\<lparr>hslot := (hslot s)\<lparr>ps_version := 0\<rparr>\<rparr>)
      | RClearManifest \<Rightarrow> set_tpc k RStoreFree (s\<lparr>hslot := (hslot s)\<lparr>ps_manifest := 0\<rparr>\<rparr>)
      | RStoreFree \<Rightarrow> set_tpc k RIdle (s\<lparr>hslot := (hslot s)\<lparr>ps_state := SLOT_FREE\<rparr>\<rparr>))"

text \<open>The next access of a committer that has claimed the slot.\<close>

definition commit_step :: "nat \<Rightarrow> head_sys \<Rightarrow> head_sys" where
  "commit_step j s =
     (case cpc s j of
        CIdle \<Rightarrow> s
      | CClaimed v m \<Rightarrow> set_cpc j (CVersion v) (s\<lparr>hslot := (hslot s)\<lparr>ps_manifest := m\<rparr>\<rparr>)
      | CVersion v \<Rightarrow> set_cpc j (CInstall v) (s\<lparr>hslot := (hslot s)\<lparr>ps_version := v\<rparr>\<rparr>)
      | CInstall v \<Rightarrow> set_cpc j CIdle (s\<lparr>hcur := v\<rparr>))"

definition claim_step :: "nat \<Rightarrow> u64 \<Rightarrow> u64 \<Rightarrow> head_sys \<Rightarrow> head_sys" where
  "claim_step j v m s =
     (if cpc s j = CIdle \<and> v \<noteq> NO_VERSION \<and> v \<notin> set (hissued s) \<and> ps_state (hslot s) = SLOT_FREE
      then set_cpc j (CClaimed v m) (s\<lparr>hslot := (hslot s)\<lparr>ps_state := SLOT_LIVE\<rparr>, hissued := v # hissued s\<rparr>) else s)"

definition seek_step :: "nat \<Rightarrow> u64 \<Rightarrow> u64 option \<Rightarrow> head_sys \<Rightarrow> head_sys" where
  "seek_step k v mb s = (if tpc s k = RIdle \<and> v \<noteq> NO_VERSION then set_tpc k (RSeek v mb) s else s)"

definition other_install :: "u64 \<Rightarrow> head_sys \<Rightarrow> head_sys" where
  "other_install v s =
     (if v \<noteq> NO_VERSION \<and> v \<notin> set (hissued s) then s\<lparr>hcur := v, hissued := v # hissued s\<rparr> else s)"

inductive head_step :: "nat \<Rightarrow> head_sys \<Rightarrow> head_sys \<Rightarrow> bool" for n where
  hs_pin: "i < n \<Longrightarrow> head_step n s (pin_step i s)"
| hs_seek: "head_step n s (seek_step k v mb s)"
| hs_retire: "head_step n s (retire_step k s)"
| hs_claim: "head_step n s (claim_step j v m s)"
| hs_commit: "head_step n s (commit_step j s)"
| hs_other: "head_step n s (other_install v s)"

inductive head_reach :: "nat \<Rightarrow> head_sys \<Rightarrow> bool" for n where
  hr_start: "head_reach n head_start"
| hr_step: "head_reach n s \<Longrightarrow> head_step n s s' \<Longrightarrow> head_reach n s'"

section \<open>The invariant\<close>

fun pin_active :: "pin_pc \<Rightarrow> bool" where
  "pin_active (PPublished _) = True"
| "pin_active (PStateOk _) = True"
| "pin_active (PHeld _) = True"
| "pin_active PUndo = True"
| "pin_active _ = False"

fun pin_past_state :: "pin_pc \<Rightarrow> bool" where
  "pin_past_state (PStateOk _) = True"
| "pin_past_state (PHeld _) = True"
| "pin_past_state _ = False"

fun releasing :: "ret_pc \<Rightarrow> bool" where
  "releasing RReleasing = True"
| "releasing RClearVersion = True"
| "releasing RClearManifest = True"
| "releasing RStoreFree = True"
| "releasing _ = False"

fun owning :: "ret_pc \<Rightarrow> bool" where
  "owning (RElected _ _) = True"
| "owning (RReverting _ _) = True"
| "owning p = releasing p"

definition pinners :: "nat \<Rightarrow> (nat \<Rightarrow> pin_pc) \<Rightarrow> nat set" where
  "pinners n f = {i. i < n \<and> pin_active (f i)}"

definition head_inv :: "nat \<Rightarrow> head_sys \<Rightarrow> bool" where
  "head_inv n s \<longleftrightarrow> unat (ps_pins (hslot s)) = card (pinners n (rpc s))
     \<and> ps_state (hslot s) \<in> {SLOT_FREE, SLOT_LIVE, SLOT_FREEING}
     \<and> (\<forall>k. owning (tpc s k) \<longrightarrow> ps_state (hslot s) = SLOT_FREEING)
     \<and> (\<forall>k l. owning (tpc s k) \<longrightarrow> owning (tpc s l) \<longrightarrow> k = l)
     \<and> (\<forall>i. pin_past_state (rpc s i) \<longrightarrow> i < n \<and> ps_state (hslot s) \<noteq> SLOT_FREE \<and> (\<forall>k. \<not> releasing (tpc s k)))"

lemma releasing_owning: "releasing p \<Longrightarrow> owning p"
  by (cases p) auto

lemmas head_setters = set_rpc_def set_tpc_def set_cpc_def

lemma finite_pinners [simp]: "finite (pinners n f)"
  by (simp add: pinners_def)

lemma card_pinners_le: "card (pinners n f) \<le> n"
  using card_mono [of "{..<n}" "pinners n f"] by (auto simp: pinners_def)

text \<open>Moving one reader changes the pinners by that reader at most.\<close>

lemma card_pinners_upd:
  assumes "i < n"
  shows "card (pinners n (f(i := p))) =
    (if pin_active p then if pin_active (f i) then card (pinners n f) else card (pinners n f) + 1
     else if pin_active (f i) then card (pinners n f) - 1 else card (pinners n f))"
proof -
  have "pinners n (f(i := p)) = (if pin_active p then insert i (pinners n f) else pinners n f - {i})"
    using assms by (auto simp: pinners_def split: if_splits)
  then show ?thesis using assms by (auto simp: card_insert_if pinners_def card_Diff_singleton_if)
qed

lemma pinner_counted: "i < n \<Longrightarrow> pin_active (f i) \<Longrightarrow> 0 < card (pinners n f)"
  by (rule iffD2 [OF card_gt_0_iff]) (auto simp: pinners_def)

lemma past_state_active: "pin_past_state p \<Longrightarrow> pin_active p"
  by (cases p) auto

lemma pin_step_inv:
  assumes "head_inv n s" and "i < n" and "n < 2 ^ 32"
  shows "head_inv n (pin_step i s)"
proof -
  have le: "card (pinners n (rpc s)) < 2 ^ 32" using card_pinners_le [of n "rpc s"] assms(3) by simp
  have up: "unat (ps_pins (hslot s) + 1) = unat (ps_pins (hslot s)) + 1" if "\<not> pin_active (rpc s i)"
  proof -
    have "pinners n (rpc s) \<subseteq> {..<n} - {i}" using that by (auto simp: pinners_def)
    then have "card (pinners n (rpc s)) \<le> n - 1" using card_mono [of "{..<n} - {i}"] assms(2) by fastforce
    then have "unat (ps_pins (hslot s)) < 2 ^ 32 - 1" using assms by (auto simp: head_inv_def)
    then have "ps_pins (hslot s) \<noteq> - 1" by (auto simp: unsigned_minus_1_eq_mask mask_eq_exp_minus_1)
    then show ?thesis by (simp add: unat_Suc_word)
  qed
  have down: "unat (ps_pins (hslot s) - 1) = unat (ps_pins (hslot s)) - 1" if "pin_active (rpc s i)"
    using pinner_counted [where f = "rpc s", OF assms(2) that] assms(1) by (intro unat_pred_word) (auto simp: head_inv_def)
  have past: "pin_past_state (rpc s i) \<longrightarrow> ps_state (hslot s) \<noteq> SLOT_FREE \<and> (\<forall>k. \<not> releasing (tpc s k))"
    using assms(1) by (simp add: head_inv_def)
  have live: "\<not> releasing (tpc s k)" if "ps_state (hslot s) = SLOT_LIVE" for k
    using assms(1) that by (auto simp: head_inv_def pin_states dest!: releasing_owning)
  show ?thesis using assms(1,2) up down past live
    by (cases "rpc s i")
      (auto simp: head_inv_def pin_step_def head_setters card_pinners_upd publish_pin_def unpin_def pin_states)
qed

text \<open>What a retirer's step has to keep.\<close>

lemma head_inv_retirer:
  assumes "head_inv n s" and "ps_pins sl = ps_pins (hslot s)"
    and "ps_state sl \<in> {SLOT_FREE, SLOT_LIVE, SLOT_FREEING}"
    and "owning p \<Longrightarrow> ps_state sl = SLOT_FREEING \<and> (owning (tpc s k) \<or> ps_state (hslot s) = SLOT_LIVE)"
    and "ps_state sl = ps_state (hslot s) \<or> owning (tpc s k) \<or> ps_state (hslot s) = SLOT_LIVE"
    and "ps_state sl = SLOT_FREE \<or> releasing p \<Longrightarrow> ps_state (hslot s) = SLOT_FREE \<or> (\<forall>i. \<not> pin_past_state (rpc s i))"
  shows "head_inv n (set_tpc k p (s\<lparr>hslot := sl, hreleased := r\<rparr>))"
proof -
  have uniq: "owning (tpc s l) \<Longrightarrow> owning (tpc s k) \<or> ps_state (hslot s) = SLOT_LIVE \<Longrightarrow> l = k" for l
    using assms(1) by (auto simp: head_inv_def pin_states)
  have own: "owning (tpc s l) \<Longrightarrow> l \<noteq> k \<Longrightarrow> ps_state sl = SLOT_FREEING" for l
    using assms(1,5) uniq [of l] by (auto simp: head_inv_def)
  have past: "pin_past_state (rpc s i) \<Longrightarrow> i < n \<and> ps_state (hslot s) \<noteq> SLOT_FREE \<and> (\<forall>k. \<not> releasing (tpc s k))" for i
    using assms(1) by (simp add: head_inv_def)
  have uniq2: "owning (tpc s l) \<Longrightarrow> owning (tpc s l') \<Longrightarrow> l = l'" for l l'
    using assms(1) by (simp add: head_inv_def)
  have past2: "pin_past_state (rpc s i) \<Longrightarrow> \<not> (ps_state sl = SLOT_FREE \<or> releasing p)" for i
    using assms(6) past [of i] by blast
  show ?thesis
    unfolding head_inv_def set_tpc_def
    using assms(1,2,3,4) uniq uniq2 own past past2 by (simp add: head_inv_def) blast
qed

lemma retire_step_inv:
  assumes "head_inv n s"
  shows "head_inv n (retire_step k s)"
proof -
  have pinned: "\<not> pin_past_state (rpc s i)" if "ps_pins (hslot s) = 0" for i
    using pinner_counted [of i n "rpc s"] past_state_active [of "rpc s i"] that assms
    by (auto simp: head_inv_def)
  have rel: "\<not> pin_past_state (rpc s i)" if "releasing (tpc s k)" for i
    using assms that by (auto simp: head_inv_def)
  have st: "ps_state (hslot s) \<in> {SLOT_FREE, SLOT_LIVE, SLOT_FREEING}" "owning (tpc s k) \<Longrightarrow> ps_state (hslot s) = SLOT_FREEING"
    using assms by (auto simp: head_inv_def)
  have keep: "head_inv n (set_tpc k p s)" if "\<not> releasing p" "owning p \<Longrightarrow> owning (tpc s k)" for p
    using head_inv_retirer [OF assms, of "hslot s" p k "hreleased s"] st that by auto
  have move: "head_inv n (set_tpc k p (s\<lparr>hslot := sl\<rparr>))"
    if "ps_pins sl = ps_pins (hslot s)" "ps_state sl \<in> {SLOT_FREE, SLOT_LIVE, SLOT_FREEING}"
      "owning p \<Longrightarrow> ps_state sl = SLOT_FREEING" "owning (tpc s k) \<or> ps_state (hslot s) = SLOT_LIVE"
      "ps_state sl = SLOT_FREE \<or> releasing p \<Longrightarrow> \<forall>i. \<not> pin_past_state (rpc s i)" for p sl
    using head_inv_retirer [OF assms that(1,2), of p k "hreleased s"] that by auto
  have rels: "head_inv n (set_tpc k p (s\<lparr>hreleased := r\<rparr>))" if "releasing (tpc s k)" for p r
    using head_inv_retirer [OF assms, of "hslot s" p k r] st that rel releasing_owning [OF that] by auto
  show ?thesis
  proof (cases "tpc s k")
    case (RElected v mb)
    have "head_inv n (set_tpc k RReleasing (s\<lparr>hslot := hslot s\<rparr>))" if "ps_pins (hslot s) = 0"
      using st pinned that RElected by (intro move) auto
    then show ?thesis using RElected keep by (auto simp: retire_step_def pin_scan_def  )
  next
    case (RChecked v mb)
    then show ?thesis using keep [of RIdle]
      by (auto simp: retire_step_def elect_freeing_def compare_exchange_def pin_states intro!: move)
  next
    case RIdle
    then show ?thesis using assms by (simp add: retire_step_def)
  next
    case RReleasing
    then show ?thesis by (simp add: retire_step_def rels)
  next
    case (RReverting v mb)
    then show ?thesis using st by (auto simp: retire_step_def revert_live_def pin_states intro!: move)
  next
    case RStoreFree
    then show ?thesis using st rel by (auto simp: retire_step_def pin_states intro!: move)
  next
    case RClearVersion
    then show ?thesis using st rel by (auto simp: retire_step_def intro!: move)
  next
    case RClearManifest
    then show ?thesis using st rel by (auto simp: retire_step_def intro!: move)
  qed (auto simp: retire_step_def intro!: keep split: option.splits if_splits)
qed

lemma commit_step_inv: "head_inv n s \<Longrightarrow> head_inv n (commit_step j s)"
  by (cases "cpc s j") (auto simp: head_inv_def commit_step_def head_setters)

lemma claim_step_inv: "head_inv n s \<Longrightarrow> head_inv n (claim_step j v m s)"
  by (auto simp: head_inv_def claim_step_def head_setters pin_states)

lemma seek_step_inv: "head_inv n s \<Longrightarrow> head_inv n (seek_step k v mb s)"
  by (auto simp: head_inv_def seek_step_def head_setters  )

lemma other_install_inv: "head_inv n s \<Longrightarrow> head_inv n (other_install v s)"
  by (simp add: head_inv_def other_install_def)

lemma head_start_inv: "head_inv n head_start"
  by (simp add: head_inv_def head_start_def pinners_def  )

lemma head_reach_inv: "head_reach n s \<Longrightarrow> n < 2 ^ 32 \<Longrightarrow> head_inv n s"
proof (induction rule: head_reach.induct)
  case (hr_step s s')
  then show ?case
    by (auto elim!: head_step.cases
        intro: pin_step_inv retire_step_inv commit_step_inv claim_step_inv seek_step_inv other_install_inv)
qed (rule head_start_inv)

section \<open>Pins and retirement\<close>

lemma retire_released: "hreleased (retire_step k s) \<noteq> hreleased s \<Longrightarrow> tpc s k = RReleasing"
  by (cases "tpc s k") (auto simp: retire_step_def head_setters split: prod.splits if_splits)

lemma head_step_released:
  assumes "head_step n s s'"
  shows "hreleased s' = hreleased s \<or> (\<exists>k. tpc s k = RReleasing)"
  using assms
proof cases
  case (hs_pin i)
  then show ?thesis by (cases "rpc s i") (simp_all add: pin_step_def head_setters)
next
  case (hs_commit j)
  then show ?thesis by (cases "cpc s j") (simp_all add: commit_step_def head_setters)
qed (auto dest: retire_released simp: seek_step_def claim_step_def other_install_def head_setters)

text \<open>
  C23: As long as a reader holds an accepted pin, nothing the readers, the committers that
  install and the retirers do releases a manifest through the pinned slot or frees the slot, whatever the
  interleaving.
\<close>

theorem pin_blocks_release:
  assumes "head_reach n s" and "n < 2 ^ 32" and "head_step n s s'"
    and "rpc s i = PHeld v" and "rpc s' i = PHeld v"
  shows "hreleased s' = hreleased s \<and> ps_state (hslot s') \<noteq> SLOT_FREE \<and> ps_pins (hslot s') \<noteq> 0"
proof -
  have inv: "head_inv n s" "head_inv n s'"
    using head_reach_inv [OF assms(1,2)] head_reach_inv [OF hr_step [OF assms(1,3)] assms(2)] by blast+
  have past: "pin_past_state (rpc s i)" "pin_past_state (rpc s' i)" "pin_active (rpc s' i)"
    using assms(4,5) by simp_all
  have "\<not> releasing (tpc s k)" for k using inv(1) past(1) by (simp add: head_inv_def)
  then have "tpc s k \<noteq> RReleasing" for k by (metis releasing.simps(1))
  moreover have "i < n" using inv(1) past(1) by (auto simp: head_inv_def)
  ultimately show ?thesis
    using head_step_released [OF assms(3)] inv(2) past(2,3) pinner_counted [of i n "rpc s'"]
    by (auto simp: head_inv_def)
qed

text \<open>The schedules of the examples below: one constructor per rule of \<open>head_step\<close>.\<close>

datatype head_act = APin nat | ASeek nat u64 "u64 option" | ARetire nat | AClaim nat u64 u64 | ACommit nat | AOther u64

fun head_act_step :: "head_act \<Rightarrow> head_sys \<Rightarrow> head_sys" where
  "head_act_step (APin i) = pin_step i"
| "head_act_step (ASeek k v mb) = seek_step k v mb"
| "head_act_step (ARetire k) = retire_step k"
| "head_act_step (AClaim j v m) = claim_step j v m"
| "head_act_step (ACommit j) = commit_step j"
| "head_act_step (AOther v) = other_install v"

fun act_ok :: "nat \<Rightarrow> head_act \<Rightarrow> bool" where
  "act_ok n (APin i) = (i < n)"
| "act_ok n _ = True"

lemma head_act_reach: "head_reach n s \<Longrightarrow> list_all (act_ok n) as \<Longrightarrow> head_reach n (fold head_act_step as s)"
proof (induction as arbitrary: s)
  case (Cons a as)
  have "head_step n s (head_act_step a s)"
    using Cons.prems(2) by (cases a) (auto intro: head_step.intros)
  then show ?case using Cons by (auto intro: hr_step)
qed simp

lemma replicate_numeral: "replicate (numeral k) x = x # replicate (pred_numeral k) x"
  by (simp add: numeral_eq_Suc)

lemmas head_eval = replicate_numeral head_start_def pin_step_def seek_step_def retire_step_def claim_step_def commit_step_def
  other_install_def head_setters publish_pin_def unpin_def elect_freeing_def compare_exchange_def pin_scan_def
  revert_live_def pin_states NO_VERSION_def

definition pinned_example :: head_sys where
  "pinned_example = fold head_act_step
     ([AClaim 0 1 11] @ replicate 3 (ACommit 0) @ replicate 6 (APin 0) @ [AOther 2, ASeek 0 1 None] @ replicate 5 (ARetire 0)) head_start"

theorem pin_blocks_release_witness:
  "rpc pinned_example 0 = PHeld 1 \<and> tpc pinned_example 0 = RElected 1 None \<and>
   hreleased (retire_step 0 pinned_example) = hreleased pinned_example"
proof -
  have r: "head_reach 1 pinned_example"
    unfolding pinned_example_def by (rule head_act_reach [OF hr_start]) (simp add: list_all_iff)
  have e: "rpc pinned_example 0 = PHeld 1" "tpc pinned_example 0 = RElected 1 None" "rpc (retire_step 0 pinned_example) 0 = PHeld 1"
    by (simp_all add: pinned_example_def head_eval)
  show ?thesis using pin_blocks_release [OF r _ hs_retire [of _ _ 0] e(1,3)] e by simp
qed

text \<open>The schedule of the next property in three parts, with the state each leaves.\<close>

definition stale_seen :: head_sys where
  "stale_seen = fold head_act_step
     ([AClaim 0 1 11] @ replicate 3 (ACommit 0) @ [AOther 2, ASeek 0 1 None] @ replicate 4 (ARetire 0)) head_start"

definition stale_freed :: head_sys where
  "stale_freed = fold head_act_step (ASeek 1 1 (Some 11) # replicate 10 (ARetire 1)) stale_seen"

definition stale_example :: head_sys where
  "stale_example = fold head_act_step (AClaim 0 3 33 # replicate 3 (ACommit 0) @ replicate 3 (ARetire 0)) stale_freed"

lemma stale_seen_eq:
  "stale_seen = \<lparr>hslot = \<lparr>ps_version = 1, ps_manifest = 11, ps_pins = 0, ps_state = SLOT_LIVE\<rparr>, hcur = 2,
     hreleased = [], hissued = [2, 1], rpc = (\<lambda>_. PIdle), tpc = (\<lambda>_. RIdle)(0 := RChecked 1 None), cpc = (\<lambda>_. CIdle)\<rparr>"
  by (simp add: stale_seen_def head_eval fun_upd_idem)

lemma stale_freed_eq:
  "stale_freed = \<lparr>hslot = \<lparr>ps_version = 0, ps_manifest = 0, ps_pins = 0, ps_state = SLOT_FREE\<rparr>, hcur = 2,
     hreleased = [(1, 11)], hissued = [2, 1], rpc = (\<lambda>_. PIdle), tpc = (\<lambda>_. RIdle)(0 := RChecked 1 None), cpc = (\<lambda>_. CIdle)\<rparr>"
  by (simp add: stale_freed_def stale_seen_eq head_eval) (simp add: fun_eq_iff)

lemma stale_example_eq:
  "stale_example = \<lparr>hslot = \<lparr>ps_version = 3, ps_manifest = 33, ps_pins = 0, ps_state = SLOT_FREEING\<rparr>, hcur = 3,
     hreleased = [(3, 33), (1, 11)], hissued = [3, 2, 1], rpc = (\<lambda>_. PIdle),
     tpc = (\<lambda>_. RIdle)(0 := RClearVersion), cpc = (\<lambda>_. CIdle)\<rparr>"
  by (simp add: stale_example_def stale_freed_eq head_eval) (simp add: fun_eq_iff)

text \<open>
  C24: The pin table alone does not protect the current version. A retirer that has looked up
  version 1 and found it superseded elects the slot by its state only; if in between another
  retirer frees the slot and a committer installs version 3 in it, the first retirer releases
  the manifest of version 3, which is current.
\<close>

theorem stale_retire_frees_current:
  "\<exists>s. head_reach n s \<and> hcur s = 3 \<and> hreleased s = [(3, 33), (1, 11)] \<and> hissued s = [3, 2, 1]"
proof -
  have "head_reach n stale_example"
    unfolding stale_example_def stale_freed_def stale_seen_def
    by (intro head_act_reach hr_start) (simp_all add: list_all_iff)
  then show ?thesis by (intro exI [of _ stale_example]) (simp add: stale_example_eq)
qed

end
