(* ===== verification/Shm_Manifest.thy ===== *)
theory Shm_Manifest
  imports Shm_Bytes
begin

text \<open>
  \<^verbatim>\<open>crates/shm-artifact/src/manifest.rs\<close>: the manifest of an artifact version, an immutable chunk that
  lists the data chunks the version added, and links to the manifest of its predecessor. The chunk
  allocator is a parameter of the writer, the mapped bytes one of the reader. Shown: what the writer writes
  the parser reads back, whatever bytes it is given the parser stays inside them and accepts only
  manifests that obey the structural rules, and the walk along a chain ends and returns exactly a
  well-formed chain.
\<close>

section \<open>Errors\<close>

text \<open>The errors of \<^verbatim>\<open>shm-arrow\<close>, which wraps a third-party library; its own error is a message here.\<close>

datatype arrow_error =
    ArrowCore shm_error
  | ArrowLibrary string
  | ArrowBadMagic
  | UnknownSchema u32
  | SchemaMismatch u32 u32
  | ChunkTooSmall nat nat
  | ArrowUnsupported string
  | ArrowLayout string

datatype artifact_error =
    ACore shm_error
  | Arrow arrow_error
  | WriteLocked
  | Fenced
  | Conflict u64 u64
  | AStale
  | Unsupported string
  | BadMagic
  | VersionGone
  | StaleManifest

section \<open>Records\<close>

definition MANIFEST_MAGIC :: u64 where "MANIFEST_MAGIC = from_le_bytes (ascii ''SHMMFST5'')"

record version_manifest =
  vm_magic :: u64
  vm_version :: u64
  vm_artifact_id :: u32
  vm_schema_id :: u32
  vm_chunk_count :: u32
  vm_batch_count :: u32
  vm_prev_version :: u64
  vm_prev_ref :: u64
  vm_prev_gen :: u32
  vm_depth :: u32
  vm_total_batches :: u32
  vm_kept_count :: u32

record kept_member =
  km_version :: u64
  km_batches :: u32
  km_pad :: u32

record manifest_link =
  ml_version :: u64
  ml_mref :: u64
  ml_generation :: u32
  ml_depth :: u32
  ml_total_batches :: u32

record manifest =
  mf_artifact_id :: u32
  mf_version :: u64
  mf_schema_id :: u32
  mf_chunks :: "chunk_desc list"
  mf_batch_spans :: "u32 list"
  mf_prev :: "manifest_link option"
  mf_depth :: u32
  mf_total_batches :: u32
  mf_window_base :: u64
  mf_kept :: "kept_member list"

definition chunks_offset :: nat where "chunks_offset = 64"

definition spans_offset :: "nat \<Rightarrow> nat" where
  "spans_offset chunk_count = chunks_offset + chunk_count * 24"

definition kept_offset :: "nat \<Rightarrow> nat \<Rightarrow> nat" where
  "kept_offset chunk_count batch_count = spans_offset chunk_count + batch_count * 4"

definition manifest_len :: "nat \<Rightarrow> nat \<Rightarrow> nat \<Rightarrow> nat" where
  "manifest_len chunk_count batch_count kept_count = kept_offset chunk_count batch_count + kept_count * 16"

text \<open>The bytes of the two records.\<close>

definition header_bytes :: "version_manifest \<Rightarrow> bytes" where
  "header_bytes h = le_bytes 8 (vm_magic h) @ le_bytes 8 (vm_version h) @ le_bytes 4 (vm_artifact_id h)
     @ le_bytes 4 (vm_schema_id h) @ le_bytes 4 (vm_chunk_count h) @ le_bytes 4 (vm_batch_count h)
     @ le_bytes 8 (vm_prev_version h) @ le_bytes 8 (vm_prev_ref h) @ le_bytes 4 (vm_prev_gen h)
     @ le_bytes 4 (vm_depth h) @ le_bytes 4 (vm_total_batches h) @ le_bytes 4 (vm_kept_count h)"

definition header_of_bytes :: "bytes \<Rightarrow> version_manifest" where
  "header_of_bytes b =
     \<lparr>vm_magic = le_word (take 8 b), vm_version = le_word (take 8 (drop 8 b)),
      vm_artifact_id = le_word (take 4 (drop 16 b)), vm_schema_id = le_word (take 4 (drop 20 b)),
      vm_chunk_count = le_word (take 4 (drop 24 b)), vm_batch_count = le_word (take 4 (drop 28 b)),
      vm_prev_version = le_word (take 8 (drop 32 b)), vm_prev_ref = le_word (take 8 (drop 40 b)),
      vm_prev_gen = le_word (take 4 (drop 48 b)), vm_depth = le_word (take 4 (drop 52 b)),
      vm_total_batches = le_word (take 4 (drop 56 b)), vm_kept_count = le_word (take 4 (drop 60 b))\<rparr>"

definition kept_bytes :: "kept_member \<Rightarrow> bytes" where
  "kept_bytes k = le_bytes 8 (km_version k) @ le_bytes 4 (km_batches k) @ le_bytes 4 (km_pad k)"

definition kept_of_bytes :: "bytes \<Rightarrow> kept_member" where
  "kept_of_bytes b = \<lparr>km_version = le_word (take 8 b), km_batches = le_word (take 4 (drop 8 b)), km_pad = le_word (take 4 (drop 12 b))\<rparr>"

interpretation header_pod: pod 64 header_bytes header_of_bytes
  by unfold_locales (simp_all add: header_bytes_def header_of_bytes_def)

interpretation kept_pod: pod 16 kept_bytes kept_of_bytes
  by unfold_locales (simp_all add: kept_bytes_def kept_of_bytes_def)

section \<open>Views of a manifest\<close>

definition is_window_root :: "manifest \<Rightarrow> bool" where
  "is_window_root m \<longleftrightarrow> mf_prev m = None \<and> (mf_window_base m \<noteq> 0 \<or> mf_kept m \<noteq> [])"

definition kept_batches_before :: "u64 \<Rightarrow> manifest \<Rightarrow> nat option" where
  "kept_batches_before since m =
     (if \<not> is_window_root m \<or> since < mf_window_base m then None
      else Some (sum_list (map (\<lambda>k. unat (km_batches k)) (filter (\<lambda>k. km_version k \<le> since) (mf_kept m)))))"

definition link_from :: "u64 \<Rightarrow> u32 \<Rightarrow> manifest \<Rightarrow> manifest_link" where
  "link_from mref gen m =
     \<lparr>ml_version = mf_version m, ml_mref = mref, ml_generation = gen, ml_depth = mf_depth m,
      ml_total_batches = mf_total_batches m\<rparr>"

section \<open>Writing\<close>

text \<open>
  The loop of \<^verbatim>\<open>window_ok\<close>: the total of the members' batches, or nothing when a member breaks a rule.
  The 64-bit total cannot wrap: fewer than 2^32 members of fewer than 2^32 batches.
\<close>

fun window_loop :: "u64 \<Rightarrow> u64 option \<Rightarrow> nat \<Rightarrow> kept_member list \<Rightarrow> nat option" where
  "window_loop version prev tot [] = Some tot"
| "window_loop version prev tot (k # ks) =
     (if km_batches k = 0 \<or> km_pad k \<noteq> 0 \<or> km_version k \<ge> version then None
      else if (case prev of Some p \<Rightarrow> km_version k \<le> p | None \<Rightarrow> False) then None
      else window_loop version (Some (km_version k)) (tot + unat (km_batches k)) ks)"

definition window_ok :: "u64 \<Rightarrow> u64 \<Rightarrow> kept_member list \<Rightarrow> u32 \<Rightarrow> bool" where
  "window_ok version base kept batch_count =
     (if base \<ge> version then False
      else case window_loop version None 0 kept of
        None \<Rightarrow> False
      | Some tot \<Rightarrow>
          if tot > unat batch_count then False
          else (case kept of [] \<Rightarrow> True | k # _ \<Rightarrow> base \<le> km_version k))"

text \<open>
  \<open>alloc\<close> is the caller's chunk allocator. The result is the descriptor and the bytes written at the
  start of its chunk.
\<close>

definition write_manifest ::
  "(nat \<Rightarrow> artifact_error + chunk_desc) \<Rightarrow> u32 \<Rightarrow> u64 \<Rightarrow> u32 \<Rightarrow> chunk_desc list \<Rightarrow> u32 list
     \<Rightarrow> manifest_link option \<Rightarrow> (u64 \<times> kept_member list) option \<Rightarrow> artifact_error + (chunk_desc \<times> bytes)" where
  "write_manifest alloc art version schema chunks spans prev window =
     (if length chunks \<ge> 2 ^ 32 then Inl (Unsupported ''too many chunks in manifest'')
      else if length spans \<ge> 2 ^ 32 then Inl (Unsupported ''too many batches in manifest'')
      else let (base, kept) = (case window of None \<Rightarrow> (0, []) | Some w \<Rightarrow> w);
               batch_count = of_nat (length spans) :: u32 in
      if length kept \<ge> 2 ^ 32 then Inl (Unsupported ''too many kept members in manifest'')
      else case
        (case prev of
           Some link \<Rightarrow>
             if ml_version link \<ge> version \<or> ml_version link = 0 \<or> ml_mref link = 0
             then Inl (Unsupported ''manifest link must name an older version'')
             else if window \<noteq> None then Inl (Unsupported ''a linked manifest carries no window'')
             else if ml_depth link = - 1 then Inl (Unsupported ''manifest chain too deep'')
             else Inr (ml_version link, ml_mref link, ml_generation link, ml_depth link + 1,
               if unat batch_count + unat (ml_total_batches link) < 2 ^ 32
               then batch_count + ml_total_batches link else - 1)
         | None \<Rightarrow>
             if \<not> window_ok version base kept batch_count then Inl (Unsupported ''malformed window members'')
             else Inr (base, 0, 0, 0, batch_count)) of
        Inl e \<Rightarrow> Inl e
      | Inr (pv, pr, pg, depth, totb) \<Rightarrow>
          let tot = manifest_len (length chunks) (length spans) (length kept) in
          (case alloc tot of
             Inl e \<Rightarrow> Inl e
           | Inr desc \<Rightarrow>
               if unat (len desc) < tot then Inl (Arrow (ChunkTooSmall tot (unat (len desc))))
               else Inr (desc,
                 header_bytes \<lparr>vm_magic = MANIFEST_MAGIC, vm_version = version, vm_artifact_id = art, vm_schema_id = schema,
                   vm_chunk_count = of_nat (length chunks), vm_batch_count = batch_count, vm_prev_version = pv, vm_prev_ref = pr,
                   vm_prev_gen = pg, vm_depth = depth, vm_total_batches = totb, vm_kept_count = of_nat (length kept)\<rparr>
                 @ concat (map desc_bytes chunks) @ concat (map (le_bytes 4) spans)
                 @ concat (map (\<lambda>k. kept_bytes (k\<lparr>km_pad := 0\<rparr>)) kept))))"

section \<open>Parsing\<close>

text \<open>\<^verbatim>\<open>usize::checked_mul\<close>, \<^verbatim>\<open>checked_add\<close> followed by \<^verbatim>\<open>ok_or(Error::VersionGone)?\<close>.\<close>

definition checked :: "nat \<Rightarrow> (nat \<Rightarrow> artifact_error + 'a) \<Rightarrow> artifact_error + 'a" where
  "checked x k = (if x < 2 ^ 64 then k x else Inl VersionGone)"

definition parse_manifest_bytes :: "bytes \<Rightarrow> artifact_error + manifest" where
  "parse_manifest_bytes bs =
     (if length bs < 64 then Inl VersionGone
      else let h = read_pod 64 header_of_bytes bs 0 in
      if vm_magic h \<noteq> MANIFEST_MAGIC then Inl BadMagic
      else let is_root = (vm_prev_ref h = 0) in
      if is_root \<noteq> (vm_depth h = 0) \<or> is_root \<and> vm_prev_gen h \<noteq> 0
         \<or> \<not> is_root \<and> (vm_prev_version h = 0 \<or> vm_kept_count h \<noteq> 0)
         \<or> vm_prev_version h \<ge> vm_version h \<or> vm_total_batches h < vm_batch_count h
      then Inl VersionGone
      else let chunk_count = unat (vm_chunk_count h); batch_count = unat (vm_batch_count h);
               kept_count = unat (vm_kept_count h) in
      checked (chunk_count * 24) (\<lambda>chunk_bytes. checked (chunks_offset + chunk_bytes) (\<lambda>spans_off.
      checked (batch_count * 4) (\<lambda>span_bytes. checked (spans_off + span_bytes) (\<lambda>kept_off.
      checked (kept_count * 16) (\<lambda>kept_bts. checked (kept_off + kept_bts) (\<lambda>tot.
        if tot > length bs then Inl VersionGone
        else let chunks = read_pods 24 desc_of_bytes bs chunks_offset chunk_count;
                 batch_spans = read_pods 4 le_word bs spans_off batch_count;
                 kept = read_pods 16 kept_of_bytes bs kept_off kept_count;
                 window_base = (if is_root then vm_prev_version h else 0) in
        if is_root \<and> \<not> window_ok (vm_version h) window_base kept (vm_batch_count h) then Inl VersionGone
        else Inr
          \<lparr>mf_artifact_id = vm_artifact_id h, mf_version = vm_version h, mf_schema_id = vm_schema_id h,
           mf_chunks = chunks, mf_batch_spans = batch_spans,
           mf_prev = (if is_root then None else Some
             \<lparr>ml_version = vm_prev_version h, ml_mref = vm_prev_ref h, ml_generation = vm_prev_gen h,
              ml_depth = vm_depth h - 1, ml_total_batches = vm_total_batches h - vm_batch_count h\<rparr>),
           mf_depth = vm_depth h, mf_total_batches = vm_total_batches h, mf_window_base = window_base, mf_kept = kept\<rparr>)))))))"

text \<open>\<open>mem\<close> is the mapping of the segment, by offset.\<close>

definition seg_bytes :: "(nat \<Rightarrow> u8) \<Rightarrow> nat \<Rightarrow> nat \<Rightarrow> bytes" where
  "seg_bytes mem a n = map mem [a ..< a + n]"

definition read_manifest :: "segment \<Rightarrow> (nat \<Rightarrow> u8) \<Rightarrow> u64 \<Rightarrow> artifact_error + manifest" where
  "read_manifest sg mem mref =
     (case segment_resolve sg (ref_offset mref) 64 of
        Inl e \<Rightarrow> Inl (ACore e)
      | Inr a \<Rightarrow>
          let h = header_of_bytes (seg_bytes mem a 64) in
          if vm_magic h \<noteq> MANIFEST_MAGIC then Inl BadMagic
          else let tot = manifest_len (unat (vm_chunk_count h)) (unat (vm_batch_count h)) (unat (vm_kept_count h)) in
          if tot \<ge> 2 ^ 32 then Inl VersionGone
          else case segment_resolve sg (ref_offset mref) (of_nat tot) of
            Inl e \<Rightarrow> Inl (ACore e)
          | Inr b \<Rightarrow> parse_manifest_bytes (seg_bytes mem b tot))"

definition read_manifest_checked :: "segment \<Rightarrow> (nat \<Rightarrow> u8) \<Rightarrow> u64 \<Rightarrow> u32 \<Rightarrow> u64 \<Rightarrow> artifact_error + manifest" where
  "read_manifest_checked sg mem mref art version =
     (case read_manifest sg mem mref of
        Inl e \<Rightarrow> Inl e
      | Inr m \<Rightarrow> if mf_artifact_id m \<noteq> art \<or> mf_version m \<noteq> version then Inl StaleManifest else Inr m)"

section \<open>What is written is read back\<close>

definition header_strict :: "version_manifest \<Rightarrow> bool" where
  "header_strict h \<longleftrightarrow> vm_magic h = MANIFEST_MAGIC \<and> (vm_prev_ref h = 0 \<longleftrightarrow> vm_depth h = 0)
     \<and> (vm_prev_ref h = 0 \<longrightarrow> vm_prev_gen h = 0)
     \<and> (vm_prev_ref h \<noteq> 0 \<longrightarrow> vm_prev_version h \<noteq> 0 \<and> vm_kept_count h = 0)
     \<and> vm_prev_version h < vm_version h \<and> vm_batch_count h \<le> vm_total_batches h"

definition manifest_of :: "version_manifest \<Rightarrow> chunk_desc list \<Rightarrow> u32 list \<Rightarrow> kept_member list \<Rightarrow> manifest" where
  "manifest_of h chunks spans kept =
     \<lparr>mf_artifact_id = vm_artifact_id h, mf_version = vm_version h, mf_schema_id = vm_schema_id h,
      mf_chunks = chunks, mf_batch_spans = spans,
      mf_prev = (if vm_prev_ref h = 0 then None else Some
        \<lparr>ml_version = vm_prev_version h, ml_mref = vm_prev_ref h, ml_generation = vm_prev_gen h,
         ml_depth = vm_depth h - 1, ml_total_batches = vm_total_batches h - vm_batch_count h\<rparr>),
      mf_depth = vm_depth h, mf_total_batches = vm_total_batches h,
      mf_window_base = (if vm_prev_ref h = 0 then vm_prev_version h else 0), mf_kept = kept\<rparr>"

text \<open>The parser in closed form: none of the checked products and sums can overflow.\<close>

lemma parse_manifest_eq:
  "parse_manifest_bytes bs =
     (if length bs < 64 then Inl VersionGone
      else let h = read_pod 64 header_of_bytes bs 0 in
      if vm_magic h \<noteq> MANIFEST_MAGIC then Inl BadMagic
      else if \<not> header_strict h then Inl VersionGone
      else let cc = unat (vm_chunk_count h); bc = unat (vm_batch_count h); kc = unat (vm_kept_count h) in
      if manifest_len cc bc kc > length bs then Inl VersionGone
      else let m = manifest_of h (read_pods 24 desc_of_bytes bs 64 cc) (read_pods 4 le_word bs (spans_offset cc) bc)
                     (read_pods 16 kept_of_bytes bs (kept_offset cc bc) kc) in
      if vm_prev_ref h = 0 \<and> \<not> window_ok (vm_version h) (vm_prev_version h) (mf_kept m) (vm_batch_count h)
      then Inl VersionGone else Inr m)"
proof -
  have ch: "checked x k = k x" if "x < 2 ^ 64" for x and k :: "nat \<Rightarrow> artifact_error + manifest"
    using that by (simp add: checked_def)
  have b: "unat (a :: u32) * 24 < 2 ^ 64" "unat a * 4 < 2 ^ 64" "unat a * 16 < 2 ^ 64" "64 + unat a * 24 < 2 ^ 64"
    "64 + unat a * 24 + unat b * 4 < 2 ^ 64" "64 + unat a * 24 + unat b * 4 + unat c * 16 < 2 ^ 64" for a b c :: u32
    using unat_u32_less [of a] unat_u32_less [of b] unat_u32_less [of c] by simp_all
  have strict: "((vm_prev_ref h = 0) \<noteq> (vm_depth h = 0) \<or> vm_prev_ref h = 0 \<and> vm_prev_gen h \<noteq> 0
         \<or> \<not> vm_prev_ref h = 0 \<and> (vm_prev_version h = 0 \<or> vm_kept_count h \<noteq> 0)
         \<or> vm_prev_version h \<ge> vm_version h \<or> vm_total_batches h < vm_batch_count h) = (\<not> header_strict h)"
    if "vm_magic h = MANIFEST_MAGIC" for h
    using that by (auto simp: header_strict_def not_less not_le)
  define h where "h = read_pod 64 header_of_bytes bs 0"
  show ?thesis
  proof (cases "length bs < 64 \<or> vm_magic h \<noteq> MANIFEST_MAGIC")
    case True
    then show ?thesis unfolding parse_manifest_bytes_def Let_def h_def [symmetric] by auto
  next
    case False
    then have m: "vm_magic h = MANIFEST_MAGIC" and l: "\<not> length bs < 64" by simp_all
    show ?thesis
      unfolding parse_manifest_bytes_def Let_def h_def [symmetric] strict [OF m] chunks_offset_def
        ch [OF b(1)] ch [OF b(2)] ch [OF b(3)] ch [OF b(4)] ch [OF b(5)] ch [OF b(6)]
      by (simp add: m l manifest_of_def manifest_len_def kept_offset_def spans_offset_def chunks_offset_def)
  qed
qed

lemma parse_written:
  assumes "header_strict h" and "unat (vm_chunk_count h) = length chunks" and "unat (vm_batch_count h) = length spans"
    and "unat (vm_kept_count h) = length kept"
    and "vm_prev_ref h = 0 \<longrightarrow> window_ok (vm_version h) (vm_prev_version h) kept (vm_batch_count h)"
    and bs: "bs = header_bytes h @ concat (map desc_bytes chunks) @ concat (map (le_bytes 4) spans) @ concat (map kept_bytes kept) @ rest"
  shows "parse_manifest_bytes bs = Inr (manifest_of h chunks spans kept)"
proof -
  have d: "drop 0 bs = header_bytes h @ (concat (map desc_bytes chunks) @ concat (map (le_bytes 4) spans) @ concat (map kept_bytes kept) @ rest)"
    "drop 64 bs = concat (map desc_bytes chunks) @ (concat (map (le_bytes 4) spans) @ concat (map kept_bytes kept) @ rest)"
    "drop (spans_offset (length chunks)) bs = concat (map (le_bytes 4) spans) @ (concat (map kept_bytes kept) @ rest)"
    "drop (kept_offset (length chunks) (length spans)) bs = concat (map kept_bytes kept) @ rest"
    by (simp_all add: bs spans_offset_def kept_offset_def chunks_offset_def)
  have r: "read_pod 64 header_of_bytes bs 0 = h" by (rule header_pod.read_pod_enc [OF d(1)])
  have rs: "read_pods 24 desc_of_bytes bs 64 (length chunks) = chunks"
    "read_pods 4 le_word bs (spans_offset (length chunks)) (length spans) = spans"
    "read_pods 16 kept_of_bytes bs (kept_offset (length chunks) (length spans)) (length kept) = kept"
    by (rule desc_pod.read_pods_enc [OF d(2)], rule u32_pod.read_pods_enc [OF d(3)], rule kept_pod.read_pods_enc [OF d(4)])
  have len: "64 \<le> length bs" "manifest_len (length chunks) (length spans) (length kept) \<le> length bs"
    by (simp_all add: bs manifest_len_def kept_offset_def spans_offset_def chunks_offset_def)
  show ?thesis unfolding parse_manifest_eq Let_def r assms(2-4) rs
    using assms(1,5) len by (auto simp: header_strict_def manifest_of_def)
qed

lemma window_loop_pads: "window_loop version prev tot ks = Some n \<Longrightarrow> map (\<lambda>k. k\<lparr>km_pad := 0\<rparr>) ks = ks"
  by (induction ks arbitrary: prev tot) (auto split: if_splits option.splits)

lemma window_ok_pads: "window_ok version base ks bc \<Longrightarrow> map (\<lambda>k. k\<lparr>km_pad := 0\<rparr>) ks = ks"
  by (auto simp: window_ok_def split: if_splits option.splits dest: window_loop_pads)

text \<open>The manifest a successful write stands for.\<close>

definition written_manifest ::
  "u32 \<Rightarrow> u64 \<Rightarrow> u32 \<Rightarrow> chunk_desc list \<Rightarrow> u32 list \<Rightarrow> manifest_link option \<Rightarrow> (u64 \<times> kept_member list) option \<Rightarrow> manifest" where
  "written_manifest art version schema chunks spans prev window =
     \<lparr>mf_artifact_id = art, mf_version = version, mf_schema_id = schema, mf_chunks = chunks, mf_batch_spans = spans,
      mf_prev = prev, mf_depth = (case prev of None \<Rightarrow> 0 | Some l \<Rightarrow> ml_depth l + 1),
      mf_total_batches = of_nat (length spans) + (case prev of None \<Rightarrow> 0 | Some l \<Rightarrow> ml_total_batches l),
      mf_window_base = (case window of None \<Rightarrow> 0 | Some (b, _) \<Rightarrow> b),
      mf_kept = (case window of None \<Rightarrow> [] | Some (_, k) \<Rightarrow> k)\<rparr>"

definition prev_batches :: "manifest_link option \<Rightarrow> nat" where
  "prev_batches prev = (case prev of None \<Rightarrow> 0 | Some l \<Rightarrow> unat (ml_total_batches l))"

lemma le_total: "unat a + unat b < 2 ^ 32 \<Longrightarrow> a \<le> a + b" for a b :: u32
  by (simp add: word_le_nat_alt unat_word_ariths)

text \<open>The bytes a write leaves, given the link fields it has worked out.\<close>

definition manifest_image :: "version_manifest \<Rightarrow> chunk_desc list \<Rightarrow> u32 list \<Rightarrow> kept_member list \<Rightarrow> bytes" where
  "manifest_image h chunks spans kept = header_bytes h @ concat (map desc_bytes chunks) @ concat (map (le_bytes 4) spans)
     @ concat (map (\<lambda>k. kept_bytes (k\<lparr>km_pad := 0\<rparr>)) kept)"

lemma length_manifest_image [simp]:
  "length (manifest_image h chunks spans kept) = manifest_len (length chunks) (length spans) (length kept)"
proof -
  have "map (\<lambda>k. kept_bytes (k\<lparr>km_pad := 0\<rparr>)) kept = map kept_bytes (map (\<lambda>k. k\<lparr>km_pad := 0\<rparr>) kept)" by simp
  then show ?thesis
    using kept_pod.length_concat_enc [of "map (\<lambda>k. k\<lparr>km_pad := 0\<rparr>) kept"]
    by (simp add: manifest_image_def manifest_len_def kept_offset_def spans_offset_def chunks_offset_def del: map_map)
qed

lemma parse_image:
  assumes "header_strict h" and "map (\<lambda>k. k\<lparr>km_pad := 0\<rparr>) kept = kept"
    and "unat (vm_chunk_count h) = length chunks" "unat (vm_batch_count h) = length spans" "unat (vm_kept_count h) = length kept"
    and "vm_prev_ref h = 0 \<longrightarrow> window_ok (vm_version h) (vm_prev_version h) kept (vm_batch_count h)"
  shows "parse_manifest_bytes (manifest_image h chunks spans kept @ rest) = Inr (manifest_of h chunks spans kept)"
proof (rule parse_written [OF assms(1,3,4,5,6)])
  have "map kept_bytes (map (\<lambda>k. k\<lparr>km_pad := 0\<rparr>) kept) = map kept_bytes kept" by (simp only: assms(2))
  then have eq: "map (\<lambda>k. kept_bytes (k\<lparr>km_pad := 0\<rparr>)) kept = map kept_bytes kept" by (simp only: map_map comp_def)
  show "manifest_image h chunks spans kept @ rest
      = header_bytes h @ concat (map desc_bytes chunks) @ concat (map (le_bytes 4) spans) @ concat (map kept_bytes kept) @ rest"
    by (simp only: manifest_image_def eq append_assoc)
qed

definition root_header :: "u32 \<Rightarrow> u64 \<Rightarrow> u32 \<Rightarrow> nat \<Rightarrow> nat \<Rightarrow> nat \<Rightarrow> u64 \<Rightarrow> version_manifest" where
  "root_header art version schema nc nb nk base =
     \<lparr>vm_magic = MANIFEST_MAGIC, vm_version = version, vm_artifact_id = art, vm_schema_id = schema,
      vm_chunk_count = of_nat nc, vm_batch_count = of_nat nb, vm_prev_version = base, vm_prev_ref = 0,
      vm_prev_gen = 0, vm_depth = 0, vm_total_batches = of_nat nb, vm_kept_count = of_nat nk\<rparr>"

definition linked_header :: "u32 \<Rightarrow> u64 \<Rightarrow> u32 \<Rightarrow> nat \<Rightarrow> nat \<Rightarrow> manifest_link \<Rightarrow> version_manifest" where
  "linked_header art version schema nc nb l =
     \<lparr>vm_magic = MANIFEST_MAGIC, vm_version = version, vm_artifact_id = art, vm_schema_id = schema,
      vm_chunk_count = of_nat nc, vm_batch_count = of_nat nb, vm_prev_version = ml_version l, vm_prev_ref = ml_mref l,
      vm_prev_gen = ml_generation l, vm_depth = ml_depth l + 1, vm_total_batches = of_nat nb + ml_total_batches l,
      vm_kept_count = 0\<rparr>"

lemma write_root:
  assumes "write_manifest alloc art version schema chunks spans None window = Inr (desc, bs)"
  shows "\<exists>base kept. (case window of None \<Rightarrow> (0, []) | Some w \<Rightarrow> w) = (base, kept)
    \<and> window_ok version base kept (of_nat (length spans))
    \<and> length chunks < 2 ^ 32 \<and> length spans < 2 ^ 32 \<and> length kept < 2 ^ 32
    \<and> bs = manifest_image (root_header art version schema (length chunks) (length spans) (length kept) base) chunks spans kept
    \<and> length bs \<le> unat (len desc)"
  using assms
  by (cases "case window of None \<Rightarrow> (0, []) | Some w \<Rightarrow> w")
    (auto simp: write_manifest_def Let_def root_header_def manifest_image_def [symmetric] split: if_splits sum.splits)

lemma write_linked:
  assumes "write_manifest alloc art version schema chunks spans (Some l) window = Inr (desc, bs)"
    and "length spans + unat (ml_total_batches l) < 2 ^ 32"
  shows "window = None \<and> ml_version l < version \<and> ml_version l \<noteq> 0 \<and> ml_mref l \<noteq> 0 \<and> ml_depth l \<noteq> - 1
    \<and> length chunks < 2 ^ 32 \<and> length spans < 2 ^ 32
    \<and> bs = manifest_image (linked_header art version schema (length chunks) (length spans) l) chunks spans []
    \<and> length bs \<le> unat (len desc)"
  using assms
  by (cases window)
    (auto simp: write_manifest_def Let_def linked_header_def manifest_image_def unat_of_nat_u32 not_le manifest_len_def
      kept_offset_def spans_offset_def chunks_offset_def split: if_splits sum.splits)

lemma parse_root:
  assumes "window_ok version base kept (of_nat (length spans))"
    and "length chunks < 2 ^ 32" "length spans < 2 ^ 32" "length kept < 2 ^ 32"
  shows "parse_manifest_bytes (manifest_image (root_header art version schema (length chunks) (length spans) (length kept) base) chunks spans kept @ rest)
    = Inr (written_manifest art version schema chunks spans None (Some (base, kept)))"
proof -
  have "base < version" using assms(1) by (auto simp: window_ok_def split: if_splits)
  then show ?thesis using assms window_ok_pads [OF assms(1)]
    by (subst parse_image)
      (auto simp: root_header_def header_strict_def manifest_of_def written_manifest_def unat_of_nat_u32)
qed

lemma parse_linked:
  assumes "ml_version l < version" "ml_version l \<noteq> 0" "ml_mref l \<noteq> 0" "ml_depth l \<noteq> - 1"
    and "length chunks < 2 ^ 32" "length spans < 2 ^ 32" "length spans + unat (ml_total_batches l) < 2 ^ 32"
  shows "parse_manifest_bytes (manifest_image (linked_header art version schema (length chunks) (length spans) l) chunks spans [] @ rest)
    = Inr (written_manifest art version schema chunks spans (Some l) None)"
proof -
  have "of_nat (length spans) \<le> (of_nat (length spans) + ml_total_batches l :: u32)"
    using assms(6,7) by (intro le_total) (simp add: unat_of_nat_u32)
  moreover have "ml_depth l + 1 \<noteq> 0" using assms(4) by (simp add: succ_0_iff)
  ultimately show ?thesis using assms
    by (subst parse_image) (auto simp: linked_header_def header_strict_def manifest_of_def written_manifest_def unat_of_nat_u32)
qed

lemma written_parses:
  assumes "write_manifest alloc art version schema chunks spans prev window = Inr (desc, bs)"
    and "length spans + prev_batches prev < 2 ^ 32"
  shows "length bs \<le> unat (len desc)
    \<and> parse_manifest_bytes (bs @ rest) = Inr (written_manifest art version schema chunks spans prev window)"
proof (cases prev)
  case None
  obtain base kept where "(case window of None \<Rightarrow> (0, []) | Some w \<Rightarrow> w) = (base, kept)"
    "window_ok version base kept (of_nat (length spans))" "length chunks < 2 ^ 32" "length spans < 2 ^ 32" "length kept < 2 ^ 32"
    "bs = manifest_image (root_header art version schema (length chunks) (length spans) (length kept) base) chunks spans kept"
    "length bs \<le> unat (len desc)"
    using write_root assms(1) None by blast
  then show ?thesis using None parse_root [of version base kept spans chunks art schema rest]
    by (auto simp: written_manifest_def split: option.splits)
next
  case (Some l)
  then show ?thesis
    using write_linked [of alloc art version schema chunks spans l window desc bs] assms
      parse_linked [of l version chunks spans art schema rest]
    by (auto simp: prev_batches_def)
qed

text \<open>
  C27: A manifest that was written is read back as it was given, from a chunk of any size that holds
  it: chunks, batch spans, link, depth, batch total and window. (Batch totals saturate at the
  32-bit maximum, so the chain's batches have to stay below it.)
\<close>

theorem manifest_roundtrip:
  assumes "write_manifest alloc art version schema chunks spans prev window = Inr (desc, bs)"
    and "length spans + prev_batches prev < 2 ^ 32"
  shows "length bs \<le> unat (len desc)
    \<and> parse_manifest_bytes (bs @ rest) = Inr (written_manifest art version schema chunks spans prev window)"
  by (rule written_parses [OF assms])

definition demo_desc :: chunk_desc where
  "demo_desc = \<lparr>segment_id = 1, generation = 4, offset = 4096, len = 256, schema_id = 0, desc_pad = 0\<rparr>"

definition demo_link :: manifest_link where
  "demo_link = \<lparr>ml_version = 1, ml_mref = 0x100002000, ml_generation = 3, ml_depth = 0, ml_total_batches = 2\<rparr>"

theorem manifest_roundtrip_witness:
  "\<exists>bs. write_manifest (\<lambda>_. Inr demo_desc) 7 2 3 [demo_desc] [1] (Some demo_link) None = Inr (demo_desc, bs)
     \<and> length bs = 92 \<and> parse_manifest_bytes (bs @ [0xff]) = Inr (written_manifest 7 2 3 [demo_desc] [1] (Some demo_link) None)"
proof -
  have "\<exists>bs. write_manifest (\<lambda>_. Inr demo_desc) 7 2 3 [demo_desc] [1] (Some demo_link) None = Inr (demo_desc, bs) \<and> length bs = 92"
    by (simp add: write_manifest_def demo_link_def manifest_len_def kept_offset_def spans_offset_def chunks_offset_def demo_desc_def
        word_le_nat_alt)
  then obtain bs where w: "write_manifest (\<lambda>_. Inr demo_desc) 7 2 3 [demo_desc] [1] (Some demo_link) None = Inr (demo_desc, bs)"
    and l: "length bs = 92" by blast
  have "length [1 :: u32] + prev_batches (Some demo_link) < 2 ^ 32" by (simp add: prev_batches_def demo_link_def)
  then show ?thesis using manifest_roundtrip [OF w] w l by blast
qed

section \<open>What the parser accepts\<close>

text \<open>The rules of a window, said of the whole list of members.\<close>

definition window_wf :: "u64 \<Rightarrow> u64 \<Rightarrow> kept_member list \<Rightarrow> nat \<Rightarrow> bool" where
  "window_wf version base kept batches \<longleftrightarrow> base < version \<and> sorted_wrt (<) (map km_version kept)
     \<and> (\<forall>k \<in> set kept. base \<le> km_version k \<and> km_version k < version \<and> km_batches k \<noteq> 0 \<and> km_pad k = 0)
     \<and> sum_list (map (\<lambda>k. unat (km_batches k)) kept) \<le> batches"

lemma window_loop_eq:
  "window_loop version prev tot kept = Some t \<longleftrightarrow>
     t = tot + sum_list (map (\<lambda>k. unat (km_batches k)) kept)
     \<and> (\<forall>k \<in> set kept. km_version k < version \<and> km_batches k \<noteq> 0 \<and> km_pad k = 0)
     \<and> sorted_wrt (<) ((case prev of None \<Rightarrow> [] | Some p \<Rightarrow> [p]) @ map km_version kept)"
proof (induction version prev tot kept rule: window_loop.induct)
  case (2 version prev tot k ks)
  have chain: "\<forall>x \<in> set ks. p < km_version x" if "p < km_version k" "\<forall>x \<in> set ks. km_version k < km_version x" for p
    using that by (auto intro: less_trans)
  show ?case using 2 chain by (cases prev) (auto simp: not_le not_less add.assoc)
qed (auto split: option.splits)

lemma window_ok_iff: "window_ok version base kept bc \<longleftrightarrow> window_wf version base kept (unat bc)"
proof -
  have first: "(case kept of [] \<Rightarrow> True | k # _ \<Rightarrow> base \<le> km_version k) \<longleftrightarrow> (\<forall>k \<in> set kept. base \<le> km_version k)"
    if "sorted_wrt (<) (map km_version kept)"
    using that by (cases kept) (auto intro: less_imp_le order.trans)
  show ?thesis
  proof (cases "window_loop version None 0 kept")
    case None
    then have "\<not> ((\<forall>k \<in> set kept. km_version k < version \<and> km_batches k \<noteq> 0 \<and> km_pad k = 0) \<and> sorted_wrt (<) (map km_version kept))"
      using window_loop_eq [of version None 0 kept "sum_list (map (\<lambda>k. unat (km_batches k)) kept)"] by auto
    then show ?thesis using None by (auto simp: window_ok_def window_wf_def)
  next
    case (Some t)
    then show ?thesis using window_loop_eq [of version None 0 kept t] first
      by (auto simp: window_ok_def window_wf_def not_le not_less)
  qed
qed

definition manifest_wf :: "manifest \<Rightarrow> bool" where
  "manifest_wf m \<longleftrightarrow> length (mf_batch_spans m) < 2 ^ 32 \<and> length (mf_batch_spans m) \<le> unat (mf_total_batches m) \<and>
     (case mf_prev m of
        None \<Rightarrow> mf_depth m = 0 \<and> window_wf (mf_version m) (mf_window_base m) (mf_kept m) (length (mf_batch_spans m))
      | Some l \<Rightarrow> ml_version l \<noteq> 0 \<and> ml_version l < mf_version m \<and> ml_mref l \<noteq> 0
          \<and> unat (mf_depth m) = unat (ml_depth l) + 1
          \<and> unat (mf_total_batches m) = length (mf_batch_spans m) + unat (ml_total_batches l)
          \<and> mf_window_base m = 0 \<and> mf_kept m = [])"

definition manifest_bytes_len :: "manifest \<Rightarrow> nat" where
  "manifest_bytes_len m = manifest_len (length (mf_chunks m)) (length (mf_batch_spans m)) (length (mf_kept m))"

lemma length_read_pods [simp]: "length (read_pods n dec bs off k) = k"
  by (simp add: read_pods_def)

lemma read_pod_take: "off + n \<le> L \<Longrightarrow> L \<le> length bs \<Longrightarrow> read_pod n dec (take L bs @ rest) off = read_pod n dec bs off"
  by (frule add_le_imp_le_diff [of n off L, unfolded add.commute [of n off]]) (simp add: read_pod_def drop_take min_def)

lemma read_pods_take:
  assumes "off + k * n \<le> L" and "L \<le> length bs"
  shows "read_pods n dec (take L bs @ rest) off k = read_pods n dec bs off k"
proof -
  have "off + i * n + n \<le> L" if "i < k" for i
  proof -
    have "(i + 1) * n \<le> k * n" using that by (intro mult_right_mono) simp_all
    then show ?thesis using assms(1) by simp
  qed
  then show ?thesis using assms(2) by (simp add: read_pods_def read_pod_take)
qed

lemma parse_InrD:
  assumes "parse_manifest_bytes bs = Inr m"
  obtains h where "h = read_pod 64 header_of_bytes bs 0" "header_strict h" "64 \<le> length bs"
    "m = manifest_of h (read_pods 24 desc_of_bytes bs 64 (unat (vm_chunk_count h)))
       (read_pods 4 le_word bs (spans_offset (unat (vm_chunk_count h))) (unat (vm_batch_count h)))
       (read_pods 16 kept_of_bytes bs (kept_offset (unat (vm_chunk_count h)) (unat (vm_batch_count h))) (unat (vm_kept_count h)))"
    "manifest_bytes_len m \<le> length bs"
    "manifest_bytes_len m = manifest_len (unat (vm_chunk_count h)) (unat (vm_batch_count h)) (unat (vm_kept_count h))"
    "vm_prev_ref h = 0 \<longrightarrow> window_ok (vm_version h) (vm_prev_version h) (mf_kept m) (vm_batch_count h)"
  using assms unfolding parse_manifest_eq Let_def
  by (auto simp: manifest_bytes_len_def manifest_of_def split: if_splits)

lemma parse_safe:
  assumes "parse_manifest_bytes bs = Inr m"
  shows "manifest_wf m" and "manifest_bytes_len m \<le> length bs"
    and "parse_manifest_bytes (take (manifest_bytes_len m) bs @ rest) = Inr m"
proof -
  obtain h where h: "h = read_pod 64 header_of_bytes bs 0" "header_strict h" "64 \<le> length bs"
    and m: "m = manifest_of h (read_pods 24 desc_of_bytes bs 64 (unat (vm_chunk_count h)))
       (read_pods 4 le_word bs (spans_offset (unat (vm_chunk_count h))) (unat (vm_batch_count h)))
       (read_pods 16 kept_of_bytes bs (kept_offset (unat (vm_chunk_count h)) (unat (vm_batch_count h))) (unat (vm_kept_count h)))"
    and L: "manifest_bytes_len m \<le> length bs"
      "manifest_bytes_len m = manifest_len (unat (vm_chunk_count h)) (unat (vm_batch_count h)) (unat (vm_kept_count h))"
    and w: "vm_prev_ref h = 0 \<longrightarrow> window_ok (vm_version h) (vm_prev_version h) (mf_kept m) (vm_batch_count h)"
    using parse_InrD [OF assms] by blast
  have d: "vm_depth h \<noteq> 0 \<Longrightarrow> unat (vm_depth h) = unat (vm_depth h - 1) + 1"
    by (simp add: unat_pred_word unat_gt_0)
  have t: "unat (vm_total_batches h) = unat (vm_batch_count h) + unat (vm_total_batches h - vm_batch_count h)"
    and le: "unat (vm_batch_count h) \<le> unat (vm_total_batches h)"
    using h(2) by (simp_all add: header_strict_def unat_sub word_le_nat_alt)
  have wf: "manifest_wf m"
    using h(2) w d t le unat_u32_less [of "vm_batch_count h"]
    by (auto simp: m manifest_wf_def manifest_of_def header_strict_def read_pods_def window_ok_iff)
  let ?L = "manifest_bytes_len m"
  have offs: "64 \<le> ?L" "64 + unat (vm_chunk_count h) * 24 \<le> ?L"
    "spans_offset (unat (vm_chunk_count h)) + unat (vm_batch_count h) * 4 \<le> ?L"
    "kept_offset (unat (vm_chunk_count h)) (unat (vm_batch_count h)) + unat (vm_kept_count h) * 16 \<le> ?L"
    by (simp_all add: L(2) manifest_len_def kept_offset_def spans_offset_def chunks_offset_def)
  have "read_pod 64 header_of_bytes (take ?L bs @ rest) 0 = h" using offs L(1) h(1) by (simp add: read_pod_take)
  then have "parse_manifest_bytes (take ?L bs @ rest) = Inr m"
    using h w offs L m
    by (auto simp: parse_manifest_eq Let_def read_pods_take header_strict_def manifest_of_def min_absorb2)
  then show "manifest_wf m" "?L \<le> length bs" "parse_manifest_bytes (take ?L bs @ rest) = Inr m" using wf L(1) by simp_all
qed

text \<open>The same bytes with other batch spans in the place of those of \<open>m\<close>.\<close>

definition respan :: "manifest \<Rightarrow> u32 list \<Rightarrow> bytes \<Rightarrow> bytes" where
  "respan m spans bs =
     take (spans_offset (length (mf_chunks m))) bs @ concat (map (le_bytes 4) spans)
     @ drop (kept_offset (length (mf_chunks m)) (length (mf_batch_spans m))) bs"

lemma read_pods_drop:
  assumes "drop off bs = drop off' bs'"
  shows "read_pods n dec bs off k = read_pods n dec bs' off' k"
proof -
  have "drop (off + i * n) bs = drop (off' + i * n) bs'" for i
    using arg_cong [OF assms, of "drop (i * n)"] by (simp add: add.commute)
  then show ?thesis by (simp add: read_pods_def read_pod_def)
qed

lemma parse_respan:
  assumes "parse_manifest_bytes bs = Inr m" and n: "length spans = length (mf_batch_spans m)"
  shows "parse_manifest_bytes (respan m spans bs) = Inr (m\<lparr>mf_batch_spans := spans\<rparr>)"
proof -
  obtain h where h: "h = read_pod 64 header_of_bytes bs 0" "header_strict h" "64 \<le> length bs"
    and m: "m = manifest_of h (read_pods 24 desc_of_bytes bs 64 (unat (vm_chunk_count h)))
       (read_pods 4 le_word bs (spans_offset (unat (vm_chunk_count h))) (unat (vm_batch_count h)))
       (read_pods 16 kept_of_bytes bs (kept_offset (unat (vm_chunk_count h)) (unat (vm_batch_count h))) (unat (vm_kept_count h)))"
    and L: "manifest_bytes_len m \<le> length bs"
      "manifest_bytes_len m = manifest_len (unat (vm_chunk_count h)) (unat (vm_batch_count h)) (unat (vm_kept_count h))"
    and w: "vm_prev_ref h = 0 \<longrightarrow> window_ok (vm_version h) (vm_prev_version h) (mf_kept m) (vm_batch_count h)"
    using parse_InrD [OF assms(1)] by blast
  let ?so = "spans_offset (unat (vm_chunk_count h))" and ?ko = "kept_offset (unat (vm_chunk_count h)) (unat (vm_batch_count h))"
  let ?b = "respan m spans bs"
  have c: "length (mf_chunks m) = unat (vm_chunk_count h)" "length (mf_batch_spans m) = unat (vm_batch_count h)"
    by (simp_all add: m manifest_of_def)
  have b: "?b = take ?so bs @ concat (map (le_bytes 4) spans) @ drop ?ko bs" by (simp add: respan_def c)
  have ln: "?so \<le> length bs" "?ko \<le> length bs" "?ko = ?so + length (concat (map (le_bytes 4) spans))" "64 \<le> ?so"
    "64 + unat (vm_chunk_count h) * 24 \<le> ?so"
    using L n c by (simp_all add: manifest_len_def kept_offset_def spans_offset_def chunks_offset_def)
  have hd: "read_pod 64 header_of_bytes ?b 0 = h" using ln h(1) by (simp add: b read_pod_take)
  have ch: "read_pods 24 desc_of_bytes ?b 64 (unat (vm_chunk_count h)) = read_pods 24 desc_of_bytes bs 64 (unat (vm_chunk_count h))"
    using ln unfolding b by (intro read_pods_take) simp_all
  have "drop ?so ?b = concat (map (le_bytes 4) spans) @ drop ?ko bs" using ln(1) by (simp add: b)
  from u32_pod.read_pods_enc [OF this] have sp: "read_pods 4 le_word ?b ?so (unat (vm_batch_count h)) = spans" using n c by simp
  have "drop ?ko ?b = drop ?ko bs" using ln(1,3) by (simp add: b)
  then have kp: "read_pods 16 kept_of_bytes ?b ?ko (unat (vm_kept_count h)) = read_pods 16 kept_of_bytes bs ?ko (unat (vm_kept_count h))"
    by (rule read_pods_drop)
  have lb: "length ?b = length bs" using ln by (simp add: b)
  have wf: "vm_prev_ref h = 0 \<longrightarrow> window_ok (vm_version h) (vm_prev_version h)
      (read_pods 16 kept_of_bytes bs ?ko (unat (vm_kept_count h))) (vm_batch_count h)"
    using w by (simp add: m manifest_of_def)
  show ?thesis unfolding parse_manifest_eq Let_def hd ch sp kp lb
    using h(2,3) L wf by (auto simp: header_strict_def m manifest_of_def)
qed

text \<open>
  C28: The parser is safe on any bytes. What it accepts lies inside the bytes, depends on no byte
  past its own length, and obeys the rules the parser checks: a root has depth 0, at least as many
  batches in total as of its own, and a window that is well formed (a base below the version, kept
  members in increasing order between the two, none empty, no more batches than the root has); a
  linked manifest names an older version and a manifest, has no window, and depth and batch total
  follow from the link. The batch spans are not among these rules: with any other spans of the
  same number in their place the bytes are accepted all the same, so that the spans add up to the
  chunks, as the layout has it, is left to the writer.
\<close>

theorem parse_accepts_strict:
  assumes "parse_manifest_bytes bs = Inr m"
  shows "manifest_wf m \<and> manifest_bytes_len m \<le> length bs
    \<and> parse_manifest_bytes (take (manifest_bytes_len m) bs @ rest) = Inr m
    \<and> (length spans = length (mf_batch_spans m)
         \<longrightarrow> parse_manifest_bytes (respan m spans bs) = Inr (m\<lparr>mf_batch_spans := spans\<rparr>))"
  using parse_safe [OF assms] parse_respan [OF assms] by blast

definition demo_image :: bytes where
  "demo_image = manifest_image (root_header 7 1 3 1 1 0 0) [demo_desc] [1] []"

lemma demo_image_parses: "parse_manifest_bytes (demo_image @ rest) = Inr (written_manifest 7 1 3 [demo_desc] [1] None (Some (0, [])))"
proof -
  have "window_ok 1 0 [] (of_nat (length [1 :: u32]))" by (simp add: window_ok_def)
  from parse_root [OF this, of "[demo_desc]" 7 3 rest] show ?thesis by (simp add: demo_image_def)
qed

theorem parse_accepts_strict_witness:
  "manifest_wf (written_manifest 7 1 3 [demo_desc] [1] None (Some (0, [])))
   \<and> parse_manifest_bytes (take 92 (demo_image @ [1, 2, 3]) @ [9]) = Inr (written_manifest 7 1 3 [demo_desc] [1] None (Some (0, [])))
   \<and> (\<exists>bs. parse_manifest_bytes bs = Inr (written_manifest 7 1 3 [demo_desc] [5] None (Some (0, []))))"
proof -
  let ?m = "written_manifest 7 1 3 [demo_desc] [1] None (Some (0, []))"
  have l: "manifest_bytes_len ?m = 92"
    by (simp add: manifest_bytes_len_def written_manifest_def manifest_len_def kept_offset_def spans_offset_def chunks_offset_def)
  have "length [5 :: u32] = length (mf_batch_spans ?m)" "?m\<lparr>mf_batch_spans := [5]\<rparr> = written_manifest 7 1 3 [demo_desc] [5] None (Some (0, []))"
    by (simp_all add: written_manifest_def)
  then show ?thesis using parse_accepts_strict [OF demo_image_parses [of "[1, 2, 3]"], of "[9]" "[5]"] l by metis
qed

section \<open>Walking a chain\<close>

text \<open>
  The loop of \<^verbatim>\<open>walk_chain_newest_first\<close>: \<open>read_prev\<close> resolves a link, \<open>stop\<close> is the caller's early
  exit with the state it keeps. The bound on the hops is what makes the loop end.
\<close>

function walk_loop ::
  "manifest \<Rightarrow> (manifest_link \<Rightarrow> artifact_error + manifest) \<Rightarrow> (manifest \<Rightarrow> 's \<Rightarrow> bool \<times> 's)
     \<Rightarrow> manifest \<Rightarrow> nat \<Rightarrow> 's \<Rightarrow> artifact_error + manifest list" where
  "walk_loop hd0 rp stop cur hops s =
     (if length (mf_batch_spans cur) \<ge> 2 ^ 32 then Inl VersionGone
      else let own = of_nat (length (mf_batch_spans cur)) :: u32 in
      if mf_total_batches cur < own then Inl VersionGone
      else if mf_artifact_id cur \<noteq> mf_artifact_id hd0 \<or> mf_schema_id cur \<noteq> mf_schema_id hd0 then Inl VersionGone
      else case mf_prev cur of
        None \<Rightarrow>
          if mf_depth cur \<noteq> 0 \<or> hops \<noteq> unat (mf_depth hd0) \<or> mf_total_batches cur \<noteq> own then Inl VersionGone
          else Inr [cur]
      | Some link \<Rightarrow>
          if hops \<ge> unat (mf_depth hd0) \<or> mf_depth cur = 0 then Inl VersionGone
          else if ml_version link \<ge> mf_version cur \<or> ml_depth link \<noteq> mf_depth cur - 1
            \<or> ml_total_batches link \<noteq> mf_total_batches cur - own then Inl VersionGone
          else case stop cur s of
            (True, _) \<Rightarrow> Inr [cur]
          | (False, s') \<Rightarrow>
              (case rp link of
                 Inl e \<Rightarrow> Inl e
               | Inr p \<Rightarrow>
                   if mf_version p \<noteq> ml_version link \<or> mf_depth p \<noteq> ml_depth link
                     \<or> mf_total_batches p \<noteq> ml_total_batches link then Inl VersionGone
                   else case walk_loop hd0 rp stop p (hops + 1) s' of
                     Inl e \<Rightarrow> Inl e
                   | Inr rest \<Rightarrow> Inr (cur # rest)))"
  by pat_completeness auto

termination
  by (relation "measure (\<lambda>(hd0, _, _, _, hops, _). unat (mf_depth hd0) - hops)") auto

declare walk_loop.simps [simp del]

definition walk_chain_newest_first ::
  "manifest \<Rightarrow> (manifest_link \<Rightarrow> artifact_error + manifest) \<Rightarrow> (manifest \<Rightarrow> 's \<Rightarrow> bool \<times> 's) \<Rightarrow> 's \<Rightarrow> artifact_error + manifest list" where
  "walk_chain_newest_first hd0 rp stop s = walk_loop hd0 rp stop hd0 0 s"

definition walk_chain_with :: "manifest \<Rightarrow> (manifest_link \<Rightarrow> artifact_error + manifest) \<Rightarrow> artifact_error + manifest list" where
  "walk_chain_with hd0 rp =
     (case walk_chain_newest_first hd0 rp (\<lambda>_ u. (False, u)) () of Inl e \<Rightarrow> Inl e | Inr chain \<Rightarrow> Inr (rev chain))"

text \<open>
  A chain, newest first: every manifest links the next, which is what the link says, and the last is
  a root. \<open>rp\<close> resolves each link to the manifest that follows.
\<close>

fun chain_ok :: "(manifest_link \<Rightarrow> artifact_error + manifest) \<Rightarrow> manifest list \<Rightarrow> bool" where
  "chain_ok rp [] = False"
| "chain_ok rp [m] \<longleftrightarrow> mf_prev m = None \<and> mf_depth m = 0 \<and> length (mf_batch_spans m) < 2 ^ 32
     \<and> unat (mf_total_batches m) = length (mf_batch_spans m)"
| "chain_ok rp (m # p # ms) \<longleftrightarrow>
     (\<exists>l. mf_prev m = Some l \<and> rp l = Inr p \<and> ml_version l = mf_version p \<and> ml_depth l = mf_depth p
        \<and> ml_total_batches l = mf_total_batches p)
     \<and> mf_version p < mf_version m \<and> unat (mf_depth m) = unat (mf_depth p) + 1 \<and> length (mf_batch_spans m) < 2 ^ 32
     \<and> unat (mf_total_batches m) = length (mf_batch_spans m) + unat (mf_total_batches p)
     \<and> mf_artifact_id m = mf_artifact_id p \<and> mf_schema_id m = mf_schema_id p \<and> chain_ok rp (p # ms)"

lemma chain_ok_depth: "chain_ok rp (m # ms) \<Longrightarrow> unat (mf_depth m) = length ms"
  by (induction ms arbitrary: m) auto

lemma chain_ok_batches:
  "chain_ok rp (m # ms) \<Longrightarrow> unat (mf_total_batches m) = sum_list (map (\<lambda>x. length (mf_batch_spans x)) (m # ms))"
  by (induction ms arbitrary: m) auto

lemma chain_ok_versions: "chain_ok rp ms \<Longrightarrow> sorted_wrt (\<lambda>a b. mf_version b < mf_version a) ms"
proof (induction rp ms rule: chain_ok.induct)
  case (3 rp m p ms)
  then have s: "sorted_wrt (\<lambda>a b. mf_version b < mf_version a) (p # ms)" and lt: "mf_version p < mf_version m" by auto
  have "mf_version b < mf_version m" if "b \<in> set (p # ms)" for b using that s lt by auto
  then show ?case using s by simp
qed simp_all

abbreviation no_stop :: "manifest \<Rightarrow> unit \<Rightarrow> bool \<times> unit" where
  "no_stop \<equiv> \<lambda>_ u. (False, u)"

lemma total_split: "a \<le> t \<Longrightarrow> d = t - a \<Longrightarrow> unat t = unat a + unat d" for a t d :: u32
  by (simp add: unat_sub word_le_nat_alt)

lemma walk_loop_sound:
  "walk_loop h rp no_stop cur hops () = Inr ms \<Longrightarrow>
     \<exists>rest. ms = cur # rest \<and> chain_ok rp ms \<and> hops + length rest = unat (mf_depth h)
       \<and> mf_artifact_id cur = mf_artifact_id h \<and> mf_schema_id cur = mf_schema_id h"
proof (induction h rp no_stop cur hops "()" arbitrary: ms rule: walk_loop.induct)
  case (1 h rp cur hops)
  let ?own = "of_nat (length (mf_batch_spans cur)) :: u32"
  have fits: "length (mf_batch_spans cur) < 2 ^ 32" and own: "unat ?own = length (mf_batch_spans cur)"
    and tot: "?own \<le> mf_total_batches cur"
    and ids: "mf_artifact_id cur = mf_artifact_id h" "mf_schema_id cur = mf_schema_id h"
    using "1.prems" by (auto simp: walk_loop.simps [of h rp no_stop cur] Let_def unat_of_nat_u32 not_le not_less split: if_splits)
  show ?case
  proof (cases "mf_prev cur")
    case None
    then show ?thesis using "1.prems" ids own fits
      by (auto simp: walk_loop.simps [of h rp no_stop cur] Let_def split: if_splits)
  next
    case (Some l)
    then obtain p rest where c: "hops < unat (mf_depth h)" "mf_depth cur \<noteq> 0" "ml_version l < mf_version cur"
        "ml_depth l = mf_depth cur - 1" "ml_total_batches l = mf_total_batches cur - ?own"
      and p: "rp l = Inr p" "mf_version p = ml_version l" "mf_depth p = ml_depth l" "mf_total_batches p = ml_total_batches l"
      and w: "walk_loop h rp no_stop p (hops + 1) () = Inr rest" "ms = cur # rest"
      using "1.prems" by (auto simp: walk_loop.simps [of h rp no_stop cur] Let_def not_le split: if_splits sum.splits)
    have "\<exists>r. rest = p # r \<and> chain_ok rp rest \<and> hops + 1 + length r = unat (mf_depth h)
        \<and> mf_artifact_id p = mf_artifact_id h \<and> mf_schema_id p = mf_schema_id h"
      using "1.hyps" [OF _ refl _ _ Some _ _ refl refl p(1) _ w(1)] c p fits tot ids by simp
    then obtain r where r: "rest = p # r" "chain_ok rp rest" "hops + 1 + length r = unat (mf_depth h)"
      "mf_artifact_id p = mf_artifact_id h" "mf_schema_id p = mf_schema_id h" by blast
    have "unat (mf_depth cur) = unat (mf_depth p) + 1" using c(2,4) p(3) by (simp add: unat_pred_word unat_gt_0)
    moreover have "unat (mf_total_batches cur) = length (mf_batch_spans cur) + unat (mf_total_batches p)"
      using total_split [OF tot c(5)] p(4) own by simp
    ultimately show ?thesis using Some c p w r ids fits by auto
  qed
qed

lemma walk_loop_complete:
  "chain_ok rp (cur # ms) \<Longrightarrow> hops + length ms = unat (mf_depth h) \<Longrightarrow> mf_artifact_id cur = mf_artifact_id h
    \<Longrightarrow> mf_schema_id cur = mf_schema_id h \<Longrightarrow> walk_loop h rp no_stop cur hops () = Inr (cur # ms)"
proof (induction ms arbitrary: cur hops)
  case Nil
  have "mf_total_batches cur = of_nat (length (mf_batch_spans cur))"
    using Nil.prems(1) by (simp add: word_unat_eq_iff unat_of_nat_u32)
  then show ?case using Nil.prems by (simp add: walk_loop.simps [of h rp no_stop cur])
next
  case (Cons p ms)
  obtain l where l: "mf_prev cur = Some l" "rp l = Inr p" "ml_version l = mf_version p" "ml_depth l = mf_depth p"
    "ml_total_batches l = mf_total_batches p" using Cons.prems(1) by auto
  have c: "mf_version p < mf_version cur" "unat (mf_depth cur) = unat (mf_depth p) + 1" "length (mf_batch_spans cur) < 2 ^ 32"
    "unat (mf_total_batches cur) = length (mf_batch_spans cur) + unat (mf_total_batches p)"
    "mf_artifact_id cur = mf_artifact_id p" "mf_schema_id cur = mf_schema_id p" "chain_ok rp (p # ms)"
    using Cons.prems(1) by auto
  have own: "unat (of_nat (length (mf_batch_spans cur)) :: u32) = length (mf_batch_spans cur)"
    using c(3) by (rule unat_of_nat_u32)
  have le: "of_nat (length (mf_batch_spans cur)) \<le> mf_total_batches cur" using c(4) own by (simp add: word_le_nat_alt)
  have nz: "mf_depth cur \<noteq> 0" using c(2) by auto
  have d: "mf_depth p = mf_depth cur - 1" using c(2) nz by (simp add: word_unat_eq_iff unat_pred_word)
  have t: "mf_total_batches p = mf_total_batches cur - of_nat (length (mf_batch_spans cur))"
    using c(4) own le by (simp add: word_unat_eq_iff unat_sub)
  have "walk_loop h rp no_stop p (hops + 1) () = Inr (p # ms)"
    using Cons.prems c by (intro Cons.IH) auto
  then show ?case using l c(1,3) le nz d t Cons.prems
    by (simp add: walk_loop.simps [of h rp no_stop cur] Let_def not_le not_less)
qed

text \<open>
  C29: Walking the chain of a manifest always ends, and returns a list exactly when the list is a
  well-formed chain that ends in that manifest: from a root on, each manifest links its
  predecessor with the right version, depth and batch total, and versions only grow.
\<close>

theorem walk_chain_exact:
  "walk_chain_with m rp = Inr ms \<longleftrightarrow> ms \<noteq> [] \<and> last ms = m \<and> chain_ok rp (rev ms)"
proof
  assume "walk_chain_with m rp = Inr ms"
  then have "walk_loop m rp no_stop m 0 () = Inr (rev ms)"
    by (auto simp: walk_chain_with_def walk_chain_newest_first_def split: sum.splits)
  then show "ms \<noteq> [] \<and> last ms = m \<and> chain_ok rp (rev ms)"
    using walk_loop_sound [of m rp m 0 "rev ms"] by (auto simp: rev_eq_Cons_iff)
next
  assume c: "ms \<noteq> [] \<and> last ms = m \<and> chain_ok rp (rev ms)"
  then obtain rest where r: "rev ms = m # rest" by (metis rev_exhaust append_is_Nil_conv last_snoc rev_append rev_singleton_conv append_Cons append_Nil)
  then have "walk_loop m rp no_stop m 0 () = Inr (m # rest)"
    using c chain_ok_depth [of rp m rest] by (intro walk_loop_complete) simp_all
  then show "walk_chain_with m rp = Inr ms"
    using r by (simp add: walk_chain_with_def walk_chain_newest_first_def)
qed

end
