(* ===== verification/Shm_Catalog.thy ===== *)
theory Shm_Catalog
  imports Shm_Manifest Shm_Treiber
begin

text \<open>
  \<^verbatim>\<open>crates/shm-store/src/catalog.rs\<close>: the directory of the keyed store, an array of slots that
  go \<open>FREE\<close>, \<open>LIVE\<close>, \<open>TOMBSTONE\<close>, \<open>RECLAIMING\<close> and back to \<open>FREE\<close>, with the free list that recycles
  them. The state of a slot shares one word with the incarnation of its next occupant. The slot's
  transitions run to completion, as their exchanges do; the sweep's \<open>quiescent\<close> closure is a
  parameter that threads whatever memory it drives. Shown: the invariant of the catalog over every
  run of creators, evictors and sweeps; an occupant's identity is never given out twice; an
  eviction by incarnation hits its own occupant only; and what \<^verbatim>\<open>KeyedStore::evict\<close> makes of that.
\<close>

section \<open>Constants, kinds, errors\<close>

definition CATALOG_MAGIC :: u64 where "CATALOG_MAGIC = from_le_bytes (ascii ''SHMSTOR3'')"
definition CAT_FREE :: u32 where "CAT_FREE = 0"
definition CAT_LIVE :: u32 where "CAT_LIVE = 1"
definition CAT_TOMBSTONE :: u32 where "CAT_TOMBSTONE = 2"
definition CAT_RECLAIMING :: u32 where "CAT_RECLAIMING = 3"
definition FREE_NIL :: u32 where "FREE_NIL = 0xffffffff"
definition FIRST_GEN :: u32 where "FIRST_GEN = 1"

lemmas cat_states = CAT_FREE_def CAT_LIVE_def CAT_TOMBSTONE_def CAT_RECLAIMING_def

definition pack_free_head :: "u32 \<Rightarrow> u32 \<Rightarrow> u64" where
  "pack_free_head idx tag = push_bit 32 (ucast tag) OR ucast idx"

datatype ref_kind = RawChunk | Object | Artifact | Dataset | Result

text \<open>The errors of the store that its own code raises; those of the crates below are wrapped.\<close>

datatype store_error =
    KeyTooLong nat
  | NotFound
  | CatalogFull u32
  | BadCatalog
  | BadKind u16
  | BadEnvelope
  | NotEnvelope u32
  | NotResolvable
  | StoreVersionMismatch u64 u64
  | StoreCore shm_error
  | StoreArrow arrow_error
  | StoreArtifact artifact_error
  | Intern string

definition as_u16 :: "ref_kind \<Rightarrow> u16" where
  "as_u16 k = (case k of RawChunk \<Rightarrow> 0 | Object \<Rightarrow> 1 | Artifact \<Rightarrow> 2 | Dataset \<Rightarrow> 3 | Result \<Rightarrow> 4)"

definition from_u16 :: "u16 \<Rightarrow> store_error + ref_kind" where
  "from_u16 v =
     (if v = 0 then Inr RawChunk else if v = 1 then Inr Object else if v = 2 then Inr Artifact
      else if v = 3 then Inr Dataset else if v = 4 then Inr Result else Inl (BadKind v))"

section \<open>Slots\<close>

record catalog_slot =
  cs_key_id :: u32
  cs_artifact_id :: u32
  cs_head_off :: u32
  cs_kind :: u32
  cs_word :: u64
  cs_next_free :: u32

definition pack_slot_word :: "u32 \<Rightarrow> u32 \<Rightarrow> u64" where
  "pack_slot_word g st = push_bit 32 (ucast g) OR ucast st"

definition slot_word_gen :: "u64 \<Rightarrow> u32" where
  "slot_word_gen w = ucast (drop_bit 32 w)"

definition slot_word_state :: "u64 \<Rightarrow> u32" where
  "slot_word_state w = ucast w"

definition cs_state :: "catalog_slot \<Rightarrow> u32" where
  "cs_state s = slot_word_state (cs_word s)"

definition cs_gen :: "catalog_slot \<Rightarrow> u32" where
  "cs_gen s = slot_word_gen (cs_word s)"

definition slot_kind :: "catalog_slot \<Rightarrow> store_error + ref_kind" where
  "slot_kind s = from_u16 (ucast (cs_kind s))"

definition write_fields :: "u32 \<Rightarrow> u32 \<Rightarrow> u32 \<Rightarrow> ref_kind \<Rightarrow> catalog_slot \<Rightarrow> catalog_slot" where
  "write_fields k a off kind s =
     s\<lparr>cs_key_id := k, cs_artifact_id := a, cs_head_off := off, cs_kind := ucast (as_u16 kind)\<rparr>"

text \<open>The exchange of \<^verbatim>\<open>cas_state\<close> expects the word it has just loaded, so uninterrupted it succeeds at once.\<close>

definition cat_cas_state :: "u32 \<Rightarrow> u32 \<Rightarrow> catalog_slot \<Rightarrow> bool \<times> catalog_slot" where
  "cat_cas_state from to s =
     (let cur = cs_word s in
      if slot_word_state cur \<noteq> from then (False, s)
      else case compare_exchange (cs_word s) cur (pack_slot_word (slot_word_gen cur) to) of
        (ok, w) \<Rightarrow> (ok, s\<lparr>cs_word := w\<rparr>))"

definition slot_publish :: "catalog_slot \<Rightarrow> bool \<times> catalog_slot" where
  "slot_publish = cat_cas_state CAT_FREE CAT_LIVE"

definition tombstone_gen :: "u32 \<Rightarrow> catalog_slot \<Rightarrow> bool \<times> catalog_slot" where
  "tombstone_gen g s =
     (case compare_exchange (cs_word s) (pack_slot_word g CAT_LIVE) (pack_slot_word g CAT_TOMBSTONE) of
        (ok, w) \<Rightarrow> (ok, s\<lparr>cs_word := w\<rparr>))"

definition tombstone :: "catalog_slot \<Rightarrow> bool \<times> catalog_slot" where
  "tombstone = cat_cas_state CAT_LIVE CAT_TOMBSTONE"

definition begin_reclaim :: "catalog_slot \<Rightarrow> bool \<times> catalog_slot" where
  "begin_reclaim = cat_cas_state CAT_TOMBSTONE CAT_RECLAIMING"

definition abort_reclaim :: "catalog_slot \<Rightarrow> catalog_slot" where
  "abort_reclaim s = s\<lparr>cs_word := pack_slot_word (slot_word_gen (cs_word s)) CAT_TOMBSTONE\<rparr>"

definition finish_reclaim :: "catalog_slot \<Rightarrow> u32 option \<times> catalog_slot" where
  "finish_reclaim s =
     (let g = slot_word_gen (cs_word s) in
      if g = - 1 then (None, s)
      else (Some (g + 1), s\<lparr>cs_key_id := 0, cs_word := pack_slot_word (g + 1) CAT_FREE\<rparr>))"

section \<open>The catalog\<close>

record catalog =
  cat_magic :: u64
  cat_capacity :: u32
  next_slot :: u32
  head_stride :: u32
  artifact_id_base :: u32
  free_head :: u64
  cslots :: "catalog_slot list"

definition cat_slots_offset :: nat where
  "cat_slots_offset = align_up 32 4"

definition cat_required_bytes :: "u32 \<Rightarrow> nat" where
  "cat_required_bytes cap = cat_slots_offset + unat cap * 32"

definition cat_segment_bytes :: "u32 \<Rightarrow> nat" where
  "cat_segment_bytes cap = HEADER_SIZE + cat_required_bytes cap"

definition catalog_attach :: "catalog \<Rightarrow> store_error + catalog" where
  "catalog_attach c = (if cat_magic c \<noteq> CATALOG_MAGIC then Inl BadCatalog else Inr c)"

definition catalog_init :: "segment \<Rightarrow> u32 \<Rightarrow> u32 \<Rightarrow> u32 \<Rightarrow> store_error + catalog" where
  "catalog_init sg cap stride base =
     (if cat_required_bytes cap > payload_len sg
      then Inl (StoreCore (LayoutOverflow ''catalog does not fit in segment''))
      else catalog_attach
        \<lparr>cat_magic = CATALOG_MAGIC, cat_capacity = cap, next_slot = 0, head_stride = stride,
         artifact_id_base = base, free_head = pack_free_head FREE_NIL 0,
         cslots = replicate (unat cap)
           \<lparr>cs_key_id = 0, cs_artifact_id = 0, cs_head_off = 0, cs_kind = 0,
            cs_word = pack_slot_word FIRST_GEN CAT_FREE, cs_next_free = FREE_NIL\<rparr>\<rparr>)"

definition cat_slot :: "catalog \<Rightarrow> u32 \<Rightarrow> catalog_slot" where
  "cat_slot c idx = cslots c ! unat idx"

definition set_cat_slot :: "u32 \<Rightarrow> catalog_slot \<Rightarrow> catalog \<Rightarrow> catalog" where
  "set_cat_slot idx s c = c\<lparr>cslots := (cslots c)[unat idx := s]\<rparr>"

definition cat_pop_free :: "catalog \<Rightarrow> u32 option \<times> catalog" where
  "cat_pop_free c =
     (case treiber_pop (free_head c) (\<lambda>idx. cs_next_free (cat_slot c idx)) of
        (r, h) \<Rightarrow> (r, c\<lparr>free_head := h\<rparr>))"

definition write_next_free :: "u32 \<Rightarrow> u32 \<Rightarrow> catalog_slot list \<Rightarrow> catalog_slot list" where
  "write_next_free idx nx ss = ss[unat idx := (ss ! unat idx)\<lparr>cs_next_free := nx\<rparr>]"

definition cat_push_free :: "u32 \<Rightarrow> catalog \<Rightarrow> catalog" where
  "cat_push_free idx c =
     (case treiber_push (free_head c) idx write_next_free (cslots c) of
        (h, ss) \<Rightarrow> c\<lparr>free_head := h, cslots := ss\<rparr>)"

definition alloc_slot :: "catalog \<Rightarrow> (store_error + u32) \<times> catalog" where
  "alloc_slot c =
     (case cat_pop_free c of
        (Some idx, c') \<Rightarrow> (Inr idx, c')
      | (None, c') \<Rightarrow>
          let idx = next_slot c'; c1 = c'\<lparr>next_slot := next_slot c' + 1\<rparr> in
          if idx \<ge> cat_capacity c1
          then (Inl (CatalogFull (cat_capacity c1)), c1\<lparr>next_slot := next_slot c1 - 1\<rparr>)
          else (Inr idx, c1))"

text \<open>\<open>quiescent\<close> gets the slot's artifact id and head offset and the memory of the heads.\<close>

definition try_reclaim_slot :: "u32 \<Rightarrow> (u32 \<Rightarrow> u32 \<Rightarrow> 'h \<Rightarrow> bool \<times> 'h) \<Rightarrow> catalog \<times> 'h \<Rightarrow> bool \<times> catalog \<times> 'h" where
  "try_reclaim_slot idx quiescent ch =
     (case ch of (c, h) \<Rightarrow>
      case begin_reclaim (cat_slot c idx) of
        (False, _) \<Rightarrow> (False, c, h)
      | (True, s1) \<Rightarrow>
          (case quiescent (cs_artifact_id s1) (cs_head_off s1) h of (q, h') \<Rightarrow>
           if \<not> q then (False, set_cat_slot idx (abort_reclaim s1) c, h')
           else case finish_reclaim s1 of
               (Some _, s2) \<Rightarrow> (True, cat_push_free idx (set_cat_slot idx s2 c), h')
             | (None, s2) \<Rightarrow> (False, set_cat_slot idx s2 c, h')))"

primrec reclaim_loop :: "u32 list \<Rightarrow> (u32 \<Rightarrow> u32 \<Rightarrow> 'h \<Rightarrow> bool \<times> 'h) \<Rightarrow> catalog \<times> 'h \<Rightarrow> nat \<times> catalog \<times> 'h" where
  "reclaim_loop [] quiescent ch = (0, ch)"
| "reclaim_loop (idx # is) quiescent ch =
     (case (if cs_state (cat_slot (fst ch) idx) = CAT_TOMBSTONE then try_reclaim_slot idx quiescent ch
            else (False, ch)) of (freed, ch1) \<Rightarrow>
      case reclaim_loop is quiescent ch1 of (n, ch2) \<Rightarrow> (if freed then n + 1 else n, ch2))"

definition scan_indices :: "catalog \<Rightarrow> u32 list" where
  "scan_indices c = map of_nat [0 ..< unat (min (next_slot c) (cat_capacity c))]"

definition reclaim_tombstones :: "(u32 \<Rightarrow> u32 \<Rightarrow> 'h \<Rightarrow> bool \<times> 'h) \<Rightarrow> catalog \<times> 'h \<Rightarrow> nat \<times> catalog \<times> 'h" where
  "reclaim_tombstones quiescent ch = reclaim_loop (scan_indices (fst ch)) quiescent ch"

definition head_off_for :: "catalog \<Rightarrow> u32 \<Rightarrow> u32" where
  "head_off_for c idx = idx * head_stride c"

definition artifact_id_for :: "catalog \<Rightarrow> u32 \<Rightarrow> u32" where
  "artifact_id_for c idx = artifact_id_base c + idx"

definition publish_slot :: "u32 \<Rightarrow> u32 \<Rightarrow> ref_kind \<Rightarrow> catalog \<Rightarrow> (u32 \<times> u32) \<times> catalog" where
  "publish_slot idx k kind c =
     (let a = artifact_id_for c idx; off = head_off_for c idx;
          s = write_fields k a off kind (cat_slot c idx)
      in ((a, off), set_cat_slot idx (snd (slot_publish s)) c))"

fun find_live_loop :: "u32 list \<Rightarrow> u32 \<Rightarrow> catalog \<Rightarrow> u32 option" where
  "find_live_loop [] k c = None"
| "find_live_loop (idx # is) k c =
     (if cs_state (cat_slot c idx) = CAT_LIVE \<and> cs_key_id (cat_slot c idx) = k then Some idx
      else find_live_loop is k c)"

definition find_live_by_key :: "u32 \<Rightarrow> catalog \<Rightarrow> u32 option" where
  "find_live_by_key k c = find_live_loop (scan_indices c) k c"

definition slot_for_artifact_id :: "u32 \<Rightarrow> catalog \<Rightarrow> u32 option" where
  "slot_for_artifact_id a c =
     (let base = artifact_id_base c in
      if a < base then None
      else let idx = a - base in
        if idx \<ge> min (next_slot c) (cat_capacity c) then None
        else if cs_artifact_id (cat_slot c idx) = a then Some idx else None)"

interpretation sw: packed_word pack_slot_word slot_word_gen slot_word_state
proof -
  have "pack_slot_word = pack_halves" "slot_word_gen = high_half" "slot_word_state = low_half"
    by (simp_all add: fun_eq_iff pack_slot_word_def pack_halves_def slot_word_gen_def high_half_def
        slot_word_state_def low_half_def)
  then show "packed_word pack_slot_word slot_word_gen slot_word_state"
    by (simp add: halves.packed_word_axioms)
qed

lemma pack_free_head_eq: "pack_free_head idx tag = head_pack tag idx"
  by (simp add: pack_free_head_def head_pack_def)

lemma FREE_NIL_EMPTY: "FREE_NIL = EMPTY"
  by (simp add: FREE_NIL_def EMPTY_def)
section \<open>Slot transitions\<close>

interpretation cat_links: intrusive_links "\<lambda>ss i. cs_next_free (ss ! unat i)" write_next_free
  "\<lambda>ss i. unat i < length ss \<and> i \<noteq> EMPTY"
  by unfold_locales (auto simp: write_next_free_def nth_list_update word_unat_eq_iff)

lemma cat_slot_set [simp]:
  "unat i < length (cslots c) \<Longrightarrow> cat_slot (set_cat_slot i s c) j = (if j = i then s else cat_slot c j)"
  by (auto simp: cat_slot_def set_cat_slot_def nth_list_update word_unat_eq_iff)

lemma set_cat_slot_sel [simp]:
  "cat_capacity (set_cat_slot i s c) = cat_capacity c" "next_slot (set_cat_slot i s c) = next_slot c"
  "free_head (set_cat_slot i s c) = free_head c" "length (cslots (set_cat_slot i s c)) = length (cslots c)"
  "head_stride (set_cat_slot i s c) = head_stride c" "artifact_id_base (set_cat_slot i s c) = artifact_id_base c"
  by (simp_all add: set_cat_slot_def)

lemma cat_cas_state_iff:
  "cat_cas_state a b s = (if cs_state s = a then (True, s\<lparr>cs_word := pack_slot_word (cs_gen s) b\<rparr>) else (False, s))"
  by (simp add: cat_cas_state_def cs_state_def cs_gen_def Let_def compare_exchange_def)

lemma cs_word_upd [simp]:
  "cs_state (s\<lparr>cs_word := pack_slot_word g st\<rparr>) = st" "cs_gen (s\<lparr>cs_word := pack_slot_word g st\<rparr>) = g"
  by (simp_all add: cs_state_def cs_gen_def)

lemma tombstone_gen_iff:
  "tombstone_gen g s = (if cs_gen s = g \<and> cs_state s = CAT_LIVE then (True, s\<lparr>cs_word := pack_slot_word g CAT_TOMBSTONE\<rparr>)
     else (False, s))"
  by (auto simp: tombstone_gen_def compare_exchange_def cs_state_def cs_gen_def sw.word_eq_pack_iff)

section \<open>Runs of creators, evictors and sweeps\<close>

text \<open>
  One operation of whatever process. A creator allocates an index, holds it while it initialises the
  head, and publishes it; evictors and sweeps name slots they have scanned. \<open>cy_log\<close> records the
  identity, index and incarnation, of every occupant published.
\<close>

datatype cat_op =
    CAlloc
  | CPublish u32 u32 ref_kind
  | CTombstoneGen u32 u32
  | CTombstone u32
  | CReclaim u32 bool
  | CSweep "u32 \<Rightarrow> u32 \<Rightarrow> bool"

record cat_sys =
  cy_cat :: catalog
  cy_held :: "u32 list"
  cy_log :: "(u32 \<times> u32) list"

definition cat_sys_of :: "catalog \<Rightarrow> cat_sys" where
  "cat_sys_of c = \<lparr>cy_cat = c, cy_held = [], cy_log = []\<rparr>"

fun cat_act :: "cat_op \<Rightarrow> cat_sys \<Rightarrow> cat_sys" where
  "cat_act CAlloc y =
     (case alloc_slot (cy_cat y) of
        (Inr idx, c) \<Rightarrow> y\<lparr>cy_cat := c, cy_held := idx # cy_held y\<rparr>
      | (Inl _, c) \<Rightarrow> y\<lparr>cy_cat := c\<rparr>)"
| "cat_act (CPublish idx k kind) y =
     (if idx \<in> set (cy_held y)
      then y\<lparr>cy_cat := snd (publish_slot idx k kind (cy_cat y)), cy_held := remove1 idx (cy_held y),
             cy_log := (idx, cs_gen (cat_slot (cy_cat y) idx)) # cy_log y\<rparr>
      else y)"
| "cat_act (CTombstoneGen idx g) y =
     (if idx < next_slot (cy_cat y)
      then y\<lparr>cy_cat := set_cat_slot idx (snd (tombstone_gen g (cat_slot (cy_cat y) idx))) (cy_cat y)\<rparr> else y)"
| "cat_act (CTombstone idx) y =
     (if idx < next_slot (cy_cat y)
      then y\<lparr>cy_cat := set_cat_slot idx (snd (tombstone (cat_slot (cy_cat y) idx))) (cy_cat y)\<rparr> else y)"
| "cat_act (CReclaim idx q) y =
     (if idx < next_slot (cy_cat y)
      then y\<lparr>cy_cat := fst (snd (try_reclaim_slot idx (\<lambda>_ _ u. (q, u)) (cy_cat y, ())))\<rparr> else y)"
| "cat_act (CSweep q) y =
     y\<lparr>cy_cat := fst (snd (reclaim_tombstones (\<lambda>a off u. (q a off, u)) (cy_cat y, ())))\<rparr>"

definition cat_run :: "cat_op list \<Rightarrow> cat_sys \<Rightarrow> cat_sys" where
  "cat_run = fold cat_act"

section \<open>The invariant\<close>

abbreviation cat_next :: "catalog \<Rightarrow> u32 \<Rightarrow> u32" where
  "cat_next c \<equiv> \<lambda>i. cs_next_free (cslots c ! unat i)"

text \<open>What a slot's word says about where its index is and which occupants it has had.\<close>

definition slot_ok :: "catalog \<Rightarrow> u32 set \<Rightarrow> (u32 \<times> u32) set \<Rightarrow> u32 \<Rightarrow> catalog_slot \<Rightarrow> bool" where
  "slot_ok c F L i s \<longleftrightarrow>
     (if i < next_slot c
      then cs_state s \<in> {CAT_FREE, CAT_LIVE, CAT_TOMBSTONE, CAT_RECLAIMING} \<and> (cs_state s = CAT_FREE \<longleftrightarrow> i \<in> F)
        \<and> (cs_state s \<noteq> CAT_FREE \<longrightarrow> cs_artifact_id s = artifact_id_for c i \<and> cs_head_off s = head_off_for c i)
      else cs_state s = CAT_FREE \<and> i \<notin> F)
     \<and> (\<forall>g. (i, g) \<in> L \<longrightarrow> g \<le> cs_gen s \<and> (cs_state s = CAT_FREE \<longrightarrow> g < cs_gen s))"

definition catalog_ok :: "catalog \<Rightarrow> u32 list \<Rightarrow> u32 list \<Rightarrow> (u32 \<times> u32) list \<Rightarrow> bool" where
  "catalog_ok c held fs log \<longleftrightarrow>
     length (cslots c) = unat (cat_capacity c) \<and> next_slot c \<le> cat_capacity c
     \<and> stack_of (cat_next c) (free_head c) fs \<and> distinct (held @ fs)
     \<and> (\<forall>i\<in>set held \<union> set fs. i < next_slot c) \<and> distinct log
     \<and> (\<forall>i < cat_capacity c. slot_ok c (set held \<union> set fs) (set log) i (cat_slot c i))"

lemma idx_in_range: "length (cslots c) = unat (cat_capacity c) \<Longrightarrow> i < cat_capacity c \<Longrightarrow> unat i < length (cslots c)"
  by (simp add: word_less_nat_alt)

lemma slot_not_nil: "i < (cap :: u32) \<Longrightarrow> i \<noteq> EMPTY"
proof
  assume "i < cap" "i = EMPTY"
  then have "unat cap > 4294967295" by (simp add: word_less_nat_alt EMPTY_def)
  then show False using unat_u32_less [of cap] by simp
qed

lemma slot_ok_other:
  assumes "slot_ok c F L j s" and "j \<in> F' \<longleftrightarrow> j \<in> F" and "\<And>g. (j, g) \<in> L' \<longleftrightarrow> (j, g) \<in> L"
  shows "slot_ok c F' L' j s"
  using assms by (auto simp: slot_ok_def)

lemma slot_ok_set [simp]: "slot_ok (set_cat_slot i s c) = slot_ok c"
  by (simp add: fun_eq_iff slot_ok_def artifact_id_for_def head_off_for_def)

text \<open>A slot may change to anything that fits its index, with the owners and the log of that index changed along.\<close>

lemma catalog_ok_set:
  assumes ok: "catalog_ok c held fs log" and i: "i < next_slot c"
    and nf: "cs_next_free s = cs_next_free (cat_slot c i)"
    and new: "slot_ok c (set held' \<union> set fs) (set log') i s"
    and own: "distinct (held' @ fs)" "\<And>j. j \<noteq> i \<Longrightarrow> j \<in> set held' \<longleftrightarrow> j \<in> set held"
    and lg: "distinct log'" "\<And>j g. j \<noteq> i \<Longrightarrow> (j, g) \<in> set log' \<longleftrightarrow> (j, g) \<in> set log"
  shows "catalog_ok (set_cat_slot i s c) held' fs log'"
proof -
  have len: "unat i < length (cslots c)"
    using ok i by (intro idx_in_range) (auto simp: catalog_ok_def)
  have "cat_next (set_cat_slot i s c) j = cat_next c j" for j
    using nf len by (simp add: set_cat_slot_def cat_slot_def nth_list_update word_unat_eq_iff)
  then have st: "stack_of (cat_next (set_cat_slot i s c)) (free_head c) fs"
    using ok by (simp add: catalog_ok_def)
  have "slot_ok c (set held' \<union> set fs) (set log') j (cat_slot c j)" if "j < cat_capacity c" "j \<noteq> i" for j
  proof (rule slot_ok_other)
    show "slot_ok c (set held \<union> set fs) (set log) j (cat_slot c j)" using ok that by (simp add: catalog_ok_def)
  qed (use that own(2) [of j] lg(2) [of j] in auto)
  then have slots: "\<forall>j < cat_capacity c. slot_ok c (set held' \<union> set fs) (set log') j (cat_slot (set_cat_slot i s c) j)"
    using new len by simp
  have "\<forall>j\<in>set held' \<union> set fs. j < next_slot c"
  proof
    fix j assume "j \<in> set held' \<union> set fs"
    then show "j < next_slot c" using ok i own(2) [of j] by (cases "j = i") (auto simp: catalog_ok_def)
  qed
  then show ?thesis using ok st slots own(1) lg(1) unfolding catalog_ok_def by simp
qed

lemma catalog_ok_slot: "catalog_ok c held fs log \<Longrightarrow> i < next_slot c \<Longrightarrow> slot_ok c (set held \<union> set fs) (set log) i (cat_slot c i)"
  by (auto simp: catalog_ok_def)

text \<open>A transition that keeps the incarnation and does not touch \<open>FREE\<close> keeps everything.\<close>

lemma catalog_ok_restate:
  assumes ok: "catalog_ok c held fs log" and i: "i < next_slot c"
    and st: "cs_state (cat_slot c i) \<noteq> CAT_FREE" and to: "to \<in> {CAT_LIVE, CAT_TOMBSTONE, CAT_RECLAIMING}"
  shows "catalog_ok (set_cat_slot i ((cat_slot c i)\<lparr>cs_word := pack_slot_word (cs_gen (cat_slot c i)) to\<rparr>) c) held fs log"
proof (rule catalog_ok_set [OF ok i])
  show "slot_ok c (set held \<union> set fs) (set log) i ((cat_slot c i)\<lparr>cs_word := pack_slot_word (cs_gen (cat_slot c i)) to\<rparr>)"
    using catalog_ok_slot [OF ok i] st to i by (auto simp: slot_ok_def cat_states)
qed (use ok in \<open>auto simp: catalog_ok_def\<close>)

lemma set_cat_slot_same: "set_cat_slot i (cat_slot c i) c = c"
  by (simp add: set_cat_slot_def cat_slot_def)

lemma tombstone_ok:
  assumes "catalog_ok c held fs log" and "i < next_slot c"
  shows "catalog_ok (set_cat_slot i (snd (tombstone (cat_slot c i))) c) held fs log"
    and "catalog_ok (set_cat_slot i (snd (tombstone_gen g (cat_slot c i))) c) held fs log"
  using catalog_ok_restate [OF assms, of CAT_TOMBSTONE] assms(1)
  by (auto simp: tombstone_def cat_cas_state_iff tombstone_gen_iff set_cat_slot_same cat_states)

lemma publish_ok:
  assumes ok: "catalog_ok c held fs log" and i: "i \<in> set held"
  shows "catalog_ok (snd (publish_slot i k kind c)) (remove1 i held) fs ((i, cs_gen (cat_slot c i)) # log)"
proof -
  have lt: "i < next_slot c" and d: "distinct held" "i \<notin> set fs" using ok i by (auto simp: catalog_ok_def)
  have so: "slot_ok c (set held \<union> set fs) (set log) i (cat_slot c i)" by (rule catalog_ok_slot [OF ok lt])
  then have free: "cs_state (cat_slot c i) = CAT_FREE" and new: "(i, cs_gen (cat_slot c i)) \<notin> set log"
    using lt i by (auto simp: slot_ok_def)
  let ?s = "snd (slot_publish (write_fields k (artifact_id_for c i) (head_off_for c i) kind (cat_slot c i)))"
  have s: "cs_state ?s = CAT_LIVE" "cs_gen ?s = cs_gen (cat_slot c i)" "cs_artifact_id ?s = artifact_id_for c i"
    "cs_head_off ?s = head_off_for c i" "cs_next_free ?s = cs_next_free (cat_slot c i)"
    using free by (simp_all add: slot_publish_def cat_cas_state_iff write_fields_def cs_state_def cs_gen_def)
  have "catalog_ok (set_cat_slot i ?s c) (remove1 i held) fs ((i, cs_gen (cat_slot c i)) # log)"
  proof (rule catalog_ok_set [OF ok lt])
    show "slot_ok c (set (remove1 i held) \<union> set fs) (set ((i, cs_gen (cat_slot c i)) # log)) i ?s"
      using so s d lt by (auto simp: slot_ok_def cat_states)
  qed (use ok s new d in \<open>auto simp: catalog_ok_def distinct_remove1\<close>)
  then show ?thesis by (simp add: publish_slot_def Let_def)
qed

lemma unat_bump:
  assumes "i < (cap :: u32)"
  shows "unat (i + 1) = unat i + 1"
proof -
  have "EMPTY = - 1" by (simp add: EMPTY_def)
  then have "i \<noteq> - 1" using slot_not_nil [OF assms] by simp
  then show ?thesis by (simp add: unat_Suc_word)
qed

lemma catalog_ok_range:
  assumes "catalog_ok c held fs log" and "i < next_slot c"
  shows "i < cat_capacity c" and "unat i < length (cslots c)"
proof -
  show "i < cat_capacity c" using assms by (auto simp: catalog_ok_def)
  then show "unat i < length (cslots c)" using assms by (intro idx_in_range) (auto simp: catalog_ok_def)
qed

lemma slot_ok_bump:
  assumes "slot_ok c F L j s" and "next_slot c < cat_capacity c"
  shows "slot_ok (c\<lparr>next_slot := next_slot c + 1\<rparr>) (insert (next_slot c) F) L j s"
proof -
  have "unat (next_slot c + 1) = unat (next_slot c) + 1" by (rule unat_bump [OF assms(2)])
  then have "j < next_slot c + 1 \<longleftrightarrow> j < next_slot c \<or> j = next_slot c"
    by (auto simp: word_less_nat_alt word_unat_eq_iff)
  then show ?thesis using assms(1)
    by (auto simp: slot_ok_def artifact_id_for_def head_off_for_def cat_states split: if_splits)
qed

text \<open>
  What a creator gets: an index nobody holds, whose slot is free, and the rest of the table
  untouched; or the error, exactly when no index is left.
\<close>

lemma alloc_slot_ok:
  assumes ok: "catalog_ok c held fs log"
  shows "(\<exists>i c' fs'. alloc_slot c = (Inr i, c') \<and> catalog_ok c' (i # held) fs' log \<and> cslots c' = cslots c
           \<and> i \<notin> set held \<and> cs_state (cat_slot c i) = CAT_FREE)
       \<or> alloc_slot c = (Inl (CatalogFull (cat_capacity c)), c) \<and> fs = [] \<and> next_slot c = cat_capacity c"
proof (cases fs)
  case (Cons i fs')
  have st: "stack_of (cat_next c) (free_head c) (i # fs')" using ok Cons by (simp add: catalog_ok_def)
  obtain h where h: "treiber_pop (free_head c) (cat_next c) = (Some i, h)" "stack_of (cat_next c) h fs'"
    using pop_Cons [OF st] by blast
  have a: "alloc_slot c = (Inr i, c\<lparr>free_head := h\<rparr>)" using h(1) by (simp add: alloc_slot_def cat_pop_free_def cat_slot_def)
  have "slot_ok (c\<lparr>free_head := h\<rparr>) = slot_ok c"
    by (simp add: fun_eq_iff slot_ok_def artifact_id_for_def head_off_for_def)
  moreover have "set (i # held) \<union> set fs' = set held \<union> set fs" using Cons by auto
  ultimately have "catalog_ok (c\<lparr>free_head := h\<rparr>) (i # held) fs' log"
    using ok h(2) Cons unfolding catalog_ok_def by (simp add: cat_slot_def)
  moreover have "i \<notin> set held" "cs_state (cat_slot c i) = CAT_FREE"
    using ok Cons catalog_ok_slot [OF ok, of i] by (auto simp: catalog_ok_def slot_ok_def)
  ultimately show ?thesis using a by auto
next
  case Nil
  have p: "treiber_pop (free_head c) (cat_next c) = (None, free_head c)"
    using ok Nil by (auto simp: catalog_ok_def)
  show ?thesis
  proof (cases "cat_capacity c \<le> next_slot c")
    case True
    have "next_slot c = cat_capacity c" using ok True by (simp add: catalog_ok_def)
    moreover have "alloc_slot c = (Inl (CatalogFull (cat_capacity c)), c)"
      using p True by (simp add: alloc_slot_def cat_pop_free_def cat_slot_def Let_def)
    ultimately show ?thesis using Nil by blast
  next
    case False
    let ?c = "c\<lparr>next_slot := next_slot c + 1\<rparr>" and ?i = "next_slot c"
    have lt: "?i < cat_capacity c" using False by simp
    have u: "unat (next_slot c + 1) = unat (next_slot c) + 1" by (rule unat_bump [OF lt])
    have le: "?i + 1 \<le> cat_capacity c" "\<And>j. j < ?i \<Longrightarrow> j < ?i + 1" "?i < ?i + 1"
      using lt u by (auto simp: word_less_nat_alt word_le_nat_alt)
    have a: "alloc_slot c = (Inr ?i, ?c)" using p False by (simp add: alloc_slot_def cat_pop_free_def cat_slot_def Let_def)
    have so: "slot_ok ?c (insert ?i (set held)) (set log) j (cat_slot c j)" if "j < cat_capacity c" for j
      using ok Nil that lt by (intro slot_ok_bump) (auto simp: catalog_ok_def)
    have "?i \<notin> set held" using ok by (auto simp: catalog_ok_def)
    moreover have "cs_state (cat_slot c ?i) = CAT_FREE" using ok lt by (auto simp: catalog_ok_def slot_ok_def)
    moreover have "catalog_ok ?c (?i # held) [] log"
      using ok Nil so le calculation(1) unfolding catalog_ok_def by (simp add: cat_slot_def)
    ultimately show ?thesis using a by (intro disjI1 exI [of _ ?i] exI [of _ ?c] exI [of _ "[]"]) simp
  qed
qed

text \<open>A finished reclaim: the slot's incarnation moves on and its index goes on the free list.\<close>

lemma cat_push_free_ok:
  assumes ok: "catalog_ok c held fs log" and i: "i < next_slot c" and st: "cs_state (cat_slot c i) \<noteq> CAT_FREE"
    and fin: "finish_reclaim ((cat_slot c i)\<lparr>cs_word := w\<rparr>) = (Some g, s)" and w: "slot_word_gen w = cs_gen (cat_slot c i)"
  shows "catalog_ok (cat_push_free i (set_cat_slot i s c)) held (i # fs) log"
    and "j \<noteq> i \<Longrightarrow> cat_slot (cat_push_free i (set_cat_slot i s c)) j = cat_slot c j"
proof -
  have so: "slot_ok c (set held \<union> set fs) (set log) i (cat_slot c i)" by (rule catalog_ok_slot [OF ok i])
  then have nin: "i \<notin> set held \<union> set fs" using st i by (auto simp: slot_ok_def)
  have g: "g = cs_gen (cat_slot c i) + 1" "cs_gen (cat_slot c i) \<noteq> - 1"
    and s: "cs_state s = CAT_FREE" "cs_gen s = g"
    using fin w by (auto simp: finish_reclaim_def Let_def cs_gen_def cs_state_def split: if_splits)
  have lt: "cs_gen (cat_slot c i) < g"
    using g by (simp add: word_less_nat_alt unat_Suc_word)
  have len: "unat i < length (cslots c)" "i < cat_capacity c" using catalog_ok_range [OF ok i] by simp_all
  let ?c = "set_cat_slot i s c"
  obtain h ss where p: "treiber_push (free_head ?c) i write_next_free (cslots ?c) = (h, ss)" by fastforce
  have ss: "ss = write_next_free i (head_slot (free_head c)) (cslots ?c)"
    using p by (auto simp: treiber_push_def case_prod_beta Let_def)
  have nodes: "\<forall>y\<in>set fs. unat y < length (cslots ?c) \<and> y \<noteq> EMPTY"
  proof
    fix y assume "y \<in> set fs"
    then have "y < next_slot c" using ok by (simp add: catalog_ok_def)
    then show "unat y < length (cslots ?c) \<and> y \<noteq> EMPTY"
      using catalog_ok_range [OF ok] slot_not_nil by simp
  qed
  have "cat_next ?c j = cat_next c j" if "j \<in> set fs" for j
  proof -
    have "unat i \<noteq> unat j" using that nin by (auto simp: word_unat_eq_iff [symmetric])
    then show ?thesis by (simp add: set_cat_slot_def)
  qed
  then have "stack_of (cat_next ?c) (free_head ?c) fs \<longleftrightarrow> stack_of (cat_next c) (free_head ?c) fs"
    by (intro stack_of_cong) simp
  then have st': "stack_of (\<lambda>j. cs_next_free (ss ! unat j)) h (i # fs)"
    using ok nin len slot_not_nil [OF len(2)]
    by (intro cat_links.push_stack [OF _ nodes _ _ p]) (auto simp: catalog_ok_def)
  have pf: "cat_push_free i ?c = ?c\<lparr>free_head := h, cslots := ss\<rparr>" using p by (simp add: cat_push_free_def)
  have slot: "cat_slot (cat_push_free i ?c) j = (if j = i then s\<lparr>cs_next_free := head_slot (free_head c)\<rparr> else cat_slot c j)" for j
    unfolding pf ss using len
    by (auto simp: write_next_free_def cat_slot_def set_cat_slot_def nth_list_update word_unat_eq_iff)
  then show "j \<noteq> i \<Longrightarrow> cat_slot (cat_push_free i ?c) j = cat_slot c j" by simp
  have eq: "slot_ok (cat_push_free i ?c) = slot_ok c"
    by (simp add: pf fun_eq_iff slot_ok_def artifact_id_for_def head_off_for_def)
  have new: "slot_ok c (set held \<union> set (i # fs)) (set log) i (s\<lparr>cs_next_free := n\<rparr>)" for n
    using so s lt i by (auto simp: slot_ok_def cs_state_def cs_gen_def intro: order.strict_trans1)
  have old: "slot_ok c (set held \<union> set (i # fs)) (set log) j (cat_slot c j)" if "j < cat_capacity c" "j \<noteq> i" for j
  proof (rule slot_ok_other)
    show "slot_ok c (set held \<union> set fs) (set log) j (cat_slot c j)" using ok that by (simp add: catalog_ok_def)
  qed (use that in auto)
  have "\<forall>j < cat_capacity c. slot_ok (cat_push_free i ?c) (set held \<union> set (i # fs)) (set log) j (cat_slot (cat_push_free i ?c) j)"
    unfolding eq slot using new old by simp
  then show "catalog_ok (cat_push_free i ?c) held (i # fs) log"
    using ok nin i st' unfolding catalog_ok_def by (auto simp: pf ss write_next_free_def)
qed

section \<open>How a slot changes over a run\<close>

text \<open>
  The incarnation never goes back, and as long as it stays a slot that is occupied keeps its
  occupant.
\<close>

definition slot_evolves :: "catalog_slot \<Rightarrow> catalog_slot \<Rightarrow> bool" where
  "slot_evolves s s' \<longleftrightarrow> cs_gen s \<le> cs_gen s' \<and>
     (cs_gen s' = cs_gen s \<longrightarrow> cs_state s \<noteq> CAT_FREE \<longrightarrow>
        cs_state s' \<noteq> CAT_FREE \<and> cs_key_id s' = cs_key_id s \<and> cs_kind s' = cs_kind s
        \<and> cs_artifact_id s' = cs_artifact_id s \<and> cs_head_off s' = cs_head_off s)"

lemma slot_evolves_refl [simp]: "slot_evolves s s"
  by (simp add: slot_evolves_def)

lemma slot_evolves_trans: "slot_evolves s1 s2 \<Longrightarrow> slot_evolves s2 s3 \<Longrightarrow> slot_evolves s1 s3"
  unfolding slot_evolves_def by (metis order.antisym order.trans)

definition cat_evolves :: "catalog \<Rightarrow> catalog \<Rightarrow> bool" where
  "cat_evolves c c' \<longleftrightarrow> cat_capacity c' = cat_capacity c \<and> next_slot c \<le> next_slot c' \<and>
     artifact_id_base c' = artifact_id_base c \<and> head_stride c' = head_stride c \<and>
     (\<forall>j < cat_capacity c. slot_evolves (cat_slot c j) (cat_slot c' j))"

lemma cat_evolves_refl [simp]: "cat_evolves c c"
  by (simp add: cat_evolves_def)

lemma cat_evolves_trans: "cat_evolves c1 c2 \<Longrightarrow> cat_evolves c2 c3 \<Longrightarrow> cat_evolves c1 c3"
  unfolding cat_evolves_def using slot_evolves_trans by (metis order.trans)

lemma cat_evolves_set:
  "unat i < length (cslots c) \<Longrightarrow> slot_evolves (cat_slot c i) s \<Longrightarrow> cat_evolves c (set_cat_slot i s c)"
  by (simp add: cat_evolves_def)

lemma evolves_restate: "cs_state s \<noteq> CAT_FREE \<Longrightarrow> to \<noteq> CAT_FREE \<Longrightarrow> slot_evolves s (s\<lparr>cs_word := pack_slot_word (cs_gen s) to\<rparr>)"
  by (simp add: slot_evolves_def)

text \<open>One attempt to reclaim, for whatever the quiescence check answers.\<close>

lemma try_reclaim_ok:
  assumes ok: "catalog_ok c held fs log" and i: "i < next_slot c"
    and r: "try_reclaim_slot i quiescent (c, h) = (b, c', h')"
  shows "\<exists>fs'. catalog_ok c' held fs' log \<and> cat_evolves c c' \<and> next_slot c' = next_slot c"
proof (cases "cs_state (cat_slot c i) = CAT_TOMBSTONE")
  case False
  then show ?thesis using r ok by (auto simp: try_reclaim_slot_def begin_reclaim_def cat_cas_state_iff)
next
  case st: True
  let ?s = "cat_slot c i"
  let ?s1 = "?s\<lparr>cs_word := pack_slot_word (cs_gen ?s) CAT_RECLAIMING\<rparr>"
  have nf: "cs_state ?s \<noteq> CAT_FREE" using st by (simp add: cat_states)
  have len: "unat i < length (cslots c)" by (rule catalog_ok_range [OF ok i])
  have restore: "set_cat_slot i (?s\<lparr>cs_word := pack_slot_word (cs_gen ?s) nst\<rparr>) c = c' \<Longrightarrow> nst \<in> {CAT_TOMBSTONE, CAT_RECLAIMING}
      \<Longrightarrow> catalog_ok c' held fs log \<and> cat_evolves c c' \<and> next_slot c' = next_slot c" for nst
    using catalog_ok_restate [OF ok i nf, of nst] cat_evolves_set [OF len evolves_restate [OF nf, of nst]]
    by (auto simp: cat_states)
  obtain q h1 where q: "quiescent (cs_artifact_id ?s1) (cs_head_off ?s1) h = (q, h1)" by fastforce
  obtain g s2 where f: "finish_reclaim ?s1 = (g, s2)" by fastforce
  have b: "begin_reclaim ?s = (True, ?s1)" using st by (simp add: begin_reclaim_def cat_cas_state_iff)
  have ab: "abort_reclaim ?s1 = ?s\<lparr>cs_word := pack_slot_word (cs_gen ?s) CAT_TOMBSTONE\<rparr>"
    by (simp add: abort_reclaim_def)
  consider "\<not> q" | "q" "g = None" | g' where "q" "g = Some g'" by (cases g) auto
  then show ?thesis
  proof cases
    case 1
    then show ?thesis using r q b ab restore [of CAT_TOMBSTONE] by (auto simp: try_reclaim_slot_def)
  next
    case 2
    then have "s2 = ?s1" using f by (auto simp: finish_reclaim_def Let_def split: if_splits)
    then show ?thesis using 2 r q b f restore [of CAT_RECLAIMING] by (auto simp: try_reclaim_slot_def)
  next
    case 3
    then have c': "c' = cat_push_free i (set_cat_slot i s2 c)" using r q b f by (simp add: try_reclaim_slot_def)
    have gen: "cs_gen ?s \<noteq> - 1" and s2: "s2 = ?s1\<lparr>cs_key_id := 0, cs_word := pack_slot_word (cs_gen ?s + 1) CAT_FREE\<rparr>"
      using f 3 by (auto simp: finish_reclaim_def Let_def split: if_splits)
    have f': "finish_reclaim (?s\<lparr>cs_word := pack_slot_word (cs_gen ?s) CAT_RECLAIMING\<rparr>) = (Some g', s2)" using f 3 by simp
    note P = cat_push_free_ok [OF ok i nf f']
    have sel: "next_slot c' = next_slot c" "cat_capacity c' = cat_capacity c"
      "artifact_id_base c' = artifact_id_base c" "head_stride c' = head_stride c"
      by (simp_all add: c' cat_push_free_def case_prod_beta)
    have "cs_gen (cat_slot c' i) = cs_gen ?s + 1"
      using len by (simp add: c' cat_push_free_def treiber_push_def case_prod_beta Let_def write_next_free_def cat_slot_def
          set_cat_slot_def s2 cs_gen_def)
    then have "slot_evolves ?s (cat_slot c' i)"
      using gen by (simp add: slot_evolves_def word_le_nat_alt unat_Suc_word)
    then have "slot_evolves (cat_slot c j) (cat_slot c' j)" for j using P(2) [of j] by (cases "j = i") (simp_all add: c')
    then have "cat_evolves c c'" using sel by (simp add: cat_evolves_def)
    then show ?thesis using P(1) sel c' by auto
  qed
qed

lemma reclaim_loop_ok:
  assumes "catalog_ok c held fs log" and "\<forall>i\<in>set is. i < next_slot c"
    and "reclaim_loop is quiescent (c, h) = (n, c', h')"
  shows "\<exists>fs'. catalog_ok c' held fs' log \<and> cat_evolves c c' \<and> next_slot c' = next_slot c"
  using assms
proof (induction "is" arbitrary: c h fs n)
  case (Cons i "is")
  obtain b c1 h1 where t: "(if cs_state (cat_slot c i) = CAT_TOMBSTONE then try_reclaim_slot i quiescent (c, h)
      else (False, c, h)) = (b, c1, h1)" by (metis prod_cases3)
  have "\<exists>fs'. catalog_ok c1 held fs' log \<and> cat_evolves c c1 \<and> next_slot c1 = next_slot c"
    using t Cons.prems(1,2) try_reclaim_ok [OF Cons.prems(1), of i quiescent h b c1 h1] by (auto split: if_splits)
  then obtain fs1 where o: "catalog_ok c1 held fs1 log" "cat_evolves c c1" "next_slot c1 = next_slot c" by blast
  obtain m where l: "reclaim_loop is quiescent (c1, h1) = (m, c', h')"
    using Cons.prems(3) t by (auto split: prod.splits)
  show ?case using Cons.IH [OF o(1) _ l] o Cons.prems(2) cat_evolves_trans by auto
qed auto

lemma scan_indices_less: "i \<in> set (scan_indices c) \<Longrightarrow> i < next_slot c"
proof -
  assume "i \<in> set (scan_indices c)"
  then obtain k where k: "k < unat (min (next_slot c) (cat_capacity c))" "i = of_nat k" by (auto simp: scan_indices_def)
  have "unat (of_nat k :: u32) = k" using k unat_u32_less [of "min (next_slot c) (cat_capacity c)"] by (intro unat_of_nat_u32) simp
  then show "i < next_slot c" using k by (auto simp: word_less_nat_alt min_def word_le_nat_alt split: if_splits)
qed

lemma bump_le: "\<not> (cap :: u32) \<le> i \<Longrightarrow> i \<le> i + 1"
  using unat_bump [of i cap] by (simp add: word_le_nat_alt word_less_nat_alt)

lemma cat_act_ok:
  assumes ok: "catalog_ok (cy_cat y) (cy_held y) fs (cy_log y)"
  shows "\<exists>fs'. catalog_ok (cy_cat (cat_act x y)) (cy_held (cat_act x y)) fs' (cy_log (cat_act x y))
    \<and> cat_evolves (cy_cat y) (cy_cat (cat_act x y))"
proof (cases x)
  case CAlloc
  have ev: "cat_evolves c c'" if "alloc_slot c = (r, c')" "catalog_ok c h f l" "cslots c' = cslots c" for c c' h f l and r :: "store_error + u32"
    using alloc_slot_ok [OF that(2)] that
    by (auto simp: cat_evolves_def cat_slot_def alloc_slot_def cat_pop_free_def Let_def case_prod_beta bump_le
        split: option.splits if_splits)
  show ?thesis using alloc_slot_ok [OF ok] ev [OF _ ok] CAlloc ok by fastforce
next
  case (CPublish i k kind)
  show ?thesis
  proof (cases "i \<in> set (cy_held y)")
    case True
    have lt: "i < next_slot (cy_cat y)" using ok True by (simp add: catalog_ok_def)
    have free: "cs_state (cat_slot (cy_cat y) i) = CAT_FREE"
      using catalog_ok_slot [OF ok lt] lt True by (simp add: slot_ok_def)
    have "cat_evolves (cy_cat y) (snd (publish_slot i k kind (cy_cat y)))"
      using catalog_ok_range [OF ok lt] free unfolding publish_slot_def Let_def snd_conv
      by (intro cat_evolves_set) (auto simp: slot_evolves_def slot_publish_def cat_cas_state_iff write_fields_def cs_gen_def)
    then show ?thesis using CPublish True publish_ok [OF ok True] by auto
  qed (use CPublish ok in auto)
next
  case (CTombstoneGen i g)
  show ?thesis
  proof (cases "i < next_slot (cy_cat y)")
    case True
    have "cat_evolves (cy_cat y) (set_cat_slot i (snd (tombstone_gen g (cat_slot (cy_cat y) i))) (cy_cat y))"
      using catalog_ok_range [OF ok True] evolves_restate [of "cat_slot (cy_cat y) i" CAT_TOMBSTONE]
      by (intro cat_evolves_set) (auto simp: tombstone_gen_iff cat_states)
    then show ?thesis using CTombstoneGen True tombstone_ok(2) [OF ok True] by auto
  qed (use CTombstoneGen ok in auto)
next
  case (CTombstone i)
  show ?thesis
  proof (cases "i < next_slot (cy_cat y)")
    case True
    have "cat_evolves (cy_cat y) (set_cat_slot i (snd (tombstone (cat_slot (cy_cat y) i))) (cy_cat y))"
      using catalog_ok_range [OF ok True] evolves_restate [of "cat_slot (cy_cat y) i" CAT_TOMBSTONE]
      by (intro cat_evolves_set) (auto simp: tombstone_def cat_cas_state_iff cat_states)
    then show ?thesis using CTombstone True tombstone_ok(1) [OF ok True] by auto
  qed (use CTombstone ok in auto)
next
  case (CReclaim i q)
  obtain b c h where r: "try_reclaim_slot i (\<lambda>_ _ u. (q, u)) (cy_cat y, ()) = (b, c, h)" by (metis prod_cases3)
  show ?thesis using CReclaim try_reclaim_ok [OF ok _ r] ok r by auto
next
  case (CSweep q)
  obtain n c h where r: "reclaim_loop (scan_indices (cy_cat y)) (\<lambda>a off u. (q a off, u)) (cy_cat y, ()) = (n, c, h)"
    by (metis prod_cases3)
  show ?thesis using CSweep reclaim_loop_ok [OF ok _ r] scan_indices_less r by (auto simp: reclaim_tombstones_def)
qed

lemma cat_run_ok:
  assumes "catalog_ok (cy_cat y) (cy_held y) fs (cy_log y)"
  shows "\<exists>fs'. catalog_ok (cy_cat (cat_run xs y)) (cy_held (cat_run xs y)) fs' (cy_log (cat_run xs y))
    \<and> cat_evolves (cy_cat y) (cy_cat (cat_run xs y))"
  using assms
proof (induction xs arbitrary: y fs)
  case (Cons x xs)
  obtain fs1 where "catalog_ok (cy_cat (cat_act x y)) (cy_held (cat_act x y)) fs1 (cy_log (cat_act x y))"
    "cat_evolves (cy_cat y) (cy_cat (cat_act x y))" using cat_act_ok [OF Cons.prems] by blast
  then show ?case using Cons.IH [of "cat_act x y" fs1] cat_evolves_trans by (fastforce simp: cat_run_def)
qed (auto simp: cat_run_def)

lemma catalog_init_ok:
  assumes "catalog_init sg cap stride base = Inr c"
  shows "catalog_ok c [] [] []" and "cat_capacity c = cap" and "artifact_id_base c = base" and "head_stride c = stride"
proof -
  have c: "c = \<lparr>cat_magic = CATALOG_MAGIC, cat_capacity = cap, next_slot = 0, head_stride = stride,
         artifact_id_base = base, free_head = pack_free_head FREE_NIL 0,
         cslots = replicate (unat cap) \<lparr>cs_key_id = 0, cs_artifact_id = 0, cs_head_off = 0, cs_kind = 0,
            cs_word = pack_slot_word FIRST_GEN CAT_FREE, cs_next_free = FREE_NIL\<rparr>\<rparr>"
    using assms by (auto simp: catalog_init_def catalog_attach_def split: if_splits)
  show "catalog_ok c [] [] []"
    by (simp add: c catalog_ok_def stack_of_Nil pack_free_head_eq FREE_NIL_EMPTY slot_ok_def cat_slot_def
        word_less_nat_alt cs_state_def)
qed (use assms in \<open>auto simp: catalog_init_def catalog_attach_def split: if_splits\<close>)

section \<open>Properties\<close>

text \<open>The state of the system after a run from a fresh catalog.\<close>

definition cat_after :: "catalog \<Rightarrow> cat_op list \<Rightarrow> cat_sys" where
  "cat_after c xs = cat_run xs (cat_sys_of c)"

lemma cat_after_ok:
  assumes "catalog_init sg cap stride base = Inr c"
  obtains fs where "catalog_ok (cy_cat (cat_after c xs)) (cy_held (cat_after c xs)) fs (cy_log (cat_after c xs))"
    and "cat_evolves c (cy_cat (cat_after c xs))"
  using cat_run_ok [of "cat_sys_of c" "[]" xs] catalog_init_ok(1) [OF assms]
  by (auto simp: cat_after_def cat_sys_of_def)

lemma slot_ok_dest:
  assumes "slot_ok c F L i s" and "i < next_slot c"
  shows "cs_state s \<in> {CAT_FREE, CAT_LIVE, CAT_TOMBSTONE, CAT_RECLAIMING}" and "cs_state s = CAT_FREE \<longleftrightarrow> i \<in> F"
  using assms unfolding slot_ok_def by presburger+

text \<open>
  Whatever creators, evictors and sweeps do, the catalog stays well typed: the append mark
  never passes the capacity, every slot below it is in one of the four states, and an index some
  creator holds is free. The next allocation gives an index nobody holds with a free slot, or
  fails with the capacity exactly when every free slot is held by a creator.
\<close>

theorem catalog_run_invariant:
  assumes "catalog_init sg cap stride base = Inr c" and "y = cat_after c xs"
  shows "next_slot (cy_cat y) \<le> cap \<and> distinct (cy_held y)
    \<and> (\<forall>i < next_slot (cy_cat y). cs_state (cat_slot (cy_cat y) i) \<in> {CAT_FREE, CAT_LIVE, CAT_TOMBSTONE, CAT_RECLAIMING})
    \<and> (\<forall>i\<in>set (cy_held y). cs_state (cat_slot (cy_cat y) i) = CAT_FREE)
    \<and> (case alloc_slot (cy_cat y) of
         (Inr i, _) \<Rightarrow> i < cap \<and> i \<notin> set (cy_held y) \<and> cs_state (cat_slot (cy_cat y) i) = CAT_FREE
       | (Inl e, c') \<Rightarrow> e = CatalogFull cap \<and> c' = cy_cat y
           \<and> (\<forall>i < cap. cs_state (cat_slot (cy_cat y) i) = CAT_FREE \<longrightarrow> i \<in> set (cy_held y)))"
proof -
  obtain fs where ok: "catalog_ok (cy_cat y) (cy_held y) fs (cy_log y)" and ev: "cat_evolves c (cy_cat y)"
    using cat_after_ok [OF assms(1)] assms(2) by blast
  have cap: "cat_capacity (cy_cat y) = cap" using ev catalog_init_ok(2) [OF assms(1)] by (simp add: cat_evolves_def)
  have slots: "slot_ok (cy_cat y) (set (cy_held y) \<union> set fs) (set (cy_log y)) i (cat_slot (cy_cat y) i)" if "i < cap" for i
    using ok that cap by (simp add: catalog_ok_def)
  have range: "i < next_slot (cy_cat y) \<Longrightarrow> i < cap" for i using catalog_ok_range(1) [OF ok] cap by simp
  have held: "i \<in> set (cy_held y) \<Longrightarrow> i < next_slot (cy_cat y)" for i using ok by (simp add: catalog_ok_def)
  have "next_slot (cy_cat y) \<le> cap" "distinct (cy_held y)" using ok cap by (simp_all add: catalog_ok_def)
  moreover have "\<forall>i < next_slot (cy_cat y). cs_state (cat_slot (cy_cat y) i) \<in> {CAT_FREE, CAT_LIVE, CAT_TOMBSTONE, CAT_RECLAIMING}"
    using slot_ok_dest(1) [OF slots] range by blast
  moreover have "\<forall>i\<in>set (cy_held y). cs_state (cat_slot (cy_cat y) i) = CAT_FREE"
    using slot_ok_dest(2) [OF slots] range held by blast
  moreover have "case alloc_slot (cy_cat y) of
         (Inr i, _) \<Rightarrow> i < cap \<and> i \<notin> set (cy_held y) \<and> cs_state (cat_slot (cy_cat y) i) = CAT_FREE
       | (Inl e, c') \<Rightarrow> e = CatalogFull cap \<and> c' = cy_cat y
           \<and> (\<forall>i < cap. cs_state (cat_slot (cy_cat y) i) = CAT_FREE \<longrightarrow> i \<in> set (cy_held y))"
    using alloc_slot_ok [OF ok]
  proof
    assume "\<exists>i c' fs'. alloc_slot (cy_cat y) = (Inr i, c') \<and> catalog_ok c' (i # cy_held y) fs' (cy_log y)
      \<and> cslots c' = cslots (cy_cat y) \<and> i \<notin> set (cy_held y) \<and> cs_state (cat_slot (cy_cat y) i) = CAT_FREE"
    then obtain i c' fs' where a: "alloc_slot (cy_cat y) = (Inr i, c')" "catalog_ok c' (i # cy_held y) fs' (cy_log y)"
      "cslots c' = cslots (cy_cat y)" "i \<notin> set (cy_held y)" "cs_state (cat_slot (cy_cat y) i) = CAT_FREE" by blast
    have "unat (cat_capacity c') = unat cap" using a(2,3) ok cap by (simp add: catalog_ok_def)
    moreover have "i < cat_capacity c'" using a(2) by (intro catalog_ok_range(1) [OF a(2)]) (simp add: catalog_ok_def)
    ultimately have "i < cap" by (simp add: word_less_nat_alt)
    then show ?thesis using a by simp
  next
    assume "alloc_slot (cy_cat y) = (Inl (CatalogFull (cat_capacity (cy_cat y))), cy_cat y) \<and> fs = []
      \<and> next_slot (cy_cat y) = cat_capacity (cy_cat y)"
    then show ?thesis using slot_ok_dest(2) [OF slots] cap by auto
  qed
  ultimately show ?thesis by blast
qed

text \<open>
  C25: No identity is given out twice: over any run, the pairs of artifact id and incarnation of
  the entries ever published are distinct, although slots are recycled and the incarnation is 32
  bits wide.
\<close>

theorem occupants_unique:
  assumes "catalog_init sg cap stride base = Inr c"
  shows "distinct (map (\<lambda>(i, g). (artifact_id_for c i, g)) (cy_log (cat_after c xs)))"
proof -
  obtain fs where "catalog_ok (cy_cat (cat_after c xs)) (cy_held (cat_after c xs)) fs (cy_log (cat_after c xs))"
    using cat_after_ok [OF assms] by blast
  then have "distinct (cy_log (cat_after c xs))" by (simp add: catalog_ok_def)
  then show ?thesis by (auto simp: distinct_map inj_on_def artifact_id_for_def)
qed

text \<open>
  Evicting by incarnation takes the entry that was meant or nothing: if a slot was seen
  occupied with incarnation \<open>g\<close> and, any number of evictions, sweeps and re-creations later,
  tombstoning \<open>g\<close> succeeds, then the slot still has the key, kind and head it had when seen.
\<close>

theorem eviction_hits_occupant:
  assumes "catalog_init sg cap stride base = Inr c" and "i < next_slot (cy_cat (cat_after c xs))"
    and "cs_state (cat_slot (cy_cat (cat_after c xs)) i) \<noteq> CAT_FREE"
    and "cs_gen (cat_slot (cy_cat (cat_after c xs)) i) = g"
    and "tombstone_gen g (cat_slot (cy_cat (cat_after c (xs @ zs))) i) = (True, s')"
  shows "cs_key_id s' = cs_key_id (cat_slot (cy_cat (cat_after c xs)) i)
    \<and> cs_kind s' = cs_kind (cat_slot (cy_cat (cat_after c xs)) i)
    \<and> cs_head_off s' = cs_head_off (cat_slot (cy_cat (cat_after c xs)) i)
    \<and> cs_artifact_id s' = artifact_id_for c i"
proof -
  let ?y = "cat_after c xs"
  obtain fs where ok: "catalog_ok (cy_cat ?y) (cy_held ?y) fs (cy_log ?y)"
    and ev0: "cat_evolves c (cy_cat ?y)"
    using cat_after_ok [OF assms(1)] by blast
  have z: "cat_after c (xs @ zs) = cat_run zs ?y" by (simp add: cat_after_def cat_run_def)
  have "cat_evolves (cy_cat ?y) (cy_cat (cat_run zs ?y))" using cat_run_ok [OF ok] by blast
  then have ev: "slot_evolves (cat_slot (cy_cat ?y) i) (cat_slot (cy_cat (cat_run zs ?y)) i)"
    using catalog_ok_range(1) [OF ok assms(2)] by (simp add: cat_evolves_def)
  have ids: "cs_artifact_id (cat_slot (cy_cat ?y) i) = artifact_id_for c i"
    using catalog_ok_slot [OF ok assms(2)] assms(2,3) ev0 by (simp add: slot_ok_def cat_evolves_def artifact_id_for_def)
  show ?thesis using assms(3,4,5) ev ids by (auto simp: z tombstone_gen_iff slot_evolves_def split: if_splits)
qed

text \<open>A concrete store: two slots, an entry under key 7 in slot 0, which is then recycled for key 9.\<close>

definition demo_cat_segment :: segment where
  "demo_cat_segment = \<lparr>seg_named = True, seg_id = 1, seg_size = 4096, map_len = 4096, seg_generation = 1\<rparr>"

definition demo_catalog :: catalog where
  "demo_catalog = (case catalog_init demo_cat_segment 2 1576 1000 of Inr c \<Rightarrow> c)"

definition demo_create :: "cat_op list" where
  "demo_create = [CAlloc, CPublish 0 7 Object]"

definition demo_recycle :: "cat_op list" where
  "demo_recycle = [CTombstoneGen 0 1, CReclaim 0 True, CAlloc, CPublish 0 9 Dataset]"

lemma demo_cat_init: "catalog_init demo_cat_segment 2 1576 1000 = Inr demo_catalog"
  by code_simp

theorem catalog_run_invariant_witness:
  "next_slot (cy_cat (cat_after demo_catalog (CAlloc # demo_create))) = 2 \<and>
   fst (alloc_slot (cy_cat (cat_after demo_catalog (CAlloc # demo_create)))) = Inl (CatalogFull 2) \<and>
   distinct (cy_held (cat_after demo_catalog (CAlloc # demo_create)))"
proof -
  have e: "next_slot (cy_cat (cat_after demo_catalog (CAlloc # demo_create))) = 2 \<and>
    fst (alloc_slot (cy_cat (cat_after demo_catalog (CAlloc # demo_create)))) = Inl (CatalogFull 2)"
    by code_simp
  then show ?thesis using catalog_run_invariant [OF demo_cat_init refl, of "CAlloc # demo_create"] by blast
qed

theorem occupants_unique_witness:
  "map (\<lambda>(i, g). (artifact_id_for demo_catalog i, g)) (cy_log (cat_after demo_catalog (demo_create @ demo_recycle)))
     = [(1000, 2), (1000, 1)] \<and> distinct [(1000 :: u32, 2 :: u32), (1000, 1)]"
proof -
  have e: "map (\<lambda>(i, g). (artifact_id_for demo_catalog i, g)) (cy_log (cat_after demo_catalog (demo_create @ demo_recycle)))
     = [(1000, 2), (1000, 1)]" by code_simp
  show ?thesis using occupants_unique [OF demo_cat_init, of "demo_create @ demo_recycle"] e by simp
qed

theorem eviction_hits_occupant_witness:
  "cs_key_id (snd (tombstone_gen 1 (cat_slot (cy_cat (cat_after demo_catalog (demo_create @ [CAlloc, CSweep (\<lambda>_ _. True)]))) 0))) = 7"
proof -
  have e: "0 < next_slot (cy_cat (cat_after demo_catalog demo_create))"
    "cs_state (cat_slot (cy_cat (cat_after demo_catalog demo_create)) 0) \<noteq> CAT_FREE"
    "cs_gen (cat_slot (cy_cat (cat_after demo_catalog demo_create)) 0) = 1"
    "cs_key_id (cat_slot (cy_cat (cat_after demo_catalog demo_create)) 0) = 7"
    "fst (tombstone_gen 1 (cat_slot (cy_cat (cat_after demo_catalog (demo_create @ [CAlloc, CSweep (\<lambda>_ _. True)]))) 0))"
    by code_simp+
  then have "tombstone_gen 1 (cat_slot (cy_cat (cat_after demo_catalog (demo_create @ [CAlloc, CSweep (\<lambda>_ _. True)]))) 0)
    = (True, snd (tombstone_gen 1 (cat_slot (cy_cat (cat_after demo_catalog (demo_create @ [CAlloc, CSweep (\<lambda>_ _. True)]))) 0)))"
    by (intro prod_eqI) simp_all
  then show ?thesis using eviction_hits_occupant [OF demo_cat_init e(1-3)] e(4) by metis
qed

section \<open>Eviction by key\<close>

text \<open>
  \<^verbatim>\<open>KeyedStore::evict\<close> up to its exchange: it looks the key up, then loads the incarnation of the
  slot it found, then tombstones that incarnation. The lookup and the rest are separate accesses.
\<close>

definition evict_scan :: "u32 \<Rightarrow> catalog \<Rightarrow> u32 option" where
  "evict_scan k c = find_live_by_key k c"

definition evict_mark :: "u32 \<Rightarrow> catalog \<Rightarrow> bool \<times> catalog" where
  "evict_mark idx c =
     (let expected = cs_gen (cat_slot c idx) in
      case tombstone_gen expected (cat_slot c idx) of (ok, s) \<Rightarrow> (ok, set_cat_slot idx s c))"

text \<open>
  C26: The incarnation is loaded too late to protect an eviction by key. An evictor of key 7 finds
  slot 0; before it loads the incarnation the slot is evicted, swept and re-created for key 9; the
  evictor then reads the new incarnation and its exchange takes the live entry of key 9.
\<close>

theorem evict_takes_other_entry:
  "\<exists>c y y'. catalog_init demo_cat_segment 2 1576 1000 = Inr c \<and> y = cat_after c demo_create \<and> y' = cat_run demo_recycle y
     \<and> evict_scan 7 (cy_cat y) = Some 0 \<and> evict_scan 9 (cy_cat y') = Some 0
     \<and> fst (evict_mark 0 (cy_cat y')) \<and> evict_scan 9 (snd (evict_mark 0 (cy_cat y'))) = None"
proof -
  have "evict_scan 7 (cy_cat (cat_after demo_catalog demo_create)) = Some 0"
    "evict_scan 9 (cy_cat (cat_run demo_recycle (cat_after demo_catalog demo_create))) = Some 0"
    "fst (evict_mark 0 (cy_cat (cat_run demo_recycle (cat_after demo_catalog demo_create))))"
    "evict_scan 9 (snd (evict_mark 0 (cy_cat (cat_run demo_recycle (cat_after demo_catalog demo_create))))) = None"
    by code_simp+
  then show ?thesis using demo_cat_init by blast
qed

section \<open>Lookup\<close>

lemma find_live_loop_None:
  "find_live_loop is k c = None \<longleftrightarrow> (\<forall>i\<in>set is. \<not> (cs_state (cat_slot c i) = CAT_LIVE \<and> cs_key_id (cat_slot c i) = k))"
  by (induction "is") auto

lemma find_live_loop_least:
  "find_live_loop is k c = Some i \<Longrightarrow> sorted is \<Longrightarrow>
     i \<in> set is \<and> cs_state (cat_slot c i) = CAT_LIVE \<and> cs_key_id (cat_slot c i) = k
     \<and> (\<forall>j\<in>set is. cs_state (cat_slot c j) = CAT_LIVE \<and> cs_key_id (cat_slot c j) = k \<longrightarrow> i \<le> j)"
  by (induction "is") (auto split: if_splits)

lemma set_scan_indices:
  assumes "next_slot c \<le> cat_capacity c"
  shows "set (scan_indices c) = {i. i < next_slot c}"
proof
  show "{i. i < next_slot c} \<subseteq> set (scan_indices c)"
  proof
    fix i assume "i \<in> {i. i < next_slot c}"
    then have "unat i < unat (min (next_slot c) (cat_capacity c))" using assms by (simp add: word_less_nat_alt min_absorb1)
    then have "of_nat (unat i) \<in> set (scan_indices c)" unfolding scan_indices_def by (simp only: set_map) (intro imageI, simp)
    then show "i \<in> set (scan_indices c)" by simp
  qed
qed (auto dest: scan_indices_less)

lemma sorted_scan_indices: "sorted (scan_indices c)"
proof -
  have "(of_nat a :: u32) \<le> of_nat b" if "a \<le> b" "b < unat (w :: u32)" for a b w
  proof -
    have "b < 2 ^ 32" using that(2) unat_u32_less [of w] by linarith
    then show ?thesis using that(1) by (simp add: word_le_nat_alt unat_of_nat_u32)
  qed
  then show ?thesis unfolding scan_indices_def sorted_map
    by (intro sorted_wrt_mono_rel [OF _ sorted_upt]) auto
qed

text \<open>The lookup meant: the lowest live slot with the key, anywhere in the table.\<close>

definition live_slot_of :: "u32 \<Rightarrow> catalog \<Rightarrow> u32 option" where
  "live_slot_of k c =
     (let hits = {i. i < cat_capacity c \<and> cs_state (cat_slot c i) = CAT_LIVE \<and> cs_key_id (cat_slot c i) = k}
      in if hits = {} then None else Some (Min hits))"

text \<open>
  The lookup by key, which scans only up to the append mark, agrees with the lookup over the
  whole table, in every reachable state.
\<close>

theorem find_live_equiv:
  assumes "catalog_init sg cap stride base = Inr c"
  shows "find_live_by_key k (cy_cat (cat_after c xs)) = live_slot_of k (cy_cat (cat_after c xs))"
proof -
  let ?c = "cy_cat (cat_after c xs)"
  let ?hit = "\<lambda>i. cs_state (cat_slot ?c i) = CAT_LIVE \<and> cs_key_id (cat_slot ?c i) = k"
  obtain fs where ok: "catalog_ok ?c (cy_held (cat_after c xs)) fs (cy_log (cat_after c xs))"
    using cat_after_ok [OF assms] by blast
  have le: "next_slot ?c \<le> cat_capacity ?c" using ok by (simp add: catalog_ok_def)
  have past: "i < next_slot ?c" if "i < cat_capacity ?c" "?hit i" for i
    using ok that by (auto simp: catalog_ok_def slot_ok_def cat_states split: if_splits)
  have hits: "{i. i < cat_capacity ?c \<and> ?hit i} = {i \<in> set (scan_indices ?c). ?hit i}"
    using past le by (auto simp: set_scan_indices [OF le])
  show ?thesis
  proof (cases "find_live_by_key k ?c")
    case None
    then show ?thesis using hits by (auto simp: find_live_by_key_def find_live_loop_None live_slot_of_def)
  next
    case (Some i)
    then have l: "i \<in> {i \<in> set (scan_indices ?c). ?hit i}" "\<forall>j\<in>{i \<in> set (scan_indices ?c). ?hit i}. i \<le> j"
      using find_live_loop_least [OF _ sorted_scan_indices] by (auto simp: find_live_by_key_def)
    then have "Min {i \<in> set (scan_indices ?c). ?hit i} = i" by (intro Min_eqI) auto
    then show ?thesis using l(1) Some hits by (auto simp: live_slot_of_def)
  qed
qed

theorem find_live_equiv_witness:
  "find_live_by_key 9 (cy_cat (cat_after demo_catalog (demo_create @ demo_recycle))) = Some 0
   \<and> live_slot_of 9 (cy_cat (cat_after demo_catalog (demo_create @ demo_recycle))) = Some 0"
proof -
  have "find_live_by_key 9 (cy_cat (cat_after demo_catalog (demo_create @ demo_recycle))) = Some 0" by code_simp
  then show ?thesis using find_live_equiv [OF demo_cat_init, of 9 "demo_create @ demo_recycle"] by simp
qed

end
