(* ===== verification/Shm_Ledger.thy ===== *)
theory Shm_Ledger
  imports Shm_Pool Shm_Manifest Shm_Journal "HOL-Library.Multiset"
begin

text \<open>
  The chunk bookkeeping of \<^verbatim>\<open>crates/shm-artifact/src/artifact.rs\<close> (staging, publishing, releasing a chunk),
  of \<^verbatim>\<open>crates/shm-arrow/src/alloc.rs\<close> (the allocator over a pool) and of
  \<^verbatim>\<open>crates/shm-runtime/src/coordinator.rs\<close> (giving back what a dead process held). A chunk is named by its
  offset. The ledger is the account these operations keep: which chunks are handed out, which are loaned
  and to whom, and, as a multiset, the references that published chunks are held by. Shown: every
  operation moves the ledger as its name says, and a chunk is on the free list of its class exactly when
  the ledger does not mention it.
\<close>

section \<open>The data segment\<close>

text \<open>
  The pool and the bytes of its segment. The link word of a free chunk is the first word of its payload,
  so freeing a chunk overwrites its first four bytes.
\<close>

record arena =
  ar_pool :: pool
  ar_bytes :: "nat \<Rightarrow> u8"

definition write_bytes :: "nat \<Rightarrow> bytes \<Rightarrow> (nat \<Rightarrow> u8) \<Rightarrow> nat \<Rightarrow> u8" where
  "write_bytes off bs m = (\<lambda>x. if off \<le> x \<and> x < off + length bs then bs ! (x - off) else m x)"

definition arena_free :: "chunk_desc \<Rightarrow> arena \<Rightarrow> (shm_error + unit) \<times> arena" where
  "arena_free d a =
     (case pool_free (ar_pool a) d of
        (Inl e, p) \<Rightarrow> (Inl e, a\<lparr>ar_pool := p\<rparr>)
      | (Inr u, p) \<Rightarrow> (Inr u, a\<lparr>ar_pool := p,
          ar_bytes := write_bytes (unat (offset d)) (le_bytes 4 (mem p (unat (offset d) - HEADER_SIZE))) (ar_bytes a)\<rparr>))"

text \<open>\<^verbatim>\<open>PoolAllocator\<close>.\<close>

definition allocator_alloc :: "nat \<Rightarrow> arena \<Rightarrow> (arrow_error + chunk_desc) \<times> arena" where
  "allocator_alloc sz a =
     (if sz \<ge> 2 ^ 32 then (Inl (ArrowCore (LayoutOverflow ''batch larger than 4 GiB'')), a)
      else case pool_alloc (ar_pool a) (of_nat sz) of
        (Inl e, p) \<Rightarrow> (Inl (ArrowCore e), a\<lparr>ar_pool := p\<rparr>)
      | (Inr d, p) \<Rightarrow> (Inr d, a\<lparr>ar_pool := p\<rparr>))"

definition allocator_resolve :: "chunk_desc \<Rightarrow> nat" where
  "allocator_resolve d = unat (offset d)"

definition allocator_max_chunk_size :: "arena \<Rightarrow> nat" where
  "allocator_max_chunk_size a = unat (pool_max_chunk_size (ar_pool a))"

definition allocator_free :: "chunk_desc \<Rightarrow> arena \<Rightarrow> arena" where
  "allocator_free d a = snd (arena_free d a)"

text \<open>
  The operator \<^verbatim>\<open>?\<close>, and an operation on one control word. An index past the control array, which no pool
  that \<^verbatim>\<open>create\<close> laid out yields, reads as a free word.
\<close>

definition ctrl_get :: "pool \<Rightarrow> nat \<Rightarrow> chunk_ctrl" where
  "ctrl_get p g = (if g < length (ctrls p) then ctrls p ! g else init_at 0)"

definition try_do :: "('e + 'a) \<times> 's \<Rightarrow> ('a \<Rightarrow> 's \<Rightarrow> ('e + 'b) \<times> 's) \<Rightarrow> ('e + 'b) \<times> 's" where
  "try_do r k = (case r of (Inl e, s) \<Rightarrow> (Inl e, s) | (Inr x, s) \<Rightarrow> k x s)"

definition on_ctrl :: "nat \<Rightarrow> (chunk_ctrl \<Rightarrow> 'r \<times> chunk_ctrl) \<Rightarrow> arena \<Rightarrow> 'r \<times> arena" where
  "on_ctrl g f a =
     (case f (ctrl_get (ar_pool a) g) of
        (r, c) \<Rightarrow> (r, a\<lparr>ar_pool := (ar_pool a)\<lparr>ctrls := (ctrls (ar_pool a))[g := c]\<rparr>\<rparr>))"

definition on_ctrl_core :: "nat \<Rightarrow> (chunk_ctrl \<Rightarrow> (shm_error + 'r) \<times> chunk_ctrl) \<Rightarrow> arena \<Rightarrow> (artifact_error + 'r) \<times> arena" where
  "on_ctrl_core g f a = (case on_ctrl g f a of (r, a') \<Rightarrow> (map_sum ACore id r, a'))"

definition ctrl_of :: "chunk_desc \<Rightarrow> arena \<Rightarrow> (artifact_error + nat) \<times> arena" where
  "ctrl_of d a = (map_sum ACore id (pool_ctrl (ar_pool a) d), a)"

section \<open>Staging, publishing, releasing\<close>

definition stage_chunk ::
  "(arena \<Rightarrow> (artifact_error + chunk_desc) \<times> arena) \<Rightarrow> u32 \<Rightarrow> arena \<Rightarrow> (artifact_error + chunk_desc) \<times> arena" where
  "stage_chunk write owner a =
     try_do (write a) (\<lambda>desc a1.
     try_do (ctrl_of desc a1) (\<lambda>g a2.
     try_do (on_ctrl_core g (try_loan owner) a2) (\<lambda>_ a3.
     try_do (on_ctrl_core g publish a3) (\<lambda>_ a4.
     try_do (on_ctrl_core g borrow_shared a4) (\<lambda>_ a5.
       (Inr desc, snd (on_ctrl g owner_release a5)))))))"

definition publish_staged :: "chunk_desc \<Rightarrow> arena \<Rightarrow> (artifact_error + unit) \<times> arena" where
  "publish_staged desc a =
     try_do (ctrl_of desc a) (\<lambda>g a1.
     try_do (on_ctrl_core g publish a1) (\<lambda>_ a2.
     try_do (on_ctrl_core g borrow_shared a2) (\<lambda>_ a3.
       (Inr (), snd (on_ctrl g owner_release a3)))))"

definition drop_loan_of :: "chunk_desc \<Rightarrow> arena \<Rightarrow> (shm_error + unit) \<times> arena" where
  "drop_loan_of d a = (case pool_ctrl (ar_pool a) d of Inl e \<Rightarrow> (Inl e, a) | Inr g \<Rightarrow> on_ctrl g drop_loan a)"

text \<open>The loop of \<^verbatim>\<open>loan_all\<close>: \<open>done\<close> are the chunks already loaned, \<open>chunks\<close> all of them.\<close>

fun loan_loop :: "u32 \<Rightarrow> chunk_desc list \<Rightarrow> chunk_desc list \<Rightarrow> chunk_desc list \<Rightarrow> arena \<Rightarrow> (artifact_error + unit) \<times> arena" where
  "loan_loop owner chunks loaned [] a = (Inr (), a)"
| "loan_loop owner chunks loaned (d # ds) a =
     (case (case pool_ctrl (ar_pool a) d of Inl e \<Rightarrow> (Inl e, a) | Inr g \<Rightarrow> on_ctrl g (try_loan owner) a) of
        (Inr _, a') \<Rightarrow> loan_loop owner chunks (loaned @ [d]) ds a'
      | (Inl e, a') \<Rightarrow>
          (Inl (ACore e), fold allocator_free chunks (fold (\<lambda>d a. snd (drop_loan_of d a)) loaned a')))"

definition loan_all :: "chunk_desc list \<Rightarrow> u32 \<Rightarrow> arena \<Rightarrow> (artifact_error + unit) \<times> arena" where
  "loan_all chunks owner a = loan_loop owner chunks [] chunks a"

definition free_loaned :: "chunk_desc \<Rightarrow> arena \<Rightarrow> arena" where
  "free_loaned desc a =
     (case drop_loan_of desc a of (Inr _, a') \<Rightarrow> snd (arena_free desc a') | (Inl _, a') \<Rightarrow> a')"

definition release_chunk :: "chunk_desc \<Rightarrow> arena \<Rightarrow> bool \<times> arena" where
  "release_chunk desc a =
     (case pool_ctrl (ar_pool a) desc of
        Inl _ \<Rightarrow> (False, a)
      | Inr g \<Rightarrow>
          let c = ctrl_get (ar_pool a) g in
          if validate c desc = Inr () \<and> ctrl_state c = PUBLISHED then
            (case on_ctrl g release_shared a of
               (True, a') \<Rightarrow> (True, snd (arena_free desc a'))
             | (False, a') \<Rightarrow> (False, a'))
          else (False, a))"

definition manifest_chunk_desc :: "u64 \<Rightarrow> u32 \<Rightarrow> chunk_desc" where
  "manifest_chunk_desc mref gen =
     \<lparr>segment_id = ref_segment_id mref, generation = gen, offset = ref_offset mref, len = 0, schema_id = 0, desc_pad = 0\<rparr>"

definition release_chunk_owned :: "chunk_desc \<Rightarrow> arena \<Rightarrow> bool \<times> arena" where
  "release_chunk_owned desc a =
     (case pool_ctrl (ar_pool a) desc of
        Inl _ \<Rightarrow> (False, a)
      | Inr g \<Rightarrow>
          if ctrl_state (ctrl_get (ar_pool a) g) = PUBLISHED then
            (case on_ctrl g release_shared a of
               (True, a') \<Rightarrow> (True, snd (arena_free desc a'))
             | (False, a') \<Rightarrow> (False, a'))
          else (False, a))"

section \<open>Giving back what a dead process held\<close>

definition reclaim_one :: "chunk_desc \<Rightarrow> u32 \<Rightarrow> arena \<Rightarrow> chunk_desc option \<times> arena" where
  "reclaim_one desc actor a =
     (case pool_ctrl (ar_pool a) desc of
        Inl _ \<Rightarrow> (None, a)
      | Inr g \<Rightarrow>
          let c = ctrl_get (ar_pool a) g in
          if validate c desc \<noteq> Inr () then (None, a)
          else case
            (if ctrl_state c = PUBLISHED then
               (if refcount c > 0 then on_ctrl g release_shared a else on_ctrl g owner_release a)
             else if ctrl_state c = LOANED then
               (if owner_actor c = actor then (case on_ctrl g drop_loan a of (r, a') \<Rightarrow> (r = Inr (), a')) else (False, a))
             else (False, a)) of
            (True, a') \<Rightarrow> (Some desc, snd (arena_free desc a'))
          | (False, a') \<Rightarrow> (None, a'))"

fun reclaim_records :: "u32 \<Rightarrow> journal_record list \<Rightarrow> arena \<Rightarrow> chunk_desc list \<times> arena" where
  "reclaim_records actor [] a = ([], a)"
| "reclaim_records actor (r # rs) a =
     (case (case r of ChunkPin d \<Rightarrow> reclaim_one d actor a | _ \<Rightarrow> (None, a)) of
        (x, a') \<Rightarrow> (case reclaim_records actor rs a' of
           (ds, a'') \<Rightarrow> (case x of None \<Rightarrow> (ds, a'') | Some d \<Rightarrow> (d # ds, a''))))"

definition replay_and_reclaim :: "journal \<Rightarrow> u32 \<Rightarrow> arena \<Rightarrow> chunk_desc list \<times> arena" where
  "replay_and_reclaim j actor a = reclaim_records actor (replay j) a"

section \<open>Chunks by offset\<close>

definition places :: "pool \<Rightarrow> u32 set" where
  "places p = {off. \<exists>r. locate p off = Inr r}"

definition idx :: "pool \<Rightarrow> u32 \<Rightarrow> nat" where
  "idx p off = (case locate p off of Inr (_, _, g) \<Rightarrow> g | Inl _ \<Rightarrow> 0)"

definition csize :: "pool \<Rightarrow> u32 \<Rightarrow> nat" where
  "csize p off = (case locate p off of Inr (i, _, _) \<Rightarrow> unat (chunk_size (classes p ! i)) | Inl _ \<Rightarrow> 0)"

lemma placesE:
  assumes "off \<in> places p"
  obtains i x where "locate p off = Inr (i, x, idx p off)" "csize p off = unat (chunk_size (classes p ! i))"
  using assms that unfolding places_def by (auto simp: idx_def csize_def split: sum.splits)

lemma pool_ctrl_place: "offset d \<in> places p \<Longrightarrow> pool_ctrl p d = Inr (idx p (offset d))"
  by (erule placesE) (simp add: pool_ctrl_def)

lemma idx_less:
  assumes "geometry_ok (classes p) (length (ctrls p))" "off \<in> places p"
  shows "idx p off < length (ctrls p)"
proof -
  obtain i x where l: "locate p off = Inr (i, x, idx p off)" by (rule placesE [OF assms(2)])
  show ?thesis using geometry_okD(4) [OF assms(1) locate_range(1) [OF l]] locate_range(2,3) [OF l]
    by (simp add: word_less_nat_alt)
qed

lemma places_apart:
  assumes geo: "geometry_ok (classes p) n" and off: "off \<in> places p" "off' \<in> places p" "off \<noteq> off'"
  shows "unat off + csize p off \<le> unat off' \<or> unat off' + csize p off' \<le> unat off" and "idx p off \<noteq> idx p off'"
proof -
  obtain i x where l: "locate p off = Inr (i, x, idx p off)" "csize p off = unat (chunk_size (classes p ! i))"
    by (rule placesE [OF off(1)])
  obtain j y where k: "locate p off' = Inr (j, y, idx p off')" "csize p off' = unat (chunk_size (classes p ! j))"
    by (rule placesE [OF off(2)])
  note rl = locate_range [OF l(1)] and rk = locate_range [OF k(1)]
  have ne: "i \<noteq> j \<or> x \<noteq> y" using rl(4) rk(4) off(3) by (metis word_unat_eq_iff)
  show "unat off + csize p off \<le> unat off' \<or> unat off' + csize p off' \<le> unat off"
  proof (cases "i = j")
    case True
    have "unat x < unat y \<or> unat y < unat x" using ne True by (metis linorder_neq_iff word_unat_eq_iff)
    then show ?thesis
      using True rl rk l k mult_le_mono1 [of "Suc (unat x)" "unat y" "unat (chunk_size (classes p ! i))"]
        mult_le_mono1 [of "Suc (unat y)" "unat x" "unat (chunk_size (classes p ! i))"]
      by (auto simp: chunk_ptr_def)
  next
    case False
    then show ?thesis
      using geometry_okD(5) [OF geo rl(1), of j] geometry_okD(5) [OF geo rk(1), of i] rl(4) rk(4) l k
        chunk_ptr_bounds [OF rl(2)] chunk_ptr_bounds [OF rk(2)] by (cases "i < j") auto
  qed
  show "idx p off \<noteq> idx p off'"
  proof (cases "i = j")
    case True
    then show ?thesis using ne rl(3) rk(3) by (simp add: word_unat_eq_iff)
  next
    case False
    have *: "unat (base_index (classes p ! a)) + unat (chunk_count (classes p ! a)) \<le> unat (base_index (classes p ! b))"
      if "a < b" "b < length (classes p)" for a b
      using geo that unfolding geometry_ok_def by blast
    show ?thesis using False *[of i j] *[of j i] rl rk by (cases "i < j") (auto simp: word_less_nat_alt)
  qed
qed

text \<open>Two pools laid out alike.\<close>

definition dims :: "class_header \<Rightarrow> u32 \<times> u32 \<times> u32 \<times> u32" where
  "dims c = (chunk_size c, chunk_count c, base_index c, data_offset c)"

definition same_shape :: "pool \<Rightarrow> pool \<Rightarrow> bool" where
  "same_shape p q \<longleftrightarrow> pl_segment q = pl_segment p \<and> length (ctrls q) = length (ctrls p) \<and> map dims (classes q) = map dims (classes p)"

lemma locate_loop_dims: "map dims cs = map dims ds \<Longrightarrow> locate_loop cs n off = locate_loop ds n off"
proof (induction cs arbitrary: ds n)
  case (Cons c cs)
  then obtain e es where d: "ds = e # es" "dims c = dims e" "map dims cs = map dims es" by (cases ds) auto
  then show ?case using Cons.IH [OF d(3), of "Suc n"] by (simp add: dims_def Let_def)
qed simp

lemma same_shape_refl [simp]: "same_shape p p"
  by (simp add: same_shape_def)

lemma same_shape_trans: "same_shape p q \<Longrightarrow> same_shape q r \<Longrightarrow> same_shape p r"
  by (simp add: same_shape_def)

lemma same_shape_size:
  assumes "same_shape p q" "i < length (classes p)"
  shows "chunk_size (classes q ! i) = chunk_size (classes p ! i)"
proof -
  have "map dims (classes q) ! i = map dims (classes p) ! i" and "length (classes q) = length (classes p)"
    using assms(1) unfolding same_shape_def by (simp, metis length_map)
  then show ?thesis using assms(2) by (simp add: dims_def)
qed

lemma same_shape_locate:
  assumes "same_shape p q"
  shows "locate q = locate p" "places q = places p" "idx q = idx p" "csize q = csize p"
proof -
  show l: "locate q = locate p"
  proof
    fix off :: u32
    have "locate_loop (classes q) 0 (unat off - HEADER_SIZE) = locate_loop (classes p) 0 (unat off - HEADER_SIZE)"
      using assms by (intro locate_loop_dims) (simp add: same_shape_def)
    then show "locate q off = locate p off" by (simp add: locate_def Let_def)
  qed
  then show "places q = places p" "idx q = idx p" by (simp_all add: places_def idx_def fun_eq_iff)
  show "csize q = csize p"
  proof
    fix off
    show "csize q off = csize p off"
      using same_shape_size [OF assms] locate_range(1) [of p off] by (auto simp: csize_def l split: sum.splits)
  qed
qed
section \<open>The ledger\<close>

text \<open>
  \<open>A\<close>: handed out by the allocator and not loaned yet. \<open>L\<close>: loaned, and to whom. \<open>R\<close>: the references that
  published chunks are held by, their owners gone. Everything else is free.
\<close>

definition owed :: "(u32 \<rightharpoonup> u32) \<Rightarrow> u32 multiset \<Rightarrow> u32 \<Rightarrow> chunk_life" where
  "owed L R off = (case L off of Some ow \<Rightarrow> Loaned ow
     | None \<Rightarrow> if off \<in># R then Published None (count R off) else chunk_life.Free)"

definition chunk_at :: "arena \<Rightarrow> u32 \<Rightarrow> chunk_ctrl" where
  "chunk_at a off = ctrl_get (ar_pool a) (idx (ar_pool a) off)"

abbreviation gen_at :: "arena \<Rightarrow> u32 \<Rightarrow> u32" where
  "gen_at a off \<equiv> ctrl_generation (chunk_at a off)"

definition free_offs :: "pool \<Rightarrow> u32 list list \<Rightarrow> u32 set" where
  "free_offs p fs = {off. \<exists>i x g. locate p off = Inr (i, x, g) \<and> x \<in> set (fs ! i)}"

definition in_segment :: "pool \<Rightarrow> bool" where
  "in_segment p \<longleftrightarrow> (\<forall>c \<in> set (classes p). HEADER_SIZE + unat (data_offset c) + span c \<le> seg_size (pl_segment p))"

definition accounts :: "pool \<Rightarrow> u32 set \<Rightarrow> (u32 \<rightharpoonup> u32) \<Rightarrow> u32 multiset \<Rightarrow> bool" where
  "accounts p A L R \<longleftrightarrow> A \<subseteq> places p \<and> dom L \<subseteq> places p \<and> set_mset R \<subseteq> places p
     \<and> A \<inter> dom L = {} \<and> A \<inter> set_mset R = {} \<and> dom L \<inter> set_mset R = {}"

definition ledger :: "arena \<Rightarrow> u32 set \<Rightarrow> (u32 \<rightharpoonup> u32) \<Rightarrow> u32 multiset \<Rightarrow> bool" where
  "ledger a A L R \<longleftrightarrow> accounts (ar_pool a) A L R \<and> in_segment (ar_pool a)
     \<and> (\<exists>fs. pool_inv (ar_pool a) fs \<and> free_offs (ar_pool a) fs = places (ar_pool a) - A - dom L - set_mset R)
     \<and> (\<forall>off \<in> places (ar_pool a). ctrl_ok (chunk_at a off) \<and> abs_ctrl (chunk_at a off) = owed L R off)"

text \<open>What an operation leaves alone: the chunks outside \<open>S\<close>, their generations and their bytes.\<close>

definition keeps :: "u32 set \<Rightarrow> arena \<Rightarrow> arena \<Rightarrow> bool" where
  "keeps S a b \<longleftrightarrow> same_shape (ar_pool a) (ar_pool b)
     \<and> (\<forall>off \<in> places (ar_pool a) - S. gen_at b off = gen_at a off
          \<and> (\<forall>x. unat off \<le> x \<and> x < unat off + csize (ar_pool a) off \<longrightarrow> ar_bytes b x = ar_bytes a x))"

text \<open>The chunks that are neither referred to nor loaned.\<close>

abbreviation spare :: "(u32 \<rightharpoonup> u32) \<Rightarrow> u32 multiset \<Rightarrow> u32 set" where
  "spare L R \<equiv> {off. off \<notin># R \<and> L off = None}"

lemma keeps_refl [simp]: "keeps S a a"
  by (simp add: keeps_def)

lemma keeps_trans:
  assumes "keeps S a b" "keeps T b c"
  shows "keeps (S \<union> T) a c"
proof -
  have s: "same_shape (ar_pool a) (ar_pool b)" "same_shape (ar_pool b) (ar_pool c)" using assms by (simp_all add: keeps_def)
  note eq = same_shape_locate(2,4) [OF s(1)]
  show ?thesis using assms same_shape_trans [OF s] unfolding keeps_def eq by auto
qed

lemma keeps_mono: "keeps S a b \<Longrightarrow> S \<subseteq> T \<Longrightarrow> keeps T a b"
  unfolding keeps_def by blast

lemma keeps_shape: "keeps S a b \<Longrightarrow> same_shape (ar_pool a) (ar_pool b)"
  by (simp add: keeps_def)

lemma keeps_places: "keeps S a b \<Longrightarrow> places (ar_pool b) = places (ar_pool a)"
  by (rule same_shape_locate(2)) (rule keeps_shape)

lemma keeps_gen: "keeps S a b \<Longrightarrow> off \<in> places (ar_pool a) \<Longrightarrow> off \<notin> S \<Longrightarrow> gen_at b off = gen_at a off"
  by (simp add: keeps_def)

lemma ledger_geometry: "ledger a A L R \<Longrightarrow> geometry_ok (classes (ar_pool a)) (length (ctrls (ar_pool a)))"
  by (auto simp: ledger_def pool_inv_def)

lemma ledger_refs: "ledger a A L R \<Longrightarrow> off \<in># R \<Longrightarrow> off \<in> places (ar_pool a)"
  by (auto simp: ledger_def accounts_def)

lemma ledger_loans: "ledger a A L R \<Longrightarrow> L off = Some ow \<Longrightarrow> off \<in> places (ar_pool a)"
  by (auto simp: ledger_def accounts_def)

lemma ledger_chunk:
  "ledger a A L R \<Longrightarrow> off \<in> places (ar_pool a) \<Longrightarrow> ctrl_ok (chunk_at a off) \<and> abs_ctrl (chunk_at a off) = owed L R off"
  by (simp add: ledger_def)

text \<open>Rewriting one control word.\<close>

definition set_chunk :: "u32 \<Rightarrow> chunk_ctrl \<Rightarrow> arena \<Rightarrow> arena" where
  "set_chunk off c a = a\<lparr>ar_pool := (ar_pool a)\<lparr>ctrls := (ctrls (ar_pool a))[idx (ar_pool a) off := c]\<rparr>\<rparr>"

lemma locate_ctrls [simp]: "locate (p\<lparr>ctrls := cs\<rparr>) = locate p"
  by (simp add: locate_def fun_eq_iff Let_def)

lemma places_ctrls [simp]: "places (p\<lparr>ctrls := cs\<rparr>) = places p" "idx (p\<lparr>ctrls := cs\<rparr>) = idx p" "csize (p\<lparr>ctrls := cs\<rparr>) = csize p"
  by (simp_all add: places_def idx_def csize_def fun_eq_iff split: sum.split)

lemma set_chunk_simps [simp]:
  "ar_bytes (set_chunk off c a) = ar_bytes a" "classes (ar_pool (set_chunk off c a)) = classes (ar_pool a)"
  "mem (ar_pool (set_chunk off c a)) = mem (ar_pool a)" "places (ar_pool (set_chunk off c a)) = places (ar_pool a)"
  "idx (ar_pool (set_chunk off c a)) = idx (ar_pool a)" "locate (ar_pool (set_chunk off c a)) = locate (ar_pool a)"
  "same_shape (ar_pool a) (ar_pool (set_chunk off c a))" "pl_segment (ar_pool (set_chunk off c a)) = pl_segment (ar_pool a)"
  by (simp_all add: set_chunk_def same_shape_def)

lemma on_ctrl_place:
  "on_ctrl (idx (ar_pool a) off) f a = (fst (f (chunk_at a off)), set_chunk off (snd (f (chunk_at a off))) a)"
  by (simp add: on_ctrl_def set_chunk_def chunk_at_def split: prod.splits)

lemma chunk_at_set:
  assumes "geometry_ok (classes (ar_pool a)) (length (ctrls (ar_pool a)))" "off \<in> places (ar_pool a)" "o' \<in> places (ar_pool a)"
  shows "chunk_at (set_chunk off c a) o' = (if o' = off then c else chunk_at a o')"
  using idx_less [OF assms(1,2)] places_apart(2) [OF assms] by (auto simp: chunk_at_def set_chunk_def ctrl_get_def nth_list_update)

lemma pool_inv_ctrls: "length cs = length (ctrls p) \<Longrightarrow> pool_inv (p\<lparr>ctrls := cs\<rparr>) fs \<longleftrightarrow> pool_inv p fs"
  by (simp add: pool_inv_def)

text \<open>One control word moves, the free lists do not.\<close>

lemma ledger_set_chunk:
  assumes led: "ledger a A L R" and off: "off \<in> places (ar_pool a)"
    and acc: "accounts (ar_pool a) A' L' R'" and same: "A' \<union> dom L' \<union> set_mset R' = A \<union> dom L \<union> set_mset R"
    and c: "ctrl_ok c" "abs_ctrl c = owed L' R' off" and oth: "\<And>o'. o' \<noteq> off \<Longrightarrow> owed L' R' o' = owed L R o'"
  shows "ledger (set_chunk off c a) A' L' R'"
proof -
  note geo = ledger_geometry [OF led]
  obtain fs where fs: "pool_inv (ar_pool a) fs" "free_offs (ar_pool a) fs = places (ar_pool a) - A - dom L - set_mset R"
    using led by (auto simp: ledger_def)
  have inv: "pool_inv (ar_pool (set_chunk off c a)) fs" using fs(1) by (simp add: set_chunk_def pool_inv_ctrls)
  have "free_offs (ar_pool (set_chunk off c a)) fs = places (ar_pool a) - A' - dom L' - set_mset R'"
  proof -
    have "places (ar_pool a) - A' - dom L' - set_mset R' = places (ar_pool a) - (A' \<union> dom L' \<union> set_mset R')" by blast
    also have "\<dots> = places (ar_pool a) - A - dom L - set_mset R" by (simp only: same) blast
    finally show ?thesis using fs(2) by (simp add: free_offs_def)
  qed
  moreover have "ctrl_ok (chunk_at (set_chunk off c a) o') \<and> abs_ctrl (chunk_at (set_chunk off c a) o') = owed L' R' o'"
    if "o' \<in> places (ar_pool a)" for o'
    using c oth ledger_chunk [OF led that] chunk_at_set [OF geo off that] by simp
  moreover have "in_segment (ar_pool (set_chunk off c a))" using led by (simp add: ledger_def in_segment_def)
  moreover have "accounts (ar_pool (set_chunk off c a)) A' L' R'" using acc by (simp add: accounts_def)
  ultimately show ?thesis using inv unfolding ledger_def by auto
qed

lemma keeps_set_chunk:
  assumes "ledger a A L R" "off \<in> places (ar_pool a)" "off \<in> S \<or> ctrl_generation c = gen_at a off"
  shows "keeps S a (set_chunk off c a)"
  using assms chunk_at_set [OF ledger_geometry [OF assms(1)] assms(2)] by (auto simp: keeps_def)
section \<open>Allocating and freeing\<close>

lemma same_shape_head: "same_shape p ((set_head p i h)\<lparr>mem := m\<rparr>)" "same_shape p (set_head p i h)"
proof -
  have "map dims (classes (set_head p i h)) = map dims (classes p)"
  proof (rule nth_equalityI)
    fix k assume "k < length (map dims (classes (set_head p i h)))"
    then show "map dims (classes (set_head p i h)) ! k = map dims (classes p) ! k"
      by (cases "k = i") (simp_all add: set_head_def dims_def)
  qed (simp add: set_head_def)
  then show "same_shape p ((set_head p i h)\<lparr>mem := m\<rparr>)" "same_shape p (set_head p i h)"
    by (simp_all add: same_shape_def set_head_def)
qed

lemma in_segment_shape: "same_shape p q \<Longrightarrow> in_segment q \<longleftrightarrow> in_segment p"
proof -
  assume s: "same_shape p q"
  have *: "in_segment r \<longleftrightarrow> (\<forall>(sz, n, b, d) \<in> set (map dims (classes r)). HEADER_SIZE + unat d + unat n * unat sz \<le> seg_size (pl_segment r))" for r
    by (auto simp: in_segment_def dims_def)
  show ?thesis unfolding * using s by (simp add: same_shape_def)
qed

lemma place_unique:
  assumes "locate p off = Inr (i, x, g)" "locate p off' = Inr (i, x, g')"
  shows "off' = off"
  using locate_range(4) [OF assms(1)] locate_range(4) [OF assms(2)] by (metis word_unat_eq_iff)

lemma in_free_offs: "locate p off = Inr (i, x, g) \<Longrightarrow> off \<in> free_offs p fs \<longleftrightarrow> x \<in> set (fs ! i)"
  by (simp add: free_offs_def)

lemma free_offs_places: "free_offs p fs \<subseteq> places p"
  by (auto simp: free_offs_def places_def)

lemma free_offs_upd:
  assumes loc: "locate p off = Inr (i, x, g)" and i: "i < length fs" and q: "locate q = locate p"
  shows "free_offs q (fs[i := x # fs ! i]) = insert off (free_offs p fs)"
    and "fs ! i = x # xs \<Longrightarrow> x \<notin> set xs \<Longrightarrow> free_offs q (fs[i := xs]) = free_offs p fs - {off}"
proof -
  have pq: "places q = places p" by (simp add: places_def q)
  have off: "off \<in> places p" using loc by (auto simp: places_def)
  have 1: "o' \<in> free_offs q (fs[i := x # fs ! i]) \<longleftrightarrow> o' \<in> insert off (free_offs p fs)" if "o' \<in> places p" for o'
  proof -
    obtain j y where l: "locate p o' = Inr (j, y, idx p o')" using placesE [OF \<open>o' \<in> places p\<close>] by blast
    have "o' = off \<longleftrightarrow> j = i \<and> y = x"
    proof
      assume "j = i \<and> y = x"
      then show "o' = off" using place_unique [OF loc] l by blast
    qed (use l loc in auto)
    then show ?thesis using in_free_offs [OF l] in_free_offs [of q, unfolded q, OF l] i by (auto simp: nth_list_update)
  qed
  then show "free_offs q (fs[i := x # fs ! i]) = insert off (free_offs p fs)"
    using off free_offs_places [of q] free_offs_places [of p] pq by blast
  assume xs: "fs ! i = x # xs" "x \<notin> set xs"
  have "o' \<in> free_offs q (fs[i := xs]) \<longleftrightarrow> o' \<in> free_offs p fs - {off}" if "o' \<in> places p" for o'
  proof -
    obtain j y where l: "locate p o' = Inr (j, y, idx p o')" using placesE [OF \<open>o' \<in> places p\<close>] by blast
    have "o' = off \<longleftrightarrow> j = i \<and> y = x"
    proof
      assume "j = i \<and> y = x"
      then show "o' = off" using place_unique [OF loc] l by blast
    qed (use l loc in auto)
    then show ?thesis using in_free_offs [OF l] in_free_offs [of q, unfolded q, OF l] i xs by (auto simp: nth_list_update)
  qed
  then show "free_offs q (fs[i := xs]) = free_offs p fs - {off}"
    using off free_offs_places [of q] free_offs_places [of p] pq by blast
qed

text \<open>A pool whose heads and links moved, the control words as they were.\<close>

lemma ledger_relink:
  assumes led: "ledger a A L R" and sh: "same_shape (ar_pool a) (ar_pool b)" and ct: "ctrls (ar_pool b) = ctrls (ar_pool a)"
    and acc: "accounts (ar_pool a) A' L R"
    and fs: "pool_inv (ar_pool b) fs" "free_offs (ar_pool b) fs = places (ar_pool a) - A' - dom L - set_mset R"
  shows "ledger b A' L R"
proof -
  note eq = same_shape_locate [OF sh]
  have "chunk_at b = chunk_at a" by (simp add: chunk_at_def fun_eq_iff ctrl_get_def ct eq)
  moreover have "in_segment (ar_pool b)" using led in_segment_shape [OF sh] by (simp add: ledger_def)
  moreover have "accounts (ar_pool b) A' L R" using acc by (simp add: accounts_def eq)
  ultimately show ?thesis using led fs unfolding ledger_def eq by auto
qed

lemma ledger_free:
  assumes led: "ledger a A L R" and off: "offset d \<in> A"
  obtains b where "arena_free d a = (Inr (), b)" "ledger b (A - {offset d}) L R" "keeps {offset d} a b"
proof -
  let ?p = "ar_pool a" and ?o = "offset d"
  have acc: "accounts ?p A L R" using led by (simp add: ledger_def)
  obtain fs where fs: "pool_inv ?p fs" "free_offs ?p fs = places ?p - A - dom L - set_mset R"
    using led by (auto simp: ledger_def)
  have o: "?o \<in> places ?p" using acc off by (auto simp: accounts_def)
  then obtain i x where loc: "locate ?p ?o = Inr (i, x, idx ?p ?o)" "csize ?p ?o = unat (chunk_size (classes ?p ! i))"
    by (rule placesE)
  have x: "x \<notin> set (fs ! i)" using fs(2) off loc(1) by (auto simp: free_offs_def)
  obtain h m where fr: "pool_free ?p d = (Inr (), (set_head ?p i h)\<lparr>mem := m\<rparr>)"
    and inv: "pool_inv ((set_head ?p i h)\<lparr>mem := m\<rparr>) (fs[i := x # fs ! i])"
    by (rule pool_free_located [OF fs(1) loc(1) x])
  define q where "q = (set_head ?p i h)\<lparr>mem := m\<rparr>"
  define b where "b = a\<lparr>ar_pool := q, ar_bytes := write_bytes (unat ?o) (le_bytes 4 (mem q (unat ?o - HEADER_SIZE))) (ar_bytes a)\<rparr>"
  have fb: "arena_free d a = (Inr (), b)" by (simp add: arena_free_def fr b_def q_def)
  have bq: "ar_pool b = q" by (simp add: b_def)
  have sh: "same_shape ?p (ar_pool b)" unfolding bq q_def by (rule same_shape_head)
  have il: "i < length fs" using locate_range(1) [OF loc(1)] fs(1) by (simp add: pool_inv_def)
  have "free_offs q (fs[i := x # fs ! i]) = insert ?o (free_offs ?p fs)"
    by (rule free_offs_upd(1) [OF loc(1) il]) (simp add: q_def)
  then have "free_offs q (fs[i := x # fs ! i]) = places ?p - (A - {?o}) - dom L - set_mset R"
    using fs(2) off acc o by (auto simp: accounts_def)
  moreover have "accounts ?p (A - {?o}) L R" using acc by (auto simp: accounts_def)
  moreover have "ctrls (ar_pool b) = ctrls ?p" by (simp add: bq q_def)
  ultimately have lb: "ledger b (A - {?o}) L R" using ledger_relink [OF led sh] inv by (simp add: bq q_def)
  have ca: "chunk_at b = chunk_at a" using same_shape_locate(3) [OF sh] by (simp add: chunk_at_def fun_eq_iff ctrl_get_def bq) (simp add: q_def)
  have "ar_bytes b y = ar_bytes a y"
    if "o' \<in> places ?p" "o' \<noteq> ?o" "unat o' \<le> y" "y < unat o' + csize ?p o'" for o' y
  proof -
    have "4 \<le> csize ?p ?o" using geometry_okD(2) [OF ledger_geometry [OF led] locate_range(1) [OF loc(1)]] loc(2) by simp
    then show ?thesis using places_apart(1) [OF ledger_geometry [OF led] o that(1)] that by (auto simp: b_def write_bytes_def)
  qed
  then have "keeps {?o} a b" using sh ca unfolding keeps_def by auto
  then show thesis using that fb lb by blast
qed

lemma ledger_alloc:
  assumes led: "ledger a A L R" and al: "allocator_alloc n a = (r, b)"
  shows "case r of Inl e \<Rightarrow> b = a
     | Inr d \<Rightarrow> n < 2 ^ 32 \<and> ledger b (insert (offset d) A) L R \<and> offset d \<in> places (ar_pool a) \<and> offset d \<notin> A
         \<and> L (offset d) = None \<and> offset d \<notin># R \<and> generation d = gen_at a (offset d)
         \<and> n \<le> unat (len d) \<and> unat (len d) = csize (ar_pool a) (offset d)
         \<and> segment_id d = seg_id (pl_segment (ar_pool a))
         \<and> keeps {} a b \<and> chunk_at b = chunk_at a \<and> ar_bytes b = ar_bytes a"
proof -
  let ?p = "ar_pool a" and ?n = "of_nat n :: u32"
  have acc: "accounts ?p A L R" using led by (simp add: ledger_def)
  obtain fs where fs: "pool_inv ?p fs" "free_offs ?p fs = places ?p - A - dom L - set_mset R"
    using led by (auto simp: ledger_def)
  have err: ?thesis if "n \<ge> 2 ^ 32 \<or> (\<exists>e. pool_alloc ?p ?n = (Inl e, ?p))"
    using that al by (auto simp: allocator_alloc_def split: if_splits)
  show ?thesis
  proof (cases "n \<ge> 2 ^ 32")
    case False
    then have un: "unat ?n = n" by (simp add: unat_of_nat_u32)
    show ?thesis
    proof (cases "find_class (classes ?p) ?n")
      case None
      then show ?thesis by (intro err) (simp add: pool_alloc_def)
    next
      case (Some i)
      show ?thesis
      proof (cases "fs ! i")
        case Nil
        then show ?thesis using pool_alloc_cases(1) [OF fs(1) Some] by (intro err) simp
      next
        case (Cons x xs)
        obtain h where h: "pool_alloc ?p ?n = (Inr (desc_of ?p i x), set_head ?p i h)"
          "pool_inv (set_head ?p i h) (fs[i := xs])"
          using pool_alloc_cases(2) [OF fs(1) Some Cons] by blast
        let ?d = "desc_of ?p i x" and ?b = "a\<lparr>ar_pool := set_head ?p i h\<rparr>"
        have r: "r = Inr ?d" "b = ?b" using al False h(1) by (auto simp: allocator_alloc_def)
        have il: "i < length (classes ?p)" "i < length fs" and sz: "?n \<le> chunk_size (classes ?p ! i)"
          using find_class_Some [OF Some] fs(1) by (simp_all add: pool_inv_def)
        have x: "x < chunk_count (classes ?p ! i)" "x \<notin> set xs"
          using pool_inv_free_local [OF fs(1) il(2)] fs(1) il Cons by (auto simp: pool_inv_def class_free_def stack_of_def)
        have loc: "locate ?p (offset ?d) = Inr (i, x, unat (base_index (classes ?p ! i)) + unat x)"
          by (rule offset_desc_of(2) [OF ledger_geometry [OF led] il(1) x(1)])
        have pl: "offset ?d \<in> places ?p" using loc by (auto simp: places_def)
        have fr: "offset ?d \<in> free_offs ?p fs" using loc Cons by (auto simp: free_offs_def)
        then have new: "offset ?d \<notin> A" "L (offset ?d) = None" "offset ?d \<notin># R" using fs(2) by auto
        have sh: "same_shape ?p (ar_pool ?b)" using same_shape_head(2) by simp
        have "free_offs (set_head ?p i h) (fs[i := xs]) = free_offs ?p fs - {offset ?d}"
          by (rule free_offs_upd(2) [OF loc il(2) _ Cons x(2)]) simp
        then have "free_offs (ar_pool ?b) (fs[i := xs]) = places ?p - insert (offset ?d) A - dom L - set_mset R" using fs(2) by auto
        moreover have "accounts ?p (insert (offset ?d) A) L R" using acc new pl by (auto simp: accounts_def)
        ultimately have lb: "ledger ?b (insert (offset ?d) A) L R" using ledger_relink [OF led sh] h(2) by simp
        have ca: "chunk_at ?b = chunk_at a" by (simp add: chunk_at_def fun_eq_iff idx_def ctrl_get_def)
        have "generation ?d = gen_at a (offset ?d)"
          using loc idx_less [OF ledger_geometry [OF led] pl] by (simp add: chunk_at_def ctrl_get_def idx_def desc_of_def Let_def)
        moreover have "n \<le> unat (len ?d)" "unat (len ?d) = csize ?p (offset ?d)"
          using sz un loc by (simp_all add: csize_def desc_of_def Let_def word_le_nat_alt)
        moreover have "keeps {} a ?b" using sh ca by (simp add: keeps_def)
        ultimately show ?thesis using False r lb pl new ca by (simp add: desc_of_def Let_def)
      qed
    qed
  qed (use err in blast)
qed
section \<open>What each operation does to the ledger\<close>

lemma ledger_exec:
  assumes led: "ledger a A L R" and off: "off \<in> places (ar_pool a)" and legal: "legal opn (chunk_at a off)"
    and step: "life_step opn (owed L R off) = (res, owed L' R' off)"
    and acc: "accounts (ar_pool a) A' L' R'" and same: "A' \<union> dom L' \<union> set_mset R' = A \<union> dom L \<union> set_mset R"
    and oth: "\<And>o'. o' \<noteq> off \<Longrightarrow> owed L' R' o' = owed L R o'"
  shows "fst (exec opn (chunk_at a off)) = res \<and> ledger (set_chunk off (snd (exec opn (chunk_at a off))) a) A' L' R'"
proof -
  let ?c = "chunk_at a off"
  obtain b c where e: "exec opn ?c = (b, c)" by fastforce
  have ok: "ctrl_ok ?c" "abs_ctrl ?c = owed L R off" using ledger_chunk [OF led off] by simp_all
  have "ctrl_ok c" "life_step opn (abs_ctrl ?c) = (b, abs_ctrl c)"
    using exec_implements [OF ok(1) legal] by (auto simp: implements_def e)
  then show ?thesis using ledger_set_chunk [OF led off acc same _ _ oth, of c] step ok(2) e by simp
qed

lemma owed_simps:
  "L off = Some ow \<Longrightarrow> owed L R off = Loaned ow"
  "L off = None \<Longrightarrow> off \<in># R \<Longrightarrow> owed L R off = Published None (count R off)"
  "L off = None \<Longrightarrow> off \<notin># R \<Longrightarrow> owed L R off = chunk_life.Free"
  by (simp_all add: owed_def)

lemma owed_cong: "L' off = L off \<Longrightarrow> count R' off = count R off \<Longrightarrow> owed L' R' off = owed L R off"
  by (simp add: owed_def count_greater_zero_iff [symmetric] del: count_greater_zero_iff split: option.split)

lemma ledger_disjoint:
  assumes "ledger a A L R"
  shows "off \<in> A \<Longrightarrow> L off = None" "off \<in> A \<Longrightarrow> off \<notin># R" "off \<in># R \<Longrightarrow> L off = None" "off \<in> A \<Longrightarrow> off \<in> places (ar_pool a)"
    "L off = Some ow \<Longrightarrow> off \<notin># R" "L off = Some ow \<Longrightarrow> off \<notin> A" "off \<in># R \<Longrightarrow> off \<notin> A"
  using assms unfolding ledger_def accounts_def by (cases "L off"; auto)+

lemma exec_gen_kept:
  "ctrl_generation (snd (try_loan ow c)) = ctrl_generation c"
  "ctrl_generation (snd (publish c)) = ctrl_generation c"
  "ctrl_generation (snd (borrow_shared c)) = ctrl_generation c"
  "\<not> fst (release_shared c) \<Longrightarrow> ctrl_generation (snd (release_shared c)) = ctrl_generation c"
  by (auto simp: try_loan_def publish_def borrow_shared_def release_shared_def try_reclaim_def Let_def split: prod.splits bool.splits if_splits)

text \<open>Loaning a chunk that was handed out.\<close>

lemma ledger_loan:
  assumes led: "ledger a A L R" and off: "off \<in> A" and ow: "ow \<noteq> OWNER_NONE"
  shows "try_loan ow (chunk_at a off) = (Inr (), snd (try_loan ow (chunk_at a off)))
    \<and> ledger (set_chunk off (snd (try_loan ow (chunk_at a off))) a) (A - {off}) (L(off \<mapsto> ow)) R
    \<and> keeps {} a (set_chunk off (snd (try_loan ow (chunk_at a off))) a)"
proof -
  note d = ledger_disjoint [OF led]
  have acc: "accounts (ar_pool a) (A - {off}) (L(off \<mapsto> ow)) R"
    using led d(2,4) [OF off] by (auto simp: ledger_def accounts_def split: if_splits)
  have "life_step (Op_loan ow) (owed L R off) = (True, owed (L(off \<mapsto> ow)) R off)"
    using d(1,2) [OF off] by (simp add: owed_def)
  then have "fst (exec (Op_loan ow) (chunk_at a off)) = True \<and>
      ledger (set_chunk off (snd (exec (Op_loan ow) (chunk_at a off))) a) (A - {off}) (L(off \<mapsto> ow)) R"
    using off ow by (intro ledger_exec [OF led d(4) [OF off] _ _ acc]) (auto intro: owed_cong)
  then show ?thesis using keeps_set_chunk [OF led d(4) [OF off], of "{}"] exec_gen_kept(1) [of ow "chunk_at a off"]
    by (cases "try_loan ow (chunk_at a off)") auto
qed

text \<open>A loaned chunk is dropped, and a published one loses a reference.\<close>

lemma ledger_drop_loan:
  assumes led: "ledger a A L R" and off: "L off = Some ow"
  shows "drop_loan (chunk_at a off) = (Inr (), snd (drop_loan (chunk_at a off)))
    \<and> ledger (set_chunk off (snd (drop_loan (chunk_at a off))) a) (insert off A) (L(off := None)) R"
proof -
  note pl = ledger_loans [OF led off]
  have nr: "off \<notin># R" using led off by (auto simp: ledger_def accounts_def)
  have acc: "accounts (ar_pool a) (insert off A) (L(off := None)) R"
    using led pl nr by (auto simp: ledger_def accounts_def split: if_splits)
  have "life_step Op_drop_loan (owed L R off) = (True, owed (L(off := None)) R off)"
    using off nr by (simp add: owed_def)
  then have "fst (exec Op_drop_loan (chunk_at a off)) = True \<and>
      ledger (set_chunk off (snd (exec Op_drop_loan (chunk_at a off))) a) (insert off A) (L(off := None)) R"
    using off by (intro ledger_exec [OF led pl _ _ acc]) (auto intro: owed_cong)
  then show ?thesis by (cases "drop_loan (chunk_at a off)") auto
qed

lemma ledger_borrow:
  assumes led: "ledger a A L R" and off: "off \<in># R" and room: "count R off < 2 ^ 32 - 1"
  shows "borrow_shared (chunk_at a off) = (Inr (), snd (borrow_shared (chunk_at a off)))
    \<and> ledger (set_chunk off (snd (borrow_shared (chunk_at a off))) a) A L (add_mset off R)
    \<and> keeps {} a (set_chunk off (snd (borrow_shared (chunk_at a off))) a)"
proof -
  note d = ledger_disjoint [OF led] and pl = ledger_refs [OF led off]
  have acc: "accounts (ar_pool a) A L (add_mset off R)" using led off by (auto simp: ledger_def accounts_def)
  have ow: "owed L R off = Published None (count R off)" using d(3) [OF off] off by (simp add: owed_def)
  then have "life_step Op_borrow (owed L R off) = (True, owed L (add_mset off R) off)" using d(3) [OF off] by (simp add: owed_def)
  moreover have "legal Op_borrow (chunk_at a off)"
  proof -
    have "unat (refcount (chunk_at a off)) = count R off"
      using ledger_chunk [OF led pl] ow by (simp add: abs_ctrl_def split: if_splits)
    then show ?thesis using room by (auto simp: unsigned_minus_1_eq_mask mask_eq_exp_minus_1)
  qed
  ultimately have "fst (exec Op_borrow (chunk_at a off)) = True \<and>
      ledger (set_chunk off (snd (exec Op_borrow (chunk_at a off))) a) A L (add_mset off R)"
    using off by (intro ledger_exec [OF led pl _ _ acc]) (auto intro: owed_cong)
  then show ?thesis using keeps_set_chunk [OF led pl, of "{}"] exec_gen_kept(3) [of "chunk_at a off"]
    by (cases "borrow_shared (chunk_at a off)") auto
qed

lemma ledger_release:
  assumes led: "ledger a A L R" and off: "off \<in># R"
  defines "c \<equiv> snd (release_shared (chunk_at a off))"
  shows "release_shared (chunk_at a off) = (count R off = 1, c)"
    and "ledger (set_chunk off c a) (if count R off = 1 then insert off A else A) L (R - {#off#})"
proof -
  note d = ledger_disjoint [OF led] and pl = ledger_refs [OF led off]
  let ?A = "if count R off = 1 then insert off A else A"
  have sub: "set_mset (R - {#off#}) \<subseteq> set_mset R" by (auto dest: in_diffD)
  have one: "off \<in># R - {#off#} \<longleftrightarrow> count R off \<noteq> 1"
    using off count_greater_zero_iff [of R off] by (simp add: in_diff_count del: count_greater_zero_iff) linarith
  have acc: "accounts (ar_pool a) ?A L (R - {#off#})"
    using led sub one pl d(3) [OF off] unfolding ledger_def accounts_def by auto
  have ow: "owed L R off = Published None (count R off)" using d(3) [OF off] off by (simp add: owed_def)
  have step: "life_step Op_release (owed L R off) = (count R off = 1, owed L (R - {#off#}) off)"
  proof (cases "count R off")
    case (Suc n)
    then show ?thesis using ow d(3) [OF off] one by (cases n) (auto simp: owed_def)
  qed (use off in \<open>simp add: count_eq_zero_iff\<close>)
  have legal: "legal Op_release (chunk_at a off)"
    using ledger_chunk [OF led pl] ow off
    by (auto simp: abs_ctrl_def ctrl_ok_def count_eq_zero_iff [symmetric] simp del: count_eq_zero_iff split: if_splits)
  have same: "?A \<union> dom L \<union> set_mset (R - {#off#}) = A \<union> dom L \<union> set_mset R"
  proof -
    have "x \<in># R - {#off#} \<longleftrightarrow> (if count R off = 1 then x \<in># R \<and> x \<noteq> off else x \<in># R)" for x
      using one off by (cases "x = off") (auto dest: in_diffD simp: in_diff_count)
    then show ?thesis using off by auto
  qed
  have "fst (exec Op_release (chunk_at a off)) = (count R off = 1) \<and>
      ledger (set_chunk off (snd (exec Op_release (chunk_at a off))) a) ?A L (R - {#off#})"
    by (rule ledger_exec [OF led pl legal step acc same]) (auto intro: owed_cong)
  then show "release_shared (chunk_at a off) = (count R off = 1, c)"
    and "ledger (set_chunk off c a) ?A L (R - {#off#})"
    by (simp_all add: c_def prod_eq_iff)
qed
lemma release_chunk_place:
  assumes led: "ledger a A L R" and off: "offset d \<in># R"
  obtains b where
    "(case on_ctrl (idx (ar_pool a) (offset d)) release_shared a of
        (True, a') \<Rightarrow> (True, snd (arena_free d a')) | (False, a') \<Rightarrow> (False, a')) = (count R (offset d) = 1, b)"
    "ledger b A L (R - {#offset d#})" "keeps (if count R (offset d) = 1 then {offset d} else {}) a b"
proof -
  let ?o = "offset d" and ?c = "snd (release_shared (chunk_at a (offset d)))"
  note rel = ledger_release [OF led off] and pl = ledger_refs [OF led off]
  have oc: "on_ctrl (idx (ar_pool a) ?o) release_shared a = (count R ?o = 1, set_chunk ?o ?c a)"
    by (subst on_ctrl_place, subst rel(1)) simp
  show thesis
  proof (cases "count R ?o = 1")
    case True
    then have "ledger (set_chunk ?o ?c a) (insert ?o A) L (R - {#?o#})" using rel(2) by simp
    then obtain b where b: "arena_free d (set_chunk ?o ?c a) = (Inr (), b)"
      "ledger b (insert ?o A - {?o}) L (R - {#?o#})" "keeps {?o} (set_chunk ?o ?c a) b"
      by (rule ledger_free [where d = d]) simp
    have "insert ?o A - {?o} = A" using ledger_disjoint(7) [OF led off] by simp
    moreover have "keeps {?o} a b" using keeps_trans [OF keeps_set_chunk [OF led pl, of "{?o}"] b(3)] by simp
    ultimately show thesis using that [of b] oc True b by simp
  next
    case False
    then have "\<not> fst (release_shared (chunk_at a ?o))" using rel(1) by (simp add: prod_eq_iff)
    then have "keeps {} a (set_chunk ?o ?c a)" using exec_gen_kept(4) by (intro keeps_set_chunk [OF led pl]) simp
    then show thesis using that [of "set_chunk ?o ?c a"] oc rel(2) False by simp
  qed
qed

lemma ledger_published:
  assumes "ledger a A L R" "off \<in># R"
  shows "ctrl_state (chunk_at a off) = PUBLISHED"
  using ledger_chunk [OF assms(1) ledger_refs [OF assms]] ledger_disjoint(3) [OF assms] assms(2)
  by (auto simp: owed_def abs_ctrl_def ctrl_ok_def split: if_splits)

lemma release_chunk_spec:
  assumes led: "ledger a A L R" and off: "offset d \<in># R" and gen: "generation d = gen_at a (offset d)"
  obtains b where "release_chunk d a = (count R (offset d) = 1, b)" "ledger b A L (R - {#offset d#})"
    "keeps (if count R (offset d) = 1 then {offset d} else {}) a b"
proof -
  have eq: "release_chunk d a = (case on_ctrl (idx (ar_pool a) (offset d)) release_shared a of
      (True, a') \<Rightarrow> (True, snd (arena_free d a')) | (False, a') \<Rightarrow> (False, a'))"
    using pool_ctrl_place [OF ledger_refs [OF led off]] ledger_published [OF led off] gen
    by (simp add: release_chunk_def validate_def chunk_at_def Let_def)
  obtain b where "(case on_ctrl (idx (ar_pool a) (offset d)) release_shared a of
      (True, a') \<Rightarrow> (True, snd (arena_free d a')) | (False, a') \<Rightarrow> (False, a')) = (count R (offset d) = 1, b)"
    "ledger b A L (R - {#offset d#})" "keeps (if count R (offset d) = 1 then {offset d} else {}) a b"
    by (rule release_chunk_place [OF led off])
  then show thesis by (intro that [of b]) (simp_all only: eq)
qed

lemma release_chunk_owned_spec:
  assumes led: "ledger a A L R" and off: "offset d \<in># R"
  obtains b where "release_chunk_owned d a = (count R (offset d) = 1, b)" "ledger b A L (R - {#offset d#})"
    "keeps (if count R (offset d) = 1 then {offset d} else {}) a b"
proof -
  have eq: "release_chunk_owned d a = (case on_ctrl (idx (ar_pool a) (offset d)) release_shared a of
      (True, a') \<Rightarrow> (True, snd (arena_free d a')) | (False, a') \<Rightarrow> (False, a'))"
    using pool_ctrl_place [OF ledger_refs [OF led off]] ledger_published [OF led off]
    by (simp add: release_chunk_owned_def chunk_at_def)
  obtain b where "(case on_ctrl (idx (ar_pool a) (offset d)) release_shared a of
      (True, a') \<Rightarrow> (True, snd (arena_free d a')) | (False, a') \<Rightarrow> (False, a')) = (count R (offset d) = 1, b)"
    "ledger b A L (R - {#offset d#})" "keeps (if count R (offset d) = 1 then {offset d} else {}) a b"
    by (rule release_chunk_place [OF led off])
  then show thesis by (intro that [of b]) (simp_all only: eq)
qed

lemma drop_loan_of_spec:
  assumes led: "ledger a A L R" and off: "L (offset d) = Some ow"
  obtains b where "drop_loan_of d a = (Inr (), b)" "ledger b (insert (offset d) A) (L(offset d := None)) R" "keeps {offset d} a b"
proof -
  let ?o = "offset d"
  note dl = ledger_drop_loan [where off = ?o, OF led off] and pl = ledger_loans [where off = ?o, OF led off]
  let ?b = "set_chunk ?o (snd (drop_loan (chunk_at a ?o))) a"
  have "drop_loan_of d a = (Inr (), ?b)"
    using dl by (auto simp: drop_loan_of_def pool_ctrl_place [OF pl] on_ctrl_place prod_eq_iff)
  then show thesis using that [of ?b] dl keeps_set_chunk [OF led pl, of "{?o}"] by simp
qed

lemma free_loaned_spec:
  assumes led: "ledger a A L R" and off: "L (offset d) = Some ow"
  shows "ledger (free_loaned d a) A (L(offset d := None)) R" "keeps {offset d} a (free_loaned d a)"
proof -
  obtain b where b: "drop_loan_of d a = (Inr (), b)" "ledger b (insert (offset d) A) (L(offset d := None)) R" "keeps {offset d} a b"
    by (rule drop_loan_of_spec [OF led off])
  obtain c where c: "arena_free d b = (Inr (), c)" "ledger c (insert (offset d) A - {offset d}) (L(offset d := None)) R"
    "keeps {offset d} b c"
    by (rule ledger_free [OF b(2), of d]) simp
  have "insert (offset d) A - {offset d} = A" using ledger_disjoint(6) [OF led off] by simp
  then show "ledger (free_loaned d a) A (L(offset d := None)) R" "keeps {offset d} a (free_loaned d a)"
    using b(1) c keeps_trans [OF b(3) c(3)] by (simp_all add: free_loaned_def)
qed

text \<open>Publishing a loaned chunk hands the loan over to one reference.\<close>

definition published_once :: "chunk_ctrl \<Rightarrow> chunk_ctrl" where
  "published_once c = snd (owner_release (snd (borrow_shared (snd (publish c)))))"

lemma publish_chain:
  assumes "ctrl_ok c" "abs_ctrl c = Loaned ow"
  shows "fst (publish c) = Inr ()" "fst (borrow_shared (snd (publish c))) = Inr ()"
    "ctrl_ok (published_once c)" "abs_ctrl (published_once c) = Published None 1" "ctrl_generation (published_once c) = ctrl_generation c"
  using assms
  by (cases rule: ctrl_ok_cases; auto simp: published_once_def abs_ctrl_def ctrl_ok_def ctrl_state_def refcount_def
      publish_def borrow_shared_def owner_release_def try_reclaim_def compare_exchange_def Let_def split: if_splits)+

lemma set_chunk_set_chunk: "set_chunk off c' (set_chunk off c a) = set_chunk off c' a"
  by (simp add: set_chunk_def)

lemma chunk_at_set_same:
  "ledger a A L R \<Longrightarrow> off \<in> places (ar_pool a) \<Longrightarrow> chunk_at (set_chunk off c a) off = c"
  by (simp add: chunk_at_set ledger_geometry)

lemma on_ctrl_set:
  "ledger a A L R \<Longrightarrow> off \<in> places (ar_pool a) \<Longrightarrow>
     on_ctrl (idx (ar_pool a) off) f (set_chunk off c a) = (fst (f c), set_chunk off (snd (f c)) a)"
  using on_ctrl_place [of "set_chunk off c a" off f] by (simp add: chunk_at_set_same set_chunk_set_chunk)

lemma ledger_publish:
  assumes led: "ledger a A L R" and off: "L off = Some ow"
  shows "ledger (set_chunk off (published_once (chunk_at a off)) a) A (L(off := None)) (add_mset off R)"
    and "keeps {} a (set_chunk off (published_once (chunk_at a off)) a)"
proof -
  note pl = ledger_loans [OF led off]
  note pc = publish_chain [OF conjunct1 [OF ledger_chunk [OF led pl]], of ow]
  have ab: "abs_ctrl (chunk_at a off) = Loaned ow" using ledger_chunk [OF led pl] off by (simp add: owed_def)
  note nr = ledger_disjoint(5) [OF led off]
  have cnt: "count R off = 0" using nr by (simp add: count_eq_zero_iff)
  show "ledger (set_chunk off (published_once (chunk_at a off)) a) A (L(off := None)) (add_mset off R)"
  proof (rule ledger_set_chunk [OF led pl])
    show "accounts (ar_pool a) A (L(off := None)) (add_mset off R)"
      using led pl off ledger_disjoint(6) [OF led off] unfolding ledger_def accounts_def by (auto split: if_splits)
    show "A \<union> dom (L(off := None)) \<union> set_mset (add_mset off R) = A \<union> dom L \<union> set_mset R" using off by auto
    show "abs_ctrl (published_once (chunk_at a off)) = owed (L(off := None)) (add_mset off R) off"
      using pc(4) [OF ab] cnt by (simp add: owed_def)
  qed (auto intro: owed_cong pc(3) [OF ab])
  show "keeps {} a (set_chunk off (published_once (chunk_at a off)) a)"
    using pc(5) [OF ab] by (intro keeps_set_chunk [OF led pl]) simp
qed

lemma publish_staged_spec:
  assumes led: "ledger a A L R" and off: "L (offset d) = Some ow"
  obtains b where "publish_staged d a = (Inr (), b)" "ledger b A (L(offset d := None)) (add_mset (offset d) R)" "keeps {} a b"
proof -
  let ?o = "offset d" and ?c = "chunk_at a (offset d)"
  note pl = ledger_loans [where off = ?o, OF led off]
  have ab: "abs_ctrl ?c = Loaned ow" using ledger_chunk [OF led pl] off by (simp add: owed_def)
  note pc = publish_chain [OF conjunct1 [OF ledger_chunk [OF led pl]] ab]
  have "publish_staged d a = (Inr (), set_chunk ?o (published_once ?c) a)"
    using pc(1,2)
    by (simp add: publish_staged_def ctrl_of_def pool_ctrl_place [OF pl] try_do_def on_ctrl_core_def published_once_def
        on_ctrl_place on_ctrl_set [OF led pl])
  then show thesis using that ledger_publish [where off = ?o, OF led off] by blast
qed
lemma stage_chunk_spec:
  assumes w: "write a = (Inr d, a1)" and led: "ledger a1 (insert (offset d) A) L R" and new: "offset d \<notin> A" and ow: "owner \<noteq> OWNER_NONE"
  obtains b where "stage_chunk write owner a = (Inr d, b)" "ledger b A L (add_mset (offset d) R)" "keeps {} a1 b" "ar_bytes b = ar_bytes a1"
proof -
  let ?o = "offset d" and ?c = "snd (try_loan owner (chunk_at a1 (offset d)))"
  let ?a2 = "set_chunk ?o ?c a1"
  have inA: "?o \<in> insert ?o A" by simp
  note ln = ledger_loan [OF led inA ow] and pl = ledger_disjoint(4) [OF led inA]
  have l0: "L ?o = None" using ledger_disjoint(1) [OF led inA] .
  have A: "insert ?o A - {?o} = A" using new by simp
  have l2: "ledger ?a2 A (L(?o \<mapsto> owner)) R" using ln by (simp add: A)
  have at2: "(L(?o \<mapsto> owner)) ?o = Some owner" by simp
  have pl2: "?o \<in> places (ar_pool ?a2)" using pl by simp
  have c2: "chunk_at ?a2 ?o = ?c" by (rule chunk_at_set_same [OF led pl])
  have ab: "abs_ctrl ?c = Loaned owner" using ledger_chunk [OF l2 pl2] c2 by (simp add: owed_def)
  have ok: "ctrl_ok ?c" using ledger_chunk [OF l2 pl2] c2 by simp
  note pc = publish_chain [OF ok ab]
  let ?b = "set_chunk ?o (published_once ?c) a1"
  have lf: "fst (try_loan owner (chunk_at a1 ?o)) = Inr ()" using ln by (metis fst_conv)
  have "stage_chunk write owner a = (Inr d, ?b)"
    using lf pc(1,2)
    by (simp add: stage_chunk_def w try_do_def ctrl_of_def pool_ctrl_place [OF pl] on_ctrl_core_def on_ctrl_place on_ctrl_set [OF led pl]
        published_once_def)
  moreover have b: "set_chunk ?o (published_once (chunk_at ?a2 ?o)) ?a2 = ?b" by (simp add: c2 set_chunk_set_chunk)
  have "(L(?o \<mapsto> owner))(?o := None) = L" using l0 by (simp add: fun_eq_iff)
  then have "ledger ?b A L (add_mset ?o R)" using ledger_publish(1) [OF l2 at2] unfolding b by (simp only:)
  moreover have "keeps {} a1 ?b"
    using keeps_trans [OF conjunct2 [OF conjunct2 [OF ln]] ledger_publish(2) [OF l2 at2]] unfolding b by simp
  ultimately show thesis using that by simp
qed

section \<open>Giving back a list of holds\<close>

text \<open>
  An account of keys held, an operation that gives one back, and what must be true of the thing given
  back for the operation to count. \<open>kept\<close> relates two states between which nothing was lost.
\<close>

locale giveback =
  fixes holds :: "'s \<Rightarrow> 'k multiset \<Rightarrow> bool" and give :: "'d \<Rightarrow> 's \<Rightarrow> 's" and key :: "'d \<Rightarrow> 'k"
    and valid :: "'s \<Rightarrow> 'd \<Rightarrow> bool" and kept :: "'s \<Rightarrow> 's \<Rightarrow> bool"
  assumes give_holds: "holds s (add_mset (key d) M) \<Longrightarrow> valid s d \<Longrightarrow> holds (give d s) M"
    and give_kept: "holds s (add_mset (key d) M) \<Longrightarrow> valid s d \<Longrightarrow> kept s (give d s)"
    and give_valid: "holds s (add_mset (key d) M) \<Longrightarrow> valid s d \<Longrightarrow> key e \<in># M \<Longrightarrow> valid s e \<Longrightarrow> valid (give d s) e"
    and kept_refl: "kept s s"
    and kept_trans: "kept s t \<Longrightarrow> kept t u \<Longrightarrow> kept s u"
begin

lemma give_all:
  "holds s (mset (map key ds)) \<Longrightarrow> \<forall>d \<in> set ds. valid s d \<Longrightarrow> holds (fold give ds s) {#} \<and> kept s (fold give ds s)"
proof (induction ds arbitrary: s)
  case (Cons d ds)
  let ?M = "mset (map key ds)"
  have h: "holds s (add_mset (key d) ?M)" and v: "valid s d" using Cons.prems by simp_all
  have "\<forall>e \<in> set ds. valid (give d s) e" using give_valid [OF h v] Cons.prems(2) by simp
  then have "holds (fold give ds (give d s)) {#} \<and> kept (give d s) (fold give ds (give d s))"
    using Cons.IH give_holds [OF h v] by simp
  then show ?case using give_kept [OF h v] kept_trans by auto
qed (simp add: kept_refl)

end

text \<open>References on published chunks are given back by \<open>release_chunk\<close>; \<open>R\<close> are the references that stay.\<close>

interpretation refs: giveback "\<lambda>a M. ledger a A L (M + R)" "\<lambda>d a. snd (release_chunk d a)" offset
  "\<lambda>a d. generation d = gen_at a (offset d)" "keeps (spare L R)" for A L R
proof (unfold_locales)
  fix a and d :: chunk_desc and M
  assume led: "ledger a A L (add_mset (offset d) M + R)" and gen: "generation d = gen_at a (offset d)"
  let ?R = "add_mset (offset d) M + R"
  obtain b where b: "release_chunk d a = (count ?R (offset d) = 1, b)" "ledger b A L (?R - {#offset d#})"
    "keeps (if count ?R (offset d) = 1 then {offset d} else {}) a b"
    by (rule release_chunk_spec [OF led _ gen]) simp
  show "ledger (snd (release_chunk d a)) A L (M + R)" using b(1,2) by simp
  have "L (offset d) = None" using ledger_disjoint(3) [OF led] by simp
  then show "keeps (spare L R) a (snd (release_chunk d a))"
    using b(1) keeps_mono [OF b(3), of "spare L R"] by (auto simp: count_eq_zero_iff [symmetric] simp del: count_eq_zero_iff split: if_splits)
  fix e :: chunk_desc
  assume e: "offset e \<in># M" "generation e = gen_at a (offset e)"
  have "offset e \<notin> (if count ?R (offset d) = 1 then {offset d} else {})"
    using e(1) count_greater_zero_iff [of M "offset e"] by (auto simp del: count_greater_zero_iff split: if_splits)
  then show "generation e = gen_at (snd (release_chunk d a)) (offset e)"
    using keeps_gen [OF b(3)] ledger_refs [OF led, of "offset e"] e b(1) by simp
qed (auto dest: keeps_trans)

text \<open>Loans are given back by \<open>free_loaned\<close>; each is held once.\<close>

definition loans :: "(u32 \<rightharpoonup> u32) \<Rightarrow> u32 \<Rightarrow> u32 multiset \<Rightarrow> u32 \<rightharpoonup> u32" where
  "loans L ow M = (\<lambda>off. if off \<in># M then Some ow else L off)"

interpretation loaned: giveback "\<lambda>a M. ledger a A (loans L ow M) R \<and> (\<forall>off \<in># M. count M off = 1 \<and> L off = None)"
  free_loaned offset "\<lambda>_ _. True" "keeps (- (dom L \<union> set_mset R))" for A L ow R
proof (unfold_locales)
  fix a and d :: chunk_desc and M
  assume h: "ledger a A (loans L ow (add_mset (offset d) M)) R
      \<and> (\<forall>off \<in># add_mset (offset d) M. count (add_mset (offset d) M) off = 1 \<and> L off = None)"
  have nm: "offset d \<notin># M" and l: "L (offset d) = None" and one: "\<forall>off \<in># M. count M off = 1 \<and> L off = None"
    using h by (auto simp: count_eq_zero_iff [symmetric] simp del: count_eq_zero_iff split: if_splits)
  have at: "loans L ow (add_mset (offset d) M) (offset d) = Some ow" by (simp add: loans_def)
  have "(loans L ow (add_mset (offset d) M))(offset d := None) = loans L ow M"
    using nm l by (auto simp: loans_def fun_eq_iff)
  then show "ledger (free_loaned d a) A (loans L ow M) R \<and> (\<forall>off \<in># M. count M off = 1 \<and> L off = None)"
    using free_loaned_spec(1) [OF conjunct1 [OF h] at] one by simp
  show "keeps (- (dom L \<union> set_mset R)) a (free_loaned d a)"
    by (rule keeps_mono [OF free_loaned_spec(2) [OF conjunct1 [OF h] at]]) (use l ledger_disjoint(5) [OF conjunct1 [OF h] at] in auto)
qed (auto dest: keeps_trans)
section \<open>The holds of a dead process\<close>

lemma refcount_published:
  assumes "ledger a A L R" "off \<in># R"
  shows "refcount (chunk_at a off) > 0"
  using ledger_chunk [OF assms(1) ledger_refs [OF assms]] ledger_disjoint(3) [OF assms] ledger_published [OF assms] assms(2)
    count_greater_zero_iff [of R off]
  by (auto simp: owed_def abs_ctrl_def word_neq_0_conv [symmetric] simp del: count_greater_zero_iff split: if_splits)

lemma reclaim_one_ref:
  assumes led: "ledger a A L R" and off: "offset d \<in># R" and gen: "generation d = gen_at a (offset d)"
  obtains b where "reclaim_one d actor a = (if count R (offset d) = 1 then Some d else None, b)" "ledger b A L (R - {#offset d#})"
    "keeps (if count R (offset d) = 1 then {offset d} else {}) a b"
proof -
  let ?r = "on_ctrl (idx (ar_pool a) (offset d)) release_shared a"
  obtain b where b: "(case ?r of (True, a') \<Rightarrow> (True, snd (arena_free d a')) | (False, a') \<Rightarrow> (False, a')) = (count R (offset d) = 1, b)"
    "ledger b A L (R - {#offset d#})" "keeps (if count R (offset d) = 1 then {offset d} else {}) a b"
    by (rule release_chunk_place [OF led off])
  have "reclaim_one d actor a = (case ?r of (True, a') \<Rightarrow> (Some d, snd (arena_free d a')) | (False, a') \<Rightarrow> (None, a'))"
    using refcount_published [OF led off] ledger_published [OF led off] gen
    by (simp add: reclaim_one_def pool_ctrl_place [OF ledger_refs [OF led off]] validate_def chunk_at_def Let_def)
  then have "reclaim_one d actor a = (if count R (offset d) = 1 then Some d else None, b)"
    using b(1) by (auto split: prod.splits bool.splits)
  then show thesis using that b by blast
qed

lemma reclaim_one_loan:
  assumes led: "ledger a A L R" and off: "L (offset d) = Some actor" and gen: "generation d = gen_at a (offset d)"
  shows "reclaim_one d actor a = (Some d, free_loaned d a)"
proof -
  note pl = ledger_loans [where off = "offset d", OF led off]
  have ab: "abs_ctrl (chunk_at a (offset d)) = Loaned actor" using ledger_chunk [OF led pl] off by (simp add: owed_def)
  then have c: "ctrl_state (chunk_at a (offset d)) = LOANED" "owner_actor (chunk_at a (offset d)) = actor"
    by (auto simp: abs_ctrl_def split: if_splits)
  have dl: "fst (drop_loan (chunk_at a (offset d))) = Inr ()"
    using ledger_drop_loan [where off = "offset d", OF led off] by (metis fst_conv)
  show ?thesis using c gen dl
    by (simp add: reclaim_one_def free_loaned_def drop_loan_of_def pool_ctrl_place [OF pl] validate_def chunk_at_def [symmetric]
        on_ctrl_place Let_def)
qed

definition chunk_pins :: "journal_record list \<Rightarrow> chunk_desc list" where
  "chunk_pins rs = concat (map (\<lambda>r. case r of ChunkPin d \<Rightarrow> [d] | _ \<Rightarrow> []) rs)"

lemma reclaim_records_pins: "reclaim_records actor rs a = reclaim_records actor (map ChunkPin (chunk_pins rs)) a"
  by (induction rs arbitrary: a) (auto simp: chunk_pins_def split: journal_record.splits prod.splits option.splits)

text \<open>The holds a process had: loans on the chunks of \<open>T\<close>, references on the others.\<close>

lemma reclaim_holds:
  assumes "ledger a A (loans L actor (mset (filter (\<lambda>o'. o' \<in> T) (map offset ds)))) (mset (filter (\<lambda>o'. o' \<notin> T) (map offset ds)) + R)"
    and "distinct (filter (\<lambda>o'. o' \<in> T) (map offset ds))" "\<forall>o' \<in> T. L o' = None \<and> o' \<notin># R"
    and "\<forall>d \<in> set ds. generation d = gen_at a (offset d)"
  shows "\<exists>fr b. reclaim_records actor (map ChunkPin ds) a = (fr, b) \<and> ledger b A L R \<and> keeps (offset ` set fr) a b
     \<and> distinct (map offset fr) \<and> set fr \<subseteq> set ds \<and> offset ` set fr = offset ` set ds - set_mset R"
  using assms
proof (induction ds arbitrary: a)
  case Nil
  then show ?case by (simp add: loans_def)
next
  case (Cons d ds)
  let ?o = "offset d"
  let ?l = "mset (filter (\<lambda>o'. o' \<in> T) (map offset ds))" and ?r = "mset (filter (\<lambda>o'. o' \<notin> T) (map offset ds))"
  have gen: "generation d = gen_at a ?o" using Cons.prems(4) by simp
  define last where "last \<longleftrightarrow> ?o \<in> T \<or> ?o \<notin># ?r + R"
  obtain b where b: "reclaim_one d actor a = (if last then Some d else None, b)" "ledger b A (loans L actor ?l) (?r + R)"
    "keeps (if last then {?o} else {}) a b"
  proof (cases "?o \<in> T")
    case True
    let ?L = "loans L actor (add_mset ?o ?l)"
    have led: "ledger a A ?L (?r + R)" using Cons.prems(1) True by simp
    have at: "?L ?o = Some actor" by (simp add: loans_def)
    have "?o \<notin># ?l" "L ?o = None" using Cons.prems(2,3) True by auto
    then have "?L(?o := None) = loans L actor ?l" by (auto simp: loans_def fun_eq_iff)
    then show thesis using that [of "free_loaned d a"] True reclaim_one_loan [OF led at gen] free_loaned_spec [OF led at]
      by (simp add: last_def)
  next
    case False
    let ?R = "add_mset ?o ?r + R"
    have led: "ledger a A (loans L actor ?l) ?R" using Cons.prems(1) False by simp
    have one: "count ?R ?o = 1 \<longleftrightarrow> last" using False by (auto simp: last_def count_eq_zero_iff)
    obtain b where "reclaim_one d actor a = (if count ?R ?o = 1 then Some d else None, b)" "ledger b A (loans L actor ?l) (?R - {#?o#})"
      "keeps (if count ?R ?o = 1 then {?o} else {}) a b"
      by (rule reclaim_one_ref [OF led _ gen]) simp
    then show thesis using that [of b] one by simp
  qed
  have "generation e = gen_at b (offset e)" if e: "e \<in> set ds" for e
  proof -
    have "offset e \<in> places (ar_pool a)"
      using ledger_loans [OF Cons.prems(1), of "offset e" actor] ledger_refs [OF Cons.prems(1), of "offset e"] e
      by (cases "offset e \<in> T") (auto simp: loans_def)
    moreover have "offset e \<notin> (if last then {?o} else {})"
      using Cons.prems(2) imageI [OF e, of offset] by (cases "?o \<in> T") (auto simp: last_def)
    ultimately show ?thesis using keeps_gen [OF b(3)] Cons.prems(4) e by simp
  qed
  moreover have "distinct (filter (\<lambda>o'. o' \<in> T) (map offset ds))" using Cons.prems(2) by (simp split: if_splits)
  ultimately obtain fr c where c: "reclaim_records actor (map ChunkPin ds) b = (fr, c)" "ledger c A L R" "keeps (offset ` set fr) b c"
      "distinct (map offset fr)" "set fr \<subseteq> set ds" "offset ` set fr = offset ` set ds - set_mset R"
    using Cons.IH [OF b(2) _ Cons.prems(3)] by blast
  have k: "keeps ((if last then {?o} else {}) \<union> offset ` set fr) a c" by (rule keeps_trans [OF b(3) c(3)])
  show ?case
  proof (cases last)
    case True
    have "?o \<notin> offset ` set ds" using True Cons.prems(2) by (cases "?o \<in> T") (auto simp: last_def)
    moreover have "?o \<notin># R" using True Cons.prems(3) by (auto simp: last_def)
    ultimately have "distinct (map offset (d # fr))" "offset ` set (d # fr) = offset ` set (d # ds) - set_mset R" "set (d # fr) \<subseteq> set (d # ds)"
      using c(4-6) by auto
    then show ?thesis using b(1) c(1,2) k True by auto
  next
    case False
    then have "?o \<in> offset ` set ds - set_mset R \<or> ?o \<in># R" by (auto simp: last_def)
    then have "offset ` set fr = offset ` set (d # ds) - set_mset R" "set fr \<subseteq> set (d # ds)" using c(5,6) by auto
    then show ?thesis using b(1) c(1,2,4) k False by auto
  qed
qed

section \<open>A fresh data segment\<close>

lemma created_in_segment:
  assumes fits: "config_fits cfg" and size: "total_bytes (compute_layout cfg) \<le> payload_len sg" and ne: "cfg \<noteq> []"
    and p: "pool_create sg m0 cfg = Inr (h, p)"
  shows "in_segment p"
proof -
  let ?l = "compute_layout cfg"
  have ok: "layout_ok cfg ?l" by (rule compute_layout_ok [OF fits])
  then have of: "offsets_ok cfg (ctrl_offset ?l + 16 * unat (total_chunks ?l)) (data_offsets ?l) (total_bytes ?l)"
    and top: "HEADER_SIZE + total_bytes ?l \<le> 2 ^ 32" and co: "24 \<le> ctrl_offset ?l"
    by (auto simp: layout_ok_def)
  have pos: "24 \<le> total_bytes ?l" using of co unfolding offsets_ok_def by linarith
  have cl: "classes p = mk_classes cfg ?l" "pl_segment p = sg"
    using p by (auto simp: pool_create_def Let_def split: if_splits)
  have seg: "HEADER_SIZE + payload_len sg = seg_size sg" using size pos by (auto simp: payload_len_def)
  have "HEADER_SIZE + unat (data_offset (classes p ! i)) + span (classes p ! i) \<le> seg_size sg" if i: "i < length cfg" for i
  proof -
    have d: "data_offsets ?l ! i + sc_span (cfg ! i) \<le> total_bytes ?l" using of i unfolding offsets_ok_def by blast
    then have "data_offsets ?l ! i < 2 ^ 32" using top by (simp add: HEADER_SIZE_def)
    then have "unat (of_nat (data_offsets ?l ! i) :: u32) = data_offsets ?l ! i" by (rule unat_of_nat_u32)
    then show ?thesis using d size seg mk_classes_nth(1) [OF ok i] by (simp add: cl mk_class_def)
  qed
  moreover have "length (classes p) = length cfg" using ok by (simp add: cl mk_classes_def layout_ok_def offsets_ok_def)
  ultimately show ?thesis by (auto simp: in_segment_def cl(2) in_set_conv_nth)
qed

lemma ledger_create:
  assumes fits: "config_fits cfg" and p: "pool_create sg m0 cfg = Inr (h, p)"
  shows "ledger \<lparr>ar_pool = p, ar_bytes = m\<rparr> {} Map.empty {#}"
proof -
  have c: "cfg \<noteq> []" "total_bytes (compute_layout cfg) \<le> payload_len sg"
    using p by (auto simp: pool_create_def Let_def split: if_splits)
  have inv: "pool_inv p (full_lists cfg)" and ct: "ctrls p = replicate (unat (total_chunks (compute_layout cfg))) (init_at 0)"
    and cnt: "map chunk_count (classes p) = map sc_chunk_count cfg"
    using p by (auto intro: pool_create_Inr [OF fits c, of m0])
  have "off \<in> free_offs p (full_lists cfg)" if "off \<in> places p" for off
  proof -
    obtain i x where l: "locate p off = Inr (i, x, idx p off)" using placesE [OF \<open>off \<in> places p\<close>] by blast
    have i: "i < length cfg" using locate_range(1) [OF l] cnt by (metis length_map)
    then have "sc_chunk_count (cfg ! i) = chunk_count (classes p ! i)"
      using cnt locate_range(1) [OF l] by (metis nth_map)
    then show ?thesis using in_free_offs [OF l] locate_range(2) [OF l] i by (simp add: full_lists_def)
  qed
  then have "free_offs p (full_lists cfg) = places p" using free_offs_places by blast
  moreover have "ctrl_ok (ctrls p ! idx p off) \<and> abs_ctrl (ctrls p ! idx p off) = chunk_life.Free" if "off \<in> places p" for off
    using idx_less [of p, OF _ that] inv ct by (simp add: pool_inv_def init_at_ok)
  ultimately show ?thesis
    using inv created_in_segment [OF fits c(2,1) p] by (auto simp: ledger_def accounts_def chunk_at_def ctrl_get_def owed_def init_at_ok)
qed

definition demo_arena :: arena where
  "demo_arena = \<lparr>ar_pool = demo_pool, ar_bytes = (\<lambda>_. 0)\<rparr>"

lemma demo_ledger: "ledger demo_arena {} Map.empty {#}"
proof -
  obtain h p where "pool_create demo_segment (\<lambda>_. 0) demo_config = Inr (h, p)"
    by (rule pool_create_Inr [OF demo_config_fits demo_layout(2,1), of "\<lambda>_. 0"])
  then show ?thesis using ledger_create [OF demo_config_fits, of demo_segment "\<lambda>_. 0" h p] by (simp add: demo_arena_def demo_pool_def)
qed

text \<open>
  The single-pool core: when the journal of a dead process is replayed against a pool, every loan
  and every reference it recorded there is given back, whatever their number and order, and the
  ledger is what it was without them. The chunks reported as reclaimed are, each once, exactly those
  that nobody else refers to; every other chunk keeps its generation and its bytes.
\<close>

lemma records_returned:
  assumes led: "ledger a A (loans L actor (mset lo)) (mset re + R)"
    and recorded: "mset (map offset (chunk_pins rs)) = mset (lo @ re)"
    and once: "distinct lo" "\<forall>o' \<in> set lo. L o' = None \<and> o' \<notin># R \<and> o' \<notin> set re"
    and fresh: "\<forall>d \<in> set (chunk_pins rs). generation d = gen_at a (offset d)"
  shows "\<exists>freed b. reclaim_records actor rs a = (freed, b) \<and> ledger b A L R \<and> keeps (offset ` set freed) a b
    \<and> distinct (map offset freed) \<and> offset ` set freed = (set lo \<union> set re) - set_mset R"
proof -
  let ?ds = "chunk_pins rs"
  let ?in = "\<lambda>o'. o' \<in> set lo"
  have f: "mset (filter P (map offset ?ds)) = mset (filter P (lo @ re))" for P by (simp only: mset_filter recorded)
  have nre: "filter ?in re = []" "filter (\<lambda>o'. \<not> ?in o') re = re" using once(2) by (auto simp: filter_empty_conv filter_id_conv)
  have lo: "mset (filter ?in (map offset ?ds)) = mset lo"
    unfolding f by (simp add: nre del: mset_filter)
  have re: "mset (filter (\<lambda>o'. \<not> ?in o') (map offset ?ds)) = mset re"
    unfolding f by (simp add: nre del: mset_filter)
  have "distinct (filter ?in (map offset ?ds))" using lo once(1) by (metis mset_eq_imp_distinct_iff)
  then have "\<exists>fr b. reclaim_records actor (map ChunkPin ?ds) a = (fr, b) \<and> ledger b A L R \<and> keeps (offset ` set fr) a b
     \<and> distinct (map offset fr) \<and> set fr \<subseteq> set ?ds \<and> offset ` set fr = offset ` set ?ds - set_mset R"
    using led once(2) fresh by (intro reclaim_holds [where T = "set lo"]) (simp_all only: lo re, auto)
  moreover have "offset ` set ?ds = set lo \<union> set re"
    using arg_cong [OF recorded, of set_mset] by simp
  ultimately show ?thesis using reclaim_records_pins [of actor rs a] by auto
qed

lemma distinct_set_single: "distinct xs \<Longrightarrow> set xs = {x} \<Longrightarrow> xs = [x]"
  by (cases xs; cases "tl xs") auto

lemma replay_one:
  assumes "journal_ok j" "held j = [i \<mapsto> chunk_pin d]"
  shows "replay j = [ChunkPin d]"
proof -
  have "set (replay_indexed j) = {(i, ChunkPin d)}"
    using set_replay_indexed [OF assms(1)] assms(2) by (auto simp: journal_entry_roundtrip split: if_splits)
  moreover have "distinct (replay_indexed j)"
    using sorted_replay_indexed [OF assms(1)] by (metis distinct_map strict_sorted_iff)
  ultimately have "replay_indexed j = [(i, ChunkPin d)]"
    by (intro distinct_set_single)
  then show ?thesis by (simp add: replay_def)
qed

lemma demo_loan:
  obtains a and d :: chunk_desc where "ledger a {} [offset d \<mapsto> 9] {#}" "generation d = gen_at a (offset d)"
proof -
  obtain h where "pool_alloc demo_pool 100 = (Inr (desc_of demo_pool 1 0), set_head demo_pool 1 h)"
    using pool_alloc_cases(2) [OF demo_pool_inv demo_pool_find] by (auto simp: demo_pool_lists)
  then obtain d b where al: "allocator_alloc 100 demo_arena = (Inr d, b)"
    by (simp add: allocator_alloc_def demo_arena_def)
  from ledger_alloc [OF demo_ledger al]
  have b: "ledger b {offset d} Map.empty {#}" and g: "generation d = gen_at b (offset d)" by simp_all
  let ?c = "set_chunk (offset d) (snd (try_loan 9 (chunk_at b (offset d)))) b"
  have ow: "(9 :: u32) \<noteq> OWNER_NONE" by (simp add: OWNER_NONE_def)
  have l: "ledger ?c {} [offset d \<mapsto> 9] {#}" and k: "keeps {} b ?c" using ledger_loan [OF b _ ow, of "offset d"] by simp_all
  show thesis using that [OF l] keeps_gen [OF k, of "offset d"] g ledger_disjoint(4) [OF b, of "offset d"] by simp
qed

end
