(* ===== verification/Shm_Cascade.thy ===== *)
theory Shm_Cascade
  imports Shm_Ledger
begin

text \<open>
  \<^verbatim>\<open>release_manifest_ref\<close> of \<^verbatim>\<open>crates/shm-artifact/src/artifact.rs\<close>: giving up a reference on a manifest, and, when
  it was the last one, the chunks the manifest lists and its predecessor in turn. A manifest owns one
  reference on each chunk it lists and one on the manifest it links. Shown: the cascade ends on any
  contents of the segment, since each round frees a published chunk, and it leaves exactly the manifests
  that something still refers to, with their bytes and their references.
\<close>

section \<open>The loop\<close>

definition published_chunks :: "arena \<Rightarrow> nat" where
  "published_chunks a = length (filter (\<lambda>c. ctrl_state c = PUBLISHED) (ctrls (ar_pool a)))"

lemma filter_update_le:
  "g < length xs \<Longrightarrow> length (filter P (xs[g := x])) + (if P (xs ! g) then 1 else 0)
     = length (filter P xs) + (if P x then 1 else 0)"
proof (induction xs arbitrary: g)
  case (Cons y ys)
  then show ?case by (cases g) auto
qed simp

lemma arena_free_published [simp]: "published_chunks (snd (arena_free d a)) = published_chunks a"
  by (auto simp: arena_free_def pool_free_def published_chunks_def Let_def split: prod.splits sum.splits)

lemma release_shared_state:
  assumes "release_shared c = (r, c')" "ctrl_state c = PUBLISHED"
  shows "r \<Longrightarrow> ctrl_state c' = FREE"
  using assms
  by (auto simp: release_shared_def try_reclaim_def compare_exchange_def ctrl_state_def Let_def split: if_splits prod.splits)

lemma on_ctrl_release_published:
  assumes r: "on_ctrl g release_shared a = (r, b)" and st: "ctrl_state (ctrl_get (ar_pool a) g) = PUBLISHED"
  shows "published_chunks b \<le> published_chunks a" and "r \<Longrightarrow> published_chunks b < published_chunks a"
proof -
  have g: "g < length (ctrls (ar_pool a))"
    using st by (auto simp: ctrl_get_def init_at_def ctrl_state_def split: if_splits)
  obtain c' where c: "release_shared (ctrls (ar_pool a) ! g) = (r, c')"
    and b: "b = a\<lparr>ar_pool := (ar_pool a)\<lparr>ctrls := (ctrls (ar_pool a))[g := c']\<rparr>\<rparr>"
    using r g by (auto simp: on_ctrl_def ctrl_get_def split: prod.splits)
  have st': "ctrl_state (ctrls (ar_pool a) ! g) = PUBLISHED" using st g by (simp add: ctrl_get_def)
  have eq: "published_chunks b + 1 = published_chunks a + (if ctrl_state c' = PUBLISHED then 1 else 0)"
    using filter_update_le [OF g, of "\<lambda>c. ctrl_state c = PUBLISHED" c'] st' by (simp add: published_chunks_def b)
  show "published_chunks b \<le> published_chunks a" using eq by (auto split: if_splits)
  show "published_chunks b < published_chunks a" if r
    using eq release_shared_state [OF c st' that] by simp
qed

lemma release_chunk_published:
  "published_chunks (snd (release_chunk d a)) \<le> published_chunks a"
  "fst (release_chunk d a) \<Longrightarrow> published_chunks (snd (release_chunk d a)) < published_chunks a"
  using on_ctrl_release_published
  by (force simp: release_chunk_def Let_def split: sum.splits prod.splits bool.splits if_splits)+

lemma release_chunk_owned_published:
  "fst (release_chunk_owned d a) \<Longrightarrow> published_chunks (snd (release_chunk_owned d a)) < published_chunks a"
  using on_ctrl_release_published(2)
  by (force simp: release_chunk_owned_def Let_def split: sum.splits prod.splits bool.splits if_splits)

definition release_all :: "chunk_desc list \<Rightarrow> arena \<Rightarrow> arena" where
  "release_all ds a = fold (\<lambda>d a. snd (release_chunk d a)) ds a"

lemma release_all_published: "published_chunks (release_all ds a) \<le> published_chunks a"
proof (induction ds arbitrary: a)
  case (Cons d ds)
  then show ?case using le_trans [OF Cons.IH release_chunk_published(1)] by (simp add: release_all_def)
qed (simp add: release_all_def)

definition release_manifest_chunk :: "u64 \<Rightarrow> u32 option \<Rightarrow> arena \<Rightarrow> bool \<times> arena" where
  "release_manifest_chunk mref gen a =
     (case gen of Some g \<Rightarrow> release_chunk (manifest_chunk_desc mref g) a
      | None \<Rightarrow> release_chunk_owned (manifest_chunk_desc mref 0) a)"

definition arena_read :: "arena \<Rightarrow> u64 \<Rightarrow> artifact_error + manifest" where
  "arena_read a mref = read_manifest (pl_segment (ar_pool a)) (ar_bytes a) mref"

lemma release_manifest_chunk_published:
  "fst (release_manifest_chunk mref gen a) \<Longrightarrow> published_chunks (snd (release_manifest_chunk mref gen a)) < published_chunks a"
  using release_chunk_published(2) release_chunk_owned_published by (auto simp: release_manifest_chunk_def split: option.splits)

lemma cascade_shrinks:
  "release_manifest_chunk mref gen a = (True, b) \<Longrightarrow> published_chunks (release_all ds b) < published_chunks a"
  using release_manifest_chunk_published [of mref gen a] release_all_published [of ds b] by simp

function release_manifest_ref :: "u64 \<Rightarrow> u32 option \<Rightarrow> arena \<Rightarrow> arena" where
  "release_manifest_ref mref gen a =
     (let parsed = arena_read a mref in
      case release_manifest_chunk mref gen a of
        (False, a') \<Rightarrow> a'
      | (True, a') \<Rightarrow>
          (case parsed of
             Inl _ \<Rightarrow> a'
           | Inr m \<Rightarrow>
               (case mf_prev m of
                  None \<Rightarrow> release_all (mf_chunks m) a'
                | Some link \<Rightarrow>
                    release_manifest_ref (ml_mref link) (Some (ml_generation link)) (release_all (mf_chunks m) a'))))"
  by pat_completeness auto

termination
  by (relation "measure (\<lambda>(_, _, a). published_chunks a)") (auto intro!: cascade_shrinks)

declare release_manifest_ref.simps [simp del]
section \<open>Manifests in the segment\<close>

definition manifest_at :: "arena \<Rightarrow> u32 \<Rightarrow> artifact_error + manifest" where
  "manifest_at a off = arena_read a (ref_pack 0 off)"

lemma arena_read_at: "arena_read a mref = manifest_at a (ref_offset mref)"
  by (simp only: manifest_at_def arena_read_def read_manifest_def pref.lo_pack)

lemma seg_bytes_cong: "(\<And>x. a \<le> x \<Longrightarrow> x < a + n \<Longrightarrow> m x = m' x) \<Longrightarrow> seg_bytes m a n = seg_bytes m' a n"
  by (simp add: seg_bytes_def)

lemma manifest_at_Inr:
  assumes "manifest_at a off = Inr m"
  obtains h where "segment_resolve (pl_segment (ar_pool a)) off 64 = Inr (unat off)"
    "h = header_of_bytes (seg_bytes (ar_bytes a) (unat off) 64)" "vm_magic h = MANIFEST_MAGIC"
    "manifest_len (unat (vm_chunk_count h)) (unat (vm_batch_count h)) (unat (vm_kept_count h)) = manifest_bytes_len m"
    "manifest_bytes_len m < 2 ^ 32" "segment_resolve (pl_segment (ar_pool a)) off (of_nat (manifest_bytes_len m)) = Inr (unat off)"
    "parse_manifest_bytes (seg_bytes (ar_bytes a) (unat off) (manifest_bytes_len m)) = Inr m"
proof -
  let ?h = "header_of_bytes (seg_bytes (ar_bytes a) (unat off) 64)"
  let ?t = "manifest_len (unat (vm_chunk_count ?h)) (unat (vm_batch_count ?h)) (unat (vm_kept_count ?h))"
  have res: "segment_resolve sg off n = Inr x \<Longrightarrow> x = unat off" for sg n x
    by (auto simp: segment_resolve_def Let_def split: if_splits)
  have r: "segment_resolve (pl_segment (ar_pool a)) off 64 = Inr (unat off)" "vm_magic ?h = MANIFEST_MAGIC" "?t < 2 ^ 32"
    "segment_resolve (pl_segment (ar_pool a)) off (of_nat ?t) = Inr (unat off)"
    "parse_manifest_bytes (seg_bytes (ar_bytes a) (unat off) ?t) = Inr m"
    using assms by (auto simp: manifest_at_def arena_read_def read_manifest_def Let_def split: sum.splits if_splits dest: res)
  obtain h where h: "h = read_pod 64 header_of_bytes (seg_bytes (ar_bytes a) (unat off) ?t) 0"
    "manifest_bytes_len m = manifest_len (unat (vm_chunk_count h)) (unat (vm_batch_count h)) (unat (vm_kept_count h))"
    using parse_InrD [OF r(5)] by metis
  have "64 \<le> ?t" by (simp add: manifest_len_def kept_offset_def spans_offset_def chunks_offset_def)
  then have "h = ?h" using h(1) by (simp add: read_pod_def seg_bytes_def take_map)
  then have t: "?t = manifest_bytes_len m" using h(2) by simp
  show thesis by (rule that [OF r(1) refl r(2) t]) (use r t in auto)
qed

lemma manifest_frame:
  assumes m: "manifest_at a off = Inr m" "manifest_bytes_len m \<le> csize (ar_pool a) off"
    and k: "keeps S a b" and off: "off \<in> places (ar_pool a)" "off \<notin> S"
  shows "manifest_at b off = Inr m"
proof -
  obtain h where h: "segment_resolve (pl_segment (ar_pool a)) off 64 = Inr (unat off)"
    "h = header_of_bytes (seg_bytes (ar_bytes a) (unat off) 64)" "vm_magic h = MANIFEST_MAGIC"
    "manifest_len (unat (vm_chunk_count h)) (unat (vm_batch_count h)) (unat (vm_kept_count h)) = manifest_bytes_len m"
    "manifest_bytes_len m < 2 ^ 32" "segment_resolve (pl_segment (ar_pool a)) off (of_nat (manifest_bytes_len m)) = Inr (unat off)"
    "parse_manifest_bytes (seg_bytes (ar_bytes a) (unat off) (manifest_bytes_len m)) = Inr m"
    by (rule manifest_at_Inr [OF m(1)])
  have seg: "pl_segment (ar_pool b) = pl_segment (ar_pool a)" using k by (simp add: keeps_def same_shape_def)
  have byt: "ar_bytes a x = ar_bytes b x" if "unat off \<le> x" "x < unat off + manifest_bytes_len m" for x
    using k off m(2) that by (simp add: keeps_def)
  have l: "64 \<le> manifest_bytes_len m"
    by (simp add: manifest_bytes_len_def manifest_len_def kept_offset_def spans_offset_def chunks_offset_def)
  have "seg_bytes (ar_bytes b) (unat off) 64 = seg_bytes (ar_bytes a) (unat off) 64"
    "seg_bytes (ar_bytes b) (unat off) (manifest_bytes_len m) = seg_bytes (ar_bytes a) (unat off) (manifest_bytes_len m)"
    using byt l by (auto intro!: seg_bytes_cong)
  then show ?thesis using h by (simp add: manifest_at_def arena_read_def read_manifest_def seg Let_def)
qed

text \<open>The references a manifest owns, and those of a set of manifests.\<close>

definition link_off :: "manifest_link \<Rightarrow> u32" where
  "link_off l = ref_offset (ml_mref l)"

definition medges :: "manifest \<Rightarrow> u32 multiset" where
  "medges m = mset (map offset (mf_chunks m)) + (case mf_prev m of None \<Rightarrow> {#} | Some l \<Rightarrow> {#link_off l#})"

definition refs_of :: "(u32 \<rightharpoonup> manifest) \<Rightarrow> u32 multiset" where
  "refs_of ms = (\<Sum>off \<in> dom ms. medges (the (ms off)))"

lemma refs_of_remove: "finite (dom ms) \<Longrightarrow> ms off = Some m \<Longrightarrow> refs_of ms = medges m + refs_of (ms(off := None))"
proof -
  assume f: "finite (dom ms)" and m: "ms off = Some m"
  have "refs_of ms = medges (the (ms off)) + (\<Sum>x \<in> dom ms - {off}. medges (the (ms x)))"
    unfolding refs_of_def using m by (intro sum.remove [OF f]) auto
  also have "(\<Sum>x \<in> dom ms - {off}. medges (the (ms x))) = refs_of (ms(off := None))"
    unfolding refs_of_def by (rule sum.cong) auto
  finally show ?thesis using m by simp
qed

lemma refs_of_insert:
  assumes "finite (dom ms)" "ms off = None"
  shows "refs_of (ms(off \<mapsto> m)) = medges m + refs_of ms"
proof -
  have "(ms(off \<mapsto> m))(off := None) = ms" using assms(2) by (simp add: fun_eq_iff)
  then show ?thesis using refs_of_remove [of "ms(off \<mapsto> m)" off m] assms(1) by simp
qed

lemma refs_of_member: "finite (dom ms) \<Longrightarrow> ms off = Some m \<Longrightarrow> x \<in># medges m \<Longrightarrow> x \<in># refs_of ms"
  by (simp add: refs_of_remove [of ms off m])

definition manifests :: "arena \<Rightarrow> (u32 \<rightharpoonup> manifest) \<Rightarrow> bool" where
  "manifests a ms \<longleftrightarrow> finite (dom ms) \<and> (\<forall>off m. ms off = Some m \<longrightarrow>
     manifest_at a off = Inr m \<and> manifest_bytes_len m \<le> csize (ar_pool a) off \<and> off \<in> places (ar_pool a)
     \<and> (\<forall>d \<in> set (mf_chunks m). generation d = gen_at a (offset d) \<and> offset d \<notin> dom ms)
     \<and> (\<forall>l. mf_prev m = Some l \<longrightarrow> ml_generation l = gen_at a (link_off l) \<and> link_off l \<in> dom ms))"

lemma manifestsD:
  assumes "manifests a ms" "ms off = Some m"
  shows "manifest_at a off = Inr m" "manifest_bytes_len m \<le> csize (ar_pool a) off" "off \<in> places (ar_pool a)"
    "d \<in> set (mf_chunks m) \<Longrightarrow> generation d = gen_at a (offset d)" "d \<in> set (mf_chunks m) \<Longrightarrow> offset d \<notin> dom ms"
    "mf_prev m = Some l \<Longrightarrow> ml_generation l = gen_at a (link_off l)" "mf_prev m = Some l \<Longrightarrow> link_off l \<in> dom ms"
  using assms unfolding manifests_def by blast+

text \<open>What is referred to stays.\<close>

lemma manifests_kept:
  assumes ms: "manifests a ms" and led: "ledger a A L R" and k: "keeps S a b" and sub: "ms' \<subseteq>\<^sub>m ms"
    and away: "dom ms' \<inter> S = {}" "set_mset (refs_of ms') \<inter> S = {}" and refs: "set_mset (refs_of ms') \<subseteq> set_mset R"
    and closed: "\<And>off m l. ms' off = Some m \<Longrightarrow> mf_prev m = Some l \<Longrightarrow> link_off l \<in> dom ms'"
  shows "manifests b ms'"
proof -
  have fin: "finite (dom ms')" using ms map_le_implies_dom_le [OF sub] by (auto simp: manifests_def intro: finite_subset)
  have "manifest_at b off = Inr m \<and> manifest_bytes_len m \<le> csize (ar_pool b) off \<and> off \<in> places (ar_pool b)
     \<and> (\<forall>d \<in> set (mf_chunks m). generation d = gen_at b (offset d) \<and> offset d \<notin> dom ms')
     \<and> (\<forall>l. mf_prev m = Some l \<longrightarrow> ml_generation l = gen_at b (link_off l) \<and> link_off l \<in> dom ms')"
    if m: "ms' off = Some m" for off m
  proof -
    have m0: "ms off = Some m" using m sub by (metis domI map_le_def)
    note d = manifestsD [OF ms m0]
    have off: "off \<notin> S" using m away(1) by auto
    have g: "gen_at b x = gen_at a x" if "x \<in># medges m" for x
    proof -
      have "x \<in># refs_of ms'" using refs_of_member [OF fin m that] .
      then show ?thesis using keeps_gen [OF k] away(2) refs ledger_refs [OF led] by blast
    qed
    have c: "offset d' \<in># medges m" if "d' \<in> set (mf_chunks m)" for d' using that by (simp add: medges_def)
    have l: "link_off l' \<in># medges m" if "mf_prev m = Some l'" for l' using that by (simp add: medges_def)
    have nd: "offset d' \<notin> dom ms'" if "d' \<in> set (mf_chunks m)" for d' using d(5) [OF that] map_le_implies_dom_le [OF sub] by blast
    have "csize (ar_pool b) off = csize (ar_pool a) off" using same_shape_locate(4) [OF keeps_shape [OF k]] by simp
    then show ?thesis
      using manifest_frame [OF d(1,2) k d(3) off] d keeps_places [OF k] g [OF c] g [OF l] closed [OF m] nd by simp
  qed
  then show ?thesis using fin by (simp add: manifests_def)
qed
section \<open>What the cascade leaves\<close>

lemma release_manifest_chunk_spec:
  assumes led: "ledger a A L R" and off: "ref_offset mref \<in># R"
    and gen: "case gen of None \<Rightarrow> True | Some g \<Rightarrow> g = gen_at a (ref_offset mref)"
  obtains b where "release_manifest_chunk mref gen a = (count R (ref_offset mref) = 1, b)"
    "ledger b A L (R - {#ref_offset mref#})" "keeps (if count R (ref_offset mref) = 1 then {ref_offset mref} else {}) a b"
proof -
  have o: "offset (manifest_chunk_desc mref g) = ref_offset mref" "generation (manifest_chunk_desc mref g) = g" for g
    by (simp_all add: manifest_chunk_desc_def)
  show thesis
  proof (cases gen)
    case None
    obtain b where "release_chunk_owned (manifest_chunk_desc mref 0) a = (count R (ref_offset mref) = 1, b)"
      "ledger b A L (R - {#ref_offset mref#})" "keeps (if count R (ref_offset mref) = 1 then {ref_offset mref} else {}) a b"
      by (rule release_chunk_owned_spec [OF led, of "manifest_chunk_desc mref 0", unfolded o]) (rule off)
    then show thesis by (intro that [of b]) (simp_all only: release_manifest_chunk_def None option.case)
  next
    case (Some g)
    then have g: "g = gen_at a (ref_offset mref)" using gen by simp
    obtain b where "release_chunk (manifest_chunk_desc mref g) a = (count R (ref_offset mref) = 1, b)"
      "ledger b A L (R - {#ref_offset mref#})" "keeps (if count R (ref_offset mref) = 1 then {ref_offset mref} else {}) a b"
      by (rule release_chunk_spec [OF led, of "manifest_chunk_desc mref g", unfolded o]) (rule off, rule g)
    then show thesis by (intro that [of b]) (simp_all only: release_manifest_chunk_def Some option.case)
  qed
qed

lemma release_all_spec:
  assumes "ledger a A L (mset (map offset ds) + R)" "\<forall>d \<in> set ds. generation d = gen_at a (offset d)"
  shows "ledger (release_all ds a) A L R" "keeps (spare L R) a (release_all ds a)"
  using refs.give_all [OF assms] by (simp_all add: release_all_def)

text \<open>
  The state of a cascade in a segment that holds the manifests \<open>ms\<close>, where \<open>B\<close> are the references from outside.
\<close>

definition held_by :: "arena \<Rightarrow> u32 set \<Rightarrow> (u32 \<rightharpoonup> u32) \<Rightarrow> u32 multiset \<Rightarrow> (u32 \<rightharpoonup> manifest) \<Rightarrow> bool" where
  "held_by a A L B ms \<longleftrightarrow> ledger a A L (B + refs_of ms) \<and> manifests a ms \<and> dom ms \<subseteq> set_mset (B + refs_of ms)"

lemma map_le_remove: "ms(off := None) \<subseteq>\<^sub>m ms"
  by (auto simp: map_le_def)

lemma refs_of_mono:
  assumes "ms' \<subseteq>\<^sub>m ms" "finite (dom ms)"
  shows "refs_of ms' \<subseteq># refs_of ms"
proof -
  have sub: "dom ms' \<subseteq> dom ms" by (rule map_le_implies_dom_le [OF assms(1)])
  have "refs_of ms' = (\<Sum>off \<in> dom ms'. medges (the (ms off)))"
    unfolding refs_of_def using assms(1) by (intro sum.cong) (auto simp: map_le_def)
  moreover have "refs_of ms = (\<Sum>off \<in> dom ms - dom ms'. medges (the (ms off))) + (\<Sum>off \<in> dom ms'. medges (the (ms off)))"
    unfolding refs_of_def by (rule sum.subset_diff [OF sub assms(2)])
  ultimately show ?thesis by simp
qed

text \<open>One round: the manifest at \<open>off\<close> loses its last reference and gives up its chunks.\<close>

lemma cascade_round:
  assumes inv: "held_by a A L (add_mset off B) ms" and m: "ms off = Some m" and gone: "off \<notin># B + refs_of ms"
    and rel: "ledger a1 A L (B + refs_of ms)" "keeps {off} a a1"
  defines "P \<equiv> (case mf_prev m of None \<Rightarrow> {#} | Some l \<Rightarrow> {#link_off l#})"
  shows "held_by (release_all (mf_chunks m) a1) A L (B + P) (ms(off := None))"
    and "keeps (spare L (B + P + refs_of (ms(off := None)))) a (release_all (mf_chunks m) a1)"
proof -
  let ?ms = "ms(off := None)" and ?a2 = "release_all (mf_chunks m) a1"
  have led: "ledger a A L (add_mset off B + refs_of ms)" and man: "manifests a ms"
    and ref: "dom ms \<subseteq> set_mset (add_mset off B + refs_of ms)"
    using inv by (simp_all add: held_by_def)
  note d = manifestsD [OF man m]
  have fin: "finite (dom ms)" using man by (simp add: manifests_def)
  have split: "refs_of ms = mset (map offset (mf_chunks m)) + P + refs_of ?ms"
    using refs_of_remove [OF fin m] by (simp add: medges_def P_def)
  have gen1: "generation x = gen_at a1 (offset x)" if x: "x \<in> set (mf_chunks m)" for x
  proof -
    have "offset x \<noteq> off" using d(5) [OF x] m by auto
    moreover have "offset x \<in># refs_of ms" using x by (simp add: split)
    ultimately show ?thesis using keeps_gen [OF rel(2)] ledger_refs [OF led, of "offset x"] d(4) [OF x] by simp
  qed
  have "ledger a1 A L (mset (map offset (mf_chunks m)) + (B + P + refs_of ?ms))"
    using rel(1) unfolding split by (simp add: ac_simps)
  then have l2: "ledger ?a2 A L (B + P + refs_of ?ms)" and k2: "keeps (spare L (B + P + refs_of ?ms)) a1 ?a2"
    using release_all_spec gen1 by blast+
  have off2: "off \<notin># B + P + refs_of ?ms" using gone by (auto simp: split)
  show k: "keeps (spare L (B + P + refs_of ?ms)) a ?a2"
    using keeps_mono [OF keeps_trans [OF rel(2) k2]] off2 ledger_disjoint(3) [OF led, of off] by auto
  have dom: "x \<in># B + P + refs_of ?ms" if x: "x \<in> dom ?ms" for x
  proof -
    have "x \<noteq> off" "x \<in> dom ms" using x by auto
    then have "x \<in># B + refs_of ms" using ref by auto
    moreover have "x \<notin> offset ` set (mf_chunks m)" using d(5) \<open>x \<in> dom ms\<close> by auto
    ultimately show ?thesis by (auto simp: split)
  qed
  have "manifests ?a2 ?ms"
  proof (rule manifests_kept [OF man led k map_le_remove])
    show "set_mset (refs_of ?ms) \<subseteq> set_mset (add_mset off B + refs_of ms)" by (auto simp: split)
    show "link_off l \<in> dom ?ms" if "?ms x = Some m'" "mf_prev m' = Some l" for x m' l
    proof -
      have m': "ms x = Some m'" using that(1) by (simp split: if_splits)
      have "link_off l \<in># refs_of ms" using refs_of_member [OF fin m', of "link_off l"] that(2) by (simp add: medges_def)
      then have "link_off l \<noteq> off" using gone by auto
      then show ?thesis using manifestsD(7) [OF man m' that(2)] by auto
    qed
  qed (use dom in auto)
  then show "held_by ?a2 A L (B + P) ?ms" using l2 dom by (auto simp: held_by_def)
qed

text \<open>A reference that is not the last one is only counted down.\<close>

lemma cascade_not_last:
  assumes inv: "held_by a A L (add_mset (ref_offset mref) B) ms"
    and gen: "case gen of None \<Rightarrow> True | Some g \<Rightarrow> g = gen_at a (ref_offset mref)"
    and more: "ref_offset mref \<in># B + refs_of ms"
  shows "held_by (release_manifest_ref mref gen a) A L B ms" "keeps {} a (release_manifest_ref mref gen a)"
proof -
  let ?off = "ref_offset mref" and ?R = "add_mset (ref_offset mref) B + refs_of ms"
  have led: "ledger a A L ?R" and man: "manifests a ms" using inv by (simp_all add: held_by_def)
  have n: "(count ?R ?off = 1) = False" using more by (auto simp: count_eq_zero_iff)
  obtain a1 where a1: "release_manifest_chunk mref gen a = (count ?R ?off = 1, a1)" "ledger a1 A L (?R - {#?off#})"
    "keeps (if count ?R ?off = 1 then {?off} else {}) a a1"
    by (rule release_manifest_chunk_spec [OF led _ gen]) simp
  note a1 = a1(1,3) [unfolded n if_False] a1(2)
  have eq: "release_manifest_ref mref gen a = a1" and k: "keeps {} a a1"
    using a1(1,2) by (simp_all add: release_manifest_ref.simps)
  have "dom ms \<subseteq> set_mset (B + refs_of ms)" using inv more by (auto simp: held_by_def)
  moreover have "manifests a1 ms"
    by (rule manifests_kept [OF man led k]) (auto simp: manifestsD(7) [OF man] map_le_def)
  ultimately show "held_by (release_manifest_ref mref gen a) A L B ms" using a1(3) eq by (simp add: held_by_def)
  show "keeps {} a (release_manifest_ref mref gen a)" using k eq by simp
qed

lemma cascade_exact:
  assumes "held_by a A L (add_mset (ref_offset mref) B) ms" "ref_offset mref \<in> dom ms"
    "case gen of None \<Rightarrow> True | Some g \<Rightarrow> g = gen_at a (ref_offset mref)"
  shows "\<exists>ms'. held_by (release_manifest_ref mref gen a) A L B ms' \<and> ms' \<subseteq>\<^sub>m ms
     \<and> keeps (spare L (B + refs_of ms')) a (release_manifest_ref mref gen a)
     \<and> (dom ms - dom ms') \<inter> set_mset (B + refs_of ms') = {}"
  using assms
proof (induction "published_chunks a" arbitrary: mref gen a ms rule: less_induct)
  case less
  let ?off = "ref_offset mref" and ?R = "add_mset (ref_offset mref) B + refs_of ms"
  define last where "last \<longleftrightarrow> count ?R ?off = 1"
  have last: "last \<longleftrightarrow> ?off \<notin># B + refs_of ms" by (auto simp: last_def count_eq_zero_iff)
  obtain m where m: "ms ?off = Some m" using less.prems(2) by auto
  have led: "ledger a A L ?R" and man: "manifests a ms" using less.prems(1) by (simp_all add: held_by_def)
  have rd: "arena_read a mref = Inr m" using manifestsD(1) [OF man m] by (simp add: arena_read_at)
  obtain a1 where a1: "release_manifest_chunk mref gen a = (last, a1)" "ledger a1 A L (?R - {#?off#})"
    "keeps (if last then {?off} else {}) a a1"
    unfolding last_def by (rule release_manifest_chunk_spec [OF led _ less.prems(3)]) simp
  have l1: "ledger a1 A L (B + refs_of ms)" using a1(2) by simp
  show ?case
  proof (cases last)
    case False
    then have more: "?off \<in># B + refs_of ms" using last by simp
    show ?thesis using cascade_not_last [OF less.prems(1,3) more] keeps_mono by (intro exI [of _ ms]) (auto simp: map_le_def)
  next
    case True
    then have gone: "?off \<notin># B + refs_of ms" and k1: "keeps {?off} a a1" using last a1(3) by simp_all
    let ?a2 = "release_all (mf_chunks m) a1" and ?ms = "ms(?off := None)"
    have fin: "finite (dom ms)" using man by (simp add: manifests_def)
    note rd2 = cascade_round [OF less.prems(1) m gone l1 k1]
    show ?thesis
    proof (cases "mf_prev m")
      case None
      then have "release_manifest_ref mref gen a = ?a2" using a1(1) True rd by (simp add: release_manifest_ref.simps)
      then show ?thesis using rd2 None map_le_remove gone refs_of_remove [OF fin m] by (intro exI [of _ ?ms]) auto
    next
      case (Some l)
      let ?b = "release_manifest_ref (ml_mref l) (Some (ml_generation l)) ?a2"
      have rec: "release_manifest_ref mref gen a = ?b"
        using a1(1) True rd Some by (subst release_manifest_ref.simps) simp
      have fewer: "published_chunks ?a2 < published_chunks a" using cascade_shrinks a1(1) True by simp
      have lo: "link_off l \<in># refs_of ms"
        using refs_of_member [of ms ?off m "link_off l"] man m Some by (simp add: medges_def manifests_def)
      have inv2: "held_by ?a2 A L (add_mset (link_off l) B) ?ms" using rd2(1) Some by simp
      have dm: "link_off l \<in> dom ?ms" using manifestsD(7) [OF man m Some] lo gone by auto
      have k2: "keeps (spare L (add_mset (link_off l) B + refs_of ?ms)) a ?a2" using rd2(2) Some by simp
      have "gen_at ?a2 (link_off l) = gen_at a (link_off l)"
        using keeps_gen [OF k2] ledger_refs [OF led, of "link_off l"] lo by simp
      then have "ml_generation l = gen_at ?a2 (link_off l)" using manifestsD(6) [OF man m Some] by simp
      then have "\<exists>ms'. held_by ?b A L B ms' \<and> ms' \<subseteq>\<^sub>m ?ms \<and> keeps (spare L (B + refs_of ms')) ?a2 ?b
          \<and> (dom ?ms - dom ms') \<inter> set_mset (B + refs_of ms') = {}"
        using inv2 dm by (intro less.hyps [OF fewer]) (simp_all add: link_off_def)
      then obtain ms' where ms': "held_by ?b A L B ms'" "ms' \<subseteq>\<^sub>m ?ms" "keeps (spare L (B + refs_of ms')) ?a2 ?b"
        "(dom ?ms - dom ms') \<inter> set_mset (B + refs_of ms') = {}" by blast
      have "refs_of ms' \<subseteq># refs_of ?ms"
        using refs_of_mono [OF ms'(2)] man by (simp add: manifests_def)
      then have sub: "spare L (add_mset (link_off l) B + refs_of ?ms) \<subseteq> spare L (B + refs_of ms')"
        by (auto dest: mset_subset_eqD)
      have "keeps (spare L (B + refs_of ms')) a ?b"
        using keeps_trans [OF keeps_mono [OF k2 sub] ms'(3)] by (simp only: Un_absorb)
      moreover have "?off \<notin># B + refs_of ms'"
        using gone mset_subset_eqD [OF refs_of_mono [OF map_le_trans [OF ms'(2) map_le_remove] fin]] by auto
      then have "(dom ms - dom ms') \<inter> set_mset (B + refs_of ms') = {}" using ms'(4) by auto
      ultimately show ?thesis using rec ms'(1) map_le_trans [OF ms'(2) map_le_remove] by auto
    qed
  qed
qed

end
