(* ===== verification/Shm_Window.thy ===== *)
theory Shm_Window
  imports Shm_Manifest
begin

text \<open>
  What a commit does to the table of an artifact, from \<^verbatim>\<open>crates/shm-artifact/src/artifact.rs\<close> (the kinds of
  commit, the window policy, and the part of \<^verbatim>\<open>collect_window\<close> and of the delta read that works on parsed manifests)
  and \<^verbatim>\<open>event.rs\<close> (the commit event and its passage through a chunk descriptor). A table is a list of batches, a
  batch a list of chunk descriptors.
\<close>

section \<open>Commits and events\<close>

datatype commit = Replace | Append | Window (keep_batches: u32) | Patch u64 u64

datatype commit_kind = Kind_Replace | Kind_Append | Kind_Patch | Kind_Window

definition kind_as_u32 :: "commit_kind \<Rightarrow> u32" where
  "kind_as_u32 k = (case k of Kind_Replace \<Rightarrow> 0 | Kind_Append \<Rightarrow> 1 | Kind_Patch \<Rightarrow> 2 | Kind_Window \<Rightarrow> 3)"

definition kind_from_u32 :: "u32 \<Rightarrow> commit_kind option" where
  "kind_from_u32 v = (if v = 0 then Some Kind_Replace else if v = 1 then Some Kind_Append
     else if v = 2 then Some Kind_Patch else if v = 3 then Some Kind_Window else None)"

definition commit_kind_of :: "commit \<Rightarrow> commit_kind" where
  "commit_kind_of c = (case c of Replace \<Rightarrow> Kind_Replace | Append \<Rightarrow> Kind_Append | Window _ \<Rightarrow> Kind_Window | Patch _ _ \<Rightarrow> Kind_Patch)"

record version_event =
  ve_version :: u64
  ve_name_id :: u32
  ve_kind :: u32

definition EVENT_MAGIC :: u32 where "EVENT_MAGIC = le_word (map (\<lambda>c. of_nat (of_char c)) ''EVNT'')"

definition event_new :: "u32 \<Rightarrow> u64 \<Rightarrow> commit_kind \<Rightarrow> version_event" where
  "event_new name version kind = \<lparr>ve_version = version, ve_name_id = name, ve_kind = kind_as_u32 kind\<rparr>"

definition event_to_desc :: "version_event \<Rightarrow> chunk_desc" where
  "event_to_desc e = \<lparr>segment_id = ve_name_id e, generation = ve_kind e, offset = ucast (ve_version e AND 0xffffffff),
     len = ucast (drop_bit 32 (ve_version e)), schema_id = EVENT_MAGIC, desc_pad = 0\<rparr>"

definition event_from_desc :: "chunk_desc \<Rightarrow> version_event option" where
  "event_from_desc d =
     (if schema_id d \<noteq> EVENT_MAGIC then None
      else Some \<lparr>ve_version = ucast (offset d) OR push_bit 32 (ucast (len d)), ve_name_id = segment_id d, ve_kind = generation d\<rparr>)"

record window_policy =
  wp_keep_batches :: u32
  wp_max_depth :: u32

definition policy_new :: "u32 \<Rightarrow> window_policy" where
  "policy_new k = \<lparr>wp_keep_batches = k, wp_max_depth = k\<rparr>"

definition saturating_add :: "u32 \<Rightarrow> u32 \<Rightarrow> u32" where
  "saturating_add x y = (if unat x + unat y < 2 ^ 32 then x + y else - 1)"

definition commit_for_depth :: "window_policy \<Rightarrow> u32 option \<Rightarrow> commit" where
  "commit_for_depth p depth =
     (let max_depth = max (wp_max_depth p) 1 in
      case depth of
        Some d \<Rightarrow> if saturating_add d 1 < max_depth then Append else Window (wp_keep_batches p)
      | None \<Rightarrow> Window (wp_keep_batches p))"

section \<open>The batches a window keeps\<close>

text \<open>The early exit of the walk: the batches still to be found.\<close>

definition window_stop :: "manifest \<Rightarrow> nat \<Rightarrow> bool \<times> nat" where
  "window_stop m remaining = (let r = remaining - length (mf_batch_spans m) in (r = 0, r))"

text \<open>The loop over the members, newest first: how many of its newest batches each gives.\<close>

fun window_parts :: "nat \<Rightarrow> manifest list \<Rightarrow> (manifest \<times> nat) list" where
  "window_parts remaining [] = []"
| "window_parts remaining (m # ms) =
     (if remaining = 0 then []
      else let t = min remaining (length (mf_batch_spans m)) in (m, t) # window_parts (remaining - t) ms)"

definition tail :: "nat \<Rightarrow> 'a list \<Rightarrow> 'a list" where
  "tail n xs = drop (length xs - n) xs"

definition tail_spans :: "manifest \<times> nat \<Rightarrow> u32 list" where
  "tail_spans part = tail (snd part) (mf_batch_spans (fst part))"

definition chunk_take :: "manifest \<times> nat \<Rightarrow> nat" where
  "chunk_take part = sum_list (map unat (tail_spans part))"

definition tail_chunks :: "manifest \<times> nat \<Rightarrow> chunk_desc list" where
  "tail_chunks part = tail (chunk_take part) (mf_chunks (fst part))"

text \<open>The loop into the run of batches that a window root had itself kept, newest member first.\<close>

fun kept_run :: "u64 \<Rightarrow> nat \<Rightarrow> (nat \<times> kept_member) list \<Rightarrow> kept_member list \<Rightarrow> bool \<Rightarrow> u64 \<Rightarrow> kept_member list \<times> bool \<times> u64" where
  "kept_run wb need [] run all_inherited run_base = (run, all_inherited, run_base)"
| "kept_run wb need ((ki, k) # ks) run all_inherited run_base =
     (if need = 0 then (run, False, run_base)
      else let t = min need (unat (km_batches k));
               partial_in_m = (ki = 0 \<and> wb = km_version k)
           in kept_run wb (need - t) ks (run @ [\<lparr>km_version = km_version k, km_batches = of_nat t, km_pad = 0\<rparr>])
                (if t < unat (km_batches k) then False else all_inherited)
                (if t < unat (km_batches k) then km_version k else if partial_in_m then km_version k else km_version k - 1))"

text \<open>The member accounting of one part; \<open>oldest\<close> is whether it is the first of the parts, which are oldest first.\<close>

definition account_part :: "bool \<Rightarrow> manifest \<times> nat \<Rightarrow> u64 \<times> kept_member list \<Rightarrow> u64 \<times> kept_member list" where
  "account_part oldest part st =
     (let (m, take) = part; (base, members) = st;
          inherited = sum_list (map (\<lambda>k. unat (km_batches k)) (mf_kept m));
          own_new = length (mf_batch_spans m) - inherited
      in if take \<le> own_new then
           (if oldest then
              (if take < own_new \<or> (mf_prev m = None \<and> \<not> is_window_root m) then mf_version m else mf_version m - 1)
            else base,
            if take > 0 then members @ [\<lparr>km_version = mf_version m, km_batches = of_nat take, km_pad = 0\<rparr>] else members)
         else
           (let (run, all_inherited, run_base) =
                  kept_run (mf_window_base m) (take - own_new) (rev (enumerate 0 (mf_kept m))) [] True (mf_window_base m)
            in (if oldest then (if all_inherited then mf_window_base m else run_base) else base,
                members @ rev run
                  @ (if own_new > 0 then [\<lparr>km_version = mf_version m, km_batches = of_nat own_new, km_pad = 0\<rparr>] else []))))"

fun account_parts :: "bool \<Rightarrow> (manifest \<times> nat) list \<Rightarrow> u64 \<times> kept_member list \<Rightarrow> u64 \<times> kept_member list" where
  "account_parts oldest [] st = st"
| "account_parts oldest (p # ps) st = account_parts False ps (account_part oldest p st)"

section \<open>Reading a chain\<close>

text \<open>
  The loop of \<^verbatim>\<open>batches_of\<close>: the chunks of each batch of each manifest, oldest first, without the first \<open>skip\<close>
  batches of the oldest. Building an Arrow batch from its chunks is left to the caller.
\<close>

fun group_chunks :: "chunk_desc list \<Rightarrow> nat \<Rightarrow> u32 list \<Rightarrow> nat \<Rightarrow> artifact_error + chunk_desc list list" where
  "group_chunks chunks skip [] i = Inr []"
| "group_chunks chunks skip (span # spans) i =
     (if skip > 0 then group_chunks chunks (skip - 1) spans (i + unat span)
      else if i + unat span > length chunks then Inl (ACore OutOfBounds)
      else case group_chunks chunks 0 spans (i + unat span) of
        Inl e \<Rightarrow> Inl e
      | Inr gs \<Rightarrow> Inr (take (unat span) (drop i chunks) # gs))"

fun batches_of :: "manifest list \<Rightarrow> nat \<Rightarrow> artifact_error + chunk_desc list list" where
  "batches_of [] skip = Inr []"
| "batches_of (m # ms) skip =
     (case group_chunks (mf_chunks m) skip (mf_batch_spans m) 0 of
        Inl e \<Rightarrow> Inl e
      | Inr gs \<Rightarrow> (case batches_of ms 0 of Inl e \<Rightarrow> Inl e | Inr hs \<Rightarrow> Inr (gs @ hs)))"

record delta =
  dl_batches :: "chunk_desc list list"
  dl_from_version :: u64
  dl_truncated :: bool

definition since_stop :: "u64 \<Rightarrow> manifest \<Rightarrow> unit \<Rightarrow> bool \<times> unit" where
  "since_stop since m u = ((case mf_prev m of None \<Rightarrow> True | Some l \<Rightarrow> ml_version l \<le> since), u)"

definition batches_since :: "(manifest_link \<Rightarrow> artifact_error + manifest) \<Rightarrow> manifest \<Rightarrow> u64 \<Rightarrow> artifact_error + delta" where
  "batches_since read_prev head since =
     (if mf_version head \<le> since then Inr \<lparr>dl_batches = [], dl_from_version = mf_version head, dl_truncated = False\<rparr>
      else case walk_chain_newest_first head read_prev (since_stop since) () of
        Inl e \<Rightarrow> Inl e
      | Inr newest_first \<Rightarrow>
          let chain = rev newest_first; oldest = hd chain;
              (skip, truncated) =
                (if since = 0 \<or> mf_prev oldest \<noteq> None then (0, False)
                 else case kept_batches_before since oldest of Some skip \<Rightarrow> (skip, False) | None \<Rightarrow> (0, True))
          in (case batches_of chain skip of
                Inl e \<Rightarrow> Inl e
              | Inr bs \<Rightarrow> Inr \<lparr>dl_batches = bs, dl_from_version = mf_version oldest, dl_truncated = truncated\<rparr>))"

end
