(* ===== verification/Shm_Artifact.thy ===== *)
theory Shm_Artifact
  imports Shm_Cascade Shm_Head Shm_Window
begin

text \<open>
  \<^verbatim>\<open>crates/shm-artifact/src/artifact.rs\<close>: versioned artifacts, each operation run to completion. The state is the
  data segment (an \<open>arena\<close>), the head, the borrow journal the caller passed, if any, and the events its watch
  sink received. Attaching a pool to the segment, which the code does in each operation, checks a magic that
  creation wrote and is left out. A retry loop that, run alone, would see the same state again and so
  never end is the value \<open>None\<close>.
\<close>

section \<open>State and handles\<close>

record artifact =
  a_name_id :: u32
  a_incarnation :: u32
  a_watch :: bool

record artifact_state =
  as_arena :: arena
  as_head :: artifact_head
  as_journal :: "journal option"
  as_events :: "version_event list"

definition EVICTOR_OWNER :: u32 where "EVICTOR_OWNER = - 1"

definition head_slot_at :: "nat \<Rightarrow> artifact_state \<Rightarrow> pin_slot" where
  "head_slot_at i s = ah_pins (as_head s) ! i"

definition set_slot_at :: "nat \<Rightarrow> pin_slot \<Rightarrow> artifact_state \<Rightarrow> artifact_state" where
  "set_slot_at i sl s = s\<lparr>as_head := (as_head s)\<lparr>ah_pins := (ah_pins (as_head s))[i := sl]\<rparr>\<rparr>"

definition art_read_checked :: "artifact_state \<Rightarrow> u64 \<Rightarrow> u32 \<Rightarrow> u64 \<Rightarrow> artifact_error + manifest" where
  "art_read_checked s mref art version =
     read_manifest_checked (pl_segment (ar_pool (as_arena s))) (ar_bytes (as_arena s)) mref art version"

definition revalidate_incarnation :: "u32 \<Rightarrow> artifact_head \<Rightarrow> bool" where
  "revalidate_incarnation expected h = is_incarnation expected h"

definition check_live :: "artifact \<Rightarrow> artifact_state \<Rightarrow> bool" where
  "check_live art s = is_incarnation (a_incarnation art) (as_head s)"

section \<open>Creating and attaching\<close>

definition artifact_create ::
  "u32 \<Rightarrow> segment \<Rightarrow> segment \<Rightarrow> (nat \<Rightarrow> u32) \<Rightarrow> (nat \<Rightarrow> u8) \<Rightarrow> pool_config \<Rightarrow> artifact_error + (artifact \<times> artifact_state)" where
  "artifact_create name head_seg data_seg m0 b0 cfg =
     (case pool_create data_seg m0 cfg of
        Inl e \<Rightarrow> Inl (ACore e)
      | Inr (_, p) \<Rightarrow>
          if payload_len head_seg < head_region_bytes
          then Inl (ACore (LayoutOverflow ''head segment too small for ArtifactHead''))
          else Inr (\<lparr>a_name_id = name, a_incarnation = FIRST_INCARNATION, a_watch = False\<rparr>,
                    \<lparr>as_arena = \<lparr>ar_pool = p, ar_bytes = b0\<rparr>, as_head = commission FIRST_INCARNATION fresh_head,
                     as_journal = None, as_events = []\<rparr>))"

definition artifact_attach :: "u32 \<Rightarrow> segment \<Rightarrow> artifact_head \<Rightarrow> artifact_error + artifact" where
  "artifact_attach name head_seg h =
     (if payload_len head_seg < head_region_bytes then Inl BadMagic
      else if \<not> check_magic h then Inl BadMagic
      else if ah_incarnation h = NO_INCARNATION then Inl AStale
      else Inr \<lparr>a_name_id = name, a_incarnation = ah_incarnation h, a_watch = False\<rparr>)"

text \<open>\<^verbatim>\<open>create_at\<close>: \<open>prior\<close> is what the head region held; the fence is carried over.\<close>

definition create_at :: "u32 \<Rightarrow> u32 \<Rightarrow> segment \<Rightarrow> nat \<Rightarrow> artifact_head \<Rightarrow> artifact_error + (artifact \<times> artifact_head)" where
  "create_at name incarnation head_seg head_off prior =
     (let need = head_off + head_region_bytes in
      if need \<ge> 2 ^ 64 then Inl (ACore (LayoutOverflow ''head offset overflow''))
      else if payload_len head_seg < need then Inl (ACore (LayoutOverflow ''head segment too small for ArtifactHead at offset''))
      else let carry = (if check_magic prior then lease_fence (ah_write_lease prior) else 0);
               fresh = fresh_head\<lparr>ah_write_lease := pack_lease LEASE_OWNER_NONE carry\<rparr>
           in Inr (\<lparr>a_name_id = name, a_incarnation = incarnation, a_watch = False\<rparr>, commission incarnation fresh))"

definition attach_at :: "u32 \<Rightarrow> segment \<Rightarrow> nat \<Rightarrow> artifact_head \<Rightarrow> artifact_error + artifact" where
  "attach_at name head_seg head_off h =
     (let need = head_off + head_region_bytes in
      if need \<ge> 2 ^ 64 then Inl BadMagic
      else if payload_len head_seg < need then Inl BadMagic
      else if \<not> check_magic h then Inl BadMagic
      else if ah_incarnation h = NO_INCARNATION then Inl AStale
      else Inr \<lparr>a_name_id = name, a_incarnation = ah_incarnation h, a_watch = False\<rparr>)"

definition attach_at_incarnation :: "u32 \<Rightarrow> u32 \<Rightarrow> segment \<Rightarrow> nat \<Rightarrow> artifact_head \<Rightarrow> artifact_error + artifact" where
  "attach_at_incarnation name expected head_seg head_off h =
     (case attach_at name head_seg head_off h of
        Inl e \<Rightarrow> Inl e
      | Inr art \<Rightarrow> if a_incarnation art \<noteq> expected then Inl AStale else Inr art)"

section \<open>Retiring a version\<close>

text \<open>
  The second scan after a revert sees the same pins as the first when nothing else runs, so the retry
  of the loop is not taken.
\<close>

definition try_retire_version_at :: "u64 \<Rightarrow> u64 option \<Rightarrow> artifact_state \<Rightarrow> artifact_state" where
  "try_retire_version_at version bits s =
     (case (case bits of Some b \<Rightarrow> find_slot_with_manifest version b (as_head s) | None \<Rightarrow> find_slot version (as_head s)) of
        None \<Rightarrow> s
      | Some i \<Rightarrow>
          if ah_current (as_head s) = version then s
          else case elect_freeing (head_slot_at i s) of
            (False, _) \<Rightarrow> s
          | (True, sl) \<Rightarrow>
              if pin_scan sl \<noteq> 0 then set_slot_at i (revert_live sl) s
              else set_slot_at i (store_free sl)
                     (s\<lparr>as_arena := release_manifest_ref (ps_manifest sl) None (as_arena s)\<rparr>))"

definition try_retire_version :: "u64 \<Rightarrow> artifact_state \<Rightarrow> artifact_state" where
  "try_retire_version version s = try_retire_version_at version None s"

section \<open>Committing\<close>

text \<open>The closure that stages the manifest: the allocation, then the bytes at the start of the chunk.\<close>

definition write_manifest_in ::
  "u32 \<Rightarrow> u64 \<Rightarrow> u32 \<Rightarrow> chunk_desc list \<Rightarrow> u32 list \<Rightarrow> manifest_link option \<Rightarrow> (u64 \<times> kept_member list) option
     \<Rightarrow> arena \<Rightarrow> (artifact_error + chunk_desc) \<times> arena" where
  "write_manifest_in art version schema chunks spans prev window a =
     (let n = manifest_len (length chunks) (length spans) (length (case window of None \<Rightarrow> [] | Some (_, k) \<Rightarrow> k)) in
      case write_manifest (\<lambda>n. map_sum Arrow id (fst (allocator_alloc n a))) art version schema chunks spans prev window of
        Inl (Arrow (ChunkTooSmall need have)) \<Rightarrow> (Inl (Arrow (ChunkTooSmall need have)), snd (allocator_alloc n a))
      | Inl e \<Rightarrow> (Inl e, a)
      | Inr (desc, bs) \<Rightarrow>
          (Inr desc, (snd (allocator_alloc n a))\<lparr>ar_bytes := write_bytes (allocator_resolve desc) bs (ar_bytes (snd (allocator_alloc n a)))\<rparr>))"

text \<open>Step 1, the loop that publishes the staged chunks.\<close>

fun publish_loop :: "chunk_desc list \<Rightarrow> chunk_desc list \<Rightarrow> arena \<Rightarrow> (artifact_error + unit) \<times> arena" where
  "publish_loop published [] a = (Inr (), a)"
| "publish_loop published (d # ds) a =
     (case publish_staged d a of
        (Inr _, a') \<Rightarrow> publish_loop (published @ [d]) ds a'
      | (Inl e, a') \<Rightarrow> (Inl e, fold free_loaned (d # ds) (release_all published a')))"

text \<open>
  \<^verbatim>\<open>rollback_staged\<close>: the slot of the failed version if it is still its own, the manifest, the link, the kept
  and the published chunks.
\<close>

definition rollback_staged ::
  "chunk_desc list \<Rightarrow> manifest_link option \<Rightarrow> chunk_desc list \<Rightarrow> chunk_desc option \<Rightarrow> (nat \<times> u64) option
     \<Rightarrow> artifact_state \<Rightarrow> artifact_state" where
  "rollback_staged published link kept manifest_desc slot s =
     (let s1 = (case slot of
                  None \<Rightarrow> s
                | Some (i, version) \<Rightarrow>
                    let sl = head_slot_at i s in
                    if ps_state sl = SLOT_LIVE \<and> ps_version sl = version
                    then set_slot_at i (sl\<lparr>ps_version := 0, ps_state := SLOT_FREE\<rparr>) s else s);
          a1 = (case manifest_desc of None \<Rightarrow> as_arena s1 | Some m \<Rightarrow> snd (release_chunk m (as_arena s1)));
          a2 = (case link of
                  None \<Rightarrow> a1
                | Some l \<Rightarrow>
                    (case pool_ctrl (ar_pool a1) (manifest_chunk_desc (ml_mref l) 0) of
                       Inl _ \<Rightarrow> a1
                     | Inr g \<Rightarrow>
                         if ctrl_generation (ctrl_get (ar_pool a1) g) = ml_generation l
                         then release_manifest_ref (ml_mref l) (Some (ml_generation l)) a1 else a1))
      in s1\<lparr>as_arena := release_all published (release_all kept a2)\<rparr>)"

text \<open>Steps 2 and 3, the link of an append: one reference on the manifest of the predecessor.\<close>

definition resolve_link :: "artifact \<Rightarrow> u64 \<Rightarrow> u32 \<Rightarrow> artifact_state \<Rightarrow> (artifact_error + manifest_link) \<times> artifact_state" where
  "resolve_link art expect schema s =
     (let mref = ah_manifest_desc (as_head s); conflict = Conflict expect (ah_current (as_head s)) in
      case art_read_checked s mref (a_name_id art) expect of
        Inl _ \<Rightarrow> (Inl conflict, s)
      | Inr prior \<Rightarrow>
          if mf_schema_id prior \<noteq> schema then (Inl (Unsupported ''Append schema differs from the prior version''), s)
          else case pool_ctrl (ar_pool (as_arena s)) (manifest_chunk_desc mref 0) of
            Inl e \<Rightarrow> (Inl (ACore e), s)
          | Inr g \<Rightarrow>
              let gen = ctrl_generation (ctrl_get (ar_pool (as_arena s)) g) in
              (case on_ctrl g borrow_shared (as_arena s) of
                 (Inl _, a') \<Rightarrow> (Inl conflict, s\<lparr>as_arena := a'\<rparr>)
               | (Inr _, a') \<Rightarrow>
                   let s' = s\<lparr>as_arena := a'\<rparr>;
                       identity_ok = (case art_read_checked s' mref (a_name_id art) expect of Inr _ \<Rightarrow> True | Inl _ \<Rightarrow> False);
                       generation_ok = (ctrl_generation (ctrl_get (ar_pool a') g) = gen)
                   in if \<not> identity_ok \<or> \<not> generation_ok then
                        (Inl conflict, if generation_ok then s'\<lparr>as_arena := release_manifest_ref mref (Some gen) a'\<rparr> else s')
                      else (Inr (link_from mref gen prior), s')))"

text \<open>The closure that \<^verbatim>\<open>chain\<close>, \<^verbatim>\<open>batches_since\<close> and \<^verbatim>\<open>collect_window\<close> resolve a link with.\<close>

definition read_link_checked :: "arena \<Rightarrow> u32 \<Rightarrow> manifest_link \<Rightarrow> artifact_error + manifest" where
  "read_link_checked a art link =
     (case pool_ctrl (ar_pool a) (manifest_chunk_desc (ml_mref link) 0) of
        Inl e \<Rightarrow> Inl (ACore e)
      | Inr g \<Rightarrow>
          if ctrl_generation (ctrl_get (ar_pool a) g) \<noteq> ml_generation link then Inl VersionGone
          else read_manifest_checked (pl_segment (ar_pool a)) (ar_bytes a) (ml_mref link) art (ml_version link))"

text \<open>The inner loop of \<^verbatim>\<open>collect_window\<close>: one reference on each kept chunk, all given back on a failure.\<close>

fun hold_chunks :: "chunk_desc list \<Rightarrow> chunk_desc list \<Rightarrow> arena \<Rightarrow> (artifact_error + chunk_desc list) \<times> arena" where
  "hold_chunks taken [] a = (Inr taken, a)"
| "hold_chunks taken (d # ds) a =
     (case
        (case pool_ctrl (ar_pool a) d of
           Inl e \<Rightarrow> (Inl (ACore e), a)
         | Inr g \<Rightarrow>
             (case validate (ctrl_get (ar_pool a) g) d of
                Inl e \<Rightarrow> (Inl (ACore e), a)
              | Inr _ \<Rightarrow>
                  (case on_ctrl g borrow_shared a of
                     (Inl e, a') \<Rightarrow> (Inl (ACore e), a')
                   | (Inr _, a') \<Rightarrow>
                       if validate (ctrl_get (ar_pool a') g) d \<noteq> Inr ()
                       then (Inl VersionGone, snd (release_chunk_owned d a'))
                       else (Inr (), a')))) of
        (Inl e, a') \<Rightarrow> (Inl e, release_all taken a')
      | (Inr _, a') \<Rightarrow> hold_chunks (taken @ [d]) ds a')"

fun hold_parts :: "chunk_desc list \<Rightarrow> (manifest \<times> nat) list \<Rightarrow> arena \<Rightarrow> (artifact_error + chunk_desc list) \<times> arena" where
  "hold_parts taken [] a = (Inr taken, a)"
| "hold_parts taken (p # ps) a =
     (if chunk_take p > length (mf_chunks (fst p)) then (Inl VersionGone, a)
      else case hold_chunks taken (tail_chunks p) a of
        (Inl e, a') \<Rightarrow> (Inl e, a')
      | (Inr taken', a') \<Rightarrow> hold_parts taken' ps a')"

record window_set =
  ws_chunks :: "chunk_desc list"
  ws_spans :: "u32 list"
  ws_members :: "kept_member list"
  ws_base :: u64

definition collect_window :: "manifest \<Rightarrow> u32 \<Rightarrow> arena \<Rightarrow> (artifact_error + window_set) \<times> arena" where
  "collect_window prior keep a =
     (case (if keep = 0 then Inr []
            else walk_chain_newest_first prior (read_link_checked a (mf_artifact_id prior)) window_stop (unat keep)) of
        Inl e \<Rightarrow> (Inl e, a)
      | Inr members \<Rightarrow>
          let parts = rev (window_parts (unat keep) members) in
          (case hold_parts [] parts a of
             (Inl e, a') \<Rightarrow> (Inl e, a')
           | (Inr chunks, a') \<Rightarrow>
               let (base, kept) = account_parts True parts (mf_version prior, []) in
               (Inr \<lparr>ws_chunks = chunks, ws_spans = concat (map tail_spans parts), ws_members = kept, ws_base = base\<rparr>, a')))"
text \<open>
  What the new manifest refers to: a link for an append, the kept batches for a window, nothing for the
  first version or a replacement.
\<close>

definition resolve_window :: "artifact \<Rightarrow> u64 \<Rightarrow> u32 \<Rightarrow> u32 \<Rightarrow> artifact_state \<Rightarrow> (artifact_error + window_set) \<times> artifact_state" where
  "resolve_window art expect schema keep s =
     (let mref = ah_manifest_desc (as_head s); conflict = Conflict expect (ah_current (as_head s)) in
      case art_read_checked s mref (a_name_id art) expect of
        Inl _ \<Rightarrow> (Inl conflict, s)
      | Inr prior \<Rightarrow>
          if mf_schema_id prior \<noteq> schema then (Inl (Unsupported ''Window schema differs from the prior version''), s)
          else case collect_window prior keep (as_arena s) of
            (Inl _, a') \<Rightarrow> (Inl conflict, s\<lparr>as_arena := a'\<rparr>)
          | (Inr w, a') \<Rightarrow> (Inr w, s\<lparr>as_arena := a'\<rparr>))"

definition commit_sources ::
  "artifact \<Rightarrow> u64 \<Rightarrow> commit \<Rightarrow> u32 \<Rightarrow> artifact_state \<Rightarrow> (artifact_error + (manifest_link option \<times> window_set option)) \<times> artifact_state" where
  "commit_sources art expect c schema s =
     (case c of
        Append \<Rightarrow>
          if expect = NO_VERSION then (Inr (None, None), s)
          else (case resolve_link art expect schema s of
                  (Inl e, s') \<Rightarrow> (Inl e, s') | (Inr l, s') \<Rightarrow> (Inr (Some l, None), s'))
      | Window keep \<Rightarrow>
          if expect = NO_VERSION then (Inr (None, None), s)
          else (case resolve_window art expect schema keep s of
                  (Inl e, s') \<Rightarrow> (Inl e, s') | (Inr w, s') \<Rightarrow> (Inr (None, Some w), s'))
      | _ \<Rightarrow> (Inr (None, None), s))"

text \<open>The crash record of the staged manifest: a full journal leaves the commit unjournaled.\<close>

definition journal_staged :: "artifact \<Rightarrow> chunk_desc \<Rightarrow> artifact_state \<Rightarrow> nat option \<times> artifact_state" where
  "journal_staged art md s =
     (case as_journal s of
        None \<Rightarrow> (None, s)
      | Some j \<Rightarrow>
          (case record_staged_manifest j (a_name_id art) (a_incarnation art) (from_desc md) (generation md) of
             (Inl _, j') \<Rightarrow> (None, s\<lparr>as_journal := Some j'\<rparr>)
           | (Inr k, j') \<Rightarrow> (Some k, s\<lparr>as_journal := Some j'\<rparr>)))"

definition drop_rec :: "nat option \<Rightarrow> artifact_state \<Rightarrow> artifact_state" where
  "drop_rec rec s =
     (case (as_journal s, rec) of
        (Some j, Some k) \<Rightarrow> s\<lparr>as_journal := Some (snd (journal_release j k))\<rparr>
      | _ \<Rightarrow> s)"

text \<open>Step 6 once the exchange of \<^verbatim>\<open>current\<close> has succeeded.\<close>

definition commit_won :: "artifact \<Rightarrow> u64 \<Rightarrow> commit \<Rightarrow> u64 \<Rightarrow> u32 \<Rightarrow> artifact_state \<Rightarrow> artifact_state" where
  "commit_won art expect c bits schema s =
     (let h = as_head s; prior_bits = ah_manifest_desc h;
          s1 = s\<lparr>as_head := h\<lparr>ah_current := expect + 1, ah_manifest_desc := bits,
                   ah_schema_id := snd (compare_exchange (ah_schema_id h) 0 schema)\<rparr>\<rparr>;
          s2 = (if expect \<noteq> NO_VERSION then try_retire_version_at expect (Some prior_bits) s1 else s1)
      in if a_watch art
         then s2\<lparr>as_events := as_events s2 @ [event_new (a_name_id art) (expect + 1) (commit_kind_of c)]\<rparr> else s2)"

text \<open>Steps 5, 4b and 6: claim a slot, validate the occupant, install.\<close>

definition commit_install ::
  "artifact \<Rightarrow> u64 \<Rightarrow> commit \<Rightarrow> chunk_desc list \<Rightarrow> manifest_link option \<Rightarrow> chunk_desc list \<Rightarrow> chunk_desc \<Rightarrow> u32
     \<Rightarrow> artifact_state \<Rightarrow> (artifact_error + u64) \<times> artifact_state" where
  "commit_install art expect c published link kept md schema s =
     (let target = expect + 1;
          (rec, s1) = journal_staged art md s;
          (claimed, h) = claim_slot target (from_desc md) (as_head s1)
      in case claimed of
           None \<Rightarrow>
             (Inl (Unsupported ''live-version table full''), drop_rec rec (rollback_staged published link kept (Some md) None s1))
         | Some i \<Rightarrow>
             let s2 = s1\<lparr>as_head := h\<rparr> in
             if \<not> revalidate_incarnation (a_incarnation art) (as_head s2) then
               (Inl AStale, drop_rec rec (rollback_staged published link kept (Some md) None
                  (set_slot_at i (store_free (head_slot_at i s2)) s2)))
             else case compare_exchange (ah_current (as_head s2)) expect target of
               (True, _) \<Rightarrow> (Inr target, drop_rec rec (commit_won art expect c (from_desc md) schema s2))
             | (False, actual) \<Rightarrow>
                 (Inl (Conflict expect actual), drop_rec rec (rollback_staged published link kept (Some md) (Some (i, target)) s2)))"

text \<open>The whole of \<^verbatim>\<open>commit_staged_inner_j\<close>; \<^verbatim>\<open>expect + 1\<close> wraps as in a release build.\<close>

definition commit_staged_inner_j ::
  "artifact \<Rightarrow> u64 \<Rightarrow> u32 \<Rightarrow> commit \<Rightarrow> chunk_desc list \<Rightarrow> u32 list \<Rightarrow> u32 \<Rightarrow> u32 option
     \<Rightarrow> artifact_state \<Rightarrow> (artifact_error + u64) \<times> artifact_state" where
  "commit_staged_inner_j art expect owner c staged staged_spans schema lease_token s =
     (if \<not> check_live art s then (Inl AStale, s)
      else if (case c of Patch _ _ \<Rightarrow> True | _ \<Rightarrow> False) then (Inl (Unsupported ''Patch commit deferred to v0.2''), s)
      else if (case lease_token of None \<Rightarrow> False | Some t \<Rightarrow> \<not> lease_held_by owner t (ah_write_lease (as_head s)))
      then (Inl Fenced, s\<lparr>as_arena := fold free_loaned staged (as_arena s)\<rparr>)
      else case publish_loop [] staged (as_arena s) of
        (Inl e, a) \<Rightarrow> (Inl e, s\<lparr>as_arena := a\<rparr>)
      | (Inr _, a) \<Rightarrow>
          (case commit_sources art expect c schema (s\<lparr>as_arena := a\<rparr>) of
             (Inl e, s1) \<Rightarrow> (Inl e, rollback_staged staged None [] None None s1)
           | (Inr (link, w), s1) \<Rightarrow>
               let kept = (case w of None \<Rightarrow> [] | Some w \<Rightarrow> ws_chunks w);
                   kept_spans = (case w of None \<Rightarrow> [] | Some w \<Rightarrow> ws_spans w);
                   window = map_option (\<lambda>w. (ws_base w, ws_members w)) w;
                   own_chunks = (if kept = [] then staged else kept @ staged);
                   own_spans = (if kept = [] then staged_spans else kept_spans @ staged_spans)
               in (case stage_chunk (write_manifest_in (a_name_id art) (expect + 1) schema own_chunks own_spans link window)
                          owner (as_arena s1) of
                     (Inl e, a1) \<Rightarrow> (Inl e, rollback_staged staged link kept None None (s1\<lparr>as_arena := a1\<rparr>))
                   | (Inr md, a1) \<Rightarrow> commit_install art expect c staged link kept md schema (s1\<lparr>as_arena := a1\<rparr>))))"

text \<open>The entry points: those that take no journal, and those that journal.\<close>

definition unjournaled :: "(artifact_state \<Rightarrow> 'r \<times> artifact_state) \<Rightarrow> artifact_state \<Rightarrow> 'r \<times> artifact_state" where
  "unjournaled f s = (case f (s\<lparr>as_journal := None\<rparr>) of (r, s') \<Rightarrow> (r, s'\<lparr>as_journal := as_journal s\<rparr>))"

definition commit_staged_inner ::
  "artifact \<Rightarrow> u64 \<Rightarrow> u32 \<Rightarrow> commit \<Rightarrow> chunk_desc list \<Rightarrow> u32 list \<Rightarrow> u32 \<Rightarrow> u32 option
     \<Rightarrow> artifact_state \<Rightarrow> (artifact_error + u64) \<times> artifact_state" where
  "commit_staged_inner art expect owner c staged spans schema fence =
     unjournaled (commit_staged_inner_j art expect owner c staged spans schema fence)"

definition commit_staged_optimistic ::
  "artifact \<Rightarrow> u32 \<Rightarrow> u64 \<Rightarrow> commit \<Rightarrow> chunk_desc list \<Rightarrow> u32 list \<Rightarrow> u32 \<Rightarrow> artifact_state \<Rightarrow> (artifact_error + u64) \<times> artifact_state" where
  "commit_staged_optimistic art owner expect c staged spans schema = commit_staged_inner art expect owner c staged spans schema None"

definition commit_staged_optimistic_journaled ::
  "artifact \<Rightarrow> u32 \<Rightarrow> u64 \<Rightarrow> commit \<Rightarrow> chunk_desc list \<Rightarrow> u32 list \<Rightarrow> u32 \<Rightarrow> artifact_state \<Rightarrow> (artifact_error + u64) \<times> artifact_state" where
  "commit_staged_optimistic_journaled art owner expect c staged spans schema =
     commit_staged_inner_j art expect owner c staged spans schema None"

text \<open>
  A commit of one batch. \<open>write_batch_chunks\<close> of \<^verbatim>\<open>shm-arrow\<close> is a parameter, the schema id what the registry
  interned.
\<close>

definition commit_inner_j ::
  "(arena \<Rightarrow> (artifact_error + chunk_desc list) \<times> arena) \<Rightarrow> artifact \<Rightarrow> u64 \<Rightarrow> u32 \<Rightarrow> commit \<Rightarrow> u32 \<Rightarrow> u32 option
     \<Rightarrow> artifact_state \<Rightarrow> (artifact_error + u64) \<times> artifact_state" where
  "commit_inner_j write_batch_chunks art expect owner c schema fence s =
     (if (case c of Patch _ _ \<Rightarrow> True | _ \<Rightarrow> False) then (Inl (Unsupported ''Patch commit deferred to v0.2''), s)
      else case write_batch_chunks (as_arena s) of
        (Inl e, a) \<Rightarrow> (Inl e, s\<lparr>as_arena := a\<rparr>)
      | (Inr staged, a) \<Rightarrow>
          (case loan_all staged owner a of
             (Inl e, a1) \<Rightarrow> (Inl e, s\<lparr>as_arena := a1\<rparr>)
           | (Inr _, a1) \<Rightarrow>
               commit_staged_inner_j art expect owner c staged [of_nat (length staged)] schema fence (s\<lparr>as_arena := a1\<rparr>)))"

definition commit_optimistic ::
  "(arena \<Rightarrow> (artifact_error + chunk_desc list) \<times> arena) \<Rightarrow> artifact \<Rightarrow> u32 \<Rightarrow> u64 \<Rightarrow> commit \<Rightarrow> u32
     \<Rightarrow> artifact_state \<Rightarrow> (artifact_error + u64) \<times> artifact_state" where
  "commit_optimistic write_batch_chunks art owner expect c schema =
     unjournaled (commit_inner_j write_batch_chunks art expect owner c schema None)"

definition evict_current_optimistic :: "artifact \<Rightarrow> u32 \<Rightarrow> u64 \<Rightarrow> artifact_state \<Rightarrow> (artifact_error + u64) \<times> artifact_state" where
  "evict_current_optimistic art owner expect s =
     (if expect = NO_VERSION then (Inl VersionGone, s)
      else commit_staged_inner art expect owner Replace [] [] (ah_schema_id (as_head s)) None s)"
section \<open>Pinning\<close>

definition undo_pin :: "nat \<Rightarrow> artifact_state \<Rightarrow> artifact_state" where
  "undo_pin i s =
     (let (prev, sl) = unpin (head_slot_at i s); s1 = set_slot_at i sl s in
      if prev = 1 then
        (let sv = ps_version sl in
         if sv \<noteq> 0 \<and> ah_current (as_head s1) \<noteq> sv then try_retire_version sv s1 else s1)
      else s1)"

record version_pin =
  vp_version :: u64
  vp_slot :: nat
  vp_manifest :: manifest
  vp_journal :: "nat option"

text \<open>The record of an accepted pin; when the journal is full the pin is undone.\<close>

definition journal_pin :: "artifact \<Rightarrow> u64 \<Rightarrow> nat \<Rightarrow> manifest \<Rightarrow> artifact_state \<Rightarrow> (artifact_error + version_pin) \<times> artifact_state" where
  "journal_pin art v i m s =
     (case as_journal s of
        None \<Rightarrow> (Inr \<lparr>vp_version = v, vp_slot = i, vp_manifest = m, vp_journal = None\<rparr>, s)
      | Some j \<Rightarrow>
          (case record_artifact_pin j (a_name_id art) (a_incarnation art) v of
             (Inl e, j') \<Rightarrow> (Inl (ACore e), undo_pin i (s\<lparr>as_journal := Some j'\<rparr>))
           | (Inr k, j') \<Rightarrow>
               (Inr \<lparr>vp_version = v, vp_slot = i, vp_manifest = m, vp_journal = Some k\<rparr>, s\<lparr>as_journal := Some j'\<rparr>)))"

partial_function (option) pin_inner :: "artifact \<Rightarrow> artifact_state \<Rightarrow> ((artifact_error + version_pin) \<times> artifact_state) option" where
  "pin_inner art s =
     (let v = ah_current (as_head s) in
      if v = NO_VERSION then Some (Inl VersionGone, s)
      else case find_slot v (as_head s) of
        None \<Rightarrow> pin_inner art s
      | Some i \<Rightarrow>
          let s1 = set_slot_at i (publish_pin (head_slot_at i s)) s in
          if \<not> accept_pin v (head_slot_at i s1) then pin_inner art (undo_pin i s1)
          else if \<not> is_incarnation (a_incarnation art) (as_head s1) then Some (Inl AStale, undo_pin i s1)
          else let head_md = ah_manifest_desc (as_head s1) in
          if ps_manifest (head_slot_at i s1) \<noteq> head_md then pin_inner art (undo_pin i s1)
          else case art_read_checked s1 head_md (a_name_id art) v of
            Inl _ \<Rightarrow> pin_inner art (undo_pin i s1)
          | Inr m \<Rightarrow> Some (journal_pin art v i m s1))"

definition pin :: "artifact \<Rightarrow> artifact_state \<Rightarrow> ((artifact_error + version_pin) \<times> artifact_state) option" where
  "pin art s = map_option (\<lambda>(r, s'). (r, s'\<lparr>as_journal := as_journal s\<rparr>)) (pin_inner art (s\<lparr>as_journal := None\<rparr>))"

definition pin_journaled :: "artifact \<Rightarrow> artifact_state \<Rightarrow> ((artifact_error + version_pin) \<times> artifact_state) option" where
  "pin_journaled art s = pin_inner art s"

text \<open>\<^verbatim>\<open>PinState::drop\<close>: a pin whose journal slot is already clear was given back by the replay.\<close>

definition pin_unpin :: "version_pin \<Rightarrow> artifact_state \<Rightarrow> artifact_state" where
  "pin_unpin p s =
     (let (prev, sl) = unpin (head_slot_at (vp_slot p) s); s1 = set_slot_at (vp_slot p) sl s in
      if prev = 1 \<and> ah_current (as_head s1) \<noteq> vp_version p then try_retire_version (vp_version p) s1 else s1)"

definition pin_drop :: "version_pin \<Rightarrow> artifact_state \<Rightarrow> artifact_state" where
  "pin_drop p s =
     (case (vp_journal p, as_journal s) of
        (Some k, Some j) \<Rightarrow>
          (let (r, j') = journal_release j k; s1 = s\<lparr>as_journal := Some j'\<rparr> in
           if r = Inr False then s1 else pin_unpin p s1)
      | _ \<Rightarrow> pin_unpin p s)"

partial_function (option) retain_loop :: "artifact \<Rightarrow> version_pin \<Rightarrow> artifact_state \<Rightarrow> artifact_state option" where
  "retain_loop art p s =
     (let i = vp_slot p; s1 = set_slot_at i (publish_pin (head_slot_at i s)) s in
      if accept_pin (vp_version p) (head_slot_at i s1) \<and> is_incarnation (a_incarnation art) (as_head s1) then Some s1
      else retain_loop art p (set_slot_at i (snd (unpin (head_slot_at i s1))) s1))"

definition retain_pin :: "artifact \<Rightarrow> artifact_state \<Rightarrow> ((artifact_error + u64) \<times> artifact_state) option" where
  "retain_pin art s =
     (case pin art s of
        None \<Rightarrow> None
      | Some (Inl e, s') \<Rightarrow> Some (Inl e, s')
      | Some (Inr p, s') \<Rightarrow> map_option (\<lambda>s''. (Inr (vp_version p), pin_drop p s'')) (retain_loop art p s'))"

definition version_pin_count :: "u64 \<Rightarrow> artifact_state \<Rightarrow> u32 option" where
  "version_pin_count version s = map_option (\<lambda>i. ps_pins (head_slot_at i s)) (find_slot version (as_head s))"

definition current_depth :: "artifact \<Rightarrow> artifact_state \<Rightarrow> u32 option" where
  "current_depth art s =
     (let version = ah_current (as_head s) in
      if version = NO_VERSION then None
      else case art_read_checked s (ah_manifest_desc (as_head s)) (a_name_id art) version of
        Inl _ \<Rightarrow> None | Inr m \<Rightarrow> Some (mf_depth m))"

section \<open>Reading through a pin\<close>

definition pin_chain :: "version_pin \<Rightarrow> artifact_state \<Rightarrow> artifact_error + manifest list" where
  "pin_chain p s = walk_chain_with (vp_manifest p) (read_link_checked (as_arena s) (mf_artifact_id (vp_manifest p)))"

definition data_chunks :: "version_pin \<Rightarrow> artifact_state \<Rightarrow> artifact_error + chunk_desc list" where
  "data_chunks p s = (case pin_chain p s of Inl e \<Rightarrow> Inl e | Inr members \<Rightarrow> Inr (concat (map mf_chunks members)))"

definition pin_batches :: "version_pin \<Rightarrow> artifact_state \<Rightarrow> artifact_error + chunk_desc list list" where
  "pin_batches p s = (case pin_chain p s of Inl e \<Rightarrow> Inl e | Inr members \<Rightarrow> batches_of members 0)"

definition pin_batches_since :: "version_pin \<Rightarrow> u64 \<Rightarrow> artifact_state \<Rightarrow> artifact_error + delta" where
  "pin_batches_since p since s =
     batches_since (read_link_checked (as_arena s) (mf_artifact_id (vp_manifest p))) (vp_manifest p) since"

section \<open>Committers and teardown\<close>

record committer =
  co_owner :: u32
  co_token :: u32
  co_lease :: "nat option"

definition on_lease :: "(u64 \<Rightarrow> 'r \<times> u64) \<Rightarrow> artifact_state \<Rightarrow> 'r \<times> artifact_state" where
  "on_lease f s = (case f (ah_write_lease (as_head s)) of (r, l) \<Rightarrow> (r, s\<lparr>as_head := (as_head s)\<lparr>ah_write_lease := l\<rparr>\<rparr>))"

definition open_exclusive :: "artifact \<Rightarrow> u32 \<Rightarrow> artifact_state \<Rightarrow> (artifact_error + committer) \<times> artifact_state" where
  "open_exclusive art owner s =
     (case on_lease (acquire_write_lease owner) s of
        (None, s1) \<Rightarrow> (Inl WriteLocked, s1)
      | (Some token, s1) \<Rightarrow>
          if \<not> revalidate_incarnation (a_incarnation art) (as_head s1)
          then (Inl AStale, snd (on_lease (release_write_lease owner token) s1))
          else (Inr \<lparr>co_owner = owner, co_token = token, co_lease = None\<rparr>, s1))"

definition open_exclusive_journaled :: "artifact \<Rightarrow> u32 \<Rightarrow> journal \<Rightarrow> artifact_state \<Rightarrow> (artifact_error + committer) \<times> artifact_state" where
  "open_exclusive_journaled art owner j s =
     (case on_lease (acquire_write_lease owner) s of
        (None, s1) \<Rightarrow> (Inl WriteLocked, s1)
      | (Some token, s1) \<Rightarrow>
          if \<not> revalidate_incarnation (a_incarnation art) (as_head s1)
          then (Inl AStale, snd (on_lease (release_write_lease owner token) s1))
          else (case record_write_lease j (a_name_id art) (a_incarnation art) token of
                  (Inr k, j') \<Rightarrow> (Inr \<lparr>co_owner = owner, co_token = token, co_lease = Some k\<rparr>, s1\<lparr>as_journal := Some j'\<rparr>)
                | (Inl e, j') \<Rightarrow>
                    (Inl (ACore e), snd (on_lease (release_write_lease owner token) (s1\<lparr>as_journal := Some j'\<rparr>)))))"

text \<open>Only a committer opened with a journal commits with one.\<close>

definition lease_journaled :: "committer \<Rightarrow> (artifact_state \<Rightarrow> 'r \<times> artifact_state) \<Rightarrow> artifact_state \<Rightarrow> 'r \<times> artifact_state" where
  "lease_journaled co f = (case co_lease co of None \<Rightarrow> unjournaled f | Some _ \<Rightarrow> f)"

definition committer_commit ::
  "(arena \<Rightarrow> (artifact_error + chunk_desc list) \<times> arena) \<Rightarrow> artifact \<Rightarrow> committer \<Rightarrow> commit \<Rightarrow> u32
     \<Rightarrow> artifact_state \<Rightarrow> (artifact_error + u64) \<times> artifact_state" where
  "committer_commit write_batch_chunks art co c schema s =
     lease_journaled co (commit_inner_j write_batch_chunks art (ah_current (as_head s)) (co_owner co) c schema (Some (co_token co))) s"

definition commit_windowed ::
  "(arena \<Rightarrow> (artifact_error + chunk_desc list) \<times> arena) \<Rightarrow> artifact \<Rightarrow> committer \<Rightarrow> window_policy \<Rightarrow> u32
     \<Rightarrow> artifact_state \<Rightarrow> (artifact_error + u64) \<times> artifact_state" where
  "commit_windowed write_batch_chunks art co policy schema s =
     committer_commit write_batch_chunks art co (commit_for_depth policy (current_depth art s)) schema s"

definition committer_commit_staged ::
  "artifact \<Rightarrow> committer \<Rightarrow> commit \<Rightarrow> chunk_desc list \<Rightarrow> u32 list \<Rightarrow> u32 \<Rightarrow> artifact_state \<Rightarrow> (artifact_error + u64) \<times> artifact_state" where
  "committer_commit_staged art co c staged spans schema s =
     lease_journaled co (commit_staged_inner_j art (ah_current (as_head s)) (co_owner co) c staged spans schema (Some (co_token co))) s"

definition evict_current :: "artifact \<Rightarrow> committer \<Rightarrow> artifact_state \<Rightarrow> (artifact_error + u64) \<times> artifact_state" where
  "evict_current art co s =
     (let expect = ah_current (as_head s) in
      if expect = NO_VERSION then (Inl VersionGone, s)
      else commit_staged_inner art expect (co_owner co) Replace [] [] (ah_schema_id (as_head s)) (Some (co_token co)) s)"

definition committer_drop :: "committer \<Rightarrow> artifact_state \<Rightarrow> artifact_state" where
  "committer_drop co s =
     (let release = (\<lambda>s. snd (on_lease (release_write_lease (co_owner co) (co_token co)) s)) in
      case (co_lease co, as_journal s) of
        (Some k, Some j) \<Rightarrow>
          (let (r, j') = journal_release j k; s1 = s\<lparr>as_journal := Some j'\<rparr> in if r = Inr False then s1 else release s1)
      | _ \<Rightarrow> release s)"

partial_function (option) evict_lease :: "u64 \<Rightarrow> (u32 \<times> u64) option" where
  "evict_lease l =
     (case acquire_write_lease EVICTOR_OWNER (snd (force_release_write_lease l)) of
        (Some t, l') \<Rightarrow> Some (t, l')
      | (None, l') \<Rightarrow> evict_lease l')"

text \<open>The loop over the pin table: each slot is looked at as the retirements before it left it.\<close>

definition retire_slot :: "nat \<Rightarrow> artifact_state \<Rightarrow> artifact_state" where
  "retire_slot i s =
     (let sl = head_slot_at i s in
      if ps_state sl = SLOT_LIVE \<and> ps_version sl \<noteq> NO_VERSION then try_retire_version (ps_version sl) s else s)"

definition evict_all :: "artifact \<Rightarrow> artifact_state \<Rightarrow> ((artifact_error + unit) \<times> artifact_state) option" where
  "evict_all art s =
     (if \<not> check_live art s then Some (Inl AStale, s)
      else case evict_lease (ah_write_lease (as_head s)) of
        None \<Rightarrow> None
      | Some (token, l) \<Rightarrow>
          let s1 = s\<lparr>as_head := (as_head s)\<lparr>ah_write_lease := l\<rparr>\<rparr>;
              release = (\<lambda>s. snd (on_lease (release_write_lease EVICTOR_OWNER token) s)) in
          if \<not> revalidate_incarnation (a_incarnation art) (as_head s1) then Some (Inl AStale, release s1)
          else let s2 = s1\<lparr>as_head := (as_head s1)\<lparr>ah_current := NO_VERSION, ah_manifest_desc := 0\<rparr>\<rparr>;
                   s3 = fold retire_slot [0 ..< length (ah_pins (as_head s2))] s2
               in Some (Inr (), release s3))"

section \<open>What the coordinator releases for a dead process\<close>

definition reclaim_staged_manifest :: "u64 \<Rightarrow> u32 \<Rightarrow> artifact_state \<Rightarrow> bool \<times> artifact_state" where
  "reclaim_staged_manifest bits gen s =
     (if ah_manifest_desc (as_head s) = bits then (False, s)
      else if list_ex (\<lambda>sl. ps_state sl = SLOT_LIVE \<and> ps_manifest sl = bits) (ah_pins (as_head s)) then (False, s)
      else let desc = manifest_chunk_desc bits gen in
        case pool_ctrl (ar_pool (as_arena s)) desc of
          Inl _ \<Rightarrow> (False, s)
        | Inr g \<Rightarrow>
            let c = ctrl_get (ar_pool (as_arena s)) g in
            if validate c desc = Inr () \<and> ctrl_state c = PUBLISHED
            then (True, s\<lparr>as_arena := release_manifest_ref bits (Some gen) (as_arena s)\<rparr>) else (False, s))"

definition release_leaked_pin :: "u64 \<Rightarrow> artifact_state \<Rightarrow> bool \<times> artifact_state" where
  "release_leaked_pin version s =
     (case find_slot version (as_head s) of
        None \<Rightarrow> (False, s)
      | Some i \<Rightarrow>
          (case try_unpin (head_slot_at i s) of
             (None, _) \<Rightarrow> (False, s)
           | (Some prev, sl) \<Rightarrow>
               let s1 = set_slot_at i sl s in
               (True, if prev = 1 \<and> ah_current (as_head s1) \<noteq> version then try_retire_version version s1 else s1)))"

definition release_leaked_write_lease :: "artifact_state \<Rightarrow> bool \<times> artifact_state" where
  "release_leaked_write_lease s = on_lease force_release_write_lease s"

definition write_lease_owner :: "artifact_state \<Rightarrow> u32" where
  "write_lease_owner s = lease_owner (ah_write_lease (as_head s))"

end
