(* ===== verification/Shm_Chain.thy ===== *)
theory Shm_Chain
  imports Shm_Artifact
begin

text \<open>
  The chains of manifests a segment holds and the table they stand for. A table is a list of batches, a
  batch a list of chunk descriptors. Shown: walking a well-formed chain with an early exit returns the
  part of the chain up to the exit, reading a chain gives its table, and the parts that a window commit
  keeps are the last batches of the table.
\<close>

section \<open>Walks\<close>

text \<open>The newest members of a chain up to the one where the walk stops; the root is not asked.\<close>

fun stopped :: "(manifest \<Rightarrow> 's \<Rightarrow> bool \<times> 's) \<Rightarrow> 's \<Rightarrow> manifest list \<Rightarrow> manifest list" where
  "stopped stop s [] = []"
| "stopped stop s [m] = [m]"
| "stopped stop s (m # p # ms) = (if fst (stop m s) then [m] else m # stopped stop (snd (stop m s)) (p # ms))"

lemma walk_loop_stopped:
  "chain_ok rp (cur # ms) \<Longrightarrow> hops + length ms = unat (mf_depth h) \<Longrightarrow> mf_artifact_id cur = mf_artifact_id h
    \<Longrightarrow> mf_schema_id cur = mf_schema_id h \<Longrightarrow> walk_loop h rp stop cur hops s = Inr (stopped stop s (cur # ms))"
proof (induction ms arbitrary: cur hops s)
  case Nil
  have "mf_total_batches cur = of_nat (length (mf_batch_spans cur))"
    using Nil.prems(1) by (simp add: word_unat_eq_iff unat_of_nat_u32)
  then show ?case using Nil.prems by (simp add: walk_loop.simps [of h rp stop cur])
next
  case (Cons p ms)
  obtain l where l: "mf_prev cur = Some l" "rp l = Inr p" "ml_version l = mf_version p" "ml_depth l = mf_depth p"
    "ml_total_batches l = mf_total_batches p" using Cons.prems(1) by auto
  have c: "mf_version p < mf_version cur" "unat (mf_depth cur) = unat (mf_depth p) + 1" "length (mf_batch_spans cur) < 2 ^ 32"
    "unat (mf_total_batches cur) = length (mf_batch_spans cur) + unat (mf_total_batches p)"
    "mf_artifact_id cur = mf_artifact_id p" "mf_schema_id cur = mf_schema_id p" "chain_ok rp (p # ms)"
    using Cons.prems(1) by auto
  have own: "unat (of_nat (length (mf_batch_spans cur)) :: u32) = length (mf_batch_spans cur)"
    using c(3) by (rule unat_of_nat_u32)
  have le: "of_nat (length (mf_batch_spans cur)) \<le> mf_total_batches cur" using c(4) own by (simp add: word_le_nat_alt)
  have nz: "mf_depth cur \<noteq> 0" using c(2) by auto
  have d: "mf_depth p = mf_depth cur - 1" using c(2) nz by (simp add: word_unat_eq_iff unat_pred_word)
  have t: "mf_total_batches p = mf_total_batches cur - of_nat (length (mf_batch_spans cur))"
    using c(4) own le by (simp add: word_unat_eq_iff unat_sub)
  obtain b s' where st: "stop cur s = (b, s')" by fastforce
  have "walk_loop h rp stop p (hops + 1) s' = Inr (stopped stop s' (p # ms))"
    using Cons.prems c by (intro Cons.IH) auto
  then show ?case using l c(1,3) le nz d t st Cons.prems
    by (cases b) (simp_all add: walk_loop.simps [of h rp stop cur] Let_def not_le not_less)
qed

lemma walk_newest_first:
  "chain_ok rp (m # c) \<Longrightarrow> walk_chain_newest_first m rp stop s = Inr (stopped stop s (m # c))"
  using chain_ok_depth [of rp m c] by (simp add: walk_chain_newest_first_def walk_loop_stopped)

lemma stopped_no_stop: "stopped (\<lambda>_ u. (False, u)) s ms = ms"
proof (induction ms)
  case (Cons m ms)
  then show ?case by (cases ms) simp_all
qed simp

lemma walk_whole: "chain_ok rp (m # c) \<Longrightarrow> walk_chain_with m rp = Inr (rev (m # c))"
  by (simp add: walk_chain_with_def walk_newest_first stopped_no_stop)

section \<open>Batches\<close>

text \<open>A list cut into groups of given sizes; a batch has at least one chunk.\<close>

fun groups :: "nat list \<Rightarrow> 'a list \<Rightarrow> 'a list list" where
  "groups [] xs = []"
| "groups (n # ns) xs = take n xs # groups ns (drop n xs)"

lemma length_groups [simp]: "length (groups ns xs) = length ns"
  by (induction ns arbitrary: xs) auto

lemma concat_groups: "sum_list ns = length xs \<Longrightarrow> concat (groups ns xs) = xs"
  by (induction ns arbitrary: xs) auto

lemma groups_append: "sum_list ns = length xs \<Longrightarrow> groups (ns @ ks) (xs @ ys) = groups ns xs @ groups ks ys"
  by (induction ns arbitrary: xs) auto

lemma drop_groups: "drop k (groups ns xs) = groups (drop k ns) (drop (sum_list (take k ns)) xs)"
proof (induction ns arbitrary: k xs)
  case (Cons n ns)
  then show ?case by (cases k) (simp_all add: add.commute)
qed simp

definition spans_of :: "manifest \<Rightarrow> nat list" where
  "spans_of m = map unat (mf_batch_spans m)"

definition batches :: "manifest \<Rightarrow> chunk_desc list list" where
  "batches m = groups (spans_of m) (mf_chunks m)"

definition spans_ok :: "manifest \<Rightarrow> bool" where
  "spans_ok m \<longleftrightarrow> sum_list (spans_of m) = length (mf_chunks m) \<and> 0 \<notin> set (spans_of m)"

text \<open>The table of a chain, which is newest first.\<close>

definition chain_table :: "manifest list \<Rightarrow> chunk_desc list list" where
  "chain_table c = concat (map batches (rev c))"

lemma chain_table_simps [simp]: "chain_table [] = []" "chain_table (m # c) = chain_table c @ batches m"
  by (simp_all add: chain_table_def)

lemma group_chunks_eq:
  "i + sum_list (map unat spans) \<le> length chunks \<Longrightarrow> skip \<le> length spans \<Longrightarrow>
     group_chunks chunks skip spans i = Inr (drop skip (groups (map unat spans) (drop i chunks)))"
proof (induction chunks skip spans i rule: group_chunks.induct)
  case (2 chunks skip span spans i)
  then show ?case by (cases skip) (simp_all add: add.commute add.left_commute)
qed simp

lemma batches_of_eq:
  "\<forall>m \<in> set ms. spans_ok m \<Longrightarrow> (case ms of [] \<Rightarrow> True | m # _ \<Rightarrow> skip \<le> length (mf_batch_spans m)) \<Longrightarrow>
     batches_of ms skip = Inr (drop skip (concat (map batches ms)))"
proof (induction ms arbitrary: skip)
  case (Cons m ms)
  have m: "group_chunks (mf_chunks m) skip (mf_batch_spans m) 0 = Inr (drop skip (batches m))"
    using Cons.prems group_chunks_eq [of 0 "mf_batch_spans m" "mf_chunks m" skip]
    by (simp add: spans_ok_def spans_of_def batches_def)
  have "batches_of ms 0 = Inr (concat (map batches ms))"
    using Cons.IH [of 0] Cons.prems(1) by (simp split: list.splits)
  moreover have "length (batches m) = length (mf_batch_spans m)" by (simp add: batches_def spans_of_def)
  ultimately show ?case using m Cons.prems(2) by simp
qed simp

section \<open>What a window keeps\<close>

lemma length_tail [simp]: "length (tail n xs) = min n (length xs)"
  by (auto simp: tail_def)

lemma tail_append: "tail n (xs @ ys) = tail (n - length ys) xs @ tail n ys"
proof (cases "n \<le> length ys")
  case True
  then show ?thesis by (simp add: tail_def)
next
  case False
  then have "drop (length xs + length ys - n) (xs @ ys) = drop (length xs - (n - length ys)) xs @ ys"
    by (auto simp: drop_append diff_diff_eq2 [symmetric])
  then show ?thesis using False by (simp only: tail_def length_append) simp
qed

lemma tail_groups:
  assumes "sum_list ns = length xs" "t \<le> length ns"
  shows "tail t (groups ns xs) = groups (tail t ns) (tail (sum_list (tail t ns)) xs)"
proof -
  have "sum_list (take (length ns - t) ns) + sum_list (tail t ns) = length xs"
    using assms(1) sum_list_append [of "take (length ns - t) ns" "drop (length ns - t) ns"] by (simp add: tail_def)
  then have "sum_list (take (length ns - t) ns) = length xs - sum_list (tail t ns)" by simp
  then show ?thesis by (simp add: tail_def drop_groups)
qed

lemma part_batches:
  assumes "spans_ok m" "t \<le> length (mf_batch_spans m)"
  shows "groups (map unat (tail_spans (m, t))) (tail_chunks (m, t)) = tail t (batches m)"
    and "chunk_take (m, t) \<le> length (mf_chunks m)" and "sum_list (map unat (tail_spans (m, t))) = length (tail_chunks (m, t))"
proof -
  have m: "map unat (tail_spans (m, t)) = tail t (spans_of m)" by (simp add: tail_spans_def spans_of_def tail_def drop_map)
  then have c: "chunk_take (m, t) = sum_list (tail t (spans_of m))" by (simp add: chunk_take_def)
  have "sum_list (take (length (spans_of m) - t) (spans_of m)) + sum_list (tail t (spans_of m)) = length (mf_chunks m)"
    using assms(1) sum_list_append [of "take (length (spans_of m) - t) (spans_of m)" "drop (length (spans_of m) - t) (spans_of m)"]
    by (simp add: tail_def spans_ok_def)
  then show le: "chunk_take (m, t) \<le> length (mf_chunks m)" using c by simp
  show "groups (map unat (tail_spans (m, t))) (tail_chunks (m, t)) = tail t (batches m)"
    using tail_groups [of "spans_of m" "mf_chunks m" t] assms by (simp add: m c tail_chunks_def batches_def spans_ok_def spans_of_def)
  show "sum_list (map unat (tail_spans (m, t))) = length (tail_chunks (m, t))" using le by (simp add: tail_chunks_def chunk_take_def)
qed

text \<open>The parts of a chain cover the last \<open>k\<close> batches, and stopping early loses none.\<close>

lemma window_parts_ok: "(m, t) \<in> set (window_parts k ms) \<Longrightarrow> m \<in> set ms \<and> t \<le> length (mf_batch_spans m)"
  by (induction k ms rule: window_parts.induct) (auto simp: Let_def split: if_splits)

lemma window_parts_stopped:
  "ms \<noteq> [] \<Longrightarrow> window_parts k (stopped window_stop k ms) = window_parts k ms"
proof (induction window_stop k ms rule: stopped.induct)
  case (3 s m p ms)
  have *: "s - min s (length (mf_batch_spans m)) = s - length (mf_batch_spans m)" by simp
  show ?case
    using 3 by (cases "s = 0"; cases "s \<le> length (mf_batch_spans m)") (auto simp: window_stop_def Let_def *)
qed simp_all

lemma window_parts_table:
  "concat (map (\<lambda>(m, t). tail t (batches m)) (rev (window_parts k ms))) = tail k (chain_table ms)"
proof (induction k ms rule: window_parts.induct)
  case (2 k m ms)
  show ?case
  proof (cases "k = 0")
    case False
    have "k - min k (length (mf_batch_spans m)) = k - length (batches m)" by (simp add: batches_def spans_of_def)
    then show ?thesis using 2 [OF False refl] False
      by (simp add: Let_def tail_append) (simp add: tail_def batches_def spans_of_def min_def)
  qed (simp add: tail_def)
qed (simp add: tail_def)
section \<open>The chains in a segment\<close>

definition resolve_in :: "(u32 \<rightharpoonup> manifest) \<Rightarrow> manifest_link \<Rightarrow> artifact_error + manifest" where
  "resolve_in ms l = (case ms (link_off l) of None \<Rightarrow> Inl VersionGone | Some m \<Rightarrow> Inr m)"

text \<open>Every manifest of the artifact is the newest of a chain, whose members list different chunks.\<close>

definition chain_from :: "(u32 \<rightharpoonup> manifest) \<Rightarrow> manifest \<Rightarrow> manifest list \<Rightarrow> bool" where
  "chain_from ms m c \<longleftrightarrow> chain_ok (resolve_in ms) (m # c) \<and> distinct (map offset (concat (map mf_chunks (m # c))))"

definition chains :: "u32 \<Rightarrow> (u32 \<rightharpoonup> manifest) \<Rightarrow> bool" where
  "chains art ms \<longleftrightarrow> (\<forall>off m. ms off = Some m \<longrightarrow> mf_artifact_id m = art \<and> spans_ok m \<and> (\<exists>c. chain_from ms m c))"

lemma chainsD:
  assumes "chains art ms" "ms off = Some m"
  obtains c where "mf_artifact_id m = art" "spans_ok m" "chain_from ms m c"
  using assms unfolding chains_def by blast

lemma chain_ok_det: "chain_ok rp (m # c) \<Longrightarrow> chain_ok rp (m # c') \<Longrightarrow> c' = c"
proof (induction c arbitrary: m c')
  case Nil
  then show ?case by (cases c') auto
next
  case (Cons p c)
  then show ?case by (cases c') auto
qed

lemma chain_ok_cong:
  "chain_ok rp c \<Longrightarrow> (\<And>m l p. m \<in> set c \<Longrightarrow> mf_prev m = Some l \<Longrightarrow> p \<in> set c \<Longrightarrow> ml_version l = mf_version p \<Longrightarrow> rp l = Inr p \<Longrightarrow> rp' l = Inr p)
     \<Longrightarrow> chain_ok rp' c"
proof (induction rp c rule: chain_ok.induct)
  case (3 rp m p ms)
  have "chain_ok rp (p # ms)" using "3.prems"(1) by simp
  then have "chain_ok rp' (p # ms)" by (rule "3.IH") (rule "3.prems"(2), simp_all)
  then show ?case using "3.prems" by auto
qed auto

lemma chain_members: "chain_ok (resolve_in ms) (m # c) \<Longrightarrow> set c \<subseteq> ran ms"
proof (induction c arbitrary: m)
  case (Cons p c)
  then have "set c \<subseteq> ran ms" by auto
  moreover have "p \<in> ran ms" using Cons.prems by (auto simp: resolve_in_def ran_def split: option.splits)
  ultimately show ?case by simp
qed simp

lemma chain_spans: "chains art ms \<Longrightarrow> ms off = Some m \<Longrightarrow> chain_ok (resolve_in ms) (m # c) \<Longrightarrow> \<forall>x \<in> set (m # c). spans_ok x \<and> mf_artifact_id x = art"
  using chain_members [of ms m c] by (fastforce simp: chains_def ran_def)

text \<open>Fewer manifests, or one more.\<close>

lemma chain_from_sub:
  assumes "chain_from ms m c" "m \<in> ran ms'" "ms' \<subseteq>\<^sub>m ms"
    and closed: "\<And>off x l. ms' off = Some x \<Longrightarrow> mf_prev x = Some l \<Longrightarrow> link_off l \<in> dom ms'"
  shows "chain_from ms' m c"
proof -
  have "chain_ok (resolve_in ms') (m # c)"
    using assms(1,2) unfolding chain_from_def
  proof (induction c arbitrary: m)
    case (Cons p c)
    obtain l where l: "mf_prev m = Some l" "resolve_in ms l = Inr p" using Cons.prems by auto
    then have "link_off l \<in> dom ms'" using closed Cons.prems(2) by (auto simp: ran_def)
    then have r: "ms' (link_off l) = Some p"
      using l(2) assms(3) by (auto simp: resolve_in_def map_le_def split: option.splits)
    then have "chain_ok (resolve_in ms') (p # c)" using Cons by (auto simp: ran_def)
    moreover have "resolve_in ms' l = Inr p" using r by (simp add: resolve_in_def)
    ultimately show ?case using Cons.prems(1) l by auto
  qed auto
  then show ?thesis using assms(1) by (simp add: chain_from_def)
qed

lemma chains_sub:
  assumes "chains art ms" "ms' \<subseteq>\<^sub>m ms" "\<And>off x l. ms' off = Some x \<Longrightarrow> mf_prev x = Some l \<Longrightarrow> link_off l \<in> dom ms'"
  shows "chains art ms'"
  unfolding chains_def
proof (intro allI impI)
  fix off m
  assume m: "ms' off = Some m"
  then have "ms off = Some m" using assms(2) by (metis domI map_le_def)
  then obtain c where "mf_artifact_id m = art" "spans_ok m" "chain_from ms m c" by (rule chainsD [OF assms(1)])
  then show "mf_artifact_id m = art \<and> spans_ok m \<and> (\<exists>c. chain_from ms' m c)"
    using chain_from_sub [OF _ _ assms(2)] assms(3) m by (auto intro: ranI)
qed

lemma chain_from_more:
  assumes "chain_from ms m c" "ms \<subseteq>\<^sub>m ms'"
  shows "chain_from ms' m c"
proof -
  have "resolve_in ms' l = Inr p" if "resolve_in ms l = Inr p" for l p
    using that assms(2) by (auto simp: resolve_in_def map_le_def split: option.splits) (metis domI option.distinct(1), metis domI option.inject)
  then have "chain_ok (resolve_in ms') (m # c)"
    using assms(1) unfolding chain_from_def by (blast intro: chain_ok_cong)
  then show ?thesis using assms(1) by (simp add: chain_from_def)
qed

lemma chains_insert:
  assumes "chains art ms" "ms off = None" "mf_artifact_id m = art" "spans_ok m" "chain_from (ms(off \<mapsto> m)) m c"
  shows "chains art (ms(off \<mapsto> m))"
proof -
  have "ms \<subseteq>\<^sub>m ms(off \<mapsto> m)" using assms(2) by (auto simp: map_le_def)
  then show ?thesis using assms chain_from_more [of ms _ _ "ms(off \<mapsto> m)"] by (fastforce simp: chains_def)
qed
section \<open>Reading the segment\<close>

lemma arena_checked: "read_manifest_checked (pl_segment (ar_pool a)) (ar_bytes a) mref art v =
    (case manifest_at a (ref_offset mref) of Inl e \<Rightarrow> Inl e
     | Inr m \<Rightarrow> if mf_artifact_id m \<noteq> art \<or> mf_version m \<noteq> v then Inl StaleManifest else Inr m)"
  unfolding read_manifest_checked_def arena_read_at [symmetric] arena_read_def by simp

lemma art_read_in:
  assumes "manifests (as_arena s) ms" "ms (ref_offset mref) = Some m"
  shows "art_read_checked s mref art v = (if mf_artifact_id m = art \<and> mf_version m = v then Inr m else Inl StaleManifest)"
  using manifestsD(1) [OF assms] by (auto simp: art_read_checked_def arena_checked)

lemma art_read_zero: "art_read_checked s 0 art v = Inl (ACore OutOfBounds)"
  by (simp add: art_read_checked_def read_manifest_checked_def read_manifest_def segment_resolve_def ref_offset_def
      HEADER_SIZE_def Let_def)

lemma read_link_in:
  assumes man: "manifests a ms" and m: "ms off = Some m" "mf_prev m = Some l"
    and p: "ms (link_off l) = Some p" "mf_version p = ml_version l" "mf_artifact_id p = art"
  shows "read_link_checked a art l = Inr p"
proof -
  let ?d = "manifest_chunk_desc (ml_mref l) 0"
  have o: "offset ?d = link_off l" by (simp add: manifest_chunk_desc_def link_off_def)
  have "pool_ctrl (ar_pool a) ?d = Inr (idx (ar_pool a) (link_off l))"
    using pool_ctrl_place [of ?d] manifestsD(3) [OF man p(1)] o by simp
  moreover have "ctrl_generation (ctrl_get (ar_pool a) (idx (ar_pool a) (link_off l))) = ml_generation l"
    using manifestsD(6) [OF man m] by (simp add: chunk_at_def)
  moreover have "manifest_at a (ref_offset (ml_mref l)) = Inr p" using manifestsD(1) [OF man p(1)] by (simp add: link_off_def)
  ultimately show ?thesis using p(2,3) by (simp add: read_link_checked_def arena_checked)
qed

lemma chain_readable:
  assumes man: "manifests a ms" and ch: "chains art ms" and c: "chain_ok (resolve_in ms) (m # c)" "m \<in> ran ms"
  shows "chain_ok (read_link_checked a art) (m # c)"
proof (rule chain_ok_cong [OF c(1)])
  fix x l p
  assume x: "x \<in> set (m # c)" "mf_prev x = Some l" "p \<in> set (m # c)" "ml_version l = mf_version p" "resolve_in ms l = Inr p"
  obtain off where "ms off = Some x" using x(1) chain_members [OF c(1)] c(2) by (auto simp: ran_def)
  moreover have p: "ms (link_off l) = Some p" using x(5) by (simp add: resolve_in_def split: option.splits)
  moreover have "mf_artifact_id p = art" by (rule chainsD [OF ch p])
  ultimately show "read_link_checked a art l = Inr p" using read_link_in [OF man] x(2,4) by simp
qed

lemma chain_reads_table:
  assumes man: "manifests a ms" and ch: "chains art ms" and m: "ms off = Some m" and c: "chain_from ms m c"
  shows "walk_chain_with m (read_link_checked a art) = Inr (rev (m # c))" "batches_of (rev (m # c)) 0 = Inr (chain_table (m # c))"
proof -
  have ok: "chain_ok (resolve_in ms) (m # c)" using c by (simp add: chain_from_def)
  then show "walk_chain_with m (read_link_checked a art) = Inr (rev (m # c))"
    using chain_readable [OF man ch ok] m by (intro walk_whole) (auto intro: ranI)
  have "\<forall>x \<in> set (rev (m # c)). spans_ok x" using chain_spans [OF ch m ok] by simp
  then have "batches_of (rev (m # c)) 0 = Inr (drop 0 (concat (map batches (rev (m # c)))))"
    by (intro batches_of_eq) (auto split: list.split)
  then show "batches_of (rev (m # c)) 0 = Inr (chain_table (m # c))" by (simp add: chain_table_def)
qed

section \<open>How often a chunk is referred to\<close>

lemma medges_once:
  assumes man: "manifests a ms" and ch: "chains art ms" and m: "ms off = Some m"
  shows "count (medges m) x \<le> 1"
proof -
  obtain c where "chain_from ms m c" by (rule chainsD [OF ch m])
  then have "distinct (map offset (mf_chunks m))" by (simp add: chain_from_def)
  then have le: "count (mset (map offset (mf_chunks m))) x \<le> 1" by (metis distinct_count_atmost_1 le_numeral_extra(4) zero_le_one)
  show ?thesis
  proof (cases "mf_prev m")
    case (Some l)
    have "link_off l \<in> dom ms" using manifestsD(7) [OF man m Some] .
    then have "link_off l \<notin># mset (map offset (mf_chunks m))" by (auto dest!: manifestsD(5) [OF man m])
    then have "count (mset (map offset (mf_chunks m))) (link_off l) = 0" by (simp only: count_eq_zero_iff not_False_eq_True)
    then show ?thesis using le Some by (auto simp: medges_def)
  qed (use le in \<open>simp add: medges_def\<close>)
qed

lemma refs_bound:
  assumes man: "manifests a ms" and ch: "chains art ms"
  shows "count (refs_of ms) x \<le> card (dom ms)"
proof -
  have "count (refs_of ms) x = (\<Sum>off \<in> dom ms. count (medges (the (ms off))) x)"
    by (simp add: refs_of_def count_sum)
  also have "\<dots> \<le> (\<Sum>off \<in> dom ms. 1)" using medges_once [OF man ch] by (intro sum_mono) auto
  finally show ?thesis by simp
qed

lemma places_bound:
  assumes "geometry_ok (classes p) (length (ctrls p))"
  shows "finite (places p)" "card (places p) \<le> length (ctrls p)"
proof -
  have inj: "inj_on (idx p) (places p)" using places_apart(2) [OF assms] by (meson inj_onI)
  have sub: "idx p ` places p \<subseteq> {..<length (ctrls p)}" using idx_less [OF assms] by auto
  show "finite (places p)" using finite_imageD [OF finite_subset [OF sub] inj] by simp
  show "card (places p) \<le> length (ctrls p)" using card_mono [OF _ sub] card_image [OF inj] by simp
qed

lemma manifests_bound:
  assumes "manifests a ms" "ledger a A L R"
  shows "card (dom ms) \<le> length (ctrls (ar_pool a))"
proof -
  have "dom ms \<subseteq> places (ar_pool a)" using manifestsD(3) [OF assms(1)] by auto
  then show ?thesis using places_bound [OF ledger_geometry [OF assms(2)]] card_mono le_trans by blast
qed


end
