(* ===== verification/Shm_Commit.thy ===== *)
theory Shm_Commit
  imports Shm_Chain
begin

text \<open>
  The steps of a commit on the data segment: publishing, linking, keeping a window, staging the manifest,
  and rolling back. Shown: each moves exactly the references it says it does, and a rollback undoes what
  the steps before it did.
\<close>

section \<open>Moving references\<close>

lemma held_frame:
  assumes inv: "held_by a A L B ms" and k: "keeps {} a b" and led: "ledger b A' L' (B' + refs_of ms)"
    and dom: "dom ms \<subseteq> set_mset (B' + refs_of ms)"
  shows "held_by b A' L' B' ms"
proof -
  have "manifests b ms"
    by (rule manifests_kept [OF _ _ k]) (use inv in \<open>auto simp: held_by_def map_le_def dest: manifestsD(7)\<close>)
  then show ?thesis using led dom by (simp add: held_by_def)
qed

lemma held_byD:
  assumes "held_by a A L B ms"
  shows "ledger a A L (B + refs_of ms)" "manifests a ms" "dom ms \<subseteq> set_mset (B + refs_of ms)" "finite (dom ms)"
  using assms by (auto simp: held_by_def manifests_def)

lemma held_release_all:
  assumes inv: "held_by a A L (mset (map offset ds) + B) ms" and gen: "\<forall>d \<in> set ds. generation d = gen_at a (offset d)"
    and away: "offset ` set ds \<inter> dom ms = {}"
  shows "held_by (release_all ds a) A L B ms" "keeps (spare L (B + refs_of ms)) a (release_all ds a)"
proof -
  note h = held_byD [OF inv]
  have "ledger a A L (mset (map offset ds) + (B + refs_of ms))" using h(1) by (simp add: ac_simps)
  then have l: "ledger (release_all ds a) A L (B + refs_of ms)" and k: "keeps (spare L (B + refs_of ms)) a (release_all ds a)"
    using release_all_spec gen by blast+
  have dom: "dom ms \<subseteq> set_mset (B + refs_of ms)" using h(3) away by auto
  have "manifests (release_all ds a) ms"
    by (rule manifests_kept [OF h(2,1) k]) (use dom manifestsD(7) [OF h(2)] in \<open>auto simp: map_le_def\<close>)
  then show "held_by (release_all ds a) A L B ms" using l dom by (simp add: held_by_def)
  show "keeps (spare L (B + refs_of ms)) a (release_all ds a)" by (rule k)
qed

lemma held_borrow:
  assumes inv: "held_by a A L B ms" and off: "off \<in># B + refs_of ms" and room: "count (B + refs_of ms) off < 2 ^ 32 - 1"
  obtains b where "on_ctrl (idx (ar_pool a) off) borrow_shared a = (Inr (), b)" "held_by b A L (add_mset off B) ms" "keeps {} a b"
proof -
  note h = held_byD [OF inv]
  let ?c = "snd (borrow_shared (chunk_at a off))"
  have b: "borrow_shared (chunk_at a off) = (Inr (), ?c)" "ledger (set_chunk off ?c a) A L (add_mset off (B + refs_of ms))"
    "keeps {} a (set_chunk off ?c a)"
    using ledger_borrow [OF h(1) off room] by blast+
  have "fst (borrow_shared (chunk_at a off)) = Inr ()" using b(1) by (metis fst_conv)
  then have e: "on_ctrl (idx (ar_pool a) off) borrow_shared a = (Inr (), set_chunk off ?c a)" by (simp add: on_ctrl_place)
  have "held_by (set_chunk off ?c a) A L (add_mset off B) ms" by (rule held_frame [OF inv b(3)]) (use b(2) h(3) in auto)
  then show thesis using that e b(3) by blast
qed

lemma publish_loop_spec:
  assumes "held_by a A L B ms" "\<forall>d \<in> set ds. L (offset d) \<noteq> None" "distinct (map offset ds)"
  shows "\<exists>b. publish_loop pub ds a = (Inr (), b) \<and> held_by b A (L |` (- (offset ` set ds))) (mset (map offset ds) + B) ms \<and> keeps {} a b"
  using assms
proof (induction ds arbitrary: pub a L B)
  case (Cons d ds)
  note h = held_byD [OF Cons.prems(1)]
  obtain ow where ow: "L (offset d) = Some ow" using Cons.prems(2) by auto
  obtain b where b: "publish_staged d a = (Inr (), b)" "ledger b A (L(offset d := None)) (add_mset (offset d) (B + refs_of ms))" "keeps {} a b"
    by (rule publish_staged_spec [OF h(1), where d = d, OF ow])
  have hb: "held_by b A (L(offset d := None)) (add_mset (offset d) B) ms" by (rule held_frame [OF Cons.prems(1) b(3)]) (use b(2) h(3) in auto)
  have "offset e \<noteq> offset d" if "e \<in> set ds" for e using Cons.prems(3) imageI [OF that, of offset] by auto
  then have "\<forall>e \<in> set ds. (L(offset d := None)) (offset e) \<noteq> None" using Cons.prems(2) by simp
  then obtain b' where b': "publish_loop (pub @ [d]) ds b = (Inr (), b')"
    "held_by b' A ((L(offset d := None)) |` (- (offset ` set ds))) (mset (map offset ds) + add_mset (offset d) B) ms" "keeps {} b b'"
    using Cons.IH [OF hb, of "pub @ [d]"] Cons.prems(3) by (metis distinct.simps(2) list.simps(9))
  have "(L(offset d := None)) |` (- (offset ` set ds)) = L |` (- (offset ` set (d # ds)))"
    by (auto simp: restrict_map_def fun_eq_iff)
  then show ?case using b b' keeps_trans [OF b(3) b'(3)] by simp
qed (simp add: restrict_map_def)

lemma free_loaned_all:
  assumes "held_by a A L B ms" "\<forall>d \<in> set ds. L (offset d) \<noteq> None" "distinct (map offset ds)"
  shows "held_by (fold free_loaned ds a) A (L |` (- (offset ` set ds))) B ms \<and> keeps (offset ` set ds) a (fold free_loaned ds a)"
  using assms
proof (induction ds arbitrary: a L)
  case (Cons d ds)
  note h = held_byD [OF Cons.prems(1)]
  obtain ow where ow: "L (offset d) = Some ow" using Cons.prems(2) by auto
  note f = free_loaned_spec [OF h(1), where d = d, OF ow]
  have nr: "offset d \<notin># B + refs_of ms" using ledger_disjoint(5) [OF h(1) ow] .
  then have "dom ms \<inter> {offset d} = {}" using h(3) by auto
  then have "manifests (free_loaned d a) ms"
    by (intro manifests_kept [OF h(2,1) f(2)]) (use nr manifestsD(7) [OF h(2)] in \<open>auto simp: map_le_def\<close>)
  then have hb: "held_by (free_loaned d a) A (L(offset d := None)) B ms" using f(1) h(3) by (simp add: held_by_def)
  have eq: "(L(offset d := None)) |` (- (offset ` set ds)) = L |` (- (offset ` set (d # ds)))"
    by (auto simp: restrict_map_def fun_eq_iff)
  have "offset e \<noteq> offset d" if "e \<in> set ds" for e using Cons.prems(3) imageI [OF that, of offset] by auto
  then have "\<forall>e \<in> set ds. (L(offset d := None)) (offset e) \<noteq> None" using Cons.prems(2) by simp
  then show ?case
    using Cons.IH [OF hb] Cons.prems(3) keeps_trans [OF f(2), of "offset ` set ds"] unfolding eq by simp
qed (simp add: restrict_map_def)
section \<open>Keeping a window\<close>

lemma keeps_chunk_at: "keeps S a b \<Longrightarrow> ctrl_get (ar_pool b) (idx (ar_pool a) off) = chunk_at b off"
  using same_shape_locate(3) [OF keeps_shape] by (simp add: chunk_at_def)

lemma hold_chunks_spec:
  assumes "held_by a A L B ms" "\<forall>d \<in> set ds. offset d \<in># B + refs_of ms \<and> generation d = gen_at a (offset d)"
    "\<forall>x. count (B + refs_of ms) x + length ds < 2 ^ 32"
  shows "\<exists>b. hold_chunks taken ds a = (Inr (taken @ ds), b) \<and> held_by b A L (mset (map offset ds) + B) ms \<and> keeps {} a b"
  using assms
proof (induction ds arbitrary: taken a B)
  case (Cons d ds)
  note h = held_byD [OF Cons.prems(1)]
  have d: "offset d \<in># B + refs_of ms" "generation d = gen_at a (offset d)" using Cons.prems(2) by simp_all
  have "count (B + refs_of ms) (offset d) < 2 ^ 32 - 1" using Cons.prems(3) by (metis add_Suc_right length_Cons less_diff_conv add_lessD1 Suc_eq_plus1 add.assoc add.commute)
  then obtain b where b: "on_ctrl (idx (ar_pool a) (offset d)) borrow_shared a = (Inr (), b)"
    "held_by b A L (add_mset (offset d) B) ms" "keeps {} a b"
    by (rule held_borrow [OF Cons.prems(1) d(1)])
  have pl: "offset d \<in> places (ar_pool a)" using ledger_refs [OF h(1) d(1)] .
  have g: "gen_at b x = gen_at a x" if "x \<in> places (ar_pool a)" for x using keeps_gen [OF b(3) that] by simp
  have one: "hold_chunks taken (d # ds) a = hold_chunks (taken @ [d]) ds b"
    using pool_ctrl_place [OF pl] b(1) d(2) g [OF pl] keeps_chunk_at [OF b(3), of "offset d"]
    by (simp add: validate_def chunk_at_def)
  have "generation e = gen_at b (offset e)" if "e \<in> set ds" for e
    using g [OF ledger_refs [OF h(1)]] Cons.prems(2) that by simp
  moreover have "count (add_mset (offset d) B + refs_of ms) x + length ds < 2 ^ 32" for x
    using Cons.prems(3) [rule_format, of x] by simp
  ultimately have "\<exists>b'. hold_chunks (taken @ [d]) ds b = (Inr ((taken @ [d]) @ ds), b')
      \<and> held_by b' A L (mset (map offset ds) + add_mset (offset d) B) ms \<and> keeps {} b b'"
    using Cons.prems(2) by (intro Cons.IH [OF b(2)]) auto
  then show ?case using one keeps_trans [OF b(3), of "{}"] by auto
qed (simp add: keeps_def)

lemma hold_parts_spec:
  assumes "held_by a A L B ms" "\<forall>(m, t) \<in> set ps. spans_ok m \<and> t \<le> length (mf_batch_spans m)"
    and "\<forall>d \<in> set (concat (map tail_chunks ps)). offset d \<in># B + refs_of ms \<and> generation d = gen_at a (offset d)"
    and "\<forall>x. count (B + refs_of ms) x + length (concat (map tail_chunks ps)) < 2 ^ 32"
  shows "\<exists>b. hold_parts taken ps a = (Inr (taken @ concat (map tail_chunks ps)), b)
     \<and> held_by b A L (mset (map offset (concat (map tail_chunks ps))) + B) ms \<and> keeps {} a b"
  using assms
proof (induction ps arbitrary: taken a B)
  case (Cons p ps)
  obtain m t where p: "p = (m, t)" "spans_ok m" "t \<le> length (mf_batch_spans m)" using Cons.prems(2) by (cases p) auto
  have le: "chunk_take p \<le> length (mf_chunks m)" using part_batches(2) [OF p(2,3)] p(1) by simp
  let ?ds = "tail_chunks p" and ?es = "concat (map tail_chunks ps)"
  have "count (B + refs_of ms) x + length ?ds < 2 ^ 32" for x using Cons.prems(4) [rule_format, of x] by simp
  then obtain b where b: "hold_chunks taken ?ds a = (Inr (taken @ ?ds), b)" "held_by b A L (mset (map offset ?ds) + B) ms" "keeps {} a b"
    using hold_chunks_spec [OF Cons.prems(1), of ?ds taken] Cons.prems(3) by auto
  have one: "hold_parts taken (p # ps) a = hold_parts (taken @ ?ds) ps b" using b(1) le p(1) by simp
  have "count (mset (map offset ?ds)) x \<le> length ?ds" for x by (metis count_le_size length_map size_mset)
  then have room: "count (mset (map offset ?ds) + B + refs_of ms) x + length ?es < 2 ^ 32" for x
    using Cons.prems(4) [rule_format, of x] by (simp add: le_less_trans [rotated] add_le_mono)
  have "generation e = gen_at b (offset e)" if "e \<in> set ?es" for e
  proof -
    have e: "offset e \<in># B + refs_of ms" "generation e = gen_at a (offset e)" using Cons.prems(3) that by auto
    show ?thesis using e(2) keeps_gen [OF b(3)] ledger_refs [OF held_byD(1) [OF Cons.prems(1)] e(1)] by simp
  qed
  then have "\<exists>b'. hold_parts (taken @ ?ds) ps b = (Inr ((taken @ ?ds) @ ?es), b')
      \<and> held_by b' A L (mset (map offset ?es) + (mset (map offset ?ds) + B)) ms \<and> keeps {} b b'"
    using Cons.prems(2,3) room by (intro Cons.IH [OF b(2)]) auto
  then show ?case using one keeps_trans [OF b(3), of "{}"] by (auto simp: ac_simps)
qed (simp add: keeps_def)
lemma set_tail: "set (tail n xs) \<subseteq> set xs"
  by (simp add: tail_def set_drop_subset)

lemma window_chunks_distinct:
  "distinct (map offset (concat (map mf_chunks ms))) \<Longrightarrow>
     distinct (map offset (concat (map tail_chunks (window_parts k ms))))
     \<and> set (concat (map tail_chunks (window_parts k ms))) \<subseteq> set (concat (map mf_chunks ms))"
proof (induction k ms rule: window_parts.induct)
  case (2 k m ms)
  show ?case
  proof (cases "k = 0")
    case False
    let ?t = "min k (length (mf_batch_spans m))"
    have d: "distinct (map offset (mf_chunks m))" "distinct (map offset (concat (map mf_chunks ms)))"
      "offset ` set (mf_chunks m) \<inter> offset ` set (concat (map mf_chunks ms)) = {}" using 2(2) by auto
    have "distinct (map offset (tail_chunks (m, ?t)))" using d(1) by (simp add: tail_chunks_def tail_def drop_map [symmetric])
    moreover have s: "set (tail_chunks (m, ?t)) \<subseteq> set (mf_chunks m)" by (simp add: tail_chunks_def set_tail)
    moreover note IH = 2(1) [OF False refl d(2)]
    have "offset ` set (tail_chunks (m, ?t)) \<inter> offset ` set (concat (map tail_chunks (window_parts (k - ?t) ms))) = {}"
      using d(3) image_mono [OF s, of offset] image_mono [of _ _ offset, OF conjunct2 [OF IH]] by blast
    moreover note IH
    ultimately show ?thesis using False by (auto simp: Let_def)
  qed simp
qed simp

lemma distinct_concat_rev: "distinct (map f (concat (rev xss))) \<longleftrightarrow> distinct (map f (concat xss))"
proof (rule mset_eq_imp_distinct_iff)
  show "mset (map f (concat (rev xss))) = mset (map f (concat xss))" by (induction xss) simp_all
qed

lemma parts_groups:
  "\<forall>(m, t) \<in> set ps. spans_ok m \<and> t \<le> length (mf_batch_spans m) \<Longrightarrow>
     groups (map unat (concat (map tail_spans ps))) (concat (map tail_chunks ps)) = concat (map (\<lambda>(m, t). tail t (batches m)) ps)
     \<and> sum_list (map unat (concat (map tail_spans ps))) = length (concat (map tail_chunks ps))
     \<and> 0 \<notin> set (map unat (concat (map tail_spans ps)))"
proof (induction ps)
  case (Cons p ps)
  obtain m t where p: "p = (m, t)" "spans_ok m" "t \<le> length (mf_batch_spans m)" using Cons.prems by (cases p) auto
  have "0 \<notin> set (map unat (tail_spans p))"
    using p(1,2) set_tail [of t "mf_batch_spans m"] by (auto simp: spans_ok_def spans_of_def tail_spans_def)
  then show ?case using Cons part_batches(1,3) [OF p(2,3)] p(1)
      groups_append [of "map unat (tail_spans p)" "tail_chunks p"] by (simp del: map_concat)
qed simp

lemma collect_window_spec:
  assumes inv: "held_by a A L B ms" and ch: "chains art ms" and m: "ms off = Some prior" and c: "chain_from ms prior c"
    and small: "length (ctrls (ar_pool a)) < 2 ^ 30" "\<forall>x. count B x < 2 ^ 30"
  obtains w b where "collect_window prior keep a = (Inr w, b)" "held_by b A L (mset (map offset (ws_chunks w)) + B) ms" "keeps {} a b"
    "groups (map unat (ws_spans w)) (ws_chunks w) = tail (unat keep) (chain_table (prior # c))"
    "sum_list (map unat (ws_spans w)) = length (ws_chunks w)" "0 \<notin> set (map unat (ws_spans w))" "distinct (map offset (ws_chunks w))"
    "set (ws_chunks w) \<subseteq> set (concat (map mf_chunks (prior # c)))" "\<forall>d \<in> set (ws_chunks w). generation d = gen_at a (offset d)"
proof -
  note h = held_byD [OF inv]
  have ok: "chain_ok (resolve_in ms) (prior # c)" and dc: "distinct (map offset (concat (map mf_chunks (prior # c))))"
    using c by (simp_all add: chain_from_def)
  have art: "mf_artifact_id prior = art" by (rule chainsD [OF ch m])
  define parts where "parts = rev (window_parts (unat keep) (prior # c))"
  have walk: "walk_chain_newest_first prior (read_link_checked a art) window_stop (unat keep) = Inr (stopped window_stop (unat keep) (prior # c))"
    using chain_readable [OF h(2) ch ok] m by (intro walk_newest_first) (auto intro: ranI)
  have pk: "keep = 0 \<Longrightarrow> parts = []" by (simp add: parts_def)
  have sp: "\<forall>(m, t) \<in> set parts. spans_ok m \<and> t \<le> length (mf_batch_spans m)"
    using chain_spans [OF ch m ok] window_parts_ok [of _ _ "unat keep" "prior # c"] by (force simp: parts_def)
  let ?ks = "concat (map tail_chunks parts)"
  have dk: "distinct (map offset ?ks)" and sk: "set ?ks \<subseteq> set (concat (map mf_chunks (prior # c)))"
    using window_chunks_distinct [OF dc, of "unat keep"] distinct_concat_rev [of offset "map tail_chunks (window_parts (unat keep) (prior # c))"]
    by (auto simp: parts_def rev_map)
  have mem: "\<exists>o' x. ms o' = Some x \<and> d \<in> set (mf_chunks x)" if d: "d \<in> set ?ks" for d
  proof -
    obtain x where x: "x \<in> set (prior # c)" "d \<in> set (mf_chunks x)" using subsetD [OF sk d] by auto
    have "x \<in> ran ms" using x(1) chain_members [OF ok] m by (auto intro: ranI)
    then show ?thesis using x(2) by (auto simp: ran_def)
  qed
  have own: "offset d \<in># refs_of ms \<and> generation d = gen_at a (offset d)" if d: "d \<in> set ?ks" for d
  proof -
    obtain o' x where x: "ms o' = Some x" "d \<in> set (mf_chunks x)" using mem [OF d] by blast
    then have "offset d \<in># medges x" by (simp add: medges_def)
    then show ?thesis using refs_of_member [OF h(4) x(1)] manifestsD(4) [OF h(2) x] by simp
  qed
  then have in_refs: "offset d \<in># refs_of ms" and gen: "generation d = gen_at a (offset d)" if "d \<in> set ?ks" for d
    using that by blast+
  have "length ?ks = card (offset ` set ?ks)" using distinct_card [OF dk] by simp
  also have "\<dots> \<le> card (places (ar_pool a))"
    using in_refs ledger_refs [OF h(1)] places_bound(1) [OF ledger_geometry [OF h(1)]] by (intro card_mono) auto
  finally have lk: "length ?ks < 2 ^ 30" using places_bound(2) [OF ledger_geometry [OF h(1)]] small(1) by linarith
  have "count (B + refs_of ms) x + length ?ks < 2 ^ 32" for x
    using lk small(2) [rule_format, of x] small(1) refs_bound [OF h(2) ch, of x] manifests_bound [OF h(2,1)] by simp
  then obtain b where b: "hold_parts [] parts a = (Inr ?ks, b)" "held_by b A L (mset (map offset ?ks) + B) ms" "keeps {} a b"
    using hold_parts_spec [OF inv sp, of "[]"] in_refs gen by auto
  obtain base kept where acc: "account_parts True parts (mf_version prior, []) = (base, kept)" by fastforce
  let ?w = "\<lparr>ws_chunks = ?ks, ws_spans = concat (map tail_spans parts), ws_members = kept, ws_base = base\<rparr>"
  have members: "rev (window_parts (unat keep) (if keep = 0 then [] else stopped window_stop (unat keep) (prior # c))) = parts"
    using window_parts_stopped [of "prior # c" "unat keep"] pk
    by (cases "keep = 0") (simp_all add: parts_def del: window_parts.simps(2))
  have "collect_window prior keep a = (Inr ?w, b)"
    using walk art members b(1) acc by (cases "keep = 0") (simp_all add: collect_window_def Let_def pk)
  moreover have "groups (map unat (ws_spans ?w)) (ws_chunks ?w) = tail (unat keep) (chain_table (prior # c))"
    using parts_groups [OF sp] window_parts_table [of "unat keep" "prior # c"] by (simp add: parts_def)
  moreover have "sum_list (map unat (ws_spans ?w)) = length (ws_chunks ?w)" "0 \<notin> set (map unat (ws_spans ?w))"
    using parts_groups [OF sp] by simp_all
  ultimately show thesis using b(2,3) dk sk gen by (intro that [of ?w b]) simp_all
qed
section \<open>Staging the manifest\<close>

lemma ledger_bytes [simp]: "ledger (a\<lparr>ar_bytes := m\<rparr>) A L R \<longleftrightarrow> ledger a A L R"
  by (simp add: ledger_def chunk_at_def)

lemma keeps_write:
  assumes led: "ledger a A L R" and off: "off \<in> places (ar_pool a)" and fits: "length bs \<le> csize (ar_pool a) off"
  shows "keeps {off} a (a\<lparr>ar_bytes := write_bytes (unat off) bs (ar_bytes a)\<rparr>)"
proof -
  have "write_bytes (unat off) bs (ar_bytes a) y = ar_bytes a y"
    if "o' \<in> places (ar_pool a)" "o' \<noteq> off" "unat o' \<le> y" "y < unat o' + csize (ar_pool a) o'" for o' y
    using places_apart(1) [OF ledger_geometry [OF led] off that(1)] that fits by (auto simp: write_bytes_def)
  then show ?thesis by (auto simp: keeps_def chunk_at_def)
qed

lemma place_in_segment:
  assumes led: "ledger a A L R" and off: "off \<in> places (ar_pool a)" and fits: "unat n \<le> csize (ar_pool a) off"
  shows "segment_resolve (pl_segment (ar_pool a)) off n = Inr (unat off)"
proof -
  obtain i x where l: "locate (ar_pool a) off = Inr (i, x, idx (ar_pool a) off)" "csize (ar_pool a) off = unat (chunk_size (classes (ar_pool a) ! i))"
    by (rule placesE [OF off])
  note r = locate_range [OF l(1)]
  have "HEADER_SIZE + unat (data_offset (classes (ar_pool a) ! i)) + span (classes (ar_pool a) ! i) \<le> seg_size (pl_segment (ar_pool a))"
    using led r(1) by (simp add: ledger_def in_segment_def)
  moreover have "unat off + unat n < 2 ^ 64" using unat_u32_less [of off] unat_u32_less [of n] by simp
  ultimately show ?thesis
    using r(4) chunk_ptr_bounds [OF r(2)] fits l(2) by (simp add: segment_resolve_def Let_def)
qed

lemma manifest_at_written:
  assumes led: "ledger a A L R" and off: "off \<in> places (ar_pool a)" and p: "parse_manifest_bytes bs = Inr m"
    and len: "length bs = manifest_bytes_len m" "length bs \<le> csize (ar_pool a) off" "length bs < 2 ^ 32"
    and byt: "seg_bytes (ar_bytes a) (unat off) (length bs) = bs"
  shows "manifest_at a off = Inr m"
proof -
  obtain h where h: "h = read_pod 64 header_of_bytes bs 0" "header_strict h" "64 \<le> length bs"
    "manifest_bytes_len m = manifest_len (unat (vm_chunk_count h)) (unat (vm_batch_count h)) (unat (vm_kept_count h))"
    by (rule parse_InrD [OF p])
  have "seg_bytes (ar_bytes a) (unat off) 64 = take 64 (seg_bytes (ar_bytes a) (unat off) (length bs))"
    using h(3) by (simp add: seg_bytes_def take_map)
  then have hd: "header_of_bytes (seg_bytes (ar_bytes a) (unat off) 64) = h" using h(1) byt by (simp add: read_pod_def)
  have "segment_resolve (pl_segment (ar_pool a)) off 64 = Inr (unat off)"
    "segment_resolve (pl_segment (ar_pool a)) off (of_nat (length bs)) = Inr (unat off)"
    using place_in_segment [OF led off] h(3) len by (simp_all add: unat_of_nat_u32)
  then show ?thesis
    using hd h(2,4) len p byt by (simp add: manifest_at_def arena_read_def read_manifest_def Let_def header_strict_def)
qed

lemma write_manifest_alloc:
  assumes "write_manifest alloc art v schema chunks spans prev window = Inr (d, bs)"
  shows "alloc (manifest_len (length chunks) (length spans) (length (case window of None \<Rightarrow> [] | Some (_, k) \<Rightarrow> k))) = Inr d"
    and "length bs = manifest_len (length chunks) (length spans) (length (case window of None \<Rightarrow> [] | Some (_, k) \<Rightarrow> k))"
proof -
  obtain base kept where w: "(case window of None \<Rightarrow> (0, []) | Some w \<Rightarrow> w) = (base, kept)" by fastforce
  have k: "(case window of None \<Rightarrow> [] | Some (_, k) \<Rightarrow> k) = kept" using w by (auto split: option.splits)
  show "alloc (manifest_len (length chunks) (length spans) (length (case window of None \<Rightarrow> [] | Some (_, k) \<Rightarrow> k))) = Inr d"
    using assms unfolding k by (auto simp: write_manifest_def Let_def w split: if_splits sum.splits option.splits)
  have "\<exists>h. bs = manifest_image h chunks spans kept"
    using assms by (auto simp: write_manifest_def Let_def w manifest_image_def split: if_splits sum.splits option.splits)
  then show "length bs = manifest_len (length chunks) (length spans) (length (case window of None \<Rightarrow> [] | Some (_, k) \<Rightarrow> k))"
    unfolding k by auto
qed
lemma write_manifest_small:
  assumes "write_manifest alloc art v schema chunks spans prev window = Inl (Arrow (ChunkTooSmall x y))"
  shows "\<exists>n. alloc n = Inl (Arrow (ChunkTooSmall x y)) \<or> (\<exists>d. alloc n = Inr d \<and> unat (len d) < n)"
  using assms by (auto simp: write_manifest_def Let_def split: if_splits sum.splits option.splits prod.splits)

lemma write_manifest_in_Inl:
  assumes led: "ledger a A L R"
    and w: "write_manifest (\<lambda>n. map_sum Arrow id (fst (allocator_alloc n a))) art v schema chunks spans prev window = Inl e"
  shows "write_manifest_in art v schema chunks spans prev window a = (Inl e, a)"
proof -
  have core: "fst (allocator_alloc n a) \<noteq> Inl (ChunkTooSmall x y)" for n x y
    by (auto simp: allocator_alloc_def split: if_splits prod.splits sum.splits)
  have big: "n \<le> unat (len d)" if "fst (allocator_alloc n a) = Inr d" for n d
    using ledger_alloc [OF led, of n "Inr d" "snd (allocator_alloc n a)"] that by (simp add: prod_eq_iff)
  have "e \<noteq> Arrow (ChunkTooSmall x y)" for x y
    using w core big write_manifest_small [of "\<lambda>n. map_sum Arrow id (fst (allocator_alloc n a))" art v schema chunks spans prev window x y]
    by (fastforce simp: map_sum_def split: sum.splits)
  then show ?thesis using w by (auto simp: write_manifest_in_def Let_def split: artifact_error.splits arrow_error.splits)
qed

lemma stage_manifest_spec:
  fixes art v schema chunks window
  assumes inv: "held_by a A L B ms" and ow: "owner \<noteq> OWNER_NONE" and room: "length spans + prev_batches prev < 2 ^ 32"
  defines "m \<equiv> written_manifest art v schema chunks spans prev window"
  obtains e where "stage_chunk (write_manifest_in art v schema chunks spans prev window) owner a = (Inl e, a)"
  | md b alloc bs where "stage_chunk (write_manifest_in art v schema chunks spans prev window) owner a = (Inr md, b)"
    "held_by b A L (add_mset (offset md) B) ms" "keeps {offset md} a b" "offset md \<notin># B + refs_of ms"
    "offset md \<in> places (ar_pool a)" "L (offset md) = None" "generation md = gen_at b (offset md)"
    "manifest_at b (offset md) = Inr m" "manifest_bytes_len m \<le> csize (ar_pool a) (offset md)"
    "write_manifest alloc art v schema chunks spans prev window = Inr (md, bs)"
proof -
  note h = held_byD [OF inv]
  let ?al = "\<lambda>n. map_sum Arrow id (fst (allocator_alloc n a))"
  let ?n = "manifest_len (length chunks) (length spans) (length (case window of None \<Rightarrow> [] | Some (_, k) \<Rightarrow> k))"
  show thesis
  proof (cases "write_manifest ?al art v schema chunks spans prev window")
    case (Inl e)
    then show thesis using write_manifest_in_Inl [OF h(1)] that(1) by (simp add: stage_chunk_def try_do_def)
  next
    case (Inr r)
    then obtain md bs where w: "write_manifest ?al art v schema chunks spans prev window = Inr (md, bs)" by (cases r) auto
    note wa = write_manifest_alloc [OF w]
    define a1 where "a1 = snd (allocator_alloc ?n a)"
    have al: "allocator_alloc ?n a = (Inr md, a1)"
      using wa(1) by (cases "allocator_alloc ?n a") (auto simp: a1_def map_sum_def split: sum.splits)
    note s = ledger_alloc [OF h(1) al, simplified]
    define a2 where "a2 = a1\<lparr>ar_bytes := write_bytes (unat (offset md)) bs (ar_bytes a1)\<rparr>"
    have wi: "write_manifest_in art v schema chunks spans prev window a = (Inr md, a2)"
      using w al by (simp add: write_manifest_in_def Let_def a2_def allocator_resolve_def)
    have l1: "ledger a1 (insert (offset md) A) L (B + refs_of ms)" and new: "offset md \<notin> A" "L (offset md) = None"
      "offset md \<notin># B + refs_of ms" and pl: "offset md \<in> places (ar_pool a)" using s by auto
    have k1: "keeps {} a a1" using s by blast
    have pl1: "offset md \<in> places (ar_pool a1)" "csize (ar_pool a1) = csize (ar_pool a)"
      using pl keeps_places [OF k1] same_shape_locate(4) [OF keeps_shape [OF k1]] by simp_all
    have fits: "length bs \<le> csize (ar_pool a) (offset md)" "length bs < 2 ^ 32" using s wa(2) by auto
    have k2: "keeps {offset md} a1 a2" unfolding a2_def by (rule keeps_write [OF l1 pl1(1)]) (simp add: fits pl1)
    have l2: "ledger a2 (insert (offset md) A) L (B + refs_of ms)" using l1 by (simp add: a2_def)
    obtain b where b: "stage_chunk (write_manifest_in art v schema chunks spans prev window) owner a = (Inr md, b)"
      "ledger b A L (add_mset (offset md) (B + refs_of ms))" "keeps {} a2 b" "ar_bytes b = ar_bytes a2"
      by (rule stage_chunk_spec [of "write_manifest_in art v schema chunks spans prev window" a md a2 A L "B + refs_of ms" owner, OF wi l2 new(1) ow])
    have k: "keeps {offset md} a b" using keeps_trans [OF keeps_trans [OF k1 k2] b(3)] by simp
    have pb: "offset md \<in> places (ar_pool b)" "csize (ar_pool b) = csize (ar_pool a)"
      using pl keeps_places [OF k] same_shape_locate(4) [OF keeps_shape [OF k]] by simp_all
    have ml: "length bs = manifest_bytes_len m"
      using wa(2) by (auto simp: manifest_bytes_len_def m_def written_manifest_def split: option.splits)
    have "seg_bytes (ar_bytes b) (unat (offset md)) (length bs) = bs"
      by (auto simp: b(4) a2_def seg_bytes_def write_bytes_def intro!: nth_equalityI)
    moreover have "parse_manifest_bytes bs = Inr m" using written_parses [OF w room, of "[]"] by (simp add: m_def)
    ultimately have rd: "manifest_at b (offset md) = Inr m" using manifest_at_written [OF b(2) pb(1)] ml fits pb(2) by simp
    have "dom ms \<inter> {offset md} = {}" using h(3) new(3) by auto
    then have "manifests b ms"
      by (intro manifests_kept [OF h(2,1) k]) (use new(3) manifestsD(7) [OF h(2)] in \<open>auto simp: map_le_def\<close>)
    then have hb: "held_by b A L (add_mset (offset md) B) ms" using b(2) h(3) by (auto simp: held_by_def)
    have "chunk_at a1 = chunk_at a" and "generation md = gen_at a (offset md)" using s by blast+
    moreover have "chunk_at a2 = chunk_at a1" by (simp add: a2_def chunk_at_def fun_eq_iff)
    moreover have "gen_at b (offset md) = gen_at a2 (offset md)"
      using keeps_gen [OF b(3)] pl1(1) by (simp add: a2_def)
    ultimately have "generation md = gen_at b (offset md)" by simp
    then show thesis using that(2) b(1) hb k new pl rd ml fits w by simp
  qed
qed
text \<open>A manifest that owns the references \<open>medges m\<close> joins the manifests of the segment.\<close>

lemma held_join:
  assumes inv: "held_by b A L (add_mset off (medges m + B)) ms" and off: "ms off = None" "off \<in> places (ar_pool b)"
    and m: "manifest_at b off = Inr m" "manifest_bytes_len m \<le> csize (ar_pool b) off"
    and d: "\<forall>d \<in> set (mf_chunks m). generation d = gen_at b (offset d) \<and> offset d \<notin> dom ms \<and> offset d \<noteq> off"
    and l: "\<forall>l. mf_prev m = Some l \<longrightarrow> ml_generation l = gen_at b (link_off l) \<and> link_off l \<in> dom ms"
    and apart: "\<forall>x \<in> ran ms. \<forall>d \<in> set (mf_chunks x). offset d \<noteq> off"
  shows "held_by b A L (add_mset off B) (ms(off \<mapsto> m))"
proof -
  note h = held_byD [OF inv]
  have r: "refs_of (ms(off \<mapsto> m)) = medges m + refs_of ms" by (rule refs_of_insert [OF h(4) off(1)])
  have "ledger b A L (add_mset off B + refs_of (ms(off \<mapsto> m)))" using h(1) by (simp add: r ac_simps)
  moreover have "manifest_at b o' = Inr x \<and> manifest_bytes_len x \<le> csize (ar_pool b) o' \<and> o' \<in> places (ar_pool b)
       \<and> (\<forall>d \<in> set (mf_chunks x). generation d = gen_at b (offset d) \<and> offset d \<notin> dom (ms(off \<mapsto> m)))
       \<and> (\<forall>l. mf_prev x = Some l \<longrightarrow> ml_generation l = gen_at b (link_off l) \<and> link_off l \<in> dom (ms(off \<mapsto> m)))"
    if x: "(ms(off \<mapsto> m)) o' = Some x" for o' x
  proof (cases "o' = off")
    case True
    then show ?thesis using x m off d l by auto
  next
    case False
    then have x': "ms o' = Some x" using x by simp
    have "\<forall>d \<in> set (mf_chunks x). offset d \<noteq> off" using apart x' by (auto simp: ran_def)
    then show ?thesis using manifestsD [OF h(2) x'] by auto
  qed
  then have "manifests b (ms(off \<mapsto> m))" using h(4) unfolding manifests_def by simp
  moreover have "dom (ms(off \<mapsto> m)) \<subseteq> set_mset (add_mset off B + refs_of (ms(off \<mapsto> m)))" using h(3) by (auto simp: r)
  ultimately show ?thesis by (simp add: held_by_def)
qed

section \<open>What a commit builds on\<close>

definition source_refs :: "manifest_link option \<Rightarrow> window_set option \<Rightarrow> u32 multiset" where
  "source_refs link w = (case link of None \<Rightarrow> {#} | Some l \<Rightarrow> {#link_off l#})
     + (case w of None \<Rightarrow> {#} | Some w \<Rightarrow> mset (map offset (ws_chunks w)))"

text \<open>
  How the link or the window of a commit stems from the current version, whose manifest \<open>bits\<close> names;
  \<open>base\<close> is the part of the current table that goes into the new version.
\<close>

definition window_from :: "arena \<Rightarrow> window_set \<Rightarrow> manifest list \<Rightarrow> bool" where
  "window_from a w c \<longleftrightarrow> sum_list (map unat (ws_spans w)) = length (ws_chunks w) \<and> 0 \<notin> set (map unat (ws_spans w))
     \<and> distinct (map offset (ws_chunks w)) \<and> set (ws_chunks w) \<subseteq> set (concat (map mf_chunks c))
     \<and> (\<forall>d \<in> set (ws_chunks w). generation d = gen_at a (offset d))"

definition sourced ::
  "arena \<Rightarrow> (u32 \<rightharpoonup> manifest) \<Rightarrow> u64 \<Rightarrow> u64 \<Rightarrow> u32 \<Rightarrow> commit \<Rightarrow> manifest_link option \<Rightarrow> window_set option \<Rightarrow> bool" where
  "sourced a ms bits expect schema c link w \<longleftrightarrow>
     (case (link, w) of
        (None, None) \<Rightarrow> c = Replace \<or> expect = NO_VERSION
      | (Some l, None) \<Rightarrow> c = Append \<and> (\<exists>prior. ms (ref_offset bits) = Some prior \<and> mf_version prior = expect
          \<and> mf_schema_id prior = schema \<and> l = link_from bits (gen_at a (ref_offset bits)) prior)
      | (None, Some w) \<Rightarrow> (\<exists>keep prior ch. c = Window keep \<and> ms (ref_offset bits) = Some prior \<and> mf_version prior = expect
          \<and> chain_from ms prior ch \<and> window_from a w (prior # ch)
          \<and> groups (map unat (ws_spans w)) (ws_chunks w) = tail (unat keep) (chain_table (prior # ch)))
      | _ \<Rightarrow> False)"

lemma resolve_link_spec:
  assumes inv: "held_by (as_arena s) A L B ms" and ch: "chains (a_name_id art) ms"
    and cur: "ms (ref_offset (ah_manifest_desc (as_head s))) = Some prior"
    and small: "length (ctrls (ar_pool (as_arena s))) < 2 ^ 30" "\<forall>x. count B x < 2 ^ 30"
  defines "bits \<equiv> ah_manifest_desc (as_head s)"
  obtains e where "resolve_link art expect schema s = (Inl e, s)"
  | b where "resolve_link art expect schema s = (Inr (link_from bits (gen_at b (ref_offset bits)) prior), s\<lparr>as_arena := b\<rparr>)"
    "held_by b A L (add_mset (ref_offset bits) B) ms" "keeps {} (as_arena s) b" "mf_version prior = expect" "mf_schema_id prior = schema"
proof (cases "mf_version prior = expect \<and> mf_schema_id prior = schema")
  case False
  have "\<exists>e. resolve_link art expect schema s = (Inl e, s)"
    using art_read_in [OF held_byD(2) [OF inv] cur, of "a_name_id art" expect] False
    by (auto simp: resolve_link_def Let_def split: if_splits)
  then show thesis using that(1) by blast
next
  case True
  let ?a = "as_arena s" and ?off = "ref_offset bits" and ?d = "manifest_chunk_desc bits 0"
  note h = held_byD [OF inv]
  have c: "ms ?off = Some prior" using cur by (simp add: bits_def)
  have art: "mf_artifact_id prior = a_name_id art" by (rule chainsD [OF ch c])
  have rd: "art_read_checked s bits (a_name_id art) expect = Inr prior" using art_read_in [OF h(2) c] art True by simp
  have pl: "?off \<in> places (ar_pool ?a)" using manifestsD(3) [OF h(2) c] .
  have pc: "pool_ctrl (ar_pool ?a) ?d = Inr (idx (ar_pool ?a) ?off)"
    using pool_ctrl_place [of ?d] pl by (simp add: manifest_chunk_desc_def)
  have inr: "?off \<in># B + refs_of ms" using h(3) c by auto
  have "count (B + refs_of ms) ?off < 2 ^ 32 - 1"
    using refs_bound [OF h(2) ch, of ?off] manifests_bound [OF h(2,1)] small(1) small(2) [rule_format, of ?off] by simp
  then obtain b where b: "on_ctrl (idx (ar_pool ?a) ?off) borrow_shared ?a = (Inr (), b)" "held_by b A L (add_mset ?off B) ms" "keeps {} ?a b"
    by (rule held_borrow [OF inv inr])
  have rd2: "art_read_checked (s\<lparr>as_arena := b\<rparr>) bits (a_name_id art) expect = Inr prior"
    using art_read_in [of "s\<lparr>as_arena := b\<rparr>"] held_byD(2) [OF b(2)] c art True by simp
  have g: "gen_at b ?off = gen_at ?a ?off" using keeps_gen [OF b(3) pl] by simp
  have g2: "ctrl_get (ar_pool b) (idx (ar_pool ?a) ?off) = chunk_at b ?off" by (rule keeps_chunk_at [OF b(3)])
  have "resolve_link art expect schema s = (Inr (link_from bits (gen_at b ?off) prior), s\<lparr>as_arena := b\<rparr>)"
    using rd rd2 pc b(1) True g by (simp add: resolve_link_def Let_def bits_def [symmetric] g2) (simp add: chunk_at_def)
  then show thesis using that(2) b(2,3) True by blast
qed
lemma resolve_window_spec:
  assumes inv: "held_by (as_arena s) A L B ms" and ch: "chains (a_name_id art) ms"
    and cur: "ms (ref_offset (ah_manifest_desc (as_head s))) = Some prior"
    and small: "length (ctrls (ar_pool (as_arena s))) < 2 ^ 30" "\<forall>x. count B x < 2 ^ 30"
  obtains e where "resolve_window art expect schema keep s = (Inl e, s)"
  | w b c where "resolve_window art expect schema keep s = (Inr w, s\<lparr>as_arena := b\<rparr>)"
    "held_by b A L (mset (map offset (ws_chunks w)) + B) ms" "keeps {} (as_arena s) b" "mf_version prior = expect"
    "chain_from ms prior c" "window_from b w (prior # c)"
    "groups (map unat (ws_spans w)) (ws_chunks w) = tail (unat keep) (chain_table (prior # c))"
proof (cases "mf_version prior = expect \<and> mf_schema_id prior = schema")
  case False
  have "\<exists>e. resolve_window art expect schema keep s = (Inl e, s)"
    using art_read_in [OF held_byD(2) [OF inv] cur, of "a_name_id art" expect] False
    by (auto simp: resolve_window_def Let_def split: if_splits)
  then show thesis using that(1) by blast
next
  case True
  note h = held_byD [OF inv]
  obtain c where c: "mf_artifact_id prior = a_name_id art" "chain_from ms prior c" by (rule chainsD [OF ch cur])
  have rd: "art_read_checked s (ah_manifest_desc (as_head s)) (a_name_id art) expect = Inr prior"
    using art_read_in [OF h(2) cur] c(1) True by simp
  obtain w b where w: "collect_window prior keep (as_arena s) = (Inr w, b)" "held_by b A L (mset (map offset (ws_chunks w)) + B) ms"
    "keeps {} (as_arena s) b" "groups (map unat (ws_spans w)) (ws_chunks w) = tail (unat keep) (chain_table (prior # c))"
    "sum_list (map unat (ws_spans w)) = length (ws_chunks w)" "0 \<notin> set (map unat (ws_spans w))" "distinct (map offset (ws_chunks w))"
    "set (ws_chunks w) \<subseteq> set (concat (map mf_chunks (prior # c)))" "\<forall>d \<in> set (ws_chunks w). generation d = gen_at (as_arena s) (offset d)"
    by (rule collect_window_spec [OF inv ch cur c(2) small])
  have "generation d = gen_at b (offset d)" if d: "d \<in> set (ws_chunks w)" for d
  proof -
    have "offset d \<in># mset (map offset (ws_chunks w)) + B + refs_of ms" using d by simp
    then have "offset d \<in> places (ar_pool (as_arena s))"
      using ledger_refs [OF held_byD(1) [OF w(2)]] keeps_places [OF w(3)] by blast
    then show ?thesis using w(9) d keeps_gen [OF w(3)] by simp
  qed
  then have "window_from b w (prior # c)" using w(5-8) by (simp add: window_from_def)
  moreover have "resolve_window art expect schema keep s = (Inr w, s\<lparr>as_arena := b\<rparr>)"
    using rd True w(1) by (simp add: resolve_window_def Let_def)
  ultimately show thesis using that(2) w(2-4) c(2) True by blast
qed

lemma commit_sources_spec:
  assumes inv: "held_by (as_arena s) A L B ms" and ch: "chains (a_name_id art) ms"
    and cur: "ah_manifest_desc (as_head s) = 0 \<or> ref_offset (ah_manifest_desc (as_head s)) \<in> dom ms"
    and small: "length (ctrls (ar_pool (as_arena s))) < 2 ^ 30" "\<forall>x. count B x < 2 ^ 30"
    and c: "\<forall>x y. c \<noteq> Patch x y"
  obtains e where "commit_sources art expect c schema s = (Inl e, s)"
  | link w b where "commit_sources art expect c schema s = (Inr (link, w), s\<lparr>as_arena := b\<rparr>)"
    "held_by b A L (source_refs link w + B) ms" "keeps {} (as_arena s) b"
    "sourced b ms (ah_manifest_desc (as_head s)) expect schema c link w"
proof (cases "c = Replace \<or> expect = NO_VERSION")
  case True
  then have e: "commit_sources art expect c schema s = (Inr (None, None), s\<lparr>as_arena := as_arena s\<rparr>)"
    using c by (cases c) (auto simp: commit_sources_def)
  show thesis by (rule that(2) [OF e]) (use inv True in \<open>simp_all add: source_refs_def sourced_def\<close>)
next
  case False
  let ?bits = "ah_manifest_desc (as_head s)"
  have two: "c = Append \<or> (\<exists>k. c = Window k)" using c False by (cases c) auto
  show thesis
  proof (cases "ref_offset ?bits \<in> dom ms")
    case False
    then have z: "?bits = 0" using cur by simp
    have "\<exists>e. commit_sources art expect c schema s = (Inl e, s)"
      using two \<open>\<not> (c = Replace \<or> expect = NO_VERSION)\<close>
      by (auto simp: commit_sources_def resolve_link_def resolve_window_def Let_def z art_read_zero)
    then show thesis using that(1) by blast
  next
    case d: True
    then obtain prior where p: "ms (ref_offset ?bits) = Some prior" by auto
    show thesis
    proof (cases "c = Append")
      case True
      show thesis
      proof (rule resolve_link_spec [OF inv ch p small, of expect schema])
        fix e assume "resolve_link art expect schema s = (Inl e, s)"
        then show thesis using that(1) True False by (simp add: commit_sources_def)
      next
        fix b let ?l = "link_from ?bits (gen_at b (ref_offset ?bits)) prior"
        assume r: "resolve_link art expect schema s = (Inr ?l, s\<lparr>as_arena := b\<rparr>)" "held_by b A L (add_mset (ref_offset ?bits) B) ms"
          "keeps {} (as_arena s) b" "mf_version prior = expect" "mf_schema_id prior = schema"
        have "link_off ?l = ref_offset ?bits" by (simp add: link_off_def link_from_def)
        then show thesis using that(2) [of "Some ?l" None b] r p True False
          by (auto simp: commit_sources_def source_refs_def sourced_def)
      qed
    next
      case nap: False
      then obtain k where k: "c = Window k" using two by blast
      show thesis
      proof (rule resolve_window_spec [OF inv ch p small, of expect schema k])
        fix e assume "resolve_window art expect schema k s = (Inl e, s)"
        then show thesis using that(1) k False by (simp add: commit_sources_def)
      next
        fix w b ch'
        assume "resolve_window art expect schema k s = (Inr w, s\<lparr>as_arena := b\<rparr>)"
          "held_by b A L (mset (map offset (ws_chunks w)) + B) ms" "keeps {} (as_arena s) b" "mf_version prior = expect"
          "chain_from ms prior ch'" "window_from b w (prior # ch')"
          "groups (map unat (ws_spans w)) (ws_chunks w) = tail (unat k) (chain_table (prior # ch'))"
        then show thesis using that(2) [of None "Some w" b] k False p
          by (auto simp: commit_sources_def source_refs_def sourced_def)
      qed
    qed
  qed
qed
section \<open>The new version\<close>

text \<open>What a commit makes of the table before the new batches are added.\<close>

definition table_base :: "commit \<Rightarrow> 'b list \<Rightarrow> 'b list" where
  "table_base c old = (case c of Append \<Rightarrow> old | Window keep \<Rightarrow> tail (unat keep) old | _ \<Rightarrow> [])"

definition kept_chunks :: "window_set option \<Rightarrow> chunk_desc list" where
  "kept_chunks w = (case w of None \<Rightarrow> [] | Some w \<Rightarrow> ws_chunks w)"

definition kept_spans :: "window_set option \<Rightarrow> u32 list" where
  "kept_spans w = (case w of None \<Rightarrow> [] | Some w \<Rightarrow> ws_spans w)"

definition new_manifest :: "u32 \<Rightarrow> u64 \<Rightarrow> u32 \<Rightarrow> chunk_desc list \<Rightarrow> u32 list \<Rightarrow> manifest_link option \<Rightarrow> window_set option \<Rightarrow> manifest" where
  "new_manifest art v schema staged spans link w =
     written_manifest art v schema (kept_chunks w @ staged) (kept_spans w @ spans) link (map_option (\<lambda>w. (ws_base w, ws_members w)) w)"

lemma sourced_spans:
  assumes "sourced a ms bits expect schema c link w"
  shows "sum_list (map unat (kept_spans w)) = length (kept_chunks w)" "0 \<notin> set (map unat (kept_spans w))"
    "kept_chunks w = [] \<Longrightarrow> kept_spans w = []"
proof -
  show 1: "sum_list (map unat (kept_spans w)) = length (kept_chunks w)" and 2: "0 \<notin> set (map unat (kept_spans w))"
    using assms by (auto simp: sourced_def kept_spans_def kept_chunks_def window_from_def split: option.splits)
  show "kept_spans w = []" if "kept_chunks w = []"
    using 1 2 that by (cases "kept_spans w") auto
qed

lemma new_manifest_spans:
  assumes "sourced a ms bits expect schema c link w" "sum_list (map unat spans) = length staged" "0 \<notin> set (map unat spans)"
  shows "spans_ok (new_manifest art v schema staged spans link w)"
    and "batches (new_manifest art v schema staged spans link w)
      = groups (map unat (kept_spans w)) (kept_chunks w) @ groups (map unat spans) staged"
  using sourced_spans(1,2) [OF assms(1)] assms(2,3) groups_append [of "map unat (kept_spans w)" "kept_chunks w"]
  by (auto simp: spans_ok_def spans_of_def batches_def new_manifest_def written_manifest_def)

lemma new_manifest_edges:
  "medges (new_manifest art v schema staged spans link w) = source_refs link w + mset (map offset staged)"
  by (simp add: medges_def new_manifest_def written_manifest_def source_refs_def kept_chunks_def ac_simps split: option.splits)

lemma new_root_chain:
  assumes "length (mf_batch_spans m) < 2 ^ 32" "mf_prev m = None" "mf_depth m = 0"
    "mf_total_batches m = of_nat (length (mf_batch_spans m))" "distinct (map offset (mf_chunks m))"
  shows "chain_from ms m []"
  using assms by (simp add: chain_from_def unat_of_nat_u32)

lemma chain_apart:
  assumes "ms off = Some m" "chain_from ms m c" "\<forall>x \<in> ran ms. offset ` set (mf_chunks x) \<inter> S = {}"
  shows "offset ` set (concat (map mf_chunks (m # c))) \<inter> S = {}"
proof -
  have "set (m # c) \<subseteq> ran ms" using assms(1,2) chain_members [of ms m c] by (auto simp: chain_from_def intro: ranI)
  then have "\<forall>x \<in> set (m # c). offset ` set (mf_chunks x) \<inter> S = {}" using assms(3) by blast
  then show ?thesis by fastforce
qed

lemma new_chain:
  fixes staged :: "chunk_desc list"
  assumes src: "sourced b ms bits expect schema c link w" and ch: "chains art ms" and bits: "ms off = None"
    and wr: "write_manifest alloc art (expect + 1) schema (kept_chunks w @ staged) (kept_spans w @ spans) link
        (map_option (\<lambda>w. (ws_base w, ws_members w)) w) = Inr (md, bs)"
    and room: "length (kept_spans w @ spans) + prev_batches link < 2 ^ 32" and top: "expect \<noteq> - 1"
    and st: "distinct (map offset staged)" "\<forall>x \<in> ran ms. offset ` set (mf_chunks x) \<inter> offset ` set staged = {}"
  defines "m \<equiv> new_manifest art (expect + 1) schema staged spans link w"
  obtains c' where "chain_from (ms(off \<mapsto> m)) m c'"
    "\<And>prior ch. link \<noteq> None \<Longrightarrow> ms (ref_offset bits) = Some prior \<Longrightarrow> chain_from ms prior ch \<Longrightarrow> c' = prior # ch"
    "link = None \<Longrightarrow> c' = []"
proof (cases link)
  case (Some l)
  then have w: "w = None" using src by (auto simp: sourced_def split: option.splits)
  obtain prior where p: "ms (ref_offset bits) = Some prior" "mf_version prior = expect" "mf_schema_id prior = schema"
    "l = link_from bits (gen_at b (ref_offset bits)) prior" using src Some w by (auto simp: sourced_def)
  obtain ch' where c': "mf_artifact_id prior = art" "chain_from ms prior ch'" by (rule chainsD [OF ch p(1)])
  have sub: "ms \<subseteq>\<^sub>m ms(off \<mapsto> m)" using bits by (auto simp: map_le_def)
  have ok: "chain_ok (resolve_in (ms(off \<mapsto> m))) (prior # ch')" using chain_from_more [OF c'(2) sub] by (simp add: chain_from_def)
  have lo: "link_off l = ref_offset bits" by (simp add: p(4) link_off_def link_from_def)
  have res: "resolve_in (ms(off \<mapsto> m)) l = Inr prior" using p(1) bits by (auto simp: resolve_in_def lo)
  have r: "length spans + unat (ml_total_batches l) < 2 ^ 32" using room Some by (simp add: w kept_spans_def prev_batches_def)
  have wl: "ml_depth l \<noteq> - 1" "length spans < 2 ^ 32"
    using write_linked [OF wr [unfolded Some]] r by (simp_all add: w kept_spans_def)
  have mf: "mf_prev m = Some l" "mf_version m = expect + 1" "mf_depth m = mf_depth prior + 1" "mf_batch_spans m = spans"
    "mf_total_batches m = of_nat (length spans) + mf_total_batches prior" "mf_artifact_id m = art" "mf_schema_id m = schema"
    "mf_chunks m = staged"
    by (simp_all add: m_def new_manifest_def written_manifest_def Some w kept_spans_def kept_chunks_def p(4) link_from_def)
  have "expect < expect + 1" using top by (simp add: word_less_nat_alt unat_Suc_word)
  moreover have "unat (mf_depth prior + 1) = unat (mf_depth prior) + 1"
    using wl(1) by (simp add: p(4) link_from_def unat_Suc_word)
  moreover have "unat (of_nat (length spans) + mf_total_batches prior :: u32) = length spans + unat (mf_total_batches prior)"
    using r by (simp add: p(4) link_from_def unat_word_ariths unat_of_nat_u32)
  ultimately have okm: "chain_ok (resolve_in (ms(off \<mapsto> m))) (m # prior # ch')"
    using ok res p c'(1) wl(2) by (simp add: mf p(4) link_from_def)
  have "offset ` set (concat (map mf_chunks (prior # ch'))) \<inter> offset ` set staged = {}" by (rule chain_apart [OF p(1) c'(2) st(2)])
  then have "distinct (map offset (concat (map mf_chunks (m # prior # ch'))))"
    using c'(2) st(1) by (auto simp: chain_from_def mf(8))
  then have "chain_from (ms(off \<mapsto> m)) m (prior # ch')" using okm by (simp add: chain_from_def)
  moreover have "prior' # ch'' = prior # ch'" if "ms (ref_offset bits) = Some prior'" "chain_from ms prior' ch''" for prior' ch''
    using that p(1) c'(2) chain_ok_det by (auto simp: chain_from_def)
  ultimately show thesis using that [of "prior # ch'"] Some by fastforce
next
  case None
  have len: "length (kept_spans w @ spans) < 2 ^ 32" using room by simp
  have "distinct (map offset (kept_chunks w @ staged))"
  proof (cases w)
    case (Some w')
    then obtain keep prior chn where p: "ms (ref_offset bits) = Some prior" "chain_from ms prior chn" "window_from b w' (prior # chn)"
      using src None by (auto simp: sourced_def)
    have "offset ` set (concat (map mf_chunks (prior # chn))) \<inter> offset ` set staged = {}" by (rule chain_apart [OF p(1,2) st(2)])
    moreover have "set (ws_chunks w') \<subseteq> set (concat (map mf_chunks (prior # chn)))" "distinct (map offset (ws_chunks w'))"
      using p(3) by (simp_all add: window_from_def)
    ultimately have "offset ` set (ws_chunks w') \<inter> offset ` set staged = {}" and "distinct (map offset (ws_chunks w'))" by blast+
    then show ?thesis using st(1) Some by (simp add: kept_chunks_def)
  qed (use st(1) in \<open>simp add: kept_chunks_def\<close>)
  then have "chain_from (ms(off \<mapsto> m)) m []"
    using len None by (intro new_root_chain) (simp_all add: m_def new_manifest_def written_manifest_def)
  then show thesis using that [of "[]"] None by blast
qed
section \<open>Rolling back\<close>

text \<open>Descriptors that are current and name no manifest.\<close>

definition loose :: "arena \<Rightarrow> (u32 \<rightharpoonup> manifest) \<Rightarrow> chunk_desc list \<Rightarrow> bool" where
  "loose a ms ds \<longleftrightarrow> (\<forall>d \<in> set ds. generation d = gen_at a (offset d) \<and> offset d \<notin> dom ms)"

lemma loose_kept:
  assumes "loose a ms ds" "keeps S a b" "ledger a A L R" "\<forall>d \<in> set ds. offset d \<in># R \<and> offset d \<notin> S"
  shows "loose b ms ds"
  using assms keeps_gen [OF assms(2)] ledger_refs [OF assms(3)] by (simp add: loose_def)

lemma release_loose:
  assumes "held_by a A L (mset (map offset ds) + B) ms" "loose a ms ds"
  shows "held_by (release_all ds a) A L B ms" "keeps (spare L (B + refs_of ms)) a (release_all ds a)"
  using held_release_all [OF assms(1)] assms(2) by (auto simp: loose_def)

definition release_link :: "manifest_link option \<Rightarrow> arena \<Rightarrow> arena" where
  "release_link link a =
     (case link of
        None \<Rightarrow> a
      | Some l \<Rightarrow>
          (case pool_ctrl (ar_pool a) (manifest_chunk_desc (ml_mref l) 0) of
             Inl _ \<Rightarrow> a
           | Inr g \<Rightarrow>
               if ctrl_generation (ctrl_get (ar_pool a) g) = ml_generation l
               then release_manifest_ref (ml_mref l) (Some (ml_generation l)) a else a))"

lemma release_link_spec:
  assumes inv: "held_by a A L (source_refs link None + B) ms"
    and link: "\<forall>l. link = Some l \<longrightarrow> link_off l \<in># B + refs_of ms \<and> ml_generation l = gen_at a (link_off l)"
  shows "held_by (release_link link a) A L B ms" "keeps {} a (release_link link a)"
proof -
  have "held_by (release_link link a) A L B ms \<and> keeps {} a (release_link link a)"
  proof (cases link)
    case None
    then show ?thesis using inv by (simp add: release_link_def source_refs_def)
  next
    case (Some l)
    have l: "link_off l \<in># B + refs_of ms" "ml_generation l = gen_at a (link_off l)" using link Some by blast+
    have inv': "held_by a A L (add_mset (ref_offset (ml_mref l)) B) ms" using inv Some by (simp add: source_refs_def link_off_def)
    have "link_off l \<in># add_mset (ref_offset (ml_mref l)) B + refs_of ms" using l(1) by simp
    then have "link_off l \<in> places (ar_pool a)" by (rule ledger_refs [OF held_byD(1) [OF inv']])
    then have pc: "pool_ctrl (ar_pool a) (manifest_chunk_desc (ml_mref l) 0) = Inr (idx (ar_pool a) (link_off l))"
      using pool_ctrl_place [of "manifest_chunk_desc (ml_mref l) 0"] by (simp add: manifest_chunk_desc_def link_off_def)
    have "release_link link a = release_manifest_ref (ml_mref l) (Some (ml_generation l)) a"
      using pc l(2) Some by (simp add: release_link_def chunk_at_def)
    then show ?thesis using cascade_not_last [OF inv', of "Some (ml_generation l)"] l by (simp add: link_off_def)
  qed
  then show "held_by (release_link link a) A L B ms" "keeps {} a (release_link link a)" by blast+
qed

definition md_list :: "chunk_desc option \<Rightarrow> chunk_desc list" where
  "md_list md = (case md of None \<Rightarrow> [] | Some d \<Rightarrow> [d])"

lemma rollback_staged_eq:
  "rollback_staged published link kept md slot s =
     (let s1 = (case slot of
                  None \<Rightarrow> s
                | Some (i, version) \<Rightarrow>
                    let sl = head_slot_at i s in
                    if ps_state sl = SLOT_LIVE \<and> ps_version sl = version
                    then set_slot_at i (sl\<lparr>ps_version := 0, ps_state := SLOT_FREE\<rparr>) s else s)
      in s1\<lparr>as_arena := release_all published (release_all kept (release_link link (release_all (md_list md) (as_arena s))))\<rparr>)"
  by (cases md; cases link; cases slot)
    (auto simp: rollback_staged_def release_link_def md_list_def release_all_def Let_def set_slot_at_def split: sum.splits)

lemma rollback_arena:
  assumes inv: "held_by a A L (mset (map offset (md_list md)) + source_refs link w + mset (map offset staged) + B) ms"
    and ds: "loose a ms (md_list md)" "loose a ms (kept_chunks w)" "loose a ms staged"
    and link: "\<forall>l. link = Some l \<longrightarrow> link_off l \<in># B + refs_of ms \<and> ml_generation l = gen_at a (link_off l)"
  defines "b \<equiv> release_all staged (release_all (kept_chunks w) (release_link link (release_all (md_list md) a)))"
  shows "held_by b A L B ms" "keeps (spare L (B + refs_of ms)) a b"
proof -
  let ?K = "mset (map offset (kept_chunks w))" and ?S = "mset (map offset staged)"
  have X: "source_refs link w = source_refs link None + ?K" by (simp add: source_refs_def kept_chunks_def split: option.splits)
  define a1 where "a1 = release_all (md_list md) a"
  define a2 where "a2 = release_link link a1"
  define a3 where "a3 = release_all (kept_chunks w) a2"
  have b: "b = release_all staged a3" by (simp add: b_def a1_def a2_def a3_def)
  let ?R1 = "source_refs link None + (?K + (?S + B))"
  have "held_by a A L (mset (map offset (md_list md)) + ?R1) ms" using inv by (simp add: X ac_simps)
  then have i1: "held_by a1 A L ?R1 ms" and k1: "keeps (spare L (?R1 + refs_of ms)) a a1"
    using release_loose [OF _ ds(1)] unfolding a1_def by blast+
  have led: "ledger a A L (mset (map offset (md_list md)) + source_refs link w + ?S + B + refs_of ms)" using held_byD(1) [OF inv] .
  have g1: "gen_at a1 x = gen_at a x" if "x \<in># ?R1 + refs_of ms" for x
    using keeps_gen [OF k1, of x] ledger_refs [OF led, of x] that by (auto simp: X)
  have "\<forall>l. link = Some l \<longrightarrow> link_off l \<in># (?K + (?S + B)) + refs_of ms \<and> ml_generation l = gen_at a1 (link_off l)"
    using link g1 by auto
  then have i2: "held_by a2 A L (?K + (?S + B)) ms" and k2: "keeps {} a1 a2"
    using release_link_spec [OF i1] unfolding a2_def by blast+
  have k12: "keeps (spare L (?R1 + refs_of ms)) a a2" using keeps_trans [OF k1 k2] by simp
  have lk: "loose a2 ms (kept_chunks w)" "loose a2 ms staged"
    using ds(2,3) by (auto intro!: loose_kept [OF _ k12 led] simp: X)
  have i3: "held_by a3 A L (?S + B) ms" and k3: "keeps (spare L (?S + B + refs_of ms)) a2 a3"
    using release_loose [OF i2 lk(1)] unfolding a3_def by (simp_all add: ac_simps)
  have l3: "loose a3 ms staged" by (rule loose_kept [OF lk(2) k3 held_byD(1) [OF i2]]) auto
  show "held_by b A L B ms" unfolding b by (rule release_loose(1) [OF i3 l3])
  have k4: "keeps (spare L (B + refs_of ms)) a3 b" unfolding b by (rule release_loose(2) [OF i3 l3])
  have "keeps (spare L (B + refs_of ms) \<union> spare L (B + refs_of ms) \<union> spare L (B + refs_of ms)) a b"
    using keeps_mono [OF k12, of "spare L (B + refs_of ms)"] keeps_mono [OF k3, of "spare L (B + refs_of ms)"] k4
    by (intro keeps_trans) auto
  then show "keeps (spare L (B + refs_of ms)) a b" by simp
qed

end
