(* ===== verification/Shm_Typed_Ref.thy ===== *)
theory Shm_Typed_Ref
  imports Shm_Catalog Shm_Commit
begin

text \<open>
  \<^verbatim>\<open>crates/shm-store/src/typed_ref.rs\<close>: the 56-byte envelope that names an entry of the keyed store, and
  its way through a chunk of the shared data segment. The record is an instance of \<open>pod\<close>. Shown: what is
  decoded is exactly what was encoded by a build with the same magic and version, and an envelope written
  into a chunk is read back as long as nobody writes that chunk.
\<close>

section \<open>The envelope\<close>

definition SCHEMA_TYPED_REF :: u32 where "SCHEMA_TYPED_REF = 1"
definition FIRST_USER_SCHEMA_ID :: u32 where "FIRST_USER_SCHEMA_ID = 16"
definition TYPED_REF_MAGIC :: u32 where "TYPED_REF_MAGIC = 0x54524546"
definition TYPED_REF_ABI_VERSION :: u16 where "TYPED_REF_ABI_VERSION = 1"
definition TYPED_REF_SIZE :: nat where "TYPED_REF_SIZE = 56"

record typed_ref =
  tr_magic :: u32
  tr_abi_version :: u16
  tr_kind :: u16
  tr_key_id :: u32
  tr_schema_id :: u32
  tr_version :: u64
  tr_locator :: chunk_desc
  tr_manifest :: u64

definition resolved :: "ref_kind \<Rightarrow> u32 \<Rightarrow> u32 \<Rightarrow> u64 \<Rightarrow> chunk_desc \<Rightarrow> u64 \<Rightarrow> typed_ref" where
  "resolved k key schema v locator manifest =
     \<lparr>tr_magic = TYPED_REF_MAGIC, tr_abi_version = TYPED_REF_ABI_VERSION, tr_kind = as_u16 k, tr_key_id = key,
      tr_schema_id = schema, tr_version = v, tr_locator = locator, tr_manifest = manifest\<rparr>"

definition by_key :: "ref_kind \<Rightarrow> u32 \<Rightarrow> u32 \<Rightarrow> u64 \<Rightarrow> typed_ref" where
  "by_key k key schema v =
     \<lparr>tr_magic = TYPED_REF_MAGIC, tr_abi_version = TYPED_REF_ABI_VERSION, tr_kind = as_u16 k, tr_key_id = key,
      tr_schema_id = schema, tr_version = v, tr_locator = ZERO_desc, tr_manifest = 0\<rparr>"

definition tref_kind :: "typed_ref \<Rightarrow> store_error + ref_kind" where
  "tref_kind t = from_u16 (tr_kind t)"

definition has_locator :: "typed_ref \<Rightarrow> bool" where
  "has_locator t \<longleftrightarrow> \<not> is_zero (tr_locator t)"

definition manifest_ref :: "typed_ref \<Rightarrow> packed_ref option" where
  "manifest_ref t = (if tr_manifest t \<noteq> 0 then Some (tr_manifest t) else None)"

definition tref_validate :: "typed_ref \<Rightarrow> store_error + unit" where
  "tref_validate t =
     (if tr_magic t \<noteq> TYPED_REF_MAGIC \<or> tr_abi_version t \<noteq> TYPED_REF_ABI_VERSION then Inl BadEnvelope else Inr ())"

section \<open>Bytes\<close>

text \<open>The fields at their offsets 0, 4, 6, 8, 12, 16, 24 and 48; there is no padding.\<close>

definition tref_to_bytes :: "typed_ref \<Rightarrow> bytes" where
  "tref_to_bytes t = le_bytes 4 (tr_magic t) @ le_bytes 2 (tr_abi_version t) @ le_bytes 2 (tr_kind t)
     @ le_bytes 4 (tr_key_id t) @ le_bytes 4 (tr_schema_id t) @ le_bytes 8 (tr_version t)
     @ desc_bytes (tr_locator t) @ le_bytes 8 (tr_manifest t)"

definition tref_pod_read :: "bytes \<Rightarrow> typed_ref" where
  "tref_pod_read b =
     \<lparr>tr_magic = le_word (take 4 b), tr_abi_version = le_word (take 2 (drop 4 b)), tr_kind = le_word (take 2 (drop 6 b)),
      tr_key_id = le_word (take 4 (drop 8 b)), tr_schema_id = le_word (take 4 (drop 12 b)),
      tr_version = le_word (take 8 (drop 16 b)), tr_locator = desc_of_bytes (take 24 (drop 24 b)),
      tr_manifest = le_word (take 8 (drop 48 b))\<rparr>"

definition tref_from_bytes :: "bytes \<Rightarrow> store_error + typed_ref" where
  "tref_from_bytes b =
     (if length b < TYPED_REF_SIZE then Inl BadEnvelope
      else let t = tref_pod_read (take TYPED_REF_SIZE b) in
        case tref_validate t of Inl e \<Rightarrow> Inl e | Inr _ \<Rightarrow> Inr t)"

datatype resolve_path = FastPath | ByKey

definition resolve_path_of :: "typed_ref \<Rightarrow> resolve_path" where
  "resolve_path_of t = (if has_locator t \<and> schema_id (tr_locator t) = tr_schema_id t then FastPath else ByKey)"

section \<open>Through a chunk\<close>

definition write_typed_ref :: "typed_ref \<Rightarrow> arena \<Rightarrow> (store_error + chunk_desc) \<times> arena" where
  "write_typed_ref t a =
     (case allocator_alloc TYPED_REF_SIZE a of
        (Inl e, a1) \<Rightarrow> (Inl (StoreArrow e), a1)
      | (Inr d, a1) \<Rightarrow>
          (Inr (d\<lparr>schema_id := SCHEMA_TYPED_REF\<rparr>),
           a1\<lparr>ar_bytes := write_bytes (allocator_resolve d) (tref_to_bytes t) (ar_bytes a1)\<rparr>))"

definition read_typed_ref :: "(nat \<Rightarrow> u8) \<Rightarrow> chunk_desc \<Rightarrow> store_error + typed_ref" where
  "read_typed_ref m d =
     (if schema_id d \<noteq> SCHEMA_TYPED_REF then Inl (NotEnvelope (schema_id d))
      else if unat (len d) < TYPED_REF_SIZE then Inl BadEnvelope
      else tref_from_bytes (seg_bytes m (unat (offset d)) TYPED_REF_SIZE))"

section \<open>Lemmas\<close>

interpretation tref_pod: pod 56 tref_to_bytes tref_pod_read
  by unfold_locales (simp_all add: tref_to_bytes_def tref_pod_read_def)

text \<open>What is read back from written bytes depends on those bytes only.\<close>

lemma seg_bytes_written: "seg_bytes (write_bytes off bs m) off (length bs) = bs"
  by (auto simp: seg_bytes_def write_bytes_def intro!: nth_equalityI)

lemma tref_from_to: "tref_from_bytes (tref_to_bytes t @ rest) = (case tref_validate t of Inl e \<Rightarrow> Inl e | Inr _ \<Rightarrow> Inr t)"
  by (simp add: tref_from_bytes_def TYPED_REF_SIZE_def)

lemma tref_made_valid [simp]: "tref_validate (by_key k key schema v) = Inr ()" "tref_validate (resolved k key schema v l m) = Inr ()"
  by (simp_all add: tref_validate_def by_key_def resolved_def)

lemma kind_roundtrip [simp]: "from_u16 (as_u16 k) = Inr k"
  by (cases k) (simp_all add: from_u16_def as_u16_def)

lemma word_bytes_eq:
  assumes "length b = n" "LENGTH('a) = 8 * n"
  shows "le_bytes n (le_word b :: 'a::len word) = b"
proof (rule nth_equalityI)
  show "length (le_bytes n (le_word b :: 'a word)) = length b" using assms by simp
  fix i assume "i < length (le_bytes n (le_word b :: 'a word))"
  then have i: "i < n" by simp
  show "le_bytes n (le_word b :: 'a word) ! i = b ! i"
  proof (rule bit_word_eqI)
    fix k assume k: "k < LENGTH(8)"
    then have "(8 * i + k) div 8 = i" "(8 * i + k) mod 8 = k" "8 * i + k < 8 * n" using i by simp_all
    then show "bit (le_bytes n (le_word b :: 'a word) ! i) k \<longleftrightarrow> bit (b ! i) k"
      using i k assms by (simp add: nth_le_bytes bit_ucast_iff bit_drop_bit_eq bit_le_word add.commute)
  qed
qed

text \<open>There is no padding: every 56 bytes are the bytes of one record.\<close>

lemma desc_bytes_eq: "length b = 24 \<Longrightarrow> desc_bytes (desc_of_bytes b) = b"
  apply (simp add: desc_bytes_def desc_of_bytes_def word_bytes_eq)
  apply (simp add: take_add [symmetric] append_assoc [symmetric] del: append_assoc)
  done

lemma tref_to_pod_read: "length b = 56 \<Longrightarrow> tref_to_bytes (tref_pod_read b) = b"
  apply (simp add: tref_to_bytes_def tref_pod_read_def desc_bytes_eq word_bytes_eq)
  apply (simp add: take_add [symmetric] append_assoc [symmetric] del: append_assoc)
  done

text \<open>
  C38: The envelope codec is exact. Bytes decode to an envelope if and only if they start with the 56 bytes of
  that very envelope and it carries this build's magic and version; so no two envelopes share an
  encoding, no field is lost, and everything shorter or foreign is refused as \<open>BadEnvelope\<close>.
\<close>

theorem envelope_exact:
  "tref_from_bytes b =
     (if \<exists>t rest. b = tref_to_bytes t @ rest \<and> tr_magic t = TYPED_REF_MAGIC \<and> tr_abi_version t = TYPED_REF_ABI_VERSION
      then Inr (tref_pod_read (take 56 b)) else Inl BadEnvelope)
   \<and> (tref_from_bytes b = Inr t \<longleftrightarrow>
        (\<exists>rest. b = tref_to_bytes t @ rest) \<and> tr_magic t = TYPED_REF_MAGIC \<and> tr_abi_version t = TYPED_REF_ABI_VERSION)"
proof (cases "length b < 56")
  case True
  have "b \<noteq> tref_to_bytes u @ rest" for u rest using True by auto
  then show ?thesis using True by (simp add: tref_from_bytes_def TYPED_REF_SIZE_def)
next
  case False
  then have b: "tref_to_bytes (tref_pod_read (take 56 b)) @ drop 56 b = b" by (simp add: tref_to_pod_read)
  have iff: "(\<exists>rest. b = tref_to_bytes u @ rest) \<longleftrightarrow> u = tref_pod_read (take 56 b)" for u
  proof
    assume "\<exists>rest. b = tref_to_bytes u @ rest"
    then show "u = tref_pod_read (take 56 b)" by auto
  qed (metis b)
  have "tref_from_bytes b = (case tref_validate (tref_pod_read (take 56 b)) of Inl e \<Rightarrow> Inl e | Inr _ \<Rightarrow> Inr (tref_pod_read (take 56 b)))"
    using False by (simp add: tref_from_bytes_def TYPED_REF_SIZE_def Let_def)
  then show ?thesis using iff by (auto simp: tref_validate_def)
qed

text \<open>
  C39: An envelope reaches its reader. Writing one takes a chunk nobody held out of the pool and touches no
  other chunk; whatever else then happens in the segment without writing that chunk, the
  descriptor reads back the envelope that was written, field for field.
\<close>

theorem envelope_delivered:
  assumes led: "ledger a A L R" and w: "write_typed_ref t a = (Inr d, b)" and v: "tref_validate t = Inr ()"
  shows "ledger b (insert (offset d) A) L R \<and> offset d \<notin> A \<and> L (offset d) = None \<and> offset d \<notin># R \<and> keeps {offset d} a b
     \<and> (\<forall>K c. keeps K b c \<longrightarrow> offset d \<notin> K \<longrightarrow> read_typed_ref (ar_bytes c) d = Inr t)"
proof -
  obtain e a1 where al: "allocator_alloc 56 a = (Inr e, a1)" and d: "d = e\<lparr>schema_id := SCHEMA_TYPED_REF\<rparr>"
    and b: "b = a1\<lparr>ar_bytes := write_bytes (unat (offset d)) (tref_to_bytes t) (ar_bytes a1)\<rparr>"
    using w by (auto simp: write_typed_ref_def allocator_resolve_def TYPED_REF_SIZE_def split: prod.splits sum.splits)
  note s = ledger_alloc [OF led al, simplified]
  have o: "offset e = offset d" "len e = len d" by (simp_all add: d)
  have l1: "ledger a1 (insert (offset d) A) L R" and k1: "keeps {} a a1" and pl: "offset d \<in> places (ar_pool a)"
    and fits: "56 \<le> csize (ar_pool a) (offset d)" "56 \<le> unat (len d)" using s o by auto
  have pl1: "offset d \<in> places (ar_pool a1)" "csize (ar_pool a1) = csize (ar_pool a)"
    using pl keeps_places [OF k1] same_shape_locate(4) [OF keeps_shape [OF k1]] by simp_all
  have k2: "keeps {offset d} a1 b" unfolding b by (rule keeps_write [OF l1 pl1(1)]) (simp add: fits pl1)
  have lb: "ledger b (insert (offset d) A) L R" using l1 by (simp add: b)
  have plb: "offset d \<in> places (ar_pool b)" "csize (ar_pool b) (offset d) \<ge> 56" using pl1 fits by (simp_all add: b)
  have "read_typed_ref (ar_bytes c) d = Inr t" if "keeps K b c" "offset d \<notin> K" for K c
  proof -
    have "ar_bytes c x = ar_bytes b x" if "unat (offset d) \<le> x" "x < unat (offset d) + 56" for x
      using \<open>keeps K b c\<close> \<open>offset d \<notin> K\<close> plb that unfolding keeps_def by auto
    then have "seg_bytes (ar_bytes c) (unat (offset d)) 56 = seg_bytes (ar_bytes b) (unat (offset d)) 56"
      by (simp add: seg_bytes_def)
    also have "\<dots> = tref_to_bytes t" using seg_bytes_written [of _ "tref_to_bytes t"] by (simp add: b)
    finally show ?thesis using tref_from_to [of t "[]"] v fits(2)
      by (simp add: read_typed_ref_def TYPED_REF_SIZE_def d)
  qed
  moreover have "keeps {offset d} a b" using keeps_trans [OF k1 k2] by simp
  ultimately show ?thesis using lb s o by auto
qed


theorem envelope_delivered_witness:
  "\<exists>d b. write_typed_ref (by_key Dataset 7 16 0) demo_arena = (Inr d, b)
     \<and> ledger b {offset d} Map.empty {#} \<and> read_typed_ref (ar_bytes b) d = Inr (by_key Dataset 7 16 0)"
proof -
  let ?t = "by_key Dataset 7 16 0"
  have "find_class (classes demo_pool) 56 = Some 0" using demo_pool_sizes by (auto simp: map_eq_Cons_conv)
  moreover have "full_lists demo_config ! 0 = 0 # map of_nat [1 ..< 4]" by (simp add: demo_pool_lists all_locals_def upt_conv_Cons)
  ultimately obtain h where "pool_alloc demo_pool 56 = (Inr (desc_of demo_pool 0 0), set_head demo_pool 0 h)"
    using pool_alloc_cases(2) [OF demo_pool_inv, of 56 0] by blast
  then obtain d b where w: "write_typed_ref ?t demo_arena = (Inr d, b)"
    by (simp add: write_typed_ref_def TYPED_REF_SIZE_def allocator_alloc_def demo_arena_def)
  note e = envelope_delivered [OF demo_ledger w]
  have "read_typed_ref (ar_bytes b) d = Inr ?t" by (rule e [THEN conjunct2, THEN conjunct2, THEN conjunct2, THEN conjunct2,
        THEN conjunct2, rule_format, OF _ keeps_refl [of "{}"]]) simp_all
  then show ?thesis using w e by auto
qed

end
