(* ===== verification/Shm_Schema.thy ===== *)
theory Shm_Schema
  imports Shm_Bytes
begin

text \<open>
  Interning. The interface \<open>interner\<close> is what a table that numbers values promises its users; it is
  instantiated here by the schema cache of \<^verbatim>\<open>crates/shm-arrow/src/schema.rs\<close> and in \<open>Shm_Coordinator\<close> by the
  two catalogs of the coordinator. A schema is whatever type the Arrow library has; \<open>ser\<close> stands for that
  library's encoding of one. The counters are 32 bits wide, so every law speaks about a table with room.
\<close>

section \<open>The interface\<close>

locale interner =
  fixes ok :: "'s \<Rightarrow> bool" and room :: "'s \<Rightarrow> nat" and same :: "'v \<Rightarrow> 'v \<Rightarrow> bool"
    and intern :: "'v \<Rightarrow> 's \<Rightarrow> u32 \<times> 's" and lookup :: "u32 \<Rightarrow> 's \<Rightarrow> 'v option"
  assumes same_refl: "same v v"
    and intern_ok: "ok s \<Longrightarrow> 0 < room s \<Longrightarrow> intern v s = (i, s') \<Longrightarrow> ok s' \<and> room s - 1 \<le> room s'"
    and intern_keeps: "ok s \<Longrightarrow> 0 < room s \<Longrightarrow> intern v s = (i, s') \<Longrightarrow> lookup j s = Some w \<Longrightarrow> lookup j s' = Some w"
    and intern_lookup: "ok s \<Longrightarrow> 0 < room s \<Longrightarrow> intern v s = (i, s') \<Longrightarrow> \<exists>w. lookup i s' = Some w \<and> same v w"
    and intern_known: "ok s \<Longrightarrow> lookup i s = Some w \<Longrightarrow> same v w \<Longrightarrow> fst (intern v s) = i"
begin

primrec intern_all :: "'v list \<Rightarrow> 's \<Rightarrow> 's" where
  "intern_all [] s = s"
| "intern_all (v # vs) s = intern_all vs (snd (intern v s))"

lemma intern_all_ok:
  "ok s \<Longrightarrow> length vs \<le> room s \<Longrightarrow> ok (intern_all vs s) \<and> room s - length vs \<le> room (intern_all vs s)
     \<and> (\<forall>j w. lookup j s = Some w \<longrightarrow> lookup j (intern_all vs s) = Some w)"
proof (induction vs arbitrary: s)
  case (Cons v vs)
  obtain i s1 where i: "intern v s = (i, s1)" by fastforce
  have a: "ok s1" "room s - 1 \<le> room s1" using intern_ok [OF Cons.prems(1) _ i] Cons.prems(2) by auto
  then have "ok (intern_all vs s1) \<and> room s1 - length vs \<le> room (intern_all vs s1)
     \<and> (\<forall>j w. lookup j s1 = Some w \<longrightarrow> lookup j (intern_all vs s1) = Some w)"
    using Cons.IH [of s1] Cons.prems(2) by simp
  then show ?case using a intern_keeps [OF Cons.prems(1) _ i] Cons.prems(2) i by auto
qed simp

text \<open>Whatever is interned in between, a value keeps its number, and the number means that value.\<close>

lemma stable:
  assumes "ok s" "length vs < room s" "intern v s = (i, s1)"
  shows "fst (intern v (intern_all vs s1)) = i \<and> (\<exists>w. lookup i (intern_all vs s1) = Some w \<and> same v w)"
proof -
  have a: "ok s1" "length vs \<le> room s1" using intern_ok [OF assms(1) _ assms(3)] assms(2) by auto
  obtain w where w: "lookup i s1 = Some w" "same v w" using intern_lookup [OF assms(1) _ assms(3)] assms(2) by auto
  have b: "ok (intern_all vs s1)" "lookup i (intern_all vs s1) = Some w" using intern_all_ok [OF a] w(1) by blast+
  show ?thesis using intern_known [OF b w(2)] b(2) w(2) by blast
qed

end

section \<open>The content hash\<close>

definition FNV_OFFSET :: u64 where "FNV_OFFSET = 0xcbf29ce484222325"
definition FNV_PRIME :: u64 where "FNV_PRIME = 0x00000100000001b3"
definition RAW_SCHEMA_ID :: u32 where "RAW_SCHEMA_ID = 0"

definition schema_content_hash :: "bytes \<Rightarrow> u64" where
  "schema_content_hash bs = foldl (\<lambda>hash byte. (hash XOR ucast byte) * FNV_PRIME) FNV_OFFSET bs"

section \<open>The schema cache\<close>

record 'schema registry =
  rg_by_id :: "u32 \<rightharpoonup> 'schema"
  rg_by_hash :: "u64 \<rightharpoonup> u32"
  rg_next_id :: u32

definition content_key :: "('schema \<Rightarrow> bytes) \<Rightarrow> 'schema \<Rightarrow> u64" where
  "content_key ser s = schema_content_hash (ser s)"

definition registry_new :: "'schema registry" where
  "registry_new = \<lparr>rg_by_id = Map.empty, rg_by_hash = Map.empty, rg_next_id = 1\<rparr>"

definition registry_intern :: "('schema \<Rightarrow> bytes) \<Rightarrow> 'schema \<Rightarrow> 'schema registry \<Rightarrow> u32 \<times> 'schema registry" where
  "registry_intern ser s r =
     (let key = content_key ser s in
      case rg_by_hash r key of
        Some i \<Rightarrow> (i, r)
      | None \<Rightarrow>
          let i = rg_next_id r in
          (i, r\<lparr>rg_next_id := rg_next_id r + 1, rg_by_hash := (rg_by_hash r)(key \<mapsto> i), rg_by_id := (rg_by_id r)(i \<mapsto> s)\<rparr>))"

definition with_schemas :: "('schema \<Rightarrow> bytes) \<Rightarrow> 'schema list \<Rightarrow> 'schema registry" where
  "with_schemas ser ss = fold (\<lambda>s r. snd (registry_intern ser s r)) ss registry_new"

definition or_insert :: "'k \<Rightarrow> 'v \<Rightarrow> ('k \<rightharpoonup> 'v) \<Rightarrow> ('k \<rightharpoonup> 'v)" where
  "or_insert k v m = (case m k of Some _ \<Rightarrow> m | None \<Rightarrow> m(k \<mapsto> v))"

definition registry_insert :: "('schema \<Rightarrow> bytes) \<Rightarrow> u32 \<Rightarrow> 'schema \<Rightarrow> 'schema registry \<Rightarrow> 'schema registry" where
  "registry_insert ser i s r =
     (if i = RAW_SCHEMA_ID then r
      else let r1 = r\<lparr>rg_by_hash := or_insert (content_key ser s) i (rg_by_hash r), rg_by_id := or_insert i s (rg_by_id r)\<rparr>
           in if i \<ge> rg_next_id r1 then r1\<lparr>rg_next_id := i + 1\<rparr> else r1)"

definition id_for :: "('schema \<Rightarrow> bytes) \<Rightarrow> 'schema \<Rightarrow> 'schema registry \<Rightarrow> u32 option" where
  "id_for ser s r = rg_by_hash r (content_key ser s)"

definition registry_resolve :: "u32 \<Rightarrow> 'schema registry \<Rightarrow> 'schema option" where
  "registry_resolve i r = (if i = RAW_SCHEMA_ID then None else rg_by_id r i)"

section \<open>What the cache guarantees\<close>

definition registry_ok :: "('schema \<Rightarrow> bytes) \<Rightarrow> 'schema registry \<Rightarrow> bool" where
  "registry_ok ser r \<longleftrightarrow> rg_next_id r \<noteq> 0 \<and> (\<forall>i \<in> dom (rg_by_id r). 0 < i \<and> i < rg_next_id r)
     \<and> (\<forall>k i. rg_by_hash r k = Some i \<longrightarrow> (\<exists>s. rg_by_id r i = Some s \<and> content_key ser s = k))"

text \<open>As long as nothing is learned twice, the two maps are inverse.\<close>

definition registry_exact :: "('schema \<Rightarrow> bytes) \<Rightarrow> 'schema registry \<Rightarrow> bool" where
  "registry_exact ser r \<longleftrightarrow> registry_ok ser r \<and> (\<forall>i s. rg_by_id r i = Some s \<longrightarrow> rg_by_hash r (content_key ser s) = Some i)"

definition registry_room :: "'schema registry \<Rightarrow> nat" where
  "registry_room r = 2 ^ 32 - 1 - unat (rg_next_id r)"

lemma registry_okD:
  assumes "registry_ok ser r"
  shows "rg_next_id r \<noteq> 0" "rg_by_id r i = Some s \<Longrightarrow> 0 < i \<and> i < rg_next_id r"
    "rg_by_hash r k = Some i \<Longrightarrow> \<exists>s. rg_by_id r i = Some s \<and> content_key ser s = k"
  using assms unfolding registry_ok_def by blast+

lemma unat_eq_max: "unat (- 1 :: u32) = 2 ^ 32 - 1"
  by (simp add: unsigned_minus_1_eq_mask mask_eq_exp_minus_1)

lemma bump_room:
  assumes "(n :: u32) \<noteq> 0" "0 < 2 ^ 32 - 1 - unat n"
  shows "n + 1 \<noteq> 0" "n < n + 1" "unat (n + 1) = unat n + 1" "i < n \<Longrightarrow> i < n + 1" "0 < n"
proof -
  have n: "n \<noteq> - 1" using assms(2) by (auto simp: unat_eq_max)
  then show u: "unat (n + 1) = unat n + 1" by (simp add: unat_Suc_word)
  show "n + 1 \<noteq> 0" using u by (metis add_is_0 unat_0 zero_neq_one)
  show "n < n + 1" "i < n \<Longrightarrow> i < n + 1" using u by (simp_all add: word_less_nat_alt)
  show "0 < n" using assms(1) word_gt_0 by blast
qed
lemma registry_intern_spec:
  assumes ok: "registry_ok ser r" and room: "0 < registry_room r" and i: "registry_intern ser s r = (i, r')"
  shows "registry_ok ser r'" "rg_by_hash r' (content_key ser s) = Some i"
    "rg_by_id r j = Some t \<Longrightarrow> rg_by_id r' j = Some t" "registry_room r - 1 \<le> registry_room r'"
    "registry_exact ser r \<Longrightarrow> registry_exact ser r'"
proof -
  have "registry_ok ser r' \<and> rg_by_hash r' (content_key ser s) = Some i \<and> (\<forall>j t. rg_by_id r j = Some t \<longrightarrow> rg_by_id r' j = Some t)
    \<and> registry_room r - 1 \<le> registry_room r' \<and> (registry_exact ser r \<longrightarrow> registry_exact ser r')"
  proof (cases "rg_by_hash r (content_key ser s)")
    case (Some k)
    then show ?thesis using i ok by (auto simp: registry_intern_def Let_def)
  next
    case None
    let ?n = "rg_next_id r"
    have r': "i = ?n" "r' = r\<lparr>rg_next_id := ?n + 1, rg_by_hash := (rg_by_hash r)(content_key ser s \<mapsto> ?n), rg_by_id := (rg_by_id r)(?n \<mapsto> s)\<rparr>"
      using i None by (auto simp: registry_intern_def Let_def)
    note b = bump_room [of ?n]
    have n: "?n \<noteq> 0" "0 < 2 ^ 32 - 1 - unat ?n" using ok room by (simp_all add: registry_ok_def registry_room_def)
    have new: "rg_by_id r ?n = None" using ok by (auto simp: registry_ok_def)
    have id': "rg_by_id r' j = (if j = ?n then Some s else rg_by_id r j)" for j by (simp add: r'(2))
    have hash': "rg_by_hash r' k = (if k = content_key ser s then Some ?n else rg_by_hash r k)" for k by (simp add: r'(2))
    have rng: "0 < j \<and> j < ?n + 1" if "rg_by_id r' j = Some t" for j t
      using that registry_okD(2) [OF ok, of j] b(2,4,5) [OF n] unfolding id' by (metis option.inject)
    have hash: "\<exists>t. rg_by_id r' j = Some t \<and> content_key ser t = k" if "rg_by_hash r' k = Some j" for k j
      using that registry_okD(3) [OF ok, of k j] new unfolding hash' id' by (metis option.distinct(1) option.inject)
    have nx: "rg_next_id r' = ?n + 1" by (simp add: r'(2))
    have "registry_ok ser r'"
      unfolding registry_ok_def nx using b(1) [OF n] rng hash by blast
    moreover have "registry_exact ser r \<longrightarrow> registry_exact ser r'"
      using calculation None unfolding registry_exact_def id' hash' by (metis option.distinct(1) option.inject)
    ultimately show ?thesis using new b(3) [OF n] by (auto simp: r' registry_room_def)
  qed
  then show "registry_ok ser r'" "rg_by_hash r' (content_key ser s) = Some i"
    "rg_by_id r j = Some t \<Longrightarrow> rg_by_id r' j = Some t" "registry_room r - 1 \<le> registry_room r'"
    "registry_exact ser r \<Longrightarrow> registry_exact ser r'" by blast+
qed
interpretation reg: interner "registry_exact ser" registry_room "\<lambda>a b. content_key ser a = content_key ser b"
  "registry_intern ser" registry_resolve
proof
  fix r :: "'a registry" and r' s i
  assume ok: "registry_exact ser r" and room: "0 < registry_room r" and i: "registry_intern ser s r = (i, r')"
  have o: "registry_ok ser r" using ok by (simp add: registry_exact_def)
  note sp = registry_intern_spec [OF o room i]
  show "registry_exact ser r' \<and> registry_room r - 1 \<le> registry_room r'" using sp(4,5) ok by simp
  show "registry_resolve j r' = Some w" if "registry_resolve j r = Some w" for j w
    using that sp(3) by (auto simp: registry_resolve_def split: if_splits)
  obtain t where t: "rg_by_id r' i = Some t" "content_key ser t = content_key ser s"
    using registry_okD(3) [OF sp(1,2)] by blast
  moreover have "i \<noteq> RAW_SCHEMA_ID" using registry_okD(2) [OF sp(1) t(1)] by (auto simp: RAW_SCHEMA_ID_def)
  ultimately show "\<exists>w. registry_resolve i r' = Some w \<and> content_key ser s = content_key ser w"
    by (simp add: registry_resolve_def)
next
  fix r :: "'a registry" and i w v
  assume "registry_exact ser r" "registry_resolve i r = Some w" "content_key ser v = content_key ser w"
  then show "fst (registry_intern ser v r) = i"
    by (auto simp: registry_exact_def registry_resolve_def registry_intern_def Let_def split: if_splits)
qed simp
text \<open>
  The states of a cache that interns schemas of its own and learns the coordinator's ids, as long as no learned
  id is one it has already given to another schema.
\<close>

inductive reg_reach :: "('schema \<Rightarrow> bytes) \<Rightarrow> 'schema registry \<Rightarrow> bool" for ser where
  new: "reg_reach ser registry_new"
| intern: "reg_reach ser r \<Longrightarrow> rg_next_id r \<noteq> - 1 \<Longrightarrow> reg_reach ser (snd (registry_intern ser s r))"
| learn: "reg_reach ser r \<Longrightarrow> i \<noteq> - 1 \<Longrightarrow> \<forall>t. rg_by_id r i = Some t \<longrightarrow> content_key ser t = content_key ser s
    \<Longrightarrow> reg_reach ser (registry_insert ser i s r)"

lemma or_insert_eq: "or_insert k v m j = (if j = k \<and> m k = None then Some v else m j)"
  by (cases "m k") (auto simp: or_insert_def)

lemma registry_insert_ok:
  assumes ok: "registry_ok ser r" and i: "i \<noteq> - 1" and agree: "\<forall>t. rg_by_id r i = Some t \<longrightarrow> content_key ser t = content_key ser s"
  shows "registry_ok ser (registry_insert ser i s r)"
proof (cases "i = 0")
  case True
  then show ?thesis using ok by (simp add: registry_insert_def RAW_SCHEMA_ID_def)
next
  case False
  let ?r = "registry_insert ser i s r"
  have u: "unat (i + 1) = unat i + 1" using i by (simp add: unat_Suc_word)
  have eq: "rg_by_hash ?r = or_insert (content_key ser s) i (rg_by_hash r)" "rg_by_id ?r = or_insert i s (rg_by_id r)"
    "rg_next_id ?r = (if i \<ge> rg_next_id r then i + 1 else rg_next_id r)"
    using False by (simp_all add: registry_insert_def RAW_SCHEMA_ID_def Let_def)
  have next0: "rg_next_id ?r \<noteq> 0" using ok u unfolding eq registry_ok_def by (metis add_is_0 unat_0 zero_neq_one)
  have up: "j < rg_next_id ?r" if "j < rg_next_id r \<or> j = i" for j
    using that u unfolding eq by (auto simp: word_less_nat_alt word_le_nat_alt)
  have "0 < j \<and> j < rg_next_id ?r" if "j \<in> dom (rg_by_id ?r)" for j
  proof (cases "rg_by_id r j")
    case None
    then have "j = i" using that by (auto simp: eq or_insert_eq split: if_splits)
    then show ?thesis using up [of i] False word_gt_0 by blast
  next
    case (Some t)
    then show ?thesis using registry_okD(2) [OF ok Some] up [of j] by blast
  qed
  moreover have "\<exists>t. rg_by_id ?r j = Some t \<and> content_key ser t = k" if "rg_by_hash ?r k = Some j" for k j
  proof (cases "k = content_key ser s \<and> rg_by_hash r k = None")
    case True
    then have "j = i" using that by (auto simp: eq or_insert_eq)
    show ?thesis
    proof (cases "rg_by_id r i")
      case None
      then show ?thesis using True \<open>j = i\<close> by (simp add: eq or_insert_eq)
    next
      case (Some t)
      then show ?thesis using True \<open>j = i\<close> agree by (simp add: eq or_insert_eq)
    qed
  next
    case False
    then have "rg_by_hash r k = Some j" using that by (auto simp: eq or_insert_eq split: if_splits)
    then obtain t where "rg_by_id r j = Some t" "content_key ser t = k" using registry_okD(3) [OF ok] by blast
    then show ?thesis by (auto simp: eq or_insert_eq)
  qed
  ultimately show ?thesis using next0 by (simp add: registry_ok_def)
qed

lemma reg_reach_ok: "reg_reach ser r \<Longrightarrow> registry_ok ser r"
proof (induction rule: reg_reach.induct)
  case new
  show ?case by (simp add: registry_ok_def registry_new_def)
next
  case (intern r s)
  obtain i r' where i: "registry_intern ser s r = (i, r')" by fastforce
  have "unat (rg_next_id r) \<noteq> 2 ^ 32 - 1" using intern.hyps(2) by (simp add: word_unat_eq_iff unat_eq_max)
  then have "0 < registry_room r" using unat_u32_less [of "rg_next_id r"] by (simp add: registry_room_def)
  then show ?case using registry_intern_spec(1) [OF intern.IH _ i] i by simp
next
  case (learn r i s)
  then show ?case by (intro registry_insert_ok)
qed

text \<open>
  C40: The schema cache never gives a schema an id that means something else: whatever it interned itself and
  learned from the coordinator, provided no id it learned was already its own for another schema, the id it
  answers for a schema is not the raw id, and resolving it gives a schema with the same content hash.
\<close>

theorem registry_faithful:
  assumes "reg_reach ser r" "id_for ser s r = Some i"
  shows "i \<noteq> RAW_SCHEMA_ID \<and> (\<exists>t. registry_resolve i r = Some t \<and> content_key ser t = content_key ser s)"
proof -
  have ok: "registry_ok ser r" by (rule reg_reach_ok [OF assms(1)])
  then obtain t where t: "rg_by_id r i = Some t" "content_key ser t = content_key ser s"
    using registry_okD(3) [OF ok] assms(2) unfolding id_for_def by blast
  then have "i \<noteq> RAW_SCHEMA_ID" using registry_okD(2) [OF ok t(1)] by (auto simp: RAW_SCHEMA_ID_def)
  then show ?thesis using t by (simp add: registry_resolve_def)
qed

theorem registry_faithful_witness:
  "id_for id [7] (snd (registry_intern id [7] registry_new)) = Some 1
   \<and> (\<exists>t. registry_resolve 1 (snd (registry_intern id [7] registry_new)) = Some t \<and> content_key id t = content_key id [7])"
proof -
  have r: "reg_reach id (snd (registry_intern id [7] registry_new))"
    by (intro reg_reach.intern reg_reach.new) (simp add: registry_new_def)
  have i: "id_for id [7] (snd (registry_intern id [7] registry_new)) = Some 1"
    by (simp add: id_for_def registry_intern_def registry_new_def Let_def)
  show ?thesis using registry_faithful [OF r i] i by blast
qed

text \<open>
  Without that proviso the cache answers wrongly. A cache that has interned sixteen schemas of its own has given
  out id 16, the first id the coordinator issues; when it then learns the coordinator's schema 16, it stamps that
  schema with id 16 and resolves id 16 to its own sixteenth schema.
\<close>

theorem insert_misresolves:
  "id_for id [99] (registry_insert id 16 [99] (with_schemas id (map (\<lambda>n. [of_nat n]) [0..<16]))) = Some 16
   \<and> registry_resolve 16 (registry_insert id 16 [99] (with_schemas id (map (\<lambda>n. [of_nat n]) [0..<16]))) = Some [15]"
  by code_simp

end
