(* ===== verification/Shm_Artifact_Inv.thy ===== *)
theory Shm_Artifact_Inv
  imports Shm_Commit
begin

text \<open>
  The head of an artifact over its data segment. A live version holds one reference, on its manifest; every
  other reference is owned by a manifest. Shown: retiring a version, pinning it and dropping the pin keep
  this account.
\<close>

section \<open>The account of an artifact\<close>

definition slot_ref :: "pin_slot \<Rightarrow> u32 multiset" where
  "slot_ref sl = (if ps_state sl = SLOT_LIVE then {#ref_offset (ps_manifest sl)#} else {#})"

definition live_refs :: "pin_slot list \<Rightarrow> u32 multiset" where
  "live_refs sls = sum_list (map slot_ref sls)"

text \<open>\<open>n\<close> is the number of pins held on the slot.\<close>

definition slot_ok :: "(u32 \<rightharpoonup> manifest) \<Rightarrow> pin_slot \<Rightarrow> nat \<Rightarrow> bool" where
  "slot_ok ms sl n \<longleftrightarrow> unat (ps_pins sl) = n
     \<and> (ps_state sl = SLOT_FREE \<and> n = 0
        \<or> ps_state sl = SLOT_LIVE \<and> ps_version sl \<noteq> 0
            \<and> (\<exists>m. ms (ref_offset (ps_manifest sl)) = Some m \<and> mf_version m = ps_version sl))"

definition live_at :: "artifact_head \<Rightarrow> nat \<Rightarrow> bool" where
  "live_at h i \<longleftrightarrow> i < length (ah_pins h) \<and> ps_state (ah_pins h ! i) = SLOT_LIVE"

definition head_ok :: "artifact_head \<Rightarrow> (u32 \<rightharpoonup> manifest) \<Rightarrow> (nat \<Rightarrow> nat) \<Rightarrow> bool" where
  "head_ok h ms cnt \<longleftrightarrow> length (ah_pins h) = MAX_LIVE_VERSIONS
     \<and> (\<forall>i < length (ah_pins h). slot_ok ms (ah_pins h ! i) (cnt i))
     \<and> (\<forall>i j. live_at h i \<and> live_at h j \<and> ps_version (ah_pins h ! i) = ps_version (ah_pins h ! j) \<longrightarrow> i = j)
     \<and> (\<forall>i. live_at h i \<and> ah_current h \<noteq> NO_VERSION \<longrightarrow> ps_version (ah_pins h ! i) \<le> ah_current h)
     \<and> (ah_current h \<noteq> NO_VERSION \<longrightarrow>
          (\<exists>i. live_at h i \<and> ps_version (ah_pins h ! i) = ah_current h \<and> ps_manifest (ah_pins h ! i) = ah_manifest_desc h))
     \<and> (ah_current h = NO_VERSION \<longrightarrow> ah_manifest_desc h = 0)"

text \<open>No version is kept that is neither current nor pinned.\<close>

definition settled :: "artifact_head \<Rightarrow> (nat \<Rightarrow> nat) \<Rightarrow> nat set \<Rightarrow> bool" where
  "settled h cnt S \<longleftrightarrow> (\<forall>i. i \<notin> S \<longrightarrow> live_at h i \<longrightarrow> ps_version (ah_pins h ! i) \<noteq> ah_current h \<longrightarrow> 0 < cnt i)"

definition core :: "u32 \<Rightarrow> artifact_state \<Rightarrow> (u32 \<rightharpoonup> u32) \<Rightarrow> (u32 \<rightharpoonup> manifest) \<Rightarrow> (nat \<Rightarrow> nat) \<Rightarrow> bool" where
  "core name s L ms cnt \<longleftrightarrow> held_by (as_arena s) {} L (live_refs (ah_pins (as_head s))) ms \<and> chains name ms
     \<and> head_ok (as_head s) ms cnt \<and> length (ctrls (ar_pool (as_arena s))) < 2 ^ 30"

lemma coreD:
  assumes "core name s L ms cnt"
  shows "held_by (as_arena s) {} L (live_refs (ah_pins (as_head s))) ms" "chains name ms" "head_ok (as_head s) ms cnt"
    "length (ctrls (ar_pool (as_arena s))) < 2 ^ 30"
  using assms by (simp_all add: core_def)

lemma head_okD:
  assumes "head_ok h ms cnt"
  shows "length (ah_pins h) = MAX_LIVE_VERSIONS" "i < length (ah_pins h) \<Longrightarrow> slot_ok ms (ah_pins h ! i) (cnt i)"
    "live_at h i \<Longrightarrow> live_at h j \<Longrightarrow> ps_version (ah_pins h ! i) = ps_version (ah_pins h ! j) \<Longrightarrow> i = j"
    "live_at h i \<Longrightarrow> ah_current h \<noteq> NO_VERSION \<Longrightarrow> ps_version (ah_pins h ! i) \<le> ah_current h"
    "ah_current h = NO_VERSION \<Longrightarrow> ah_manifest_desc h = 0"
    "ah_current h \<noteq> NO_VERSION \<Longrightarrow>
       \<exists>i. live_at h i \<and> ps_version (ah_pins h ! i) = ah_current h \<and> ps_manifest (ah_pins h ! i) = ah_manifest_desc h"
  using assms unfolding head_ok_def by blast+

lemma live_slot:
  assumes "head_ok h ms cnt" "live_at h i"
  obtains m where "ms (ref_offset (ps_manifest (ah_pins h ! i))) = Some m" "mf_version m = ps_version (ah_pins h ! i)"
    "ps_version (ah_pins h ! i) \<noteq> 0" "i < length (ah_pins h)"
  using assms head_okD(2) [OF assms(1), of i] by (auto simp: live_at_def slot_ok_def pin_states)

section \<open>The pin table\<close>

lemma live_refs_update:
  "i < length sls \<Longrightarrow> live_refs (sls[i := sl]) + slot_ref (sls ! i) = live_refs sls + slot_ref sl"
proof (induction sls arbitrary: i)
  case (Cons x xs)
  then show ?case by (cases i) (auto simp: live_refs_def ac_simps)
qed simp

lemma live_refs_same: "i < length sls \<Longrightarrow> slot_ref sl = slot_ref (sls ! i) \<Longrightarrow> live_refs (sls[i := sl]) = live_refs sls"
  using live_refs_update [of i sls sl] by simp

lemma live_refs_member: "live_at h i \<Longrightarrow> ref_offset (ps_manifest (ah_pins h ! i)) \<in># live_refs (ah_pins h)"
  using live_refs_update [of i "ah_pins h" "store_free (ah_pins h ! i)"]
  by (auto simp: live_at_def slot_ref_def store_free_def pin_states dest: arg_cong [of _ _ "\<lambda>M. ref_offset (ps_manifest (ah_pins h ! i)) \<in># M"])

lemma count_live_refs: "count (live_refs sls) x \<le> length sls"
  by (induction sls) (auto simp: live_refs_def slot_ref_def)

lemma first_slot_cases:
  "case first_slot P k sls of None \<Rightarrow> \<forall>sl \<in> set sls. \<not> P sl | Some i \<Rightarrow> k \<le> i \<and> i < k + length sls \<and> P (sls ! (i - k))"
proof (induction P k sls rule: first_slot.induct)
  case (2 P k s ss)
  show ?case
  proof (cases "P s")
    case False
    then show ?thesis using 2 by (auto split: option.splits simp: nth_Cons')
  qed simp
qed simp

lemma first_slot_Some: "first_slot P 0 sls = Some i \<Longrightarrow> i < length sls \<and> P (sls ! i)"
  using first_slot_cases [where P = P and k = 0 and sls = sls] by simp

lemma first_slot_None: "first_slot P 0 sls = None \<Longrightarrow> sl \<in> set sls \<Longrightarrow> \<not> P sl"
  using first_slot_cases [where P = P and k = 0 and sls = sls] by simp

lemma find_slot_live:
  assumes ok: "head_ok h ms cnt"
  shows "find_slot v h = Some i \<longleftrightarrow> live_at h i \<and> ps_version (ah_pins h ! i) = v"
proof
  assume "find_slot v h = Some i"
  then show "live_at h i \<and> ps_version (ah_pins h ! i) = v" by (auto simp: find_slot_def live_at_def dest: first_slot_Some)
next
  assume i: "live_at h i \<and> ps_version (ah_pins h ! i) = v"
  show "find_slot v h = Some i"
  proof (cases "find_slot v h")
    case None
    then show ?thesis using i first_slot_None [of _ "ah_pins h" "ah_pins h ! i"] by (auto simp: find_slot_def live_at_def)
  next
    case (Some j)
    then have "live_at h j \<and> ps_version (ah_pins h ! j) = v" by (auto simp: find_slot_def live_at_def dest: first_slot_Some)
    then show ?thesis using Some i head_okD(3) [OF ok] by metis
  qed
qed

lemma find_slot_with_manifest_live:
  assumes ok: "head_ok h ms cnt" and i: "live_at h i" "ps_version (ah_pins h ! i) = v" "ps_manifest (ah_pins h ! i) = bits"
  shows "find_slot_with_manifest v bits h = Some i"
proof (cases "find_slot_with_manifest v bits h")
  case None
  then show ?thesis using i first_slot_None [of _ "ah_pins h" "ah_pins h ! i"] by (auto simp: find_slot_with_manifest_def live_at_def)
next
  case (Some j)
  then have "live_at h j \<and> ps_version (ah_pins h ! j) = v"
    by (auto simp: find_slot_with_manifest_def live_at_def dest: first_slot_Some)
  then show ?thesis using Some i head_okD(3) [OF ok] by metis
qed
section \<open>Retiring a version\<close>

lemma live_at_free:
  assumes "k < length (ah_pins h)"
  shows "live_at (h\<lparr>ah_pins := (ah_pins h)[k := store_free x]\<rparr>) i \<longleftrightarrow> live_at h i \<and> i \<noteq> k"
  using assms by (auto simp: live_at_def store_free_def pin_states nth_list_update)

lemma head_ok_free:
  assumes ok: "head_ok h ms cnt" and k: "live_at h k" "cnt k = 0" "ps_version (ah_pins h ! k) \<noteq> ah_current h"
    and x: "ps_pins x = ps_pins (ah_pins h ! k)"
    and ms: "\<And>j. live_at h j \<Longrightarrow> j \<noteq> k \<Longrightarrow> ms' (ref_offset (ps_manifest (ah_pins h ! j))) = ms (ref_offset (ps_manifest (ah_pins h ! j)))"
  shows "head_ok (h\<lparr>ah_pins := (ah_pins h)[k := store_free x]\<rparr>) ms' cnt"
proof -
  have kl: "k < length (ah_pins h)" using k(1) by (simp add: live_at_def)
  let ?h = "h\<lparr>ah_pins := (ah_pins h)[k := store_free x]\<rparr>"
  have live: "live_at ?h i \<longleftrightarrow> live_at h i \<and> i \<noteq> k" for i by (rule live_at_free [OF kl])
  have nth: "ah_pins ?h ! i = ah_pins h ! i" if "i \<noteq> k" for i using that by simp
  have slot: "slot_ok ms' (ah_pins ?h ! i) (cnt i)" if i: "i < length (ah_pins ?h)" for i
  proof (cases "i = k")
    case True
    then show ?thesis using kl k(2) x head_okD(2) [OF ok kl] by (simp add: slot_ok_def store_free_def)
  next
    case False
    then show ?thesis using head_okD(2) [OF ok, of i] ms [of i] i by (auto simp: slot_ok_def live_at_def)
  qed
  have cur: "\<exists>i. live_at ?h i \<and> ps_version (ah_pins ?h ! i) = ah_current ?h \<and> ps_manifest (ah_pins ?h ! i) = ah_manifest_desc ?h"
    if c: "ah_current ?h \<noteq> NO_VERSION"
  proof -
    obtain i where i: "live_at h i" "ps_version (ah_pins h ! i) = ah_current h" "ps_manifest (ah_pins h ! i) = ah_manifest_desc h"
      using head_okD(6) [OF ok] c by auto
    then have "i \<noteq> k" using k(3) by auto
    then show ?thesis using i live nth by (intro exI [of _ i]) simp
  qed
  show ?thesis
    unfolding head_ok_def
    using slot cur live nth head_okD(1,5) [OF ok] head_okD(3) [OF ok] head_okD(4) [OF ok] by auto
qed

lemma try_retire_spec:
  fixes v bits
  assumes inv: "core name s L ms cnt"
    and found: "(case bits of Some b \<Rightarrow> find_slot_with_manifest v b (as_head s) | None \<Rightarrow> find_slot v (as_head s)) = Some k"
  obtains (kept) "try_retire_version_at v bits s = s" "ah_current (as_head s) = v \<or> cnt k \<noteq> 0"
  | (freed) a' ms' x where "try_retire_version_at v bits s
        = s\<lparr>as_arena := a', as_head := (as_head s)\<lparr>ah_pins := (ah_pins (as_head s))[k := store_free x]\<rparr>\<rparr>"
      "core name (try_retire_version_at v bits s) L ms' cnt" "ms' \<subseteq>\<^sub>m ms" "ah_current (as_head s) \<noteq> v" "cnt k = 0"
      "keeps (spare L (live_refs (ah_pins (as_head (try_retire_version_at v bits s))) + refs_of ms')) (as_arena s) a'"
proof -
  note c = coreD [OF inv]
  let ?h = "as_head s" and ?sl = "ah_pins (as_head s) ! k" and ?a = "as_arena s"
  have k: "live_at ?h k" "ps_version ?sl = v"
    using found by (auto simp: find_slot_def find_slot_with_manifest_def live_at_def split: option.splits dest!: first_slot_Some)
  then have kl: "k < length (ah_pins ?h)" "ps_state ?sl = SLOT_LIVE" by (simp_all add: live_at_def)
  have pins: "unat (ps_pins ?sl) = cnt k" using head_okD(2) [OF c(3) kl(1)] by (simp add: slot_ok_def)
  define x where "x = ?sl\<lparr>ps_state := SLOT_FREEING\<rparr>"
  have el: "elect_freeing (head_slot_at k s) = (True, x)"
    using kl(2) by (simp add: elect_freeing_def compare_exchange_def head_slot_at_def x_def)
  have rv: "revert_live x = ?sl" using kl(2) by (simp add: revert_live_def x_def)
  show thesis
  proof (cases "ah_current ?h = v \<or> cnt k \<noteq> 0")
    case True
    then have "try_retire_version_at v bits s = s"
      using found el rv pins kl(1)
      by (auto simp: try_retire_version_at_def pin_scan_def x_def set_slot_at_def split: option.splits)
    then show thesis using kept True by blast
  next
    case False
    define b where "b = release_manifest_ref (ps_manifest ?sl) None ?a"
    define sls where "sls = (ah_pins ?h)[k := store_free x]"
    define s' where "s' = s\<lparr>as_arena := b, as_head := ?h\<lparr>ah_pins := sls\<rparr>\<rparr>"
    have "ps_pins x = 0" using pins False by (simp add: x_def unat_eq_zero)
    then have eq: "try_retire_version_at v bits s = s'"
      using found el False by (auto simp: try_retire_version_at_def pin_scan_def set_slot_at_def s'_def sls_def b_def x_def split: option.splits)
    let ?off = "ref_offset (ps_manifest ?sl)"
    have lr: "live_refs (ah_pins ?h) = add_mset ?off (live_refs sls)"
      using live_refs_update [OF kl(1), of "store_free x"] kl(2) by (simp add: sls_def slot_ref_def store_free_def pin_states)
    obtain m where m: "ms ?off = Some m" by (rule live_slot [OF c(3) k(1)])
    have "held_by ?a {} L (add_mset ?off (live_refs sls)) ms" using c(1) by (simp add: lr)
    then obtain ms' where ms': "held_by b {} L (live_refs sls) ms'" "ms' \<subseteq>\<^sub>m ms" "keeps (spare L (live_refs sls + refs_of ms')) ?a b"
      "(dom ms - dom ms') \<inter> set_mset (live_refs sls + refs_of ms') = {}"
      using cascade_exact [of ?a "{}" L "ps_manifest ?sl" "live_refs sls" ms None] m unfolding b_def by auto
    have other: "ms' (ref_offset (ps_manifest (ah_pins ?h ! j))) = ms (ref_offset (ps_manifest (ah_pins ?h ! j)))"
      if j: "live_at ?h j" "j \<noteq> k" for j
    proof -
      let ?o = "ref_offset (ps_manifest (ah_pins ?h ! j))"
      have "live_at (?h\<lparr>ah_pins := sls\<rparr>) j" using j live_at_free [OF kl(1), of x j] by (simp add: sls_def)
      then have "?o \<in># live_refs sls" using live_refs_member [of "?h\<lparr>ah_pins := sls\<rparr>" j] j(2) by (simp add: sls_def)
      moreover have "?o \<in> dom ms" using live_slot [OF c(3) j(1)] by auto
      ultimately have "?o \<in> dom ms'" using ms'(4) by auto
      then show ?thesis using ms'(2) by (simp add: map_le_def)
    qed
    have "head_ok (?h\<lparr>ah_pins := sls\<rparr>) ms' cnt" unfolding sls_def
      by (rule head_ok_free [OF c(3) k(1)]) (use False k(2) other in \<open>auto simp: x_def\<close>)
    moreover have "chains name ms'"
      by (rule chains_sub [OF c(2) ms'(2)]) (rule manifestsD(7) [OF held_byD(2) [OF ms'(1)]])
    moreover have "length (ctrls (ar_pool b)) = length (ctrls (ar_pool ?a))"
      using keeps_shape [OF ms'(3)] by (simp add: same_shape_def)
    ultimately have "core name s' L ms' cnt" using ms'(1) c(4) by (simp add: core_def s'_def)
    then show thesis using freed [where a' = b and x = x and ms' = ms'] eq ms'(2,3) False by (simp add: s'_def sls_def)
  qed
qed
section \<open>Pins and staged chunks\<close>

definition pin_count :: "version_pin list \<Rightarrow> nat \<Rightarrow> nat" where
  "pin_count hs i = length (filter (\<lambda>p. vp_slot p = i) hs)"

definition held_pin :: "artifact_state \<Rightarrow> (u32 \<rightharpoonup> manifest) \<Rightarrow> version_pin \<Rightarrow> bool" where
  "held_pin s ms p \<longleftrightarrow> live_at (as_head s) (vp_slot p) \<and> ps_version (head_slot_at (vp_slot p) s) = vp_version p
     \<and> ms (ref_offset (ps_manifest (head_slot_at (vp_slot p) s))) = Some (vp_manifest p)"

text \<open>
  The account of an artifact: \<open>ds\<close> are the chunks that writers have staged, \<open>hs\<close> the pins that readers hold,
  \<open>ms\<close> the manifests in the segment.
\<close>

definition staged_ok :: "arena \<Rightarrow> (u32 \<rightharpoonup> u32) \<Rightarrow> chunk_desc list \<Rightarrow> bool" where
  "staged_ok a L ds \<longleftrightarrow> dom L = offset ` set ds \<and> distinct (map offset ds) \<and> (\<forall>d \<in> set ds. generation d = gen_at a (offset d))"

definition art_inv :: "u32 \<Rightarrow> artifact_state \<Rightarrow> (u32 \<rightharpoonup> u32) \<Rightarrow> chunk_desc list \<Rightarrow> version_pin list \<Rightarrow> (u32 \<rightharpoonup> manifest) \<Rightarrow> bool" where
  "art_inv name s L ds hs ms \<longleftrightarrow> core name s L ms (pin_count hs) \<and> settled (as_head s) (pin_count hs) {}
     \<and> (\<forall>p \<in> set hs. held_pin s ms p) \<and> staged_ok (as_arena s) L ds"

lemma art_invD:
  assumes "art_inv name s L ds hs ms"
  shows "core name s L ms (pin_count hs)" "settled (as_head s) (pin_count hs) {}" "\<forall>p \<in> set hs. held_pin s ms p" "staged_ok (as_arena s) L ds"
  using assms by (simp_all add: art_inv_def)

text \<open>The account does not depend on the lease, the schema, the journal and the events.\<close>

lemma core_cong:
  "as_arena s' = as_arena s \<Longrightarrow> ah_pins (as_head s') = ah_pins (as_head s) \<Longrightarrow> ah_current (as_head s') = ah_current (as_head s)
     \<Longrightarrow> ah_manifest_desc (as_head s') = ah_manifest_desc (as_head s) \<Longrightarrow> core name s' L ms cnt \<longleftrightarrow> core name s L ms cnt"
  by (simp add: core_def head_ok_def live_at_def)

lemma art_inv_cong:
  "as_arena s' = as_arena s \<Longrightarrow> ah_pins (as_head s') = ah_pins (as_head s) \<Longrightarrow> ah_current (as_head s') = ah_current (as_head s)
     \<Longrightarrow> ah_manifest_desc (as_head s') = ah_manifest_desc (as_head s) \<Longrightarrow> art_inv name s' L ds hs ms \<longleftrightarrow> art_inv name s L ds hs ms"
  using core_cong [of s' s] by (simp add: art_inv_def settled_def live_at_def held_pin_def head_slot_at_def)

lemma art_inv_journal [simp]:
  "art_inv name (s\<lparr>as_journal := j\<rparr>) L ds hs ms \<longleftrightarrow> art_inv name s L ds hs ms"
  "art_inv name (s\<lparr>as_events := es\<rparr>) L ds hs ms \<longleftrightarrow> art_inv name s L ds hs ms"
  "art_inv name (s\<lparr>as_head := (as_head s)\<lparr>ah_write_lease := l\<rparr>\<rparr>) L ds hs ms \<longleftrightarrow> art_inv name s L ds hs ms"
  by (rule art_inv_cong; simp)+

lemma staged_kept:
  assumes "staged_ok a L ds" "keeps (spare L R) a b" "ledger a A L R'"
  shows "staged_ok b L ds"
proof -
  have "gen_at b (offset d) = gen_at a (offset d)" if "d \<in> set ds" for d
  proof -
    have "offset d \<in> dom L" using assms(1) that by (auto simp: staged_ok_def)
    then show ?thesis using keeps_gen [OF assms(2)] ledger_loans [OF assms(3)] by auto
  qed
  then show ?thesis using assms(1) by (simp add: staged_ok_def)
qed

text \<open>
  How an operation moves an artifact on: what stays of the manifests, and what the segment keeps. The chunks
  that staged data and live versions refer to are untouched.
\<close>

definition moves :: "artifact_state \<Rightarrow> (u32 \<rightharpoonup> manifest) \<Rightarrow> artifact_state \<Rightarrow> (u32 \<rightharpoonup> manifest) \<Rightarrow> (u32 \<rightharpoonup> u32) \<Rightarrow> bool" where
  "moves s ms s' ms' L \<longleftrightarrow> ms' \<subseteq>\<^sub>m ms \<and> keeps (spare L (live_refs (ah_pins (as_head s')) + refs_of ms')) (as_arena s) (as_arena s')
     \<and> live_refs (ah_pins (as_head s')) \<subseteq># live_refs (ah_pins (as_head s))
     \<and> ah_current (as_head s') = ah_current (as_head s) \<and> ah_manifest_desc (as_head s') = ah_manifest_desc (as_head s)"

lemma moves_refl: "as_arena s' = as_arena s \<Longrightarrow> live_refs (ah_pins (as_head s')) = live_refs (ah_pins (as_head s))
    \<Longrightarrow> ah_current (as_head s') = ah_current (as_head s)
    \<Longrightarrow> ah_manifest_desc (as_head s') = ah_manifest_desc (as_head s) \<Longrightarrow> moves s ms s' ms L"
  by (simp add: moves_def map_le_def)

lemma retire_step:
  assumes inv: "core name s L ms (pin_count hs)" and st: "settled (as_head s) (pin_count hs) S"
    and found: "(case bits of Some b \<Rightarrow> find_slot_with_manifest v b (as_head s) | None \<Rightarrow> find_slot v (as_head s)) = Some k"
    and hs: "\<forall>p \<in> set hs. held_pin s ms p" and ds: "staged_ok (as_arena s) L ds"
  obtains ms' where "core name (try_retire_version_at v bits s) L ms' (pin_count hs)"
    "settled (as_head (try_retire_version_at v bits s)) (pin_count hs) (S - {k})" "\<forall>p \<in> set hs. held_pin (try_retire_version_at v bits s) ms' p"
    "staged_ok (as_arena (try_retire_version_at v bits s)) L ds" "moves s ms (try_retire_version_at v bits s) ms' L"
proof -
  have k: "live_at (as_head s) k" "ps_version (ah_pins (as_head s) ! k) = v"
    using found by (auto simp: find_slot_def find_slot_with_manifest_def live_at_def split: option.splits dest!: first_slot_Some)
  show thesis
  proof (rule try_retire_spec [OF inv found])
    assume r: "try_retire_version_at v bits s = s" "ah_current (as_head s) = v \<or> pin_count hs k \<noteq> 0"
    have "0 < pin_count hs i" if "i \<notin> S - {k}" "live_at (as_head s) i" "ps_version (ah_pins (as_head s) ! i) \<noteq> ah_current (as_head s)" for i
      using that st r(2) k by (cases "i = k") (auto simp: settled_def)
    then have "settled (as_head s) (pin_count hs) (S - {k})" unfolding settled_def by blast
    then show thesis using that [of ms] inv hs ds moves_refl [of s s] by (simp add: r(1))
  next
    fix a' ms' x
    let ?s' = "try_retire_version_at v bits s"
    assume f: "?s' = s\<lparr>as_arena := a', as_head := (as_head s)\<lparr>ah_pins := (ah_pins (as_head s))[k := store_free x]\<rparr>\<rparr>"
      "core name ?s' L ms' (pin_count hs)" "ms' \<subseteq>\<^sub>m ms" "ah_current (as_head s) \<noteq> v" "pin_count hs k = 0"
      "keeps (spare L (live_refs (ah_pins (as_head ?s')) + refs_of ms')) (as_arena s) a'"
    have kl: "k < length (ah_pins (as_head s))" using k(1) by (simp add: live_at_def)
    have live: "live_at (as_head ?s') i \<longleftrightarrow> live_at (as_head s) i \<and> i \<noteq> k" for i
      unfolding f(1) using live_at_free [OF kl, of x i] by simp
    have nth: "ah_pins (as_head ?s') ! i = ah_pins (as_head s) ! i" if "i \<noteq> k" for i using that by (simp add: f(1))
    have cur: "ah_current (as_head ?s') = ah_current (as_head s)" "ah_manifest_desc (as_head ?s') = ah_manifest_desc (as_head s)"
      by (simp_all add: f(1))
    have "settled (as_head ?s') (pin_count hs) (S - {k})" using st live nth cur by (auto simp: settled_def)
    moreover have "held_pin ?s' ms' p" if p: "p \<in> set hs" for p
    proof -
      have hp: "held_pin s ms p" using hs p by blast
      have "vp_slot p \<noteq> k" using f(5) p by (auto simp: pin_count_def filter_empty_conv)
      then have lv: "live_at (as_head ?s') (vp_slot p)" and eq: "head_slot_at (vp_slot p) ?s' = head_slot_at (vp_slot p) s"
        using hp live nth by (auto simp: held_pin_def head_slot_at_def)
      obtain m where "ms' (ref_offset (ps_manifest (head_slot_at (vp_slot p) s))) = Some m"
        using live_slot [OF coreD(3) [OF f(2)] lv] eq by (metis head_slot_at_def)
      then have "ms' (ref_offset (ps_manifest (head_slot_at (vp_slot p) s))) = Some (vp_manifest p)"
        using hp f(3) by (auto simp: held_pin_def map_le_def dom_def)
      then show ?thesis using hp lv eq by (simp add: held_pin_def)
    qed
    moreover have "staged_ok a' L ds" by (rule staged_kept [OF ds f(6) held_byD(1) [OF coreD(1) [OF inv]]])
    moreover have "live_refs (ah_pins (as_head ?s')) \<subseteq># live_refs (ah_pins (as_head s))"
      using live_refs_update [OF kl, of "store_free x"] by (simp add: f(1) slot_ref_def store_free_def pin_states) (metis mset_subset_eq_add_left)
    ultimately show thesis using that [of ms'] f cur by (simp add: moves_def)
  qed
qed

text \<open>Retiring the one version that may be left over.\<close>

lemma retire_settles:
  assumes "core name s L ms (pin_count hs)" "settled (as_head s) (pin_count hs) {k}"
    "(case bits of Some b \<Rightarrow> find_slot_with_manifest v b (as_head s) | None \<Rightarrow> find_slot v (as_head s)) = Some k"
    "\<forall>p \<in> set hs. held_pin s ms p" "staged_ok (as_arena s) L ds"
  obtains ms' where "art_inv name (try_retire_version_at v bits s) L ds hs ms'" "moves s ms (try_retire_version_at v bits s) ms' L"
proof (rule retire_step [OF assms])
  fix ms'
  assume "core name (try_retire_version_at v bits s) L ms' (pin_count hs)"
    "settled (as_head (try_retire_version_at v bits s)) (pin_count hs) ({k} - {k})" "\<forall>p \<in> set hs. held_pin (try_retire_version_at v bits s) ms' p"
    "staged_ok (as_arena (try_retire_version_at v bits s)) L ds" and m: "moves s ms (try_retire_version_at v bits s) ms' L"
  then have "art_inv name (try_retire_version_at v bits s) L ds hs ms'" by (simp add: art_inv_def)
  then show thesis using m by (rule that)
qed
section \<open>Pinning and unpinning\<close>

lemma nth_update_same: "g y = g (xs ! i) \<Longrightarrow> g (xs[i := y] ! j) = g (xs ! j)"
  by (cases "i < length xs"; cases "i = j") (simp_all add: list_update_beyond)

lemma nth_pins:
  "ps_version ((ah_pins h)[i := (ah_pins h ! i)\<lparr>ps_pins := n\<rparr>] ! j) = ps_version (ah_pins h ! j)"
  "ps_manifest ((ah_pins h)[i := (ah_pins h ! i)\<lparr>ps_pins := n\<rparr>] ! j) = ps_manifest (ah_pins h ! j)"
  "ps_state ((ah_pins h)[i := (ah_pins h ! i)\<lparr>ps_pins := n\<rparr>] ! j) = ps_state (ah_pins h ! j)"
  by (rule nth_update_same, simp)+

lemma live_at_pins: "live_at (h\<lparr>ah_pins := (ah_pins h)[i := (ah_pins h ! i)\<lparr>ps_pins := n\<rparr>]\<rparr>) j \<longleftrightarrow> live_at h j"
  by (simp add: live_at_def nth_pins)

lemma core_set_pins:
  assumes inv: "core name s L ms cnt" and i: "live_at (as_head s) i"
  shows "core name (set_slot_at i ((head_slot_at i s)\<lparr>ps_pins := n\<rparr>) s) L ms (cnt(i := unat n))"
proof -
  note c = coreD [OF inv]
  let ?h = "as_head s"
  have il: "i < length (ah_pins ?h)" using i by (simp add: live_at_def)
  have "slot_ok ms ((ah_pins ?h)[i := (ah_pins ?h ! i)\<lparr>ps_pins := n\<rparr>] ! j) ((cnt(i := unat n)) j)" if "j < length (ah_pins ?h)" for j
    using head_okD(2) [OF c(3) that] i by (auto simp: slot_ok_def live_at_def nth_list_update pin_states)
  then have "head_ok (?h\<lparr>ah_pins := (ah_pins ?h)[i := (ah_pins ?h ! i)\<lparr>ps_pins := n\<rparr>]\<rparr>) ms (cnt(i := unat n))"
    using c(3) unfolding head_ok_def live_at_pins by (simp add: nth_pins)
  moreover have "live_refs ((ah_pins ?h)[i := (ah_pins ?h ! i)\<lparr>ps_pins := n\<rparr>]) = live_refs (ah_pins ?h)"
    by (rule live_refs_same [OF il]) (simp add: slot_ref_def)
  ultimately show ?thesis using c by (simp add: core_def set_slot_at_def head_slot_at_def)
qed

lemma held_pin_pins:
  "held_pin (set_slot_at i ((head_slot_at i s)\<lparr>ps_pins := n\<rparr>) s) ms p \<longleftrightarrow> held_pin s ms p"
  by (simp add: held_pin_def set_slot_at_def head_slot_at_def live_at_pins nth_pins)

lemma pin_count_Cons: "pin_count (p # hs) = (pin_count hs)(vp_slot p := pin_count hs (vp_slot p) + 1)"
  by (simp add: pin_count_def fun_eq_iff)

lemma pin_count_remove1:
  assumes "p \<in> set hs"
  shows "pin_count hs = (pin_count (remove1 p hs))(vp_slot p := pin_count (remove1 p hs) (vp_slot p) + 1)"
proof (rule ext)
  fix i
  show "pin_count hs i = ((pin_count (remove1 p hs))(vp_slot p := pin_count (remove1 p hs) (vp_slot p) + 1)) i"
    using assms
  proof (induction hs)
    case (Cons q hs)
    show ?case
    proof (cases "q = p")
      case False
      then show ?thesis using Cons by (cases "i = vp_slot p") (simp_all add: pin_count_def)
    qed (simp add: pin_count_def)
  qed simp
qed

lemma slot_pins: "art_inv name s L ds hs ms \<Longrightarrow> live_at (as_head s) i \<Longrightarrow> unat (ps_pins (head_slot_at i s)) = pin_count hs i"
  using head_okD(2) [OF coreD(3) [OF art_invD(1)]] by (auto simp: slot_ok_def live_at_def head_slot_at_def)

lemma publish_pin_inv:
  assumes inv: "art_inv name s L ds hs ms" and i: "live_at (as_head s) (vp_slot p)" and p: "held_pin s ms p"
    and few: "length hs < 2 ^ 32 - 1"
  shows "art_inv name (set_slot_at (vp_slot p) (publish_pin (head_slot_at (vp_slot p) s)) s) L ds (p # hs) ms"
proof -
  let ?n = "ps_pins (head_slot_at (vp_slot p) s) + 1"
  note a = art_invD [OF inv]
  have "pin_count hs (vp_slot p) < 2 ^ 32 - 1" using le_less_trans [OF length_filter_le few] by (simp add: pin_count_def)
  then have n: "unat ?n = pin_count hs (vp_slot p) + 1" using slot_pins [OF inv i] by (simp add: unat_word_ariths)
  have s': "set_slot_at (vp_slot p) (publish_pin (head_slot_at (vp_slot p) s)) s
      = set_slot_at (vp_slot p) ((head_slot_at (vp_slot p) s)\<lparr>ps_pins := ?n\<rparr>) s" by (simp add: publish_pin_def)
  have "core name (set_slot_at (vp_slot p) ((head_slot_at (vp_slot p) s)\<lparr>ps_pins := ?n\<rparr>) s) L ms (pin_count (p # hs))"
    using core_set_pins [OF a(1) i, of ?n] n by (simp add: pin_count_Cons)
  moreover have "settled (as_head (set_slot_at (vp_slot p) ((head_slot_at (vp_slot p) s)\<lparr>ps_pins := ?n\<rparr>) s)) (pin_count (p # hs)) {}"
    using a(2) by (auto simp: settled_def set_slot_at_def head_slot_at_def live_at_pins nth_pins pin_count_Cons)
  ultimately show ?thesis using a(3,4) p unfolding s' by (simp add: art_inv_def held_pin_pins) (simp add: set_slot_at_def)
qed

lemma undo_publish:
  assumes i: "live_at (as_head s) i" "ps_version (head_slot_at i s) = ah_current (as_head s)"
  shows "undo_pin i (set_slot_at i (publish_pin (head_slot_at i s)) s) = s"
proof -
  have il: "i < length (ah_pins (as_head s))" using i(1) by (simp add: live_at_def)
  then show ?thesis using i(2)
    by (simp add: undo_pin_def unpin_def publish_pin_def set_slot_at_def head_slot_at_def Let_def)
qed

text \<open>Run alone, the pin loop ends after at most one round.\<close>

lemma pin_inner_spec:
  assumes inv: "art_inv (a_name_id art) s L ds hs ms"
  obtains (gone) "ah_current (as_head s) = NO_VERSION" "pin_inner art s = Some (Inl VersionGone, s)"
  | (stale) "\<not> is_incarnation (a_incarnation art) (as_head s)" "pin_inner art s = Some (Inl AStale, s)"
  | (full) e j where "as_journal s \<noteq> None" "pin_inner art s = Some (Inl (ACore e), s\<lparr>as_journal := j\<rparr>)"
  | (pinned) p j where "pin_inner art s = Some (Inr p, (set_slot_at (vp_slot p) (publish_pin (head_slot_at (vp_slot p) s)) s)\<lparr>as_journal := j\<rparr>)"
      "held_pin s ms p" "vp_version p = ah_current (as_head s)" "vp_version p \<noteq> NO_VERSION"
      "ps_manifest (head_slot_at (vp_slot p) s) = ah_manifest_desc (as_head s)"
proof (cases "ah_current (as_head s) = NO_VERSION")
  case True
  then show thesis using gone by (simp add: pin_inner.simps)
next
  case False
  let ?h = "as_head s" and ?v = "ah_current (as_head s)"
  note c = coreD [OF art_invD(1) [OF inv]]
  obtain i where i: "live_at ?h i" "ps_version (ah_pins ?h ! i) = ?v" "ps_manifest (ah_pins ?h ! i) = ah_manifest_desc ?h"
    using head_okD(6) [OF c(3) False] by blast
  have il: "i < length (ah_pins ?h)" "ps_state (ah_pins ?h ! i) = SLOT_LIVE" using i(1) by (simp_all add: live_at_def)
  have f: "find_slot ?v ?h = Some i" using find_slot_live [OF c(3)] i by simp
  define s1 where "s1 = set_slot_at i (publish_pin (head_slot_at i s)) s"
  have s1: "head_slot_at i s1 = publish_pin (head_slot_at i s)" "ah_manifest_desc (as_head s1) = ah_manifest_desc ?h"
    "ah_incarnation (as_head s1) = ah_incarnation ?h" "as_arena s1 = as_arena s" "as_journal s1 = as_journal s"
    using il by (simp_all add: s1_def set_slot_at_def head_slot_at_def)
  have acc: "accept_pin ?v (head_slot_at i s1)" using i il unfolding s1(1) by (simp add: accept_pin_def publish_pin_def head_slot_at_def)
  have man: "ps_manifest (head_slot_at i s1) = ah_manifest_desc ?h" using i(3) unfolding s1(1) by (simp add: publish_pin_def head_slot_at_def)
  have undo: "undo_pin i s1 = s" unfolding s1_def by (rule undo_publish) (use i in \<open>simp_all add: head_slot_at_def\<close>)
  obtain m where m: "ms (ref_offset (ah_manifest_desc ?h)) = Some m" "mf_version m = ?v"
    using live_slot [OF c(3) i(1)] i(2,3) by metis
  have rd: "art_read_checked s1 (ah_manifest_desc ?h) (a_name_id art) ?v = Inr m"
    using art_read_in [of s1 ms "ah_manifest_desc ?h" m] held_byD(2) [OF c(1)] m chainsD [OF c(2) m(1)] by (simp add: s1)
  show thesis
  proof (cases "is_incarnation (a_incarnation art) ?h")
    case False
    then have "pin_inner art s = Some (Inl AStale, s)"
      using \<open>?v \<noteq> NO_VERSION\<close> f acc undo s1(3)
      by (subst pin_inner.simps) (simp add: Let_def s1_def [symmetric] is_incarnation_def)
    then show thesis using stale False by blast
  next
    case True
    have step: "pin_inner art s = Some (journal_pin art ?v i m s1)"
      using True \<open>?v \<noteq> NO_VERSION\<close> f acc man rd s1(2,3)
      by (subst pin_inner.simps) (simp add: Let_def s1_def [symmetric] is_incarnation_def)
    have hp: "held_pin s ms \<lparr>vp_version = ?v, vp_slot = i, vp_manifest = m, vp_journal = k\<rparr>" for k
      using i m(1) by (simp add: held_pin_def head_slot_at_def)
    show thesis
    proof (cases "as_journal s")
      case None
      have "s1 = s1\<lparr>as_journal := None\<rparr>" using None s1(5) by simp
      then show thesis using pinned [of "\<lparr>vp_version = ?v, vp_slot = i, vp_manifest = m, vp_journal = None\<rparr>" None]
          hp step None s1(5) \<open>?v \<noteq> NO_VERSION\<close> i(3) by (simp add: journal_pin_def head_slot_at_def s1_def)
    next
      case (Some j)
      obtain r j' where r: "record_artifact_pin j (a_name_id art) (a_incarnation art) ?v = (r, j')" by fastforce
      show thesis
      proof (cases r)
        case (Inl e)
        have "undo_pin i (s1\<lparr>as_journal := Some j'\<rparr>) = s\<lparr>as_journal := Some j'\<rparr>"
        proof -
          have "s1\<lparr>as_journal := Some j'\<rparr> = set_slot_at i (publish_pin (head_slot_at i (s\<lparr>as_journal := Some j'\<rparr>))) (s\<lparr>as_journal := Some j'\<rparr>)"
            by (simp add: s1_def set_slot_at_def head_slot_at_def)
          then show ?thesis using undo_publish [of "s\<lparr>as_journal := Some j'\<rparr>" i] i by (simp add: head_slot_at_def)
        qed
        then show thesis using full [of e "Some j'"] step Some r Inl s1(5) by (simp add: journal_pin_def)
      next
        case (Inr k)
        then show thesis using pinned [of "\<lparr>vp_version = ?v, vp_slot = i, vp_manifest = m, vp_journal = Some k\<rparr>" "Some j'"]
            hp step Some r s1(5) \<open>?v \<noteq> NO_VERSION\<close> i(3) by (simp add: journal_pin_def head_slot_at_def s1_def)
      qed
    qed
  qed
qed
lemma pin_unpin_inv:
  assumes inv: "art_inv name s L ds hs ms" and p: "p \<in> set hs"
  obtains ms' where "art_inv name (pin_unpin p s) L ds (remove1 p hs) ms'" "moves s ms (pin_unpin p s) ms' L"
proof -
  note a = art_invD [OF inv]
  let ?hs = "remove1 p hs"
  define i where "i = vp_slot p"
  define n where "n = ps_pins (head_slot_at i s)"
  define s1 where "s1 = set_slot_at i ((head_slot_at i s)\<lparr>ps_pins := n - 1\<rparr>) s"
  have s': "pin_unpin p s = (if n = 1 \<and> ah_current (as_head s1) \<noteq> vp_version p then try_retire_version (vp_version p) s1 else s1)"
    by (simp only: pin_unpin_def unpin_def Let_def s1_def n_def i_def prod.case)
  have hp: "live_at (as_head s) i" "ps_version (head_slot_at i s) = vp_version p"
    using a(3) p by (auto simp: held_pin_def i_def)
  note s1 = s1_def
  have nn: "unat n = pin_count hs i" using slot_pins [OF inv hp(1)] by (simp add: n_def)
  have cnt: "pin_count hs = (pin_count ?hs)(i := pin_count ?hs i + 1)" unfolding i_def by (rule pin_count_remove1 [OF p])
  have "n \<noteq> 0" using nn cnt by (metis fun_upd_same unat_0 add_is_0 one_neq_zero)
  then have n1: "unat (n - 1) = pin_count ?hs i" using nn cnt by (metis fun_upd_same add_diff_cancel_right' unat_pred_word)
  have "(pin_count hs)(i := pin_count ?hs i) = pin_count ?hs" by (subst cnt) simp
  then have c1: "core name s1 L ms (pin_count ?hs)" using core_set_pins [OF a(1) hp(1), of "n - 1"] n1 by (simp add: s1)
  have h1: "\<forall>q \<in> set ?hs. held_pin s1 ms q" using a(3) set_remove1_subset [of p hs] by (auto simp: s1 held_pin_pins)
  have d1: "staged_ok (as_arena s1) L ds" using a(4) by (simp add: s1 set_slot_at_def)
  have pc: "0 < pin_count ?hs j" if "0 < pin_count hs j" "j \<noteq> i" for j using that cnt by (metis fun_upd_other)
  have lv: "live_at (as_head s1) j \<longleftrightarrow> live_at (as_head s) j" "ps_version (ah_pins (as_head s1) ! j) = ps_version (ah_pins (as_head s) ! j)"
    "ah_current (as_head s1) = ah_current (as_head s)" "ah_manifest_desc (as_head s1) = ah_manifest_desc (as_head s)" "as_arena s1 = as_arena s" for j
    by (simp_all add: s1 set_slot_at_def head_slot_at_def live_at_pins nth_pins)
  have il: "i < length (ah_pins (as_head s))" using hp(1) by (simp add: live_at_def)
  have lr: "live_refs (ah_pins (as_head s1)) = live_refs (ah_pins (as_head s))"
    using live_refs_same [OF il] by (simp add: s1 set_slot_at_def head_slot_at_def slot_ref_def)
  have st: "settled (as_head s1) (pin_count ?hs) {i}" using a(2) pc by (auto simp: settled_def lv)
  show thesis
  proof (cases "n = 1 \<and> ah_current (as_head s1) \<noteq> vp_version p")
    case False
    have "0 < pin_count ?hs i" if "vp_version p \<noteq> ah_current (as_head s)"
    proof -
      have "n \<noteq> 1" using False that lv(3) by auto
      then have "unat n \<noteq> 1" using unat_1_iff [of n] by simp
      moreover have "unat n \<noteq> 0" using \<open>n \<noteq> 0\<close> by (simp add: unat_eq_zero)
      ultimately show ?thesis using n1 \<open>n \<noteq> 0\<close> by (simp add: unat_pred_word)
    qed
    then have "0 < pin_count ?hs j" if "live_at (as_head s1) j" "ps_version (ah_pins (as_head s1) ! j) \<noteq> ah_current (as_head s1)" for j
      using that st hp(2) by (cases "j = i") (auto simp: settled_def lv head_slot_at_def)
    then have "settled (as_head s1) (pin_count ?hs) {}" by (simp add: settled_def)
    then have "art_inv name s1 L ds ?hs ms" using c1 h1 d1 by (simp add: art_inv_def)
    moreover have "pin_unpin p s = s1" unfolding s' using False by (rule if_not_P)
    ultimately show thesis using that [of ms] moves_refl [of s1 s] lv lr by simp
  next
    case True
    have "find_slot (vp_version p) (as_head s1) = Some i"
      using find_slot_live [OF coreD(3) [OF c1]] hp lv(1,2) by (simp add: head_slot_at_def)
    then obtain ms' where "art_inv name (try_retire_version_at (vp_version p) None s1) L ds ?hs ms'"
      "moves s1 ms (try_retire_version_at (vp_version p) None s1) ms' L"
      using retire_settles [OF c1 st, where bits = None and v = "vp_version p" and ds = ds] h1 d1 by auto
    moreover have "pin_unpin p s = try_retire_version_at (vp_version p) None s1" using True by (simp add: s' try_retire_version_def)
    ultimately show thesis using that [of ms'] lv lr by (simp add: moves_def)
  qed
qed

text \<open>The replay of a dead reader's pin does what the reader's own drop would have done.\<close>

lemma release_leaked_pin_eq:
  assumes inv: "art_inv name s L ds hs ms" and p: "p \<in> set hs"
  shows "release_leaked_pin (vp_version p) s = (True, pin_unpin p s)"
proof -
  have hp: "live_at (as_head s) (vp_slot p)" "ps_version (head_slot_at (vp_slot p) s) = vp_version p"
    using art_invD(3) [OF inv] p by (auto simp: held_pin_def)
  have f: "find_slot (vp_version p) (as_head s) = Some (vp_slot p)"
    using find_slot_live [OF coreD(3) [OF art_invD(1) [OF inv]]] hp by (simp add: head_slot_at_def)
  have "ps_pins (head_slot_at (vp_slot p) s) \<noteq> 0"
    using slot_pins [OF inv hp(1)] pin_count_remove1 [OF p] by (metis fun_upd_same unat_0 add_is_0 one_neq_zero)
  then show ?thesis using f
    by (auto simp: release_leaked_pin_def try_unpin_def Let_def compare_exchange_def pin_unpin_def unpin_def)
qed

end
