(* ===== verification/Shm_Install.thy ===== *)
theory Shm_Install
  imports Shm_Artifact_Inv
begin

text \<open>
  A whole commit over the account of an artifact. Shown: a commit that returns an error leaves the versions
  as they were and gives back what it took, and a commit that succeeds installs a version whose table is
  the one its kind asks for.
\<close>

section \<open>In the middle of a commit\<close>

text \<open>The account with further references \<open>X\<close> that the commit holds.\<close>

definition mid_inv ::
  "u32 \<Rightarrow> artifact_state \<Rightarrow> (u32 \<rightharpoonup> u32) \<Rightarrow> chunk_desc list \<Rightarrow> version_pin list \<Rightarrow> (u32 \<rightharpoonup> manifest) \<Rightarrow> u32 multiset \<Rightarrow> bool" where
  "mid_inv name s L ds hs ms X \<longleftrightarrow> held_by (as_arena s) {} L (X + live_refs (ah_pins (as_head s))) ms \<and> chains name ms
     \<and> head_ok (as_head s) ms (pin_count hs) \<and> length (ctrls (ar_pool (as_arena s))) < 2 ^ 30
     \<and> settled (as_head s) (pin_count hs) {} \<and> (\<forall>p \<in> set hs. held_pin s ms p) \<and> staged_ok (as_arena s) L ds
     \<and> dom ms \<subseteq> set_mset (live_refs (ah_pins (as_head s)) + refs_of ms)"

lemma mid_inv_empty: "mid_inv name s L ds hs ms {#} \<longleftrightarrow> art_inv name s L ds hs ms"
  using held_byD(3) [of "as_arena s" "{}" L "live_refs (ah_pins (as_head s))" ms] by (auto simp: mid_inv_def art_inv_def core_def)

lemma mid_invD:
  assumes "mid_inv name s L ds hs ms X"
  shows "held_by (as_arena s) {} L (X + live_refs (ah_pins (as_head s))) ms" "chains name ms" "head_ok (as_head s) ms (pin_count hs)"
    "length (ctrls (ar_pool (as_arena s))) < 2 ^ 30" "settled (as_head s) (pin_count hs) {}" "\<forall>p \<in> set hs. held_pin s ms p"
    "staged_ok (as_arena s) L ds" "dom ms \<subseteq> set_mset (live_refs (ah_pins (as_head s)) + refs_of ms)"
  using assms by (simp_all add: mid_inv_def)

lemma mid_inv_arena:
  assumes inv: "mid_inv name s L ds hs ms X" and b: "held_by b {} L' (X' + live_refs (ah_pins (as_head s))) ms"
    and k: "keeps S (as_arena s) b" and st: "staged_ok b L' ds'"
  shows "mid_inv name (s\<lparr>as_arena := b\<rparr>) L' ds' hs ms X'"
  using mid_invD [OF inv] b st keeps_shape [OF k] by (simp add: mid_inv_def held_pin_def head_slot_at_def same_shape_def)

lemma staged_frame:
  assumes "staged_ok a L ds" "keeps S a b" "ledger a A L R" "S \<inter> dom L = {}"
  shows "staged_ok b L ds"
proof -
  have "gen_at b (offset d) = gen_at a (offset d)" if "d \<in> set ds" for d
  proof -
    have d: "offset d \<in> dom L" using assms(1) imageI [OF that, of offset] by (simp add: staged_ok_def)
    then have "offset d \<notin> S" using assms(4) by blast
    moreover have "offset d \<in> places (ar_pool a)" using d ledger_loans [OF assms(3)] by blast
    ultimately show ?thesis by (rule keeps_gen [OF assms(2), rotated])
  qed
  then show ?thesis using assms(1) by (simp add: staged_ok_def)
qed

lemma staged_ok_rest:
  assumes "staged_ok a L ds" "set staged \<subseteq> set ds"
  shows "staged_ok a (L |` (- (offset ` set staged))) (filter (\<lambda>d. d \<notin> set staged) ds)"
proof -
  have inj: "inj_on offset (set ds)" using assms(1) by (simp add: staged_ok_def distinct_map)
  have "offset ` {d \<in> set ds. d \<notin> set staged} = offset ` set ds - offset ` set staged"
    using inj assms(2) by (auto dest: inj_onD)
  then show ?thesis using assms(1) by (auto simp: staged_ok_def distinct_map_filter)
qed

lemma mid_publish:
  assumes inv: "art_inv name s L ds hs ms" and st: "set staged \<subseteq> set ds" "distinct (map offset staged)"
  defines "L1 \<equiv> L |` (- (offset ` set staged))" and "ds1 \<equiv> filter (\<lambda>d. d \<notin> set staged) ds"
  obtains a where "publish_loop [] staged (as_arena s) = (Inr (), a)" "mid_inv name (s\<lparr>as_arena := a\<rparr>) L1 ds1 hs ms (mset (map offset staged))"
    "keeps {} (as_arena s) a" "loose a ms staged" "\<forall>x \<in> ran ms. offset ` set (mf_chunks x) \<inter> offset ` set staged = {}"
proof -
  have mid: "mid_inv name s L ds hs ms {#}" using inv by (simp add: mid_inv_empty)
  note m = mid_invD [OF mid]
  have h: "held_by (as_arena s) {} L (live_refs (ah_pins (as_head s))) ms" using m(1) by simp
  have "offset d \<in> dom L" if "d \<in> set staged" for d
    using m(7) imageI [OF subsetD [OF st(1) that], of offset] by (simp add: staged_ok_def)
  then have loaned: "\<forall>d \<in> set staged. L (offset d) \<noteq> None" by (simp add: dom_def)
  obtain a where a: "publish_loop [] staged (as_arena s) = (Inr (), a)"
    "held_by a {} L1 (mset (map offset staged) + live_refs (ah_pins (as_head s))) ms" "keeps {} (as_arena s) a"
    using publish_loop_spec [OF h loaned st(2), of "[]"] unfolding L1_def by blast
  have so: "staged_ok a L ds" by (rule staged_frame [OF m(7) a(3) held_byD(1) [OF h]]) simp
  have s1: "staged_ok a L1 ds1" unfolding L1_def ds1_def by (rule staged_ok_rest [OF so st(1)])
  have nr: "offset d \<notin># live_refs (ah_pins (as_head s)) + refs_of ms" if d: "d \<in> set staged" for d
    using loaned d ledger_disjoint(5) [OF held_byD(1) [OF h], of "offset d"] by blast
  have l: "loose a ms staged"
    using so st(1) nr held_byD(3) [OF h] by (auto simp: loose_def staged_ok_def)
  have "offset ` set (mf_chunks x) \<inter> offset ` set staged = {}" if x: "x \<in> ran ms" for x
  proof -
    obtain o' where o: "ms o' = Some x" using x by (auto simp: ran_def)
    have "offset d \<in># refs_of ms" if "d \<in> set (mf_chunks x)" for d
      using refs_of_member [OF held_byD(4) [OF h] o, of "offset d"] that by (simp add: medges_def)
    then show ?thesis using nr by force
  qed
  then show thesis using that [OF a(1) mid_inv_arena [OF mid a(2,3) s1] a(3) l] by blast
qed
section \<open>No count overflows\<close>

lemma length_spans: "0 \<notin> set ns \<Longrightarrow> sum_list ns = length xs \<Longrightarrow> length ns \<le> length xs"
proof -
  have "0 \<notin> set ns \<Longrightarrow> length ns \<le> sum_list ns" for ns :: "nat list" by (induction ns) auto
  then show "0 \<notin> set ns \<Longrightarrow> sum_list ns = length xs \<Longrightarrow> length ns \<le> length xs" by metis
qed

lemma chunks_bound:
  assumes inv: "held_by a A L B ms" and ds: "\<forall>d \<in> set ds. offset d \<in># B + refs_of ms" "distinct (map offset ds)"
  shows "length ds \<le> length (ctrls (ar_pool a))"
proof -
  note g = places_bound [OF ledger_geometry [OF held_byD(1) [OF inv]]]
  have "length ds = card (offset ` set ds)" using distinct_card [OF ds(2)] by simp
  also have "\<dots> \<le> card (places (ar_pool a))"
    using ds(1) ledger_refs [OF held_byD(1) [OF inv]] g(1) by (intro card_mono) blast+
  finally show ?thesis using g(2) by linarith
qed

lemma chain_bound:
  assumes inv: "held_by a A L B ms" and ch: "chains art ms" and m: "ms off = Some m" and c: "chain_from ms m c"
  shows "length (concat (map mf_chunks (m # c))) \<le> length (ctrls (ar_pool a))" "unat (mf_total_batches m) \<le> length (ctrls (ar_pool a))"
proof -
  note h = held_byD [OF inv]
  have ok: "chain_ok (resolve_in ms) (m # c)" and dc: "distinct (map offset (concat (map mf_chunks (m # c))))"
    using c by (simp_all add: chain_from_def)
  have "offset d \<in># refs_of ms" if d: "d \<in> set (concat (map mf_chunks (m # c)))" for d
  proof -
    obtain x where x: "x \<in> set (m # c)" "d \<in> set (mf_chunks x)" using d by auto
    then obtain o' where o: "ms o' = Some x" using chain_members [OF ok] m by (auto simp: ran_def)
    show ?thesis using refs_of_member [OF h(4) o, of "offset d"] x(2) by (simp add: medges_def)
  qed
  then show 1: "length (concat (map mf_chunks (m # c))) \<le> length (ctrls (ar_pool a))"
    using chunks_bound [OF inv _ dc] by simp
  have le: "length (mf_batch_spans x) \<le> length (mf_chunks x)" if "x \<in> set (m # c)" for x
    using chain_spans [OF ch m ok] that length_spans [of "spans_of x" "mf_chunks x"] by (auto simp: spans_ok_def spans_of_def)
  have "unat (mf_total_batches m) = sum_list (map (\<lambda>x. length (mf_batch_spans x)) (m # c))" by (rule chain_ok_batches [OF ok])
  also have "\<dots> \<le> sum_list (map (\<lambda>x. length (mf_chunks x)) (m # c))" by (rule sum_list_mono) (rule le)
  also have "\<dots> = length (concat (map mf_chunks (m # c)))" by (simp add: length_concat comp_def)
  finally show "unat (mf_total_batches m) \<le> length (ctrls (ar_pool a))" using 1 by linarith
qed

lemma sourced_room:
  assumes inv: "held_by a A L B ms" and ch: "chains art ms" and src: "sourced b ms bits expect schema c link w"
  shows "length (kept_spans w) + prev_batches link \<le> length (ctrls (ar_pool a))"
proof (cases link)
  case None
  show ?thesis
  proof (cases w)
    case (Some w')
    then obtain prior chn where p: "ms (ref_offset bits) = Some prior" "chain_from ms prior chn" "window_from b w' (prior # chn)"
      using src None by (auto simp: sourced_def)
    let ?cs = "concat (map mf_chunks (prior # chn))"
    have "length (ws_chunks w') = card (offset ` set (ws_chunks w'))" using p(3) distinct_card [of "map offset (ws_chunks w')"] by (simp add: window_from_def)
    also have "\<dots> \<le> card (offset ` set ?cs)" using p(3) by (intro card_mono image_mono) (auto simp: window_from_def)
    also have "\<dots> \<le> length ?cs" using card_length [of "map offset ?cs"] by (simp only: set_map length_map)
    also have "\<dots> \<le> length (ctrls (ar_pool a))" by (rule chain_bound(1) [OF inv ch p(1,2)])
    finally have "length (kept_chunks w) \<le> length (ctrls (ar_pool a))" using Some by (simp add: kept_chunks_def)
    moreover have "length (kept_spans w) \<le> length (kept_chunks w)"
      using length_spans [of "map unat (kept_spans w)" "kept_chunks w"] sourced_spans(1,2) [OF src] by simp
    ultimately show ?thesis using None by (simp add: prev_batches_def)
  qed (simp add: None kept_spans_def prev_batches_def)
next
  case (Some l)
  then obtain prior where p: "ms (ref_offset bits) = Some prior" "l = link_from bits (gen_at b (ref_offset bits)) prior" "w = None"
    using src by (auto simp: sourced_def split: option.splits)
  obtain chn where "chain_from ms prior chn" by (rule chainsD [OF ch p(1)])
  then show ?thesis using chain_bound(2) [OF inv ch p(1)] Some p(2,3) by (simp add: kept_spans_def prev_batches_def link_from_def)
qed
section \<open>The sources, and giving up\<close>

lemma head_desc: "head_ok h ms cnt \<Longrightarrow> ah_manifest_desc h = 0 \<or> ref_offset (ah_manifest_desc h) \<in> dom ms"
  using head_okD(5,6) [of h ms cnt] live_slot [of h ms cnt] by (metis domI)

lemma head_size: "head_ok h ms cnt \<Longrightarrow> count (live_refs (ah_pins h)) x \<le> 64"
  using count_live_refs [of "ah_pins h" x] head_okD(1) [of h ms cnt] by (simp add: MAX_LIVE_VERSIONS_def)

lemma mid_sources:
  assumes inv: "mid_inv (a_name_id art) s L ds hs ms (mset (map offset staged))" and st: "distinct (map offset staged)"
    and c: "\<forall>x y. c \<noteq> Patch x y"
  obtains (none) e where "commit_sources art expect c schema s = (Inl e, s)"
  | (some) link w b where "commit_sources art expect c schema s = (Inr (link, w), s\<lparr>as_arena := b\<rparr>)"
    "mid_inv (a_name_id art) (s\<lparr>as_arena := b\<rparr>) L ds hs ms (source_refs link w + mset (map offset staged))"
    "keeps {} (as_arena s) b" "sourced b ms (ah_manifest_desc (as_head s)) expect schema c link w"
proof -
  note m = mid_invD [OF inv]
  have "count (mset (map offset staged) + live_refs (ah_pins (as_head s))) x < 2 ^ 30" for x
  proof -
    have "count (mset (map offset staged)) x \<le> 1" using st by (metis distinct_count_atmost_1 le_numeral_extra(4) zero_le_one)
    then show ?thesis using head_size [OF m(3), of x] by simp
  qed
  then have small: "\<forall>x. count (mset (map offset staged) + live_refs (ah_pins (as_head s))) x < 2 ^ 30" by blast
  show thesis
  proof (rule commit_sources_spec [OF m(1,2) head_desc [OF m(3)] m(4) small c, of expect schema])
    fix e assume "commit_sources art expect c schema s = (Inl e, s)"
    then show thesis by (rule none)
  next
    fix link w b
    assume r: "commit_sources art expect c schema s = (Inr (link, w), s\<lparr>as_arena := b\<rparr>)"
      "held_by b {} L (source_refs link w + (mset (map offset staged) + live_refs (ah_pins (as_head s)))) ms" "keeps {} (as_arena s) b"
      "sourced b ms (ah_manifest_desc (as_head s)) expect schema c link w"
    have "staged_ok b L ds" by (rule staged_frame [OF m(7) r(3) held_byD(1) [OF m(1)]]) simp
    then have "mid_inv (a_name_id art) (s\<lparr>as_arena := b\<rparr>) L ds hs ms (source_refs link w + mset (map offset staged))"
      by (intro mid_inv_arena [OF inv _ r(3)]) (use r(2) in \<open>simp_all add: ac_simps\<close>)
    then show thesis using some r by blast
  qed
qed

lemma sourced_loose:
  assumes man: "manifests b ms" and src: "sourced b ms bits expect schema c link w"
  shows "loose b ms (kept_chunks w)" "\<forall>l. link = Some l \<longrightarrow> link_off l \<in> dom ms \<and> ml_generation l = gen_at b (link_off l)"
proof -
  show "loose b ms (kept_chunks w)"
  proof (cases w)
    case (Some w')
    then obtain prior chn where p: "ms (ref_offset bits) = Some prior" "chain_from ms prior chn" "window_from b w' (prior # chn)"
      using src by (auto simp: sourced_def split: option.splits)
    have "offset d \<notin> dom ms" if d: "d \<in> set (ws_chunks w')" for d
    proof -
      have "set (ws_chunks w') \<subseteq> set (concat (map mf_chunks (prior # chn)))" using p(3) by (simp add: window_from_def)
      then have "d \<in> set (concat (map mf_chunks (prior # chn)))" using d by (rule subsetD)
      then obtain x where x: "x \<in> set (prior # chn)" "d \<in> set (mf_chunks x)" by auto
      have "set chn \<subseteq> ran ms" using chain_members p(2) by (auto simp: chain_from_def)
      then obtain o' where o: "ms o' = Some x" using x(1) p(1) by (auto simp: ran_def)
      show ?thesis by (rule manifestsD(5) [OF man o x(2)])
    qed
    then show ?thesis using p(3) Some by (simp add: loose_def kept_chunks_def window_from_def)
  qed (simp add: loose_def kept_chunks_def)
  show "\<forall>l. link = Some l \<longrightarrow> link_off l \<in> dom ms \<and> ml_generation l = gen_at b (link_off l)"
    using src by (auto simp: sourced_def link_off_def link_from_def split: option.splits)
qed

lemma mid_rollback:
  assumes inv: "mid_inv name s L ds hs ms (mset (map offset (md_list md)) + source_refs link w + mset (map offset staged))"
    and lo: "loose (as_arena s) ms (md_list md)" "loose (as_arena s) ms (kept_chunks w)" "loose (as_arena s) ms staged"
    and link: "\<forall>l. link = Some l \<longrightarrow> link_off l \<in> dom ms \<and> ml_generation l = gen_at (as_arena s) (link_off l)"
  defines "b \<equiv> release_all staged (release_all (kept_chunks w) (release_link link (release_all (md_list md) (as_arena s))))"
  shows "art_inv name (s\<lparr>as_arena := b\<rparr>) L ds hs ms" "keeps (spare L (live_refs (ah_pins (as_head s)) + refs_of ms)) (as_arena s) b"
proof -
  note m = mid_invD [OF inv]
  let ?R = "live_refs (ah_pins (as_head s))"
  have l: "\<forall>l. link = Some l \<longrightarrow> link_off l \<in># ?R + refs_of ms \<and> ml_generation l = gen_at (as_arena s) (link_off l)"
    using link m(8) by blast
  have h: "held_by b {} L ?R ms" and k: "keeps (spare L (?R + refs_of ms)) (as_arena s) b"
    using rollback_arena [OF m(1) lo l] unfolding b_def by blast+
  have "staged_ok b L ds" by (rule staged_kept [OF m(7) k held_byD(1) [OF m(1)]])
  then have "mid_inv name (s\<lparr>as_arena := b\<rparr>) L ds hs ms {#}" by (intro mid_inv_arena [OF inv _ k]) (simp_all add: h)
  then show "art_inv name (s\<lparr>as_arena := b\<rparr>) L ds hs ms" by (simp add: mid_inv_empty)
  show "keeps (spare L (?R + refs_of ms)) (as_arena s) b" by (rule k)
qed
section \<open>The new manifest\<close>

lemma sourced_frame:
  assumes src: "sourced a ms bits expect schema c link w" and g: "\<And>x. x \<in># source_refs link w \<Longrightarrow> gen_at b x = gen_at a x"
  shows "sourced b ms bits expect schema c link w"
proof (cases link)
  case (Some l)
  then obtain prior where "w = None" "l = link_from bits (gen_at a (ref_offset bits)) prior" using src by (auto simp: sourced_def split: option.splits)
  then have "gen_at b (ref_offset bits) = gen_at a (ref_offset bits)"
    using g [of "ref_offset bits"] Some by (simp add: source_refs_def link_off_def link_from_def)
  then show ?thesis using src Some \<open>w = None\<close> by (simp add: sourced_def)
next
  case None
  have "window_from b w' ms'" if "w = Some w'" "window_from a w' ms'" for w' ms'
    using that g by (auto simp: window_from_def source_refs_def)
  then show ?thesis using src None by (fastforce simp: sourced_def split: option.splits)
qed

lemma loose_frame: "loose a ms ds \<Longrightarrow> (\<And>d. d \<in> set ds \<Longrightarrow> gen_at b (offset d) = gen_at a (offset d)) \<Longrightarrow> loose b ms ds"
  by (simp add: loose_def)

text \<open>The manifest is written: what an install needs, and what a rollback needs.\<close>

definition table_in :: "(u32 \<rightharpoonup> manifest) \<Rightarrow> u64 \<Rightarrow> chunk_desc list list \<Rightarrow> bool" where
  "table_in ms bits old \<longleftrightarrow> (\<exists>m c. ms (ref_offset bits) = Some m \<and> chain_from ms m c \<and> old = chain_table (m # c))"

definition ready ::
  "u32 \<Rightarrow> artifact_state \<Rightarrow> (u32 \<rightharpoonup> u32) \<Rightarrow> chunk_desc list \<Rightarrow> version_pin list \<Rightarrow> (u32 \<rightharpoonup> manifest) \<Rightarrow> chunk_desc list
     \<Rightarrow> manifest_link option \<Rightarrow> window_set option \<Rightarrow> chunk_desc \<Rightarrow> manifest \<Rightarrow> bool" where
  "ready name s L ds hs ms staged link w md m \<longleftrightarrow>
     mid_inv name s L ds hs ms (mset (map offset (md_list (Some md))) + source_refs link w + mset (map offset staged))
     \<and> loose (as_arena s) ms (md_list (Some md)) \<and> loose (as_arena s) ms (kept_chunks w) \<and> loose (as_arena s) ms staged
     \<and> (\<forall>l. link = Some l \<longrightarrow> link_off l \<in> dom ms \<and> ml_generation l = gen_at (as_arena s) (link_off l))
     \<and> manifest_at (as_arena s) (offset md) = Inr m \<and> manifest_bytes_len m \<le> csize (ar_pool (as_arena s)) (offset md)
     \<and> offset md \<notin># source_refs link w + mset (map offset staged) + live_refs (ah_pins (as_head s)) + refs_of ms
     \<and> medges m = source_refs link w + mset (map offset staged) \<and> mf_prev m = link \<and> mf_chunks m = kept_chunks w @ staged
     \<and> chains name (ms(offset md \<mapsto> m))"

lemma new_table:
  assumes src: "sourced a ms bits expect schema c link w" and sp: "sum_list (map unat spans) = length staged" "0 \<notin> set (map unat spans)"
    and old: "if expect = NO_VERSION then old = [] else table_in ms bits old"
    and c1: "\<And>prior ch. link \<noteq> None \<Longrightarrow> ms (ref_offset bits) = Some prior \<Longrightarrow> chain_from ms prior ch \<Longrightarrow> c' = prior # ch"
      "link = None \<Longrightarrow> c' = []"
    and pos: "\<forall>m. ms (ref_offset bits) = Some m \<longrightarrow> mf_version m \<noteq> NO_VERSION"
  shows "chain_table (new_manifest art v schema staged spans link w # c') = table_base c old @ groups (map unat spans) staged"
proof -
  note b = new_manifest_spans(2) [OF src sp, of art v]
  have cur: "expect \<noteq> NO_VERSION" if "link \<noteq> None \<or> w \<noteq> None"
    using src that pos by (auto simp: sourced_def split: option.splits)
  show ?thesis
  proof (cases link)
    case (Some l)
    then have w: "w = None" "c = Append" using src by (auto simp: sourced_def split: option.splits)
    obtain prior chn where p: "ms (ref_offset bits) = Some prior" "chain_from ms prior chn" "old = chain_table (prior # chn)"
      using old cur Some by (auto simp: table_in_def)
    have "c' = prior # chn" using c1(1) p(1,2) Some by blast
    then show ?thesis using b p(3) by (simp add: w table_base_def kept_spans_def kept_chunks_def)
  next
    case None
    show ?thesis
    proof (cases w)
      case (Some w')
      then obtain keep prior chn where p: "c = Window keep" "ms (ref_offset bits) = Some prior" "chain_from ms prior chn"
        "groups (map unat (ws_spans w')) (ws_chunks w') = tail (unat keep) (chain_table (prior # chn))"
        using src None by (auto simp: sourced_def)
      have "old = chain_table (prior # chn)"
        using old cur Some p(2,3) chain_ok_det by (auto simp: table_in_def chain_from_def)
      then show ?thesis using b p(1,4) c1(2) None Some by (simp add: table_base_def kept_spans_def kept_chunks_def)
    next
      case w: None
      have "table_base c old = []"
        using src None w old by (cases c) (auto simp: sourced_def table_base_def tail_def)
      then show ?thesis using b c1(2) None w by (simp add: kept_spans_def kept_chunks_def)
    qed
  qed
qed
lemma head_current:
  assumes ok: "head_ok h ms cnt" and man: "manifests a ms" and m: "ms (ref_offset (ah_manifest_desc h)) = Some m"
  shows "mf_version m = ah_current h" "ah_current h \<noteq> NO_VERSION"
proof -
  have "ah_manifest_desc h \<noteq> 0"
  proof
    assume z: "ah_manifest_desc h = 0"
    have "manifest_at a (ref_offset 0) = Inr m" using manifestsD(1) [OF man m] z by simp
    then have "art_read_checked \<lparr>as_arena = a, as_head = h, as_journal = None, as_events = []\<rparr> 0 (mf_artifact_id m) (mf_version m) = Inr m"
      using art_read_in [of "\<lparr>as_arena = a, as_head = h, as_journal = None, as_events = []\<rparr>" ms 0 m] man m z by simp
    then show False by (simp add: art_read_zero)
  qed
  then show c: "ah_current h \<noteq> NO_VERSION" using head_okD(5) [OF ok] by blast
  obtain i where i: "live_at h i" "ps_version (ah_pins h ! i) = ah_current h" "ps_manifest (ah_pins h ! i) = ah_manifest_desc h"
    using head_okD(6) [OF ok c] by blast
  obtain m' where "ms (ref_offset (ps_manifest (ah_pins h ! i))) = Some m'" "mf_version m' = ps_version (ah_pins h ! i)"
    by (rule live_slot [OF ok i(1)])
  then show "mf_version m = ah_current h" using i(2,3) m by simp
qed

lemma mid_stage:
  fixes art :: artifact
  assumes inv: "mid_inv (a_name_id art) s L ds hs ms (source_refs link w + mset (map offset staged))"
    and src: "sourced (as_arena s) ms (ah_manifest_desc (as_head s)) expect schema c link w"
    and lo: "loose (as_arena s) ms staged" and st: "distinct (map offset staged)" "\<forall>x \<in> ran ms. offset ` set (mf_chunks x) \<inter> offset ` set staged = {}"
    and sp: "sum_list (map unat spans) = length staged" "0 \<notin> set (map unat spans)"
    and ow: "owner \<noteq> OWNER_NONE" and top: "expect \<noteq> - 1"
  defines "m \<equiv> new_manifest (a_name_id art) (expect + 1) schema staged spans link w"
    and "f \<equiv> write_manifest_in (a_name_id art) (expect + 1) schema (kept_chunks w @ staged) (kept_spans w @ spans) link
        (map_option (\<lambda>w. (ws_base w, ws_members w)) w)"
  obtains (none) e where "stage_chunk f owner (as_arena s) = (Inl e, as_arena s)"
  | (some) md b where "stage_chunk f owner (as_arena s) = (Inr md, b)" "keeps {offset md} (as_arena s) b" "L (offset md) = None"
    "ready (a_name_id art) (s\<lparr>as_arena := b\<rparr>) L ds hs ms staged link w md m"
    "\<And>old. (if expect = NO_VERSION then old = [] else table_in ms (ah_manifest_desc (as_head s)) old)
       \<Longrightarrow> table_in (ms(offset md \<mapsto> m)) (from_desc md) (table_base c old @ groups (map unat spans) staged)"
proof -
  note n = mid_invD [OF inv]
  let ?B = "source_refs link w + mset (map offset staged) + live_refs (ah_pins (as_head s))"
  have "length spans \<le> length (ctrls (ar_pool (as_arena s)))"
    using length_spans [OF sp(2,1)] chunks_bound [OF n(1) _ st(1)] by simp
  then have room: "length (kept_spans w @ spans) + prev_batches link < 2 ^ 32"
    using sourced_room [OF n(1,2) src] n(4) by simp
  have mw: "m = written_manifest (a_name_id art) (expect + 1) schema (kept_chunks w @ staged) (kept_spans w @ spans) link
      (map_option (\<lambda>w. (ws_base w, ws_members w)) w)" by (simp add: m_def new_manifest_def)
  show thesis
  proof (rule stage_manifest_spec [OF n(1) ow room, of "a_name_id art" "expect + 1" schema "kept_chunks w @ staged"
        "map_option (\<lambda>w. (ws_base w, ws_members w)) w", folded f_def mw])
    fix e assume "stage_chunk f owner (as_arena s) = (Inl e, as_arena s)"
    then show thesis by (rule none)
  next
    fix md b alloc bs
    assume r: "stage_chunk f owner (as_arena s) = (Inr md, b)" "held_by b {} L (add_mset (offset md) ?B) ms" "keeps {offset md} (as_arena s) b"
      "offset md \<notin># ?B + refs_of ms" "offset md \<in> places (ar_pool (as_arena s))" "L (offset md) = None" "generation md = gen_at b (offset md)"
      "manifest_at b (offset md) = Inr m" "manifest_bytes_len m \<le> csize (ar_pool (as_arena s)) (offset md)"
      "write_manifest alloc (a_name_id art) (expect + 1) schema (kept_chunks w @ staged) (kept_spans w @ spans) link
         (map_option (\<lambda>w. (ws_base w, ws_members w)) w) = Inr (md, bs)"
    have g: "gen_at b x = gen_at (as_arena s) x" if "x \<in># ?B + refs_of ms" for x
    proof -
      have "x \<noteq> offset md" using that r(4) by blast
      then show ?thesis using keeps_gen [OF r(3) ledger_refs [OF held_byD(1) [OF n(1)] that]] by simp
    qed
    have new: "ms (offset md) = None" using r(4) held_byD(3) [OF n(1)] by (auto simp: domIff)
    have src': "sourced b ms (ah_manifest_desc (as_head s)) expect schema c link w" by (rule sourced_frame [OF src g]) simp
    have so: "staged_ok b L ds" by (rule staged_frame [OF n(7) r(3) held_byD(1) [OF n(1)]]) (use r(6) in auto)
    have mid: "mid_inv (a_name_id art) (s\<lparr>as_arena := b\<rparr>) L ds hs ms
        (mset (map offset (md_list (Some md))) + source_refs link w + mset (map offset staged))"
      by (rule mid_inv_arena [OF inv _ r(3) so]) (use r(2) in \<open>simp add: md_list_def\<close>)
    obtain c' where c': "chain_from (ms(offset md \<mapsto> m)) m c'"
      "\<And>prior ch. link \<noteq> None \<Longrightarrow> ms (ref_offset (ah_manifest_desc (as_head s))) = Some prior \<Longrightarrow> chain_from ms prior ch \<Longrightarrow> c' = prior # ch"
      "link = None \<Longrightarrow> c' = []"
      using new_chain [OF src' n(2) new r(10) room top st] unfolding m_def by blast
    have ch: "chains (a_name_id art) (ms(offset md \<mapsto> m))"
      by (rule chains_insert [OF n(2) new _ _ c'(1)])
        (use new_manifest_spans(1) [OF src sp] in \<open>simp_all add: m_def, simp add: new_manifest_def written_manifest_def\<close>)
    have mf: "medges m = source_refs link w + mset (map offset staged)" "mf_prev m = link" "mf_chunks m = kept_chunks w @ staged"
      by (simp_all add: m_def new_manifest_edges, simp_all add: new_manifest_def written_manifest_def)
    have pos: "\<forall>x. ms (ref_offset (ah_manifest_desc (as_head s))) = Some x \<longrightarrow> mf_version x \<noteq> NO_VERSION"
      using head_current [OF n(3) held_byD(2) [OF n(1)]] by metis
    have "loose b ms staged" by (rule loose_frame [OF lo g]) simp
    moreover have "csize (ar_pool b) = csize (ar_pool (as_arena s))" by (rule same_shape_locate(4) [OF keeps_shape [OF r(3)]])
    ultimately have "ready (a_name_id art) (s\<lparr>as_arena := b\<rparr>) L ds hs ms staged link w md m"
      using mid sourced_loose [OF held_byD(2) [OF r(2)] src'] r(4,7,8,9) new mf ch
      unfolding ready_def by (auto simp: loose_def md_list_def)
    moreover have "table_in (ms(offset md \<mapsto> m)) (from_desc md) (table_base c old @ groups (map unat spans) staged)"
      if "if expect = NO_VERSION then old = [] else table_in ms (ah_manifest_desc (as_head s)) old" for old
    proof -
      have "chain_table (m # c') = table_base c old @ groups (map unat spans) staged"
        unfolding m_def by (rule new_table [OF src' sp that c'(2,3) pos])
      moreover have "(ms(offset md \<mapsto> m)) (ref_offset (from_desc md)) = Some m" by (simp add: from_desc_def)
      ultimately show ?thesis using c'(1) unfolding table_in_def by metis
    qed
    ultimately show thesis using some r(1,3,6) by blast
  qed
qed
section \<open>Claiming a slot\<close>

definition claimed :: "u64 \<Rightarrow> u64 \<Rightarrow> pin_slot \<Rightarrow> pin_slot" where
  "claimed v bits sl = sl\<lparr>ps_state := SLOT_LIVE, ps_manifest := bits, ps_version := v\<rparr>"

definition installed :: "nat \<Rightarrow> u64 \<Rightarrow> u64 \<Rightarrow> u32 \<Rightarrow> artifact_head \<Rightarrow> artifact_head" where
  "installed i v bits sch h =
     h\<lparr>ah_pins := (ah_pins h)[i := claimed v bits (ah_pins h ! i)], ah_current := v, ah_manifest_desc := bits, ah_schema_id := sch\<rparr>"

lemma claimed_fields [simp]:
  "ps_state (claimed v bits sl) = SLOT_LIVE" "ps_manifest (claimed v bits sl) = bits" "ps_version (claimed v bits sl) = v"
  "ps_pins (claimed v bits sl) = ps_pins sl"
  by (simp_all add: claimed_def)

lemma installed_fields [simp]:
  "ah_pins (installed i v bits sch h) = (ah_pins h)[i := claimed v bits (ah_pins h ! i)]" "ah_current (installed i v bits sch h) = v"
  "ah_manifest_desc (installed i v bits sch h) = bits"
  by (simp_all add: installed_def)

lemma live_at_installed: "i < length (ah_pins h) \<Longrightarrow> live_at (installed i v bits sch h) j \<longleftrightarrow> live_at h j \<or> j = i"
  by (auto simp: live_at_def nth_list_update)

lemma head_ok_install:
  assumes ok: "head_ok h ms cnt" and i: "i < length (ah_pins h)" "ps_state (ah_pins h ! i) = SLOT_FREE"
    and v: "v \<noteq> 0" "\<And>j. live_at h j \<Longrightarrow> ps_version (ah_pins h ! j) < v"
    and ms: "ms \<subseteq>\<^sub>m ms'" "ms' (ref_offset bits) = Some m" "mf_version m = v"
  shows "head_ok (installed i v bits sch h) ms' cnt"
proof -
  let ?h = "installed i v bits sch h"
  have ni: "\<not> live_at h i" using i(2) by (simp add: live_at_def pin_states)
  have live: "live_at ?h j \<longleftrightarrow> live_at h j \<or> j = i" for j by (rule live_at_installed [OF i(1)])
  have nth: "ah_pins ?h ! j = ah_pins h ! j" if "live_at h j" for j
  proof -
    have "j \<noteq> i" using that ni by auto
    then show ?thesis by simp
  qed
  have at: "ah_pins ?h ! i = claimed v bits (ah_pins h ! i)" using i(1) by simp
  have pos: "(ps_version (ah_pins ?h ! j) = v \<longleftrightarrow> j = i) \<and> ps_version (ah_pins ?h ! j) \<le> v" if "live_at ?h j" for j
  proof (cases "j = i")
    case True
    then show ?thesis using at by simp
  next
    case False
    then have "live_at h j" using that live by blast
    then show ?thesis using False v(2) [of j] nth [of j] by (metis less_le)
  qed
  then have le: "ps_version (ah_pins ?h ! j) \<le> v" if "live_at ?h j" for j using that by blast
  have slot: "slot_ok ms' (ah_pins ?h ! j) (cnt j)" if j: "j < length (ah_pins ?h)" for j
  proof (cases "j = i")
    case True
    then show ?thesis using head_okD(2) [OF ok i(1)] i v(1) ms(2,3) at by (auto simp: slot_ok_def pin_states)
  next
    case False
    have "ms' off = Some x" if "ms off = Some x" for off x using that ms(1) by (metis domI map_le_def)
    then show ?thesis using head_okD(2) [OF ok, of j] j False by (auto simp: slot_ok_def)
  qed
  have inj: "a = b" if "live_at ?h a" "live_at ?h b" "ps_version (ah_pins ?h ! a) = ps_version (ah_pins ?h ! b)" for a b
    using that pos [of a] pos [of b] live nth head_okD(3) [OF ok, of a b] by metis
  have cur: "\<exists>j. live_at ?h j \<and> ps_version (ah_pins ?h ! j) = v \<and> ps_manifest (ah_pins ?h ! j) = bits"
    using live [of i] at by (intro exI [of _ i]) simp
  show ?thesis
    unfolding head_ok_def installed_fields(2,3)
  proof (intro conjI)
    show "length (ah_pins ?h) = MAX_LIVE_VERSIONS" using head_okD(1) [OF ok] by simp
    show "v = NO_VERSION \<longrightarrow> bits = 0" using v(1) by (simp add: NO_VERSION_def)
  qed (use slot inj le cur in blast)+
qed

lemma art_inv_free_slot:
  assumes inv: "art_inv name s L ds hs ms" and i: "i < length (ah_pins (as_head s))" "ps_state (head_slot_at i s) = SLOT_FREE"
    and sl: "ps_state sl = SLOT_FREE" "ps_pins sl = ps_pins (head_slot_at i s)"
  shows "art_inv name (set_slot_at i sl s) L ds hs ms" "live_refs (ah_pins (as_head (set_slot_at i sl s))) = live_refs (ah_pins (as_head s))"
proof -
  note a = art_invD [OF inv]
  note c = coreD [OF a(1)]
  let ?h = "as_head s" and ?h' = "as_head (set_slot_at i sl s)"
  have ni: "\<not> live_at ?h i" using i(2) by (simp add: live_at_def pin_states head_slot_at_def)
  have live: "live_at ?h' j \<longleftrightarrow> live_at ?h j" for j
    using i sl(1) by (auto simp: live_at_def set_slot_at_def head_slot_at_def nth_list_update)
  have nth: "ah_pins ?h' ! j = ah_pins ?h ! j" if "live_at ?h j" for j
    using that ni by (cases "j = i") (auto simp: set_slot_at_def)
  have cur: "ah_current ?h' = ah_current ?h" "ah_manifest_desc ?h' = ah_manifest_desc ?h" "as_arena (set_slot_at i sl s) = as_arena s"
    by (simp_all add: set_slot_at_def)
  have slot: "slot_ok ms (ah_pins ?h' ! j) (pin_count hs j)" if j: "j < length (ah_pins ?h')" for j
    using head_okD(2) [OF c(3), of j] j i sl by (cases "j = i") (auto simp: set_slot_at_def slot_ok_def head_slot_at_def pin_states)
  have "\<exists>j. live_at ?h' j \<and> ps_version (ah_pins ?h' ! j) = ah_current ?h \<and> ps_manifest (ah_pins ?h' ! j) = ah_manifest_desc ?h"
    if "ah_current ?h \<noteq> NO_VERSION" using head_okD(6) [OF c(3) that] live nth by metis
  then have "head_ok ?h' ms (pin_count hs)"
    unfolding head_ok_def cur live
    using slot nth head_okD(1,5) [OF c(3)] head_okD(3) [OF c(3)] head_okD(4) [OF c(3)] by (auto simp: set_slot_at_def)
  moreover show lr: "live_refs (ah_pins ?h') = live_refs (ah_pins ?h)"
    using live_refs_same [OF i(1), of sl] i(2) sl(1) by (simp add: set_slot_at_def slot_ref_def head_slot_at_def pin_states)
  moreover have "settled ?h' (pin_count hs) {}" using a(2) live nth by (auto simp: settled_def cur)
  moreover have "held_pin (set_slot_at i sl s) ms p" if "p \<in> set hs" for p
    using a(3) that live nth by (auto simp: held_pin_def head_slot_at_def)
  ultimately show "art_inv name (set_slot_at i sl s) L ds hs ms" using c(1,2,4) a(4) by (simp add: art_inv_def core_def cur)
qed
section \<open>Installing\<close>

lemma readyD:
  assumes "ready name s L ds hs ms staged link w md m"
  shows "mid_inv name s L ds hs ms (mset (map offset (md_list (Some md))) + source_refs link w + mset (map offset staged))"
    "loose (as_arena s) ms (md_list (Some md))" "loose (as_arena s) ms (kept_chunks w)" "loose (as_arena s) ms staged"
    "\<forall>l. link = Some l \<longrightarrow> link_off l \<in> dom ms \<and> ml_generation l = gen_at (as_arena s) (link_off l)"
    "manifest_at (as_arena s) (offset md) = Inr m" "manifest_bytes_len m \<le> csize (ar_pool (as_arena s)) (offset md)"
    "offset md \<notin># source_refs link w + mset (map offset staged) + live_refs (ah_pins (as_head s)) + refs_of ms"
    "medges m = source_refs link w + mset (map offset staged)" "mf_prev m = link" "mf_chunks m = kept_chunks w @ staged"
    "chains name (ms(offset md \<mapsto> m))"
  using assms by (simp_all add: ready_def)

lemma ready_held:
  assumes rd: "ready name s L ds hs ms staged link w md m"
  shows "held_by (as_arena s) {} L (add_mset (offset md) (live_refs (ah_pins (as_head s)))) (ms(offset md \<mapsto> m))" "ms (offset md) = None"
proof -
  note r = readyD [OF rd]
  note n = mid_invD [OF r(1)]
  have h: "held_by (as_arena s) {} L (add_mset (offset md) (medges m + live_refs (ah_pins (as_head s)))) ms"
    using n(1) by (simp add: r(9) md_list_def)
  show new: "ms (offset md) = None" using r(8) n(8) by (auto simp: domIff)
  have pl: "offset md \<in> places (ar_pool (as_arena s))" by (rule ledger_refs [OF held_byD(1) [OF h]]) simp
  have d: "generation d = gen_at (as_arena s) (offset d) \<and> offset d \<notin> dom ms \<and> offset d \<noteq> offset md" if "d \<in> set (mf_chunks m)" for d
  proof -
    have d: "d \<in> set (kept_chunks w) \<or> d \<in> set staged" using that r(11) by auto
    have "offset d \<in># medges m" using that by (simp add: medges_def)
    moreover have "offset md \<notin># medges m" using r(8) by (simp add: r(9))
    ultimately have "offset d \<noteq> offset md" by metis
    then show ?thesis using d r(3,4) by (auto simp: loose_def)
  qed
  have ap: "offset d \<noteq> offset md" if x: "x \<in> ran ms" "d \<in> set (mf_chunks x)" for x d
  proof -
    obtain o' where "ms o' = Some x" using x(1) by (auto simp: ran_def)
    then have "offset d \<in># refs_of ms" using refs_of_member [OF held_byD(4) [OF h], of o' x "offset d"] x(2) by (simp add: medges_def)
    then show ?thesis using r(8) by auto
  qed
  show "held_by (as_arena s) {} L (add_mset (offset md) (live_refs (ah_pins (as_head s)))) (ms(offset md \<mapsto> m))"
    by (rule held_join [OF h new pl r(6,7)]) (use d ap r(5,10) in auto)
qed

lemma install_core:
  fixes sch :: u32
  assumes rd: "ready name s L ds hs ms staged link w md m" and i: "i < length (ah_pins (as_head s))" "ps_state (ah_pins (as_head s) ! i) = SLOT_FREE"
    and v: "mf_version m = v" "v \<noteq> 0" "\<forall>j. live_at (as_head s) j \<longrightarrow> ps_version (ah_pins (as_head s) ! j) < v"
  defines "s1 \<equiv> s\<lparr>as_head := installed i v (from_desc md) sch (as_head s)\<rparr>" and "ms1 \<equiv> ms(offset md \<mapsto> m)"
  shows "core name s1 L ms1 (pin_count hs)" "\<forall>p \<in> set hs. held_pin s1 ms1 p" "live_refs (ah_pins (as_head s1)) = add_mset (offset md) (live_refs (ah_pins (as_head s)))"
    "ms \<subseteq>\<^sub>m ms1"
proof -
  note r = readyD [OF rd]
  note n = mid_invD [OF r(1)]
  note h = ready_held [OF rd]
  have ni: "\<not> live_at (as_head s) i" using i(2) by (simp add: live_at_def pin_states)
  show lr: "live_refs (ah_pins (as_head s1)) = add_mset (offset md) (live_refs (ah_pins (as_head s)))"
    using live_refs_update [OF i(1), of "claimed v (from_desc md) (ah_pins (as_head s) ! i)"] i(2)
    by (simp add: s1_def slot_ref_def pin_states from_desc_def)
  show le: "ms \<subseteq>\<^sub>m ms1" using h(2) by (auto simp: ms1_def map_le_def)
  have "head_ok (as_head s1) ms1 (pin_count hs)"
    unfolding s1_def using head_ok_install [OF n(3) i v(2) _ le _ v(1)] v(3) by (simp add: ms1_def from_desc_def)
  then show "core name s1 L ms1 (pin_count hs)" using h(1) r(12) n(4) lr by (simp add: core_def s1_def ms1_def)
  show "\<forall>p \<in> set hs. held_pin s1 ms1 p"
  proof
    fix p assume "p \<in> set hs"
    then have p: "held_pin s ms p" using n(6) by blast
    then have ne: "vp_slot p \<noteq> i" using ni by (auto simp: held_pin_def)
    then have e: "head_slot_at (vp_slot p) s1 = head_slot_at (vp_slot p) s" by (simp add: head_slot_at_def s1_def)
    have "live_at (as_head s1) (vp_slot p)" using p live_at_installed [OF i(1)] by (simp add: s1_def held_pin_def)
    moreover have "ms1 off = Some x" if "ms off = Some x" for off x using that le by (metis domI map_le_def)
    ultimately show "held_pin s1 ms1 p" using p by (simp add: held_pin_def e)
  qed
qed

lemma succ_nonzero: "(x :: u64) \<noteq> - 1 \<Longrightarrow> x + 1 \<noteq> 0"
  by (metis add.right_neutral add_diff_cancel_right' diff_0)

lemma commit_won_inv:
  fixes art :: artifact and c :: commit and schema :: u32
  assumes rd: "ready name s L ds hs ms staged link w md m" and i: "i < length (ah_pins (as_head s))" "ps_state (ah_pins (as_head s) ! i) = SLOT_FREE"
    and v: "mf_version m = expect + 1" "expect \<noteq> - 1" and cur: "ah_current (as_head s) = expect"
    and fresh: "expect = NO_VERSION \<longrightarrow> (\<forall>j. \<not> live_at (as_head s) j)"
  defines "s2 \<equiv> s\<lparr>as_head := (as_head s)\<lparr>ah_pins := (ah_pins (as_head s))[i := claimed (expect + 1) (from_desc md) (ah_pins (as_head s) ! i)]\<rparr>\<rparr>"
  defines "s' \<equiv> commit_won art expect c (from_desc md) schema s2"
  obtains ms' where "art_inv name s' L ds hs ms'" "ms' \<subseteq>\<^sub>m ms(offset md \<mapsto> m)" "ah_current (as_head s') = expect + 1"
    "ah_manifest_desc (as_head s') = from_desc md"
    "keeps (spare L (live_refs (ah_pins (as_head s')) + refs_of ms')) (as_arena s) (as_arena s')"
proof -
  note n = mid_invD [OF readyD(1) [OF rd]]
  define sch where "sch = snd (compare_exchange (ah_schema_id (as_head s)) 0 schema)"
  define s1 where "s1 = s\<lparr>as_head := installed i (expect + 1) (from_desc md) sch (as_head s)\<rparr>"
  let ?ms = "ms(offset md \<mapsto> m)"
  have v0: "expect + 1 \<noteq> 0" by (rule succ_nonzero [OF v(2)])
  have up: "expect < expect + 1" using v(2) by (simp add: word_less_nat_alt unat_Suc_word)
  have "ps_version (ah_pins (as_head s) ! j) < expect + 1" if "live_at (as_head s) j" for j
    using fresh that head_okD(4) [OF n(3) that] cur up by (metis le_less_trans)
  then have lt: "\<forall>j. live_at (as_head s) j \<longrightarrow> ps_version (ah_pins (as_head s) ! j) < expect + 1" by blast
  note ic = install_core(1-3) [OF rd i v(1) v0 lt, where sch = sch, folded s1_def]
  have st: "staged_ok (as_arena s1) L ds" using n(7) by (simp add: s1_def)
  define s3 where "s3 = (if expect \<noteq> NO_VERSION then try_retire_version_at expect (Some (ah_manifest_desc (as_head s))) s1 else s1)"
  have s': "s' = (if a_watch art then s3\<lparr>as_events := as_events s3 @ [event_new (a_name_id art) (expect + 1) (commit_kind_of c)]\<rparr> else s3)"
    by (simp add: s'_def commit_won_def Let_def s2_def s3_def s1_def installed_def sch_def)
  have live: "live_at (as_head s1) j \<longleftrightarrow> live_at (as_head s) j \<or> j = i" for j using live_at_installed [OF i(1)] by (simp add: s1_def)
  have ni: "\<not> live_at (as_head s) i" using i(2) by (simp add: live_at_def pin_states)
  have nth: "ah_pins (as_head s1) ! j = ah_pins (as_head s) ! j" if "live_at (as_head s) j" for j
    using that ni by (cases "j = i") (auto simp: s1_def)
  have vi: "ps_version (ah_pins (as_head s1) ! i) = expect + 1" using i(1) by (simp add: s1_def)
  have cur1: "ah_current (as_head s1) = expect + 1" "ah_manifest_desc (as_head s1) = from_desc md" "as_arena s1 = as_arena s" by (simp_all add: s1_def)
  obtain ms' where "art_inv name s3 L ds hs ms'" "moves s1 ?ms s3 ms' L"
  proof (cases "expect = NO_VERSION")
    case True
    then have "live_at (as_head s1) j \<longleftrightarrow> j = i" for j using fresh live by blast
    then have "settled (as_head s1) (pin_count hs) {}" using vi cur1 by (simp add: settled_def)
    then have "art_inv name s1 L ds hs ?ms" using ic(1,2) st by (simp add: art_inv_def)
    then show thesis using that [of ?ms] moves_refl [of s1 s1] True by (simp add: s3_def)
  next
    case False
    then obtain k where k: "live_at (as_head s) k" "ps_version (ah_pins (as_head s) ! k) = expect" "ps_manifest (ah_pins (as_head s) ! k) = ah_manifest_desc (as_head s)"
      using head_okD(6) [OF n(3)] cur by auto
    have f: "find_slot_with_manifest expect (ah_manifest_desc (as_head s)) (as_head s1) = Some k"
      by (rule find_slot_with_manifest_live [OF coreD(3) [OF ic(1)]]) (use k nth live in auto)
    have "0 < pin_count hs j" if j: "j \<noteq> k" "live_at (as_head s1) j" "ps_version (ah_pins (as_head s1) ! j) \<noteq> expect + 1" for j
    proof -
      have l: "live_at (as_head s) j" using j live vi by blast
      then have "ps_version (ah_pins (as_head s) ! j) \<noteq> expect" using head_okD(3) [OF n(3) _ k(1)] k(2) j(1) by metis
      then show ?thesis using n(5) l cur by (simp add: settled_def)
    qed
    then have "settled (as_head s1) (pin_count hs) {k}" by (simp add: settled_def cur1)
    then show thesis
      using retire_settles [OF ic(1), where k = k and bits = "Some (ah_manifest_desc (as_head s))" and v = expect, OF _ _ ic(2) st] f False that
      by (auto simp: s3_def)
  qed
  then show thesis using that [of ms'] by (auto simp: s' moves_def cur1)
qed
lemma ready_journal: "ready name (s\<lparr>as_journal := j\<rparr>) L ds hs ms staged link w md m = ready name s L ds hs ms staged link w md m"
  by (simp add: ready_def mid_inv_def held_pin_def head_slot_at_def)

lemma journal_staged_eq: obtains rec j where "journal_staged art md s = (rec, s\<lparr>as_journal := j\<rparr>)"
proof (cases "as_journal s")
  case None
  then have "journal_staged art md s = (None, s\<lparr>as_journal := None\<rparr>)" by (simp add: journal_staged_def)
  then show thesis by (rule that)
next
  case (Some j)
  obtain r j' where r: "record_staged_manifest j (a_name_id art) (a_incarnation art) (from_desc md) (generation md) = (r, j')" by fastforce
  show thesis using that [of _ "Some j'"] Some r by (cases r) (simp_all add: journal_staged_def)
qed

lemma drop_rec_eq: obtains j where "drop_rec rec s = s\<lparr>as_journal := j\<rparr>"
proof (cases "as_journal s = None \<or> rec = None")
  case True
  then have "drop_rec rec s = s\<lparr>as_journal := as_journal s\<rparr>" by (auto simp: drop_rec_def split: option.splits)
  then show thesis by (rule that)
next
  case False
  then obtain j k where "as_journal s = Some j" "rec = Some k" by auto
  then have "drop_rec rec s = s\<lparr>as_journal := Some (snd (journal_release j k))\<rparr>" by (simp add: drop_rec_def)
  then show thesis by (rule that)
qed

text \<open>How a failed commit leaves the artifact: the versions are the same, and what it took is given back.\<close>

definition gave_up ::
  "u32 \<Rightarrow> artifact_state \<Rightarrow> (u32 \<rightharpoonup> u32) \<Rightarrow> chunk_desc list \<Rightarrow> version_pin list \<Rightarrow> (u32 \<rightharpoonup> manifest) \<Rightarrow> artifact_state \<Rightarrow> bool" where
  "gave_up name s L ds hs ms s' \<longleftrightarrow> art_inv name s' L ds hs ms
     \<and> keeps (spare L (live_refs (ah_pins (as_head s)) + refs_of ms)) (as_arena s) (as_arena s')
     \<and> live_refs (ah_pins (as_head s')) = live_refs (ah_pins (as_head s))
     \<and> ah_current (as_head s') = ah_current (as_head s) \<and> ah_manifest_desc (as_head s') = ah_manifest_desc (as_head s)"

lemma gave_up_journal [simp]: "gave_up name s L ds hs ms (s'\<lparr>as_journal := j\<rparr>) = gave_up name s L ds hs ms s'"
  by (simp add: gave_up_def)

lemma rollback_gave_up:
  assumes inv: "mid_inv name s L ds hs ms (mset (map offset (md_list md)) + source_refs link w + mset (map offset staged))"
    and lo: "loose (as_arena s) ms (md_list md)" "loose (as_arena s) ms (kept_chunks w)" "loose (as_arena s) ms staged"
    and link: "\<forall>l. link = Some l \<longrightarrow> link_off l \<in> dom ms \<and> ml_generation l = gen_at (as_arena s) (link_off l)"
  shows "gave_up name s L ds hs ms (rollback_staged staged link (kept_chunks w) md None s)"
  using mid_rollback [OF inv lo link] by (simp add: gave_up_def rollback_staged_eq)

lemma rollback_slot:
  fixes v bits :: u64
  assumes rd: "ready name s L ds hs ms staged link w md m" and i: "i < length (ah_pins (as_head s))" "ps_state (ah_pins (as_head s) ! i) = SLOT_FREE"
  defines "s2 \<equiv> s\<lparr>as_head := (as_head s)\<lparr>ah_pins := (ah_pins (as_head s))[i := claimed v bits (ah_pins (as_head s) ! i)]\<rparr>\<rparr>"
  shows "gave_up name s L ds hs ms (rollback_staged staged link (kept_chunks w) (Some md) (Some (i, v)) s2)"
proof -
  note r = readyD [OF rd]
  define s0 where "s0 = rollback_staged staged link (kept_chunks w) (Some md) None s"
  define sl where "sl = (claimed v bits (ah_pins (as_head s) ! i))\<lparr>ps_version := 0, ps_state := SLOT_FREE\<rparr>"
  have g: "gave_up name s L ds hs ms s0" unfolding s0_def by (rule rollback_gave_up [OF r(1-5)])
  have h0: "as_head s0 = as_head s" by (simp add: s0_def rollback_staged_eq)
  have eq: "rollback_staged staged link (kept_chunks w) (Some md) (Some (i, v)) s2 = set_slot_at i sl s0"
    using i(1) by (simp add: s0_def rollback_staged_eq s2_def set_slot_at_def head_slot_at_def sl_def Let_def)
  have inv0: "art_inv name s0 L ds hs ms" using g by (simp add: gave_up_def)
  have "i < length (ah_pins (as_head s0))" "ps_state (head_slot_at i s0) = SLOT_FREE" "ps_state sl = SLOT_FREE" "ps_pins sl = ps_pins (head_slot_at i s0)"
    using i by (simp_all add: h0 head_slot_at_def sl_def)
  note a = art_inv_free_slot [OF inv0 this]
  show ?thesis using g a unfolding eq gave_up_def h0 by (simp add: set_slot_at_def h0)
qed

lemma claim_slot_cases:
  obtains (full) "claim_slot v bits h = (None, h)"
  | (slot) i where "claim_slot v bits h = (Some i, h\<lparr>ah_pins := (ah_pins h)[i := claimed v bits (ah_pins h ! i)]\<rparr>)"
      "i < length (ah_pins h)" "ps_state (ah_pins h ! i) = SLOT_FREE"
proof (cases "first_slot (\<lambda>s. fst (compare_exchange (ps_state s) SLOT_FREE SLOT_LIVE)) 0 (ah_pins h)")
  case (Some i)
  have "i < length (ah_pins h)" "ps_state (ah_pins h ! i) = SLOT_FREE"
    using first_slot_Some [OF Some] by (auto simp: compare_exchange_def split: if_splits)
  then show thesis using slot [of i] Some by (simp add: claim_slot_def claimed_def)
qed (simp add: claim_slot_def full)

lemma commit_install_spec:
  assumes rd: "ready (a_name_id art) s L ds hs ms staged link w md m" and v: "mf_version m = expect + 1" "expect \<noteq> - 1"
    and live: "check_live art s" and fresh: "ah_current (as_head s) = NO_VERSION \<longrightarrow> (\<forall>j. \<not> live_at (as_head s) j)"
  obtains (lost) e s' where "commit_install art expect c staged link (kept_chunks w) md schema s = (Inl e, s')"
      "gave_up (a_name_id art) s L ds hs ms s'"
  | (won) s' ms' where "commit_install art expect c staged link (kept_chunks w) md schema s = (Inr (expect + 1), s')"
      "ah_current (as_head s) = expect" "art_inv (a_name_id art) s' L ds hs ms'" "ms' \<subseteq>\<^sub>m ms(offset md \<mapsto> m)"
      "ah_current (as_head s') = expect + 1" "ah_manifest_desc (as_head s') = from_desc md"
      "keeps (spare L (live_refs (ah_pins (as_head s')) + refs_of ms')) (as_arena s) (as_arena s')"
proof -
  obtain rec j where j: "journal_staged art md s = (rec, s\<lparr>as_journal := j\<rparr>)" by (rule journal_staged_eq)
  define s1 where "s1 = s\<lparr>as_journal := j\<rparr>"
  have rd1: "ready (a_name_id art) s1 L ds hs ms staged link w md m" unfolding s1_def by (subst ready_journal) (rule rd)
  have s1: "as_head s1 = as_head s" "as_arena s1 = as_arena s" by (simp_all add: s1_def)
  have up: "gave_up (a_name_id art) s L ds hs ms x = gave_up (a_name_id art) s1 L ds hs ms x" for x by (simp add: gave_up_def s1)
  have inc: "is_incarnation (a_incarnation art) (as_head s)" using live by (simp add: check_live_def)
  show thesis
  proof (cases rule: claim_slot_cases [of "expect + 1" "from_desc md" "as_head s"])
    case full
    obtain j' where j': "drop_rec rec (rollback_staged staged link (kept_chunks w) (Some md) None s1)
        = (rollback_staged staged link (kept_chunks w) (Some md) None s1)\<lparr>as_journal := j'\<rparr>" by (rule drop_rec_eq)
    have "gave_up (a_name_id art) s1 L ds hs ms (rollback_staged staged link (kept_chunks w) (Some md) None s1)"
      by (rule rollback_gave_up [OF readyD(1-5) [OF rd1]])
    then show thesis using lost full j j' up by (simp add: commit_install_def Let_def s1_def)
  next
    case (slot i)
    define s2 where "s2 = s1\<lparr>as_head := (as_head s1)\<lparr>ah_pins := (ah_pins (as_head s1))[i := claimed (expect + 1) (from_desc md) (ah_pins (as_head s1) ! i)]\<rparr>\<rparr>"
    have i: "i < length (ah_pins (as_head s1))" "ps_state (ah_pins (as_head s1) ! i) = SLOT_FREE" using slot by (simp_all add: s1)
    have rv: "revalidate_incarnation (a_incarnation art) (as_head s2)" using inc by (simp add: s2_def s1 revalidate_incarnation_def is_incarnation_def)
    have c2: "ah_current (as_head s2) = ah_current (as_head s)" by (simp add: s2_def s1)
    have run: "commit_install art expect c staged link (kept_chunks w) md schema s =
        (if ah_current (as_head s) = expect then (Inr (expect + 1), drop_rec rec (commit_won art expect c (from_desc md) schema s2))
         else (Inl (Conflict expect (ah_current (as_head s))),
               drop_rec rec (rollback_staged staged link (kept_chunks w) (Some md) (Some (i, expect + 1)) s2)))"
      using j slot(1) rv c2 by (simp add: commit_install_def Let_def s1_def s2_def compare_exchange_def)
    show thesis
    proof (cases "ah_current (as_head s) = expect")
      case False
      obtain j' where "drop_rec rec (rollback_staged staged link (kept_chunks w) (Some md) (Some (i, expect + 1)) s2)
          = (rollback_staged staged link (kept_chunks w) (Some md) (Some (i, expect + 1)) s2)\<lparr>as_journal := j'\<rparr>" by (rule drop_rec_eq)
      moreover have "gave_up (a_name_id art) s1 L ds hs ms (rollback_staged staged link (kept_chunks w) (Some md) (Some (i, expect + 1)) s2)"
        unfolding s2_def by (rule rollback_slot [OF rd1 i])
      ultimately show thesis using lost run False up by simp
    next
      case True
      obtain j' where "drop_rec rec (commit_won art expect c (from_desc md) schema s2)
          = (commit_won art expect c (from_desc md) schema s2)\<lparr>as_journal := j'\<rparr>" by (rule drop_rec_eq)
      moreover obtain ms' where "art_inv (a_name_id art) (commit_won art expect c (from_desc md) schema s2) L ds hs ms'"
        "ms' \<subseteq>\<^sub>m ms(offset md \<mapsto> m)" "ah_current (as_head (commit_won art expect c (from_desc md) schema s2)) = expect + 1"
        "ah_manifest_desc (as_head (commit_won art expect c (from_desc md) schema s2)) = from_desc md"
        "keeps (spare L (live_refs (ah_pins (as_head (commit_won art expect c (from_desc md) schema s2))) + refs_of ms'))
           (as_arena s1) (as_arena (commit_won art expect c (from_desc md) schema s2))"
        using commit_won_inv [OF rd1 i v, of art c schema] True fresh unfolding s2_def s1 by blast
      ultimately show thesis using won run True s1 by simp
    qed
  qed
qed
section \<open>The whole commit\<close>

lemma gave_up_from:
  assumes "gave_up name (s\<lparr>as_arena := b\<rparr>) L ds hs ms s'" "keeps S (as_arena s) b" "S \<subseteq> spare L (live_refs (ah_pins (as_head s)) + refs_of ms)"
  shows "gave_up name s L ds hs ms s'"
  using assms(1) keeps_trans [OF keeps_mono [OF assms(2,3)], of "spare L (live_refs (ah_pins (as_head s)) + refs_of ms)" "as_arena s'"]
  by (simp add: gave_up_def)

lemma table_in_sub:
  assumes "table_in ms bits old" "ms' \<subseteq>\<^sub>m ms" "ref_offset bits \<in> dom ms'" "chains art ms'"
  shows "table_in ms' bits old"
proof -
  obtain m c where m: "ms (ref_offset bits) = Some m" "chain_from ms m c" "old = chain_table (m # c)" using assms(1) by (auto simp: table_in_def)
  have m': "ms' (ref_offset bits) = Some m" using assms(2,3) m(1) by (metis map_le_def)
  obtain c' where c': "chain_from ms' m c'" by (rule chainsD [OF assms(4) m'])
  have "c' = c" using chain_from_more [OF c' assms(2)] m(2) chain_ok_det by (auto simp: chain_from_def)
  then show ?thesis using m m' c' by (auto simp: table_in_def)
qed

lemma fenced_gave_up:
  assumes inv: "art_inv name s L ds hs ms" and st: "set staged \<subseteq> set ds" "distinct (map offset staged)"
  shows "gave_up name s (L |` (- (offset ` set staged))) (filter (\<lambda>d. d \<notin> set staged) ds) hs ms (s\<lparr>as_arena := fold free_loaned staged (as_arena s)\<rparr>)"
proof -
  let ?a = "fold free_loaned staged (as_arena s)" and ?L = "L |` (- (offset ` set staged))"
  have mid: "mid_inv name s L ds hs ms {#}" using inv by (simp add: mid_inv_empty)
  note m = mid_invD [OF mid]
  have h: "held_by (as_arena s) {} L (live_refs (ah_pins (as_head s))) ms" using m(1) by simp
  have "offset d \<in> dom L" if "d \<in> set staged" for d
    using m(7) imageI [OF subsetD [OF st(1) that], of offset] by (simp add: staged_ok_def)
  then have loaned: "\<forall>d \<in> set staged. L (offset d) \<noteq> None" by (simp add: dom_def)
  have f: "held_by ?a {} ?L (live_refs (ah_pins (as_head s))) ms" "keeps (offset ` set staged) (as_arena s) ?a"
    using free_loaned_all [OF h loaned st(2)] by blast+
  have "x \<notin># live_refs (ah_pins (as_head s)) + refs_of ms" if "x \<in> offset ` set staged" for x
    using loaned that ledger_disjoint(5) [OF held_byD(1) [OF h], of x] by auto
  then have sub: "offset ` set staged \<subseteq> spare ?L (live_refs (ah_pins (as_head s)) + refs_of ms)" by (auto simp: restrict_map_def)
  have so: "staged_ok ?a ?L (filter (\<lambda>d. d \<notin> set staged) ds)"
  proof -
    have s1: "staged_ok (as_arena s) ?L (filter (\<lambda>d. d \<notin> set staged) ds)" by (rule staged_ok_rest [OF m(7) st(1)])
    have "gen_at ?a (offset d) = gen_at (as_arena s) (offset d)" if d: "d \<in> set (filter (\<lambda>d. d \<notin> set staged) ds)" for d
    proof -
      have o: "offset d \<in> dom ?L" using s1 imageI [OF d, of offset] by (simp add: staged_ok_def)
      then obtain ow where "L (offset d) = Some ow" "offset d \<notin> offset ` set staged" by (auto simp: restrict_map_def split: if_splits)
      then show ?thesis using keeps_gen [OF f(2) ledger_loans [OF held_byD(1) [OF h]]] by blast
    qed
    then show ?thesis using s1 by (simp add: staged_ok_def)
  qed
  have "mid_inv name (s\<lparr>as_arena := ?a\<rparr>) ?L (filter (\<lambda>d. d \<notin> set staged) ds) hs ms {#}"
    by (rule mid_inv_arena [OF mid _ f(2) so]) (use f(1) in simp)
  then show ?thesis using keeps_mono [OF f(2) sub] by (simp add: gave_up_def mid_inv_empty)
qed

definition commit_pre :: "artifact \<Rightarrow> artifact_state \<Rightarrow> chunk_desc list \<Rightarrow> u64 \<Rightarrow> u32 \<Rightarrow> commit \<Rightarrow> chunk_desc list \<Rightarrow> u32 list \<Rightarrow> bool" where
  "commit_pre art s ds expect owner c staged spans \<longleftrightarrow> check_live art s \<and> set staged \<subseteq> set ds \<and> distinct (map offset staged)
     \<and> sum_list (map unat spans) = length staged \<and> 0 \<notin> set (map unat spans) \<and> owner \<noteq> OWNER_NONE \<and> expect \<noteq> - 1
     \<and> (case c of Patch _ _ \<Rightarrow> False | _ \<Rightarrow> True)
     \<and> (ah_current (as_head s) = NO_VERSION \<longrightarrow> list_all (\<lambda>sl. ps_state sl \<noteq> SLOT_LIVE) (ah_pins (as_head s)))"

lemma commit_preD:
  assumes "commit_pre art s ds expect owner c staged spans"
  shows "check_live art s" "set staged \<subseteq> set ds" "distinct (map offset staged)" "sum_list (map unat spans) = length staged" "0 \<notin> set (map unat spans)"
    "owner \<noteq> OWNER_NONE" "expect \<noteq> - 1" "\<forall>x y. c \<noteq> Patch x y" "ah_current (as_head s) = NO_VERSION \<longrightarrow> (\<forall>j. \<not> live_at (as_head s) j)"
    "(case c of Patch _ _ \<Rightarrow> True | _ \<Rightarrow> False) = False"
  using assms by (auto simp: commit_pre_def live_at_def list_all_length split: commit.splits)
lemma head_desc_live: "head_ok h ms cnt \<Longrightarrow> ah_current h \<noteq> NO_VERSION \<Longrightarrow> ref_offset (ah_manifest_desc h) \<in> dom ms"
  using head_okD(6) [of h ms cnt] live_slot [of h ms cnt] by (metis domI)

lemma commit_tail:
  fixes art :: artifact and c :: commit
  assumes inv: "mid_inv (a_name_id art) s L ds hs ms (source_refs link w + mset (map offset staged))"
    and src: "sourced (as_arena s) ms (ah_manifest_desc (as_head s)) expect schema c link w"
    and lo: "loose (as_arena s) ms staged" and st: "distinct (map offset staged)" "\<forall>x \<in> ran ms. offset ` set (mf_chunks x) \<inter> offset ` set staged = {}"
    and sp: "sum_list (map unat spans) = length staged" "0 \<notin> set (map unat spans)"
    and ow: "owner \<noteq> OWNER_NONE" and top: "expect \<noteq> - 1"
    and live: "check_live art s" and fresh: "ah_current (as_head s) = NO_VERSION \<longrightarrow> (\<forall>j. \<not> live_at (as_head s) j)"
  defines "r \<equiv> (case stage_chunk (write_manifest_in (a_name_id art) (expect + 1) schema (kept_chunks w @ staged) (kept_spans w @ spans) link
        (map_option (\<lambda>w. (ws_base w, ws_members w)) w)) owner (as_arena s) of
       (Inl e, a1) \<Rightarrow> (Inl e, rollback_staged staged link (kept_chunks w) None None (s\<lparr>as_arena := a1\<rparr>))
     | (Inr md, a1) \<Rightarrow> commit_install art expect c staged link (kept_chunks w) md schema (s\<lparr>as_arena := a1\<rparr>))"
  obtains (lost) e s' where "r = (Inl e, s')" "gave_up (a_name_id art) s L ds hs ms s'"
  | (won) s' ms' ms2 where "r = (Inr (expect + 1), s')" "ah_current (as_head s) = expect" "art_inv (a_name_id art) s' L ds hs ms'"
      "ms \<subseteq>\<^sub>m ms2" "ms' \<subseteq>\<^sub>m ms2" "ah_current (as_head s') = expect + 1"
      "keeps (spare L (mset (map offset staged) + live_refs (ah_pins (as_head s)) + refs_of ms) \<union> spare L (live_refs (ah_pins (as_head s')) + refs_of ms')) (as_arena s) (as_arena s')"
      "\<And>old. (if expect = NO_VERSION then old = [] else table_in ms (ah_manifest_desc (as_head s)) old)
         \<Longrightarrow> table_in ms' (ah_manifest_desc (as_head s')) (table_base c old @ groups (map unat spans) staged)"
proof -
  note n = mid_invD [OF inv]
  define m where "m = new_manifest (a_name_id art) (expect + 1) schema staged spans link w"
  define f where "f = write_manifest_in (a_name_id art) (expect + 1) schema (kept_chunks w @ staged) (kept_spans w @ spans) link
        (map_option (\<lambda>w. (ws_base w, ws_members w)) w)"
  have mv: "mf_version m = expect + 1" by (simp add: m_def new_manifest_def written_manifest_def)
  show thesis
  proof (rule mid_stage [OF inv src lo st sp ow top, folded m_def f_def])
    fix e assume none: "stage_chunk f owner (as_arena s) = (Inl e, as_arena s)"
    have "gave_up (a_name_id art) s L ds hs ms (rollback_staged staged link (kept_chunks w) None None s)"
      by (rule rollback_gave_up)
        (use inv lo sourced_loose [OF held_byD(2) [OF n(1)] src] in \<open>simp_all add: md_list_def loose_def\<close>)
    then show thesis using lost none by (simp add: r_def f_def)
  next
    fix md b
    assume some: "stage_chunk f owner (as_arena s) = (Inr md, b)" "keeps {offset md} (as_arena s) b" "L (offset md) = None"
      "ready (a_name_id art) (s\<lparr>as_arena := b\<rparr>) L ds hs ms staged link w md m"
      "\<And>old. (if expect = NO_VERSION then old = [] else table_in ms (ah_manifest_desc (as_head s)) old)
         \<Longrightarrow> table_in (ms(offset md \<mapsto> m)) (from_desc md) (table_base c old @ groups (map unat spans) staged)"
    define s1 where "s1 = s\<lparr>as_arena := b\<rparr>"
    have rd: "ready (a_name_id art) s1 L ds hs ms staged link w md m" using some(4) by (simp add: s1_def)
    have sub: "{offset md} \<subseteq> spare L (live_refs (ah_pins (as_head s)) + refs_of ms)"
      using readyD(8) [OF rd] some(3) by (simp add: s1_def)
    have sub2: "{offset md} \<subseteq> spare L (mset (map offset staged) + live_refs (ah_pins (as_head s)) + refs_of ms)"
      using readyD(8) [OF rd] some(3) by (simp add: s1_def)
    have r: "r = commit_install art expect c staged link (kept_chunks w) md schema s1" using some(1) by (simp add: r_def f_def s1_def)
    have s1: "as_head s1 = as_head s" "check_live art s1" using live by (simp_all add: s1_def check_live_def)
    show thesis
    proof (rule commit_install_spec [OF rd mv top s1(2) fresh [folded s1(1)], of c schema])
      fix e s'
      assume lost: "commit_install art expect c staged link (kept_chunks w) md schema s1 = (Inl e, s')" "gave_up (a_name_id art) s1 L ds hs ms s'"
      have "gave_up (a_name_id art) s L ds hs ms s'" by (rule gave_up_from [OF lost(2) [unfolded s1_def] some(2) sub])
      then show thesis using that(1) r lost(1) by simp
    next
      fix s' ms'
      assume won: "commit_install art expect c staged link (kept_chunks w) md schema s1 = (Inr (expect + 1), s')"
        "ah_current (as_head s1) = expect" "art_inv (a_name_id art) s' L ds hs ms'" "ms' \<subseteq>\<^sub>m ms(offset md \<mapsto> m)"
        "ah_current (as_head s') = expect + 1" "ah_manifest_desc (as_head s') = from_desc md"
        "keeps (spare L (live_refs (ah_pins (as_head s')) + refs_of ms')) (as_arena s1) (as_arena s')"
      have d: "ref_offset (ah_manifest_desc (as_head s')) \<in> dom ms'"
        by (rule head_desc_live [OF coreD(3) [OF art_invD(1) [OF won(3)]]]) (use won(5) succ_nonzero [OF top] in \<open>simp add: NO_VERSION_def\<close>)
      have t: "table_in ms' (ah_manifest_desc (as_head s')) (table_base c old @ groups (map unat spans) staged)"
        if "if expect = NO_VERSION then old = [] else table_in ms (ah_manifest_desc (as_head s)) old" for old
        by (rule table_in_sub [OF _ won(4) d coreD(2) [OF art_invD(1) [OF won(3)]]]) (use some(5) [OF that] won(6) in simp)
      have "keeps ({offset md} \<union> spare L (live_refs (ah_pins (as_head s')) + refs_of ms')) (as_arena s) (as_arena s')"
        using keeps_trans [OF some(2)] won(7) by (simp add: s1_def)
      then have k: "keeps (spare L (mset (map offset staged) + live_refs (ah_pins (as_head s)) + refs_of ms) \<union> spare L (live_refs (ah_pins (as_head s')) + refs_of ms')) (as_arena s) (as_arena s')"
        by (rule keeps_mono) (rule Un_mono [OF sub2 subset_refl])
      have le: "ms \<subseteq>\<^sub>m ms(offset md \<mapsto> m)" using ready_held(2) [OF rd] by (auto simp: map_le_def)
      have "r = (Inr (expect + 1), s')" "ah_current (as_head s) = expect" using r won(1,2) s1(1) by simp_all
      then show thesis by (rule that(2) [OF _ _ won(3) le won(4,5) k]) (rule t)
    qed
  qed
qed
text \<open>What holds of an operation from \<open>s\<close> to \<open>s'\<close> that takes the account from \<open>L\<close> and \<open>ms\<close> to \<open>L'\<close> and \<open>ms'\<close>.\<close>

definition evolves ::
  "artifact_state \<Rightarrow> (u32 \<rightharpoonup> u32) \<Rightarrow> (u32 \<rightharpoonup> manifest) \<Rightarrow> artifact_state \<Rightarrow> (u32 \<rightharpoonup> u32) \<Rightarrow> (u32 \<rightharpoonup> manifest) \<Rightarrow> bool" where
  "evolves s L ms s' L' ms' \<longleftrightarrow>
     keeps (spare L (live_refs (ah_pins (as_head s)) + refs_of ms) \<union> spare L' (live_refs (ah_pins (as_head s')) + refs_of ms'))
       (as_arena s) (as_arena s')
     \<and> (\<exists>ms2. ms \<subseteq>\<^sub>m ms2 \<and> ms' \<subseteq>\<^sub>m ms2)"

lemma gave_up_evolves: "gave_up name s L' ds hs ms s' \<Longrightarrow> evolves s L ms s' L' ms"
proof -
  assume g: "gave_up name s L' ds hs ms s'"
  let ?S = "spare L (live_refs (ah_pins (as_head s)) + refs_of ms)" and ?T = "spare L' (live_refs (ah_pins (as_head s)) + refs_of ms)"
  have "keeps (?S \<union> ?T) (as_arena s) (as_arena s')" by (rule keeps_mono [OF _ Un_upper2]) (use g in \<open>simp add: gave_up_def\<close>)
  moreover have "live_refs (ah_pins (as_head s')) = live_refs (ah_pins (as_head s))" using g by (simp add: gave_up_def)
  moreover have "ms \<subseteq>\<^sub>m ms" by simp
  ultimately show ?thesis unfolding evolves_def by metis
qed

lemma commit_spec:
  fixes art :: artifact and c :: commit and schema :: u32 and tok :: "u32 option"
  assumes inv: "art_inv (a_name_id art) s L ds hs ms" and pre: "commit_pre art s ds expect owner c staged spans"
  defines "L1 \<equiv> L |` (- (offset ` set staged))" and "ds1 \<equiv> filter (\<lambda>d. d \<notin> set staged) ds"
    and "r \<equiv> commit_staged_inner_j art expect owner c staged spans schema tok s"
  obtains (lost) e s' where "r = (Inl e, s')" "gave_up (a_name_id art) s L1 ds1 hs ms s'"
  | (won) s' ms' where "r = (Inr (expect + 1), s')" "ah_current (as_head s) = expect" "art_inv (a_name_id art) s' L1 ds1 hs ms'"
      "evolves s L ms s' L1 ms'" "ah_current (as_head s') = expect + 1"
      "\<And>old. (if expect = NO_VERSION then old = [] else table_in ms (ah_manifest_desc (as_head s)) old)
         \<Longrightarrow> table_in ms' (ah_manifest_desc (as_head s')) (table_base c old @ groups (map unat spans) staged)"
proof -
  note p = commit_preD [OF pre]
  have start: "r = (if (case tok of None \<Rightarrow> False | Some t \<Rightarrow> \<not> lease_held_by owner t (ah_write_lease (as_head s)))
      then (Inl Fenced, s\<lparr>as_arena := fold free_loaned staged (as_arena s)\<rparr>)
      else case publish_loop [] staged (as_arena s) of
        (Inl e, a) \<Rightarrow> (Inl e, s\<lparr>as_arena := a\<rparr>)
      | (Inr _, a) \<Rightarrow>
          (case commit_sources art expect c schema (s\<lparr>as_arena := a\<rparr>) of
             (Inl e, s1) \<Rightarrow> (Inl e, rollback_staged staged None [] None None s1)
           | (Inr (link, w), s1) \<Rightarrow>
               (case stage_chunk (write_manifest_in (a_name_id art) (expect + 1) schema
                       (if kept_chunks w = [] then staged else kept_chunks w @ staged)
                       (if kept_chunks w = [] then spans else kept_spans w @ spans) link (map_option (\<lambda>w. (ws_base w, ws_members w)) w))
                          owner (as_arena s1) of
                     (Inl e, a1) \<Rightarrow> (Inl e, rollback_staged staged link (kept_chunks w) None None (s1\<lparr>as_arena := a1\<rparr>))
                   | (Inr md, a1) \<Rightarrow> commit_install art expect c staged link (kept_chunks w) md schema (s1\<lparr>as_arena := a1\<rparr>))))"
    unfolding r_def commit_staged_inner_j_def p(10) using p(1) by (simp only: kept_chunks_def kept_spans_def Let_def not_True_eq_False if_False)
  show thesis
  proof (cases "case tok of None \<Rightarrow> False | Some t \<Rightarrow> \<not> lease_held_by owner t (ah_write_lease (as_head s))")
    case True
    then show thesis using lost start fenced_gave_up [OF inv p(2,3)] unfolding L1_def ds1_def by simp
  next
    case False
    show thesis
    proof (rule mid_publish [OF inv p(2,3), folded L1_def ds1_def])
      fix a
      assume a: "publish_loop [] staged (as_arena s) = (Inr (), a)"
        "mid_inv (a_name_id art) (s\<lparr>as_arena := a\<rparr>) L1 ds1 hs ms (mset (map offset staged))" "keeps {} (as_arena s) a" "loose a ms staged"
        "\<forall>x \<in> ran ms. offset ` set (mf_chunks x) \<inter> offset ` set staged = {}"
      define s1 where "s1 = s\<lparr>as_arena := a\<rparr>"
      have s1: "mid_inv (a_name_id art) s1 L1 ds1 hs ms (mset (map offset staged))" "loose (as_arena s1) ms staged"
        using a(2,4) by (simp_all add: s1_def)
      show thesis
      proof (rule mid_sources [OF s1(1) p(3,8), of expect schema])
        fix e assume no: "commit_sources art expect c schema s1 = (Inl e, s1)"
        have "gave_up (a_name_id art) s1 L1 ds1 hs ms (rollback_staged staged None (kept_chunks None) None None s1)"
          by (rule rollback_gave_up) (use s1 in \<open>simp_all add: md_list_def loose_def source_refs_def kept_chunks_def\<close>)
        then have "gave_up (a_name_id art) s L1 ds1 hs ms (rollback_staged staged None (kept_chunks None) None None s1)"
          unfolding s1_def by (rule gave_up_from [OF _ a(3)]) simp
        moreover have "r = (Inl e, rollback_staged staged None (kept_chunks None) None None s1)"
          using start False a(1) no by (simp add: s1_def kept_chunks_def)
        ultimately show thesis using lost by blast
      next
        fix link w b
        assume src: "commit_sources art expect c schema s1 = (Inr (link, w), s1\<lparr>as_arena := b\<rparr>)"
          "mid_inv (a_name_id art) (s1\<lparr>as_arena := b\<rparr>) L1 ds1 hs ms (source_refs link w + mset (map offset staged))"
          "keeps {} (as_arena s1) b" "sourced b ms (ah_manifest_desc (as_head s1)) expect schema c link w"
        define s2 where "s2 = s\<lparr>as_arena := b\<rparr>"
        have e2: "s1\<lparr>as_arena := b\<rparr> = s2" "as_head s1 = as_head s" "as_head s2 = as_head s" "as_arena s2 = b" by (simp_all add: s1_def s2_def)
        have i2: "mid_inv (a_name_id art) s2 L1 ds1 hs ms (source_refs link w + mset (map offset staged))" using src(2) by (simp add: e2)
        have sr2: "sourced (as_arena s2) ms (ah_manifest_desc (as_head s2)) expect schema c link w" using src(4) by (simp add: e2)
        have "gen_at b (offset d) = gen_at a (offset d)" if "d \<in> set staged" for d
        proof -
          have "offset d \<in># mset (map offset staged) + live_refs (ah_pins (as_head s1)) + refs_of ms" using that by simp
          then show ?thesis using keeps_gen [OF src(3)] ledger_refs [OF held_byD(1) [OF mid_invD(1) [OF s1(1)]]] by (simp add: s1_def)
        qed
        then have l2: "loose (as_arena s2) ms staged" using loose_frame [OF a(4), of b] by (simp add: e2)
        have k2: "keeps {} (as_arena s) b" using keeps_trans [OF a(3), of "{}" b] src(3) by (simp add: s1_def)
        have own: "(if kept_chunks w = [] then staged else kept_chunks w @ staged) = kept_chunks w @ staged"
          "(if kept_chunks w = [] then spans else kept_spans w @ spans) = kept_spans w @ spans"
          using sourced_spans(3) [OF sr2] by auto
        define q where "q = (case stage_chunk (write_manifest_in (a_name_id art) (expect + 1) schema (kept_chunks w @ staged) (kept_spans w @ spans) link
            (map_option (\<lambda>w. (ws_base w, ws_members w)) w)) owner (as_arena s2) of
           (Inl e, a1) \<Rightarrow> (Inl e, rollback_staged staged link (kept_chunks w) None None (s2\<lparr>as_arena := a1\<rparr>))
         | (Inr md, a1) \<Rightarrow> commit_install art expect c staged link (kept_chunks w) md schema (s2\<lparr>as_arena := a1\<rparr>))"
        have rq: "r = q" using start False a(1) src(1) unfolding s1_def [symmetric] e2(1) own q_def by (simp add: s1_def [symmetric] e2 own)
        have live2: "check_live art s2" using p(1) by (simp add: check_live_def e2)
        show thesis
        proof (rule commit_tail [OF i2 sr2 l2 p(3) a(5) p(4,5,6,7) live2 p(9) [folded e2(3)], folded q_def])
          fix e s' assume "q = (Inl e, s')" "gave_up (a_name_id art) s2 L1 ds1 hs ms s'"
          then show thesis using lost rq gave_up_from [OF _ k2] by (simp add: s2_def)
        next
          fix s' ms' ms2
          assume w: "q = (Inr (expect + 1), s')" "ah_current (as_head s2) = expect" "art_inv (a_name_id art) s' L1 ds1 hs ms'"
            "ms \<subseteq>\<^sub>m ms2" "ms' \<subseteq>\<^sub>m ms2" "ah_current (as_head s') = expect + 1"
            "keeps (spare L1 (mset (map offset staged) + live_refs (ah_pins (as_head s2)) + refs_of ms) \<union> spare L1 (live_refs (ah_pins (as_head s')) + refs_of ms')) (as_arena s2) (as_arena s')"
            "\<And>old. (if expect = NO_VERSION then old = [] else table_in ms (ah_manifest_desc (as_head s2)) old)
              \<Longrightarrow> table_in ms' (ah_manifest_desc (as_head s')) (table_base c old @ groups (map unat spans) staged)"
          have "spare L1 (mset (map offset staged) + live_refs (ah_pins (as_head s2)) + refs_of ms) \<subseteq> spare L (live_refs (ah_pins (as_head s)) + refs_of ms)"
            by (auto simp: L1_def restrict_map_def e2)
          then have "keeps (spare L (live_refs (ah_pins (as_head s)) + refs_of ms) \<union> spare L1 (live_refs (ah_pins (as_head s')) + refs_of ms')) (as_arena s) (as_arena s')"
            using keeps_mono [OF w(7) Un_mono [OF _ subset_refl]] keeps_trans [OF k2] unfolding e2(4) by fastforce
          then have "evolves s L ms s' L1 ms'" using w(4,5) unfolding evolves_def by blast
          then show thesis using won [OF _ _ w(3)] rq w(1,2,6,8) unfolding e2(3) by blast
        qed
      qed
    qed
  qed
qed

end
