(* ===== verification/Shm_Artifact_Run.thy ===== *)
theory Shm_Artifact_Run
  imports Shm_Install
begin

text \<open>
  Runs of an artifact: creation, staging, commits, pins, their release, and the teardown, in any order. Shown:
  the account of the data segment stays exact, a pinned version does not change, a commit installs the table
  its kind asks for, and a teardown without pins returns every chunk.
\<close>

section \<open>Teardown\<close>
lemma moves_trans:
  assumes a: "moves s ms s1 ms1 L" and b: "moves s1 ms1 s2 ms2 L" and fin: "finite (dom ms1)"
  shows "moves s ms s2 ms2 L"
proof -
  let ?T = "spare L (live_refs (ah_pins (as_head s2)) + refs_of ms2)"
  have le: "live_refs (ah_pins (as_head s2)) \<subseteq># live_refs (ah_pins (as_head s1))" "refs_of ms2 \<subseteq># refs_of ms1"
    using b refs_of_mono [OF _ fin, of ms2] by (simp_all add: moves_def)
  have sub: "spare L (live_refs (ah_pins (as_head s1)) + refs_of ms1) \<subseteq> ?T"
    using mset_subset_eqD [OF le(1)] mset_subset_eqD [OF le(2)] by auto
  have k: "keeps (spare L (live_refs (ah_pins (as_head s1)) + refs_of ms1)) (as_arena s) (as_arena s1)" "keeps ?T (as_arena s1) (as_arena s2)"
    using a b by (simp_all add: moves_def)
  have "keeps (?T \<union> ?T) (as_arena s) (as_arena s2)" by (rule keeps_trans [OF keeps_mono [OF k(1) sub] k(2)])
  moreover have "ms2 \<subseteq>\<^sub>m ms" using a b map_le_trans [of ms2 ms1 ms] by (simp add: moves_def)
  ultimately show ?thesis using a b le(1) by (auto simp: moves_def)
qed

text \<open>In the middle of a teardown: no version is current, and the slots \<open>S\<close> are still to be looked at.\<close>

definition sunk :: "u32 \<Rightarrow> artifact_state \<Rightarrow> (u32 \<rightharpoonup> u32) \<Rightarrow> chunk_desc list \<Rightarrow> version_pin list \<Rightarrow> (u32 \<rightharpoonup> manifest) \<Rightarrow> nat set \<Rightarrow> bool" where
  "sunk name s L ds hs ms S \<longleftrightarrow> core name s L ms (pin_count hs) \<and> settled (as_head s) (pin_count hs) S
     \<and> (\<forall>p \<in> set hs. held_pin s ms p) \<and> staged_ok (as_arena s) L ds \<and> ah_current (as_head s) = NO_VERSION"
lemma evolves_sub:
  assumes "keeps (spare L' (live_refs (ah_pins (as_head s')) + refs_of ms')) (as_arena s) (as_arena s')" "ms' \<subseteq>\<^sub>m ms"
  shows "evolves s L ms s' L' ms'"
  unfolding evolves_def by (intro conjI exI [of _ ms] keeps_mono [OF assms(1) Un_upper2] map_le_refl assms(2))

lemma retire_slot_sunk:
  assumes s: "sunk name s L ds hs ms S" and i: "i < MAX_LIVE_VERSIONS"
  obtains ms' where "sunk name (retire_slot i s) L ds hs ms' (S - {i})" "moves s ms (retire_slot i s) ms' L"
proof (cases "live_at (as_head s) i")
  case False
  have c: "core name s L ms (pin_count hs)" using s by (simp add: sunk_def)
  have "i < length (ah_pins (as_head s))" using head_okD(1) [OF coreD(3) [OF c]] i by simp
  then have "ps_state (head_slot_at i s) \<noteq> SLOT_LIVE" using False by (simp add: live_at_def head_slot_at_def)
  then have r: "retire_slot i s = s" by (simp add: retire_slot_def)
  have "settled (as_head s) (pin_count hs) (S - {i})"
    using s False unfolding sunk_def settled_def by blast
  then show thesis using that [of ms] s moves_refl [of s s] by (simp add: r sunk_def)
next
  case True
  let ?v = "ps_version (head_slot_at i s)"
  have c: "core name s L ms (pin_count hs)" using s by (simp add: sunk_def)
  note ok = coreD(3) [OF c]
  have v: "?v \<noteq> NO_VERSION" by (rule live_slot [OF ok True]) (simp add: head_slot_at_def NO_VERSION_def)
  have f: "find_slot ?v (as_head s) = Some i" using find_slot_live [OF ok] True by (simp add: head_slot_at_def)
  have r: "retire_slot i s = try_retire_version_at ?v None s"
    using True v by (simp add: retire_slot_def live_at_def head_slot_at_def try_retire_version_def)
  have st: "settled (as_head s) (pin_count hs) S" "\<forall>p \<in> set hs. held_pin s ms p" "staged_ok (as_arena s) L ds" "ah_current (as_head s) = NO_VERSION"
    using s by (simp_all add: sunk_def)
  have f': "(case None of None \<Rightarrow> find_slot ?v (as_head s) | Some b \<Rightarrow> find_slot_with_manifest ?v b (as_head s)) = Some i" using f by simp
  show thesis
  proof (rule retire_step [OF c st(1) f' st(2,3)], unfold r [symmetric])
    fix ms'
    assume m: "core name (retire_slot i s) L ms' (pin_count hs)" "settled (as_head (retire_slot i s)) (pin_count hs) (S - {i})"
      "\<forall>p \<in> set hs. held_pin (retire_slot i s) ms' p" "staged_ok (as_arena (retire_slot i s)) L ds" "moves s ms (retire_slot i s) ms' L"
    have "ah_current (as_head (retire_slot i s)) = NO_VERSION" using m(5) st(4) by (simp add: moves_def)
    then show thesis using that [of ms'] m by (simp add: sunk_def)
  qed
qed

lemma retire_slots_sunk:
  assumes "sunk name s L ds hs ms S" "set is \<subseteq> {..<MAX_LIVE_VERSIONS}"
  shows "\<exists>ms'. sunk name (fold retire_slot is s) L ds hs ms' (S - set is) \<and> moves s ms (fold retire_slot is s) ms' L"
  using assms
proof (induction "is" arbitrary: s ms S)
  case Nil
  then show ?case using moves_refl [of s s] by auto
next
  case (Cons i "is")
  obtain ms1 where m1: "sunk name (retire_slot i s) L ds hs ms1 (S - {i})" "moves s ms (retire_slot i s) ms1 L"
    using retire_slot_sunk [OF Cons.prems(1), of i] Cons.prems(2) by auto
  obtain ms2 where m2: "sunk name (fold retire_slot is (retire_slot i s)) L ds hs ms2 (S - {i} - set is)"
    "moves (retire_slot i s) ms1 (fold retire_slot is (retire_slot i s)) ms2 L"
    using Cons.IH [OF m1(1)] Cons.prems(2) by auto
  have "finite (dom ms1)" using m1(1) held_byD(4) [OF coreD(1)] by (auto simp: sunk_def)
  then have "moves s ms (fold retire_slot is (retire_slot i s)) ms2 L" by (rule moves_trans [OF m1(2) m2(2)])
  moreover have "S - {i} - set is = S - set (i # is)" by auto
  ultimately show ?case using m2(1) by auto
qed

text \<open>The evictor's lease loop ends in its first round: after a forced release nobody holds the lease.\<close>

lemma evict_lease_returns: obtains t l' where "evict_lease l = Some (t, l')"
proof -
  have "lease_owner (snd (force_release_write_lease l)) = LEASE_OWNER_NONE"
    by (simp add: force_release_write_lease_def compare_exchange_def)
  then obtain t l' where "acquire_write_lease EVICTOR_OWNER (snd (force_release_write_lease l)) = (Some t, l')"
    by (auto simp: acquire_write_lease_def Let_def compare_exchange_def)
  then show thesis using that by (simp add: evict_lease.simps)
qed

lemma evict_all_spec:
  assumes inv: "art_inv name s L ds hs ms" and live: "check_live art s"
  obtains s' ms' where "evict_all art s = Some (Inr (), s')" "art_inv name s' L ds hs ms'" "ah_current (as_head s') = NO_VERSION" "evolves s L ms s' L ms'"
proof -
  obtain t l where l: "evict_lease (ah_write_lease (as_head s)) = Some (t, l)" by (rule evict_lease_returns)
  define s2 where "s2 = s\<lparr>as_head := (as_head s)\<lparr>ah_write_lease := l, ah_current := NO_VERSION, ah_manifest_desc := 0\<rparr>\<rparr>"
  define s3 where "s3 = fold retire_slot [0 ..< length (ah_pins (as_head s2))] s2"
  define s4 where "s4 = snd (on_lease (release_write_lease EVICTOR_OWNER t) s3)"
  have e: "evict_all art s = Some (Inr (), s4)"
    using live l by (simp add: evict_all_def Let_def check_live_def revalidate_incarnation_def is_incarnation_def s4_def s3_def s2_def)
  note a = art_invD [OF inv]
  note c = coreD [OF a(1)]
  have "head_ok (as_head s2) ms (pin_count hs)" using c(3) by (simp add: head_ok_def live_at_def s2_def)
  then have "sunk name s2 L ds hs ms UNIV"
    using c(1,2,4) a(3,4) by (simp add: sunk_def core_def settled_def held_pin_def live_at_def head_slot_at_def s2_def)
  moreover have len: "length (ah_pins (as_head s2)) = MAX_LIVE_VERSIONS" using head_okD(1) [OF c(3)] by (simp add: s2_def)
  ultimately obtain ms' where m: "sunk name s3 L ds hs ms' (UNIV - set [0 ..< MAX_LIVE_VERSIONS])" "moves s2 ms s3 ms' L"
    using retire_slots_sunk [of name s2 L ds hs ms UNIV "[0 ..< MAX_LIVE_VERSIONS]"] unfolding s3_def len
    by (metis atLeastLessThan_upt lessThan_atLeast0 subset_refl)
  have "length (ah_pins (as_head s3)) = MAX_LIVE_VERSIONS" using m(1) head_okD(1) [OF coreD(3)] by (auto simp: sunk_def)
  then have "settled (as_head s3) (pin_count hs) {}" using m(1) by (auto simp: sunk_def settled_def live_at_def)
  then have i3: "art_inv name s3 L ds hs ms'" using m(1) by (simp add: sunk_def art_inv_def)
  have eq4: "as_arena s4 = as_arena s3" "ah_pins (as_head s4) = ah_pins (as_head s3)" "ah_current (as_head s4) = ah_current (as_head s3)"
    "ah_manifest_desc (as_head s4) = ah_manifest_desc (as_head s3)"
    by (simp_all add: s4_def on_lease_def split: prod.splits)
  have "keeps (spare L (live_refs (ah_pins (as_head s3)) + refs_of ms')) (as_arena s) (as_arena s3)" "ms' \<subseteq>\<^sub>m ms"
    using m(2) by (simp_all add: moves_def s2_def)
  then have "evolves s L ms s4 L ms'" by (intro evolves_sub) (simp_all add: eq4)
  moreover have "art_inv name s4 L ds hs ms'" using i3 art_inv_cong [OF eq4] by simp
  moreover have "ah_current (as_head s4) = NO_VERSION" using m(1) by (simp add: eq4 sunk_def)
  ultimately show thesis using that e by blast
qed
section \<open>Creation and staging\<close>

lemma created_small:
  assumes fits: "config_fits cfg" and p: "pool_create sg m0 cfg = Inr (h, p)"
  shows "length (ctrls p) < 2 ^ 30"
proof -
  let ?l = "compute_layout cfg"
  have c: "cfg \<noteq> []" "total_bytes ?l \<le> payload_len sg" using p by (auto simp: pool_create_def Let_def split: if_splits)
  have ct: "ctrls p = replicate (unat (total_chunks ?l)) (init_at 0)" using p by (auto intro: pool_create_Inr [OF fits c, of m0])
  have ok: "layout_ok cfg ?l" by (rule compute_layout_ok [OF fits])
  then have "ctrl_offset ?l + 16 * unat (total_chunks ?l) \<le> total_bytes ?l" "HEADER_SIZE + total_bytes ?l \<le> 2 ^ 32"
    by (auto simp: layout_ok_def offsets_ok_def)
  then show ?thesis by (simp add: ct)
qed

lemma create_inv:
  assumes fits: "config_fits cfg" and c: "artifact_create name head_seg data_seg m0 b0 cfg = Inr (art, s)"
  shows "art_inv (a_name_id art) s Map.empty [] [] Map.empty" "check_live art s"
proof -
  obtain h p where p: "pool_create data_seg m0 cfg = Inr (h, p)"
    using c by (auto simp: artifact_create_def split: sum.splits)
  then have s: "s = \<lparr>as_arena = \<lparr>ar_pool = p, ar_bytes = b0\<rparr>, as_head = commission FIRST_INCARNATION fresh_head, as_journal = None, as_events = []\<rparr>"
    and art: "art = \<lparr>a_name_id = name, a_incarnation = FIRST_INCARNATION, a_watch = False\<rparr>"
    using c by (auto simp: artifact_create_def split: if_splits)
  note led = ledger_create [OF fits p, of b0]
  have hd: "ah_pins (as_head s) = replicate MAX_LIVE_VERSIONS \<lparr>ps_version = 0, ps_manifest = 0, ps_pins = 0, ps_state = SLOT_FREE\<rparr>"
    "ah_current (as_head s) = NO_VERSION" "ah_manifest_desc (as_head s) = 0"
    by (simp_all add: s commission_def fresh_head_def NO_VERSION_def)
  have nl: "\<not> live_at (as_head s) i" for i by (simp add: live_at_def hd pin_states)
  have "sum_list (replicate n {#}) = ({#} :: u32 multiset)" for n by (induction n) simp_all
  then have lr: "live_refs (ah_pins (as_head s)) = {#}" by (simp add: hd live_refs_def slot_ref_def pin_states)
  have "head_ok (as_head s) Map.empty (pin_count [])" using nl by (simp add: head_ok_def hd slot_ok_def pin_count_def)
  moreover have "held_by (as_arena s) {} Map.empty (live_refs (ah_pins (as_head s))) Map.empty"
    using led unfolding lr by (simp add: held_by_def manifests_def refs_of_def s)
  ultimately have "core (a_name_id art) s Map.empty Map.empty (pin_count [])"
    using created_small [OF fits p] by (simp add: core_def chains_def s)
  then show "art_inv (a_name_id art) s Map.empty [] [] Map.empty" using nl by (simp add: art_inv_def settled_def staged_ok_def)
  show "check_live art s" by (simp add: check_live_def is_incarnation_def s art commission_def)
qed

lemma evolves_arena:
  assumes k: "keeps S (as_arena s) b" and S: "S \<subseteq> spare L (live_refs (ah_pins (as_head s)) + refs_of ms)"
  shows "evolves s L ms (s\<lparr>as_arena := b\<rparr>) L' ms"
proof -
  have e: "as_head (s\<lparr>as_arena := b\<rparr>) = as_head s" "as_arena (s\<lparr>as_arena := b\<rparr>) = b" by simp_all
  show ?thesis
    unfolding evolves_def e by (intro conjI exI [of _ ms] map_le_refl keeps_mono [OF k] subset_trans [OF S] Un_upper1)
qed

text \<open>A writer stages a chunk: it allocates, fills what it asked for and loans.\<close>

definition stage_data :: "nat \<Rightarrow> u8 list \<Rightarrow> u32 \<Rightarrow> artifact_state \<Rightarrow> (artifact_error + chunk_desc) \<times> artifact_state" where
  "stage_data n bs owner s =
     (case allocator_alloc n (as_arena s) of
        (Inl e, a) \<Rightarrow> (Inl (Arrow e), s\<lparr>as_arena := a\<rparr>)
      | (Inr d, a) \<Rightarrow>
          (case loan_all [d] owner (a\<lparr>ar_bytes := write_bytes (allocator_resolve d) (take n bs) (ar_bytes a)\<rparr>) of
             (Inl e, a') \<Rightarrow> (Inl e, s\<lparr>as_arena := a'\<rparr>)
           | (Inr _, a') \<Rightarrow> (Inr d, s\<lparr>as_arena := a'\<rparr>)))"

lemma stage_data_inv:
  assumes inv: "art_inv name s L ds hs ms" and ow: "owner \<noteq> OWNER_NONE"
  obtains (full) e where "stage_data n bs owner s = (Inl e, s)"
  | (data) d s' where "stage_data n bs owner s = (Inr d, s')" "art_inv name s' (L(offset d \<mapsto> owner)) (d # ds) hs ms"
      "evolves s L ms s' (L(offset d \<mapsto> owner)) ms"
proof -
  have mid: "mid_inv name s L ds hs ms {#}" using inv by (simp add: mid_inv_empty)
  note m = mid_invD [OF mid]
  let ?R = "live_refs (ah_pins (as_head s)) + refs_of ms" and ?a = "as_arena s"
  have h: "held_by ?a {} L (live_refs (ah_pins (as_head s))) ms" using m(1) by simp
  note hd = held_byD [OF h]
  obtain r a1 where al: "allocator_alloc n ?a = (r, a1)" by fastforce
  show thesis
  proof (cases r)
    case (Inl e)
    then have "a1 = ?a" using ledger_alloc [OF hd(1) al] by simp
    then show thesis using full al Inl by (simp add: stage_data_def)
  next
    case (Inr d)
    note s = ledger_alloc [OF hd(1) al, unfolded Inr, simplified]
    define a2 where "a2 = a1\<lparr>ar_bytes := write_bytes (unat (offset d)) (take n bs) (ar_bytes a1)\<rparr>"
    have l1: "ledger a1 {offset d} L ?R" and new: "L (offset d) = None" "offset d \<notin># ?R" and pl: "offset d \<in> places (ar_pool ?a)"
      and k1: "keeps {} ?a a1" using s by auto
    have pl1: "offset d \<in> places (ar_pool a1)" "csize (ar_pool a1) = csize (ar_pool ?a)"
      using pl keeps_places [OF k1] same_shape_locate(4) [OF keeps_shape [OF k1]] by simp_all
    have k2: "keeps {offset d} a1 a2" unfolding a2_def by (rule keeps_write [OF l1 pl1(1)]) (use s in \<open>simp add: pl1 min.coboundedI2\<close>)
    have l2: "ledger a2 {offset d} L ?R" using l1 by (simp add: a2_def)
    let ?b = "set_chunk (offset d) (snd (try_loan owner (chunk_at a2 (offset d)))) a2"
    have ln: "try_loan owner (chunk_at a2 (offset d)) = (Inr (), snd (try_loan owner (chunk_at a2 (offset d))))"
      "ledger ?b {} (L(offset d \<mapsto> owner)) ?R" "keeps {} a2 ?b" using ledger_loan [OF l2 _ ow, of "offset d"] by auto
    have pl2: "offset d \<in> places (ar_pool a2)" using pl1 by (simp add: a2_def)
    have "fst (try_loan owner (chunk_at a2 (offset d))) = Inr ()" using ln(1) by (metis fst_conv)
    then have "loan_all [d] owner a2 = (Inr (), ?b)" using pool_ctrl_place [OF pl2] by (simp add: loan_all_def on_ctrl_place)
    then have run: "stage_data n bs owner s = (Inr d, s\<lparr>as_arena := ?b\<rparr>)"
      using al Inr by (simp add: stage_data_def a2_def allocator_resolve_def)
    have k: "keeps {offset d} ?a ?b" using keeps_trans [OF keeps_trans [OF k1 k2] ln(3)] by simp
    have "dom ms \<inter> {offset d} = {}" using hd(3) new(2) by auto
    then have "manifests ?b ms"
      by (intro manifests_kept [OF hd(2,1) k]) (use new(2) manifestsD(7) [OF hd(2)] in \<open>auto simp: map_le_def\<close>)
    then have hb: "held_by ?b {} (L(offset d \<mapsto> owner)) (live_refs (ah_pins (as_head s))) ms" using ln(2) hd(3) by (simp add: held_by_def)
    have "generation d = gen_at ?b (offset d)"
    proof -
      have "chunk_at a2 (offset d) = chunk_at a1 (offset d)" by (simp add: a2_def chunk_at_def)
      then have "gen_at a2 (offset d) = gen_at ?a (offset d)" using s by simp
      then show ?thesis using keeps_gen [OF ln(3) pl2] s by simp
    qed
    moreover have "staged_ok ?b L ds" by (rule staged_frame [OF m(7) k hd(1)]) (use new(1) in auto)
    moreover have "offset d \<notin> offset ` set ds" using m(7) new(1) unfolding staged_ok_def by (metis domIff)
    ultimately have "staged_ok ?b (L(offset d \<mapsto> owner)) (d # ds)" by (auto simp: staged_ok_def)
    then have "mid_inv name (s\<lparr>as_arena := ?b\<rparr>) (L(offset d \<mapsto> owner)) (d # ds) hs ms {#}"
      by (intro mid_inv_arena [OF mid _ k]) (use hb in simp_all)
    then have i: "art_inv name (s\<lparr>as_arena := ?b\<rparr>) (L(offset d \<mapsto> owner)) (d # ds) hs ms" by (simp add: mid_inv_empty)
    have "evolves s L ms (s\<lparr>as_arena := ?b\<rparr>) (L(offset d \<mapsto> owner)) ms" by (rule evolves_arena [OF k]) (use new in simp)
    then show thesis using data run i by blast
  qed
qed
section \<open>A pinned version does not change\<close>

lemma pin_reads:
  assumes inv: "core name s L ms cnt" and p: "held_pin s ms p"
  obtains c where "chain_from ms (vp_manifest p) c" "pin_chain p s = Inr (rev (vp_manifest p # c))"
    "pin_batches p s = Inr (chain_table (vp_manifest p # c))" "ms (ref_offset (ps_manifest (head_slot_at (vp_slot p) s))) = Some (vp_manifest p)"
    "\<forall>d \<in> set (concat (map mf_chunks (vp_manifest p # c))). offset d \<in># refs_of ms"
proof -
  note c = coreD [OF inv]
  let ?m = "vp_manifest p" and ?off = "ref_offset (ps_manifest (head_slot_at (vp_slot p) s))"
  have m: "ms ?off = Some ?m" using p by (auto simp: held_pin_def)
  obtain ch where ch: "mf_artifact_id ?m = name" "chain_from ms ?m ch" by (rule chainsD [OF c(2) m])
  note r = chain_reads_table [OF held_byD(2) [OF c(1)] c(2) m ch(2)]
  have "offset d \<in># refs_of ms" if d: "d \<in> set (concat (map mf_chunks (?m # ch)))" for d
  proof -
    obtain x where x: "x \<in> set (?m # ch)" "d \<in> set (mf_chunks x)" using d by auto
    then obtain o' where o: "ms o' = Some x" using chain_members [of ms ?m ch] ch(2) m by (auto simp: chain_from_def ran_def)
    show ?thesis using refs_of_member [OF held_byD(4) [OF c(1)] o, of "offset d"] x(2) by (simp add: medges_def)
  qed
  then show thesis using that [of ch] ch r m by (auto simp: pin_chain_def pin_batches_def simp del: set_concat)
qed

definition same_bytes :: "chunk_desc \<Rightarrow> artifact_state \<Rightarrow> artifact_state \<Rightarrow> bool" where
  "same_bytes d s s' \<longleftrightarrow> (\<forall>x. unat (offset d) \<le> x \<and> x < unat (offset d) + csize (ar_pool (as_arena s)) (offset d)
     \<longrightarrow> ar_bytes (as_arena s') x = ar_bytes (as_arena s) x)"

lemma pinned_same:
  assumes inv: "art_inv name s L ds hs ms" "art_inv name s' L' ds' hs' ms'" and ev: "evolves s L ms s' L' ms'"
    and p: "p \<in> set hs" "p \<in> set hs'"
  shows "pin_chain p s' = pin_chain p s" "\<exists>cs. data_chunks p s = Inr cs \<and> (\<forall>d \<in> set cs. same_bytes d s s')"
    "csize (ar_pool (as_arena s')) = csize (ar_pool (as_arena s))"
proof -
  note hp = art_invD(3) [OF inv(1), rule_format, OF p(1)] art_invD(3) [OF inv(2), rule_format, OF p(2)]
  obtain c where c: "chain_from ms (vp_manifest p) c" "pin_chain p s = Inr (rev (vp_manifest p # c))"
    "\<forall>d \<in> set (concat (map mf_chunks (vp_manifest p # c))). offset d \<in># refs_of ms" by (rule pin_reads [OF art_invD(1) [OF inv(1)] hp(1)])
  obtain c' where c': "chain_from ms' (vp_manifest p) c'" "pin_chain p s' = Inr (rev (vp_manifest p # c'))"
    "\<forall>d \<in> set (concat (map mf_chunks (vp_manifest p # c'))). offset d \<in># refs_of ms'" by (rule pin_reads [OF art_invD(1) [OF inv(2)] hp(2)])
  obtain ms2 where ms2: "ms \<subseteq>\<^sub>m ms2" "ms' \<subseteq>\<^sub>m ms2" using ev by (auto simp: evolves_def)
  have eq: "c' = c"
    using chain_from_more [OF c(1) ms2(1)] chain_from_more [OF c'(1) ms2(2)] chain_ok_det by (auto simp: chain_from_def)
  then show "pin_chain p s' = pin_chain p s" using c(2) c'(2) by simp
  have k: "keeps (spare L (live_refs (ah_pins (as_head s)) + refs_of ms) \<union> spare L' (live_refs (ah_pins (as_head s')) + refs_of ms'))
      (as_arena s) (as_arena s')" using ev by (simp add: evolves_def)
  show "csize (ar_pool (as_arena s')) = csize (ar_pool (as_arena s))" by (rule same_shape_locate(4) [OF keeps_shape [OF k]])
  have "same_bytes d s s'" if d: "d \<in> set (concat (map mf_chunks (rev (vp_manifest p # c))))" for d
  proof -
    have d': "d \<in> set (concat (map mf_chunks (vp_manifest p # c)))" using d by auto
    have r: "offset d \<in># refs_of ms" "offset d \<in># refs_of ms'" using d' c(3) c'(3) eq by blast+
    have "offset d \<in># live_refs (ah_pins (as_head s)) + refs_of ms" using r(1) by simp
    then have pl: "offset d \<in> places (ar_pool (as_arena s))" by (rule ledger_refs [OF held_byD(1) [OF coreD(1) [OF art_invD(1) [OF inv(1)]]]])
    then show ?thesis using k r by (auto simp: keeps_def same_bytes_def)
  qed
  then show "\<exists>cs. data_chunks p s = Inr cs \<and> (\<forall>d \<in> set cs. same_bytes d s s')"
    using c(2) by (intro exI [of _ "concat (map mf_chunks (rev (vp_manifest p # c)))"]) (auto simp: data_chunks_def)
qed

section \<open>Runs\<close>

type_synonym art_conf = "artifact_state \<times> chunk_desc list \<times> version_pin list"

text \<open>
  A configuration is the artifact, the chunks that are staged and the pins that are held. A step is one
  operation run to completion; the lease word and the journal may change between them in any way.
\<close>

inductive astep :: "artifact \<Rightarrow> art_conf \<Rightarrow> art_conf \<Rightarrow> bool" for art where
  stage: "owner \<noteq> OWNER_NONE \<Longrightarrow> stage_data n bs owner s = (Inr d, s') \<Longrightarrow> astep art (s, ds, hs) (s', d # ds, hs)"
| commit: "commit_pre art s ds expect owner c staged spans \<Longrightarrow> commit_staged_inner_j art expect owner c staged spans schema tok s = (r, s')
    \<Longrightarrow> astep art (s, ds, hs) (s', filter (\<lambda>d. d \<notin> set staged) ds, hs)"
| pinned: "length hs < 2 ^ 32 - 1 \<Longrightarrow> pin_inner art s = Some (Inr p, s') \<Longrightarrow> astep art (s, ds, hs) (s', ds, p # hs)"
| refused: "pin_inner art s = Some (Inl e, s') \<Longrightarrow> astep art (s, ds, hs) (s', ds, hs)"
| dropped: "p \<in> set hs \<Longrightarrow> \<forall>k j. vp_journal p = Some k \<and> as_journal s = Some j \<longrightarrow> fst (journal_release j k) \<noteq> Inr False
    \<Longrightarrow> astep art (s, ds, hs) (pin_drop p s, ds, remove1 p hs)"
| replayed: "p \<in> set hs \<Longrightarrow> release_leaked_pin (vp_version p) s = (b, s') \<Longrightarrow> astep art (s, ds, hs) (s', ds, remove1 p hs)"
| evicted: "evict_all art s = Some (r, s') \<Longrightarrow> astep art (s, ds, hs) (s', ds, hs)"
| lease: "astep art (s, ds, hs) (s\<lparr>as_head := (as_head s)\<lparr>ah_write_lease := l\<rparr>\<rparr>, ds, hs)"
| journal: "astep art (s, ds, hs) (s\<lparr>as_journal := j\<rparr>, ds, hs)"

inductive_cases astepE: "astep art (s, ds, hs) (s', ds', hs')"

lemma evolves_same:
  assumes "as_arena s' = as_arena s"
  shows "evolves s L ms s' L' ms"
  unfolding evolves_def by (intro conjI exI [of _ ms] map_le_refl) (simp add: assms)

lemma moves_evolves: "moves s ms s' ms' L \<Longrightarrow> evolves s L ms s' L ms'"
  by (rule evolves_sub) (simp_all add: moves_def)
lemma pin_inner_inv:
  assumes inv: "art_inv (a_name_id art) s L ds hs ms" and p: "pin_inner art s = Some (Inr p, s')" and few: "length hs < 2 ^ 32 - 1"
  shows "art_inv (a_name_id art) s' L ds (p # hs) ms" "as_arena s' = as_arena s" "vp_version p = ah_current (as_head s)"
    "ps_manifest (head_slot_at (vp_slot p) s) = ah_manifest_desc (as_head s)" "held_pin s ms p"
proof -
  obtain j where j: "s' = (set_slot_at (vp_slot p) (publish_pin (head_slot_at (vp_slot p) s)) s)\<lparr>as_journal := j\<rparr>" "held_pin s ms p"
    "vp_version p = ah_current (as_head s)" "ps_manifest (head_slot_at (vp_slot p) s) = ah_manifest_desc (as_head s)"
    by (rule pin_inner_spec [OF inv]) (use p in auto)
  then show "vp_version p = ah_current (as_head s)" "ps_manifest (head_slot_at (vp_slot p) s) = ah_manifest_desc (as_head s)" "held_pin s ms p"
    by blast+
  have "live_at (as_head s) (vp_slot p)" using j(2) by (simp add: held_pin_def)
  then show "art_inv (a_name_id art) s' L ds (p # hs) ms" using publish_pin_inv [OF inv _ j(2) few] j(1) by simp
  show "as_arena s' = as_arena s" by (simp add: j(1) set_slot_at_def)
qed

lemma pin_refused:
  assumes inv: "art_inv (a_name_id art) s L ds hs ms" and p: "pin_inner art s = Some (Inl e, s')"
  shows "\<exists>j. s' = s\<lparr>as_journal := j\<rparr>"
proof (rule pin_inner_spec [OF inv])
  show ?thesis if "pin_inner art s = Some (Inl VersionGone, s)" using that p by (intro exI [of _ "as_journal s"]) simp
  show ?thesis if "pin_inner art s = Some (Inl AStale, s)" using that p by (intro exI [of _ "as_journal s"]) simp
qed (use p in auto)

lemma pin_drop_inv:
  assumes inv: "art_inv name s L ds hs ms" and p: "p \<in> set hs"
    and rec: "\<forall>k j. vp_journal p = Some k \<and> as_journal s = Some j \<longrightarrow> fst (journal_release j k) \<noteq> Inr False"
  obtains ms' where "art_inv name (pin_drop p s) L ds (remove1 p hs) ms'" "moves s ms (pin_drop p s) ms' L"
proof -
  obtain j where j: "pin_drop p s = pin_unpin p (s\<lparr>as_journal := j\<rparr>)"
  proof (cases "vp_journal p = None \<or> as_journal s = None")
    case True
    then have "pin_drop p s = pin_unpin p s" by (auto simp: pin_drop_def split: option.splits)
    then show thesis using that [of "as_journal s"] by simp
  next
    case False
    then obtain k i where k: "vp_journal p = Some k" "as_journal s = Some i" by auto
    obtain r i' where r: "journal_release i k = (r, i')" by fastforce
    have "fst (journal_release i k) \<noteq> Inr False" using rec k by blast
    then show thesis using that [of "Some i'"] k r by (simp add: pin_drop_def)
  qed
  have "art_inv name (s\<lparr>as_journal := j\<rparr>) L ds hs ms" using inv by simp
  then obtain ms' where "art_inv name (pin_drop p s) L ds (remove1 p hs) ms'" "moves (s\<lparr>as_journal := j\<rparr>) ms (pin_drop p s) ms' L"
    using pin_unpin_inv [of name "s\<lparr>as_journal := j\<rparr>" L ds hs ms p] p unfolding j by blast
  then show thesis using that by (simp add: moves_def)
qed

lemma astep_inv:
  assumes step: "astep art (s, ds, hs) (s', ds', hs')" and inv: "art_inv (a_name_id art) s L ds hs ms"
  obtains L' ms' where "art_inv (a_name_id art) s' L' ds' hs' ms'" "evolves s L ms s' L' ms'"
proof (rule astepE [OF step])
  fix owner n bs d
  assume a: "ds' = d # ds" "hs' = hs" "owner \<noteq> OWNER_NONE" "stage_data n bs owner s = (Inr d, s')"
  show thesis by (rule stage_data_inv [OF inv a(3), of n bs]) (use a that in auto)
next
  fix expect owner c staged spans schema tok r
  assume a: "ds' = filter (\<lambda>d. d \<notin> set staged) ds" "hs' = hs" "commit_pre art s ds expect owner c staged spans"
    "commit_staged_inner_j art expect owner c staged spans schema tok s = (r, s')"
  let ?L = "L |` (- (offset ` set staged))"
  show thesis
  proof (rule commit_spec [OF inv a(3), of schema tok])
    fix e s1 assume "commit_staged_inner_j art expect owner c staged spans schema tok s = (Inl e, s1)"
      "gave_up (a_name_id art) s ?L (filter (\<lambda>d. d \<notin> set staged) ds) hs ms s1"
    then have g: "gave_up (a_name_id art) s ?L ds' hs ms s'" using a(1,4) by simp
    then have "art_inv (a_name_id art) s' ?L ds' hs' ms" using a(2) by (simp add: gave_up_def)
    then show thesis using gave_up_evolves [OF g] by (rule that)
  next
    fix s1 ms1 assume "commit_staged_inner_j art expect owner c staged spans schema tok s = (Inr (expect + 1), s1)"
      "art_inv (a_name_id art) s1 ?L (filter (\<lambda>d. d \<notin> set staged) ds) hs ms1" "evolves s L ms s1 ?L ms1"
    then show thesis using that a by simp
  qed
next
  fix p assume a: "ds' = ds" "hs' = p # hs" "length hs < 4294967295" "pin_inner art s = Some (Inr p, s')"
  have "length hs < 2 ^ 32 - 1" using a(3) by simp
  then show thesis using that pin_inner_inv(1,2) [OF inv a(4)] evolves_same a(1,2) by blast
next
  fix e assume a: "ds' = ds" "hs' = hs" "pin_inner art s = Some (Inl e, s')"
  obtain j where "s' = s\<lparr>as_journal := j\<rparr>" using pin_refused [OF inv a(3)] by blast
  then show thesis using that [of L ms] inv evolves_same [of s'] a(1,2) by simp
next
  fix p assume a: "s' = pin_drop p s" "ds' = ds" "hs' = remove1 p hs" "p \<in> set hs"
    "\<forall>k j. vp_journal p = Some k \<and> as_journal s = Some j \<longrightarrow> fst (journal_release j k) \<noteq> Inr False"
  show thesis by (rule pin_drop_inv [OF inv a(4,5)]) (use that a moves_evolves in blast)
next
  fix p b assume a: "ds' = ds" "hs' = remove1 p hs" "p \<in> set hs" "release_leaked_pin (vp_version p) s = (b, s')"
  then have s': "s' = pin_unpin p s" using release_leaked_pin_eq [OF inv a(3)] by simp
  obtain ms' where "art_inv (a_name_id art) (pin_unpin p s) L ds (remove1 p hs) ms'" "moves s ms (pin_unpin p s) ms' L"
    by (rule pin_unpin_inv [OF inv a(3)])
  then show thesis using that [of L ms'] moves_evolves [of s ms "pin_unpin p s" ms' L] a(1,2) s' by simp
next
  fix r assume a: "ds' = ds" "hs' = hs" "evict_all art s = Some (r, s')"
  show thesis
  proof (cases "check_live art s")
    case True
    obtain s1 ms1 where e: "evict_all art s = Some (Inr (), s1)" "art_inv (a_name_id art) s1 L ds hs ms1" "evolves s L ms s1 L ms1"
      by (rule evict_all_spec [OF inv True])
    then have "s' = s1" using a(3) by simp
    then show thesis using that e(2,3) a(1,2) by simp
  next
    case False
    then have "s' = s" using a(3) by (simp add: evict_all_def)
    then show thesis using that inv a evolves_same by blast
  qed
next
  fix l assume "s' = s\<lparr>as_head := (as_head s)\<lparr>ah_write_lease := l\<rparr>\<rparr>" "ds' = ds" "hs' = hs"
  then show thesis using that [of L ms] inv evolves_same [of s'] by simp
next
  fix j assume "s' = s\<lparr>as_journal := j\<rparr>" "ds' = ds" "hs' = hs"
  then show thesis using that [of L ms] inv evolves_same [of s'] by simp
qed
text \<open>\<open>art0\<close> is the handle that creation returned; a watch sink may be set on it.\<close>

inductive art_reach :: "artifact \<Rightarrow> art_conf \<Rightarrow> bool" for art where
  created: "config_fits cfg \<Longrightarrow> artifact_create name head_seg data_seg m0 b0 cfg = Inr (art0, s) \<Longrightarrow> art = art0\<lparr>a_watch := w\<rparr>
    \<Longrightarrow> art_reach art (s, [], [])"
| moved: "art_reach art x \<Longrightarrow> astep art x y \<Longrightarrow> art_reach art y"

lemma art_reach_inv:
  assumes "art_reach art x"
  shows "\<exists>L ms. art_inv (a_name_id art) (fst x) L (fst (snd x)) (snd (snd x)) ms"
  using assms
proof (induction rule: art_reach.induct)
  case (created cfg name head_seg data_seg m0 b0 art0 s w)
  have "art_inv (a_name_id art0) s Map.empty [] [] Map.empty" by (rule create_inv(1) [OF created(1,2)])
  then have "art_inv (a_name_id art) s Map.empty [] [] Map.empty" by (simp add: created(3))
  then show ?case by auto
next
  case (moved x y)
  obtain s ds hs s' ds' hs' where xy: "x = (s, ds, hs)" "y = (s', ds', hs')" by (cases x; cases y)
  obtain L ms where inv: "art_inv (a_name_id art) s L ds hs ms" using moved.IH by (auto simp: xy)
  show ?case by (rule astep_inv [OF moved.hyps(2) [unfolded xy] inv]) (auto simp: xy)
qed

lemma art_reachE:
  assumes "art_reach art (s, ds, hs)"
  obtains L ms where "art_inv (a_name_id art) s L ds hs ms"
  using art_reach_inv [OF assms] by auto

section \<open>What a reader sees\<close>

text \<open>The table of the current version as a fresh pin reads it; no batches before the first version.\<close>

definition read_current :: "artifact \<Rightarrow> artifact_state \<Rightarrow> chunk_desc list list option" where
  "read_current art s =
     (case pin art s of
        Some (Inr p, s') \<Rightarrow> (case pin_batches p s' of Inr t \<Rightarrow> Some t | Inl _ \<Rightarrow> None)
      | Some (Inl VersionGone, _) \<Rightarrow> Some []
      | _ \<Rightarrow> None)"

lemma pin_current_spec:
  assumes inv: "art_inv (a_name_id art) s L ds hs ms" and live: "check_live art s" and cur: "ah_current (as_head s) \<noteq> NO_VERSION"
  obtains p s' c where "pin art s = Some (Inr p, s')" "vp_version p = ah_current (as_head s)" "pin_batches p s' = Inr (chain_table (vp_manifest p # c))"
    "chain_from ms (vp_manifest p) c" "ms (ref_offset (ah_manifest_desc (as_head s))) = Some (vp_manifest p)"
proof -
  let ?s = "s\<lparr>as_journal := None\<rparr>"
  have inv0: "art_inv (a_name_id art) ?s L ds hs ms" using inv by simp
  show thesis
  proof (rule pin_inner_spec [OF inv0])
    assume "ah_current (as_head ?s) = NO_VERSION" then show thesis using cur by simp
  next
    assume "\<not> is_incarnation (a_incarnation art) (as_head ?s)" then show thesis using live by (simp add: check_live_def)
  next
    assume "as_journal ?s \<noteq> None" then show thesis by simp
  next
    fix p :: version_pin and j
    let ?s1 = "(set_slot_at (vp_slot p) (publish_pin (head_slot_at (vp_slot p) ?s)) ?s)\<lparr>as_journal := j\<rparr>"
    assume p: "pin_inner art ?s = Some (Inr p, ?s1)" "held_pin ?s ms p" "vp_version p = ah_current (as_head ?s)"
      "ps_manifest (head_slot_at (vp_slot p) ?s) = ah_manifest_desc (as_head ?s)"
    have run: "pin art s = Some (Inr p, ?s1\<lparr>as_journal := as_journal s\<rparr>)" using p(1) by (simp add: pin_def)
    have hp: "held_pin s ms p" using p(2) by (simp add: held_pin_def head_slot_at_def)
    obtain c where c: "chain_from ms (vp_manifest p) c" "pin_batches p s = Inr (chain_table (vp_manifest p # c))"
      "ms (ref_offset (ps_manifest (head_slot_at (vp_slot p) s))) = Some (vp_manifest p)"
      by (rule pin_reads [OF art_invD(1) [OF inv] hp])
    have "pin_batches p (?s1\<lparr>as_journal := as_journal s\<rparr>) = pin_batches p s" by (simp add: pin_batches_def pin_chain_def set_slot_at_def)
    then show thesis using that [OF run _ _ c(1)] c(2,3) p(3,4) by (simp add: head_slot_at_def)
  qed
qed

lemma read_current_none:
  assumes "ah_current (as_head s) = NO_VERSION"
  shows "read_current art s = Some []"
  using assms by (simp add: read_current_def pin_def pin_inner.simps)

lemma read_current_some:
  assumes inv: "art_inv (a_name_id art) s L ds hs ms" and live: "check_live art s" and cur: "ah_current (as_head s) \<noteq> NO_VERSION"
  shows "read_current art s = Some t \<longleftrightarrow> table_in ms (ah_manifest_desc (as_head s)) t"
proof -
  obtain p s' c where p: "pin art s = Some (Inr p, s')" "pin_batches p s' = Inr (chain_table (vp_manifest p # c))"
    "chain_from ms (vp_manifest p) c" "ms (ref_offset (ah_manifest_desc (as_head s))) = Some (vp_manifest p)"
    by (rule pin_current_spec [OF assms])
  then have "read_current art s = Some (chain_table (vp_manifest p # c))" by (simp add: read_current_def)
  then show ?thesis using p(3,4) chain_ok_det by (auto simp: table_in_def chain_from_def)
qed
section \<open>The incarnation stays\<close>

abbreviation inc :: "artifact_state \<Rightarrow> u32" where
  "inc s \<equiv> ah_incarnation (as_head s)"

lemma inc_steps [simp]:
  "inc (set_slot_at i sl s) = inc s" "inc (try_retire_version_at v bits s) = inc s"
  "inc (rollback_staged published link kept md slot s) = inc s" "inc (drop_rec rec s) = inc s" "inc (snd (journal_staged art d s)) = inc s"
proof -
  show 1: "inc (set_slot_at i sl s) = inc s" for i sl s by (simp add: set_slot_at_def)
  then show "inc (try_retire_version_at v bits s) = inc s" by (simp add: try_retire_version_at_def split: option.splits prod.splits bool.splits)
  show "inc (rollback_staged published link kept md slot s) = inc s" by (simp add: rollback_staged_eq Let_def 1 split: option.splits)
  show "inc (drop_rec rec s) = inc s" by (rule drop_rec_eq [of rec s]) simp
  show "inc (snd (journal_staged art d s)) = inc s" by (rule journal_staged_eq [of art d s]) simp
qed

lemma inc_won: "inc (commit_won art expect c bits schema s) = inc s"
  by (simp add: commit_won_def Let_def)

lemma inc_claim: "ah_incarnation (snd (claim_slot v bits h)) = ah_incarnation h"
  by (simp add: claim_slot_def split: option.splits)

lemma inc_install: "inc (snd (commit_install art expect c published link kept md schema s)) = inc s"
proof -
  obtain rec s1 where j: "journal_staged art md s = (rec, s1)" by fastforce
  obtain cl h where h: "claim_slot (expect + 1) (from_desc md) (as_head s1) = (cl, h)" by fastforce
  have "inc s1 = inc s" using inc_steps(5) [of art md s] by (simp add: j)
  moreover have "ah_incarnation h = inc s1" using inc_claim [of "expect + 1" "from_desc md" "as_head s1"] by (simp add: h)
  ultimately show ?thesis by (simp add: commit_install_def j h Let_def inc_won split: option.splits prod.splits bool.splits)
qed

lemma inc_sources: "as_head (snd (commit_sources art expect c schema s)) = as_head s"
proof -
  have l: "as_head (snd (resolve_link art expect schema s)) = as_head s"
    by (simp add: resolve_link_def Let_def split: sum.splits prod.splits)
  have w: "as_head (snd (resolve_window art expect schema keep s)) = as_head s" for keep
    by (simp add: resolve_window_def Let_def split: sum.splits prod.splits)
  show ?thesis using l w by (auto simp: commit_sources_def split: commit.splits sum.splits prod.splits) (metis snd_conv)+
qed

lemma commit_incarnation: "inc (snd (commit_staged_inner_j art expect owner c staged spans schema tok s)) = inc s"
proof -
  have "inc (snd (case commit_sources art expect c schema (s\<lparr>as_arena := a\<rparr>) of
             (Inl e, s1) \<Rightarrow> (Inl e, rollback_staged staged None [] None None s1)
           | (Inr (link, w), s1) \<Rightarrow>
               let kept = (case w of None \<Rightarrow> [] | Some w \<Rightarrow> ws_chunks w);
                   kept_spans = (case w of None \<Rightarrow> [] | Some w \<Rightarrow> ws_spans w);
                   window = map_option (\<lambda>w. (ws_base w, ws_members w)) w;
                   own_chunks = (if kept = [] then staged else kept @ staged);
                   own_spans = (if kept = [] then spans else kept_spans @ spans)
               in (case stage_chunk (write_manifest_in (a_name_id art) (expect + 1) schema own_chunks own_spans link window)
                          owner (as_arena s1) of
                     (Inl e, a1) \<Rightarrow> (Inl e, rollback_staged staged link kept None None (s1\<lparr>as_arena := a1\<rparr>))
                   | (Inr md, a1) \<Rightarrow> commit_install art expect c staged link kept md schema (s1\<lparr>as_arena := a1\<rparr>)))) = inc s" for a
  proof -
    obtain r s1 where r: "commit_sources art expect c schema (s\<lparr>as_arena := a\<rparr>) = (r, s1)" by fastforce
    have "as_head s1 = as_head s" using inc_sources [of art expect c schema "s\<lparr>as_arena := a\<rparr>"] by (simp add: r)
    then show ?thesis by (simp add: r inc_install Let_def split: sum.splits prod.splits)
  qed
  then show ?thesis by (simp add: commit_staged_inner_j_def split: sum.splits prod.splits)
qed
section \<open>An empty artifact holds nothing\<close>

lemma refs_of_owner:
  assumes "x \<in># refs_of ms"
  obtains off m where "ms off = Some m" "x \<in># medges m"
proof -
  have "\<exists>off \<in> dom ms. x \<in># medges (the (ms off))"
  proof (rule ccontr)
    assume "\<not> ?thesis"
    then have "count (medges (the (ms off))) x = 0" if "off \<in> dom ms" for off using that by (simp add: count_eq_zero_iff)
    then have "count (refs_of ms) x = 0" by (simp add: refs_of_def count_sum)
    then show False using assms by (simp add: count_eq_zero_iff)
  qed
  then show thesis using that by auto
qed

lemma no_roots:
  assumes man: "manifests a ms" and ch: "chains art ms" and dom: "dom ms \<subseteq> set_mset (refs_of ms)"
  shows "ms = Map.empty"
proof (rule ccontr)
  assume "ms \<noteq> Map.empty"
  then have ne: "dom ms \<noteq> {}" by simp
  have fin: "finite (dom ms)" using man by (simp add: manifests_def)
  define v where "v = Max ((\<lambda>off. mf_version (the (ms off))) ` dom ms)"
  have "v \<in> (\<lambda>off. mf_version (the (ms off))) ` dom ms" unfolding v_def using fin ne by (intro Max_in) auto
  then obtain off m where m: "ms off = Some m" "mf_version m = v" by auto
  have max: "mf_version x \<le> v" if "ms o' = Some x" for o' x
    unfolding v_def using that fin by (intro Max_ge) (auto intro!: image_eqI [of _ _ o'])
  have "off \<in># refs_of ms" using dom m(1) by (auto simp: dom_def)
  then obtain o' x where x: "ms o' = Some x" "off \<in># medges x" by (rule refs_of_owner)
  have "offset d \<noteq> off" if "d \<in> set (mf_chunks x)" for d using manifestsD(5) [OF man x(1) that] m(1) by auto
  then obtain l where l: "mf_prev x = Some l" "link_off l = off" using x(2) by (auto simp: medges_def split: option.splits)
  obtain c where "chain_from ms x c" by (rule chainsD [OF ch x(1)])
  then have ok: "chain_ok (resolve_in ms) (x # c)" by (simp add: chain_from_def)
  then obtain p c' where "c = p # c'" using l(1) by (cases c) auto
  then have "resolve_in ms l = Inr p" "mf_version p < mf_version x" using ok l(1) by auto
  then have "v < mf_version x" using m l(2) by (simp add: resolve_in_def split: option.splits)
  then show False using max [OF x(1)] by simp
qed

lemma live_refs_none: "\<forall>sl \<in> set sls. ps_state sl \<noteq> SLOT_LIVE \<Longrightarrow> live_refs sls = {#}"
  by (induction sls) (simp_all add: live_refs_def slot_ref_def)

lemma empty_ledger:
  assumes inv: "art_inv name s L [] [] ms" and cur: "ah_current (as_head s) = NO_VERSION"
  shows "ledger (as_arena s) {} Map.empty {#}"
proof -
  note a = art_invD [OF inv]
  note c = coreD [OF a(1)]
  have "\<not> live_at (as_head s) i" for i
  proof
    assume i: "live_at (as_head s) i"
    have "ps_version (ah_pins (as_head s) ! i) \<noteq> NO_VERSION" by (rule live_slot [OF c(3) i]) (simp add: NO_VERSION_def)
    then show False using a(2) i cur by (simp add: settled_def pin_count_def)
  qed
  then have lr: "live_refs (ah_pins (as_head s)) = {#}" by (intro live_refs_none) (auto simp: live_at_def in_set_conv_nth)
  note h = held_byD [OF c(1)]
  have "ms = Map.empty" by (rule no_roots [OF h(2) c(2)]) (use h(3) lr in simp)
  moreover have "L = Map.empty" using a(4) by (simp add: staged_ok_def)
  ultimately show ?thesis using h(1) lr by (simp add: refs_of_def)
qed
section \<open>A small artifact\<close>

definition demo_art :: artifact where
  "demo_art = \<lparr>a_name_id = 7, a_incarnation = FIRST_INCARNATION, a_watch = True\<rparr>"

definition demo_made :: artifact_state where
  "demo_made = \<lparr>as_arena = demo_arena, as_head = commission FIRST_INCARNATION fresh_head, as_journal = None, as_events = []\<rparr>"

lemma demo_reach: "art_reach demo_art (demo_made, [], [])"
proof (rule art_reach.created [OF demo_config_fits])
  obtain h p where p: "pool_create demo_segment (\<lambda>_. 0) demo_config = Inr (h, p)"
    by (rule pool_create_Inr [OF demo_config_fits demo_layout(2,1), of "\<lambda>_. 0"])
  have "\<not> payload_len demo_segment < head_region_bytes"
    by (simp add: demo_segment_def segment_create_def payload_len_def HEADER_SIZE_def head_region_bytes_def MAX_LIVE_VERSIONS_def)
  then show "artifact_create 7 demo_segment demo_segment (\<lambda>_. 0) (\<lambda>_. 0) demo_config
      = Inr (\<lparr>a_name_id = 7, a_incarnation = FIRST_INCARNATION, a_watch = False\<rparr>, demo_made)"
    using p by (simp add: artifact_create_def demo_made_def demo_arena_def demo_pool_def)
  show "demo_art = \<lparr>a_name_id = 7, a_incarnation = FIRST_INCARNATION, a_watch = False\<rparr>\<lparr>a_watch := True\<rparr>" by (simp add: demo_art_def)
qed

lemma demo_pre: "commit_pre demo_art demo_made [] 0 1 c [] []" if "c = Replace \<or> c = Append \<or> (\<exists>k. c = Window k)"
  using that by (auto simp: commit_pre_def check_live_def is_incarnation_def demo_art_def demo_made_def commission_def fresh_head_def OWNER_NONE_def
      list_all_iff pin_states)

lemma demo_manifest: "\<exists>md b. stage_chunk (write_manifest_in 7 1 0 [] [] None None) 1 demo_arena = (Inr md, b)"
proof -
  have n: "manifest_len 0 0 0 = 64" by (simp add: manifest_len_def kept_offset_def spans_offset_def chunks_offset_def)
  have "find_class (classes demo_pool) 64 = Some 0" using demo_pool_sizes by (auto simp: map_eq_Cons_conv)
  moreover have "full_lists demo_config ! 0 = 0 # map of_nat [1 ..< 4]" by (simp add: demo_pool_lists all_locals_def upt_conv_Cons)
  ultimately obtain h where h: "pool_alloc demo_pool 64 = (Inr (desc_of demo_pool 0 0), set_head demo_pool 0 h)"
    using pool_alloc_cases(2) [OF demo_pool_inv, of 64 0] by blast
  define d where "d = desc_of demo_pool 0 0"
  obtain a1 where al: "allocator_alloc 64 demo_arena = (Inr d, a1)" using h by (simp add: allocator_alloc_def demo_arena_def d_def)
  note s = ledger_alloc [OF demo_ledger al, simplified]
  have "64 \<le> unat (len d)" using s by simp
  then obtain bs where w: "write_manifest (\<lambda>n. map_sum Arrow id (fst (allocator_alloc n demo_arena))) 7 1 0 [] [] None None = Inr (d, bs)"
    using al n by (auto simp: write_manifest_def window_ok_def)
  define a2 where "a2 = a1\<lparr>ar_bytes := write_bytes (allocator_resolve d) bs (ar_bytes a1)\<rparr>"
  have wi: "write_manifest_in 7 1 0 [] [] None None demo_arena = (Inr d, a2)"
    using w al n by (simp add: write_manifest_in_def a2_def)
  have led: "ledger a2 (insert (offset d) {}) Map.empty {#}" using s by (simp add: a2_def)
  have ow: "(1 :: u32) \<noteq> OWNER_NONE" by (simp add: OWNER_NONE_def)
  obtain b where "stage_chunk (write_manifest_in 7 1 0 [] [] None None) 1 demo_arena = (Inr d, b)"
    by (rule stage_chunk_spec [of "write_manifest_in 7 1 0 [] [] None None" demo_arena d a2, OF wi led _ ow]) simp_all
  then show ?thesis by blast
qed

lemma demo_commit: "fst (commit_staged_inner_j demo_art 0 1 Replace [] [] 0 None demo_made) = Inr 1"
proof -
  obtain md b where md: "stage_chunk (write_manifest_in 7 1 0 [] [] None None) 1 demo_arena = (Inr md, b)" using demo_manifest by blast
  have live: "check_live demo_art demo_made" using demo_pre [of Replace] by (simp add: commit_pre_def)
  have "commit_staged_inner_j demo_art 0 1 Replace [] [] 0 None demo_made
      = commit_install demo_art 0 Replace [] None [] md 0 (demo_made\<lparr>as_arena := b\<rparr>)"
    using live md by (simp add: commit_staged_inner_j_def commit_sources_def demo_made_def demo_art_def)
  moreover have "fst (commit_install demo_art 0 Replace [] None [] md 0 (demo_made\<lparr>as_arena := b\<rparr>)) = Inr 1"
    by (simp add: commit_install_def journal_staged_def demo_made_def claim_slot_def commission_def fresh_head_def MAX_LIVE_VERSIONS_def
        compare_exchange_def revalidate_incarnation_def is_incarnation_def demo_art_def NO_VERSION_def numeral_eq_Suc Let_def)
  ultimately show ?thesis by simp
qed
lemma demo_version: obtains s where "art_reach demo_art (s, [], [])" "ah_current (as_head s) = 1" "check_live demo_art s"
proof -
  obtain r s where c: "commit_staged_inner_j demo_art 0 1 Replace [] [] 0 None demo_made = (r, s)" by fastforce
  have r: "r = Inr 1" using demo_commit by (simp add: c)
  have pre: "commit_pre demo_art demo_made [] 0 1 Replace [] []" by (rule demo_pre) simp
  have "astep demo_art (demo_made, [], []) (s, filter (\<lambda>d. d \<notin> set []) [], [])" by (rule astep.commit [OF pre c])
  then have reach: "art_reach demo_art (s, [], [])" using art_reach.moved [OF demo_reach] by simp
  obtain L ms where inv: "art_inv (a_name_id demo_art) demo_made L [] [] ms" by (rule art_reachE [OF demo_reach])
  have "ah_current (as_head s) = 1" by (rule commit_spec [OF inv pre, of 0 None]) (use c r in auto)
  moreover have "inc s = inc demo_made" using commit_incarnation [of demo_art 0 1 Replace "[]" "[]" 0 None demo_made] by (simp add: c)
  then have "check_live demo_art s" using pre by (simp add: commit_pre_def check_live_def is_incarnation_def)
  ultimately show thesis using that reach by blast
qed

lemma demo_pinned: obtains p s where "art_reach demo_art (s, [], [p])" "vp_version p = 1" "check_live demo_art s"
proof -
  obtain s0 where s0: "art_reach demo_art (s0, [], [])" "ah_current (as_head s0) = 1" "check_live demo_art s0" by (rule demo_version)
  define j0 where "j0 = s0\<lparr>as_journal := None\<rparr>"
  have r0: "art_reach demo_art (j0, [], [])" unfolding j0_def by (rule art_reach.moved [OF s0(1) astep.journal])
  obtain L0 ms0 where inv0: "art_inv (a_name_id demo_art) j0 L0 [] [] ms0" by (rule art_reachE [OF r0])
  obtain p s where p: "pin_inner demo_art j0 = Some (Inr p, s)" "vp_version p = 1"
    by (rule pin_inner_spec [OF inv0]) (use s0 in \<open>auto simp: j0_def check_live_def NO_VERSION_def\<close>)
  have "astep demo_art (j0, [], []) (s, [], [p])" by (rule astep.pinned [OF _ p(1)]) simp
  then have r: "art_reach demo_art (s, [], [p])" by (rule art_reach.moved [OF r0])
  have "inc s = inc j0" by (rule pin_inner_spec [OF inv0]) (use p(1) in auto)
  then have "check_live demo_art s" using s0(3) by (simp add: check_live_def is_incarnation_def j0_def)
  then show thesis using that r p(2) by blast
qed

section \<open>Properties\<close>

text \<open>
  C3: in every run of an artifact the control words of the data segment account for exactly what is in use.
  A chunk is loaned iff a writer has it staged; a published chunk has as many references as there are live
  versions and manifests that name it; every other chunk is on the free list of its class. A slot of the
  pin table counts the pins that are held on it, and a version that is neither current nor pinned is gone.
\<close>

theorem artifact_account:
  assumes "art_reach art (s, ds, hs)"
  shows "\<exists>L ms. ledger (as_arena s) {} L (live_refs (ah_pins (as_head s)) + refs_of ms) \<and> manifests (as_arena s) ms
     \<and> dom L = offset ` set ds \<and> dom ms \<subseteq> set_mset (live_refs (ah_pins (as_head s)) + refs_of ms)
     \<and> (\<forall>i < length (ah_pins (as_head s)). unat (ps_pins (ah_pins (as_head s) ! i)) = pin_count hs i)
     \<and> settled (as_head s) (pin_count hs) {}"
proof -
  obtain L ms where inv: "art_inv (a_name_id art) s L ds hs ms" by (rule art_reachE [OF assms])
  note a = art_invD [OF inv]
  note c = coreD [OF a(1)]
  note h = held_byD [OF c(1)]
  have "unat (ps_pins (ah_pins (as_head s) ! i)) = pin_count hs i" if "i < length (ah_pins (as_head s))" for i
    using head_okD(2) [OF c(3) that] by (simp add: slot_ok_def)
  moreover have "dom L = offset ` set ds" using a(4) by (simp add: staged_ok_def)
  ultimately show ?thesis using h(1-3) a(2) by blast
qed

theorem artifact_account_witness:
  "\<exists>(s :: artifact_state) L ms. ah_current (as_head s) = 1 \<and> ledger (as_arena s) {} L (live_refs (ah_pins (as_head s)) + refs_of ms)
     \<and> dom L = {} \<and> settled (as_head s) (pin_count []) {}"
proof -
  obtain s where s: "art_reach demo_art (s, [], [])" "ah_current (as_head s) = 1" by (rule demo_version)
  then obtain L ms where "ledger (as_arena s) {} L (live_refs (ah_pins (as_head s)) + refs_of ms)" "dom L = offset ` set ([] :: chunk_desc list)"
    "settled (as_head s) (pin_count []) {}" using artifact_account [OF s(1)] by blast
  then show ?thesis using s(2) by (intro exI [of _ s] exI [of _ L] exI [of _ ms]) simp
qed

text \<open>
  C2: a pinned version never changes. Whatever commits, releases, replays and teardowns run, as long as the
  pin is held it reads the same chain of manifests and the same batches, and no byte of the chunks they name is
  written.
\<close>

theorem snapshot_isolation:
  assumes start: "art_reach art (s, ds, hs)" and p: "p \<in> set hs"
    and run: "(\<lambda>x y. astep art x y \<and> p \<in> set (snd (snd y)))\<^sup>*\<^sup>* (s, ds, hs) (s', ds', hs')"
  shows "pin_batches p s' = pin_batches p s \<and> (\<exists>t. pin_batches p s = Inr t)
     \<and> (\<exists>cs. data_chunks p s = Inr cs \<and> (\<forall>d \<in> set cs. same_bytes d s s'))"
proof -
  obtain L0 ms0 where inv0: "art_inv (a_name_id art) s L0 ds hs ms0" by (rule art_reachE [OF start])
  have hp: "held_pin s ms0 p" using art_invD(3) [OF inv0] p by blast
  obtain t c where rd: "pin_batches p s = Inr t" "pin_chain p s = Inr c" by (rule pin_reads [OF art_invD(1) [OF inv0] hp])
  define cs where "cs = concat (map mf_chunks c)"
  have cs: "data_chunks p s = Inr cs" using rd(2) by (simp add: data_chunks_def cs_def)
  define Q where "Q = (\<lambda>x. art_reach art x \<and> p \<in> set (snd (snd x)) \<and> pin_chain p (fst x) = Inr c \<and> (\<forall>d \<in> set cs. same_bytes d s (fst x))
      \<and> csize (ar_pool (as_arena (fst x))) = csize (ar_pool (as_arena s)))"
  from run have "Q (s', ds', hs')"
  proof (induction rule: rtranclp_induct)
    case base
    then show ?case using start p rd(2) by (simp add: Q_def same_bytes_def)
  next
    case (step x y)
    obtain s1 ds1 hs1 s2 ds2 hs2 where xy: "x = (s1, ds1, hs1)" "y = (s2, ds2, hs2)" by (cases x; cases y)
    have st: "astep art (s1, ds1, hs1) (s2, ds2, hs2)" and ps: "p \<in> set hs1" "p \<in> set hs2" and c1: "pin_chain p s1 = Inr c"
      and rc: "art_reach art (s1, ds1, hs1)" using step by (simp_all add: xy Q_def)
    obtain L ms where inv: "art_inv (a_name_id art) s1 L ds1 hs1 ms" by (rule art_reachE [OF rc])
    obtain L' ms' where inv': "art_inv (a_name_id art) s2 L' ds2 hs2 ms'" "evolves s1 L ms s2 L' ms'" by (rule astep_inv [OF st inv])
    note same = pinned_same [OF inv inv' ps]
    have "data_chunks p s1 = Inr cs" using c1 by (simp add: data_chunks_def cs_def)
    then have "\<forall>d \<in> set cs. same_bytes d s1 s2" using same(2) by auto
    then have "\<forall>d \<in> set cs. same_bytes d s s2" using step.IH by (simp add: same_bytes_def xy Q_def)
    then show ?case using same(1,3) c1 step.IH art_reach.moved [OF rc st] ps(2) by (simp add: xy Q_def)
  qed
  then show ?thesis using rd cs by (simp add: pin_batches_def Q_def)
qed

theorem snapshot_isolation_witness:
  "\<exists>p s s' t. vp_version p = 1 \<and> pin_batches p s = Inr t \<and> evict_all demo_art s = Some (Inr (), s') \<and> pin_batches p s' = Inr t"
proof -
  obtain p s where p: "art_reach demo_art (s, [], [p])" "vp_version p = 1" "check_live demo_art s" by (rule demo_pinned)
  obtain L ms where inv: "art_inv (a_name_id demo_art) s L [] [p] ms" by (rule art_reachE [OF p(1)])
  obtain s' where e: "evict_all demo_art s = Some (Inr (), s')" using evict_all_spec [OF inv p(3)] by blast
  have "astep demo_art (s, [], [p]) (s', [], [p])" by (rule astep.evicted [OF e])
  then have "(\<lambda>x y. astep demo_art x y \<and> p \<in> set (snd (snd y)))\<^sup>*\<^sup>* (s, [], [p]) (s', [], [p])" by (intro r_into_rtranclp) simp
  then have "pin_batches p s' = pin_batches p s" "\<exists>t. pin_batches p s = Inr t" using snapshot_isolation [OF p(1), of p] by auto
  then show ?thesis using p(2) e by metis
qed

text \<open>
  C1: a commit is atomic. It either returns an error and a reader sees the table it saw before, or it
  moves the artifact from the version it expected to the next one, whose table is what its kind asks
  for: the old table, its last batches or nothing, followed by the batches that were staged.
\<close>

theorem commit_atomic:
  assumes reach: "art_reach art (s, ds, hs)" and pre: "commit_pre art s ds expect owner c staged spans"
  shows "\<exists>old. read_current art s = Some old
     \<and> (case commit_staged_inner_j art expect owner c staged spans schema tok s of
          (Inl _, s') \<Rightarrow> ah_current (as_head s') = ah_current (as_head s) \<and> read_current art s' = Some old
        | (Inr v, s') \<Rightarrow> ah_current (as_head s) = expect \<and> v = expect + 1 \<and> ah_current (as_head s') = v
            \<and> read_current art s' = Some (table_base c old @ groups (map unat spans) staged))"
proof -
  obtain L ms where inv: "art_inv (a_name_id art) s L ds hs ms" by (rule art_reachE [OF reach])
  have live: "check_live art s" by (rule commit_preD [OF pre])
  obtain old where old: "read_current art s = Some old" "ah_current (as_head s) = NO_VERSION \<Longrightarrow> old = []"
    "ah_current (as_head s) \<noteq> NO_VERSION \<Longrightarrow> table_in ms (ah_manifest_desc (as_head s)) old"
  proof (cases "ah_current (as_head s) = NO_VERSION")
    case True
    then show thesis using that [of "[]"] read_current_none by simp
  next
    case False
    show thesis by (rule pin_current_spec [OF inv live False]) (use that read_current_some [OF inv live False] False in \<open>auto simp: table_in_def\<close>)
  qed
  obtain r s' where c: "commit_staged_inner_j art expect owner c staged spans schema tok s = (r, s')" by fastforce
  have live': "check_live art s'"
    using live commit_incarnation [of art expect owner c staged spans schema tok s] by (simp add: c check_live_def is_incarnation_def)
  show ?thesis
  proof (rule commit_spec [OF inv pre, of schema tok])
    fix e s1 assume "commit_staged_inner_j art expect owner c staged spans schema tok s = (Inl e, s1)"
      "gave_up (a_name_id art) s (L |` (- (offset ` set staged))) (filter (\<lambda>d. d \<notin> set staged) ds) hs ms s1"
    then have r: "r = Inl e" and i: "art_inv (a_name_id art) s' (L |` (- (offset ` set staged))) (filter (\<lambda>d. d \<notin> set staged) ds) hs ms"
      and cur: "ah_current (as_head s') = ah_current (as_head s)" "ah_manifest_desc (as_head s') = ah_manifest_desc (as_head s)"
      using c by (simp_all add: gave_up_def)
    have "read_current art s' = Some old"
      using old read_current_none [of s' art] read_current_some [OF i live', of old] cur by (cases "ah_current (as_head s) = NO_VERSION") simp_all
    then show ?thesis using old(1) c r cur by auto
  next
    fix s1 ms'
    assume w: "commit_staged_inner_j art expect owner c staged spans schema tok s = (Inr (expect + 1), s1)" "ah_current (as_head s) = expect"
      "art_inv (a_name_id art) s1 (L |` (- (offset ` set staged))) (filter (\<lambda>d. d \<notin> set staged) ds) hs ms'" "ah_current (as_head s1) = expect + 1"
      "\<And>old. (if expect = NO_VERSION then old = [] else table_in ms (ah_manifest_desc (as_head s)) old)
         \<Longrightarrow> table_in ms' (ah_manifest_desc (as_head s1)) (table_base c old @ groups (map unat spans) staged)"
    have s1: "s1 = s'" "r = Inr (expect + 1)" using w(1) c by simp_all
    have "ah_current (as_head s') \<noteq> NO_VERSION" using w(4) succ_nonzero [OF commit_preD(7) [OF pre]] by (simp add: s1 NO_VERSION_def)
    moreover have "table_in ms' (ah_manifest_desc (as_head s')) (table_base c old @ groups (map unat spans) staged)"
      using w(5) [of old] old(2,3) w(2) by (simp add: s1)
    ultimately have "read_current art s' = Some (table_base c old @ groups (map unat spans) staged)"
      using read_current_some [OF w(3) [unfolded s1(1)] live'] by simp
    then show ?thesis using old(1) c w(2,4) by (simp add: s1)
  qed
qed

theorem commit_atomic_witness:
  "read_current demo_art (snd (commit_staged_inner_j demo_art 0 1 Replace [] [] 0 None demo_made)) = Some []
     \<and> ah_current (as_head (snd (commit_staged_inner_j demo_art 0 1 Replace [] [] 0 None demo_made))) = 1"
proof -
  have pre: "commit_pre demo_art demo_made [] 0 1 Replace [] []" by (rule demo_pre) simp
  obtain r s' where c: "commit_staged_inner_j demo_art 0 1 Replace [] [] 0 None demo_made = (r, s')" by fastforce
  have "r = Inr 1" using demo_commit by (simp add: c)
  then show ?thesis using commit_atomic [OF demo_reach pre, of 0 None] c by (auto simp: table_base_def)
qed

text \<open>
  C4: once nothing is staged and no pin is held, tearing the artifact down ends and returns every chunk of the
  data segment to the free lists.
\<close>

theorem evict_all_returns_all:
  assumes "art_reach art (s, [], [])" and "check_live art s"
  shows "\<exists>s' fs. evict_all art s = Some (Inr (), s') \<and> ah_current (as_head s') = NO_VERSION
     \<and> pool_inv (ar_pool (as_arena s')) fs \<and> free_offs (ar_pool (as_arena s')) fs = places (ar_pool (as_arena s'))"
proof -
  obtain L ms where inv: "art_inv (a_name_id art) s L [] [] ms" by (rule art_reachE [OF assms(1)])
  obtain s' ms' where e: "evict_all art s = Some (Inr (), s')" "art_inv (a_name_id art) s' L [] [] ms'" "ah_current (as_head s') = NO_VERSION"
    by (rule evict_all_spec [OF inv assms(2)])
  have "ledger (as_arena s') {} Map.empty {#}" by (rule empty_ledger [OF e(2,3)])
  then show ?thesis using e(1,3) by (auto simp: ledger_def)
qed

theorem evict_all_returns_all_witness:
  "\<exists>s s' fs. ah_current (as_head s) = 1 \<and> evict_all demo_art s = Some (Inr (), s')
     \<and> pool_inv (ar_pool (as_arena s')) fs \<and> free_offs (ar_pool (as_arena s')) fs = places (ar_pool (as_arena s'))"
proof -
  obtain s where s: "art_reach demo_art (s, [], [])" "ah_current (as_head s) = 1" "check_live demo_art s" by (rule demo_version)
  then show ?thesis using evict_all_returns_all [OF s(1,3)] by blast
qed
text \<open>
  C31: in every reachable state a pin ends. With a version installed and a handle on the live incarnation it
  holds the current version and its batches can be read; without one it says so and changes nothing.
\<close>

theorem pin_returns:
  assumes reach: "art_reach art (s, ds, hs)" and live: "check_live art s"
  shows "\<exists>r s'. pin art s = Some (r, s')
     \<and> (if ah_current (as_head s) = NO_VERSION then r = Inl VersionGone \<and> s' = s
        else \<exists>p t. r = Inr p \<and> vp_version p = ah_current (as_head s) \<and> pin_batches p s' = Inr t)"
proof (cases "ah_current (as_head s) = NO_VERSION")
  case True
  then show ?thesis by (simp add: pin_def pin_inner.simps)
next
  case False
  obtain L ms where inv: "art_inv (a_name_id art) s L ds hs ms" by (rule art_reachE [OF reach])
  obtain p s' c where "pin art s = Some (Inr p, s')" "vp_version p = ah_current (as_head s)" "pin_batches p s' = Inr (chain_table (vp_manifest p # c))"
    by (rule pin_current_spec [OF inv live False])
  then show ?thesis using False by simp
qed

theorem pin_returns_witness:
  "pin demo_art demo_made = Some (Inl VersionGone, demo_made)
     \<and> (\<exists>s s' p t. pin demo_art s = Some (Inr p, s') \<and> vp_version p = 1 \<and> pin_batches p s' = Inr t)"
proof
  have "check_live demo_art demo_made" using demo_pre [of Replace] by (simp add: commit_pre_def)
  moreover have "ah_current (as_head demo_made) = NO_VERSION" by (simp add: demo_made_def commission_def fresh_head_def)
  ultimately show "pin demo_art demo_made = Some (Inl VersionGone, demo_made)" using pin_returns [OF demo_reach] by auto
  obtain s where s: "art_reach demo_art (s, [], [])" "ah_current (as_head s) = 1" "check_live demo_art s" by (rule demo_version)
  then have "ah_current (as_head s) \<noteq> NO_VERSION" by (simp add: NO_VERSION_def)
  then show "\<exists>s s' p t. pin demo_art s = Some (Inr p, s') \<and> vp_version p = 1 \<and> pin_batches p s' = Inr t"
    using pin_returns [OF s(1,3)] s(2) by auto
qed

text \<open>
  what the coordinator does for the pin of a dead reader is what the reader's own drop would have done: it
  finds the slot by the version alone, gives the pin back and retires the version if that was its last use.
\<close>

theorem replay_as_drop:
  assumes "art_reach art (s, ds, hs)" and "p \<in> set hs"
  shows "release_leaked_pin (vp_version p) s = (True, pin_unpin p s)"
proof -
  obtain L ms where inv: "art_inv (a_name_id art) s L ds hs ms" by (rule art_reachE [OF assms(1)])
  show ?thesis by (rule release_leaked_pin_eq [OF inv assms(2)])
qed

theorem replay_as_drop_witness:
  "\<exists>p s. vp_version p = 1 \<and> release_leaked_pin 1 s = (True, pin_unpin p s)"
proof -
  obtain p s where p: "art_reach demo_art (s, [], [p])" "vp_version p = 1" by (rule demo_pinned)
  have "release_leaked_pin (vp_version p) s = (True, pin_unpin p s)" by (rule replay_as_drop [OF p(1)]) simp
  then show ?thesis using p(2) by metis
qed

end
