(* ===== verification/Shm_Store.thy ===== *)
theory Shm_Store
  imports Shm_Typed_Ref Shm_Schema Shm_Artifact_Run
begin

text \<open>
  \<^verbatim>\<open>crates/shm-store/src/store.rs\<close>: the keyed store, a catalog of artifacts whose heads lie in one segment and
  whose chunks come from one pool. The state is that of the three segments and, for every actor, its borrow
  journal and schema cache; a handle is the actor it was opened for. Interning a key is a parameter, as it is in
  the code, and so is turning chunks into an Arrow batch. Each operation runs to completion. A value \<open>None\<close> is
  an operation that would not return.
\<close>

section \<open>State\<close>

record store_mem =
  sm_head_seg :: segment
  sm_heads :: "u32 \<Rightarrow> artifact_head"
  sm_arena :: arena

record 'schema actor_side =
  ac_journal :: journal
  ac_registry :: "'schema registry"

record 'schema store_state =
  st_catalog :: catalog
  st_mem :: store_mem
  st_actors :: "u32 \<Rightarrow> 'schema actor_side"

text \<open>\<^verbatim>\<open>Entry\<close>: the artifact handle, with the offset of its head.\<close>

record entry =
  en_artifact :: artifact
  en_head_off :: u32
  en_key_id :: u32
  en_kind :: ref_kind
  en_owner :: u32

definition MAX_KEY_LEN :: nat where "MAX_KEY_LEN = 1024"

text \<open>An artifact's operation on the head at an offset, without a journal and with the actor's.\<close>

definition on_head :: "u32 \<Rightarrow> (artifact_state \<Rightarrow> 'r \<times> artifact_state) \<Rightarrow> store_mem \<Rightarrow> 'r \<times> store_mem" where
  "on_head off f m =
     (case f \<lparr>as_arena = sm_arena m, as_head = sm_heads m off, as_journal = None, as_events = []\<rparr> of
        (r, a) \<Rightarrow> (r, m\<lparr>sm_arena := as_arena a, sm_heads := (sm_heads m)(off := as_head a)\<rparr>))"

definition entry_view :: "entry \<Rightarrow> 'schema store_state \<Rightarrow> artifact_state" where
  "entry_view e s = \<lparr>as_arena = sm_arena (st_mem s), as_head = sm_heads (st_mem s) (en_head_off e),
     as_journal = Some (ac_journal (st_actors s (en_owner e))), as_events = []\<rparr>"

definition set_journal :: "u32 \<Rightarrow> journal \<Rightarrow> 'schema store_state \<Rightarrow> 'schema store_state" where
  "set_journal owner j s = s\<lparr>st_actors := (st_actors s)(owner := (st_actors s owner)\<lparr>ac_journal := j\<rparr>)\<rparr>"

definition put_view :: "entry \<Rightarrow> artifact_state \<Rightarrow> 'schema store_state \<Rightarrow> 'schema store_state" where
  "put_view e a s =
     (let s1 = s\<lparr>st_mem := (st_mem s)\<lparr>sm_arena := as_arena a, sm_heads := (sm_heads (st_mem s))(en_head_off e := as_head a)\<rparr>\<rparr>
      in case as_journal a of None \<Rightarrow> s1 | Some j \<Rightarrow> set_journal (en_owner e) j s1)"

definition on_entry :: "entry \<Rightarrow> (artifact_state \<Rightarrow> 'r \<times> artifact_state) \<Rightarrow> 'schema store_state \<Rightarrow> 'r \<times> 'schema store_state" where
  "on_entry e f s = (case f (entry_view e s) of (r, a) \<Rightarrow> (r, put_view e a s))"

definition on_entry_opt ::
  "entry \<Rightarrow> (artifact_state \<Rightarrow> ('r \<times> artifact_state) option) \<Rightarrow> 'schema store_state \<Rightarrow> ('r \<times> 'schema store_state) option" where
  "on_entry_opt e f s = map_option (\<lambda>(r, a). (r, put_view e a s)) (f (entry_view e s))"

section \<open>Creating and opening\<close>

definition store_key_id :: "(bytes \<Rightarrow> store_error + u32) \<Rightarrow> bytes \<Rightarrow> store_error + u32" where
  "store_key_id intern_key key = (if length key > MAX_KEY_LEN then Inl (KeyTooLong (length key)) else intern_key key)"

definition entry_at :: "u32 \<Rightarrow> catalog \<Rightarrow> u32 \<Rightarrow> store_mem \<Rightarrow> store_error + entry" where
  "entry_at owner c ix m =
     (let sl = cat_slot c ix in
      case attach_at (cs_artifact_id sl) (sm_head_seg m) (unat (cs_head_off sl)) (sm_heads m (cs_head_off sl)) of
        Inl e \<Rightarrow> Inl (StoreArtifact e)
      | Inr art \<Rightarrow>
          (case slot_kind sl of
             Inl e \<Rightarrow> Inl e
           | Inr k \<Rightarrow> Inr \<lparr>en_artifact = art, en_head_off = cs_head_off sl, en_key_id = cs_key_id sl, en_kind = k, en_owner = owner\<rparr>))"

definition store_create ::
  "(bytes \<Rightarrow> store_error + u32) \<Rightarrow> ('schema \<Rightarrow> bytes) \<Rightarrow> u32 \<Rightarrow> bytes \<Rightarrow> ref_kind \<Rightarrow> 'schema \<Rightarrow> 'schema store_state
     \<Rightarrow> (store_error + entry) \<times> 'schema store_state" where
  "store_create intern_key ser owner key rk schema s =
     (case store_key_id intern_key key of
        Inl e \<Rightarrow> (Inl e, s)
      | Inr k \<Rightarrow>
          let s1 = s\<lparr>st_actors := (st_actors s)(owner := (st_actors s owner)
                \<lparr>ac_registry := snd (registry_intern ser schema (ac_registry (st_actors s owner)))\<rparr>)\<rparr> in
          (case catalog_attach (st_catalog s1) of
             Inl e \<Rightarrow> (Inl e, s1)
           | Inr c \<Rightarrow>
               (case find_live_by_key k c of
                  Some ix \<Rightarrow> (entry_at owner c ix (st_mem s1), s1)
                | None \<Rightarrow>
                    (case alloc_slot c of
                       (Inl e, c1) \<Rightarrow> (Inl e, s1\<lparr>st_catalog := c1\<rparr>)
                     | (Inr ix, c1) \<Rightarrow>
                         let off = head_off_for c1 ix in
                         (case create_at (artifact_id_for c1 ix) (cs_gen (cat_slot c1 ix)) (sm_head_seg (st_mem s1)) (unat off)
                                 (sm_heads (st_mem s1) off) of
                            Inl e \<Rightarrow> (Inl (StoreArtifact e), s1\<lparr>st_catalog := c1\<rparr>)
                          | Inr (art, h) \<Rightarrow>
                              (Inr \<lparr>en_artifact = art, en_head_off = off, en_key_id = k, en_kind = rk, en_owner = owner\<rparr>,
                               s1\<lparr>st_catalog := snd (publish_slot ix k rk c1),
                                  st_mem := (st_mem s1)\<lparr>sm_heads := (sm_heads (st_mem s1))(off := h)\<rparr>\<rparr>))))))"

definition open_id :: "u32 \<Rightarrow> u32 \<Rightarrow> 'schema store_state \<Rightarrow> store_error + entry" where
  "open_id owner k s =
     (case catalog_attach (st_catalog s) of
        Inl e \<Rightarrow> Inl e
      | Inr c \<Rightarrow> (case find_live_by_key k c of None \<Rightarrow> Inl NotFound | Some ix \<Rightarrow> entry_at owner c ix (st_mem s)))"

definition store_open :: "(bytes \<Rightarrow> store_error + u32) \<Rightarrow> u32 \<Rightarrow> bytes \<Rightarrow> 'schema store_state \<Rightarrow> store_error + entry" where
  "store_open intern_key owner key s = (case store_key_id intern_key key of Inl e \<Rightarrow> Inl e | Inr k \<Rightarrow> open_id owner k s)"

section \<open>Evicting and sweeping\<close>

text \<open>
  The check the sweep runs on a slot it holds: tear the entry down again, take the head out of service, and look
  whether anything is left; if so the head is put back.
\<close>

definition entry_is_finished :: "u32 \<Rightarrow> u32 \<Rightarrow> store_mem option \<Rightarrow> bool \<times> store_mem option" where
  "entry_is_finished art_id off mo =
     (case mo of
        None \<Rightarrow> (False, None)
      | Some m \<Rightarrow>
          (case attach_at art_id (sm_head_seg m) (unat off) (sm_heads m off) of
             Inl _ \<Rightarrow> (False, Some m)
           | Inr art \<Rightarrow>
               (case evict_all art \<lparr>as_arena = sm_arena m, as_head = sm_heads m off, as_journal = None, as_events = []\<rparr> of
                  None \<Rightarrow> (False, None)
                | Some (r, a) \<Rightarrow>
                    let m1 = m\<lparr>sm_arena := as_arena a, sm_heads := (sm_heads m)(off := as_head a)\<rparr> in
                    (case r of
                       Inl _ \<Rightarrow> (False, Some m1)
                     | Inr _ \<Rightarrow>
                         (case head_retire (sm_heads m1 off) of (was, h) \<Rightarrow>
                          if is_quiescent h then (True, Some (m1\<lparr>sm_heads := (sm_heads m1)(off := h)\<rparr>))
                          else (False, Some (m1\<lparr>sm_heads := (sm_heads m1)(off := commission was h)\<rparr>)))))))"

definition store_try_reclaim :: "u32 \<Rightarrow> catalog \<Rightarrow> store_mem \<Rightarrow> (catalog \<times> store_mem) option" where
  "store_try_reclaim ix c m =
     (case try_reclaim_slot ix entry_is_finished (c, Some m) of
        (_, c', Some m') \<Rightarrow> Some (c', m') | (_, _, None) \<Rightarrow> None)"

definition sweep_tombstones :: "catalog \<Rightarrow> store_mem \<Rightarrow> ((store_error + nat) \<times> catalog \<times> store_mem) option" where
  "sweep_tombstones c m =
     (case catalog_attach c of
        Inl e \<Rightarrow> Some (Inl e, c, m)
      | Inr c1 \<Rightarrow>
          (case reclaim_tombstones entry_is_finished (c1, Some m) of
             (n, c', Some m') \<Rightarrow> Some (Inr n, c', m') | (_, _, None) \<Rightarrow> None))"

definition store_evict ::
  "(bytes \<Rightarrow> store_error + u32) \<Rightarrow> bytes \<Rightarrow> 'schema store_state \<Rightarrow> ((store_error + unit) \<times> 'schema store_state) option" where
  "store_evict intern_key key s =
     (case store_key_id intern_key key of
        Inl e \<Rightarrow> Some (Inl e, s)
      | Inr k \<Rightarrow>
          (case catalog_attach (st_catalog s) of
             Inl e \<Rightarrow> Some (Inl e, s)
           | Inr c \<Rightarrow>
               (case find_live_by_key k c of
                  None \<Rightarrow> Some (Inr (), s)
                | Some ix \<Rightarrow>
                    let sl = cat_slot c ix; expected = cs_gen sl; m = st_mem s in
                    (case tombstone_gen expected sl of
                       (False, _) \<Rightarrow> Some (Inr (), s)
                     | (True, sl1) \<Rightarrow>
                         let c1 = set_cat_slot ix sl1 c; off = cs_head_off sl1;
                             finish = (\<lambda>m. map_option (\<lambda>(c2, m2). (Inr (), s\<lparr>st_catalog := c2, st_mem := m2\<rparr>)) (store_try_reclaim ix c1 m)) in
                         (case attach_at_incarnation (cs_artifact_id sl1) expected (sm_head_seg m) (unat off) (sm_heads m off) of
                            Inl AStale \<Rightarrow> finish m
                          | Inl e \<Rightarrow> Some (Inl (StoreArtifact e), s\<lparr>st_catalog := c1\<rparr>)
                          | Inr art \<Rightarrow>
                              (case evict_all art \<lparr>as_arena = sm_arena m, as_head = sm_heads m off, as_journal = None, as_events = []\<rparr> of
                                 None \<Rightarrow> None
                               | Some (r, a) \<Rightarrow>
                                   let m1 = m\<lparr>sm_arena := as_arena a, sm_heads := (sm_heads m)(off := as_head a)\<rparr> in
                                   (case r of
                                      Inl e \<Rightarrow> if e = AStale then finish m1 else Some (Inl (StoreArtifact e), s\<lparr>st_catalog := c1, st_mem := m1\<rparr>)
                                    | Inr _ \<Rightarrow> finish m1)))))))"

section \<open>Entries\<close>

definition entry_current_version :: "entry \<Rightarrow> 'schema store_state \<Rightarrow> u64" where
  "entry_current_version e s = ah_current (sm_heads (st_mem s) (en_head_off e))"

text \<open>A commit under the journaled write lease, which is dropped on every way out.\<close>

definition under_lease ::
  "entry \<Rightarrow> (committer \<Rightarrow> artifact_state \<Rightarrow> (artifact_error + u64) \<times> artifact_state) \<Rightarrow> 'schema store_state
     \<Rightarrow> (store_error + u64) \<times> 'schema store_state" where
  "under_lease e f = on_entry e (\<lambda>a.
     case open_exclusive_journaled (en_artifact e) (en_owner e) (the (as_journal a)) a of
       (Inl err, a1) \<Rightarrow> (Inl (StoreArtifact err), a1)
     | (Inr co, a1) \<Rightarrow> (case f co a1 of (r, a2) \<Rightarrow> (map_sum StoreArtifact id r, committer_drop co a2)))"

definition entry_commit ::
  "(arena \<Rightarrow> (artifact_error + chunk_desc list) \<times> arena) \<Rightarrow> entry \<Rightarrow> commit \<Rightarrow> u32 \<Rightarrow> 'schema store_state
     \<Rightarrow> (store_error + u64) \<times> 'schema store_state" where
  "entry_commit write_batch_chunks e c schema = under_lease e (\<lambda>co. committer_commit write_batch_chunks (en_artifact e) co c schema)"

definition entry_commit_replace ::
  "(arena \<Rightarrow> (artifact_error + chunk_desc list) \<times> arena) \<Rightarrow> entry \<Rightarrow> u32 \<Rightarrow> 'schema store_state \<Rightarrow> (store_error + u64) \<times> 'schema store_state" where
  "entry_commit_replace write_batch_chunks e schema = entry_commit write_batch_chunks e Replace schema"

definition append_windowed ::
  "(arena \<Rightarrow> (artifact_error + chunk_desc list) \<times> arena) \<Rightarrow> entry \<Rightarrow> window_policy \<Rightarrow> u32 \<Rightarrow> 'schema store_state
     \<Rightarrow> (store_error + u64) \<times> 'schema store_state" where
  "append_windowed write_batch_chunks e policy schema = under_lease e (\<lambda>co. commit_windowed write_batch_chunks (en_artifact e) co policy schema)"

definition entry_evict_current :: "entry \<Rightarrow> 'schema store_state \<Rightarrow> (store_error + u64) \<times> 'schema store_state" where
  "entry_evict_current e = under_lease e (evict_current (en_artifact e))"

definition entry_pin :: "entry \<Rightarrow> 'schema store_state \<Rightarrow> ((store_error + version_pin) \<times> 'schema store_state) option" where
  "entry_pin e = on_entry_opt e (\<lambda>a. map_option (\<lambda>(r, a'). (map_sum StoreArtifact id r, a')) (pin_journaled (en_artifact e) a))"

text \<open>A read through a fresh pin, which is dropped when the read fails.\<close>

definition reading ::
  "(version_pin \<Rightarrow> artifact_state \<Rightarrow> store_error + 'b) \<Rightarrow> entry \<Rightarrow> 'schema store_state
     \<Rightarrow> ((store_error + (version_pin \<times> 'b)) \<times> 'schema store_state) option" where
  "reading f e s =
     (case entry_pin e s of
        None \<Rightarrow> None
      | Some (Inl err, s1) \<Rightarrow> Some (Inl err, s1)
      | Some (Inr p, s1) \<Rightarrow>
          (case f p (entry_view e s1) of
             Inr b \<Rightarrow> Some (Inr (p, b), s1)
           | Inl err \<Rightarrow> Some (Inl err, snd (on_entry e (\<lambda>a. ((), pin_drop p a)) s1))))"

text \<open>
  \<^verbatim>\<open>as_arrow\<close>: no batch is \<open>VersionGone\<close>, one is returned as it is, several are concatenated. \<open>read_chunks\<close> builds
  a batch from its chunks and \<open>concat_batches\<close> is the Arrow library's.
\<close>

fun read_groups :: "(chunk_desc list \<Rightarrow> artifact_state \<Rightarrow> artifact_error + 'b) \<Rightarrow> artifact_state \<Rightarrow> chunk_desc list list \<Rightarrow> artifact_error + 'b list" where
  "read_groups read_chunks a [] = Inr []"
| "read_groups read_chunks a (g # gs) =
     (case read_chunks g a of
        Inl e \<Rightarrow> Inl e
      | Inr b \<Rightarrow> (case read_groups read_chunks a gs of Inl e \<Rightarrow> Inl e | Inr bs \<Rightarrow> Inr (b # bs)))"

definition as_arrow ::
  "(chunk_desc list \<Rightarrow> artifact_state \<Rightarrow> artifact_error + 'b) \<Rightarrow> ('b list \<Rightarrow> artifact_error + 'b) \<Rightarrow> version_pin \<Rightarrow> artifact_state \<Rightarrow> artifact_error + 'b" where
  "as_arrow read_chunks concat_batches p a =
     (case pin_batches p a of
        Inl e \<Rightarrow> Inl e
      | Inr gs \<Rightarrow>
          (case read_groups read_chunks a gs of
             Inl e \<Rightarrow> Inl e
           | Inr [] \<Rightarrow> Inl VersionGone
           | Inr [b] \<Rightarrow> Inr b
           | Inr bs \<Rightarrow> concat_batches bs))"

definition entry_read ::
  "(chunk_desc list \<Rightarrow> artifact_state \<Rightarrow> artifact_error + 'b) \<Rightarrow> ('b list \<Rightarrow> artifact_error + 'b) \<Rightarrow> entry \<Rightarrow> 'schema store_state
     \<Rightarrow> ((store_error + (version_pin \<times> 'b)) \<times> 'schema store_state) option" where
  "entry_read read_chunks concat_batches = reading (\<lambda>p a. map_sum StoreArtifact id (as_arrow read_chunks concat_batches p a))"

text \<open>\<^verbatim>\<open>read_since\<close>, with the chunks of the new batches in place of the batches built from them.\<close>

definition read_since :: "u64 \<Rightarrow> entry \<Rightarrow> 'schema store_state \<Rightarrow> ((store_error + (version_pin \<times> delta)) \<times> 'schema store_state) option" where
  "read_since since = reading (\<lambda>p a. map_sum StoreArtifact id (pin_batches_since p since a))"

section \<open>Retained references\<close>

record retained_ref =
  rr_artifact_id :: u32
  rr_incarnation :: u32
  rr_version :: u64
  rr_journal_slot :: nat

definition retain_current :: "entry \<Rightarrow> 'schema store_state \<Rightarrow> ((store_error + retained_ref) \<times> 'schema store_state) option" where
  "retain_current e = on_entry_opt e (\<lambda>a.
     case retain_pin (en_artifact e) a of
       None \<Rightarrow> None
     | Some (Inl err, a1) \<Rightarrow> Some (Inl (StoreArtifact err), a1)
     | Some (Inr v, a1) \<Rightarrow>
         (case record_artifact_pin (the (as_journal a1)) (a_name_id (en_artifact e)) (a_incarnation (en_artifact e)) v of
            (Inl err, j) \<Rightarrow> Some (Inl (StoreCore err), a1\<lparr>as_journal := Some j\<rparr>)
          | (Inr k, j) \<Rightarrow>
              Some (Inr \<lparr>rr_artifact_id = a_name_id (en_artifact e), rr_incarnation = a_incarnation (en_artifact e),
                     rr_version = v, rr_journal_slot = k\<rparr>, a1\<lparr>as_journal := Some j\<rparr>)))"

definition handoff :: "entry \<Rightarrow> retained_ref \<Rightarrow> 'schema store_state \<Rightarrow> (store_error + retained_ref) \<times> 'schema store_state" where
  "handoff e r s =
     (case journal_release (ac_journal (st_actors s (en_owner e))) (rr_journal_slot r) of
        (Inl err, j) \<Rightarrow> (Inl (StoreCore err), set_journal (en_owner e) j s)
      | (Inr b, j) \<Rightarrow> (if b then Inr r else Inl (StoreArtifact AStale), set_journal (en_owner e) j s))"

definition release_retained :: "entry \<Rightarrow> retained_ref \<Rightarrow> 'schema store_state \<Rightarrow> bool \<times> 'schema store_state" where
  "release_retained e r = on_entry e (\<lambda>a.
     let a1 = a\<lparr>as_journal := Some (snd (journal_release (the (as_journal a)) (rr_journal_slot r)))\<rparr>
     in release_leaked_pin (rr_version r) a1)"

definition release_task_binding :: "u32 \<Rightarrow> u32 \<Rightarrow> u64 \<Rightarrow> catalog \<Rightarrow> store_mem \<Rightarrow> bool \<times> store_mem" where
  "release_task_binding art_id incarnation version c m =
     (case catalog_attach c of
        Inl _ \<Rightarrow> (False, m)
      | Inr cat \<Rightarrow>
          (case slot_for_artifact_id art_id cat of
             None \<Rightarrow> (False, m)
           | Some ix \<Rightarrow>
               let off = cs_head_off (cat_slot cat ix) in
               (case attach_at_incarnation art_id incarnation (sm_head_seg m) (unat off) (sm_heads m off) of
                  Inl _ \<Rightarrow> (False, m)
                | Inr _ \<Rightarrow> on_head off (release_leaked_pin version) m)))"

section \<open>Resolving a typed reference\<close>

definition store_resolve :: "u32 \<Rightarrow> typed_ref \<Rightarrow> 'schema store_state \<Rightarrow> store_error + entry" where
  "store_resolve owner t s =
     (case tref_kind t of
        Inl e \<Rightarrow> Inl e
      | Inr k \<Rightarrow> if k = RawChunk then Inl NotResolvable else open_id owner (tr_key_id t) s)"

definition resolve_and_pin ::
  "(chunk_desc list \<Rightarrow> artifact_state \<Rightarrow> artifact_error + 'b) \<Rightarrow> ('b list \<Rightarrow> artifact_error + 'b) \<Rightarrow> u32 \<Rightarrow> typed_ref \<Rightarrow> 'schema store_state
     \<Rightarrow> ((store_error + (entry \<times> version_pin \<times> 'b)) \<times> 'schema store_state) option" where
  "resolve_and_pin read_chunks concat_batches owner t s =
     (case store_resolve owner t s of
        Inl e \<Rightarrow> Some (Inl e, s)
      | Inr e \<Rightarrow>
          map_option (\<lambda>(r, s'). (map_sum id (\<lambda>(p, b). (e, p, b)) r, s'))
            (reading (\<lambda>p a.
               if tr_version t \<noteq> 0 \<and> vp_version p \<noteq> tr_version t then Inl (StoreVersionMismatch (tr_version t) (vp_version p))
               else map_sum StoreArtifact id (as_arrow read_chunks concat_batches p a)) e s))"

section \<open>What a teardown does to a head\<close>

text \<open>A pin table in order. Every account of an artifact implies it.\<close>

definition slot_fine :: "pin_slot \<Rightarrow> bool" where
  "slot_fine sl \<longleftrightarrow> ps_state sl = SLOT_FREE \<and> ps_pins sl = 0 \<or> ps_state sl = SLOT_LIVE \<and> ps_version sl \<noteq> NO_VERSION"

definition table_ok :: "artifact_head \<Rightarrow> bool" where
  "table_ok h \<longleftrightarrow> (\<forall>sl \<in> set (ah_pins h). slot_fine sl)
     \<and> (\<forall>i j. live_at h i \<and> live_at h j \<and> ps_version (ah_pins h ! i) = ps_version (ah_pins h ! j) \<longrightarrow> i = j)"

definition no_pins :: "artifact_head \<Rightarrow> bool" where
  "no_pins h \<longleftrightarrow> (\<forall>sl \<in> set (ah_pins h). ps_pins sl = 0)"

lemma head_ok_table:
  assumes ok: "head_ok h ms cnt"
  shows "table_ok h"
proof -
  have "slot_fine (ah_pins h ! i)" if "i < length (ah_pins h)" for i
    using head_okD(2) [OF ok that] by (auto simp: slot_fine_def Shm_Artifact_Inv.slot_ok_def NO_VERSION_def unat_eq_0)
  moreover have "\<forall>i j. live_at h i \<and> live_at h j \<and> ps_version (ah_pins h ! i) = ps_version (ah_pins h ! j) \<longrightarrow> i = j"
    using head_okD(3) [OF ok] by blast
  ultimately show ?thesis by (auto simp: table_ok_def in_set_conv_nth)
qed

text \<open>What becomes of a slot when no version is current.\<close>

definition reap :: "pin_slot \<Rightarrow> pin_slot" where
  "reap sl = (if ps_state sl = SLOT_LIVE \<and> ps_pins sl = 0 then store_free sl else sl)"

lemma find_slot_table:
  assumes ok: "table_ok h" and i: "live_at h i"
  shows "find_slot (ps_version (ah_pins h ! i)) h = Some i"
proof (cases "find_slot (ps_version (ah_pins h ! i)) h")
  case None
  then show ?thesis using i first_slot_None [of _ "ah_pins h" "ah_pins h ! i"] by (auto simp: find_slot_def live_at_def)
next
  case (Some j)
  then have "live_at h j \<and> ps_version (ah_pins h ! j) = ps_version (ah_pins h ! i)"
    by (auto simp: find_slot_def live_at_def dest: first_slot_Some)
  then have "i = j" using ok i unfolding table_ok_def by metis
  then show ?thesis using Some by simp
qed

lemma retire_slot_head:
  assumes ok: "table_ok (as_head s)" and cur: "ah_current (as_head s) = NO_VERSION" and i: "i < length (ah_pins (as_head s))"
  shows "as_head (retire_slot i s) = (as_head s)\<lparr>ah_pins := (ah_pins (as_head s))[i := reap (ah_pins (as_head s) ! i)]\<rparr>"
proof (cases "ps_state (ah_pins (as_head s) ! i) = SLOT_LIVE")
  case False
  then have "reap (ah_pins (as_head s) ! i) = ah_pins (as_head s) ! i" by (simp add: reap_def)
  then show ?thesis using False by (simp add: retire_slot_def head_slot_at_def Let_def)
next
  case True
  let ?sl = "ah_pins (as_head s) ! i"
  have l: "live_at (as_head s) i" using True i by (simp add: live_at_def)
  have v: "ps_version ?sl \<noteq> NO_VERSION" using ok i True by (auto simp: table_ok_def slot_fine_def pin_states dest!: bspec [OF _ nth_mem])
  have f: "find_slot (ps_version ?sl) (as_head s) = Some i" by (rule find_slot_table [OF ok l])
  have "retire_slot i s = try_retire_version_at (ps_version ?sl) None s"
    using True v by (simp add: retire_slot_def head_slot_at_def try_retire_version_def Let_def)
  moreover have "?sl\<lparr>ps_state := SLOT_LIVE\<rparr> = ?sl" using True by (cases ?sl) simp
  ultimately show ?thesis using True v f cur
    by (cases "ps_pins ?sl = 0") (simp_all add: try_retire_version_at_def head_slot_at_def elect_freeing_def compare_exchange_def set_slot_at_def
        reap_def pin_scan_def revert_live_def store_free_def)
qed

lemma slot_fine_reap: "slot_fine sl \<Longrightarrow> slot_fine (reap sl)"
  by (simp add: slot_fine_def reap_def store_free_def)

lemma table_ok_reap:
  assumes ok: "table_ok h"
  shows "table_ok (h\<lparr>ah_pins := (ah_pins h)[i := reap (ah_pins h ! i)]\<rparr>)"
proof (cases "i < length (ah_pins h)")
  case True
  let ?h = "h\<lparr>ah_pins := (ah_pins h)[i := reap (ah_pins h ! i)]\<rparr>"
  have live: "live_at ?h j \<Longrightarrow> live_at h j \<and> ps_version (ah_pins ?h ! j) = ps_version (ah_pins h ! j)" for j
    using True by (auto simp: live_at_def reap_def store_free_def pin_states nth_list_update split: if_splits)
  have "slot_fine sl" if "sl \<in> set (ah_pins ?h)" for sl
  proof -
    have "sl \<in> set (ah_pins h) \<or> sl = reap (ah_pins h ! i)" using that set_update_subset_insert [of "ah_pins h" i] by auto
    moreover have "ah_pins h ! i \<in> set (ah_pins h)" using True by simp
    ultimately show ?thesis using ok slot_fine_reap by (auto simp: table_ok_def)
  qed
  moreover have "\<forall>j k. live_at ?h j \<and> live_at ?h k \<and> ps_version (ah_pins ?h ! j) = ps_version (ah_pins ?h ! k) \<longrightarrow> j = k"
    using live ok unfolding table_ok_def by metis
  ultimately show ?thesis unfolding table_ok_def by blast
qed (use ok in \<open>simp add: list_update_beyond\<close>)

lemma retire_slots_head:
  assumes "table_ok (as_head s)" "ah_current (as_head s) = NO_VERSION" "n \<le> length (ah_pins (as_head s))"
  shows "as_head (fold retire_slot [0..<n] s) = (as_head s)\<lparr>ah_pins := map reap (take n (ah_pins (as_head s))) @ drop n (ah_pins (as_head s))\<rparr>
     \<and> table_ok (as_head (fold retire_slot [0..<n] s))"
  using assms(3)
proof (induction n)
  case 0
  then show ?case using assms(1) by simp
next
  case (Suc n)
  let ?ps = "ah_pins (as_head s)" and ?s = "fold retire_slot [0..<n] s"
  have IH: "as_head ?s = (as_head s)\<lparr>ah_pins := map reap (take n ?ps) @ drop n ?ps\<rparr>" "table_ok (as_head ?s)"
    using Suc.IH Suc.prems by (blast dest: Suc_leD)+
  have n: "n < length ?ps" using Suc.prems by simp
  have nth: "ah_pins (as_head ?s) ! n = ?ps ! n" using n by (simp add: IH(1) nth_append)
  have "as_head (retire_slot n ?s) = (as_head ?s)\<lparr>ah_pins := (ah_pins (as_head ?s))[n := reap (?ps ! n)]\<rparr>"
    using retire_slot_head [OF IH(2), of n] IH(1) assms(2) n nth by simp
  moreover have "(map reap (take n ?ps) @ drop n ?ps)[n := reap (?ps ! n)] = map reap (take (Suc n) ?ps) @ drop (Suc n) ?ps"
    using n by (simp add: list_update_append take_Suc_conv_app_nth Cons_nth_drop_Suc [symmetric])
  ultimately show ?case using IH table_ok_reap [OF IH(2), of n] nth by simp
qed

text \<open>
  A teardown of the occupant ends, leaves no version current and nobody holding the lease, and frees exactly the
  slots without pins. It keeps the head in service.
\<close>

lemma evict_all_head:
  assumes live: "is_incarnation (a_incarnation art) (as_head s)"
  obtains s' where "evict_all art s = Some (Inr (), s')" "ah_magic (as_head s') = ah_magic (as_head s)"
    "ah_incarnation (as_head s') = ah_incarnation (as_head s)" "ah_current (as_head s') = NO_VERSION"
    "lease_owner (ah_write_lease (as_head s')) = LEASE_OWNER_NONE"
    "table_ok (as_head s) \<Longrightarrow> ah_pins (as_head s') = map reap (ah_pins (as_head s))"
proof -
  obtain t l where l: "evict_lease (ah_write_lease (as_head s)) = Some (t, l)" by (rule evict_lease_returns)
  have lo: "l = pack_lease EVICTOR_OWNER t" using l
    by (subst (asm) evict_lease.simps) (auto simp: acquire_write_lease_def force_release_write_lease_def compare_exchange_def Let_def split: if_splits)
  define s2 where "s2 = s\<lparr>as_head := (as_head s)\<lparr>ah_write_lease := l, ah_current := NO_VERSION, ah_manifest_desc := 0\<rparr>\<rparr>"
  define s3 where "s3 = fold retire_slot [0 ..< length (ah_pins (as_head s2))] s2"
  define s4 where "s4 = snd (on_lease (release_write_lease EVICTOR_OWNER t) s3)"
  have e: "evict_all art s = Some (Inr (), s4)"
    using live l by (simp add: evict_all_def Let_def check_live_def revalidate_incarnation_def is_incarnation_def s4_def s3_def s2_def)
  have keep: "ah_magic (as_head (fold retire_slot is x)) = ah_magic (as_head x) \<and> ah_incarnation (as_head (fold retire_slot is x)) = ah_incarnation (as_head x)
     \<and> ah_current (as_head (fold retire_slot is x)) = ah_current (as_head x) \<and> ah_write_lease (as_head (fold retire_slot is x)) = ah_write_lease (as_head x)" for "is" x
    by (induction "is" arbitrary: x) (auto simp: retire_slot_def try_retire_version_def try_retire_version_at_def set_slot_at_def Let_def split: option.splits prod.splits bool.splits)
  have h4: "as_head s4 = (as_head s3)\<lparr>ah_write_lease := pack_lease LEASE_OWNER_NONE (t + 1)\<rparr>"
  proof -
    have "ah_write_lease (as_head s3) = pack_lease EVICTOR_OWNER t"
      using keep [of "[0 ..< length (ah_pins (as_head s2))]" s2] lo unfolding s3_def [symmetric] by (simp add: s2_def)
    then show ?thesis by (simp add: s4_def on_lease_def release_write_lease_def compare_exchange_def)
  qed
  have pins: "ah_pins (as_head s4) = map reap (ah_pins (as_head s))" if ok: "table_ok (as_head s)"
  proof -
    have "table_ok (as_head s2)" using ok by (simp add: table_ok_def live_at_def s2_def)
    from retire_slots_head [OF this _ order_refl] show ?thesis by (simp add: h4 s3_def) (simp add: s2_def)
  qed
  show thesis using that [OF e] keep [of "[0 ..< length (ah_pins (as_head s2))]" s2] pins
    by (simp add: h4 s3_def [symmetric]) (simp add: s2_def)
qed

lemma reaped_quiet:
  assumes "table_ok h" "no_pins h" "sl \<in> set (map reap (ah_pins h))"
  shows "ps_state sl = SLOT_FREE \<and> ps_pins sl = 0"
proof -
  obtain x where x: "x \<in> set (ah_pins h)" "sl = reap x" using assms(3) by auto
  then have "slot_fine x" "ps_pins x = 0" using assms(1,2) by (auto simp: table_ok_def no_pins_def)
  then show ?thesis by (auto simp: x(2) reap_def store_free_def slot_fine_def)
qed

section \<open>The invariant of a store\<close>

text \<open>The heads lie apart and inside their segment.\<close>

definition heads_fit :: "catalog \<Rightarrow> store_mem \<Rightarrow> bool" where
  "heads_fit c m \<longleftrightarrow> head_region_bytes \<le> unat (head_stride c)
     \<and> unat (cat_capacity c) * unat (head_stride c) \<le> payload_len (sm_head_seg m) \<and> payload_len (sm_head_seg m) < 2 ^ 32"

definition occupied :: "catalog_slot \<Rightarrow> bool" where
  "occupied sl \<longleftrightarrow> cs_state sl = CAT_LIVE \<or> cs_state sl = CAT_TOMBSTONE"

text \<open>The head of an occupied slot is in service for the slot's incarnation; any other head is out of service.\<close>

definition head_match :: "catalog_slot \<Rightarrow> artifact_head \<Rightarrow> bool" where
  "head_match sl h \<longleftrightarrow>
     (if occupied sl then check_magic h \<and> ah_incarnation h = cs_gen sl \<and> (\<exists>k. slot_kind sl = Inr k)
      else check_magic h \<longrightarrow> ah_incarnation h = NO_INCARNATION)"

definition keys_unique :: "catalog \<Rightarrow> bool" where
  "keys_unique c \<longleftrightarrow> (\<forall>i j. i < cat_capacity c \<and> j < cat_capacity c \<and> cs_state (cat_slot c i) = CAT_LIVE \<and> cs_state (cat_slot c j) = CAT_LIVE
     \<and> cs_key_id (cat_slot c i) = cs_key_id (cat_slot c j) \<longrightarrow> i = j)"

text \<open>A slot that carries its artifact id carries its head offset too, also after its entry has gone.\<close>

definition placed :: "catalog \<Rightarrow> u32 \<Rightarrow> bool" where
  "placed c i \<longleftrightarrow> (cs_artifact_id (cat_slot c i) = artifact_id_for c i \<longrightarrow> cs_head_off (cat_slot c i) = head_off_for c i)"

definition store_ok :: "catalog \<Rightarrow> store_mem \<Rightarrow> bool" where
  "store_ok c m \<longleftrightarrow> (\<exists>fs log. catalog_ok c [] fs log) \<and> cat_magic c = CATALOG_MAGIC \<and> heads_fit c m \<and> keys_unique c
     \<and> (\<forall>i < cat_capacity c. cs_gen (cat_slot c i) \<noteq> 0 \<and> head_match (cat_slot c i) (sm_heads m (head_off_for c i)))
     \<and> (\<forall>i < cat_capacity c. placed c i)"

lemma store_okD:
  assumes "store_ok c m"
  shows "\<exists>fs log. catalog_ok c [] fs log" "cat_magic c = CATALOG_MAGIC" "heads_fit c m" "keys_unique c"
    "i < cat_capacity c \<Longrightarrow> cs_gen (cat_slot c i) \<noteq> 0" "i < cat_capacity c \<Longrightarrow> head_match (cat_slot c i) (sm_heads m (head_off_for c i))"
    "i < cat_capacity c \<Longrightarrow> placed c i"
  using assms unfolding store_ok_def by blast+

lemma attach_catalog: "store_ok c m \<Longrightarrow> catalog_attach c = Inr c"
  by (simp add: catalog_attach_def store_okD(2))

lemma head_off:
  assumes fit: "heads_fit c m" and i: "i < cat_capacity c"
  shows "unat (head_off_for c i) = unat i * unat (head_stride c)"
    "unat (head_off_for c i) + head_region_bytes \<le> payload_len (sm_head_seg m)"
    "unat (head_off_for c i) + head_region_bytes < 2 ^ 64"
proof -
  let ?n = "unat i * unat (head_stride c)"
  have "(unat i + 1) * unat (head_stride c) \<le> unat (cat_capacity c) * unat (head_stride c)"
    using i by (intro mult_right_mono) (simp_all add: word_less_nat_alt)
  then have le: "?n + head_region_bytes \<le> payload_len (sm_head_seg m)" using fit by (simp add: heads_fit_def)
  have p: "payload_len (sm_head_seg m) < 2 ^ 32" using fit by (simp add: heads_fit_def)
  have "?n < 2 ^ 32" using le p by (metis le_add1 order.strict_trans1)
  then have "unat (i * head_stride c) = ?n" by (intro unat_mult_lem [THEN iffD1]) simp
  then show off: "unat (head_off_for c i) = ?n" by (simp add: head_off_for_def)
  show "unat (head_off_for c i) + head_region_bytes \<le> payload_len (sm_head_seg m)" using le off by simp
  have "(2 :: nat) ^ 32 < 2 ^ 64" by (rule power_strict_increasing) simp_all
  then have "?n + head_region_bytes < 2 ^ 64" by (rule order.strict_trans1 [OF le order.strict_trans [OF p]])
  then show "unat (head_off_for c i) + head_region_bytes < 2 ^ 64" by (simp only: off)
qed

lemma head_off_inj:
  assumes fit: "heads_fit c m" and i: "i < cat_capacity c" and j: "j < cat_capacity c" and e: "head_off_for c i = head_off_for c j"
  shows "i = j"
proof -
  have "unat i * unat (head_stride c) = unat j * unat (head_stride c)"
    by (simp only: head_off(1) [OF fit i, symmetric] head_off(1) [OF fit j, symmetric] e)
  moreover have "0 < unat (head_stride c)" using fit by (simp add: heads_fit_def head_region_bytes_def)
  ultimately show ?thesis by (simp add: word_unat_eq_iff)
qed

lemma attach_slot:
  assumes fit: "heads_fit c m" and i: "i < cat_capacity c"
  shows "attach_at a (sm_head_seg m) (unat (head_off_for c i)) h =
     (if \<not> check_magic h then Inl BadMagic else if ah_incarnation h = NO_INCARNATION then Inl AStale
      else Inr \<lparr>a_name_id = a, a_incarnation = ah_incarnation h, a_watch = False\<rparr>)"
proof -
  have "\<not> 2 ^ 64 \<le> unat (head_off_for c i) + head_region_bytes" "\<not> payload_len (sm_head_seg m) < unat (head_off_for c i) + head_region_bytes"
    using head_off(2,3) [OF fit i] by (simp_all only: not_le not_less)
  then show ?thesis unfolding attach_at_def Let_def by (simp only: if_False)
qed

lemma find_live_hit:
  assumes "next_slot c \<le> cat_capacity c" "find_live_by_key k c = Some i"
  shows "i < next_slot c" "i < cat_capacity c" "cs_state (cat_slot c i) = CAT_LIVE" "cs_key_id (cat_slot c i) = k"
proof -
  have "find_live_loop (scan_indices c) k c = Some i" using assms(2) by (simp add: find_live_by_key_def)
  note l = find_live_loop_least [OF this sorted_scan_indices]
  then show "i < next_slot c" "cs_state (cat_slot c i) = CAT_LIVE" "cs_key_id (cat_slot c i) = k"
    using set_scan_indices [OF assms(1)] by auto
  then show "i < cat_capacity c" using assms(1) by auto
qed

lemma find_live_spec:
  assumes ok: "store_ok c m"
  shows "find_live_by_key k c = Some i \<longleftrightarrow> i < cat_capacity c \<and> cs_state (cat_slot c i) = CAT_LIVE \<and> cs_key_id (cat_slot c i) = k"
proof
  obtain fs log where cok: "catalog_ok c [] fs log" using store_okD(1) [OF ok] by blast
  have le: "next_slot c \<le> cat_capacity c" using cok by (simp add: catalog_ok_def)
  show "i < cat_capacity c \<and> cs_state (cat_slot c i) = CAT_LIVE \<and> cs_key_id (cat_slot c i) = k" if "find_live_by_key k c = Some i"
    using find_live_hit [OF le that] by blast
  assume r: "i < cat_capacity c \<and> cs_state (cat_slot c i) = CAT_LIVE \<and> cs_key_id (cat_slot c i) = k"
  have past: "i < next_slot c" using cok r by (auto simp: catalog_ok_def Shm_Catalog.slot_ok_def cat_states split: if_splits)
  show "find_live_by_key k c = Some i"
  proof (cases "find_live_by_key k c")
    case None
    then show ?thesis using r past unfolding find_live_by_key_def find_live_loop_None set_scan_indices [OF le] by blast
  next
    case (Some j)
    then show ?thesis using find_live_hit [OF le Some] r store_okD(4) [OF ok] unfolding keys_unique_def by blast
  qed
qed

lemma slot_place:
  assumes ok: "store_ok c m" and i: "i < cat_capacity c" and oc: "cs_state (cat_slot c i) \<noteq> CAT_FREE"
  shows "i < next_slot c" "cs_artifact_id (cat_slot c i) = artifact_id_for c i" "cs_head_off (cat_slot c i) = head_off_for c i"
proof -
  obtain fs log where cok: "catalog_ok c [] fs log" using store_okD(1) [OF ok] by blast
  have so: "Shm_Catalog.slot_ok c (set [] \<union> set fs) (set log) i (cat_slot c i)" using cok i by (simp add: catalog_ok_def)
  show "i < next_slot c" using so oc unfolding Shm_Catalog.slot_ok_def by presburger
  then show "cs_artifact_id (cat_slot c i) = artifact_id_for c i" "cs_head_off (cat_slot c i) = head_off_for c i"
    using so oc by (auto simp: Shm_Catalog.slot_ok_def)
qed

text \<open>An occupied slot attaches, as the occupant the catalog says it has.\<close>

lemma attach_occupied:
  assumes ok: "store_ok c m" and i: "i < cat_capacity c" and oc: "occupied (cat_slot c i)"
  shows "attach_at a (sm_head_seg m) (unat (head_off_for c i)) (sm_heads m (head_off_for c i))
     = Inr \<lparr>a_name_id = a, a_incarnation = cs_gen (cat_slot c i), a_watch = False\<rparr>"
    "is_incarnation (cs_gen (cat_slot c i)) (sm_heads m (head_off_for c i))"
  using attach_slot [OF store_okD(3) [OF ok] i] store_okD(5,6) [OF ok i] oc
  by (simp_all add: head_match_def is_incarnation_def NO_INCARNATION_def)

lemma attach_vacant:
  assumes ok: "store_ok c m" and i: "i < cat_capacity c" and oc: "\<not> occupied (cat_slot c i)"
  shows "\<exists>e. attach_at a (sm_head_seg m) (unat (head_off_for c i)) (sm_heads m (head_off_for c i)) = Inl e"
  using attach_slot [OF store_okD(3) [OF ok] i] store_okD(6) [OF ok i] oc by (simp add: head_match_def)

text \<open>The entry that opening the key of a live slot yields.\<close>

definition entry_of :: "u32 \<Rightarrow> catalog \<Rightarrow> u32 \<Rightarrow> entry" where
  "entry_of owner c i = \<lparr>en_artifact = \<lparr>a_name_id = artifact_id_for c i, a_incarnation = cs_gen (cat_slot c i), a_watch = False\<rparr>,
     en_head_off = head_off_for c i, en_key_id = cs_key_id (cat_slot c i), en_kind = projr (slot_kind (cat_slot c i)), en_owner = owner\<rparr>"

lemma entry_at_live:
  assumes ok: "store_ok c m" and i: "i < cat_capacity c" and live: "cs_state (cat_slot c i) = CAT_LIVE"
  shows "entry_at owner c i m = Inr (entry_of owner c i)"
proof -
  have oc: "occupied (cat_slot c i)" and nf: "cs_state (cat_slot c i) \<noteq> CAT_FREE" using live by (simp_all add: occupied_def cat_states)
  obtain k where "slot_kind (cat_slot c i) = Inr k" using store_okD(6) [OF ok i] oc by (auto simp: head_match_def)
  then show ?thesis using attach_occupied(1) [OF ok i oc] slot_place [OF ok i nf] by (simp add: entry_at_def entry_of_def Let_def)
qed

definition open_slot :: "u32 \<Rightarrow> u32 \<Rightarrow> catalog \<Rightarrow> store_error + entry" where
  "open_slot owner k c = (case find_live_by_key k c of None \<Rightarrow> Inl NotFound | Some i \<Rightarrow> Inr (entry_of owner c i))"

lemma open_id_slot:
  assumes ok: "store_ok (st_catalog s) (st_mem s)"
  shows "open_id owner k s = open_slot owner k (st_catalog s)"
proof (cases "find_live_by_key k (st_catalog s)")
  case None
  then show ?thesis by (simp add: open_id_def open_slot_def attach_catalog [OF ok])
next
  case (Some i)
  then have "i < cat_capacity (st_catalog s)" "cs_state (cat_slot (st_catalog s) i) = CAT_LIVE" using find_live_spec [OF ok] by auto
  then show ?thesis using Some entry_at_live [OF ok] by (simp add: open_id_def open_slot_def attach_catalog [OF ok])
qed

section \<open>Reclaiming a slot\<close>

text \<open>The sweep's check on the head of an occupied slot.\<close>

lemma finished_spec:
  assumes ok: "store_ok c m" and i: "i < cat_capacity c" and oc: "occupied (cat_slot c i)"
  defines "off \<equiv> head_off_for c i"
  obtains q m' where "entry_is_finished a off (Some m) = (q, Some m')" "sm_head_seg m' = sm_head_seg m"
    "\<forall>x. x \<noteq> off \<longrightarrow> sm_heads m' x = sm_heads m x" "check_magic (sm_heads m' off)"
    "ah_incarnation (sm_heads m' off) = (if q then NO_INCARNATION else cs_gen (cat_slot c i))"
    "table_ok (sm_heads m off) \<longrightarrow> (q \<longleftrightarrow> no_pins (sm_heads m off))"
proof -
  let ?h = "sm_heads m off" and ?art = "\<lparr>a_name_id = a, a_incarnation = cs_gen (cat_slot c i), a_watch = False\<rparr>"
  let ?s = "\<lparr>as_arena = sm_arena m, as_head = ?h, as_journal = None, as_events = []\<rparr>"
  have magic: "check_magic ?h" "ah_incarnation ?h = cs_gen (cat_slot c i)"
    using store_okD(6) [OF ok i] oc by (simp_all add: head_match_def off_def)
  have att: "attach_at a (sm_head_seg m) (unat off) ?h = Inr ?art" using attach_occupied(1) [OF ok i oc] by (simp add: off_def)
  have "is_incarnation (a_incarnation ?art) (as_head ?s)" using attach_occupied(2) [OF ok i oc] by (simp add: off_def)
  then obtain s' where e: "evict_all ?art ?s = Some (Inr (), s')" "ah_magic (as_head s') = ah_magic ?h"
    "ah_incarnation (as_head s') = ah_incarnation ?h" "ah_current (as_head s') = NO_VERSION"
    "lease_owner (ah_write_lease (as_head s')) = LEASE_OWNER_NONE"
    "table_ok ?h \<Longrightarrow> ah_pins (as_head s') = map reap (ah_pins ?h)"
    by (rule evict_all_head) (rule that, simp_all)
  define h where "h = (as_head s')\<lparr>ah_incarnation := NO_INCARNATION\<rparr>"
  have ret: "head_retire (as_head s') = (cs_gen (cat_slot c i), h)" using e(3) magic(2) by (simp add: head_retire_def h_def)
  define m' where "m' = m\<lparr>sm_arena := as_arena s', sm_heads := (sm_heads m)
    (off := if is_quiescent h then h else commission (cs_gen (cat_slot c i)) h)\<rparr>"
  have run: "entry_is_finished a off (Some m) = (is_quiescent h, Some m')"
    using att e(1) ret by (simp add: entry_is_finished_def m'_def)
  have q: "is_quiescent h \<longleftrightarrow> no_pins ?h" if t: "table_ok ?h"
  proof
    assume "is_quiescent h"
    then have z: "\<forall>sl \<in> set (ah_pins ?h). ps_pins (reap sl) = 0"
      using e(6) [OF t] by (simp add: is_quiescent_def h_def list_all_iff pin_scan_def split: if_splits)
    have "ps_pins sl = 0" if "sl \<in> set (ah_pins ?h)" for sl
    proof -
      have "ps_pins (reap sl) = 0" using that z by simp
      then show ?thesis by (simp add: reap_def store_free_def split: if_splits)
    qed
    then show "no_pins ?h" by (simp add: no_pins_def)
  next
    assume n: "no_pins ?h"
    have "list_all (\<lambda>sl. ps_state sl = SLOT_FREE \<and> pin_scan sl = 0) (map reap (ah_pins ?h))"
      using reaped_quiet [OF t n] unfolding list_all_iff pin_scan_def by blast
    then show "is_quiescent h" using e(4,5) e(6) [OF t] by (simp add: is_quiescent_def h_def)
  qed
  show thesis
  proof (rule that [OF run])
    show "check_magic (sm_heads m' off)" using e(2) magic(1) by (simp add: m'_def check_magic_def commission_def h_def)
    show "ah_incarnation (sm_heads m' off) = (if is_quiescent h then NO_INCARNATION else cs_gen (cat_slot c i))"
      by (simp add: m'_def commission_def h_def)
  qed (simp_all add: m'_def q)
qed

definition cat_frame :: "catalog \<Rightarrow> catalog \<Rightarrow> bool" where
  "cat_frame c c' \<longleftrightarrow> cat_magic c' = cat_magic c \<and> cat_capacity c' = cat_capacity c \<and> head_stride c' = head_stride c
     \<and> artifact_id_base c' = artifact_id_base c"

lemma cat_frame_refl [simp]: "cat_frame c c"
  and cat_frame_set [simp]: "cat_frame c (set_cat_slot i sl c')  \<longleftrightarrow> cat_frame c c'"
  and cat_frame_push [simp]: "cat_frame c (cat_push_free i c') \<longleftrightarrow> cat_frame c c'"
  by (simp_all add: cat_frame_def set_cat_slot_def cat_push_free_def split: prod.splits)

lemma cat_frame_trans: "cat_frame a b \<Longrightarrow> cat_frame b c \<Longrightarrow> cat_frame a c"
  by (simp add: cat_frame_def)

lemma frame_off: "cat_frame c c' \<Longrightarrow> head_off_for c' i = head_off_for c i" "cat_frame c c' \<Longrightarrow> artifact_id_for c' i = artifact_id_for c i"
  by (simp_all add: cat_frame_def head_off_for_def artifact_id_for_def)

lemma reclaim_slot_effect:
  assumes ok: "catalog_ok c hd0 fs log" and i: "i < next_slot c" and st: "cs_state (cat_slot c i) = CAT_TOMBSTONE"
    and q: "quiescent (cs_artifact_id (cat_slot c i)) (cs_head_off (cat_slot c i)) h = (q, h1)"
  defines "g \<equiv> cs_gen (cat_slot c i)"
  obtains c' fs' where "try_reclaim_slot i quiescent (c, h) = (q \<and> g \<noteq> - 1, c', h1)" "catalog_ok c' hd0 fs' log" "cat_frame c c'"
    "next_slot c' = next_slot c" "\<forall>j. j \<noteq> i \<longrightarrow> cat_slot c' j = cat_slot c j" "\<not> q \<longrightarrow> c' = c"
    "q \<longrightarrow> cs_state (cat_slot c' i) = (if g = - 1 then CAT_RECLAIMING else CAT_FREE) \<and> cs_gen (cat_slot c' i) = (if g = - 1 then g else g + 1)"
    "cs_head_off (cat_slot c' i) = cs_head_off (cat_slot c i)"
proof -
  let ?s = "cat_slot c i"
  let ?s1 = "?s\<lparr>cs_word := pack_slot_word g CAT_RECLAIMING\<rparr>"
  have len: "unat i < length (cslots c)" by (rule catalog_ok_range [OF ok i])
  have b: "begin_reclaim ?s = (True, ?s1)" using st by (simp add: begin_reclaim_def cat_cas_state_iff g_def)
  have w: "?s\<lparr>cs_word := pack_slot_word g CAT_TOMBSTONE\<rparr> = ?s"
    using st sw.word_eq_pack_iff [of "cs_word ?s" g CAT_TOMBSTONE] by (cases ?s) (simp add: cs_state_def cs_gen_def g_def)
  have ab: "abort_reclaim ?s1 = ?s" using w by (simp add: abort_reclaim_def)
  obtain r c' h' where run: "try_reclaim_slot i quiescent (c, h) = (r, c', h')" by (metis prod_cases3)
  obtain fs' where ok': "catalog_ok c' hd0 fs' log" "next_slot c' = next_slot c"
    using try_reclaim_ok [OF ok i run] by blast
  have nf: "cs_state ?s \<noteq> CAT_FREE" using st by (simp add: cat_states)
  show thesis
  proof (cases q)
    case False
    then have "try_reclaim_slot i quiescent (c, h) = (False, c, h1)"
      using q b ab by (simp add: try_reclaim_slot_def set_cat_slot_same)
    then show thesis using that [of c fs] False ok by simp
  next
    case True
    show thesis
    proof (cases "g = - 1")
      case m: True
      have "finish_reclaim ?s1 = (None, ?s1)" using m by (simp add: finish_reclaim_def Let_def)
      then have t: "try_reclaim_slot i quiescent (c, h) = (False, set_cat_slot i ?s1 c, h1)" using q b True by (simp add: try_reclaim_slot_def)
      moreover have eq: "c' = set_cat_slot i ?s1 c" "\<not> r" "h' = h1" using run t by simp_all
      moreover have "cat_frame c c'" by (simp add: eq(1))
      ultimately show thesis using that [of c' fs'] True m ok' run len by (simp add: g_def)
    next
      case m: False
      let ?s2 = "?s1\<lparr>cs_key_id := 0, cs_word := pack_slot_word (g + 1) CAT_FREE\<rparr>"
      have f: "finish_reclaim ?s1 = (Some (g + 1), ?s2)" using m by (simp add: finish_reclaim_def Let_def)
      then have c': "try_reclaim_slot i quiescent (c, h) = (True, cat_push_free i (set_cat_slot i ?s2 c), h1)"
        using q b True by (simp add: try_reclaim_slot_def)
      note P = cat_push_free_ok [OF ok i nf f]
      have new: "cat_slot (cat_push_free i (set_cat_slot i ?s2 c)) i = ?s2\<lparr>cs_next_free := head_slot (free_head c)\<rparr>"
        using len by (simp add: cat_push_free_def treiber_push_def case_prod_beta Let_def write_next_free_def cat_slot_def set_cat_slot_def)
      then have "cs_state (cat_slot (cat_push_free i (set_cat_slot i ?s2 c)) i) = CAT_FREE" "cs_gen (cat_slot (cat_push_free i (set_cat_slot i ?s2 c)) i) = g + 1"
        by (simp_all add: cs_state_def cs_gen_def)
      moreover have "cs_head_off (cat_slot (cat_push_free i (set_cat_slot i ?s2 c)) i) = cs_head_off ?s" unfolding new by simp
      moreover have eq: "c' = cat_push_free i (set_cat_slot i ?s2 c)" "r" "h' = h1" using run c' by simp_all
      moreover have "cat_frame c c'" by (simp add: eq(1))
      ultimately show thesis using that [of c' fs'] True m ok' run P(2) by (simp add: g_def)
    qed
  qed
qed

lemma keys_unique_sub:
  assumes u: "keys_unique c" and cap: "cat_capacity c' = cat_capacity c"
    and sub: "\<And>j. j < cat_capacity c \<Longrightarrow> cs_state (cat_slot c' j) = CAT_LIVE \<Longrightarrow> cat_slot c' j = cat_slot c j"
  shows "keys_unique c'"
  unfolding keys_unique_def
proof (intro allI impI, elim conjE)
  fix i j
  assume a: "i < cat_capacity c'" "j < cat_capacity c'" "cs_state (cat_slot c' i) = CAT_LIVE" "cs_state (cat_slot c' j) = CAT_LIVE"
    "cs_key_id (cat_slot c' i) = cs_key_id (cat_slot c' j)"
  have "cat_slot c' i = cat_slot c i" "cat_slot c' j = cat_slot c j" using a cap by (auto intro: sub)
  then show "i = j" using u a unfolding keys_unique_def cap by metis
qed

text \<open>
  Reclaiming a tombstoned slot keeps the store in order, touches no other slot and no other head, and takes the
  slot back exactly if its entry has no pins.
\<close>

lemma reclaim_store:
  assumes ok: "store_ok c m" and i: "i < cat_capacity c" and st: "cs_state (cat_slot c i) = CAT_TOMBSTONE"
  obtains b c' m' where "try_reclaim_slot i entry_is_finished (c, Some m) = (b, c', Some m')" "store_ok c' m'" "cat_frame c c'"
    "next_slot c' = next_slot c" "\<forall>j. j \<noteq> i \<longrightarrow> cat_slot c' j = cat_slot c j" "\<forall>x. x \<noteq> head_off_for c i \<longrightarrow> sm_heads m' x = sm_heads m x"
    "cs_state (cat_slot c' i) \<noteq> CAT_LIVE"
    "b \<longleftrightarrow> cs_state (cat_slot c' i) = CAT_FREE" "\<not> b \<longrightarrow> cs_gen (cat_slot c i) \<noteq> - 1 \<longrightarrow> c' = c"
    "table_ok (sm_heads m (head_off_for c i)) \<longrightarrow> cs_gen (cat_slot c i) \<noteq> - 1 \<longrightarrow> (b \<longleftrightarrow> no_pins (sm_heads m (head_off_for c i)))"
proof -
  obtain fs log where cok: "catalog_ok c [] fs log" using store_okD(1) [OF ok] by blast
  have oc: "occupied (cat_slot c i)" and nf: "cs_state (cat_slot c i) \<noteq> CAT_FREE" using st by (simp_all add: occupied_def cat_states)
  note pl = slot_place [OF ok i nf]
  let ?off = "head_off_for c i" and ?g = "cs_gen (cat_slot c i)"
  have fit: "heads_fit c m" by (rule store_okD(3) [OF ok])
  obtain q m' where q: "entry_is_finished (artifact_id_for c i) ?off (Some m) = (q, Some m')" "sm_head_seg m' = sm_head_seg m"
    "\<forall>x. x \<noteq> ?off \<longrightarrow> sm_heads m' x = sm_heads m x" "check_magic (sm_heads m' ?off)"
    "ah_incarnation (sm_heads m' ?off) = (if q then NO_INCARNATION else ?g)"
    "table_ok (sm_heads m ?off) \<longrightarrow> (q \<longleftrightarrow> no_pins (sm_heads m ?off))"
    by (rule finished_spec [OF ok i oc, of "artifact_id_for c i"])
  have q': "entry_is_finished (cs_artifact_id (cat_slot c i)) (cs_head_off (cat_slot c i)) (Some m) = (q, Some m')" using q(1) pl by simp
  obtain c' fs' where r: "try_reclaim_slot i entry_is_finished (c, Some m) = (q \<and> ?g \<noteq> - 1, c', Some m')" "catalog_ok c' [] fs' log" "cat_frame c c'"
    "next_slot c' = next_slot c" "\<forall>j. j \<noteq> i \<longrightarrow> cat_slot c' j = cat_slot c j" "\<not> q \<longrightarrow> c' = c"
    "q \<longrightarrow> cs_state (cat_slot c' i) = (if ?g = - 1 then CAT_RECLAIMING else CAT_FREE) \<and> cs_gen (cat_slot c' i) = (if ?g = - 1 then ?g else ?g + 1)"
    "cs_head_off (cat_slot c' i) = cs_head_off (cat_slot c i)"
    by (rule reclaim_slot_effect [where quiescent = entry_is_finished and h = "Some m" and q = q and ?h1.0 = "Some m'", OF cok pl(1) st q'])
  have cap: "cat_capacity c' = cat_capacity c" using r(3) by (simp add: cat_frame_def)
  have nlive: "cs_state (cat_slot c' i) \<noteq> CAT_LIVE" using r(6,7) st by (cases q) (simp_all add: cat_states)
  have keys: "keys_unique c'"
    by (rule keys_unique_sub [OF store_okD(4) [OF ok] cap]) (use nlive r(5) in metis)
  have "cs_gen (cat_slot c' j) \<noteq> 0 \<and> head_match (cat_slot c' j) (sm_heads m' (head_off_for c' j))" if j: "j < cat_capacity c'" for j
  proof (cases "j = i")
    case False
    then have "head_off_for c j \<noteq> ?off" using head_off_inj [OF fit _ i] j cap by auto
    then show ?thesis using store_okD(5,6) [OF ok, of j] j cap r(5) False q(3) frame_off [OF r(3)] by simp
  next
    case True
    have g0: "?g \<noteq> 0" by (rule store_okD(5) [OF ok i])
    show ?thesis
    proof (cases q)
      case qf: False
      have "head_match (cat_slot c i) (sm_heads m ?off)" by (rule store_okD(6) [OF ok i])
      then show ?thesis using True qf r(6) q(4,5) oc g0 by (simp add: head_match_def)
    next
      case qt: True
      have "\<not> occupied (cat_slot c' i)" "cs_gen (cat_slot c' i) \<noteq> 0"
        using r(7) qt g0 by (auto simp: occupied_def cat_states succ_0_iff)
      then show ?thesis using True qt q(4,5) frame_off [OF r(3)] by (simp add: head_match_def)
    qed
  qed
  moreover have "placed c' j" if j: "j < cat_capacity c'" for j
    using store_okD(7) [OF ok, of j] j cap r(5,8) frame_off [OF r(3)] pl by (cases "j = i") (simp_all add: placed_def)
  moreover have "heads_fit c' m'" using fit r(3) q(2) by (simp add: heads_fit_def cat_frame_def)
  moreover have "cat_magic c' = CATALOG_MAGIC" using store_okD(2) [OF ok] r(3) by (simp add: cat_frame_def)
  ultimately have ok': "store_ok c' m'" using r(2) keys unfolding store_ok_def by blast
  show thesis
  proof (rule that [OF r(1) ok' r(3,4,5) q(3) nlive])
    show "(q \<and> ?g \<noteq> - 1) \<longleftrightarrow> cs_state (cat_slot c' i) = CAT_FREE" using r(6,7) nf by (cases q) (auto simp: cat_states)
    show "\<not> (q \<and> ?g \<noteq> - 1) \<longrightarrow> ?g \<noteq> - 1 \<longrightarrow> c' = c" using r(6) by blast
    show "table_ok (sm_heads m ?off) \<longrightarrow> ?g \<noteq> - 1 \<longrightarrow> ((q \<and> ?g \<noteq> - 1) \<longleftrightarrow> no_pins (sm_heads m ?off))" using q(6) by blast
  qed
qed

section \<open>Creating, opening and evicting by key\<close>

lemma store_ok_head:
  assumes ok: "store_ok c m" and i: "i < cat_capacity c" and oc: "occupied (cat_slot c i)"
    and h: "check_magic h" "ah_incarnation h = cs_gen (cat_slot c i)"
  shows "store_ok c (m\<lparr>sm_arena := a, sm_heads := (sm_heads m)(head_off_for c i := h)\<rparr>)"
proof -
  let ?m = "m\<lparr>sm_arena := a, sm_heads := (sm_heads m)(head_off_for c i := h)\<rparr>"
  have "head_match (cat_slot c j) (sm_heads ?m (head_off_for c j))" if j: "j < cat_capacity c" for j
  proof (cases "j = i")
    case True
    then show ?thesis using store_okD(6) [OF ok i] oc h by (simp add: head_match_def)
  next
    case False
    then show ?thesis using store_okD(6) [OF ok j] head_off_inj [OF store_okD(3) [OF ok] j i] by auto
  qed
  moreover have "heads_fit c ?m" using store_okD(3) [OF ok] by (simp add: heads_fit_def)
  ultimately show ?thesis using ok unfolding store_ok_def by blast
qed

lemma tombstone_store:
  assumes ok: "store_ok c m" and i: "i < cat_capacity c" and live: "cs_state (cat_slot c i) = CAT_LIVE"
  defines "c1 \<equiv> set_cat_slot i ((cat_slot c i)\<lparr>cs_word := pack_slot_word (cs_gen (cat_slot c i)) CAT_TOMBSTONE\<rparr>) c"
  shows "store_ok c1 m" "cat_frame c c1" "\<forall>j. j \<noteq> i \<longrightarrow> cat_slot c1 j = cat_slot c j" "cs_state (cat_slot c1 i) = CAT_TOMBSTONE"
    "cs_gen (cat_slot c1 i) = cs_gen (cat_slot c i)"
proof -
  obtain fs log where cok: "catalog_ok c [] fs log" using store_okD(1) [OF ok] by blast
  have nf: "cs_state (cat_slot c i) \<noteq> CAT_FREE" using live by (simp add: cat_states)
  note pl = slot_place [OF ok i nf]
  have len: "unat i < length (cslots c)" by (rule catalog_ok_range [OF cok pl(1)])
  show fr: "cat_frame c c1" by (simp add: c1_def)
  show oth: "\<forall>j. j \<noteq> i \<longrightarrow> cat_slot c1 j = cat_slot c j" and st: "cs_state (cat_slot c1 i) = CAT_TOMBSTONE"
    and g: "cs_gen (cat_slot c1 i) = cs_gen (cat_slot c i)" using len by (simp_all add: c1_def)
  have kd: "slot_kind (cat_slot c1 i) = slot_kind (cat_slot c i)" using len by (simp add: c1_def slot_kind_def)
  have cok1: "catalog_ok c1 [] fs log" unfolding c1_def by (rule catalog_ok_restate [OF cok pl(1) nf]) simp
  have cap: "cat_capacity c1 = cat_capacity c" using fr by (simp add: cat_frame_def)
  have nl: "cs_state (cat_slot c1 i) \<noteq> CAT_LIVE" using st by (simp add: cat_states)
  have keys: "keys_unique c1"
    by (rule keys_unique_sub [OF store_okD(4) [OF ok] cap]) (use oth nl in metis)
  have "cs_gen (cat_slot c1 j) \<noteq> 0 \<and> head_match (cat_slot c1 j) (sm_heads m (head_off_for c1 j))" if j: "j < cat_capacity c1" for j
  proof (cases "j = i")
    case True
    then show ?thesis using store_okD(5,6) [OF ok i] st g kd live frame_off [OF fr] by (simp add: head_match_def occupied_def)
  next
    case False
    then show ?thesis using store_okD(5,6) [OF ok, of j] j cap oth frame_off [OF fr] by simp
  qed
  moreover have "placed c1 j" if "j < cat_capacity c1" for j
    using store_okD(7) [OF ok, of j] that cap oth frame_off [OF fr] pl len by (cases "j = i") (simp_all add: placed_def c1_def)
  moreover have "heads_fit c1 m" using store_okD(3) [OF ok] fr by (simp add: heads_fit_def cat_frame_def)
  moreover have "cat_magic c1 = CATALOG_MAGIC" using store_okD(2) [OF ok] fr by (simp add: cat_frame_def)
  ultimately show "store_ok c1 m" using cok1 keys unfolding store_ok_def by blast
qed

text \<open>Opening a key depends on the live slots of that key only.\<close>

lemma open_slot_same:
  assumes ok: "store_ok c m" and ok': "store_ok c' m'" and fr: "cat_frame c c'"
    and same: "\<And>j. j < cat_capacity c \<Longrightarrow> cs_state (cat_slot c j) = CAT_LIVE \<and> cs_key_id (cat_slot c j) = k \<or>
        cs_state (cat_slot c' j) = CAT_LIVE \<and> cs_key_id (cat_slot c' j) = k \<Longrightarrow> cat_slot c' j = cat_slot c j"
  shows "open_slot owner k c' = open_slot owner k c"
proof -
  have cap: "cat_capacity c' = cat_capacity c" using fr by (simp add: cat_frame_def)
  have iff: "find_live_by_key k c' = Some j \<longleftrightarrow> find_live_by_key k c = Some j" for j
  proof
    assume "find_live_by_key k c' = Some j"
    then have a: "j < cat_capacity c" "cs_state (cat_slot c' j) = CAT_LIVE \<and> cs_key_id (cat_slot c' j) = k"
      using find_live_spec [OF ok', of k j] cap by simp_all
    then have "cat_slot c' j = cat_slot c j" by (intro same) blast+
    then show "find_live_by_key k c = Some j" using a find_live_spec [OF ok, of k j] by simp
  next
    assume "find_live_by_key k c = Some j"
    then have a: "j < cat_capacity c" "cs_state (cat_slot c j) = CAT_LIVE \<and> cs_key_id (cat_slot c j) = k"
      using find_live_spec [OF ok, of k j] by simp_all
    then have "cat_slot c' j = cat_slot c j" by (intro same) blast+
    then show "find_live_by_key k c' = Some j" using a find_live_spec [OF ok', of k j] cap by simp
  qed
  have eq: "find_live_by_key k c' = find_live_by_key k c"
  proof (cases "find_live_by_key k c")
    case None
    then show ?thesis using iff by (cases "find_live_by_key k c'") auto
  qed (use iff in simp)
  show ?thesis
  proof (cases "find_live_by_key k c")
    case (Some j)
    then have "cat_slot c' j = cat_slot c j" using find_live_spec [OF ok, of k j] same [of j] by blast
    then show ?thesis using Some eq frame_off [OF fr] by (simp add: open_slot_def entry_of_def)
  qed (simp add: open_slot_def eq)
qed

lemma reap_pins [simp]: "ps_pins (reap sl) = ps_pins sl"
  by (simp add: reap_def store_free_def)

lemma table_ok_reaped:
  assumes ok: "table_ok h" and p: "ah_pins h' = map reap (ah_pins h)"
  shows "table_ok h'" "no_pins h' \<longleftrightarrow> no_pins h"
proof -
  have live: "live_at h' i \<Longrightarrow> live_at h i \<and> ps_version (ah_pins h' ! i) = ps_version (ah_pins h ! i)" for i
    by (auto simp: live_at_def p reap_def store_free_def pin_states split: if_splits)
  have "\<forall>i j. live_at h' i \<and> live_at h' j \<and> ps_version (ah_pins h' ! i) = ps_version (ah_pins h' ! j) \<longrightarrow> i = j"
    using live ok unfolding table_ok_def by metis
  moreover have "\<forall>sl \<in> set (ah_pins h'). slot_fine sl" using ok slot_fine_reap by (auto simp: p table_ok_def)
  ultimately show "table_ok h'" unfolding table_ok_def by blast
  show "no_pins h' \<longleftrightarrow> no_pins h" by (simp add: no_pins_def p)
qed

end
