(* ===== verification/Shm_Store_Prop.thy ===== *)
theory Shm_Store_Prop
  imports Shm_Store
begin

text \<open>
  Properties of the keyed store: what creating, opening and evicting a key promise, and that the sweep takes back
  exactly the finished entries; with a small store on which they are evaluated.
\<close>

section \<open>Keys\<close>

lemma evict_found:
  assumes ok: "store_ok (st_catalog s) (st_mem s)" and key: "store_key_id intern_key key = Inr k" and hit: "find_live_by_key k (st_catalog s) = Some i"
  defines "h \<equiv> sm_heads (st_mem s) (head_off_for (st_catalog s) i)"
  obtains s' where "store_evict intern_key key s = Some (Inr (), s')" "store_ok (st_catalog s') (st_mem s')" "cat_frame (st_catalog s) (st_catalog s')"
    "\<forall>j. j \<noteq> i \<longrightarrow> cat_slot (st_catalog s') j = cat_slot (st_catalog s) j" "cs_state (cat_slot (st_catalog s') i) \<noteq> CAT_LIVE"
    "\<forall>x. x \<noteq> head_off_for (st_catalog s) i \<longrightarrow> sm_heads (st_mem s') x = sm_heads (st_mem s) x" "st_actors s' = st_actors s"
    "table_ok h \<longrightarrow> cs_gen (cat_slot (st_catalog s) i) \<noteq> - 1 \<longrightarrow> (cs_state (cat_slot (st_catalog s') i) = CAT_FREE \<longleftrightarrow> no_pins h)"
proof -
  let ?c = "st_catalog s" and ?m = "st_mem s"
  let ?off = "head_off_for ?c i" and ?sl = "cat_slot ?c i"
  have i: "i < cat_capacity ?c" and live: "cs_state ?sl = CAT_LIVE" using find_live_spec [OF ok, of k i] hit by auto
  let ?sl1 = "?sl\<lparr>cs_word := pack_slot_word (cs_gen ?sl) CAT_TOMBSTONE\<rparr>"
  define c1 where "c1 = set_cat_slot i ?sl1 ?c"
  note t = tombstone_store [OF ok i live, folded c1_def]
  have oc: "occupied ?sl" and nf: "cs_state ?sl \<noteq> CAT_FREE" using live by (simp_all add: occupied_def cat_states)
  note pl = slot_place [OF ok i nf]
  let ?art = "\<lparr>a_name_id = artifact_id_for ?c i, a_incarnation = cs_gen ?sl, a_watch = False\<rparr>"
  let ?a = "\<lparr>as_arena = sm_arena ?m, as_head = h, as_journal = None, as_events = []\<rparr>"
  note att = attach_occupied [OF ok i oc]
  have "is_incarnation (a_incarnation ?art) (as_head ?a)" using att(2) by (simp add: h_def)
  then obtain a where a: "evict_all ?art ?a = Some (Inr (), a)" "ah_magic (as_head a) = ah_magic h" "ah_incarnation (as_head a) = ah_incarnation h"
    "table_ok h \<Longrightarrow> ah_pins (as_head a) = map reap (ah_pins h)"
    by (rule evict_all_head) (rule that, simp_all)
  define m1 where "m1 = ?m\<lparr>sm_arena := as_arena a, sm_heads := (sm_heads ?m)(?off := as_head a)\<rparr>"
  have cap1: "cat_capacity c1 = cat_capacity ?c" using t(2) by (simp add: cat_frame_def)
  note off1 = frame_off(1) [OF t(2)]
  have oc1: "occupied (cat_slot c1 i)" using t(4) by (simp add: occupied_def)
  have hm: "check_magic h" "ah_incarnation h = cs_gen ?sl" using store_okD(6) [OF ok i] oc by (simp_all add: head_match_def h_def)
  have ok1: "store_ok c1 m1"
    using store_ok_head [OF t(1) _ oc1, of "as_head a" "as_arena a"] i cap1 a(2,3) hm t(5) by (simp add: m1_def off1 check_magic_def)
  obtain b c2 m2 where r: "try_reclaim_slot i entry_is_finished (c1, Some m1) = (b, c2, Some m2)" "store_ok c2 m2" "cat_frame c1 c2"
    "next_slot c2 = next_slot c1" "\<forall>j. j \<noteq> i \<longrightarrow> cat_slot c2 j = cat_slot c1 j" "\<forall>x. x \<noteq> head_off_for c1 i \<longrightarrow> sm_heads m2 x = sm_heads m1 x"
    "cs_state (cat_slot c2 i) \<noteq> CAT_LIVE" "b \<longleftrightarrow> cs_state (cat_slot c2 i) = CAT_FREE"
    "\<not> b \<longrightarrow> cs_gen (cat_slot c1 i) \<noteq> - 1 \<longrightarrow> c2 = c1"
    "table_ok (sm_heads m1 (head_off_for c1 i)) \<longrightarrow> cs_gen (cat_slot c1 i) \<noteq> - 1 \<longrightarrow> (b \<longleftrightarrow> no_pins (sm_heads m1 (head_off_for c1 i)))"
    by (rule reclaim_store [OF ok1 _ t(4)]) (use i cap1 in auto)
  define s' where "s' = s\<lparr>st_catalog := c2, st_mem := m2\<rparr>"
  have run: "store_evict intern_key key s = Some (Inr (), s')"
    using key hit attach_catalog [OF ok] live pl att(1) a(1) r(1)
    by (simp add: store_evict_def tombstone_gen_iff attach_at_incarnation_def Let_def store_try_reclaim_def s'_def h_def [symmetric] m1_def c1_def)
  show thesis
  proof (rule that [OF run])
    show "cat_frame ?c (st_catalog s')" using cat_frame_trans [OF t(2) r(3)] by (simp add: s'_def)
    show "table_ok h \<longrightarrow> cs_gen ?sl \<noteq> - 1 \<longrightarrow> (cs_state (cat_slot (st_catalog s') i) = CAT_FREE \<longleftrightarrow> no_pins h)"
    proof (intro impI)
      assume tab: "table_ok h" and g: "cs_gen ?sl \<noteq> - 1"
      note tr = table_ok_reaped [OF tab a(4) [OF tab]]
      have "sm_heads m1 (head_off_for c1 i) = as_head a" by (simp add: m1_def off1)
      then show "cs_state (cat_slot (st_catalog s') i) = CAT_FREE \<longleftrightarrow> no_pins h" using r(8,10) tr g t(5) by (simp add: s'_def)
    qed
  qed (use r(2,5,6,7) t(3) off1 in \<open>simp_all add: s'_def m1_def\<close>)
qed

text \<open>
  C32: Evicting a key makes it unknown and touches no other entry. The eviction always returns; afterwards the key
  opens nothing, every other key opens the entry it opened before, the store is in order, and the slot is back on
  the free list exactly if nobody held a pin on the entry.
\<close>

theorem evict_forgets:
  assumes ok: "store_ok (st_catalog s) (st_mem s)" and key: "store_key_id intern_key key = Inr k"
  shows "\<exists>s'. store_evict intern_key key s = Some (Inr (), s') \<and> store_ok (st_catalog s') (st_mem s')
     \<and> store_open intern_key owner key s' = Inl NotFound
     \<and> (\<forall>k'. k' \<noteq> k \<longrightarrow> open_id owner k' s' = open_id owner k' s)
     \<and> (\<forall>i. find_live_by_key k (st_catalog s) = Some i \<longrightarrow> table_ok (sm_heads (st_mem s) (head_off_for (st_catalog s) i))
          \<longrightarrow> cs_gen (cat_slot (st_catalog s) i) \<noteq> - 1
          \<longrightarrow> (cs_state (cat_slot (st_catalog s') i) = CAT_FREE \<longleftrightarrow> no_pins (sm_heads (st_mem s) (head_off_for (st_catalog s) i))))"
proof (cases "find_live_by_key k (st_catalog s)")
  case None
  then have "store_evict intern_key key s = Some (Inr (), s)" using key attach_catalog [OF ok] by (simp add: store_evict_def)
  then show ?thesis using None key ok open_id_slot [OF ok] by (simp add: store_open_def open_slot_def)
next
  case (Some i)
  let ?c = "st_catalog s"
  have i: "i < cat_capacity ?c" "cs_state (cat_slot ?c i) = CAT_LIVE" "cs_key_id (cat_slot ?c i) = k" using find_live_spec [OF ok] Some by auto
  obtain s' where e: "store_evict intern_key key s = Some (Inr (), s')" "store_ok (st_catalog s') (st_mem s')" "cat_frame ?c (st_catalog s')"
    "\<forall>j. j \<noteq> i \<longrightarrow> cat_slot (st_catalog s') j = cat_slot ?c j" "cs_state (cat_slot (st_catalog s') i) \<noteq> CAT_LIVE"
    "table_ok (sm_heads (st_mem s) (head_off_for ?c i)) \<longrightarrow> cs_gen (cat_slot ?c i) \<noteq> - 1
       \<longrightarrow> (cs_state (cat_slot (st_catalog s') i) = CAT_FREE \<longleftrightarrow> no_pins (sm_heads (st_mem s) (head_off_for ?c i)))"
    by (rule evict_found [OF ok key Some]) (rule that)
  have "find_live_by_key k (st_catalog s') \<noteq> Some j" for j
    using find_live_spec [OF ok, of k j] find_live_spec [OF e(2), of k j] e(3,4,5) Some by (cases "j = i") (auto simp: cat_frame_def)
  then have "find_live_by_key k (st_catalog s') = None" by (cases "find_live_by_key k (st_catalog s')") auto
  then have "store_open intern_key owner key s' = Inl NotFound" using key open_id_slot [OF e(2)] by (simp add: store_open_def open_slot_def)
  moreover have "open_id owner k' s' = open_id owner k' s" if "k' \<noteq> k" for k'
    unfolding open_id_slot [OF e(2)] open_id_slot [OF ok]
    by (rule open_slot_same [OF ok e(2,3)]) (use e(4,5) i that in metis)
  ultimately show ?thesis using e Some by (intro exI [of _ s']) simp
qed

lemma keys_unique_add:
  assumes u: "keys_unique c" and cap: "cat_capacity c' = cat_capacity c" and oth: "\<forall>j. j \<noteq> i \<longrightarrow> cat_slot c' j = cat_slot c j"
    and new: "cs_key_id (cat_slot c' i) = k"
    and none: "\<And>j. j < cat_capacity c \<Longrightarrow> cs_state (cat_slot c j) = CAT_LIVE \<Longrightarrow> cs_key_id (cat_slot c j) \<noteq> k"
  shows "keys_unique c'"
  unfolding keys_unique_def cap
proof (intro allI impI, elim conjE)
  fix x y
  assume a: "x < cat_capacity c" "y < cat_capacity c" "cs_state (cat_slot c' x) = CAT_LIVE" "cs_state (cat_slot c' y) = CAT_LIVE"
    "cs_key_id (cat_slot c' x) = cs_key_id (cat_slot c' y)"
  show "x = y"
  proof (cases "x = i \<or> y = i")
    case True
    then show ?thesis using a oth new none [of x] none [of y] by metis
  next
    case False
    then have "cat_slot c' x = cat_slot c x" "cat_slot c' y = cat_slot c y" using oth by simp_all
    then show ?thesis using a u unfolding keys_unique_def by metis
  qed
qed

text \<open>Creating under a key without a live entry.\<close>

lemma create_fresh:
  assumes ok: "store_ok c m" and none: "find_live_by_key k c = None"
  obtains "alloc_slot c = (Inl (CatalogFull (cat_capacity c)), c)"
  | i c1 art h where "alloc_slot c = (Inr i, c1)" "i < cat_capacity c"
      "create_at (artifact_id_for c1 i) (cs_gen (cat_slot c1 i)) (sm_head_seg m) (unat (head_off_for c1 i)) (sm_heads m (head_off_for c1 i)) = Inr (art, h)"
      "store_ok (snd (publish_slot i k rk c1)) (m\<lparr>sm_heads := (sm_heads m)(head_off_for c1 i := h)\<rparr>)" "cat_frame c (snd (publish_slot i k rk c1))"
      "\<forall>j. j \<noteq> i \<longrightarrow> cat_slot (snd (publish_slot i k rk c1)) j = cat_slot c j"
      "cs_state (cat_slot c i) = CAT_FREE" "cs_state (cat_slot (snd (publish_slot i k rk c1)) i) = CAT_LIVE"
      "cs_key_id (cat_slot (snd (publish_slot i k rk c1)) i) = k" "slot_kind (cat_slot (snd (publish_slot i k rk c1)) i) = Inr rk"
      "entry_of owner (snd (publish_slot i k rk c1)) i = \<lparr>en_artifact = art, en_head_off = head_off_for c1 i, en_key_id = k, en_kind = rk, en_owner = owner\<rparr>"
proof -
  obtain fs log where cok: "catalog_ok c [] fs log" using store_okD(1) [OF ok] by blast
  have fit: "heads_fit c m" by (rule store_okD(3) [OF ok])
  show thesis
  proof (cases "fst (alloc_slot c)")
    case (Inl e)
    then show thesis using alloc_slot_ok [OF cok] that(1) by auto
  next
    case (Inr i)
    then obtain c1 fs1 where al: "alloc_slot c = (Inr i, c1)" "catalog_ok c1 [i] fs1 log" "cslots c1 = cslots c" "cs_state (cat_slot c i) = CAT_FREE"
      using alloc_slot_ok [OF cok] by auto
    have fr: "cat_frame c c1" using al(1)
      by (auto simp: alloc_slot_def cat_pop_free_def cat_frame_def Let_def split: prod.splits option.splits if_splits)
    have sl: "cat_slot c1 = cat_slot c" using al(3) by (simp add: cat_slot_def fun_eq_iff)
    have lt: "i < next_slot c1" using al(2) by (simp add: catalog_ok_def)
    have cap1: "cat_capacity c1 = cat_capacity c" using fr by (simp add: cat_frame_def)
    have i: "i < cat_capacity c" using catalog_ok_range(1) [OF al(2) lt] cap1 by simp
    have len: "unat i < length (cslots c1)" by (rule catalog_ok_range(2) [OF al(2) lt])
    note off1 = frame_off [OF fr]
    let ?g = "cs_gen (cat_slot c i)" and ?off = "head_off_for c i"
    define h where "h = commission ?g (fresh_head\<lparr>ah_write_lease := pack_lease LEASE_OWNER_NONE
      (if check_magic (sm_heads m ?off) then lease_fence (ah_write_lease (sm_heads m ?off)) else 0)\<rparr>)"
    define art where "art = \<lparr>a_name_id = artifact_id_for c i, a_incarnation = ?g, a_watch = False\<rparr>"
    have nofit: "\<not> 2 ^ 64 \<le> unat ?off + head_region_bytes" "\<not> payload_len (sm_head_seg m) < unat ?off + head_region_bytes"
      using head_off(2,3) [OF fit i] by (simp_all only: not_le not_less)
    have cr: "create_at (artifact_id_for c1 i) (cs_gen (cat_slot c1 i)) (sm_head_seg m) (unat (head_off_for c1 i)) (sm_heads m (head_off_for c1 i)) = Inr (art, h)"
      unfolding create_at_def Let_def off1 sl h_def art_def by (simp only: nofit if_False)
    define c2 where "c2 = snd (publish_slot i k rk c1)"
    have cok2: "catalog_ok c2 [] fs1 ((i, ?g) # log)" using publish_ok [OF al(2), of i k rk] by (simp add: c2_def sl)
    have fr2: "cat_frame c c2" using fr by (simp add: c2_def publish_slot_def Let_def)
    have cap2: "cat_capacity c2 = cat_capacity c" using fr2 by (simp add: cat_frame_def)
    note off2 = frame_off [OF fr2]
    have oth: "\<forall>j. j \<noteq> i \<longrightarrow> cat_slot c2 j = cat_slot c j" using len by (simp add: c2_def publish_slot_def Let_def sl)
    have new: "cat_slot c2 i = (write_fields k (artifact_id_for c i) ?off rk (cat_slot c i))\<lparr>cs_word := pack_slot_word ?g CAT_LIVE\<rparr>"
      using len al(4) by (simp add: c2_def publish_slot_def Let_def sl off1 slot_publish_def cat_cas_state_iff write_fields_def cs_state_def cs_gen_def)
    have s2: "cs_state (cat_slot c2 i) = CAT_LIVE" "cs_key_id (cat_slot c2 i) = k" "cs_gen (cat_slot c2 i) = ?g" by (simp_all add: new write_fields_def)
    have kd: "slot_kind (cat_slot c2 i) = Inr rk"
    proof -
      have "(ucast (ucast (as_u16 rk) :: u32) :: u16) = as_u16 rk" by (cases rk) (simp_all add: as_u16_def)
      then show ?thesis by (simp add: new write_fields_def slot_kind_def)
    qed
    let ?m2 = "m\<lparr>sm_heads := (sm_heads m)(head_off_for c1 i := h)\<rparr>"
    have nok: "j < cat_capacity c \<Longrightarrow> cs_state (cat_slot c j) = CAT_LIVE \<Longrightarrow> cs_key_id (cat_slot c j) \<noteq> k" for j
      using find_live_spec [OF ok, of k j] none by auto
    have keys: "keys_unique c2" by (rule keys_unique_add [OF store_okD(4) [OF ok] cap2 oth s2(2) nok])
    have "cs_gen (cat_slot c2 j) \<noteq> 0 \<and> head_match (cat_slot c2 j) (sm_heads ?m2 (head_off_for c2 j))" if j: "j < cat_capacity c2" for j
    proof (cases "j = i")
      case True
      have "check_magic h" "ah_incarnation h = ?g" by (simp_all add: h_def check_magic_def commission_def fresh_head_def)
      then show ?thesis using True store_okD(5) [OF ok i] s2 kd off1 off2 by (simp add: head_match_def occupied_def)
    next
      case False
      then have "head_off_for c j \<noteq> ?off" using head_off_inj [OF fit _ i] j cap2 by auto
      then show ?thesis using store_okD(5,6) [OF ok, of j] j cap2 oth False off1 off2 by simp
    qed
    moreover have "placed c2 j" if "j < cat_capacity c2" for j
      using store_okD(7) [OF ok, of j] that cap2 oth off2 by (cases "j = i") (simp_all add: placed_def new write_fields_def)
    moreover have "heads_fit c2 ?m2" using fit fr2 by (simp add: heads_fit_def cat_frame_def)
    moreover have "cat_magic c2 = CATALOG_MAGIC" using store_okD(2) [OF ok] fr2 by (simp add: cat_frame_def)
    ultimately have ok2: "store_ok c2 ?m2" using cok2 keys unfolding store_ok_def by blast
    have en: "entry_of owner c2 i = \<lparr>en_artifact = art, en_head_off = head_off_for c1 i, en_key_id = k, en_kind = rk, en_owner = owner\<rparr>"
      using s2 kd off1 off2 by (simp add: entry_of_def art_def)
    show thesis
      by (rule that(2) [OF al(1) i cr], fold c2_def) (rule ok2 fr2 oth al(4) s2(1) s2(2) kd en)+
  qed
qed

text \<open>
  C33: Creating is get-or-create. A key that has a live entry is answered with it and nothing in shared memory moves;
  otherwise the catalog is full and says so, or a new entry is there, under an identity of its own and with the kind
  asked for. From then on every actor that opens the key gets that entry, and every other key opens what it opened
  before.
\<close>

theorem create_then_open:
  assumes ok: "store_ok (st_catalog s) (st_mem s)" and key: "store_key_id intern_key key = Inr k"
    and cr: "store_create intern_key ser owner key rk schema s = (r, s')"
  shows "store_ok (st_catalog s') (st_mem s')
     \<and> (\<forall>k' ow. k' \<noteq> k \<longrightarrow> open_id ow k' s' = open_id ow k' s)
     \<and> (case r of
          Inl e \<Rightarrow> e = CatalogFull (cat_capacity (st_catalog s)) \<and> open_id owner k s = Inl NotFound \<and> st_catalog s' = st_catalog s \<and> st_mem s' = st_mem s
        | Inr e \<Rightarrow> (\<forall>ow. store_open intern_key ow key s' = Inr (e\<lparr>en_owner := ow\<rparr>)) \<and> en_key_id e = k
            \<and> (case open_id owner k s of Inr e' \<Rightarrow> e = e' \<and> st_catalog s' = st_catalog s \<and> st_mem s' = st_mem s | Inl _ \<Rightarrow> en_kind e = rk))"
proof (cases "find_live_by_key k (st_catalog s)")
  case (Some i)
  let ?c = "st_catalog s"
  have i: "i < cat_capacity ?c" "cs_state (cat_slot ?c i) = CAT_LIVE" "cs_key_id (cat_slot ?c i) = k" using find_live_spec [OF ok] Some by auto
  have "r = Inr (entry_of owner ?c i)" "st_catalog s' = ?c" "st_mem s' = st_mem s"
    using cr key attach_catalog [OF ok] Some entry_at_live [OF ok i(1,2)] by (auto simp: store_create_def Let_def)
  moreover from this have "store_ok (st_catalog s') (st_mem s')" using ok by simp
  ultimately show ?thesis using key Some i(3) open_id_slot [OF ok] open_id_slot [of s']
    by (simp add: store_open_def open_slot_def entry_of_def)
next
  case None
  let ?c = "st_catalog s"
  show ?thesis
  proof (rule create_fresh [where rk = rk and owner = owner, OF ok None])
    assume f: "alloc_slot ?c = (Inl (CatalogFull (cat_capacity ?c)), ?c)"
    have "r = Inl (CatalogFull (cat_capacity ?c))" "st_catalog s' = ?c" "st_mem s' = st_mem s"
      using cr key attach_catalog [OF ok] None f by (auto simp: store_create_def Let_def)
    moreover from this have "store_ok (st_catalog s') (st_mem s')" using ok by simp
    ultimately show ?thesis using None open_id_slot [OF ok] open_id_slot [of s'] by (simp add: open_slot_def)
  next
    fix i c1 art h
    let ?c2 = "snd (publish_slot i k rk c1)" and ?m2 = "(st_mem s)\<lparr>sm_heads := (sm_heads (st_mem s))(head_off_for c1 i := h)\<rparr>"
    assume a: "alloc_slot ?c = (Inr i, c1)" "i < cat_capacity ?c"
      "create_at (artifact_id_for c1 i) (cs_gen (cat_slot c1 i)) (sm_head_seg (st_mem s)) (unat (head_off_for c1 i)) (sm_heads (st_mem s) (head_off_for c1 i)) = Inr (art, h)"
      "store_ok ?c2 ?m2" "cat_frame ?c ?c2" "\<forall>j. j \<noteq> i \<longrightarrow> cat_slot ?c2 j = cat_slot ?c j" "cs_state (cat_slot ?c i) = CAT_FREE"
      "cs_state (cat_slot ?c2 i) = CAT_LIVE" "cs_key_id (cat_slot ?c2 i) = k" "slot_kind (cat_slot ?c2 i) = Inr rk"
      "entry_of owner ?c2 i = \<lparr>en_artifact = art, en_head_off = head_off_for c1 i, en_key_id = k, en_kind = rk, en_owner = owner\<rparr>"
    have r: "r = Inr (entry_of owner ?c2 i)" "st_catalog s' = ?c2" "st_mem s' = ?m2"
      using cr key attach_catalog [OF ok] None a(1,3) by (auto simp: store_create_def Let_def a(11))
    have ok': "store_ok (st_catalog s') (st_mem s')" using a(4) r by simp
    have cap: "cat_capacity ?c2 = cat_capacity ?c" using a(5) by (simp add: cat_frame_def)
    have hit: "find_live_by_key k ?c2 = Some i" using find_live_spec [OF a(4), of k i] a(2,8,9) cap by simp
    have nl: "cs_state (cat_slot ?c i) \<noteq> CAT_LIVE" using a(7) by (simp add: cat_states)
    have "open_id ow k' s' = open_id ow k' s" if "k' \<noteq> k" for k' ow
      unfolding open_id_slot [OF ok'] open_id_slot [OF ok] r(2)
      by (rule open_slot_same [OF ok a(4,5)]) (use a(6,9) nl that in metis)
    moreover have "store_open intern_key ow key s' = Inr ((entry_of owner ?c2 i)\<lparr>en_owner := ow\<rparr>)" for ow
      using key hit open_id_slot [OF ok'] r(2) by (simp add: store_open_def open_slot_def entry_of_def)
    moreover have "en_key_id (entry_of owner ?c2 i) = k" "en_kind (entry_of owner ?c2 i) = rk" by (simp_all add: a(11))
    ultimately show ?thesis using ok' r(1) open_id_slot [OF ok] None by (simp add: open_slot_def)
  qed
qed

section \<open>The sweep\<close>

definition swept :: "catalog \<Rightarrow> store_mem \<Rightarrow> catalog \<Rightarrow> u32 \<Rightarrow> bool" where
  "swept c m c' i \<longleftrightarrow>
     (if cs_state (cat_slot c i) \<noteq> CAT_TOMBSTONE then cat_slot c' i = cat_slot c i
      else cs_state (cat_slot c' i) \<noteq> CAT_LIVE
        \<and> (table_ok (sm_heads m (head_off_for c i)) \<longrightarrow> cs_gen (cat_slot c i) \<noteq> - 1 \<longrightarrow>
             (if no_pins (sm_heads m (head_off_for c i)) then cs_state (cat_slot c' i) = CAT_FREE else cat_slot c' i = cat_slot c i)))"

lemma sweep_step:
  assumes ok: "store_ok c m" and i: "i < cat_capacity c"
  obtains b c' m' where "(if cs_state (cat_slot c i) = CAT_TOMBSTONE then try_reclaim_slot i entry_is_finished (c, Some m) else (False, c, Some m)) = (b, c', Some m')"
    "store_ok c' m'" "cat_frame c c'" "\<forall>j. j \<noteq> i \<longrightarrow> cat_slot c' j = cat_slot c j" "\<forall>x. x \<noteq> head_off_for c i \<longrightarrow> sm_heads m' x = sm_heads m x"
    "swept c m c' i" "b \<longleftrightarrow> cs_state (cat_slot c i) = CAT_TOMBSTONE \<and> cs_state (cat_slot c' i) = CAT_FREE"
proof (cases "cs_state (cat_slot c i) = CAT_TOMBSTONE")
  case False
  then show thesis using that [of False c m] ok by (simp add: swept_def)
next
  case st: True
  obtain b c' m' where r: "try_reclaim_slot i entry_is_finished (c, Some m) = (b, c', Some m')" "store_ok c' m'" "cat_frame c c'"
    "next_slot c' = next_slot c" "\<forall>j. j \<noteq> i \<longrightarrow> cat_slot c' j = cat_slot c j" "\<forall>x. x \<noteq> head_off_for c i \<longrightarrow> sm_heads m' x = sm_heads m x"
    "cs_state (cat_slot c' i) \<noteq> CAT_LIVE" "b \<longleftrightarrow> cs_state (cat_slot c' i) = CAT_FREE" "\<not> b \<longrightarrow> cs_gen (cat_slot c i) \<noteq> - 1 \<longrightarrow> c' = c"
    "table_ok (sm_heads m (head_off_for c i)) \<longrightarrow> cs_gen (cat_slot c i) \<noteq> - 1 \<longrightarrow> (b \<longleftrightarrow> no_pins (sm_heads m (head_off_for c i)))"
    by (rule reclaim_store [OF ok i st])
  have "swept c m c' i" using st r(7-10) by (auto simp: swept_def)
  then show thesis using that [of b c' m'] st r by simp
qed

lemma reclaim_loop_store:
  assumes "store_ok c m" "\<forall>i \<in> set is. i < cat_capacity c" "distinct is"
  shows "\<exists>c' m'. reclaim_loop is entry_is_finished (c, Some m)
       = (length (filter (\<lambda>i. cs_state (cat_slot c i) = CAT_TOMBSTONE \<and> cs_state (cat_slot c' i) = CAT_FREE) is), c', Some m')
     \<and> store_ok c' m' \<and> cat_frame c c' \<and> (\<forall>i \<in> set is. swept c m c' i) \<and> (\<forall>j. j \<notin> set is \<longrightarrow> cat_slot c' j = cat_slot c j)"
  using assms
proof (induction "is" arbitrary: c m)
  case (Cons i "is")
  have i: "i < cat_capacity c" and ni: "i \<notin> set is" using Cons.prems by simp_all
  obtain b c1 m1 where r: "(if cs_state (cat_slot c i) = CAT_TOMBSTONE then try_reclaim_slot i entry_is_finished (c, Some m) else (False, c, Some m)) = (b, c1, Some m1)"
    "store_ok c1 m1" "cat_frame c c1" "\<forall>j. j \<noteq> i \<longrightarrow> cat_slot c1 j = cat_slot c j" "\<forall>x. x \<noteq> head_off_for c i \<longrightarrow> sm_heads m1 x = sm_heads m x"
    "swept c m c1 i" "b \<longleftrightarrow> cs_state (cat_slot c i) = CAT_TOMBSTONE \<and> cs_state (cat_slot c1 i) = CAT_FREE"
    by (rule sweep_step [OF Cons.prems(1) i])
  have cap: "cat_capacity c1 = cat_capacity c" using r(3) by (simp add: cat_frame_def)
  obtain c' m' where l: "reclaim_loop is entry_is_finished (c1, Some m1)
       = (length (filter (\<lambda>i. cs_state (cat_slot c1 i) = CAT_TOMBSTONE \<and> cs_state (cat_slot c' i) = CAT_FREE) is), c', Some m')"
    "store_ok c' m'" "cat_frame c1 c'" "\<forall>i \<in> set is. swept c1 m1 c' i" "\<forall>j. j \<notin> set is \<longrightarrow> cat_slot c' j = cat_slot c1 j"
    using Cons.IH [OF r(2)] Cons.prems(2,3) cap by auto
  have ci: "cat_slot c' i = cat_slot c1 i" using l(5) ni by blast
  have rest: "swept c m c' j" if j: "j \<in> set is" for j
  proof -
    have "j \<noteq> i" "j < cat_capacity c" using j ni Cons.prems(2) by auto
    then have "cat_slot c1 j = cat_slot c j" "head_off_for c j \<noteq> head_off_for c i"
      using r(4) head_off_inj [OF store_okD(3) [OF Cons.prems(1)] _ i] by auto
    then show ?thesis using l(4) j r(5) frame_off [OF r(3)] by (simp add: swept_def)
  qed
  have "swept c m c' i" using r(6) ci by (simp add: swept_def)
  moreover have "filter (\<lambda>i. cs_state (cat_slot c1 i) = CAT_TOMBSTONE \<and> cs_state (cat_slot c' i) = CAT_FREE) is
      = filter (\<lambda>i. cs_state (cat_slot c i) = CAT_TOMBSTONE \<and> cs_state (cat_slot c' i) = CAT_FREE) is"
    using r(4) ni by (intro filter_cong) auto
  moreover have "\<forall>j. j \<notin> set (i # is) \<longrightarrow> cat_slot c' j = cat_slot c j" using l(5) r(4) by simp
  ultimately show ?case using r(1,7) l(1,2) ci rest cat_frame_trans [OF r(3) l(3)] by (intro exI [of _ c'] exI [of _ m']) auto
qed auto

text \<open>
  C34: The sweep takes back exactly the finished entries. It always returns; every live key opens the entry it opened
  before; of the evicted entries, those nobody has pinned have their slot on the free list again, those still pinned
  keep their slot as it was, ready for the next sweep; and the count it reports is the number of slots freed.
\<close>

theorem sweep_exact:
  assumes ok: "store_ok c m"
  shows "\<exists>c' m'. sweep_tombstones c m
       = Some (Inr (card {i. i < next_slot c \<and> cs_state (cat_slot c i) = CAT_TOMBSTONE \<and> cs_state (cat_slot c' i) = CAT_FREE}), c', m')
     \<and> store_ok c' m' \<and> (\<forall>ow k. open_slot ow k c' = open_slot ow k c)
     \<and> (\<forall>i < cat_capacity c. cs_state (cat_slot c i) = CAT_TOMBSTONE \<longrightarrow> table_ok (sm_heads m (head_off_for c i)) \<longrightarrow> cs_gen (cat_slot c i) \<noteq> - 1
          \<longrightarrow> (if no_pins (sm_heads m (head_off_for c i)) then cs_state (cat_slot c' i) = CAT_FREE else cat_slot c' i = cat_slot c i))"
proof -
  obtain fs log where cok: "catalog_ok c [] fs log" using store_okD(1) [OF ok] by blast
  have le: "next_slot c \<le> cat_capacity c" using cok by (simp add: catalog_ok_def)
  note sc = set_scan_indices [OF le]
  have dis: "distinct (scan_indices c)" unfolding scan_indices_def distinct_map
  proof (intro conjI inj_onI distinct_upt)
    fix a b assume ab: "a \<in> set [0..<unat (min (next_slot c) (cat_capacity c))]" "b \<in> set [0..<unat (min (next_slot c) (cat_capacity c))]"
      "(of_nat a :: u32) = of_nat b"
    then have "a < unat (min (next_slot c) (cat_capacity c))" "b < unat (min (next_slot c) (cat_capacity c))" by (simp_all only: set_upt atLeastLessThan_iff)
    then have "a < 2 ^ 32" "b < 2 ^ 32" using unat_u32_less [of "min (next_slot c) (cat_capacity c)"] by (blast intro: order.strict_trans)+
    then have "unat (of_nat a :: u32) = a" "unat (of_nat b :: u32) = b" by (simp_all add: unat_of_nat_u32)
    then show "a = b" by (metis ab(3))
  qed
  have rng: "\<forall>i \<in> set (scan_indices c). i < cat_capacity c" using le order.strict_trans2 unfolding sc by blast
  obtain c' m' where l: "reclaim_loop (scan_indices c) entry_is_finished (c, Some m)
       = (length (filter (\<lambda>i. cs_state (cat_slot c i) = CAT_TOMBSTONE \<and> cs_state (cat_slot c' i) = CAT_FREE) (scan_indices c)), c', Some m')"
    "store_ok c' m'" "cat_frame c c'" "\<forall>i \<in> set (scan_indices c). swept c m c' i" "\<forall>j. j \<notin> set (scan_indices c) \<longrightarrow> cat_slot c' j = cat_slot c j"
    using reclaim_loop_store [OF ok rng dis] by blast
  have sw: "swept c m c' i" if "i < cat_capacity c" for i
  proof (cases "i < next_slot c")
    case False
    then have "cs_state (cat_slot c i) = CAT_FREE" using slot_place(1) [OF ok that] by blast
    then show ?thesis using l(5) False sc by (simp add: swept_def cat_states)
  qed (use l(4) sc in blast)
  have op: "open_slot ow k c' = open_slot ow k c" for ow k
  proof (rule open_slot_same [OF ok l(2,3)])
    fix j
    assume j: "j < cat_capacity c" "cs_state (cat_slot c j) = CAT_LIVE \<and> cs_key_id (cat_slot c j) = k \<or> cs_state (cat_slot c' j) = CAT_LIVE \<and> cs_key_id (cat_slot c' j) = k"
    have "cs_state (cat_slot c j) \<noteq> CAT_TOMBSTONE" using sw [OF j(1)] j(2) by (auto simp: swept_def CAT_LIVE_def CAT_TOMBSTONE_def)
    then show "cat_slot c' j = cat_slot c j" using sw [OF j(1)] by (simp add: swept_def)
  qed
  have "length (filter P (scan_indices c)) = card {i. i < next_slot c \<and> P i}" for P
    using distinct_length_filter [OF dis, of P] sc by (simp add: Collect_conj_eq Int_commute)
  then have "sweep_tombstones c m = Some (Inr (card {i. i < next_slot c \<and> cs_state (cat_slot c i) = CAT_TOMBSTONE \<and> cs_state (cat_slot c' i) = CAT_FREE}), c', m')"
    using l(1) attach_catalog [OF ok] by (simp add: sweep_tombstones_def reclaim_tombstones_def)
  then show ?thesis using l(2) op sw unfolding swept_def by (intro exI [of _ c'] exI [of _ m']) auto
qed

section \<open>A store of two entries\<close>

text \<open>A freshly initialised catalog over heads that were never in service is in order.\<close>

lemma init_store_ok:
  assumes c: "catalog_init sg cap stride base = Inr c" and fit: "heads_fit c m" and base: "base \<noteq> 0"
    and new: "\<And>off. \<not> check_magic (sm_heads m off)" and ids: "unat base + unat cap \<le> 2 ^ 32"
  shows "store_ok c m"
proof -
  note i = catalog_init_ok [OF c]
  have cs: "cat_magic c = CATALOG_MAGIC" "cslots c = replicate (unat cap) \<lparr>cs_key_id = 0, cs_artifact_id = 0, cs_head_off = 0, cs_kind = 0,
      cs_word = pack_slot_word FIRST_GEN CAT_FREE, cs_next_free = FREE_NIL\<rparr>"
    using c by (auto simp: catalog_init_def catalog_attach_def split: if_splits)
  have sl: "cs_state (cat_slot c j) = CAT_FREE" "cs_gen (cat_slot c j) = 1" "cs_artifact_id (cat_slot c j) = 0" if "j < cat_capacity c" for j
    using that i(2) by (simp_all add: cat_slot_def cs(2) word_less_nat_alt cs_state_def cs_gen_def FIRST_GEN_def)
  have "artifact_id_for c j \<noteq> 0" if "j < cat_capacity c" for j
  proof -
    have "unat base + unat j < 2 ^ 32" using ids that i(2) by (simp add: word_less_nat_alt)
    then have "unat (base + j) = unat base + unat j" by (intro unat_add_lem [THEN iffD1]) simp
    moreover have "unat base \<noteq> 0" using base by (simp add: unat_eq_0)
    ultimately have "unat (base + j) \<noteq> 0" by simp
    then show ?thesis using i(3) unat_0 by (auto simp: artifact_id_for_def)
  qed
  then have "\<forall>j < cat_capacity c. placed c j" using sl(3) by (simp add: placed_def)
  moreover have "keys_unique c" using sl(1) by (auto simp: keys_unique_def cat_states)
  moreover have "cs_gen (cat_slot c j) \<noteq> 0 \<and> head_match (cat_slot c j) (sm_heads m (head_off_for c j))" if "j < cat_capacity c" for j
    using sl [OF that] new by (simp add: head_match_def occupied_def cat_states)
  ultimately show ?thesis using i(1) cs(1) fit unfolding store_ok_def by blast
qed

definition store_catalog :: catalog where
  "store_catalog = (case catalog_init demo_cat_segment 2 1576 7 of Inr c \<Rightarrow> c)"

lemma store_catalog_init: "catalog_init demo_cat_segment 2 1576 7 = Inr store_catalog"
  by code_simp

definition demo_store :: "unit store_state" where
  "demo_store = \<lparr>st_catalog = store_catalog,
     st_mem = \<lparr>sm_head_seg = demo_cat_segment, sm_heads = (\<lambda>_. fresh_head\<lparr>ah_magic := 0\<rparr>), sm_arena = demo_arena\<rparr>,
     st_actors = (\<lambda>_. \<lparr>ac_journal = demo_journal, ac_registry = registry_new\<rparr>)\<rparr>"

lemma head_magic_set: "HEAD_MAGIC \<noteq> 0"
  by code_simp

lemma demo_store_ok: "store_ok (st_catalog demo_store) (st_mem demo_store)"
proof -
  note i = catalog_init_ok [OF store_catalog_init]
  have "heads_fit store_catalog (st_mem demo_store)"
    by (simp add: heads_fit_def i(2,4) demo_store_def demo_cat_segment_def payload_len_def HEADER_SIZE_def head_region_bytes_def MAX_LIVE_VERSIONS_def)
  then show ?thesis
    using init_store_ok [OF store_catalog_init, of "st_mem demo_store"] by (simp add: demo_store_def check_magic_def head_magic_set [symmetric])
qed

text \<open>The key \<open>7\<close> created in it by the actor \<open>1\<close>.\<close>

definition demo_key :: "bytes \<Rightarrow> store_error + u32" where "demo_key = (\<lambda>_. Inr 7)"

definition demo_made_store :: "unit store_state" where
  "demo_made_store = snd (store_create demo_key (\<lambda>_. []) 1 [] Object () demo_store)"

lemma demo_key_id: "store_key_id demo_key [] = Inr 7"
  by (simp add: store_key_id_def demo_key_def)

lemma demo_vacant: "find_live_by_key 7 (st_catalog demo_store) = None" "fst (alloc_slot (st_catalog demo_store)) = Inr 0"
  unfolding demo_store_def store_state.simps by code_simp+

lemma demo_made_store:
  "store_ok (st_catalog demo_made_store) (st_mem demo_made_store)" "cs_state (cat_slot (st_catalog demo_made_store) 0) = CAT_LIVE"
  "find_live_by_key 7 (st_catalog demo_made_store) = Some 0" "cat_capacity (st_catalog demo_made_store) = 2"
  "cs_gen (cat_slot (st_catalog demo_made_store) 0) = 1 \<and> next_slot (st_catalog demo_made_store) = 1"
  "sm_heads (st_mem demo_made_store) (head_off_for (st_catalog demo_made_store) 0) = commission 1 fresh_head" "artifact_id_base (st_catalog demo_made_store) = 7"
proof -
  let ?s = "demo_store" and ?c = "st_catalog demo_store"
  note cap = catalog_init_ok(2) [OF store_catalog_init]
  have "store_ok (st_catalog demo_made_store) (st_mem demo_made_store) \<and> cs_state (cat_slot (st_catalog demo_made_store) 0) = CAT_LIVE
     \<and> find_live_by_key 7 (st_catalog demo_made_store) = Some 0 \<and> cat_capacity (st_catalog demo_made_store) = 2
     \<and> (cs_gen (cat_slot (st_catalog demo_made_store) 0) = 1 \<and> next_slot (st_catalog demo_made_store) = 1)
     \<and> sm_heads (st_mem demo_made_store) (head_off_for (st_catalog demo_made_store) 0) = commission 1 fresh_head \<and> artifact_id_base (st_catalog demo_made_store) = 7"
  proof (rule create_fresh [where rk = Object and owner = 1, OF demo_store_ok demo_vacant(1)])
    assume "alloc_slot ?c = (Inl (CatalogFull (cat_capacity ?c)), ?c)"
    then show ?thesis using demo_vacant(2) by simp
  next
    fix i c1 art h
    let ?c2 = "snd (publish_slot i 7 Object c1)" and ?m2 = "(st_mem ?s)\<lparr>sm_heads := (sm_heads (st_mem ?s))(head_off_for c1 i := h)\<rparr>"
    assume a: "alloc_slot ?c = (Inr i, c1)" "i < cat_capacity ?c"
      "create_at (artifact_id_for c1 i) (cs_gen (cat_slot c1 i)) (sm_head_seg (st_mem ?s)) (unat (head_off_for c1 i)) (sm_heads (st_mem ?s) (head_off_for c1 i)) = Inr (art, h)"
      "store_ok ?c2 ?m2" "cat_frame ?c ?c2" "cs_state (cat_slot ?c2 i) = CAT_LIVE" "cs_key_id (cat_slot ?c2 i) = 7"
    have i: "i = 0" using demo_vacant(2) a(1) by simp
    have m: "st_catalog demo_made_store = ?c2" "st_mem demo_made_store = ?m2"
      using demo_key_id attach_catalog [OF demo_store_ok] demo_vacant(1) a(1,3) by (simp_all add: demo_made_store_def store_create_def Let_def)
    have c2: "cat_capacity ?c2 = 2" using a(5) cap by (simp add: cat_frame_def demo_store_def)
    have "find_live_by_key 7 ?c2 = Some 0" using find_live_spec [OF a(4), of 7 0] a(6,7) c2 i by simp
    moreover have "cs_gen (cat_slot ?c2 0) = 1 \<and> next_slot ?c2 = 1"
    proof -
      have "cs_gen (cat_slot (snd (publish_slot 0 7 Object (snd (alloc_slot store_catalog)))) 0) = 1"
        "next_slot (snd (publish_slot 0 7 Object (snd (alloc_slot store_catalog)))) = 1" by code_simp+
      then show ?thesis using a(1) i by (simp add: demo_store_def)
    qed
    moreover have "sm_heads ?m2 (head_off_for ?c2 0) = commission 1 fresh_head"
    proof -
      have "cs_gen (cat_slot (snd (alloc_slot store_catalog)) 0) = 1" by code_simp
      then have g1: "cs_gen (cat_slot c1 0) = 1" using a(1) i by (simp add: demo_store_def)
      have "\<not> check_magic (sm_heads (st_mem ?s) x)" for x by (simp add: demo_store_def check_magic_def head_magic_set [symmetric])
      then have "h = commission 1 fresh_head" using a(3) g1 i by (auto simp: create_at_def Let_def fresh_head_def split: if_splits)
      moreover have "head_off_for ?c2 0 = head_off_for c1 0" by (simp add: publish_slot_def head_off_for_def Let_def set_cat_slot_def split: prod.splits)
      ultimately show ?thesis using i by simp
    qed
    moreover have "artifact_id_base ?c2 = 7" using a(5) catalog_init_ok(3) [OF store_catalog_init] by (simp add: cat_frame_def demo_store_def)
    ultimately show ?thesis using a(4,6) c2 i unfolding m by blast
  qed
  then show "store_ok (st_catalog demo_made_store) (st_mem demo_made_store)" "cs_state (cat_slot (st_catalog demo_made_store) 0) = CAT_LIVE"
    "find_live_by_key 7 (st_catalog demo_made_store) = Some 0" "cat_capacity (st_catalog demo_made_store) = 2"
    "cs_gen (cat_slot (st_catalog demo_made_store) 0) = 1 \<and> next_slot (st_catalog demo_made_store) = 1"
    "sm_heads (st_mem demo_made_store) (head_off_for (st_catalog demo_made_store) 0) = commission 1 fresh_head" "artifact_id_base (st_catalog demo_made_store) = 7" by blast+
qed

lemma demo_head_fine: "table_ok (commission i fresh_head)" "no_pins (commission i fresh_head)"
  by (auto simp: table_ok_def no_pins_def commission_def fresh_head_def slot_fine_def live_at_def pin_states)

text \<open>The tombstone of that entry, as an evictor leaves it that stops before its own sweep.\<close>

definition demo_tombstone :: catalog where
  "demo_tombstone = set_cat_slot 0 ((cat_slot (st_catalog demo_made_store) 0)
     \<lparr>cs_word := pack_slot_word (cs_gen (cat_slot (st_catalog demo_made_store) 0)) CAT_TOMBSTONE\<rparr>) (st_catalog demo_made_store)"

lemma evict_forgets_witness:
  "\<exists>s'. store_evict demo_key [] demo_made_store = Some (Inr (), s') \<and> store_open demo_key 2 [] s' = Inl NotFound
     \<and> cs_state (cat_slot (st_catalog s') 0) = CAT_FREE"
  using evict_forgets [OF demo_made_store(1) demo_key_id, of 2] demo_made_store(3,5,6) demo_head_fine by auto

lemma create_then_open_witness:
  "case store_create demo_key (\<lambda>_. []) 1 [] Dataset () demo_made_store of
     (Inr e, s') \<Rightarrow> en_key_id e = 7 \<and> store_open demo_key 2 [] s' = Inr (e\<lparr>en_owner := 2\<rparr>) \<and> st_mem s' = st_mem demo_made_store
   | (Inl _, _) \<Rightarrow> False"
proof -
  obtain r s' where cr: "store_create demo_key (\<lambda>_. []) 1 [] Dataset () demo_made_store = (r, s')" by fastforce
  have "open_id 1 7 demo_made_store = Inr (entry_of 1 (st_catalog demo_made_store) 0)"
    using open_id_slot [OF demo_made_store(1)] demo_made_store(3) by (simp add: open_slot_def)
  then show ?thesis using create_then_open [OF demo_made_store(1) demo_key_id cr] cr by (cases r) auto
qed

lemma sweep_exact_witness:
  "\<exists>c' m'. sweep_tombstones demo_tombstone (st_mem demo_made_store) = Some (Inr 1, c', m') \<and> cs_state (cat_slot c' 0) = CAT_FREE"
proof -
  let ?c = "st_catalog demo_made_store" and ?m = "st_mem demo_made_store"
  have i: "0 < cat_capacity ?c" using demo_made_store(4) by simp
  note t = tombstone_store [OF demo_made_store(1) i demo_made_store(2), folded demo_tombstone_def]
  have cap: "cat_capacity demo_tombstone = 2" using t(2) demo_made_store(4) by (simp add: cat_frame_def)
  obtain c' m' where r: "sweep_tombstones demo_tombstone ?m
       = Some (Inr (card {i. i < next_slot demo_tombstone \<and> cs_state (cat_slot demo_tombstone i) = CAT_TOMBSTONE \<and> cs_state (cat_slot c' i) = CAT_FREE}), c', m')"
    "cs_state (cat_slot c' 0) = CAT_FREE"
    using sweep_exact [OF t(1)] cap t(4,5) demo_made_store(5,6) demo_head_fine frame_off(1) [OF t(2)] by auto
  have "i < next_slot demo_tombstone \<longleftrightarrow> i = 0" for i
    using demo_made_store(5) word_less_1 [of i] by (simp add: demo_tombstone_def set_cat_slot_def)
  then have "{i. i < next_slot demo_tombstone \<and> cs_state (cat_slot demo_tombstone i) = CAT_TOMBSTONE \<and> cs_state (cat_slot c' i) = CAT_FREE} = {0}"
    using t(4) r(2) by auto
  then show ?thesis using r by simp
qed

end
