(* ===== verification/Shm_Store_Pin.thy ===== *)
theory Shm_Store_Pin
  imports Shm_Store_Prop
begin

text \<open>
  Pins through the keyed store: what a pin does to a head whatever the head holds, reads that fail and
  leave nothing behind, and references retained for a task, which act on the entry they were taken from and on no
  other.
\<close>

section \<open>What a pin does to a head\<close>

definition pinned_at :: "nat \<Rightarrow> artifact_state \<Rightarrow> artifact_state" where
  "pinned_at i s = set_slot_at i (publish_pin (head_slot_at i s)) s"

lemma find_slot_hit:
  assumes "find_slot v h = Some i"
  shows "i < length (ah_pins h)" "ps_state (ah_pins h ! i) = SLOT_LIVE" "ps_version (ah_pins h ! i) = v"
  using first_slot_Some [OF assms [unfolded find_slot_def]] by blast+

lemma unpin_publish: "unpin (publish_pin sl) = (ps_pins sl + 1, sl)"
  by (simp add: unpin_def publish_pin_def)

lemma pinned_slot:
  assumes "i < length (ah_pins (as_head s))"
  shows "head_slot_at i (pinned_at i s) = publish_pin (head_slot_at i s)" "set_slot_at i (head_slot_at i s) (pinned_at i s) = s"
    "ah_current (as_head (pinned_at i s)) = ah_current (as_head s)" "ah_incarnation (as_head (pinned_at i s)) = ah_incarnation (as_head s)"
    "ah_manifest_desc (as_head (pinned_at i s)) = ah_manifest_desc (as_head s)" "as_arena (pinned_at i s) = as_arena s"
    "as_journal (pinned_at i s) = as_journal s"
  using assms by (simp_all add: pinned_at_def set_slot_at_def head_slot_at_def)

text \<open>Giving up a pin on the current version puts everything back.\<close>

lemma undo_pinned:
  assumes "find_slot (ah_current (as_head s)) (as_head s) = Some i"
  shows "undo_pin i ((pinned_at i s)\<lparr>as_journal := j\<rparr>) = s\<lparr>as_journal := j\<rparr>"
proof -
  note f = find_slot_hit [OF assms]
  note p = pinned_slot [OF f(1)]
  have "set_slot_at i (head_slot_at i s) ((pinned_at i s)\<lparr>as_journal := j\<rparr>) = s\<lparr>as_journal := j\<rparr>"
    using f(1) by (simp add: set_slot_at_def pinned_at_def head_slot_at_def)
  moreover have "head_slot_at i ((pinned_at i s)\<lparr>as_journal := j\<rparr>) = publish_pin (head_slot_at i s)" using p(1) by (simp add: head_slot_at_def)
  ultimately show ?thesis using f(3) by (simp add: undo_pin_def unpin_publish Let_def head_slot_at_def)
qed

lemma accept_pinned:
  assumes "find_slot v (as_head s) = Some i"
  shows "accept_pin v (head_slot_at i (pinned_at i s))"
  using find_slot_hit [OF assms] pinned_slot(1) [of i s] by (simp add: accept_pin_def publish_pin_def head_slot_at_def)

text \<open>What a pin that returned has done: either nothing to the head and the data, or one more pin on the current version.\<close>

definition pin_effect :: "artifact \<Rightarrow> artifact_state \<Rightarrow> (artifact_error + version_pin) \<times> artifact_state \<Rightarrow> bool" where
  "pin_effect art s y \<longleftrightarrow>
     (case y of
        (Inl e, s') \<Rightarrow> \<exists>j. s' = s\<lparr>as_journal := j\<rparr>
      | (Inr p, s') \<Rightarrow> ah_current (as_head s) \<noteq> NO_VERSION \<and> vp_version p = ah_current (as_head s)
          \<and> find_slot (ah_current (as_head s)) (as_head s) = Some (vp_slot p) \<and> is_incarnation (a_incarnation art) (as_head s)
          \<and> (\<exists>m. journal_pin art (ah_current (as_head s)) (vp_slot p) m (pinned_at (vp_slot p) s) = y))"

lemma pin_inner_effect: "pin_inner art s = Some y \<Longrightarrow> pin_effect art s y"
proof (induction rule: pin_inner.raw_induct [rotated, consumes 1, case_names step])
  case (step rec art s y)
  let ?v = "ah_current (as_head s)"
  show ?case
  proof (cases "?v = NO_VERSION")
    case True
    then show ?thesis using step(2) by (auto simp: pin_effect_def Let_def intro!: exI [of _ "as_journal s"])
  next
    case v: False
    show ?thesis
    proof (cases "find_slot ?v (as_head s)")
      case None
      then show ?thesis using step(2) step(1) v by (simp add: Let_def)
    next
      case (Some i)
      have "(pinned_at i s)\<lparr>as_journal := as_journal s\<rparr> = pinned_at i s" by (simp add: pinned_at_def set_slot_at_def)
      then have u: "undo_pin i (pinned_at i s) = s" using undo_pinned [OF Some, of "as_journal s"] by simp
      note a = accept_pinned [OF Some]
      note p = pinned_slot [OF find_slot_hit(1) [OF Some]]
      have j: "pin_effect art s (journal_pin art ?v i m (pinned_at i s))" if "is_incarnation (a_incarnation art) (as_head s)" for m
      proof (cases "as_journal s")
        case None
        then show ?thesis using that v Some p(7) by (auto simp: pin_effect_def journal_pin_def)
      next
        case (Some jo)
        obtain r j' where r: "record_artifact_pin jo (a_name_id art) (a_incarnation art) ?v = (r, j')" by fastforce
        show ?thesis
        proof (cases r)
          case (Inl e)
          have "undo_pin i ((pinned_at i s)\<lparr>as_journal := Some j'\<rparr>) = s\<lparr>as_journal := Some j'\<rparr>"
            by (rule undo_pinned) (use \<open>find_slot ?v (as_head s) = Some i\<close> in simp)
          then show ?thesis using Inl r Some p(7) by (auto simp: pin_effect_def journal_pin_def)
        next
          case (Inr k)
          then show ?thesis using that v r Some p(7) \<open>find_slot ?v (as_head s) = Some i\<close> by (auto simp: pin_effect_def journal_pin_def)
        qed
      qed
      have st: "pin_effect art s (Inl AStale, s)" by (auto simp: pin_effect_def intro!: exI [of _ "as_journal s"])
      show ?thesis
        using step(2) step(1) [of art s y] v Some a p u j st
        by (auto simp: Let_def pinned_at_def [symmetric] is_incarnation_def split: if_splits sum.splits)
    qed
  qed
qed

section \<open>Reads through the store\<close>

lemma put_view_mem [simp]:
  "st_mem (put_view e a s) = (st_mem s)\<lparr>sm_arena := as_arena a, sm_heads := (sm_heads (st_mem s))(en_head_off e := as_head a)\<rparr>"
  "st_catalog (put_view e a s) = st_catalog s"
  by (simp_all add: put_view_def set_journal_def Let_def split: option.splits)

lemma put_view_same:
  "as_head a = as_head (entry_view e s) \<Longrightarrow> as_arena a = as_arena (entry_view e s) \<Longrightarrow> st_mem (put_view e a s) = st_mem s"
  by (simp add: entry_view_def)

lemma view_put: "as_journal a = Some j \<Longrightarrow> as_events a = [] \<Longrightarrow> entry_view e (put_view e a s) = a"
  by (cases a) (simp add: entry_view_def put_view_def set_journal_def Let_def)

lemma view_sel [simp]:
  "as_journal (entry_view e s) = Some (ac_journal (st_actors s (en_owner e)))" "as_events (entry_view e s) = []"
  by (simp_all add: entry_view_def)

text \<open>A pin through the actor's journal: refused, with the shared memory as it was, or held and recorded.\<close>

lemma entry_pin_cases:
  assumes jok: "journal_ok (ac_journal (st_actors s (en_owner e)))" and p: "entry_pin e s = Some (r, s1)"
  obtains err where "r = Inl err" "st_mem s1 = st_mem s" "st_catalog s1 = st_catalog s"
  | q k j where "r = Inr q" "vp_journal q = Some k" "ah_current (as_head (entry_view e s)) \<noteq> NO_VERSION"
      "vp_version q = ah_current (as_head (entry_view e s))" "find_slot (vp_version q) (as_head (entry_view e s)) = Some (vp_slot q)"
      "is_incarnation (a_incarnation (en_artifact e)) (as_head (entry_view e s))"
      "s1 = put_view e ((pinned_at (vp_slot q) (entry_view e s))\<lparr>as_journal := Some j\<rparr>) s" "fst (journal_release j k) = Inr True"
proof -
  let ?a = "entry_view e s"
  obtain r0 a' where run: "pin_inner (en_artifact e) ?a = Some (r0, a')" "r = map_sum StoreArtifact id r0" "s1 = put_view e a' s"
    using p by (auto simp: entry_pin_def on_entry_opt_def pin_journaled_def)
  have ef: "pin_effect (en_artifact e) ?a (r0, a')" by (rule pin_inner_effect [OF run(1)])
  show thesis
  proof (cases r0)
    case (Inl err)
    then obtain j where "a' = ?a\<lparr>as_journal := j\<rparr>" using ef by (auto simp: pin_effect_def)
    then show thesis using that(1) Inl run(2,3) put_view_same [of a' e s] by simp
  next
    case (Inr q)
    then obtain m where m: "ah_current (as_head ?a) \<noteq> NO_VERSION" "vp_version q = ah_current (as_head ?a)"
      "find_slot (ah_current (as_head ?a)) (as_head ?a) = Some (vp_slot q)" "is_incarnation (a_incarnation (en_artifact e)) (as_head ?a)"
      "journal_pin (en_artifact e) (ah_current (as_head ?a)) (vp_slot q) m (pinned_at (vp_slot q) ?a) = (Inr q, a')"
      using ef by (auto simp: pin_effect_def)
    let ?j = "ac_journal (st_actors s (en_owner e))"
    let ?ent = "artifact_pin (a_name_id (en_artifact e)) (a_incarnation (en_artifact e)) (ah_current (as_head ?a))"
    have jp: "as_journal (pinned_at (vp_slot q) ?a) = Some ?j" by (simp add: pinned_at_def set_slot_at_def)
    obtain k j where k: "record_entry ?j ?ent = (Inr k, j)" "vp_journal q = Some k" "a' = (pinned_at (vp_slot q) ?a)\<lparr>as_journal := Some j\<rparr>"
    proof -
      obtain r1 j1 where r1: "record_entry ?j ?ent = (r1, j1)" by fastforce
      then obtain k1 where k1: "r1 = Inr k1" using m(5) jp by (cases r1) (simp_all add: journal_pin_def record_artifact_pin_def)
      then have "q = \<lparr>vp_version = ah_current (as_head ?a), vp_slot = vp_slot q, vp_manifest = m, vp_journal = Some k1\<rparr>"
        "a' = (pinned_at (vp_slot q) ?a)\<lparr>as_journal := Some j1\<rparr>" using m(5) jp r1 by (simp_all add: journal_pin_def record_artifact_pin_def)
      then show thesis using that [of k1 j1] r1 k1 by (metis version_pin.select_convs(4))
    qed
    have h: "k < jcapacity j" "held j k \<noteq> None" "journal_ok j" using record_entry_spec [OF jok, of ?ent] k(1) by auto
    have "fst (journal_release j k) = Inr True"
      using release_spec [OF h(3), of k] h(1,2) by (auto split: prod.splits sum.splits)
    then show thesis using that(2) Inr run(2,3) m(1-4) k(2,3) by simp
  qed
qed

lemma drop_pinned:
  assumes f: "find_slot (ah_current (as_head a)) (as_head a) = Some (vp_slot q)" and v: "vp_version q = ah_current (as_head a)"
    and k: "vp_journal q = Some k" "fst (journal_release j k) = Inr True"
  shows "as_head (pin_drop q ((pinned_at (vp_slot q) a)\<lparr>as_journal := Some j\<rparr>)) = as_head a"
    "as_arena (pin_drop q ((pinned_at (vp_slot q) a)\<lparr>as_journal := Some j\<rparr>)) = as_arena a"
proof -
  note i = find_slot_hit [OF f]
  note p = pinned_slot [OF i(1)]
  obtain j' where rel: "journal_release j k = (Inr True, j')" using k(2) by (metis prod.collapse)
  have h: "head_slot_at (vp_slot q) ((pinned_at (vp_slot q) a)\<lparr>as_journal := x\<rparr>) = publish_pin (head_slot_at (vp_slot q) a)" for x
    using p(1) by (simp add: head_slot_at_def)
  have "pin_drop q ((pinned_at (vp_slot q) a)\<lparr>as_journal := Some j\<rparr>) = pin_unpin q ((pinned_at (vp_slot q) a)\<lparr>as_journal := Some j'\<rparr>)"
    using k(1) rel by (simp add: pin_drop_def)
  also have "\<dots> = set_slot_at (vp_slot q) (head_slot_at (vp_slot q) a) ((pinned_at (vp_slot q) a)\<lparr>as_journal := Some j'\<rparr>)"
    using v p(3) by (simp add: pin_unpin_def h unpin_publish Let_def set_slot_at_def)
  finally show "as_head (pin_drop q ((pinned_at (vp_slot q) a)\<lparr>as_journal := Some j\<rparr>)) = as_head a"
    "as_arena (pin_drop q ((pinned_at (vp_slot q) a)\<lparr>as_journal := Some j\<rparr>)) = as_arena a"
    using i(1) by (simp_all add: pinned_at_def set_slot_at_def head_slot_at_def)
qed

text \<open>Every read: an error leaves the shared memory as it was, a result comes with one pin on the current version.\<close>

lemma reading_spec:
  assumes jok: "journal_ok (ac_journal (st_actors s (en_owner e)))" and r: "reading f e s = Some (r, s')"
  shows "st_catalog s' = st_catalog s \<and>
    (case r of
       Inl err \<Rightarrow> st_mem s' = st_mem s
     | Inr (q, b) \<Rightarrow> f q (entry_view e s') = Inr b \<and> vp_version q = entry_current_version e s \<and> vp_version q \<noteq> NO_VERSION
         \<and> find_slot (vp_version q) (sm_heads (st_mem s) (en_head_off e)) = Some (vp_slot q)
         \<and> st_mem s' = (st_mem s)\<lparr>sm_heads := (sm_heads (st_mem s))(en_head_off e := as_head (pinned_at (vp_slot q) (entry_view e s)))\<rparr>)"
proof -
  obtain r0 s1 where p: "entry_pin e s = Some (r0, s1)" using r by (auto simp: reading_def split: option.splits)
  show ?thesis
  proof (rule entry_pin_cases [OF jok p])
    fix err assume "r0 = Inl err" "st_mem s1 = st_mem s" "st_catalog s1 = st_catalog s"
    then show ?thesis using r p by (auto simp: reading_def)
  next
    let ?a = "entry_view e s"
    fix q k j
    assume q: "r0 = Inr q" "vp_journal q = Some k" "ah_current (as_head ?a) \<noteq> NO_VERSION" "vp_version q = ah_current (as_head ?a)"
      "find_slot (vp_version q) (as_head ?a) = Some (vp_slot q)" "is_incarnation (a_incarnation (en_artifact e)) (as_head ?a)"
      "s1 = put_view e ((pinned_at (vp_slot q) ?a)\<lparr>as_journal := Some j\<rparr>) s" "fst (journal_release j k) = Inr True"
    let ?b = "(pinned_at (vp_slot q) ?a)\<lparr>as_journal := Some j\<rparr>"
    have vw: "entry_view e s1 = ?b" unfolding q(7) by (rule view_put) (simp_all add: pinned_at_def set_slot_at_def)
    have cat: "st_catalog s1 = st_catalog s" by (simp add: q(7))
    show ?thesis
    proof (cases "f q (entry_view e s1)")
      case (Inl err)
      have rs: "r = Inl err" "s' = snd (on_entry e (\<lambda>a. ((), pin_drop q a)) s1)" using r p q(1) Inl by (simp_all add: reading_def)
      have "find_slot (ah_current (as_head ?a)) (as_head ?a) = Some (vp_slot q)" using q(4,5) by simp
      note d = drop_pinned [OF this q(4,2,8)]
      have "st_mem s' = (st_mem s1)\<lparr>sm_arena := as_arena ?a, sm_heads := (sm_heads (st_mem s1))(en_head_off e := as_head ?a)\<rparr>"
        using d by (simp add: rs(2) on_entry_def vw)
      then have "st_mem s' = st_mem s" by (simp add: q(7)) (simp add: entry_view_def)
      moreover have "st_catalog s' = st_catalog s" using cat by (simp add: rs(2) on_entry_def)
      ultimately show ?thesis by (simp add: rs(1))
    next
      case (Inr b)
      have "r = Inr (q, b)" "s' = s1" using r p q(1) Inr by (simp_all add: reading_def)
      moreover have "as_arena (pinned_at (vp_slot q) ?a) = sm_arena (st_mem s)" by (simp add: pinned_at_def set_slot_at_def entry_view_def)
      ultimately show ?thesis using Inr cat q(3,4,5) by (simp add: q(7) entry_current_version_def) (simp add: entry_view_def)
    qed
  qed
qed

text \<open>
  C35: Resolving a typed reference is by key and all or nothing. It answers with the entry that the key opens, never for
  a raw chunk, pinned at the version that is current, which is the version the reference asks for if it asks for one;
  and when it fails, for whatever reason and after whatever step, every head and every chunk is as it was, no pin
  left behind.
\<close>

theorem resolve_all_or_nothing:
  assumes ok: "store_ok (st_catalog s) (st_mem s)" and jok: "journal_ok (ac_journal (st_actors s owner))"
    and r: "resolve_and_pin read_chunks concat_batches owner t s = Some (r, s')"
  shows "st_catalog s' = st_catalog s \<and>
    (case r of
       Inl err \<Rightarrow> st_mem s' = st_mem s
     | Inr (e, p, b) \<Rightarrow> open_id owner (tr_key_id t) s = Inr e \<and> tref_kind t \<noteq> Inr RawChunk
         \<and> vp_version p = entry_current_version e s \<and> vp_version p \<noteq> NO_VERSION \<and> (tr_version t = 0 \<or> tr_version t = vp_version p)
         \<and> as_arrow read_chunks concat_batches p (entry_view e s') = Inr b
         \<and> st_mem s' = (st_mem s)\<lparr>sm_heads := (sm_heads (st_mem s))(en_head_off e := as_head (pinned_at (vp_slot p) (entry_view e s)))\<rparr>)"
proof (cases "store_resolve owner t s")
  case (Inl err)
  then show ?thesis using r by (auto simp: resolve_and_pin_def)
next
  case (Inr e)
  define f where "f = (\<lambda>p a. if tr_version t \<noteq> 0 \<and> vp_version p \<noteq> tr_version t then Inl (StoreVersionMismatch (tr_version t) (vp_version p))
     else map_sum StoreArtifact id (as_arrow read_chunks concat_batches p a))"
  have op: "open_id owner (tr_key_id t) s = Inr e" "tref_kind t \<noteq> Inr RawChunk"
    using Inr by (auto simp: store_resolve_def split: sum.splits if_splits)
  then have "en_owner e = owner" using open_id_slot [OF ok, of owner "tr_key_id t"] by (auto simp: open_slot_def entry_of_def split: option.splits)
  then have jok': "journal_ok (ac_journal (st_actors s (en_owner e)))" using jok by simp
  obtain r0 where rd: "reading f e s = Some (r0, s')" "r = map_sum id (\<lambda>(p, b). (e, p, b)) r0"
    using r Inr by (auto simp: resolve_and_pin_def f_def)
  note sp = reading_spec [OF jok' rd(1)]
  show ?thesis
  proof (cases r0)
    case (Inl err)
    then show ?thesis using sp rd(2) by simp
  next
    case (Inr pb)
    obtain p b where pb: "pb = (p, b)" by fastforce
    have fb: "f p (entry_view e s') = Inr b" using sp Inr pb by simp
    have "tr_version t = 0 \<or> tr_version t = vp_version p" using fb by (auto simp: f_def split: if_splits)
    moreover from this have "as_arrow read_chunks concat_batches p (entry_view e s') = Inr b"
      using fb by (cases "as_arrow read_chunks concat_batches p (entry_view e s')") (auto simp: f_def)
    ultimately show ?thesis using sp Inr pb rd(2) op by auto
  qed
qed

section \<open>Retained references\<close>

text \<open>The ids of a store's entries do not wrap.\<close>

definition ids_fit :: "catalog \<Rightarrow> bool" where
  "ids_fit c \<longleftrightarrow> unat (artifact_id_base c) + unat (cat_capacity c) \<le> 2 ^ 32"

lemma slot_for_entry:
  assumes ok: "store_ok c m" and ids: "ids_fit c" and i: "i < cat_capacity c" and oc: "occupied (cat_slot c i)"
  shows "slot_for_artifact_id (artifact_id_for c i) c = Some i"
proof -
  obtain fs log where cok: "catalog_ok c [] fs log" using store_okD(1) [OF ok] by blast
  have nf: "cs_state (cat_slot c i) \<noteq> CAT_FREE" using oc by (auto simp: occupied_def cat_states)
  note pl = slot_place [OF ok i nf]
  have "unat (artifact_id_base c) + unat i < 2 ^ 32" using ids i by (simp add: ids_fit_def word_less_nat_alt)
  then have u: "unat (artifact_id_for c i) = unat (artifact_id_base c) + unat i"
    unfolding artifact_id_for_def by (intro unat_add_lem [THEN iffD1]) simp
  have "\<not> artifact_id_for c i < artifact_id_base c" using u by (simp add: word_less_nat_alt)
  moreover have "artifact_id_for c i - artifact_id_base c = i" by (simp add: artifact_id_for_def)
  moreover have "\<not> min (next_slot c) (cat_capacity c) \<le> i" using pl(1) i by (simp add: min_def not_le)
  ultimately show ?thesis using pl(2) by (simp add: slot_for_artifact_id_def Let_def)
qed

lemma slot_for_hit:
  assumes ok: "store_ok c m" and h: "slot_for_artifact_id a c = Some i"
  shows "i < cat_capacity c" "artifact_id_for c i = a" "cs_artifact_id (cat_slot c i) = a"
proof -
  have eq: "i = a - artifact_id_base c" "cs_artifact_id (cat_slot c i) = a" "\<not> min (next_slot c) (cat_capacity c) \<le> i"
    using h by (auto simp: slot_for_artifact_id_def Let_def split: if_splits)
  then show "cs_artifact_id (cat_slot c i) = a" "artifact_id_for c i = a" by (simp_all add: artifact_id_for_def)
  show "i < cat_capacity c" using eq(3) by (simp add: not_le)
qed

lemma leaked_pin_head:
  "ah_magic (as_head (snd (release_leaked_pin v s))) = ah_magic (as_head s)"
  "ah_incarnation (as_head (snd (release_leaked_pin v s))) = ah_incarnation (as_head s)"
  by (auto simp: release_leaked_pin_def try_retire_version_def try_retire_version_at_def set_slot_at_def Let_def
      split: option.splits prod.splits bool.splits)

lemma binding_occupied:
  assumes ok: "store_ok c m" and ids: "ids_fit c" and i: "i < cat_capacity c" and oc: "occupied (cat_slot c i)"
  shows "release_task_binding (artifact_id_for c i) (cs_gen (cat_slot c i)) v c m = on_head (head_off_for c i) (release_leaked_pin v) m"
proof -
  have nf: "cs_state (cat_slot c i) \<noteq> CAT_FREE" using oc by (auto simp: occupied_def cat_states)
  show ?thesis
    using attach_catalog [OF ok] slot_for_entry [OF ok ids i oc] slot_place(3) [OF ok i nf] attach_occupied(1) [OF ok i oc, of "artifact_id_for c i"]
    by (simp add: release_task_binding_def attach_at_incarnation_def Let_def)
qed

lemma binding_refused:
  assumes ok: "store_ok c m" and none: "\<not> (\<exists>i < cat_capacity c. occupied (cat_slot c i) \<and> a = artifact_id_for c i \<and> g = cs_gen (cat_slot c i))"
  shows "release_task_binding a g v c m = (False, m)"
proof (cases "slot_for_artifact_id a c")
  case None
  then show ?thesis using attach_catalog [OF ok] by (simp add: release_task_binding_def)
next
  case (Some i)
  note h = slot_for_hit [OF ok Some]
  let ?off = "cs_head_off (cat_slot c i)"
  have off: "?off = head_off_for c i" using store_okD(7) [OF ok h(1)] h(2,3) by (simp add: placed_def)
  have "\<exists>e. attach_at_incarnation a g (sm_head_seg m) (unat ?off) (sm_heads m ?off) = Inl e"
  proof (cases "occupied (cat_slot c i)")
    case True
    then have "g \<noteq> cs_gen (cat_slot c i)" using none h by blast
    then show ?thesis using attach_occupied(1) [OF ok h(1) True, of a] off by (simp add: attach_at_incarnation_def)
  next
    case False
    then show ?thesis using attach_vacant [OF ok h(1) False, of a] off by (auto simp: attach_at_incarnation_def)
  qed
  then show ?thesis using attach_catalog [OF ok] Some by (auto simp: release_task_binding_def Let_def)
qed

text \<open>
  C37: A binding is released against the entry it was taken from, or not at all. If the artifact id and the incarnation are
  those of an entry that is still there, live or evicted, one of its pins is given back as a reader's own
  drop would; if that entry is gone, even if its slot has a new occupant under the same id, nothing happens. No other
  entry's head is touched either way, and the store stays in order.
\<close>

theorem binding_own_entry:
  assumes ok: "store_ok c m" and ids: "ids_fit c"
  shows "(\<forall>i < cat_capacity c. occupied (cat_slot c i) \<and> a = artifact_id_for c i \<and> g = cs_gen (cat_slot c i)
          \<longrightarrow> release_task_binding a g v c m = on_head (head_off_for c i) (release_leaked_pin v) m)
     \<and> (\<not> (\<exists>i < cat_capacity c. occupied (cat_slot c i) \<and> a = artifact_id_for c i \<and> g = cs_gen (cat_slot c i))
          \<longrightarrow> release_task_binding a g v c m = (False, m))
     \<and> store_ok c (snd (release_task_binding a g v c m))
     \<and> (\<forall>j < cat_capacity c. artifact_id_for c j \<noteq> a
          \<longrightarrow> sm_heads (snd (release_task_binding a g v c m)) (head_off_for c j) = sm_heads m (head_off_for c j))"
proof (cases "\<exists>i < cat_capacity c. occupied (cat_slot c i) \<and> a = artifact_id_for c i \<and> g = cs_gen (cat_slot c i)")
  case False
  then show ?thesis using binding_refused [OF ok False] ok by auto
next
  case True
  then obtain i where i: "i < cat_capacity c" "occupied (cat_slot c i)" "a = artifact_id_for c i" "g = cs_gen (cat_slot c i)" by blast
  let ?off = "head_off_for c i"
  let ?s = "\<lparr>as_arena = sm_arena m, as_head = sm_heads m ?off, as_journal = None, as_events = []\<rparr>"
  have uniq: "j = i" if "a = artifact_id_for c j" for j using that i(3) by (simp add: artifact_id_for_def)
  have run: "release_task_binding a g v c m = on_head ?off (release_leaked_pin v) m" using binding_occupied [OF ok ids i(1,2)] i(3,4) by simp
  have snd: "snd (on_head ?off (release_leaked_pin v) m)
     = m\<lparr>sm_arena := as_arena (snd (release_leaked_pin v ?s)), sm_heads := (sm_heads m)(?off := as_head (snd (release_leaked_pin v ?s)))\<rparr>"
    by (simp add: on_head_def split: prod.splits)
  have hm: "check_magic (sm_heads m ?off)" "ah_incarnation (sm_heads m ?off) = cs_gen (cat_slot c i)"
    using store_okD(6) [OF ok i(1)] i(2) by (simp_all add: head_match_def)
  have "store_ok c (snd (release_task_binding a g v c m))"
    unfolding run snd by (rule store_ok_head [OF ok i(1,2)]) (use hm leaked_pin_head [of v ?s] in \<open>simp_all add: check_magic_def\<close>)
  moreover have "sm_heads (snd (release_task_binding a g v c m)) (head_off_for c j) = sm_heads m (head_off_for c j)"
    if "j < cat_capacity c" "artifact_id_for c j \<noteq> a" for j
    using that i(3) head_off_inj [OF store_okD(3) [OF ok] that(1) i(1)] unfolding run snd by auto
  ultimately show ?thesis using run True uniq by auto
qed

section \<open>Retaining and releasing\<close>

lemma first_slot_update:
  "i < length xs \<Longrightarrow> P y = P (xs ! i) \<Longrightarrow> first_slot P k (xs[i := y]) = first_slot P k xs"
  by (induction xs arbitrary: i k) (auto split: nat.splits)

lemma find_slot_pinned:
  assumes "i < length (ah_pins (as_head s))"
  shows "find_slot v (as_head (pinned_at i s)) = find_slot v (as_head s)"
  using assms first_slot_update [of i "ah_pins (as_head s)" "\<lambda>sl. ps_state sl = SLOT_LIVE \<and> ps_version sl = v" "publish_pin (head_slot_at i s)" 0]
  by (simp add: find_slot_def pinned_at_def set_slot_at_def head_slot_at_def publish_pin_def)

lemma retain_loop_once:
  assumes f: "find_slot (vp_version p) (as_head s) = Some (vp_slot p)" and inc: "is_incarnation (a_incarnation art) (as_head s)"
  shows "retain_loop art p s = Some (pinned_at (vp_slot p) s)"
proof -
  have "is_incarnation (a_incarnation art) (as_head (pinned_at (vp_slot p) s))"
    using inc pinned_slot(4) [OF find_slot_hit(1) [OF f]] by (simp add: is_incarnation_def)
  then show ?thesis using accept_pinned [OF f] by (subst retain_loop.simps) (simp add: Let_def pinned_at_def [symmetric])
qed

text \<open>Two pins and one drop: the pin that stays is not recorded anywhere.\<close>

lemma retain_pin_effect:
  assumes r: "retain_pin art s = Some (Inr v, s')"
  obtains i where "v = ah_current (as_head s)" "v \<noteq> NO_VERSION" "find_slot v (as_head s) = Some i"
    "is_incarnation (a_incarnation art) (as_head s)" "s' = pinned_at i s"
proof -
  let ?s = "s\<lparr>as_journal := None\<rparr>"
  obtain p s1 s2 where p: "pin_inner art ?s = Some (Inr p, s1)" "retain_loop art p (s1\<lparr>as_journal := as_journal s\<rparr>) = Some s2"
    "v = vp_version p" "s' = pin_drop p s2"
    using r by (auto simp: retain_pin_def pin_def split: option.splits sum.splits)
  have ef: "pin_effect art ?s (Inr p, s1)" by (rule pin_inner_effect [OF p(1)])
  let ?i = "vp_slot p"
  have e: "ah_current (as_head s) \<noteq> NO_VERSION" "vp_version p = ah_current (as_head s)" "find_slot (ah_current (as_head s)) (as_head s) = Some ?i"
    "is_incarnation (a_incarnation art) (as_head s)" using ef by (simp_all add: pin_effect_def)
  have "as_journal (pinned_at ?i ?s) = None" by (simp add: pinned_at_def set_slot_at_def)
  then have jp: "(\<exists>m. \<lparr>vp_version = ah_current (as_head s), vp_slot = ?i, vp_manifest = m, vp_journal = None\<rparr> = p) \<and> s1 = pinned_at ?i ?s"
    using ef by (auto simp: pin_effect_def journal_pin_def)
  then have j: "vp_journal p = None" "s1 = pinned_at ?i ?s" by (metis version_pin.select_convs(4), blast)
  have s1: "s1\<lparr>as_journal := as_journal s\<rparr> = pinned_at ?i s" unfolding j(2) by (simp add: pinned_at_def set_slot_at_def head_slot_at_def)
  note i = find_slot_hit [OF e(3)]
  have li: "?i < length (ah_pins (as_head (pinned_at ?i s)))" using i(1) by (simp add: pinned_at_def set_slot_at_def)
  have f1: "find_slot (vp_version p) (as_head (pinned_at ?i s)) = Some ?i" using find_slot_pinned [OF i(1)] e(2,3) by simp
  note p1 = pinned_slot [OF i(1)]
  note p2 = pinned_slot [OF li]
  have "is_incarnation (a_incarnation art) (as_head (pinned_at ?i s))" using e(4) p1(4) by (simp add: is_incarnation_def)
  then have "retain_loop art p (pinned_at ?i s) = Some (pinned_at ?i (pinned_at ?i s))" by (rule retain_loop_once [OF f1])
  then have s2: "s2 = pinned_at ?i (pinned_at ?i s)" using p(2) s1 by simp
  have cur: "ah_current (as_head s2) = vp_version p" using e(2) p1(3) p2(3) by (simp add: s2)
  have "pin_drop p s2 = set_slot_at ?i (head_slot_at ?i (pinned_at ?i s)) s2"
    using j(1) cur p2(1) by (simp add: pin_drop_def pin_unpin_def unpin_publish s2 Let_def set_slot_at_def split: option.splits)
  then have "s' = pinned_at ?i s" using p(4) p2(2) s2 by simp
  then show thesis using that [of ?i] e p(3) by simp
qed

lemma leaked_pin_undoes:
  assumes f: "find_slot (ah_current (as_head s)) (as_head s) = Some i" and few: "ps_pins (ah_pins (as_head s) ! i) \<noteq> - 1"
  shows "release_leaked_pin (ah_current (as_head s)) ((pinned_at i s)\<lparr>as_journal := j\<rparr>) = (True, s\<lparr>as_journal := j\<rparr>)"
proof -
  note i = find_slot_hit [OF f]
  note p = pinned_slot [OF i(1)]
  let ?s = "(pinned_at i s)\<lparr>as_journal := j\<rparr>"
  have h: "head_slot_at i ?s = publish_pin (head_slot_at i s)" using p(1) by (simp add: head_slot_at_def)
  have "ps_pins (head_slot_at i s) + 1 \<noteq> 0" using few by (simp add: head_slot_at_def succ_0_iff)
  then have t: "try_unpin (head_slot_at i ?s) = (Some (ps_pins (head_slot_at i s) + 1), head_slot_at i s)"
    unfolding h by (simp add: try_unpin_def publish_pin_def compare_exchange_def Let_def)
  have rst: "set_slot_at i (head_slot_at i s) ?s = s\<lparr>as_journal := j\<rparr>" using i(1) by (simp add: set_slot_at_def pinned_at_def head_slot_at_def)
  have "find_slot (ah_current (as_head s)) (as_head ?s) = Some i" using find_slot_pinned [OF i(1)] f by simp
  then show ?thesis using t rst by (simp add: release_leaked_pin_def Let_def)
qed

lemma recorded_release:
  assumes jok: "journal_ok j0" and r: "record_artifact_pin j0 a g v = (Inr k, j)"
  shows "fst (journal_release j k) = Inr True"
proof -
  have h: "k < jcapacity j" "held j k \<noteq> None" "journal_ok j" using record_entry_spec [OF jok, of "artifact_pin a g v"] r by (auto simp: record_artifact_pin_def)
  then show ?thesis using release_spec [OF h(3), of k] by (auto split: prod.splits sum.splits)
qed

text \<open>What retaining leaves: one more pin on the current version, and a record of it in the actor's journal.\<close>

lemma retain_current_effect:
  assumes jok: "journal_ok (ac_journal (st_actors s (en_owner e)))" and rt: "retain_current e s = Some (Inr r, s1)"
  obtains i j where "rr_version r = ah_current (as_head (entry_view e s))" "rr_version r \<noteq> NO_VERSION"
    "find_slot (rr_version r) (as_head (entry_view e s)) = Some i" "rr_artifact_id r = a_name_id (en_artifact e)"
    "rr_incarnation r = a_incarnation (en_artifact e)" "fst (journal_release j (rr_journal_slot r)) = Inr True"
    "s1 = put_view e ((pinned_at i (entry_view e s))\<lparr>as_journal := Some j\<rparr>) s"
    "entry_view e s1 = (pinned_at i (entry_view e s))\<lparr>as_journal := Some j\<rparr>"
proof -
  let ?a = "entry_view e s"
  obtain v a1 k j where p: "retain_pin (en_artifact e) ?a = Some (Inr v, a1)"
    "record_artifact_pin (the (as_journal a1)) (a_name_id (en_artifact e)) (a_incarnation (en_artifact e)) v = (Inr k, j)"
    "s1 = put_view e (a1\<lparr>as_journal := Some j\<rparr>) s"
    "r = \<lparr>rr_artifact_id = a_name_id (en_artifact e), rr_incarnation = a_incarnation (en_artifact e), rr_version = v, rr_journal_slot = k\<rparr>"
    using rt by (auto simp: retain_current_def on_entry_opt_def split: option.splits sum.splits prod.splits)
  obtain i where i: "v = ah_current (as_head ?a)" "v \<noteq> NO_VERSION" "find_slot v (as_head ?a) = Some i" "a1 = pinned_at i ?a"
    by (rule retain_pin_effect [OF p(1)]) (rule that)
  have "as_journal a1 = as_journal ?a" "as_events a1 = []" by (simp_all add: i(4) pinned_at_def set_slot_at_def)
  moreover from this have "fst (journal_release j k) = Inr True" using recorded_release [OF jok] p(2) by simp
  ultimately show thesis using that [of i j] i p(3,4) by (simp add: view_put)
qed

text \<open>
  C36: A retained reference is worth one pin, whoever gives it back. Retaining pins the version that is current and
  records it in the actor's journal; handing the reference over takes it out of the journal and leaves the pin;
  releasing the task's binding afterwards puts every head and every chunk back, and so does releasing it without a handover.
\<close>

theorem retain_release:
  assumes ok: "store_ok (st_catalog s) (st_mem s)" and ids: "ids_fit (st_catalog s)" and jok: "journal_ok (ac_journal (st_actors s owner))"
    and op: "open_id owner k s = Inr e" and rt: "retain_current e s = Some (Inr r, s1)"
    and few: "\<forall>sl \<in> set (ah_pins (sm_heads (st_mem s) (en_head_off e))). ps_pins sl \<noteq> - 1"
  shows "rr_version r = entry_current_version e s \<and> rr_version r \<noteq> NO_VERSION
     \<and> version_pin_count (rr_version r) (entry_view e s1) = map_option (\<lambda>n. n + 1) (version_pin_count (rr_version r) (entry_view e s))
     \<and> (\<exists>s2. handoff e r s1 = (Inr r, s2) \<and> st_mem s2 = st_mem s1
          \<and> release_task_binding (rr_artifact_id r) (rr_incarnation r) (rr_version r) (st_catalog s2) (st_mem s2) = (True, st_mem s))
     \<and> (\<exists>s3. release_retained e r s1 = (True, s3) \<and> st_mem s3 = st_mem s)"
proof -
  let ?c = "st_catalog s" and ?a = "entry_view e s"
  obtain x where x: "find_live_by_key k ?c = Some x" "e = entry_of owner ?c x"
    using op open_id_slot [OF ok] by (auto simp: open_slot_def split: option.splits)
  have xc: "x < cat_capacity ?c" and oc: "occupied (cat_slot ?c x)" using find_live_spec [OF ok, of k x] x(1) by (auto simp: occupied_def)
  have ex: "en_owner e = owner" "en_head_off e = head_off_for ?c x" "a_name_id (en_artifact e) = artifact_id_for ?c x"
    "a_incarnation (en_artifact e) = cs_gen (cat_slot ?c x)" by (simp_all add: x(2) entry_of_def)
  have jok': "journal_ok (ac_journal (st_actors s (en_owner e)))" using jok ex(1) by simp
  obtain i j where i: "rr_version r = ah_current (as_head ?a)" "rr_version r \<noteq> NO_VERSION" "find_slot (rr_version r) (as_head ?a) = Some i"
    "rr_artifact_id r = a_name_id (en_artifact e)" "rr_incarnation r = a_incarnation (en_artifact e)"
    "fst (journal_release j (rr_journal_slot r)) = Inr True" "s1 = put_view e ((pinned_at i ?a)\<lparr>as_journal := Some j\<rparr>) s"
    "entry_view e s1 = (pinned_at i ?a)\<lparr>as_journal := Some j\<rparr>"
    by (rule retain_current_effect [OF jok' rt])
  have f: "find_slot (ah_current (as_head ?a)) (as_head ?a) = Some i" using i(1,3) by simp
  note h = find_slot_hit [OF f]
  note ps = pinned_slot [OF h(1)]
  have "ah_pins (as_head ?a) ! i \<in> set (ah_pins (sm_heads (st_mem s) (en_head_off e)))" using h(1) by (simp add: entry_view_def)
  then have nf: "ps_pins (ah_pins (as_head ?a) ! i) \<noteq> - 1" using few by blast
  note undo = leaked_pin_undoes [OF f nf]
  have cnt: "version_pin_count (rr_version r) (entry_view e s1) = map_option (\<lambda>n. n + 1) (version_pin_count (rr_version r) ?a)"
    using i(3,8) find_slot_pinned [OF h(1), of "rr_version r"] ps(1)
    by (simp add: version_pin_count_def head_slot_at_def publish_pin_def)
  have m1: "st_mem s1 = (st_mem s)\<lparr>sm_heads := (sm_heads (st_mem s))(en_head_off e := as_head (pinned_at i ?a))\<rparr>"
    using ps(6) by (simp add: i(7)) (simp add: entry_view_def)
  have back1: "(st_mem s1)\<lparr>sm_arena := as_arena ?a, sm_heads := (sm_heads (st_mem s1))(en_head_off e := as_head ?a)\<rparr> = st_mem s"
    by (simp add: m1) (simp add: entry_view_def)
  have jo: "ac_journal (st_actors s1 (en_owner e)) = j" using i(8) view_sel(1) [of e s1] by simp
  obtain j' where j': "journal_release j (rr_journal_slot r) = (Inr True, j')" using i(6) by (metis prod.collapse)
  have "handoff e r s1 = (Inr r, set_journal (en_owner e) j' s1)" using jo j' by (simp add: handoff_def)
  moreover have "release_task_binding (rr_artifact_id r) (rr_incarnation r) (rr_version r) ?c (st_mem s1) = (True, st_mem s)"
  proof -
    have hm: "check_magic (sm_heads (st_mem s) (head_off_for ?c x))" "ah_incarnation (sm_heads (st_mem s) (head_off_for ?c x)) = cs_gen (cat_slot ?c x)"
      using store_okD(6) [OF ok xc] oc by (simp_all add: head_match_def)
    have "check_magic (as_head (pinned_at i ?a))" "ah_incarnation (as_head (pinned_at i ?a)) = cs_gen (cat_slot ?c x)"
      using hm ex(2) by (simp_all add: check_magic_def pinned_at_def set_slot_at_def entry_view_def)
    then have ok1: "store_ok ?c (st_mem s1)" using store_ok_head [OF ok xc oc, of _ "sm_arena (st_mem s)"] by (simp add: m1 ex(2))
    have vw: "\<lparr>as_arena = sm_arena (st_mem s1), as_head = sm_heads (st_mem s1) (head_off_for ?c x), as_journal = None, as_events = []\<rparr>
        = (pinned_at i ?a)\<lparr>as_journal := None\<rparr>"
      using i(8) ex(2) by (cases "pinned_at i ?a") (simp add: entry_view_def)
    show ?thesis unfolding i(4,5) ex(3,4) binding_occupied [OF ok1 ids xc oc]
      using undo [of None] i(1) back1 ex(2) by (simp add: on_head_def vw)
  qed
  moreover have "\<exists>s3. release_retained e r s1 = (True, s3) \<and> st_mem s3 = st_mem s"
    using undo [of "Some j'"] i(1,8) j' back1 by (simp add: release_retained_def on_entry_def Let_def)
  ultimately show ?thesis using i(1,2,7) cnt by (simp add: entry_current_version_def set_journal_def) (simp add: entry_view_def)
qed

text \<open>
  Retaining with a full journal fails after the pin has been taken, and nothing takes it back.
\<close>

lemma retain_full_leaks:
  assumes rt: "retain_current e s = Some (Inl (StoreCore err), s1)"
  shows "\<exists>i. find_slot (entry_current_version e s) (as_head (entry_view e s)) = Some i
     \<and> st_mem s1 = (st_mem s)\<lparr>sm_heads := (sm_heads (st_mem s))(en_head_off e := as_head (pinned_at i (entry_view e s)))\<rparr>"
proof -
  let ?a = "entry_view e s"
  obtain v a1 j where p: "retain_pin (en_artifact e) ?a = Some (Inr v, a1)" "s1 = put_view e (a1\<lparr>as_journal := Some j\<rparr>) s"
    using rt by (auto simp: retain_current_def on_entry_opt_def split: option.splits sum.splits prod.splits)
  obtain i where i: "v = ah_current (as_head ?a)" "find_slot v (as_head ?a) = Some i" "a1 = pinned_at i ?a"
    by (rule retain_pin_effect [OF p(1)]) (rule that)
  have "as_arena (pinned_at i ?a) = sm_arena (st_mem s)" by (simp add: pinned_at_def set_slot_at_def entry_view_def)
  moreover have "entry_current_version e s = v" using i(1) by (simp add: entry_current_version_def entry_view_def)
  ultimately show ?thesis using i(2,3) by (simp add: p(2))
qed

section \<open>A store with a version\<close>

lemma demo_entry:
  obtains s :: "unit store_state" and e L ms where
    "store_ok (st_catalog s) (st_mem s)" "ids_fit (st_catalog s)" "\<forall>ow. ac_journal (st_actors s ow) = demo_journal"
    "open_id 1 7 s = Inr e" "en_owner e = 1" "entry_current_version e s = 1" "is_incarnation (a_incarnation (en_artifact e)) (as_head (entry_view e s))"
    "art_inv (a_name_id (en_artifact e)) (entry_view e s) L [] [] ms"
proof -
  obtain a0 where a0: "art_reach demo_art (a0, [], [])" "ah_current (as_head a0) = 1" "check_live demo_art a0" by (rule demo_version)
  obtain L ms where inv: "art_inv (a_name_id demo_art) a0 L [] [] ms" by (rule art_reachE [OF a0(1)])
  let ?d = demo_made_store
  let ?c = "st_catalog ?d" and ?h = "(as_head a0)\<lparr>ah_magic := HEAD_MAGIC\<rparr>"
  define s where "s = ?d\<lparr>st_mem := (st_mem ?d)\<lparr>sm_arena := as_arena a0, sm_heads := (sm_heads (st_mem ?d))(head_off_for ?c 0 := ?h)\<rparr>\<rparr>"
  note d = demo_made_store
  have i: "0 < cat_capacity ?c" and oc: "occupied (cat_slot ?c 0)" using d(2,4) by (simp_all add: occupied_def)
  have inc: "ah_incarnation ?h = cs_gen (cat_slot ?c 0)" using a0(3) d(5) by (simp add: check_live_def is_incarnation_def demo_art_def FIRST_INCARNATION_def)
  have ok: "store_ok (st_catalog s) (st_mem s)" using store_ok_head [OF d(1) i oc _ inc, of "as_arena a0"] by (simp add: s_def check_magic_def)
  have base: "artifact_id_base ?c = 7" by (rule d(7))
  have ids: "ids_fit (st_catalog s)" using d(4) base by (simp add: ids_fit_def s_def)
  have jo: "\<forall>ow. ac_journal (st_actors s ow) = demo_journal"
    by (auto simp: s_def demo_made_store_def store_create_def demo_store_def Let_def split: sum.splits option.splits prod.splits)
  let ?e = "entry_of 1 ?c 0"
  have op: "open_id 1 7 s = Inr ?e" using open_id_slot [OF ok] d(3) by (simp add: s_def open_slot_def)
  have vw: "as_head (entry_view ?e s) = ?h" "as_arena (entry_view ?e s) = as_arena a0" by (simp_all add: entry_view_def entry_of_def s_def)
  have "a_name_id (en_artifact ?e) = a_name_id demo_art" using base by (simp add: entry_of_def artifact_id_for_def demo_art_def)
  then have "art_inv (a_name_id (en_artifact ?e)) (entry_view ?e s) L [] [] ms" using inv art_inv_cong [of "entry_view ?e s" a0] vw by simp
  moreover have "entry_current_version ?e s = 1" using a0(2) by (simp add: entry_current_version_def entry_of_def s_def)
  moreover have "is_incarnation (a_incarnation (en_artifact ?e)) (as_head (entry_view ?e s))" using vw inc by (simp add: is_incarnation_def entry_of_def)
  ultimately show thesis using that [OF ok ids jo op] by (simp add: entry_of_def)
qed

lemma binding_own_entry_witness:
  "release_task_binding 7 2 1 (st_catalog demo_made_store) (st_mem demo_made_store) = (False, st_mem demo_made_store)
   \<and> release_task_binding 7 1 1 (st_catalog demo_made_store) (st_mem demo_made_store)
       = on_head (head_off_for (st_catalog demo_made_store) 0) (release_leaked_pin 1) (st_mem demo_made_store)"
proof -
  let ?c = "st_catalog demo_made_store"
  note d = demo_made_store
  have ids: "ids_fit ?c" using d(4,7) by (simp add: ids_fit_def)
  have id: "7 = artifact_id_for ?c i \<longleftrightarrow> i = 0" for i using d(7) by (auto simp: artifact_id_for_def)
  have "occupied (cat_slot ?c 0)" using d(2) by (simp add: occupied_def)
  then show ?thesis
    using binding_own_entry [OF d(1) ids, of 7 2 1] binding_own_entry [OF d(1) ids, of 7 1 1] id d(4,5) by auto
qed

lemma demo_retained:
  assumes inv: "art_inv (a_name_id (en_artifact e)) (entry_view e s) L [] [] ms" and jo: "ac_journal (st_actors s (en_owner e)) = demo_journal"
    and cur: "entry_current_version e s \<noteq> NO_VERSION" and inc: "is_incarnation (a_incarnation (en_artifact e)) (as_head (entry_view e s))"
  obtains r s1 where "retain_current e s = Some (Inr r, s1)"
proof -
  let ?a = "entry_view e s" and ?art = "en_artifact e"
  let ?b = "?a\<lparr>as_journal := None\<rparr>"
  have inv': "art_inv (a_name_id ?art) ?b L [] [] ms" using inv art_inv_cong [of ?b ?a] by simp
  have live: "ah_current (as_head ?b) \<noteq> NO_VERSION" using cur by (simp add: entry_current_version_def entry_view_def)
  obtain p s0 where p: "pin_inner ?art ?b = Some (Inr p, s0)"
    by (rule pin_inner_spec [OF inv']) (use live inc in auto)
  have ef: "pin_effect ?art ?b (Inr p, s0)" by (rule pin_inner_effect [OF p])
  have e: "vp_version p = ah_current (as_head ?a)" "find_slot (ah_current (as_head ?a)) (as_head ?a) = Some (vp_slot p)"
    using ef by (simp_all add: pin_effect_def)
  have "as_journal (pinned_at (vp_slot p) ?b) = None" by (simp add: pinned_at_def set_slot_at_def)
  then have "s0 = pinned_at (vp_slot p) ?b" using ef by (auto simp: pin_effect_def journal_pin_def)
  then have hd: "as_head s0 = as_head (pinned_at (vp_slot p) ?a)" by (simp add: pinned_at_def set_slot_at_def head_slot_at_def)
  note i = find_slot_hit(1) [OF e(2)]
  have "find_slot (vp_version p) (as_head (s0\<lparr>as_journal := as_journal ?a\<rparr>)) = Some (vp_slot p)"
    using e find_slot_pinned [OF i] hd by simp
  then have "retain_loop ?art p (s0\<lparr>as_journal := as_journal ?a\<rparr>) = Some (pinned_at (vp_slot p) (s0\<lparr>as_journal := as_journal ?a\<rparr>))"
    by (rule retain_loop_once) (use inc hd pinned_slot(4) [OF i] in \<open>simp add: is_incarnation_def\<close>)
  then obtain a1 where rp: "retain_pin ?art ?a = Some (Inr (vp_version p), a1)" using p by (auto simp: retain_pin_def pin_def)
  obtain k where "a1 = pinned_at k ?a" by (rule retain_pin_effect [OF rp]) (rule that)
  then have ja: "as_journal a1 = Some demo_journal" using jo by (simp add: pinned_at_def set_slot_at_def)
  obtain q j where q: "record_artifact_pin demo_journal (a_name_id ?art) (a_incarnation ?art) (vp_version p) = (q, j)" by fastforce
  then obtain n where "q = Inr n"
    using record_entry_spec [OF demo_journal_ok(1), of "artifact_pin (a_name_id ?art) (a_incarnation ?art) (vp_version p)"] demo_journal_ok(2,3)
    by (cases q) (auto simp: record_artifact_pin_def dest!: spec [of _ 0])
  then show thesis using that rp ja q by (simp add: retain_current_def on_entry_opt_def)
qed

lemma retain_release_witness:
  "\<exists>s :: unit store_state. \<exists>e r s1 s2. open_id 1 7 s = Inr e \<and> retain_current e s = Some (Inr r, s1) \<and> rr_version r = 1
     \<and> handoff e r s1 = (Inr r, s2)
     \<and> release_task_binding (rr_artifact_id r) (rr_incarnation r) (rr_version r) (st_catalog s2) (st_mem s2) = (True, st_mem s)"
proof -
  obtain s :: "unit store_state" and e L ms where d: "store_ok (st_catalog s) (st_mem s)" "ids_fit (st_catalog s)"
    "\<forall>ow. ac_journal (st_actors s ow) = demo_journal" "open_id 1 7 s = Inr e" "en_owner e = 1" "entry_current_version e s = 1"
    "is_incarnation (a_incarnation (en_artifact e)) (as_head (entry_view e s))" "art_inv (a_name_id (en_artifact e)) (entry_view e s) L [] [] ms"
    by (rule demo_entry)
  obtain r s1 where r: "retain_current e s = Some (Inr r, s1)"
    by (rule demo_retained [OF d(8)]) (use d in \<open>auto simp: NO_VERSION_def\<close>)
  have jok: "journal_ok (ac_journal (st_actors s 1))" using d(3) demo_journal_ok(1) by simp
  have "unat (ps_pins sl) = 0" if "sl \<in> set (ah_pins (sm_heads (st_mem s) (en_head_off e)))" for sl
  proof -
    have "sl \<in> set (ah_pins (as_head (entry_view e s)))" using that by (simp add: entry_view_def)
    then show ?thesis using head_okD(2) [OF coreD(3) [OF art_invD(1) [OF d(8)]]]
      by (auto simp: in_set_conv_nth Shm_Artifact_Inv.slot_ok_def pin_count_def)
  qed
  then have "\<forall>sl \<in> set (ah_pins (sm_heads (st_mem s) (en_head_off e))). ps_pins sl \<noteq> - 1" by (auto simp: unat_eq_0)
  note R = retain_release [OF d(1,2) jok d(4) r this]
  obtain s2 where "handoff e r s1 = (Inr r, s2)"
    "release_task_binding (rr_artifact_id r) (rr_incarnation r) (rr_version r) (st_catalog s2) (st_mem s2) = (True, st_mem s)" using R by blast
  moreover have "rr_version r = 1" using R d(6) by simp
  ultimately show ?thesis using d(4) r by blast
qed

lemma resolve_all_or_nothing_witness:
  "\<exists>s :: unit store_state. \<exists>e err s'. open_id 1 7 s = Inr e \<and> entry_current_version e s = 1
     \<and> resolve_and_pin (\<lambda>_ _. Inr ()) (\<lambda>_. Inr ()) 1 (resolved Object 7 0 2 ZERO_desc 0) s = Some (Inl err, s') \<and> st_mem s' = st_mem s"
proof -
  let ?t = "resolved Object 7 0 2 ZERO_desc 0" and ?rc = "\<lambda>_ _. Inr () :: artifact_error + unit" and ?cb = "\<lambda>_. Inr () :: artifact_error + unit"
  obtain s :: "unit store_state" and e L ms where d: "store_ok (st_catalog s) (st_mem s)" "ids_fit (st_catalog s)"
    "\<forall>ow. ac_journal (st_actors s ow) = demo_journal" "open_id 1 7 s = Inr e" "en_owner e = 1" "entry_current_version e s = 1"
    "is_incarnation (a_incarnation (en_artifact e)) (as_head (entry_view e s))" "art_inv (a_name_id (en_artifact e)) (entry_view e s) L [] [] ms"
    by (rule demo_entry)
  have k: "tref_kind ?t = Inr Object" "tr_key_id ?t = 7" "tr_version ?t = 2" by (simp_all add: tref_kind_def resolved_def from_u16_def as_u16_def)
  have jok: "journal_ok (ac_journal (st_actors s 1))" using d(3) demo_journal_ok(1) by simp
  obtain y where y: "pin_inner (en_artifact e) (entry_view e s) = Some y" by (rule pin_inner_spec [OF d(8)]) auto
  then have "resolve_and_pin ?rc ?cb 1 ?t s \<noteq> None"
    using d(4) k by (cases y) (auto simp: resolve_and_pin_def store_resolve_def reading_def entry_pin_def on_entry_opt_def pin_journaled_def split: sum.splits)
  then obtain r s' where r: "resolve_and_pin ?rc ?cb 1 ?t s = Some (r, s')" by auto
  note R = resolve_all_or_nothing [OF d(1) jok r]
  have "r \<noteq> Inr (e', p, b)" for e' p b using R d(4,6) k by auto
  then obtain err where "r = Inl err" by (cases r) auto
  then show ?thesis using R r d(4,6) by auto
qed

end
