(* ===== verification/Shm_Coordinator.thy ===== *)
theory Shm_Coordinator
  imports Shm_Store Shm_Task_Ops
begin

text \<open>
  The recovery side of the coordinator, \<^verbatim>\<open>crates/shm-runtime/src/coordinator.rs\<close>: what \<^verbatim>\<open>reclaim_dead\<close> does
  with the journal of a dead actor (each record's slot is won first, chunks go to the pool of their
  segment, artifact records to the hosted artifact or keyed-store entry their id names), the release
  of task bindings, the sweep of the store, and one tick of \<^verbatim>\<open>lease_monitor\<close> that composes them; and its
  master catalogs of schemas and keys (\<^verbatim>\<open>intern_schema\<close>, \<^verbatim>\<open>intern_key\<close>), which keep the interface
  \<open>interner\<close> of \<open>Shm_Schema\<close>.

  A segment with a pool is an arena, as in \<open>Shm_Ledger\<close>; attaching to a pool this coordinator has
  created gives that pool (\<open>Shm_Pool\<close>). Maps the code iterates over are association lists in the
  order of iteration. The iterator over the journal reads a slot before it is released and
  nothing else runs, so the records are those at the start. The task queue's doorbells, the log and
  the connection handlers are not modelled here; the requests are in \<open>Shm_Protocol\<close>.
\<close>

section \<open>State\<close>

definition STORE_ARTIFACT_ID_BASE :: u32 where "STORE_ARTIFACT_ID_BASE = push_bit 28 1"

datatype liveness = Alive | Left | Dead

text \<open>Instants and durations are nanoseconds.\<close>

record actor_entry =
  ae_journal :: journal
  ae_last_heartbeat :: nat
  ae_liveness :: liveness

record artifact_entry =
  he_name_id :: u32
  he_head_seg :: segment
  he_head :: artifact_head
  he_data :: arena

text \<open>One master catalog: the issued ids by key, what each id stands for, the next id to issue.\<close>

record 'k id_table =
  it_ids :: "'k \<rightharpoonup> u32"
  it_bytes :: "u32 \<rightharpoonup> bytes"
  it_next :: u32

record coord =
  cd_payload :: arena
  cd_artifacts :: "(string \<times> artifact_entry) list"
  cd_artifact_name_by_id :: "u32 \<rightharpoonup> string"
  cd_catalog :: catalog
  cd_store :: store_mem
  cd_task_queue :: task_queue
  cd_cursor :: shard_cursor
  cd_actors :: "(u32 \<times> actor_entry) list"
  cd_reclaimed :: "chunk_desc list"
  cd_artifact_pins :: u64
  cd_write_leases :: u64
  cd_task_bindings :: u64
  cd_schemas :: "u64 id_table"
  cd_keys :: "bytes id_table"

section \<open>Interning\<close>

definition table_intern :: "(bytes \<Rightarrow> 'k) \<Rightarrow> bytes \<Rightarrow> 'k id_table \<Rightarrow> u32 \<times> 'k id_table" where
  "table_intern key bs t =
     (case it_ids t (key bs) of
        Some i \<Rightarrow> (i, t)
      | None \<Rightarrow>
          let i = it_next t in
          (i, t\<lparr>it_next := it_next t + 1, it_ids := (it_ids t)(key bs \<mapsto> i), it_bytes := (it_bytes t)(i \<mapsto> bs)\<rparr>))"

definition intern_schema :: "bytes \<Rightarrow> coord \<Rightarrow> u32 \<times> coord" where
  "intern_schema bs c = (case table_intern schema_content_hash bs (cd_schemas c) of (i, t) \<Rightarrow> (i, c\<lparr>cd_schemas := t\<rparr>))"

definition resolve_schema_bytes :: "u32 \<Rightarrow> coord \<Rightarrow> bytes option" where
  "resolve_schema_bytes i c = it_bytes (cd_schemas c) i"

definition intern_key :: "bytes \<Rightarrow> coord \<Rightarrow> u32 \<times> coord" where
  "intern_key bs c = (case table_intern id bs (cd_keys c) of (i, t) \<Rightarrow> (i, c\<lparr>cd_keys := t\<rparr>))"

definition resolve_key_bytes :: "u32 \<Rightarrow> coord \<Rightarrow> bytes option" where
  "resolve_key_bytes i c = it_bytes (cd_keys c) i"

section \<open>Routing\<close>

definition segment_of :: "arena \<Rightarrow> u32" where
  "segment_of a = seg_id (pl_segment (ar_pool a))"

text \<open>The list \<^verbatim>\<open>pools\<close> of \<^verbatim>\<open>reclaim_dead\<close>: the payload pool, those of the hosted artifacts, the store's.\<close>

definition pools :: "coord \<Rightarrow> arena list" where
  "pools c = cd_payload c # map (\<lambda>(_, e). he_data e) (cd_artifacts c) @ [sm_arena (cd_store c)]"

definition set_pool :: "nat \<Rightarrow> arena \<Rightarrow> coord \<Rightarrow> coord" where
  "set_pool k a c =
     (if k = 0 then c\<lparr>cd_payload := a\<rparr>
      else if k \<le> length (cd_artifacts c)
      then c\<lparr>cd_artifacts := (cd_artifacts c)[k - 1 := (case cd_artifacts c ! (k - 1) of (n, e) \<Rightarrow> (n, e\<lparr>he_data := a\<rparr>))]\<rparr>
      else c\<lparr>cd_store := (cd_store c)\<lparr>sm_arena := a\<rparr>\<rparr>)"

definition reclaim_chunk :: "u32 \<Rightarrow> chunk_desc \<Rightarrow> coord \<Rightarrow> chunk_desc option \<times> coord" where
  "reclaim_chunk actor d c =
     (case find (\<lambda>k. segment_of (pools c ! k) = segment_id d) [0 ..< length (pools c)] of
        None \<Rightarrow> (None, c)
      | Some k \<Rightarrow> (case reclaim_one d actor (pools c ! k) of (x, a) \<Rightarrow> (x, set_pool k a c)))"

text \<open>What \<^verbatim>\<open>attach_artifact_by_id\<close> attaches to: a hosted artifact, or the head of a store entry.\<close>

datatype artifact_ref = Hosted string | StoreEntry u32

definition attach_store_entry_by_id :: "coord \<Rightarrow> u32 \<Rightarrow> u32 \<Rightarrow> artifact_ref option" where
  "attach_store_entry_by_id c artifact_id incarnation =
     (case catalog_attach (cd_catalog c) of
        Inl _ \<Rightarrow> None
      | Inr cat \<Rightarrow>
          (case slot_for_artifact_id artifact_id cat of
             None \<Rightarrow> None
           | Some ix \<Rightarrow>
               let off = cs_head_off (cat_slot cat ix); m = cd_store c in
               (case attach_at_incarnation artifact_id incarnation (sm_head_seg m) (unat off) (sm_heads m off) of
                  Inl _ \<Rightarrow> None
                | Inr _ \<Rightarrow> Some (StoreEntry off))))"

definition attach_artifact_by_id :: "coord \<Rightarrow> u32 \<Rightarrow> u32 \<Rightarrow> artifact_ref option" where
  "attach_artifact_by_id c artifact_id incarnation =
     (if artifact_id \<ge> STORE_ARTIFACT_ID_BASE then attach_store_entry_by_id c artifact_id incarnation
      else case cd_artifact_name_by_id c artifact_id of
        None \<Rightarrow> None
      | Some name \<Rightarrow>
          (case map_of (cd_artifacts c) name of
             None \<Rightarrow> None
           | Some e \<Rightarrow>
               (case artifact_attach (he_name_id e) (he_head_seg e) (he_head e) of
                  Inl _ \<Rightarrow> None
                | Inr art \<Rightarrow> if a_incarnation art = incarnation then Some (Hosted name) else None)))"

definition on_hosted :: "(artifact_state \<Rightarrow> 'r \<times> artifact_state) \<Rightarrow> artifact_entry \<Rightarrow> 'r \<times> artifact_entry" where
  "on_hosted f e =
     (case f \<lparr>as_arena = he_data e, as_head = he_head e, as_journal = None, as_events = []\<rparr> of
        (r, s) \<Rightarrow> (r, e\<lparr>he_data := as_arena s, he_head := as_head s\<rparr>))"

definition on_artifact :: "artifact_ref \<Rightarrow> (artifact_state \<Rightarrow> bool \<times> artifact_state) \<Rightarrow> coord \<Rightarrow> bool \<times> coord" where
  "on_artifact r f c =
     (case r of
        StoreEntry off \<Rightarrow> (case on_head off f (cd_store c) of (b, m) \<Rightarrow> (b, c\<lparr>cd_store := m\<rparr>))
      | Hosted name \<Rightarrow>
          (case map_of (cd_artifacts c) name of
             None \<Rightarrow> (False, c)
           | Some e \<Rightarrow>
               (case on_hosted f e of (b, e') \<Rightarrow>
                  (b, c\<lparr>cd_artifacts := map (\<lambda>(n, x). (n, if n = name then e' else x)) (cd_artifacts c)\<rparr>))))"

definition reclaim_artifact_pin :: "u32 \<Rightarrow> u32 \<Rightarrow> u64 \<Rightarrow> coord \<Rightarrow> bool \<times> coord" where
  "reclaim_artifact_pin artifact_id incarnation version c =
     (case attach_artifact_by_id c artifact_id incarnation of
        Some r \<Rightarrow> on_artifact r (release_leaked_pin version) c
      | None \<Rightarrow> (False, c))"

definition reclaim_write_lease :: "u32 \<Rightarrow> u32 \<Rightarrow> coord \<Rightarrow> bool \<times> coord" where
  "reclaim_write_lease artifact_id incarnation c =
     (case attach_artifact_by_id c artifact_id incarnation of
        Some r \<Rightarrow> on_artifact r release_leaked_write_lease c
      | None \<Rightarrow> (False, c))"

section \<open>Reclaiming what a dead actor held\<close>

text \<open>The state of the loop in \<^verbatim>\<open>reclaim_dead\<close>: its local counts beside the coordinator and the journal.\<close>

record recovery =
  rv_coord :: coord
  rv_journal :: journal
  rv_reclaimed :: "chunk_desc list"
  rv_pins :: u64
  rv_leases :: u64

definition reclaim_won :: "u32 \<Rightarrow> journal_record \<Rightarrow> recovery \<Rightarrow> recovery" where
  "reclaim_won actor rec s =
     (case rec of
        ChunkPin d \<Rightarrow>
          (case reclaim_chunk actor d (rv_coord s) of (x, c) \<Rightarrow>
             s\<lparr>rv_coord := c, rv_reclaimed := rv_reclaimed s @ (case x of None \<Rightarrow> [] | Some d' \<Rightarrow> [d'])\<rparr>)
      | ArtifactPin a g v \<Rightarrow>
          (case reclaim_artifact_pin a g v (rv_coord s) of (b, c) \<Rightarrow>
             s\<lparr>rv_coord := c, rv_pins := rv_pins s + (if b then 1 else 0)\<rparr>)
      | WriteLease a g _ \<Rightarrow>
          (case reclaim_write_lease a g (rv_coord s) of (b, c) \<Rightarrow>
             s\<lparr>rv_coord := c, rv_leases := rv_leases s + (if b then 1 else 0)\<rparr>)
      | StagedManifest a g bits gen \<Rightarrow>
          (case attach_artifact_by_id (rv_coord s) a g of
             None \<Rightarrow> s
           | Some r \<Rightarrow>
               (case on_artifact r (reclaim_staged_manifest bits gen) (rv_coord s) of (b, c) \<Rightarrow>
                  s\<lparr>rv_coord := c, rv_pins := rv_pins s + (if b then 1 else 0)\<rparr>)))"

definition reclaim_slot :: "u32 \<Rightarrow> nat \<times> journal_record \<Rightarrow> recovery \<Rightarrow> recovery" where
  "reclaim_slot actor e s =
     (case e of (i, rec) \<Rightarrow>
        (case journal_release (rv_journal s) i of (r, j) \<Rightarrow>
           if r = Inr True then reclaim_won actor rec (s\<lparr>rv_journal := j\<rparr>) else s\<lparr>rv_journal := j\<rparr>))"

definition reclaim_dead :: "u32 \<Rightarrow> journal \<Rightarrow> coord \<Rightarrow> chunk_desc list \<times> journal \<times> coord" where
  "reclaim_dead actor jseg c =
     (case journal_attach (jheader jseg) (bitmap jseg) (jslots jseg) of
        Inl _ \<Rightarrow> ([], jseg, c)
      | Inr j \<Rightarrow>
          let s = fold (reclaim_slot actor) (replay_indexed j)
                    \<lparr>rv_coord = c, rv_journal = j, rv_reclaimed = [], rv_pins = 0, rv_leases = 0\<rparr>;
              c1 = rv_coord s
          in (rv_reclaimed s, rv_journal s,
              if rv_pins s > 0 \<or> rv_leases s > 0
              then c1\<lparr>cd_artifact_pins := cd_artifact_pins c1 + rv_pins s, cd_write_leases := cd_write_leases c1 + rv_leases s\<rparr>
              else c1))"

section \<open>One tick of the monitor\<close>

definition reap_task_bindings :: "u64 \<Rightarrow> u64 \<Rightarrow> coord \<Rightarrow> nat \<times> coord" where
  "reap_task_bindings now grace c =
     (case reap_bindings (cd_task_queue c) now grace of
        (q, won) \<Rightarrow>
          let c1 = c\<lparr>cd_task_queue := q\<rparr> in
          if won = [] then (0, c1)
          else case fold (\<lambda>b (n, m).
                 case release_task_binding (lb_artifact_id b) (lb_incarnation b) (lb_version b) (cd_catalog c1) m of
                   (ok, m') \<Rightarrow> (if ok then n + 1 else n, m')) won (0, cd_store c1) of
            (released, m) \<Rightarrow>
              (released, c1\<lparr>cd_store := m, cd_task_bindings := cd_task_bindings c1 + of_nat released\<rparr>))"

definition sweep_store_tombstones :: "coord \<Rightarrow> (nat \<times> coord) option" where
  "sweep_store_tombstones c =
     (case sweep_tombstones (cd_catalog c) (cd_store c) of
        None \<Rightarrow> None
      | Some (r, cat, m) \<Rightarrow>
          Some (case r of Inl _ \<Rightarrow> 0 | Inr n \<Rightarrow> n, c\<lparr>cd_catalog := cat, cd_store := m\<rparr>))"

definition is_lapsed :: "nat \<Rightarrow> nat \<Rightarrow> u32 list \<Rightarrow> u32 \<Rightarrow> actor_entry \<Rightarrow> bool" where
  "is_lapsed now deadline kernel_dead i a \<longleftrightarrow>
     ae_liveness a = Alive \<and> (now - ae_last_heartbeat a > deadline \<or> i \<in> set kernel_dead)"

definition mark_dead :: "nat \<Rightarrow> nat \<Rightarrow> u32 list \<Rightarrow> coord \<Rightarrow> u32 list \<times> coord" where
  "mark_dead now deadline kernel_dead c =
     (map fst (filter (\<lambda>(i, a). is_lapsed now deadline kernel_dead i a) (cd_actors c)),
      c\<lparr>cd_actors := map (\<lambda>(i, a). (i, if is_lapsed now deadline kernel_dead i a then a\<lparr>ae_liveness := Dead\<rparr> else a)) (cd_actors c)\<rparr>)"

definition reclaim_actor :: "u32 \<Rightarrow> coord \<Rightarrow> coord" where
  "reclaim_actor i c =
     (case map_of (cd_actors c) i of
        None \<Rightarrow> c
      | Some a \<Rightarrow>
          (case reclaim_dead i (ae_journal a) c of (ds, j, c1) \<Rightarrow>
             c1\<lparr>cd_actors := map (\<lambda>(k, x). (k, if k = i then x\<lparr>ae_journal := j\<rparr> else x)) (cd_actors c1),
               cd_reclaimed := cd_reclaimed c1 @ ds\<rparr>))"

definition reap_tasks :: "u64 \<Rightarrow> coord \<Rightarrow> coord" where
  "reap_tasks now c =
     (case reap (cd_task_queue c) (cd_cursor c) now of (q, cu, _) \<Rightarrow> c\<lparr>cd_task_queue := q, cd_cursor := cu\<rparr>)"

text \<open>
  The body of the loop of \<^verbatim>\<open>lease_monitor\<close> after the wait: \<open>kernel_dead\<close> is what \<^verbatim>\<open>wait_tick\<close> reported, \<open>t1\<close>,
  \<open>t2\<close> and \<open>t3\<close> are the readings of the clock.
\<close>

definition monitor_tick :: "nat \<Rightarrow> nat \<Rightarrow> u64 \<Rightarrow> u32 list \<Rightarrow> u64 \<Rightarrow> u64 \<Rightarrow> u64 \<Rightarrow> coord \<Rightarrow> coord option" where
  "monitor_tick now deadline grace kernel_dead t1 t2 t3 c =
     (case mark_dead now deadline kernel_dead c of (dead, c1) \<Rightarrow>
        let c2 = fold reclaim_actor dead c1;
            c3 = reap_tasks t1 c2;
            c4 = (if dead \<noteq> [] then reap_tasks t2 c3 else c3);
            c5 = snd (reap_task_bindings t3 grace c4)
        in map_option snd (sweep_store_tombstones c5))"

section \<open>The master catalogs\<close>

definition table_ok :: "(bytes \<Rightarrow> 'k) \<Rightarrow> 'k id_table \<Rightarrow> bool" where
  "table_ok key t \<longleftrightarrow> it_next t \<noteq> 0 \<and> (\<forall>i bs. it_bytes t i = Some bs \<longrightarrow> i < it_next t \<and> it_ids t (key bs) = Some i)
     \<and> (\<forall>k i. it_ids t k = Some i \<longrightarrow> (\<exists>bs. it_bytes t i = Some bs \<and> key bs = k))"

definition table_room :: "'k id_table \<Rightarrow> nat" where
  "table_room t = 2 ^ 32 - 1 - unat (it_next t)"

lemma table_okD:
  assumes "table_ok key t"
  shows "it_next t \<noteq> 0" and "it_bytes t i = Some bs \<Longrightarrow> i < it_next t \<and> it_ids t (key bs) = Some i"
    and "it_ids t k = Some i \<Longrightarrow> \<exists>bs. it_bytes t i = Some bs \<and> key bs = k"
  using assms unfolding table_ok_def by blast+

lemma table_intern_spec:
  assumes ok: "table_ok key t" and room: "0 < table_room t" and r: "table_intern key bs t = (i, t')"
  shows "table_ok key t' \<and> table_room t - 1 \<le> table_room t' \<and> (\<forall>j w. it_bytes t j = Some w \<longrightarrow> it_bytes t' j = Some w)
    \<and> (\<exists>w. it_bytes t' i = Some w \<and> key bs = key w)"
proof (cases "it_ids t (key bs)")
  case (Some k)
  then show ?thesis using r ok table_okD(3) [OF ok Some] by (auto simp: table_intern_def)
next
  case None
  let ?n = "it_next t"
  have t': "i = ?n" "t' = t\<lparr>it_next := ?n + 1, it_ids := (it_ids t)(key bs \<mapsto> ?n), it_bytes := (it_bytes t)(?n \<mapsto> bs)\<rparr>"
    using r None by (auto simp: table_intern_def Let_def)
  note b = bump_room [of ?n, OF table_okD(1) [OF ok] room [unfolded table_room_def]]
  have new: "it_bytes t ?n = None" using table_okD(2) [OF ok, of ?n] by (cases "it_bytes t ?n") auto
  have by': "it_bytes t' j = (if j = ?n then Some bs else it_bytes t j)" for j by (simp add: t'(2))
  have id': "it_ids t' k = (if k = key bs then Some ?n else it_ids t k)" for k by (simp add: t'(2))
  have nx: "it_next t' = ?n + 1" by (simp add: t'(2))
  have "j < ?n + 1 \<and> it_ids t' (key w) = Some j" if "it_bytes t' j = Some w" for j w
  proof (cases "j = ?n")
    case True
    then show ?thesis using that b(2) by (simp add: by' id')
  next
    case False
    then have w: "it_bytes t j = Some w" using that by (simp add: by')
    then have "key w \<noteq> key bs" using table_okD(2) [OF ok w] None by auto
    then show ?thesis using table_okD(2) [OF ok w] b(4) by (simp add: id')
  qed
  moreover have "\<exists>w. it_bytes t' j = Some w \<and> key w = k" if "it_ids t' k = Some j" for k j
  proof (cases "k = key bs")
    case True
    then show ?thesis using that by (simp add: by' id')
  next
    case False
    then have "it_ids t k = Some j" using that by (simp add: id')
    then obtain w where w: "it_bytes t j = Some w" "key w = k" using table_okD(3) [OF ok] by blast
    then show ?thesis using new by (auto simp: by')
  qed
  ultimately have "table_ok key t'" unfolding table_ok_def nx using b(1) by blast
  then show ?thesis using new b(3) t'(1) by (auto simp: by' table_room_def nx)
qed

lemma table_known: "table_ok key t \<Longrightarrow> it_bytes t i = Some w \<Longrightarrow> key v = key w \<Longrightarrow> fst (table_intern key v t) = i"
  using table_okD(2) [of key t i w] by (simp add: table_intern_def)

interpretation schemas: interner "\<lambda>c. table_ok schema_content_hash (cd_schemas c)" "\<lambda>c. table_room (cd_schemas c)"
  "\<lambda>a b. schema_content_hash a = schema_content_hash b" intern_schema resolve_schema_bytes
proof
  fix c c' :: coord and v i
  assume "table_ok schema_content_hash (cd_schemas c)" "0 < table_room (cd_schemas c)" "intern_schema v c = (i, c')"
  note sp = table_intern_spec [OF this(1,2), of v i "cd_schemas c'"] this
  show "table_ok schema_content_hash (cd_schemas c') \<and> table_room (cd_schemas c) - 1 \<le> table_room (cd_schemas c')"
    "resolve_schema_bytes j c = Some w \<Longrightarrow> resolve_schema_bytes j c' = Some w"
    "\<exists>w. resolve_schema_bytes i c' = Some w \<and> schema_content_hash v = schema_content_hash w" for j w
    using sp by (auto simp: intern_schema_def resolve_schema_bytes_def split: prod.splits)
qed (auto simp: intern_schema_def resolve_schema_bytes_def split_beta intro: table_known)

interpretation keys: interner "\<lambda>c. table_ok id (cd_keys c)" "\<lambda>c. table_room (cd_keys c)" "(=)" intern_key resolve_key_bytes
proof
  fix c c' :: coord and v i
  assume "table_ok id (cd_keys c)" "0 < table_room (cd_keys c)" "intern_key v c = (i, c')"
  note sp = table_intern_spec [OF this(1,2), of v i "cd_keys c'"] this
  show "table_ok id (cd_keys c') \<and> table_room (cd_keys c) - 1 \<le> table_room (cd_keys c')"
    "resolve_key_bytes j c = Some w \<Longrightarrow> resolve_key_bytes j c' = Some w"
    "\<exists>w. resolve_key_bytes i c' = Some w \<and> v = w" for j w
    using sp by (auto simp: intern_key_def resolve_key_bytes_def split: prod.splits)
qed (auto simp: intern_key_def resolve_key_bytes_def split_beta intro: table_known [where key = id, simplified])

text \<open>Whatever is interned in between, a key keeps its id and the id resolves to exactly that key.\<close>

lemma key_id_stable:
  assumes "table_ok id (cd_keys c)" and "length vs < table_room (cd_keys c)" and "intern_key v c = (i, c1)"
  shows "fst (intern_key v (keys.intern_all vs c1)) = i \<and> resolve_key_bytes i (keys.intern_all vs c1) = Some v"
  using keys.stable [OF assms] by auto

section \<open>The pools a replay reaches\<close>

definition routed :: "u32 \<Rightarrow> journal_record list \<Rightarrow> journal_record list" where
  "routed sid rs = filter (\<lambda>r. case r of ChunkPin d \<Rightarrow> segment_id d = sid | _ \<Rightarrow> False) rs"

lemma routed_simps [simp]:
  "routed sid [] = []"
  "routed sid (r # rs) = (case r of ChunkPin d \<Rightarrow> if segment_id d = sid then r # routed sid rs else routed sid rs | _ \<Rightarrow> routed sid rs)"
  by (auto simp: routed_def split: journal_record.splits)

definition first_pool :: "coord \<Rightarrow> nat \<Rightarrow> u32 \<Rightarrow> bool" where
  "first_pool c k sid \<longleftrightarrow> k < length (pools c) \<and> segment_of (pools c ! k) = sid
     \<and> (\<forall>i<k. segment_of (pools c ! i) \<noteq> sid)"

lemma reclaim_one_segment: "segment_of (snd (reclaim_one d actor a)) = segment_of a"
  by (auto simp: reclaim_one_def segment_of_def on_ctrl_def arena_free_def pool_free_def Let_def
      split: sum.splits prod.splits if_splits bool.splits)

lemma reclaim_one_result: "fst (reclaim_one d actor a) = None \<or> fst (reclaim_one d actor a) = Some d"
  by (auto simp: reclaim_one_def Let_def split: sum.splits prod.splits if_splits bool.splits)

lemma pools_payload [simp]: "pools c ! 0 = cd_payload c" "pools c \<noteq> []"
  by (simp_all add: pools_def)

lemma pools_set_pool:
  assumes "k < length (pools c)"
  shows "pools (set_pool k a c) = (pools c)[k := a]"
proof -
  consider "k = 0" | i where "k = Suc i" "i < length (cd_artifacts c)" | "k = Suc (length (cd_artifacts c))"
    using assms by (cases k) (auto simp: pools_def less_Suc_eq)
  then show ?thesis
  proof cases
    case 2
    then show ?thesis by (cases "cd_artifacts c ! i") (simp add: pools_def set_pool_def map_update list_update_append)
  qed (simp_all add: pools_def set_pool_def list_update_append)
qed

lemma find_upt: "k < n \<Longrightarrow> P k \<Longrightarrow> (\<And>i. i < k \<Longrightarrow> \<not> P i) \<Longrightarrow> find P [0..<n] = Some k"
  by (auto simp: find_Some_iff intro!: exI [of _ k])

lemma find_first: "first_pool c k sid \<Longrightarrow> find (\<lambda>k. segment_of (pools c ! k) = sid) [0 ..< length (pools c)] = Some k"
  by (rule find_upt) (auto simp: first_pool_def)

lemma reclaim_chunk_cases:
  obtains (none) "reclaim_chunk actor d c = (None, c)" "\<And>k. \<not> first_pool c k (segment_id d)"
  | (pool) k where "first_pool c k (segment_id d)"
      "reclaim_chunk actor d c = (fst (reclaim_one d actor (pools c ! k)), set_pool k (snd (reclaim_one d actor (pools c ! k))) c)"
proof (cases "find (\<lambda>k. segment_of (pools c ! k) = segment_id d) [0 ..< length (pools c)]")
  case None
  then have "\<not> first_pool c k (segment_id d)" for k using find_first [of c k] by auto
  then show thesis using none None by (simp add: reclaim_chunk_def)
next
  case (Some k)
  then have "first_pool c k (segment_id d)" by (auto simp: first_pool_def find_Some_iff)
  then show thesis using pool Some by (simp add: reclaim_chunk_def split_beta)
qed

lemma first_pool_unique: "first_pool c k sid \<Longrightarrow> first_pool c k' sid \<Longrightarrow> k = k'"
  unfolding first_pool_def by (metis linorder_neqE_nat)

lemma first_pool_set:
  assumes "first_pool c k sid" and "k' < length (pools c)" and "segment_of a = segment_of (pools c ! k')"
  shows "first_pool (set_pool k' a c) k sid"
  using assms by (auto simp: first_pool_def pools_set_pool nth_list_update)

lemma on_artifact_payload: "cd_payload (snd (on_artifact r f c)) = cd_payload c"
  by (auto simp: on_artifact_def split: artifact_ref.splits prod.splits option.splits)

lemma first_pool_payload: "first_pool c 0 sid \<longleftrightarrow> segment_of (cd_payload c) = sid"
  by (simp add: first_pool_def)

definition at_pool :: "u32 \<Rightarrow> chunk_desc list \<Rightarrow> chunk_desc list" where
  "at_pool sid ds = filter (\<lambda>d. segment_id d = sid) ds"

lemma at_pool_append [simp]: "at_pool sid (xs @ ys) = at_pool sid xs @ at_pool sid ys"
  by (simp add: at_pool_def)

text \<open>One record: the pool sees it if it is a chunk of its segment, and nothing else of the journal.\<close>

lemma reclaim_won_pool:
  assumes first: "first_pool (rv_coord s) k sid" and rec: "k = 0 \<or> (\<exists>d. rec = ChunkPin d)"
    and s': "s' = reclaim_won actor rec s" and a: "a = pools (rv_coord s) ! k"
  shows "first_pool (rv_coord s') k sid \<and> rv_journal s' = rv_journal s
    \<and> pools (rv_coord s') ! k = snd (reclaim_records actor (routed sid [rec]) a)
    \<and> at_pool sid (rv_reclaimed s') = at_pool sid (rv_reclaimed s) @ fst (reclaim_records actor (routed sid [rec]) a)"
proof (cases "\<exists>d. rec = ChunkPin d")
  case True
  then obtain d where d: "rec = ChunkPin d" ..
  show ?thesis
  proof (cases rule: reclaim_chunk_cases [where actor = actor and d = d and c = "rv_coord s"])
    case none
    then have "segment_id d \<noteq> sid" using first by auto
    then show ?thesis using none(1) s' d first a by (simp add: reclaim_won_def)
  next
    case (pool k')
    let ?r = "reclaim_one d actor (pools (rv_coord s) ! k')"
    have k': "k' < length (pools (rv_coord s))" using pool(1) by (simp add: first_pool_def)
    have eq: "rv_coord s' = set_pool k' (snd ?r) (rv_coord s)" "rv_journal s' = rv_journal s"
      "rv_reclaimed s' = rv_reclaimed s @ (case fst ?r of None \<Rightarrow> [] | Some x \<Rightarrow> [x])"
      using s' d pool(2) by (simp_all add: reclaim_won_def)
    have f: "first_pool (rv_coord s') k sid"
      unfolding eq by (rule first_pool_set [OF first k' reclaim_one_segment])
    show ?thesis
    proof (cases "segment_id d = sid")
      case True
      then have kk: "k' = k" using first_pool_unique first pool(1) by blast
      have "at_pool sid (case fst ?r of None \<Rightarrow> [] | Some x \<Rightarrow> [x]) = (case fst ?r of None \<Rightarrow> [] | Some x \<Rightarrow> [x])"
        using reclaim_one_result [of d actor "pools (rv_coord s) ! k'"] True by (auto simp: at_pool_def)
      then show ?thesis using f eq k' True d kk a by (simp add: pools_set_pool split_beta split: option.splits)
    next
      case False
      then have "k' \<noteq> k" using pool(1) first by (auto simp: first_pool_def)
      moreover have "at_pool sid (case fst ?r of None \<Rightarrow> [] | Some x \<Rightarrow> [x]) = []"
        using reclaim_one_result [of d actor "pools (rv_coord s) ! k'"] False by (auto simp: at_pool_def)
      ultimately show ?thesis using f eq k' False d a by (simp add: pools_set_pool)
    qed
  qed
next
  case False
  then have k: "k = 0" using rec by blast
  have "cd_payload (rv_coord s') = cd_payload (rv_coord s) \<and> rv_journal s' = rv_journal s \<and> rv_reclaimed s' = rv_reclaimed s"
    using False s' on_artifact_payload
    by (auto simp: reclaim_won_def reclaim_artifact_pin_def reclaim_write_lease_def split: journal_record.splits prod.splits option.splits)
      (metis snd_conv)+
  moreover have "routed sid [rec] = []" using False by (auto split: journal_record.splits)
  ultimately show ?thesis using first a by (simp add: k first_pool_payload)
qed

section \<open>The whole replay\<close>

lemma release_held:
  assumes "journal_ok j" and "held j i \<noteq> None"
  obtains j' where "journal_release j i = (Inr True, j')" "journal_ok j'" "held j' = (held j)(i := None)"
  using release_spec [OF assms(1), of i] assms(2) held_bound [of j i] by (auto split: prod.splits sum.splits)

lemma release_unheld:
  assumes "journal_ok j" and "held j i = None" and "i < jcapacity j"
  shows "fst (journal_release j i) = Inr False"
  using release_spec [OF assms(1), of i] assms(2,3) by (auto split: prod.splits sum.splits)

lemma attaches_iff:
  "journal_attach (jheader j) (bitmap j) (jslots j) = Inr j \<longleftrightarrow>
     jh_magic (jheader j) = JOURNAL_MAGIC \<and> jcapacity j = unat (jh_capacity (jheader j)) \<and> jwords j = (jcapacity j + 63) div 64"
  by (cases j) (auto simp: journal_attach_def journal_layout_def Let_def)

lemma release_header:
  "journal_attach (jheader j) (bitmap j) (jslots j) = Inr j \<Longrightarrow> journal_release j i = (r, j')
     \<Longrightarrow> journal_attach (jheader j') (bitmap j') (jslots j') = Inr j'"
  unfolding attaches_iff by (auto simp: journal_release_def Let_def split: if_splits)

lemma reclaim_records_cons:
  "reclaim_records actor (routed sid (r # rs)) a =
     (case reclaim_records actor (routed sid [r]) a of (xs, b) \<Rightarrow>
        (case reclaim_records actor (routed sid rs) b of (ys, d) \<Rightarrow> (xs @ ys, d)))"
  by (auto split: journal_record.splits prod.splits option.splits)

lemma reclaim_won_journal: "rv_journal (reclaim_won actor rec s) = rv_journal s"
  by (auto simp: reclaim_won_def split: journal_record.splits prod.splits option.splits)

text \<open>Every slot of the list is won and cleared, and no other.\<close>

lemma fold_journal:
  assumes "journal_ok (rv_journal s)" and "distinct (map fst l)" and "\<forall>e \<in> set l. held (rv_journal s) (fst e) \<noteq> None"
    and "journal_attach (jheader (rv_journal s)) (bitmap (rv_journal s)) (jslots (rv_journal s)) = Inr (rv_journal s)"
    and "j' = rv_journal (fold (reclaim_slot actor) l s)"
  shows "journal_ok j' \<and> held j' = held (rv_journal s) |` (- fst ` set l)
    \<and> journal_attach (jheader j') (bitmap j') (jslots j') = Inr j'"
  using assms
proof (induction l arbitrary: s)
  case Nil
  then show ?case by (simp add: restrict_map_def)
next
  case (Cons e l)
  obtain i rec where e: "e = (i, rec)" by fastforce
  obtain j1 where j1: "journal_release (rv_journal s) i = (Inr True, j1)" "journal_ok j1" "held j1 = (held (rv_journal s))(i := None)"
    by (rule release_held [of "rv_journal s" i]) (use Cons.prems(1,3) e in auto)
  let ?s = "reclaim_slot actor e s"
  have js: "rv_journal ?s = j1" using j1(1) by (simp add: reclaim_slot_def e reclaim_won_journal)
  have "journal_attach (jheader j1) (bitmap j1) (jslots j1) = Inr j1" by (rule release_header [OF Cons.prems(4) j1(1)])
  moreover have "\<forall>x \<in> set l. held j1 (fst x) \<noteq> None" using Cons.prems(2,3) j1(3) e by auto
  ultimately have "journal_ok j' \<and> held j' = held j1 |` (- fst ` set l) \<and> journal_attach (jheader j') (bitmap j') (jslots j') = Inr j'"
    using Cons.IH [of ?s] Cons.prems(2,5) j1(2) by (simp add: js)
  moreover have "held j1 |` (- fst ` set l) = held (rv_journal s) |` (- fst ` set (e # l))"
    by (auto simp: j1(3) e restrict_map_def fun_eq_iff)
  ultimately show ?case by simp
qed

text \<open>The first pool of a segment sees exactly its own chunks, in order.\<close>

lemma fold_pool:
  assumes "journal_ok (rv_journal s)" and "distinct (map fst l)" and "\<forall>e \<in> set l. held (rv_journal s) (fst e) \<noteq> None"
    and "first_pool (rv_coord s) k sid" and "k = 0 \<or> (\<forall>e \<in> set l. \<exists>d. snd e = ChunkPin d)"
    and "s' = fold (reclaim_slot actor) l s"
  shows "first_pool (rv_coord s') k sid
    \<and> pools (rv_coord s') ! k = snd (reclaim_records actor (routed sid (map snd l)) (pools (rv_coord s) ! k))
    \<and> at_pool sid (rv_reclaimed s') = at_pool sid (rv_reclaimed s)
        @ fst (reclaim_records actor (routed sid (map snd l)) (pools (rv_coord s) ! k))"
  using assms
proof (induction l arbitrary: s)
  case Nil
  then show ?case by simp
next
  case (Cons e l)
  obtain i rec where e: "e = (i, rec)" by fastforce
  obtain j1 where j1: "journal_release (rv_journal s) i = (Inr True, j1)" "journal_ok j1" "held j1 = (held (rv_journal s))(i := None)"
    by (rule release_held [of "rv_journal s" i]) (use Cons.prems(1,3) e in auto)
  let ?s = "reclaim_won actor rec (s\<lparr>rv_journal := j1\<rparr>)" and ?a = "pools (rv_coord s) ! k"
  have s: "reclaim_slot actor e s = ?s" using j1(1) by (simp add: reclaim_slot_def e)
  have w: "first_pool (rv_coord ?s) k sid" "rv_journal ?s = j1"
    "pools (rv_coord ?s) ! k = snd (reclaim_records actor (routed sid [rec]) ?a)"
    "at_pool sid (rv_reclaimed ?s) = at_pool sid (rv_reclaimed s) @ fst (reclaim_records actor (routed sid [rec]) ?a)"
    using reclaim_won_pool [of "s\<lparr>rv_journal := j1\<rparr>" k sid rec ?s actor ?a] Cons.prems(4,5) e by auto
  have "\<forall>x \<in> set l. held j1 (fst x) \<noteq> None" using Cons.prems(2,3) j1(3) e by auto
  moreover have "k = 0 \<or> (\<forall>x \<in> set l. \<exists>d. snd x = ChunkPin d)" using Cons.prems(5) by auto
  ultimately have "first_pool (rv_coord s') k sid
      \<and> pools (rv_coord s') ! k = snd (reclaim_records actor (routed sid (map snd l)) (pools (rv_coord ?s) ! k))
      \<and> at_pool sid (rv_reclaimed s') = at_pool sid (rv_reclaimed ?s)
          @ fst (reclaim_records actor (routed sid (map snd l)) (pools (rv_coord ?s) ! k))"
    using Cons.IH [of ?s] Cons.prems(2,6) j1(2) w(1,2) s by simp
  then show ?case using w(3,4) reclaim_records_cons [of actor sid rec "map snd l" ?a] e by (simp add: split_beta)
qed

lemma reclaim_slot_capacity: "jcapacity (rv_journal (reclaim_slot actor e s)) = jcapacity (rv_journal s)"
  by (auto simp: reclaim_slot_def reclaim_won_journal journal_release_def Let_def split: prod.splits if_splits)

lemma reclaim_dead_capacity:
  assumes "journal_attach (jheader j) (bitmap j) (jslots j) = Inr j" and "reclaim_dead actor j c = (ds, j', c')"
  shows "jcapacity j' = jcapacity j"
proof -
  have "jcapacity (rv_journal (fold (reclaim_slot actor) l s)) = jcapacity (rv_journal s)" for l s
    by (induction l arbitrary: s) (simp_all add: reclaim_slot_capacity)
  then show ?thesis using assms by (auto simp: reclaim_dead_def Let_def)
qed

section \<open>Artifact records and deaths\<close>

text \<open>An artifact record reaches the artifact of its id only in the incarnation it was written against.\<close>

lemma hosted_incarnation:
  assumes "attach_artifact_by_id c a g = Some (Hosted name)"
  shows "\<exists>e. map_of (cd_artifacts c) name = Some e \<and> cd_artifact_name_by_id c a = Some name \<and> ah_incarnation (he_head e) = g"
  using assms
  by (auto simp: attach_artifact_by_id_def attach_store_entry_by_id_def artifact_attach_def Let_def split: if_splits option.splits sum.splits)

lemma store_incarnation:
  assumes "attach_artifact_by_id c a g = Some (StoreEntry off)"
  shows "STORE_ARTIFACT_ID_BASE \<le> a \<and> ah_incarnation (sm_heads (cd_store c) off) = g"
  using assms
  by (auto simp: attach_artifact_by_id_def attach_store_entry_by_id_def attach_at_incarnation_def attach_at_def Let_def
      split: if_splits option.splits sum.splits)

lemma on_hosted_others:
  assumes "on_artifact (Hosted name) f c = (b, c')" and "n \<noteq> name"
  shows "map_of (cd_artifacts c') n = map_of (cd_artifacts c) n" and "cd_store c' = cd_store c"
proof -
  have "map_of (map (\<lambda>(k, x). (k, if k = name then e else x)) xs) n = map_of xs n" for e :: artifact_entry and xs
    using assms(2) by (induction xs) auto
  then show "map_of (cd_artifacts c') n = map_of (cd_artifacts c) n" "cd_store c' = cd_store c"
    using assms(1) by (auto simp: on_artifact_def split: option.splits prod.splits)
qed

text \<open>The task bindings of the queue take the route of the records of dead actors.\<close>

lemma binding_route:
  assumes "STORE_ARTIFACT_ID_BASE \<le> a"
  shows "reclaim_artifact_pin a g v c =
    (case release_task_binding a g v (cd_catalog c) (cd_store c) of (b, m) \<Rightarrow> (b, c\<lparr>cd_store := m\<rparr>))"
  using assms
  by (auto simp: reclaim_artifact_pin_def attach_artifact_by_id_def attach_store_entry_by_id_def release_task_binding_def
      on_artifact_def Let_def split: option.splits sum.splits prod.splits)

text \<open>An actor is declared dead once: whoever was marked is not marked again, whatever the clock says.\<close>

lemma marked_once:
  assumes keys: "distinct (map fst (cd_actors c))" and m: "mark_dead now dl kd c = (dead, c1)" and m1: "mark_dead now' dl' kd' c1 = (dead', c2)"
  shows "set dead \<inter> set dead' = {}"
proof -
  have False if i: "i \<in> set dead" "i \<in> set dead'" for i
  proof -
    obtain a where a: "(i, a) \<in> set (cd_actors c)" "is_lapsed now dl kd i a" using i(1) m by (auto simp: mark_dead_def)
    obtain b where b: "(i, b) \<in> set (cd_actors c1)" "ae_liveness b = Alive" using i(2) m1 by (auto simp: mark_dead_def is_lapsed_def)
    then obtain a' where a': "(i, a') \<in> set (cd_actors c)" "b = (if is_lapsed now dl kd i a' then a'\<lparr>ae_liveness := Dead\<rparr> else a')"
      using m by (auto simp: mark_dead_def split: if_splits)
    have "a' = a" using a(1) a'(1) keys by (metis eq_key_imp_eq_value)
    then show False using a(2) a'(2) b(2) by simp
  qed
  then show ?thesis by blast
qed

text \<open>What \<^verbatim>\<open>reclaim_dead\<close> leaves, from the two folds.\<close>

lemma reclaim_dead_folds:
  assumes att: "journal_attach (jheader j) (bitmap j) (jslots j) = Inr j" and ok: "journal_ok j"
    and first: "first_pool c k sid" and only: "k = 0 \<or> (\<forall>r \<in> set (replay j). \<exists>d. r = ChunkPin d)"
    and run: "reclaim_dead actor j c = (ds, j', c')"
  shows "journal_ok j' \<and> journal_attach (jheader j') (bitmap j') (jslots j') = Inr j'
    \<and> held j' = (\<lambda>i. case held j i of Some e \<Rightarrow> if to_record e = None then Some e else None | None \<Rightarrow> None)
    \<and> pools c' ! k = snd (reclaim_records actor (routed sid (replay j)) (pools c ! k))
    \<and> at_pool sid ds = fst (reclaim_records actor (routed sid (replay j)) (pools c ! k))"
proof -
  let ?s0 = "\<lparr>rv_coord = c, rv_journal = j, rv_reclaimed = [], rv_pins = 0, rv_leases = 0\<rparr>" and ?l = "replay_indexed j"
  define s where "s = fold (reclaim_slot actor) ?l ?s0"
  have d: "distinct (map fst ?l)" using sorted_replay_indexed [OF ok] by (simp add: strict_sorted_iff)
  have h: "\<forall>e \<in> set ?l. held j (fst e) \<noteq> None" using set_replay_indexed [OF ok] by auto
  have only': "k = 0 \<or> (\<forall>e \<in> set ?l. \<exists>d. snd e = ChunkPin d)" using only by (simp add: replay_def)
  have r: "ds = rv_reclaimed s" "j' = rv_journal s" "pools c' = pools (rv_coord s)"
    using run att by (auto simp: reclaim_dead_def s_def Let_def pools_def split: if_splits)
  have jn: "journal_ok j'" "held j' = held j |` (- fst ` set ?l)" "journal_attach (jheader j') (bitmap j') (jslots j') = Inr j'"
    using fold_journal [of ?s0 ?l j' actor] ok d h att r(2) by (simp_all add: s_def)
  have "held j' i = (case held j i of Some e \<Rightarrow> if to_record e = None then Some e else None | None \<Rightarrow> None)" for i
    using set_replay_indexed [OF ok] by (force simp: jn(2) restrict_map_def image_iff split: option.splits)
  then have hj: "held j' = (\<lambda>i. case held j i of Some e \<Rightarrow> if to_record e = None then Some e else None | None \<Rightarrow> None)" by blast
  note p = fold_pool [of ?s0 ?l k sid s actor]
  have "pools (rv_coord s) ! k = snd (reclaim_records actor (routed sid (replay j)) (pools c ! k))"
    "at_pool sid (rv_reclaimed s) = fst (reclaim_records actor (routed sid (replay j)) (pools c ! k))"
    using p ok d h first only' by (simp_all add: s_def replay_def at_pool_def)
  then show ?thesis using jn hj r by simp
qed

text \<open>A journal of chunks of one segment is replayed as the single-pool core does it.\<close>

lemma reclaim_dead_core:
  assumes "journal_attach (jheader j) (bitmap j) (jslots j) = Inr j" and "journal_ok j" and "first_pool c k sid"
    and "\<forall>r \<in> set (replay j). \<exists>d. r = ChunkPin d \<and> segment_id d = sid" and "reclaim_dead actor j c = (ds, j', c')"
  shows "replay_and_reclaim j actor (pools c ! k) = (at_pool sid ds, pools c' ! k)"
proof -
  have "routed sid (replay j) = replay j" using assms(4) by (force simp: routed_def filter_id_conv)
  moreover have "k = 0 \<or> (\<forall>r \<in> set (replay j). \<exists>d. r = ChunkPin d)" using assms(4) by blast
  ultimately show ?thesis using reclaim_dead_folds [OF assms(1-3) _ assms(5)] by (simp add: replay_and_reclaim_def prod_eq_iff)
qed

lemma reclaim_dead_again:
  assumes "journal_ok j" and "journal_attach (jheader j) (bitmap j) (jslots j) = Inr j"
    and "\<forall>i e. held j i = Some e \<longrightarrow> to_record e = None"
  shows "reclaim_dead actor j c = ([], j, c)"
proof -
  have "set (replay_indexed j) = {}" using set_replay_indexed [OF assms(1)] assms(3) by auto
  then show ?thesis using assms(2) by (simp add: reclaim_dead_def)
qed


section \<open>An input\<close>

lemma created_attaches:
  assumes "journal_create sg cap = Inr j" and "cap < 2 ^ 32"
  shows "journal_attach (jheader j) (bitmap j) (jslots j) = Inr j"
  using assms by (auto simp: journal_create_def journal_attach_def unat_of_nat_u32 split: if_splits prod.splits)

lemma recorded_attaches:
  assumes "journal_attach (jheader j) (bitmap j) (jslots j) = Inr j" and "j' = snd (record_entry j e)"
  shows "journal_attach (jheader j') (bitmap j') (jslots j') = Inr j'"
proof -
  have "jwords (snd (record_scan j e w ks)) = jwords j \<and> jcapacity (snd (record_scan j e w ks)) = jcapacity j
      \<and> jh_magic (jheader (snd (record_scan j e w ks))) = jh_magic (jheader j)
      \<and> jh_capacity (jheader (snd (record_scan j e w ks))) = jh_capacity (jheader j)" for w ks
    by (induction ks) (simp_all add: Let_def)
  then show ?thesis using assms unfolding record_entry_def attaches_iff by simp
qed

text \<open>A coordinator with a payload pool, no artifacts and an empty store.\<close>

definition demo_coord :: "arena \<Rightarrow> coord" where
  "demo_coord a =
     \<lparr>cd_payload = a, cd_artifacts = [], cd_artifact_name_by_id = Map.empty, cd_catalog = demo_catalog,
      cd_store = \<lparr>sm_head_seg = demo_segment, sm_heads = (\<lambda>_. fresh_head), sm_arena = demo_arena\<rparr>,
      cd_task_queue = projr (task_init_with_max_retries 0 4096 1 3), cd_cursor = \<lparr>sc_val = 0, sc_seed = 5\<rparr>,
      cd_actors = [], cd_reclaimed = [], cd_artifact_pins = 0, cd_write_leases = 0, cd_task_bindings = 0,
      cd_schemas = \<lparr>it_ids = Map.empty, it_bytes = Map.empty, it_next = FIRST_USER_SCHEMA_ID\<rparr>,
      cd_keys = \<lparr>it_ids = Map.empty, it_bytes = Map.empty, it_next = 1\<rparr>\<rparr>"


end
