(* ===== verification/Spec2Isabelle.thy ===== *)
theory Spec2Isabelle
  imports Shm_Ctrl_Conc Shm_Treiber_Conc Shm_Pool Shm_Journal_Conc Shm_Ring_Conc Shm_Task_Prop Shm_Protocol Shm_Head_Conc Shm_Store_Pin Shm_Coordinator
begin

text \<open>
  Verification of \<^verbatim>\<open>shm-actors\<close>, a zero-copy messaging and storage runtime over shared memory.

  The program. A \<^emph>\<open>segment\<close> is a mapped region; a \<^emph>\<open>pool\<close> cuts it into size classes of chunks, each chunk
  with a control word (state and reference count), an owner and a generation. Processes name a chunk by
  a \<^emph>\<open>descriptor\<close> (segment, offset, length, generation), checked against the generation on use. Free
  chunks are on lock-free stacks. A \<^emph>\<open>borrow journal\<close> in shared memory records which process holds what,
  so that the coordinator can give back what a dead process held. Above that: a broadcast \<^emph>\<open>ring\<close> of
  descriptors, a work \<^emph>\<open>queue\<close> with leases and retries, versioned \<^emph>\<open>artifacts\<close> (a head with pin slots, one
  manifest chunk per version, linked into a chain), a keyed \<^emph>\<open>store\<close> with a catalog of artifacts, and a
  \<^emph>\<open>coordinator\<close> that speaks a length-prefixed protocol over a Unix socket.

  Theories, and the code they model (paths under \<^verbatim>\<open>src/crates\<close>):

  \<^item> \<open>Shm_Prelude\<close>: the machine word types, compare-and-exchange on a value, shared list and word lemmas.
  \<^item> \<open>Shm_Desc\<close>: \<^verbatim>\<open>shm-core/src/desc.rs\<close>, \<^verbatim>\<open>error.rs\<close>. \<open>chunk_desc\<close>, the packed reference.
  \<^item> \<open>Shm_Segment\<close>: \<^verbatim>\<open>shm-core/src/segment.rs\<close>. Creation, attachment, \<open>segment_resolve\<close>. The mapping itself is
    a parameter where bytes matter.
  \<^item> \<open>Shm_Ctrl\<close>: \<^verbatim>\<open>shm-core/src/ctrl.rs\<close>, every operation of \<^verbatim>\<open>ChunkCtrl\<close> run alone. The contract is
    \<open>chunk_life\<close> (who holds the chunk); \<open>ctrl_refines_life\<close> is the refinement.
  \<^item> \<open>Shm_Ctrl_Conc\<close>: the same operations one atomic access at a time, readers and owner interleaved.
  \<^item> \<open>Shm_Treiber\<close>, \<open>Shm_Treiber_Conc\<close>: \<^verbatim>\<open>treiber_push\<close> and \<^verbatim>\<open>treiber_pop\<close> of \<^verbatim>\<open>shm-core/src/pool.rs\<close>, alone and
    interleaved, with the tagged head. The stack is an interface (a locale) that the pool, the task
    queue and the catalog use.
  \<^item> \<open>Shm_Pool\<close>: the rest of \<^verbatim>\<open>pool.rs\<close>. Layout, creation, allocation, free; no two allocations share bytes.
  \<^item> \<open>Shm_Journal\<close>, \<open>Shm_Journal_Conc\<close>: \<^verbatim>\<open>shm-core/src/journal.rs\<close>. Entries, recording, release, replay; the
    recorder and the releasers interleaved.
  \<^item> \<open>Shm_Ring\<close>, \<open>Shm_Ring_Conc\<close>: \<^verbatim>\<open>shm-ring/src/ring.rs\<close>, \<^verbatim>\<open>subscribe.rs\<close>. The ring refines a numbered log;
    back-pressure; a reader racing the producer.
  \<^item> \<open>Shm_Shards\<close>, \<open>Shm_Task\<close>, \<open>Shm_Task_Inv\<close>, \<open>Shm_Task_Ops\<close>, \<open>Shm_Task_Prop\<close>: \<^verbatim>\<open>shm-task/src/queue.rs\<close>. The sharded
    free and ready stacks, the model, its invariant, that every operation keeps it, the properties.
  \<^item> \<open>Shm_Bytes\<close>: little-endian records in byte buffers (a locale for a fixed-size record codec).
  \<^item> \<open>Shm_Protocol\<close>: \<^verbatim>\<open>shm-runtime/src/protocol.rs\<close>, \<^verbatim>\<open>uds.rs\<close>. Both codecs, framing, the receive loop.
  \<^item> \<open>Shm_Head\<close>, \<open>Shm_Head_Conc\<close>: \<^verbatim>\<open>shm-artifact/src/head.rs\<close>, and the pin, retire and install steps of
    \<^verbatim>\<open>artifact.rs\<close> on one slot, interleaved.
  \<^item> \<open>Shm_Manifest\<close>: \<^verbatim>\<open>shm-artifact/src/manifest.rs\<close>. Writer, parser, chain walk.
  \<^item> \<open>Shm_Catalog\<close>: \<^verbatim>\<open>shm-store/src/catalog.rs\<close> and the exchange of \<^verbatim>\<open>KeyedStore::evict\<close>.
  \<^item> \<open>Shm_Ledger\<close>: the chunk helpers of \<^verbatim>\<open>shm-artifact/src/artifact.rs\<close>, the allocator of \<^verbatim>\<open>shm-arrow/src/alloc.rs\<close>
    and the single-pool replay of \<^verbatim>\<open>shm-runtime/src/coordinator.rs\<close> over one segment (\<open>arena\<close>: a pool and its bytes). \<open>ledger\<close>
    says who holds every chunk; releasing a list of chunks is an interface (a locale).
  \<^item> \<open>Shm_Cascade\<close>: \<^verbatim>\<open>release_manifest_ref\<close>, the release of a manifest and of what it owns along its chain.
  \<^item> \<open>Shm_Window\<close>: \<^verbatim>\<open>event.rs\<close>, the commit kinds and the window arithmetic of \<^verbatim>\<open>artifact.rs\<close>.
  \<^item> \<open>Shm_Artifact\<close>: the operations of \<^verbatim>\<open>artifact.rs\<close>, each run to completion.
  \<^item> \<open>Shm_Chain\<close>: the table of batches that a chain of manifests stands for, and reading it from the segment.
  \<^item> \<open>Shm_Commit\<close>, \<open>Shm_Install\<close>: the steps of a commit on the segment, and the whole commit on the head.
  \<^item> \<open>Shm_Artifact_Inv\<close>, \<open>Shm_Artifact_Run\<close>: the account of an artifact, that retiring, pinning and unpinning keep
    it, and runs of all operations with the properties of an artifact as a whole.
  \<^item> \<open>Shm_Typed_Ref\<close>: \<^verbatim>\<open>shm-store/src/typed_ref.rs\<close>, the envelope that names an entry of the store to another process.
  \<^item> \<open>Shm_Schema\<close>: \<^verbatim>\<open>shm-arrow/src/schema.rs\<close>, the content hash and the schema cache; interning is an interface (a
    locale), and serialising a schema a parameter.
  \<^item> \<open>Shm_Store\<close>: \<^verbatim>\<open>shm-store/src/store.rs\<close>, the keyed store: catalog, heads and chunks (\<open>store_mem\<close>), each actor's journal
    and schema cache, every operation of \<^verbatim>\<open>KeyedStore\<close> and \<^verbatim>\<open>Entry\<close>, and the invariant \<open>store_ok\<close>. Interning a key and
    building an Arrow batch from chunks are parameters.
  \<^item> \<open>Shm_Store_Prop\<close>, \<open>Shm_Store_Pin\<close>: keys, eviction and the sweep; pins, retained references and bindings.
  \<^item> \<open>Shm_Coordinator\<close>: the recovery side of \<^verbatim>\<open>shm-runtime/src/coordinator.rs\<close> (\<open>coord\<close>: the hosted pools and artifacts,
    the store, the task queue and the actors' journals): \<^verbatim>\<open>reclaim_dead\<close> and its routing, task bindings, the body of
    a tick of the monitor; and the master catalogs of schemas and keys, which instantiate the interface of interning.

  How the code is translated. A struct is a record, an enum a datatype, an unsigned integer a word of its
  width (\<open>u8\<close> \<dots> \<open>u64\<close>), \<^verbatim>\<open>usize\<close> a natural number where the code's checks keep it below \<open>2 ^ 64\<close>; a
  \<^verbatim>\<open>Result\<close> is a sum with the error on the left. An operation takes the shared state and returns it
  updated. Run alone, a compare-and-exchange loop succeeds at its first attempt, so the sequential models
  have no loop there; what interference does to those loops is the subject of the theories ending in
  \<open>_Conc\<close>, where each atomic access is one step of an inductive relation and memory is sequentially
  consistent; the descriptor in a ring slot, which is not atomic, is copied there in cells, one step per
  cell and in any order, on both sides. Pointers into a mapping are offsets.

  What is shown. Chunks: the control word refines the life cycle, a descriptor of a recycled chunk is
  refused, a held reference keeps its chunk, in every interleaving a borrow that succeeds holds a live
  chunk and a chunk is freed once. Stacks: linearizable. Pools: the layout is disjoint, allocation gives
  the first class that fits, chunks in use never overlap. Journal: replay gives exactly what was recorded
  and not released. Ring: each subscriber gets a gap-free account of what was published, or is told how
  much it missed. Queue: the invariant over every run, claims take queued tasks and drain the queue,
  a submit is refused exactly when no slot is in its reach, handles of old incarnations are refused,
  leases lapse exactly at their deadline, bindings are released once. Protocol: both codecs round-trip, cut bodies are refused. Artifacts: fenced leases, a pin that was
  accepted blocks the release, manifests round-trip, the chain walk returns exactly the well-formed
  chains. Catalog: the invariant over every run, incarnations never repeat, evictions hit the entry seen.
  Artifacts as a whole, over every run of their operations: references, loans and free lists account for
  every chunk, a commit is atomic and installs the table its kind asks for, a pinned version never
  changes, pins and teardowns end, the replay of a dead reader does what its own drop would have done, and
  a teardown returns every chunk. Store: a key opens what was created under it until it is evicted, and
  operations on one key leave the others alone; the sweep frees exactly the finished entries; resolving a
  typed reference is all or nothing; a retained reference is one pin, given back to the entry it was taken
  from or to none. Envelopes and the schema cache say what was put into them. Coordinator: the records of a dead actor are each won once, and the chunks it had journaled are given back, no more.

  Some theorems show what the code does where its comments promise otherwise: the edge of the ring's lap
  check, two recorders on one journal lane, \<^verbatim>\<open>PoolConfig::power_of_two\<close> on a ladder that reaches \<open>2 ^ 31\<close>,
  frames that arrive together, a retirer whose slot changed hands, and an eviction whose slot was recycled.

  Bounds and fuel. Loops that the code bounds recurse on that bound (pool classes, ring and lane
  capacities, \<open>DRAIN_DIG\<close>, the depth of a manifest chain, which is the measure of \<open>walk_loop\<close>). Loops it does not
  bound, the doubling of \<open>power_of_two_loop\<close> and the walk of \<open>free_walk\<close> over a corrupt list, are partial
  functions into \<open>option\<close>, and the theorems say when they return. Generations and incarnations are words:
  statements about stale handles say how many recycles they cover. Reader counts stay below \<open>2 ^ 32\<close> as
  hypotheses, because the code increments without a check.

  Not modelled, and why. The coordinator's connection handlers, registration and segment grants, the node's
  client side and the binaries are sockets, threads and process identifiers around the operations above.
  The rest of \<^verbatim>\<open>shm-arrow\<close>, and the parts of artifacts and store that move Arrow arrays, rest on a third-party crate.
  Weak memory orderings are not modelled: the interleavings are sequentially consistent.
  \<^verbatim>\<open>shm-stream\<close> and the holon crates are built from the operations above and are left out. A run of an
  artifact or of the store has one operation at a time: what interleaving does to a single slot is in \<open>Shm_Head_Conc\<close>. Runs exclude a commit onto a torn-down lineage while a version of it is still
  pinned, which the comment of \<^verbatim>\<open>evict_all\<close> leaves to its caller, and assume fewer than \<open>2 ^ 32 - 1\<close> pins.
\<close>

end
